(* ===== verification/Prelude.thy ===== *)
theory Prelude
  imports Main "HOL-Library.Word"
begin

text \<open>
  Vocabulary shared by every component theory: the types of bytes and of JavaScript strings,
  the errors a JavaScript operation can throw, the collections of rewrite rules the component
  proofs are driven by, and generic facts about words and lists.
\<close>

section \<open>Types\<close>

type_synonym byte = "8 word"

text \<open>A JavaScript string is a sequence of 16-bit code units; \<open>js\<close> embeds an ASCII literal.\<close>

type_synonym jschar = "16 word"
type_synonym jsstring = "16 word list"

definition js :: "string \<Rightarrow> jsstring" where
  "js s = map of_char s"

text \<open>
  What a JavaScript operation of the modelled code can throw. \<open>NonFinite\<close> marks the point where
  the source's arithmetic would leave the finite doubles (it continues with Infinity or NaN);
  the model stops there.
\<close>

datatype js_error =
    UnexpectedEndOfArray
  | IntegerOutOfRange
  | UnexpectedCase
  | InvalidCharacter
  | MalformedUtf8
  | RangeError
  | TypeErr
  | NonFinite

type_synonym 'a result = "js_error + 'a"

section \<open>Rewrite collections\<close>

named_theorems byte_simps \<open>values of bytes and words as natural numbers\<close>
named_theorems sink_simps \<open>effect of the writers on the bytes of an encoder\<close>
named_theorems read_simps \<open>effect of the readers on a decoder\<close>

section \<open>Words\<close>

lemma unat_of_nat8 [byte_simps]: "unat (of_nat n :: byte) = n mod 256"
  by (simp add: unat_of_nat take_bit_eq_mod)

lemma unat_of_nat16 [byte_simps]: "unat (of_nat n :: jschar) = n mod 65536"
  by (simp add: unat_of_nat take_bit_eq_mod)

lemma unat_byte_lt [simp, intro]: "unat (b :: byte) < 256"
  using unsigned_less [of b, where ?'a = nat] by simp

lemma unat_jschar_lt [simp, intro]: "unat (c :: jschar) < 65536"
  using unsigned_less [of c, where ?'a = nat] by simp

lemma word_eq_unat: "(a :: 'a::len word) = b \<longleftrightarrow> unat a = unat b"
  by (rule word_unat_eq_iff)

lemma of_nat_unat [simp]: "of_nat (unat (w :: 'a::len word)) = w"
  by simp

lemma js_simps [simp]:
  "js [] = []" "js (c # s) = of_char c # js s" "length (js s) = length s"
  by (simp_all add: js_def)

lemma js_append: "js (s @ t) = js s @ js t"
  by (simp add: js_def)

section \<open>Lists\<close>

lemma list_update_last [simp]: "i = length xs \<Longrightarrow> (xs @ y # ys)[i := z] = xs @ z # ys"
  by (simp add: list_update_append)

lemma take_Suc_update: "i < length xs \<Longrightarrow> take (Suc i) (xs[i := x]) = take i xs @ [x]"
  by (simp add: take_Suc_conv_app_nth)

lemma drop_eq_Cons_nth: "drop i xs = y # ys \<Longrightarrow> i < length xs \<and> xs ! i = y \<and> drop (Suc i) xs = ys"
  by (metis Cons_nth_drop_Suc drop_all leI list.inject list.simps(3))

lemma drop_eq_append: "drop i xs = ys @ zs \<Longrightarrow> drop (i + length ys) xs = zs"
  by (metis add.commute append_eq_conv_conj drop_drop)

end
