(* ===== verification/JsRuntime.thy ===== *)
theory JsRuntime
  imports Prelude
begin

text \<open>
  What the frontend and the libraries it loads use of the JavaScript runtime: the rounding of
  integer-valued doubles, signed integers with a negative zero, UTF-16 strings and their UTF-8
  encoding (\<open>TextEncoder\<close>, \<open>TextDecoder\<close> with \<open>fatal: true\<close>), and the Web functions
  \<open>btoa\<close> and \<open>atob\<close>. Nothing here is code of the repository: these are the language's own
  operations, written out so that the component theories can evaluate them.
\<close>

section \<open>Numbers\<close>

definition MAX_SAFE_INTEGER :: nat where
  "MAX_SAFE_INTEGER = 2 ^ 53 - 1"

fun bit_length :: "nat \<Rightarrow> nat" where
  "bit_length n = (if n = 0 then 0 else Suc (bit_length (n div 2)))"

declare bit_length.simps [simp del]

text \<open>The double nearest to a natural number, ties to even.\<close>

definition js_round :: "nat \<Rightarrow> nat" where
  "js_round n =
     (if n \<le> 2 ^ 53 then n
      else let k = bit_length n - 53; q = n div 2 ^ k; r = n mod 2 ^ k; h = 2 ^ (k - 1)
           in if h < r \<or> (r = h \<and> odd q) then Suc q * 2 ^ k else q * 2 ^ k)"

text \<open>An integer-valued double is a sign and a magnitude: \<open>-0\<close> differs from \<open>0\<close>.\<close>

datatype jsint = JInt (jneg: bool) (jmag: nat)

definition jsint_val :: "jsint \<Rightarrow> int" where
  "jsint_val x = (if jneg x then - int (jmag x) else int (jmag x))"

definition jsint_of :: "int \<Rightarrow> jsint" where
  "jsint_of i = JInt (i < 0) (nat \<bar>i\<bar>)"

definition jsint_neg :: "jsint \<Rightarrow> jsint" where
  "jsint_neg x = JInt (\<not> jneg x) (jmag x)"

section \<open>UTF-16 and UTF-8\<close>

definition is_lead :: "jschar \<Rightarrow> bool" where
  "is_lead c \<longleftrightarrow> 55296 \<le> unat c \<and> unat c \<le> 56319"

definition is_trail :: "jschar \<Rightarrow> bool" where
  "is_trail c \<longleftrightarrow> 56320 \<le> unat c \<and> unat c \<le> 57343"

text \<open>The scalar values of a string: a lone surrogate reads as U+FFFD.\<close>

fun code_points :: "jsstring \<Rightarrow> nat list" where
  "code_points [] = []"
| "code_points [c] = (if is_lead c \<or> is_trail c then [65533] else [unat c])"
| "code_points (c # d # ds) =
     (if is_lead c \<and> is_trail d
      then (65536 + (unat c - 55296) * 1024 + (unat d - 56320)) # code_points ds
      else if is_lead c \<or> is_trail c then 65533 # code_points (d # ds)
      else unat c # code_points (d # ds))"

fun well_formed_utf16 :: "jsstring \<Rightarrow> bool" where
  "well_formed_utf16 [] = True"
| "well_formed_utf16 [c] = (\<not> is_lead c \<and> \<not> is_trail c)"
| "well_formed_utf16 (c # d # ds) =
     (if is_lead c then is_trail d \<and> well_formed_utf16 ds
      else \<not> is_trail c \<and> well_formed_utf16 (d # ds))"

definition utf16_of :: "nat \<Rightarrow> jsstring" where
  "utf16_of n =
     (if n < 65536 then [of_nat n]
      else [of_nat (55296 + (n - 65536) div 1024), of_nat (56320 + (n - 65536) mod 1024)])"

definition utf8_of :: "nat \<Rightarrow> byte list" where
  "utf8_of n =
     (if n < 128 then [of_nat n]
      else if n < 2048 then [of_nat (192 + n div 64), of_nat (128 + n mod 64)]
      else if n < 65536 then
        [of_nat (224 + n div 4096), of_nat (128 + n div 64 mod 64), of_nat (128 + n mod 64)]
      else
        [of_nat (240 + n div 262144), of_nat (128 + n div 4096 mod 64),
         of_nat (128 + n div 64 mod 64), of_nat (128 + n mod 64)])"

definition encodeUtf8 :: "jsstring \<Rightarrow> byte list" where
  "encodeUtf8 s = concat (map utf8_of (code_points s))"

definition is_cont :: "byte \<Rightarrow> bool" where
  "is_cont b \<longleftrightarrow> 128 \<le> unat b \<and> unat b \<le> 191"

text \<open>
  The Encoding Standard's UTF-8 decoder in fatal mode: overlong forms, surrogates and values past
  U+10FFFF are errors, by the bounds on the second byte.
\<close>

fun decode_points :: "byte list \<Rightarrow> nat list option" where
  "decode_points [] = Some []"
| "decode_points (a # as) =
     (let x = unat a in
      if x < 128 then map_option ((#) x) (decode_points as)
      else if 194 \<le> x \<and> x \<le> 223 then
        (case as of
           b # bs \<Rightarrow>
             if is_cont b
             then map_option ((#) ((x - 192) * 64 + (unat b - 128))) (decode_points bs)
             else None
         | [] \<Rightarrow> None)
      else if 224 \<le> x \<and> x \<le> 239 then
        (case as of
           b # c # cs \<Rightarrow>
             if is_cont b \<and> is_cont c \<and> (x = 224 \<longrightarrow> 160 \<le> unat b) \<and> (x = 237 \<longrightarrow> unat b \<le> 159)
             then map_option
                    ((#) ((x - 224) * 4096 + (unat b - 128) * 64 + (unat c - 128)))
                    (decode_points cs)
             else None
         | _ \<Rightarrow> None)
      else if 240 \<le> x \<and> x \<le> 244 then
        (case as of
           b # c # d # ds \<Rightarrow>
             if is_cont b \<and> is_cont c \<and> is_cont d \<and> (x = 240 \<longrightarrow> 144 \<le> unat b)
                \<and> (x = 244 \<longrightarrow> unat b \<le> 143)
             then map_option
                    ((#) ((x - 240) * 262144 + (unat b - 128) * 4096 + (unat c - 128) * 64
                          + (unat d - 128)))
                    (decode_points ds)
             else None
         | _ \<Rightarrow> None)
      else None)"

definition decodeUtf8 :: "byte list \<Rightarrow> jsstring result" where
  "decodeUtf8 bs =
     (case decode_points bs of
        None \<Rightarrow> Inl MalformedUtf8
      | Some ps \<Rightarrow> Inr (concat (map utf16_of ps)))"

section \<open>Base64\<close>

definition b64_char :: "nat \<Rightarrow> jschar" where
  "b64_char n =
     (if n < 26 then of_nat (65 + n) else if n < 52 then of_nat (71 + n)
      else if n < 62 then of_nat (n - 4) else if n = 62 then 43 else 47)"

definition b64_val :: "jschar \<Rightarrow> nat option" where
  "b64_val c =
     (let x = unat c in
      if 65 \<le> x \<and> x \<le> 90 then Some (x - 65)
      else if 97 \<le> x \<and> x \<le> 122 then Some (x - 71)
      else if 48 \<le> x \<and> x \<le> 57 then Some (x + 4)
      else if x = 43 then Some 62 else if x = 47 then Some 63 else None)"

text \<open>\<open>btoa\<close> on code units that are all below 256, three bytes to four characters.\<close>

fun b64_encode :: "nat list \<Rightarrow> jsstring" where
  "b64_encode [] = []"
| "b64_encode [a] = [b64_char (a div 4), b64_char (a mod 4 * 16), 61, 61]"
| "b64_encode [a, b] =
     [b64_char (a div 4), b64_char (a mod 4 * 16 + b div 16), b64_char (b mod 16 * 4), 61]"
| "b64_encode (a # b # c # cs) =
     b64_char (a div 4) # b64_char (a mod 4 * 16 + b div 16)
       # b64_char (b mod 16 * 4 + c div 64) # b64_char (c mod 64) # b64_encode cs"

definition btoa :: "jsstring \<Rightarrow> jsstring result" where
  "btoa s =
     (if \<exists>c \<in> set s. 255 < unat c then Inl InvalidCharacter else Inr (b64_encode (map unat s)))"

fun b64_decode :: "nat list \<Rightarrow> nat list" where
  "b64_decode (a # b # c # d # ds) =
     (a * 4 + b div 16) # (b mod 16 * 16 + c div 4) # (c mod 4 * 64 + d) # b64_decode ds"
| "b64_decode [a, b, c] = [a * 4 + b div 16, b mod 16 * 16 + c div 4]"
| "b64_decode [a, b] = [a * 4 + b div 16]"
| "b64_decode _ = []"

definition is_ascii_space :: "jschar \<Rightarrow> bool" where
  "is_ascii_space c \<longleftrightarrow> unat c \<in> {9, 10, 12, 13, 32}"

definition strip_padding :: "jsstring \<Rightarrow> jsstring" where
  "strip_padding s =
     (if length s mod 4 = 0
      then (if 2 \<le> length s \<and> s ! (length s - 1) = 61 \<and> s ! (length s - 2) = 61
            then take (length s - 2) s
            else if 1 \<le> length s \<and> s ! (length s - 1) = 61 then take (length s - 1) s
            else s)
      else s)"

text \<open>The forgiving-base64 decoder of the Infra Standard, as \<open>atob\<close> runs it.\<close>

definition atob :: "jsstring \<Rightarrow> jsstring result" where
  "atob s =
     (let t = strip_padding (filter (\<lambda>c. \<not> is_ascii_space c) s) in
      if length t mod 4 = 1 \<or> (\<exists>c \<in> set t. b64_val c = None) then Inl InvalidCharacter
      else Inr (map of_nat (b64_decode (map (\<lambda>c. the (b64_val c)) t))))"

section \<open>Facts\<close>

lemma js_round_small [simp]: "n \<le> 2 ^ 53 \<Longrightarrow> js_round n = n"
  by (simp add: js_round_def)

lemma unat_b64_char:
  "n < 64 \<Longrightarrow> unat (b64_char n) =
     (if n < 26 then 65 + n else if n < 52 then 71 + n else if n < 62 then n - 4
      else if n = 62 then 43 else 47)"
  by (simp add: b64_char_def byte_simps del: of_nat_add of_nat_diff)

lemma b64_val_char [simp]: "n < 64 \<Longrightarrow> b64_val (b64_char n) = Some n"
  by (auto simp: b64_val_def Let_def unat_b64_char)

lemma b64_char_not_space [simp]: "n < 64 \<Longrightarrow> \<not> is_ascii_space (b64_char n)"
  by (auto simp: is_ascii_space_def unat_b64_char split: if_splits)

lemma b64_char_not_pad [simp]: "n < 64 \<Longrightarrow> b64_char n \<noteq> 61"
  by (auto simp: word_eq_unat unat_b64_char split: if_splits)

text \<open>The sextets of a byte sequence, and the padding \<open>btoa\<close> adds to them.\<close>

fun b64_sextets :: "nat list \<Rightarrow> nat list" where
  "b64_sextets [] = []"
| "b64_sextets [a] = [a div 4, a mod 4 * 16]"
| "b64_sextets [a, b] = [a div 4, a mod 4 * 16 + b div 16, b mod 16 * 4]"
| "b64_sextets (a # b # c # cs) =
     a div 4 # (a mod 4 * 16 + b div 16) # (b mod 16 * 4 + c div 64) # c mod 64 # b64_sextets cs"

definition b64_pad :: "nat list \<Rightarrow> jsstring" where
  "b64_pad xs = (case length xs mod 3 of 0 \<Rightarrow> [] | Suc 0 \<Rightarrow> [61, 61] | _ \<Rightarrow> [61])"

lemma b64_pad_not_space: "c \<in> set (b64_pad xs) \<Longrightarrow> \<not> is_ascii_space c"
  by (cases "length xs mod 3"; cases "length xs mod 3 - 1")
     (auto simp: b64_pad_def is_ascii_space_def)

lemma b64_encode_split: "b64_encode xs = map b64_char (b64_sextets xs) @ b64_pad xs"
proof (induction xs rule: b64_encode.induct)
  case (4 a b c cs)
  have "length (a # b # c # cs) mod 3 = length cs mod 3" by simp
  then have "b64_pad (a # b # c # cs) = b64_pad cs"
    by (simp only: b64_pad_def)
  with 4 show ?case by simp
qed (simp_all add: b64_pad_def numeral_2_eq_2)

lemma b64_sextets_lt:
  "\<forall>x \<in> set xs. x < 256 \<Longrightarrow> y \<in> set (b64_sextets xs) \<Longrightarrow> y < 64"
  by (induction xs rule: b64_sextets.induct) auto

lemma b64_decode_sextets: "\<forall>x \<in> set xs. x < 256 \<Longrightarrow> b64_decode (b64_sextets xs) = xs"
proof (induction xs rule: b64_sextets.induct)
  case (4 a b c cs)
  then have "b < 256" "c < 256" by simp_all
  then have "b div 16 div 16 = 0" "b div 16 mod 16 = b div 16"
     "c div 64 div 4 = 0" "c div 64 mod 4 = c div 64"
    by simp_all
  with 4 show ?case by (simp add: div_mult_mod_eq)
qed auto

lemma length_b64_sextets:
  "length (b64_sextets xs) = length xs div 3 * 4 + (case length xs mod 3 of 0 \<Rightarrow> 0 | Suc k \<Rightarrow> k + 2)"
proof (induction xs rule: b64_sextets.induct)
  case (4 a b c cs)
  have "length (a # b # c # cs) mod 3 = length cs mod 3"
    "length (a # b # c # cs) div 3 = Suc (length cs div 3)" by simp_all
  with 4 show ?case by (simp only: b64_sextets.simps length_Cons mult_Suc)
qed simp_all

lemma strip_padding_encode:
  assumes "\<forall>x \<in> set xs. x < 256"
  shows "strip_padding (map b64_char (b64_sextets xs) @ b64_pad xs) = map b64_char (b64_sextets xs)"
proof -
  let ?s = "map b64_char (b64_sextets xs)"
  have no_pad: "?s ! i \<noteq> 61" if "i < length ?s" for i
    using that assms by (metis b64_char_not_pad b64_sextets_lt length_map nth_map nth_mem)
  consider "length xs mod 3 = 0" | "length xs mod 3 = 1" | "length xs mod 3 = 2"
    by linarith
  then show ?thesis
  proof cases
    case 1
    with no_pad [of "length ?s - 1"] no_pad [of "length ?s - 2"] show ?thesis
      by (auto simp: strip_padding_def b64_pad_def)
  next
    case 2
    then show ?thesis
      by (simp add: strip_padding_def b64_pad_def length_b64_sextets nth_append)
  next
    case 3
    with no_pad [of "length ?s - 1"] show ?thesis
      by (simp add: strip_padding_def b64_pad_def length_b64_sextets nth_append numeral_2_eq_2)
  qed
qed

lemma atob_b64_encode:
  assumes "\<forall>x \<in> set xs. x < 256"
  shows "atob (b64_encode xs) = Inr (map of_nat xs)"
proof -
  let ?t = "b64_sextets xs"
  have lt: "y < 64" if "y \<in> set ?t" for y using b64_sextets_lt [OF assms that] .
  have "\<not> is_ascii_space c" if "c \<in> set (b64_encode xs)" for c
    using that by (auto simp: b64_encode_split lt dest: b64_pad_not_space)
  then have "filter (\<lambda>c. \<not> is_ascii_space c) (b64_encode xs) = b64_encode xs"
    by (simp add: filter_id_conv)
  moreover have "strip_padding (b64_encode xs) = map b64_char ?t"
    unfolding b64_encode_split by (rule strip_padding_encode [OF assms])
  moreover have "map (\<lambda>c. the (b64_val c)) (map b64_char ?t) = ?t"
    by (auto simp: lt intro!: map_idI)
  moreover have "length ?t mod 4 \<noteq> 1"
    by (auto simp: length_b64_sextets split: nat.split)
  ultimately show ?thesis
    by (auto simp: atob_def Let_def b64_decode_sextets [OF assms] lt)
qed


subsection \<open>UTF-8 round trip\<close>

definition scalar :: "nat \<Rightarrow> bool" where
  "scalar n \<longleftrightarrow> n < 1114112 \<and> \<not> (55296 \<le> n \<and> n \<le> 57343)"

lemma nat_split2: "n div 64 * 64 + n mod 64 = (n::nat)"
  by simp

lemma nat_split3: "n div 4096 * 4096 + n div 64 mod 64 * 64 + n mod 64 = (n::nat)"
proof -
  have "n div 4096 = n div 64 div 64" using div_mult2_eq [of n 64 64] by simp
  then show ?thesis
    using div_mult_mod_eq [of n 64] div_mult_mod_eq [of "n div 64" 64] by linarith
qed

lemma nat_split4:
  "n div 262144 * 262144 + n div 4096 mod 64 * 4096 + n div 64 mod 64 * 64 + n mod 64 = (n::nat)"
proof -
  have "n div 262144 = n div 4096 div 64" using div_mult2_eq [of n 4096 64] by simp
  then show ?thesis
    using nat_split3 [of n] div_mult_mod_eq [of "n div 4096" 64] by linarith
qed

lemma decode_points_utf8_of2:
  assumes "2 \<le> q" "q \<le> 31" "r \<le> 63"
  shows "decode_points (of_nat (192 + q) # of_nat (128 + r) # bs)
     = map_option ((#) (q * 64 + r)) (decode_points bs)"
  using assms by (simp add: is_cont_def Let_def byte_simps del: of_nat_add)

lemma decode_points_utf8_of3:
  assumes "p \<le> 15" "q \<le> 63" "r \<le> 63" "p = 0 \<Longrightarrow> 32 \<le> q" "p = 13 \<Longrightarrow> q \<le> 31"
  shows "decode_points (of_nat (224 + p) # of_nat (128 + q) # of_nat (128 + r) # bs)
     = map_option ((#) (p * 4096 + q * 64 + r)) (decode_points bs)"
  using assms by (simp add: is_cont_def Let_def byte_simps del: of_nat_add)

lemma decode_points_utf8_of4:
  assumes "o' \<le> 4" "p \<le> 63" "q \<le> 63" "r \<le> 63" "o' = 0 \<Longrightarrow> 16 \<le> p" "o' = 4 \<Longrightarrow> p \<le> 15"
  shows "decode_points
       (of_nat (240 + o') # of_nat (128 + p) # of_nat (128 + q) # of_nat (128 + r) # bs)
     = map_option ((#) (o' * 262144 + p * 4096 + q * 64 + r)) (decode_points bs)"
  using assms by (simp add: is_cont_def Let_def byte_simps del: of_nat_add)

lemma decode_points_utf8_of:
  assumes "scalar n"
  shows "decode_points (utf8_of n @ bs) = map_option ((#) n) (decode_points bs)"
proof -
  have m64: "k mod 64 \<le> 63" for k :: nat by (simp add: less_Suc_eq_le [symmetric])
  consider "n < 128" | "128 \<le> n" "n < 2048" | "2048 \<le> n" "n < 65536" | "65536 \<le> n"
    by linarith
  then show ?thesis
  proof cases
    case 1
    then show ?thesis by (simp add: utf8_of_def byte_simps)
  next
    case 2
    then have "2 \<le> n div 64" "n div 64 \<le> 31" by simp_all
    from decode_points_utf8_of2 [OF this m64 [of n], of bs] 2 show ?thesis
      by (simp add: utf8_of_def)
  next
    case 3
    have eq: "n div 64 = n div 4096 * 64 + n div 64 mod 64"
      using div_mult2_eq [of n 64 64] by simp
    from 3 have "n div 4096 \<le> 15" "32 \<le> n div 64" by simp_all
    moreover have "n div 4096 = 0 \<Longrightarrow> 32 \<le> n div 64 mod 64"
      using eq \<open>32 \<le> n div 64\<close> by linarith
    moreover have "n div 64 mod 64 \<le> 31" if "n div 4096 = 13"
    proof -
      have "n < 57344" using that div_mult_mod_eq [of n 4096] mod_less_divisor [of 4096 n] by linarith
      with assms have "n \<le> 55295" by (auto simp: scalar_def)
      then have "n div 64 \<le> 863" by simp
      with eq that show ?thesis by linarith
    qed
    ultimately have "decode_points
        (of_nat (224 + n div 4096) # of_nat (128 + n div 64 mod 64) # of_nat (128 + n mod 64) # bs)
      = map_option ((#) (n div 4096 * 4096 + n div 64 mod 64 * 64 + n mod 64)) (decode_points bs)"
      by (intro decode_points_utf8_of3 m64)
    with 3 show ?thesis by (simp add: utf8_of_def nat_split3)
  next
    case 4
    have eq: "n div 4096 = n div 262144 * 64 + n div 4096 mod 64"
      using div_mult2_eq [of n 4096 64] by simp
    from 4 assms have "n \<le> 1114111" "16 \<le> n div 4096" by (simp_all add: scalar_def)
    then have "n div 262144 \<le> 4" "n div 4096 \<le> 271" by simp_all
    moreover have "n div 262144 = 0 \<Longrightarrow> 16 \<le> n div 4096 mod 64"
      using eq \<open>16 \<le> n div 4096\<close> by linarith
    moreover have "n div 262144 = 4 \<Longrightarrow> n div 4096 mod 64 \<le> 15"
      using eq \<open>n div 4096 \<le> 271\<close> by linarith
    ultimately have "decode_points
        (of_nat (240 + n div 262144) # of_nat (128 + n div 4096 mod 64)
          # of_nat (128 + n div 64 mod 64) # of_nat (128 + n mod 64) # bs)
      = map_option ((#) (n div 262144 * 262144 + n div 4096 mod 64 * 4096 + n div 64 mod 64 * 64
           + n mod 64)) (decode_points bs)"
      by (intro decode_points_utf8_of4 m64)
    with 4 show ?thesis by (simp add: utf8_of_def nat_split4)
  qed
qed

lemma decode_points_concat:
  "\<forall>n \<in> set ns. scalar n \<Longrightarrow> decode_points (concat (map utf8_of ns)) = Some ns"
  by (induction ns) (simp_all add: decode_points_utf8_of)

lemma scalar_jschar: "\<not> is_lead c \<Longrightarrow> \<not> is_trail c \<Longrightarrow> scalar (unat c)"
  using unat_jschar_lt [of c] unfolding scalar_def is_lead_def is_trail_def by linarith

lemma is_leadE:
  assumes "is_lead c"
  obtains k where "unat c = 55296 + k" "k \<le> 1023"
proof -
  from assms have "unat c = 55296 + (unat c - 55296)" "unat c - 55296 \<le> 1023"
    by (auto simp: is_lead_def)
  then show thesis by (rule that)
qed

lemma is_trailE:
  assumes "is_trail c"
  obtains k where "unat c = 56320 + k" "k \<le> 1023"
proof -
  from assms have "unat c = 56320 + (unat c - 56320)" "unat c - 56320 \<le> 1023"
    by (auto simp: is_trail_def)
  then show thesis by (rule that)
qed

lemma surrogate_pair:
  assumes "is_lead c" "is_trail d"
  defines "n \<equiv> 65536 + (unat c - 55296) * 1024 + (unat d - 56320)"
  shows "scalar n" "utf16_of n = [c, d]"
proof -
  from \<open>is_lead c\<close> obtain k where k: "unat c = 55296 + k" "k \<le> 1023" by (rule is_leadE)
  from \<open>is_trail d\<close> obtain m where m: "unat d = 56320 + m" "m \<le> 1023" by (rule is_trailE)
  have n: "n = 65536 + (k * 1024 + m)" by (simp add: n_def k m)
  from n k m show "scalar n" by (simp add: scalar_def)
  have "(k * 1024 + m) div 1024 = k" "(k * 1024 + m) mod 1024 = m"
    using m by (simp_all add: div_eq_dividend_iff)
  then have "utf16_of n = [of_nat (55296 + k), of_nat (56320 + m)]"
    by (simp add: n utf16_of_def del: of_nat_add)
  then show "utf16_of n = [c, d]"
    using k(1) m(1) by (metis of_nat_unat)
qed

lemma scalar_replacement [simp]: "scalar 65533"
  by (simp add: scalar_def)

lemma code_points_scalar: "n \<in> set (code_points s) \<Longrightarrow> scalar n"
  by (induction s rule: code_points.induct)
     (auto simp: scalar_jschar surrogate_pair split: if_splits)

lemma utf16_of_jschar: "utf16_of (unat c) = [c]"
  by (simp add: utf16_of_def)

lemma lead_not_trail: "is_lead c \<Longrightarrow> \<not> is_trail c"
  by (simp add: is_lead_def is_trail_def)

lemma utf16_code_points: "well_formed_utf16 s \<Longrightarrow> concat (map utf16_of (code_points s)) = s"
  by (induction s rule: code_points.induct)
     (auto simp: utf16_of_jschar surrogate_pair split: if_splits)

lemma decodeUtf8_encodeUtf8: "well_formed_utf16 s \<Longrightarrow> decodeUtf8 (encodeUtf8 s) = Inr s"
  by (simp add: decodeUtf8_def encodeUtf8_def decode_points_concat code_points_scalar
      utf16_code_points)

text \<open>Three bytes per code unit are always enough: the bound \<open>encodeInto\<close> relies on.\<close>

lemma length_utf8_of: "length (utf8_of n) \<le> 4" "n < 65536 \<Longrightarrow> length (utf8_of n) \<le> 3"
  by (simp_all add: utf8_of_def)

lemma length_encodeUtf8: "length (encodeUtf8 s) \<le> 3 * length s"
proof (induction s rule: code_points.induct)
  case (2 c)
  then show ?case
    using length_utf8_of(2) [of "unat c"] length_utf8_of(2) [of 65533] by (simp add: encodeUtf8_def)
next
  case (3 c d ds)
  then show ?case
    using length_utf8_of(2) [of "unat c"] length_utf8_of(2) [of 65533]
      length_utf8_of(1) [of "65536 + (unat c - 55296) * 1024 + (unat d - 56320)"]
    by (auto simp: encodeUtf8_def)
qed (simp add: encodeUtf8_def)

lemma of_char_plain [simp]: "\<not> is_lead (of_char c)" "\<not> is_trail (of_char c)"
proof -
  have eq: "unat (of_char c :: jschar) = of_char c"
    by (simp add: of_char_def)
  note lt = nat_of_char_less_256 [of c]
  show "\<not> is_lead (of_char c)" unfolding is_lead_def eq using lt by linarith
  show "\<not> is_trail (of_char c)" unfolding is_trail_def eq using lt by linarith
qed

lemma ascii_well_formed [simp]: "well_formed_utf16 (js s)"
proof (induction s)
  case (Cons c s)
  then show ?case by (cases s) simp_all
qed simp

end
