(* ===== verification/Lib0Encoding.thy ===== *)
theory Lib0Encoding
  imports JsRuntime
begin

text \<open>
  \<open>lib0/encoding.js\<close>: the growing binary encoder every Yjs and awareness message is written
  with. An encoder holds full buffers \<open>bufs\<close> and a current buffer \<open>cbuf\<close> filled up to
  \<open>cpos\<close>. The contract of the writers is the locale \<open>byte_sink\<close> (a write appends a byte to
  what the encoder holds); the facts proved in it are instantiated at the encoder itself.
\<close>

section \<open>The encoder\<close>

record encoder =
  cpos :: nat
  cbuf :: "byte list"
  bufs :: "byte list list"

definition createEncoder :: encoder where
  "createEncoder = \<lparr>cpos = 0, cbuf = replicate 100 0, bufs = []\<rparr>"

definition enc_length :: "encoder \<Rightarrow> nat" where
  "enc_length e = fold (\<lambda>b len. len + length b) (bufs e) (cpos e)"

definition enc_hasContent :: "encoder \<Rightarrow> bool" where
  "enc_hasContent e \<longleftrightarrow> 0 < cpos e \<or> 0 < length (bufs e)"

text \<open>\<open>Uint8Array.prototype.set\<close>: copy \<open>d\<close> over the array from an offset on.\<close>

definition ua_set :: "byte list \<Rightarrow> byte list \<Rightarrow> nat \<Rightarrow> byte list" where
  "ua_set a d off = take off a @ d @ drop (off + length d) a"

fun copy_bufs :: "byte list list \<Rightarrow> byte list \<Rightarrow> nat \<Rightarrow> byte list \<times> nat" where
  "copy_bufs [] arr curPos = (arr, curPos)"
| "copy_bufs (d # ds) arr curPos = copy_bufs ds (ua_set arr d curPos) (curPos + length d)"

definition toUint8Array :: "encoder \<Rightarrow> byte list" where
  "toUint8Array e =
     (let (arr, curPos) = copy_bufs (bufs e) (replicate (enc_length e) 0) 0
      in ua_set arr (take (cpos e) (cbuf e)) curPos)"

definition verifyLen :: "encoder \<Rightarrow> nat \<Rightarrow> encoder" where
  "verifyLen e len =
     (let bufferLen = length (cbuf e) in
      if bufferLen - cpos e < len
      then \<lparr>cpos = 0, cbuf = replicate (max bufferLen len * 2) 0,
            bufs = bufs e @ [take (cpos e) (cbuf e)]\<rparr>
      else e)"

text \<open>\<open>write\<close> stores a number in the current buffer, which keeps its value modulo 256.\<close>

definition write_byte :: "encoder \<Rightarrow> nat \<Rightarrow> encoder" where
  "write_byte e num =
     (let bufferLen = length (cbuf e);
          e1 = (if cpos e = bufferLen
                then \<lparr>cpos = 0, cbuf = replicate (bufferLen * 2) 0, bufs = bufs e @ [cbuf e]\<rparr>
                else e)
      in e1\<lparr>cbuf := (cbuf e1)[cpos e1 := of_nat num], cpos := Suc (cpos e1)\<rparr>)"

definition writeUint8 :: "encoder \<Rightarrow> nat \<Rightarrow> encoder" where
  "writeUint8 = write_byte"

text \<open>\<open>set\<close> overwrites a position anywhere in the encoder; past the last buffer it is ignored.\<close>

fun set_bufs :: "byte list list \<Rightarrow> nat \<Rightarrow> nat \<Rightarrow> byte list list + nat" where
  "set_bufs [] pos num = Inr pos"
| "set_bufs (b # bs) pos num =
     (if pos < length b then Inl (b[pos := of_nat num] # bs)
      else (case set_bufs bs (pos - length b) num of
              Inl bs' \<Rightarrow> Inl (b # bs') | Inr pos' \<Rightarrow> Inr pos'))"

definition enc_set :: "encoder \<Rightarrow> nat \<Rightarrow> nat \<Rightarrow> encoder" where
  "enc_set e pos num =
     (case set_bufs (bufs e) pos num of
        Inl bs \<Rightarrow> e\<lparr>bufs := bs\<rparr>
      | Inr pos' \<Rightarrow> e\<lparr>cbuf := (cbuf e)[pos' := of_nat num]\<rparr>)"

definition writeUint16 :: "encoder \<Rightarrow> nat \<Rightarrow> encoder" where
  "writeUint16 e num = write_byte (write_byte e (num mod 256)) (num div 256 mod 256)"

definition setUint16 :: "encoder \<Rightarrow> nat \<Rightarrow> nat \<Rightarrow> encoder" where
  "setUint16 e pos num = enc_set (enc_set e pos (num mod 256)) (pos + 1) (num div 256 mod 256)"

text \<open>\<open>num >>>= 8\<close> is division by 256 once \<open>num\<close> is a 32-bit number.\<close>

fun writeUint32_loop :: "nat \<Rightarrow> encoder \<Rightarrow> nat \<Rightarrow> encoder" where
  "writeUint32_loop 0 e num = e"
| "writeUint32_loop (Suc i) e num = writeUint32_loop i (write_byte e (num mod 256)) (num div 256)"

definition writeUint32 :: "encoder \<Rightarrow> nat \<Rightarrow> encoder" where
  "writeUint32 e num = writeUint32_loop 4 e (num mod 2 ^ 32)"

definition writeUint32BigEndian :: "encoder \<Rightarrow> nat \<Rightarrow> encoder" where
  "writeUint32BigEndian e num =
     fold (\<lambda>i e. write_byte e (num mod 2 ^ 32 div 2 ^ (8 * i) mod 256)) [3, 2, 1, 0] e"

fun setUint32_loop :: "nat \<Rightarrow> nat \<Rightarrow> encoder \<Rightarrow> nat \<Rightarrow> encoder" where
  "setUint32_loop 0 pos e num = e"
| "setUint32_loop (Suc i) pos e num =
     setUint32_loop i (Suc pos) (enc_set e pos (num mod 256)) (num div 256)"

definition setUint32 :: "encoder \<Rightarrow> nat \<Rightarrow> nat \<Rightarrow> encoder" where
  "setUint32 e pos num = setUint32_loop 4 pos e (num mod 2 ^ 32)"

text \<open>\<open>BIT8 | (BITS7 & num)\<close> sets the continuation bit on the low seven bits.\<close>

fun writeVarUint :: "encoder \<Rightarrow> nat \<Rightarrow> encoder" where
  "writeVarUint e num =
     (if 127 < num then writeVarUint (write_byte e (128 + num mod 128)) (num div 128)
      else write_byte e (num mod 128))"

declare writeVarUint.simps [simp del]

fun writeVarInt_loop :: "encoder \<Rightarrow> nat \<Rightarrow> encoder" where
  "writeVarInt_loop e num =
     (if 0 < num
      then writeVarInt_loop (write_byte e ((if 127 < num then 128 else 0) + num mod 128)) (num div 128)
      else e)"

declare writeVarInt_loop.simps [simp del]

definition writeVarInt :: "encoder \<Rightarrow> jsint \<Rightarrow> encoder" where
  "writeVarInt e x =
     (let num = jmag x;
          e1 = write_byte e ((if 63 < num then 128 else 0) + (if jneg x then 64 else 0) + num mod 64)
      in writeVarInt_loop e1 (num div 64))"

definition writeUint8Array :: "encoder \<Rightarrow> byte list \<Rightarrow> encoder" where
  "writeUint8Array e arr =
     (let bufferLen = length (cbuf e);
          leftCopyLen = min (bufferLen - cpos e) (length arr);
          rightCopyLen = length arr - leftCopyLen;
          e1 = e\<lparr>cbuf := ua_set (cbuf e) (take leftCopyLen arr) (cpos e),
                 cpos := cpos e + leftCopyLen\<rparr>
      in if 0 < rightCopyLen
         then e1\<lparr>bufs := bufs e1 @ [cbuf e1],
                 cbuf := ua_set (replicate (max (bufferLen * 2) rightCopyLen) 0)
                           (drop leftCopyLen arr) 0,
                 cpos := rightCopyLen\<rparr>
         else e1)"

definition writeVarUint8Array :: "encoder \<Rightarrow> byte list \<Rightarrow> encoder" where
  "writeVarUint8Array e arr = writeUint8Array (writeVarUint e (length arr)) arr"

definition writeBinaryEncoder :: "encoder \<Rightarrow> encoder \<Rightarrow> encoder" where
  "writeBinaryEncoder e app = writeUint8Array e (toUint8Array app)"

text \<open>
  \<open>writeVarString\<close> in an environment with \<open>TextEncoder.encodeInto\<close>, as browsers have: short
  strings are encoded into the shared 30000-byte scratch buffer (a third of it bounds the code
  units, so they always fit), long ones into an array of their own.
\<close>

definition writeVarString :: "encoder \<Rightarrow> jsstring \<Rightarrow> encoder" where
  "writeVarString e str =
     (if length str < 10000
      then (let strBuffer = encodeUtf8 str; written = length strBuffer
            in fold (\<lambda>b e. write_byte e (unat b)) strBuffer (writeVarUint e written))
      else writeVarUint8Array e (encodeUtf8 str))"

fun writeTerminatedUint8Array_loop :: "encoder \<Rightarrow> byte list \<Rightarrow> encoder" where
  "writeTerminatedUint8Array_loop e [] = e"
| "writeTerminatedUint8Array_loop e (b # bs) =
     writeTerminatedUint8Array_loop
       (write_byte (if b = 0 \<or> b = 1 then write_byte e 1 else e) (unat b)) bs"

definition writeTerminatedUint8Array :: "encoder \<Rightarrow> byte list \<Rightarrow> encoder" where
  "writeTerminatedUint8Array e buf = write_byte (writeTerminatedUint8Array_loop e buf) 0"

definition writeTerminatedString :: "encoder \<Rightarrow> jsstring \<Rightarrow> encoder" where
  "writeTerminatedString e str = writeTerminatedUint8Array e (encodeUtf8 str)"

section \<open>The bytes an encoder holds\<close>

definition enc_ok :: "encoder \<Rightarrow> bool" where
  "enc_ok e \<longleftrightarrow> cpos e \<le> length (cbuf e) \<and> 0 < length (cbuf e)"

definition enc_bytes :: "encoder \<Rightarrow> byte list" where
  "enc_bytes e = concat (bufs e) @ take (cpos e) (cbuf e)"

lemma createEncoder_ok [simp]: "enc_ok createEncoder" "enc_bytes createEncoder = []"
  by (simp_all add: enc_ok_def enc_bytes_def createEncoder_def)

lemma fold_length: "fold (\<lambda>b len. len + length b) bs n = n + length (concat bs)"
  by (induction bs arbitrary: n) simp_all

lemma enc_length_bytes: "enc_ok e \<Longrightarrow> enc_length e = length (enc_bytes e)"
  by (simp add: enc_length_def enc_bytes_def enc_ok_def fold_length min_absorb2)

lemma length_ua_set [simp]: "off + length d \<le> length a \<Longrightarrow> length (ua_set a d off) = length a"
  by (simp add: ua_set_def)

lemma copy_bufs_eq:
  "curPos + length (concat bs) \<le> length arr \<Longrightarrow>
   copy_bufs bs arr curPos = (ua_set arr (concat bs) curPos, curPos + length (concat bs))"
proof (induction bs arbitrary: arr curPos)
  case Nil
  then show ?case by (simp add: ua_set_def)
next
  case (Cons d ds)
  then have "copy_bufs (d # ds) arr curPos =
      (ua_set (ua_set arr d curPos) (concat ds) (curPos + length d),
       curPos + length d + length (concat ds))"
    by simp
  also have "ua_set (ua_set arr d curPos) (concat ds) (curPos + length d)
      = ua_set arr (concat (d # ds)) curPos"
    using Cons.prems by (simp add: ua_set_def add_ac)
  finally show ?case by (simp add: add.assoc)
qed

lemma toUint8Array_bytes: "enc_ok e \<Longrightarrow> toUint8Array e = enc_bytes e"
  by (simp add: toUint8Array_def enc_length_def fold_length copy_bufs_eq ua_set_def enc_ok_def
      enc_bytes_def min_absorb2)

lemma write_byte_ok [simp, intro]: "enc_ok e \<Longrightarrow> enc_ok (write_byte e n)"
  by (auto simp: enc_ok_def write_byte_def Let_def Suc_le_eq)

lemma write_byte_bytes [sink_simps]: "enc_ok e \<Longrightarrow> enc_bytes (write_byte e n) = enc_bytes e @ [of_nat n]"
  by (auto simp: enc_ok_def enc_bytes_def write_byte_def Let_def take_Suc_conv_app_nth)

section \<open>The contract of a writer\<close>

locale byte_sink =
  fixes put :: "'e \<Rightarrow> nat \<Rightarrow> 'e"
    and bytes :: "'e \<Rightarrow> byte list"
    and ok :: "'e \<Rightarrow> bool"
  assumes put_ok: "ok e \<Longrightarrow> ok (put e n)"
    and put_bytes: "ok e \<Longrightarrow> bytes (put e n) = bytes e @ [of_nat n]"
begin

lemma put_list:
  assumes "ok e"
  shows "ok (fold (\<lambda>b e. put e (unat b)) bs e)
     \<and> bytes (fold (\<lambda>b e. put e (unat b)) bs e) = bytes e @ bs"
  using assms by (induction bs arbitrary: e) (simp_all add: put_ok put_bytes)

end

interpretation enc: byte_sink write_byte enc_bytes enc_ok
  by unfold_locales (simp_all add: write_byte_bytes write_byte_ok)

section \<open>What the writers append\<close>

fun uint_bytes :: "nat \<Rightarrow> byte list" where
  "uint_bytes n =
     (if 127 < n then of_nat (128 + n mod 128) # uint_bytes (n div 128) else [of_nat n])"

declare uint_bytes.simps [simp del]

fun int_tail :: "nat \<Rightarrow> byte list" where
  "int_tail n =
     (if 0 < n then of_nat ((if 127 < n then 128 else 0) + n mod 128) # int_tail (n div 128)
      else [])"

declare int_tail.simps [simp del]

definition int_bytes :: "jsint \<Rightarrow> byte list" where
  "int_bytes x =
     of_nat ((if 63 < jmag x then 128 else 0) + (if jneg x then 64 else 0) + jmag x mod 64)
       # int_tail (jmag x div 64)"

definition array_bytes :: "byte list \<Rightarrow> byte list" where
  "array_bytes bs = uint_bytes (length bs) @ bs"

definition string_bytes :: "jsstring \<Rightarrow> byte list" where
  "string_bytes s = array_bytes (encodeUtf8 s)"

lemma writeVarUint_spec:
  "enc_ok e \<Longrightarrow> enc_ok (writeVarUint e n) \<and> enc_bytes (writeVarUint e n) = enc_bytes e @ uint_bytes n"
proof (induction e n rule: writeVarUint.induct)
  case (1 e n)
  show ?case
  proof (cases "127 < n")
    case True
    with 1 show ?thesis
      by (simp add: writeVarUint.simps [of e n] uint_bytes.simps [of n] sink_simps)
  next
    case False
    with 1 show ?thesis
      by (simp add: writeVarUint.simps [of e n] uint_bytes.simps [of n] sink_simps)
  qed
qed

lemma writeVarUint_ok [simp]: "enc_ok e \<Longrightarrow> enc_ok (writeVarUint e n)"
  and writeVarUint_bytes [sink_simps]:
    "enc_ok e \<Longrightarrow> enc_bytes (writeVarUint e n) = enc_bytes e @ uint_bytes n"
  using writeVarUint_spec by blast+

lemma writeVarInt_loop_spec:
  "enc_ok e \<Longrightarrow> enc_ok (writeVarInt_loop e n)
     \<and> enc_bytes (writeVarInt_loop e n) = enc_bytes e @ int_tail n"
proof (induction e n rule: writeVarInt_loop.induct)
  case (1 e n)
  show ?case
  proof (cases "0 < n")
    case True
    with 1 show ?thesis
      by (simp add: writeVarInt_loop.simps [of e n] int_tail.simps [of n] sink_simps)
  next
    case False
    with 1(2) show ?thesis
      by (simp add: writeVarInt_loop.simps int_tail.simps)
  qed
qed

lemma writeVarInt_ok [simp]: "enc_ok e \<Longrightarrow> enc_ok (writeVarInt e x)"
  and writeVarInt_bytes [sink_simps]:
    "enc_ok e \<Longrightarrow> enc_bytes (writeVarInt e x) = enc_bytes e @ int_bytes x"
  by (simp_all add: writeVarInt_def Let_def writeVarInt_loop_spec int_bytes_def sink_simps)

lemma writeUint8Array_ok [simp]: "enc_ok e \<Longrightarrow> enc_ok (writeUint8Array e bs)"
  by (auto simp: enc_ok_def writeUint8Array_def Let_def ua_set_def min_def)

lemma writeUint8Array_bytes [sink_simps]:
  "enc_ok e \<Longrightarrow> enc_bytes (writeUint8Array e bs) = enc_bytes e @ bs"
proof -
  assume ok: "enc_ok e"
  show ?thesis
  proof (cases "length bs \<le> length (cbuf e) - cpos e")
    case True
    with ok show ?thesis
      by (simp add: enc_ok_def enc_bytes_def writeUint8Array_def Let_def ua_set_def min_absorb2)
  next
    case False
    with ok show ?thesis
      by (simp add: enc_ok_def enc_bytes_def writeUint8Array_def Let_def ua_set_def min_absorb1)
  qed
qed

lemma writeVarUint8Array_ok [simp]: "enc_ok e \<Longrightarrow> enc_ok (writeVarUint8Array e bs)"
  and writeVarUint8Array_bytes [sink_simps]:
    "enc_ok e \<Longrightarrow> enc_bytes (writeVarUint8Array e bs) = enc_bytes e @ array_bytes bs"
  by (simp_all add: writeVarUint8Array_def array_bytes_def sink_simps)

lemma writeVarString_ok [simp]: "enc_ok e \<Longrightarrow> enc_ok (writeVarString e s)"
  and writeVarString_bytes [sink_simps]:
    "enc_ok e \<Longrightarrow> enc_bytes (writeVarString e s) = enc_bytes e @ string_bytes s"
  by (simp_all add: writeVarString_def Let_def enc.put_list string_bytes_def array_bytes_def
      sink_simps)

section \<open>Properties\<close>

text \<open>The operations a message is assembled with, and what each one contributes.\<close>

datatype wop = WByte nat | WUint nat | WInt jsint | WArray "byte list" | WVarArray "byte list" | WString jsstring

fun run_wop :: "encoder \<Rightarrow> wop \<Rightarrow> encoder" where
  "run_wop e (WByte n) = write_byte e n"
| "run_wop e (WUint n) = writeVarUint e n"
| "run_wop e (WInt x) = writeVarInt e x"
| "run_wop e (WArray bs) = writeUint8Array e bs"
| "run_wop e (WVarArray bs) = writeVarUint8Array e bs"
| "run_wop e (WString s) = writeVarString e s"

fun wop_bytes :: "wop \<Rightarrow> byte list" where
  "wop_bytes (WByte n) = [of_nat n]"
| "wop_bytes (WUint n) = uint_bytes n"
| "wop_bytes (WInt x) = int_bytes x"
| "wop_bytes (WArray bs) = bs"
| "wop_bytes (WVarArray bs) = array_bytes bs"
| "wop_bytes (WString s) = string_bytes s"

lemma run_wops:
  "enc_ok e \<Longrightarrow> enc_ok (foldl run_wop e ops)
     \<and> enc_bytes (foldl run_wop e ops) = enc_bytes e @ concat (map wop_bytes ops)"
proof (induction ops arbitrary: e)
  case (Cons w ops)
  then have "enc_ok (run_wop e w)" "enc_bytes (run_wop e w) = enc_bytes e @ wop_bytes w"
    by (cases w; simp add: sink_simps)+
  with Cons.IH [of "run_wop e w"] show ?case by simp
qed simp

text \<open>
  C34. Whatever is written to a fresh encoder, in any order and however the writes fall on the
  boundaries of its growing buffers, \<open>toUint8Array\<close> returns exactly the concatenation of what
  the single writes contribute: no byte is lost, repeated or reordered when a buffer fills up.
\<close>

theorem encoder_concatenates:
  "toUint8Array (foldl run_wop createEncoder ops) = concat (map wop_bytes ops)"
  using run_wops [of createEncoder ops] by (simp add: toUint8Array_bytes)

end
