(* ===== verification/Lib0Decoding.thy ===== *)
theory Lib0Decoding
  imports Lib0Encoding
begin

text \<open>
  \<open>lib0/decoding.js\<close>: the cursor over a byte array that reads what \<open>lib0/encoding.js\<close> wrote.
  The contract between a writer and a reader is the locale \<open>codec\<close>: reading at the start of
  the bytes of a value returns the value and moves the cursor just past them. Its
  interpretations are the round trips of the library; pairs and lists of codecs are codecs.
\<close>

section \<open>The decoder\<close>

text \<open>
  A \<open>Uint8Array\<close> is a view on a buffer: \<open>arr\<close> are the bytes of the view, \<open>beyond\<close> those of
  the buffer after it, which only \<open>readUint8Array\<close> can reach.
\<close>

record decoder =
  arr :: "byte list"
  beyond :: "byte list"
  pos :: nat

type_synonym 'a reader = "decoder \<Rightarrow> ('a \<times> decoder) result"

definition createDecoder :: "byte list \<Rightarrow> decoder" where
  "createDecoder uint8Array = \<lparr>arr = uint8Array, beyond = [], pos = 0\<rparr>"

definition dec_hasContent :: "decoder \<Rightarrow> bool" where
  "dec_hasContent d \<longleftrightarrow> pos d \<noteq> length (arr d)"

definition dec_clone :: "decoder \<Rightarrow> nat \<Rightarrow> decoder" where
  "dec_clone d newPos = d\<lparr>pos := newPos\<rparr>"

text \<open>\<open>new Uint8Array(buffer, offset, length)\<close> throws when the view would leave the buffer.\<close>

definition readUint8Array :: "decoder \<Rightarrow> nat \<Rightarrow> (byte list \<times> decoder) result" where
  "readUint8Array d len =
     (if pos d + len \<le> length (arr d @ beyond d)
      then Inr (take len (drop (pos d) (arr d @ beyond d)), d\<lparr>pos := pos d + len\<rparr>)
      else Inl RangeError)"

definition skip8 :: "decoder \<Rightarrow> decoder" where
  "skip8 d = d\<lparr>pos := Suc (pos d)\<rparr>"

text \<open>Reading past the end of a typed array yields \<open>undefined\<close>, here \<open>None\<close>.\<close>

definition readUint8 :: "decoder \<Rightarrow> byte option \<times> decoder" where
  "readUint8 d =
     (if pos d < length (arr d) then Some (arr d ! pos d) else None, d\<lparr>pos := Suc (pos d)\<rparr>)"

definition peekUint8 :: "decoder \<Rightarrow> byte option" where
  "peekUint8 d = (if pos d < length (arr d) then Some (arr d ! pos d) else None)"

text \<open>The doubles end below \<open>2 ^ 1024\<close>.\<close>

definition double_limit :: nat where
  "double_limit = 2 ^ 1024"

text \<open>
  The loop of \<open>readVarUint\<close> and \<open>readVarInt\<close>: \<open>num\<close> accumulates the value read so far and
  \<open>mult\<close> is the weight of the next byte, both doubles.
\<close>

function read_var_loop :: "decoder \<Rightarrow> nat \<Rightarrow> nat \<Rightarrow> (nat \<times> decoder) result" where
  "read_var_loop d num mult =
     (if pos d < length (arr d)
      then (let r = unat (arr d ! pos d);
                d' = d\<lparr>pos := Suc (pos d)\<rparr>;
                num' = js_round (num + r mod 128 * mult)
            in if double_limit \<le> mult \<or> double_limit \<le> r mod 128 * mult then Inl NonFinite
               else if r < 128 then Inr (num', d')
               else if MAX_SAFE_INTEGER < num' then Inl IntegerOutOfRange
               else read_var_loop d' num' (mult * 128))
      else Inl UnexpectedEndOfArray)"
  by pat_completeness auto
termination
  by (relation "measure (\<lambda>(d, num, mult). length (arr d) - pos d)") (auto simp: Let_def)

declare read_var_loop.simps [simp del]

definition readVarUint :: "nat reader" where
  "readVarUint d = read_var_loop d 0 1"

definition readVarInt :: "jsint reader" where
  "readVarInt d =
     (let r = (if pos d < length (arr d) then unat (arr d ! pos d) else 0);
          d' = d\<lparr>pos := Suc (pos d)\<rparr>;
          num = r mod 64;
          sign = odd (r div 64)
      in if r < 128 then Inr (JInt sign num, d')
         else (case read_var_loop d' num 64 of
                 Inl err \<Rightarrow> Inl err
               | Inr (num', d'') \<Rightarrow> Inr (JInt sign num', d'')))"

definition readVarUint8Array :: "byte list reader" where
  "readVarUint8Array d =
     (case readVarUint d of Inl err \<Rightarrow> Inl err | Inr (len, d') \<Rightarrow> readUint8Array d' len)"

definition readTailAsUint8Array :: "byte list reader" where
  "readTailAsUint8Array d = readUint8Array d (length (arr d) - pos d)"

definition readVarString :: "jsstring reader" where
  "readVarString d =
     (case readVarUint8Array d of
        Inl err \<Rightarrow> Inl err
      | Inr (bs, d') \<Rightarrow> (case decodeUtf8 bs of Inl err \<Rightarrow> Inl err | Inr s \<Rightarrow> Inr (s, d')))"

definition peekVarUint :: "nat reader" where
  "peekVarUint d =
     (case readVarUint d of Inl err \<Rightarrow> Inl err | Inr (s, d') \<Rightarrow> Inr (s, d'\<lparr>pos := pos d\<rparr>))"

definition peekVarInt :: "jsint reader" where
  "peekVarInt d =
     (case readVarInt d of Inl err \<Rightarrow> Inl err | Inr (s, d') \<Rightarrow> Inr (s, d'\<lparr>pos := pos d\<rparr>))"

definition peekVarString :: "jsstring reader" where
  "peekVarString d =
     (case readVarString d of Inl err \<Rightarrow> Inl err | Inr (s, d') \<Rightarrow> Inr (s, d'\<lparr>pos := pos d\<rparr>))"

text \<open>
  Past the end of the array every read is \<open>undefined\<close>, which is neither 0 nor 1: the loop of
  \<open>readTerminatedUint8Array\<close> then never ends, here \<open>None\<close>.
\<close>

function readTerminated_loop :: "decoder \<Rightarrow> encoder \<Rightarrow> (byte list \<times> decoder) option" where
  "readTerminated_loop d encoder =
     (case readUint8 d of
        (None, d1) \<Rightarrow> None
      | (Some b, d1) \<Rightarrow>
          if b = 0 then Some (toUint8Array encoder, d1)
          else if b = 1
               then (case readUint8 d1 of
                       (None, d2) \<Rightarrow> None
                     | (Some b2, d2) \<Rightarrow> readTerminated_loop d2 (write_byte encoder (unat b2)))
               else readTerminated_loop d1 (write_byte encoder (unat b)))"
  by pat_completeness auto
termination
  by (relation "measure (\<lambda>(d, e). length (arr d) - pos d)")
     (auto simp: readUint8_def split: if_splits)

declare readTerminated_loop.simps [simp del]

definition readTerminatedUint8Array :: "decoder \<Rightarrow> (byte list \<times> decoder) option" where
  "readTerminatedUint8Array d = readTerminated_loop d createEncoder"

section \<open>The contract of a reader\<close>

definition remaining :: "decoder \<Rightarrow> byte list" where
  "remaining d = drop (pos d) (arr d)"

definition advance :: "nat \<Rightarrow> decoder \<Rightarrow> decoder" where
  "advance k d = d\<lparr>pos := pos d + k\<rparr>"

lemma remaining_create [simp]: "remaining (createDecoder bs) = bs"
  by (simp add: remaining_def createDecoder_def)

lemma remaining_advance: "remaining d = ys @ zs \<Longrightarrow> remaining (advance (length ys) d) = zs"
  by (simp add: remaining_def advance_def drop_eq_append)

lemma advance_advance [simp]: "advance j (advance i d) = advance (i + j) d"
  by (simp add: advance_def)

lemma advance_simps [simp]:
  "arr (advance k d) = arr d" "beyond (advance k d) = beyond d" "pos (advance k d) = pos d + k"
  by (simp_all add: advance_def)

lemma remaining_Cons:
  "remaining d = b # bs \<Longrightarrow>
   pos d < length (arr d) \<and> arr d ! pos d = b \<and> remaining (advance 1 d) = bs"
  unfolding remaining_def by (auto dest: drop_eq_Cons_nth)

locale codec =
  fixes enc :: "'a \<Rightarrow> byte list"
    and rd :: "'a reader"
    and ok :: "'a \<Rightarrow> bool"
  assumes rd_enc: "ok x \<Longrightarrow> remaining d = enc x @ rest \<Longrightarrow> rd d = Inr (x, advance (length (enc x)) d)"
begin

lemma rd_create: "ok x \<Longrightarrow> rd (createDecoder (enc x)) = Inr (x, advance (length (enc x)) (createDecoder (enc x)))"
  by (rule rd_enc [where rest = "[]"]) simp_all

text \<open>A code is prefix free: equal encodings, even with bytes following, have equal values.\<close>

lemma enc_inj: "ok x \<Longrightarrow> ok y \<Longrightarrow> enc x @ r = enc y @ s \<Longrightarrow> x = y"
  using rd_enc [of x "createDecoder (enc x @ r)" r] rd_enc [of y "createDecoder (enc x @ r)" s]
  by simp

end

text \<open>The loop \<open>for (let i = 0; i < len; i++)\<close> around a reader.\<close>

fun read_times :: "nat \<Rightarrow> 'a reader \<Rightarrow> 'a list reader" where
  "read_times 0 rd d = Inr ([], d)"
| "read_times (Suc n) rd d =
     (case rd d of
        Inl err \<Rightarrow> Inl err
      | Inr (x, d') \<Rightarrow>
          (case read_times n rd d' of Inl err \<Rightarrow> Inl err | Inr (xs, d'') \<Rightarrow> Inr (x # xs, d'')))"

context codec
begin

lemma read_times_enc:
  "\<forall>x \<in> set xs. ok x \<Longrightarrow> remaining d = concat (map enc xs) @ rest \<Longrightarrow>
   read_times (length xs) rd d = Inr (xs, advance (length (concat (map enc xs))) d)"
proof (induction xs arbitrary: d)
  case Nil
  then show ?case by (simp add: advance_def)
next
  case (Cons x xs)
  then have "rd d = Inr (x, advance (length (enc x)) d)"
    by (intro rd_enc [where rest = "concat (map enc xs) @ rest"]) simp_all
  moreover have "remaining (advance (length (enc x)) d) = concat (map enc xs) @ rest"
    using Cons.prems by (intro remaining_advance) simp
  ultimately show ?case using Cons by simp
qed

end

section \<open>Round trips\<close>

lemma uint_bytes_nonempty [simp]: "uint_bytes n \<noteq> []"
  by (subst uint_bytes.simps) simp

lemma uint_bytes_small: "n < 128 \<Longrightarrow> uint_bytes n = [of_nat n]"
  by (subst uint_bytes.simps) simp

lemma uint_bytes_big: "128 \<le> n \<Longrightarrow> uint_bytes n = of_nat (128 + n mod 128) # uint_bytes (n div 128)"
  by (subst uint_bytes.simps) simp

lemma safe_lt: "n \<le> MAX_SAFE_INTEGER \<Longrightarrow> n < double_limit \<and> js_round n = n"
  by (simp add: MAX_SAFE_INTEGER_def double_limit_def)

lemma read_var_loop_step:
  assumes "remaining d = b # bs" "num + unat b mod 128 * mult \<le> MAX_SAFE_INTEGER"
    and "mult < double_limit"
  shows "read_var_loop d num mult =
     (if unat b < 128 then Inr (num + unat b mod 128 * mult, advance 1 d)
      else read_var_loop (advance 1 d) (num + unat b mod 128 * mult) (mult * 128))"
proof -
  from assms(2) have "unat b mod 128 * mult \<le> MAX_SAFE_INTEGER" by simp
  then have "\<not> double_limit \<le> unat b mod 128 * mult" using safe_lt not_le by blast
  with assms safe_lt [OF assms(2)] remaining_Cons [OF assms(1)] show ?thesis
    by (subst read_var_loop.simps) (cases "unat b < 128"; simp add: Let_def advance_def)
qed

lemma read_var_loop_uint:
  "remaining d = uint_bytes n @ rest \<Longrightarrow> num + n * mult \<le> MAX_SAFE_INTEGER \<Longrightarrow> mult < double_limit \<Longrightarrow>
   read_var_loop d num mult = Inr (num + n * mult, advance (length (uint_bytes n)) d)"
proof (induction n arbitrary: d num mult rule: less_induct)
  case (less n)
  show ?case
  proof (cases "n < 128")
    case True
    with less.prems show ?thesis
      by (simp add: uint_bytes_small read_var_loop_step byte_simps)
  next
    case False
    define b :: byte where "b = of_nat (128 + n mod 128)"
    have b: "unat b = 128 + n mod 128" by (simp add: b_def byte_simps del: of_nat_add)
    have rem: "remaining d = b # uint_bytes (n div 128) @ rest"
      using less.prems(1) False by (simp add: uint_bytes_big b_def)
    have "mult * (n mod 128 + n div 128 * 128) = mult * n" by simp
    then have val: "num + n mod 128 * mult + n div 128 * (mult * 128) = num + n * mult"
      unfolding add_mult_distrib2 by (simp add: ac_simps)
    then have "num + unat b mod 128 * mult \<le> MAX_SAFE_INTEGER" using less.prems(2) b by simp
    then have step: "read_var_loop d num mult =
        read_var_loop (advance 1 d) (num + n mod 128 * mult) (mult * 128)"
      using read_var_loop_step [OF rem] less.prems(3) b by simp
    have "1 * (mult * 128) \<le> n div 128 * (mult * 128)"
      using False by (intro mult_right_mono) simp_all
    then have "mult * 128 \<le> MAX_SAFE_INTEGER" using less.prems(2) val by linarith
    then have "read_var_loop (advance 1 d) (num + n mod 128 * mult) (mult * 128)
       = Inr (num + n * mult, advance (length (uint_bytes (n div 128))) (advance 1 d))"
      using less.prems False val remaining_Cons [of d] safe_lt [of "mult * 128"]
      by (subst less.IH) (simp_all add: uint_bytes_big)
    with step False show ?thesis by (simp add: uint_bytes_big)
  qed
qed

interpretation uint: codec uint_bytes readVarUint "\<lambda>n. n \<le> MAX_SAFE_INTEGER"
proof unfold_locales
  fix n d rest
  assume "n \<le> MAX_SAFE_INTEGER" "remaining d = uint_bytes n @ rest"
  then show "readVarUint d = Inr (n, advance (length (uint_bytes n)) d)"
    using read_var_loop_uint [of d n rest 0 1] by (simp add: readVarUint_def double_limit_def)
qed

lemma int_tail_uint: "0 < n \<Longrightarrow> int_tail n = uint_bytes n"
proof (induction n rule: less_induct)
  case (less n)
  show ?case
  proof (cases "n < 128")
    case True
    with less show ?thesis by (subst int_tail.simps) (simp add: uint_bytes_small int_tail.simps)
  next
    case False
    with less.IH [of "n div 128"] show ?thesis
      by (subst int_tail.simps) (simp add: uint_bytes_big div_greater_zero_iff)
  qed
qed

lemma int_tail_0 [simp]: "int_tail 0 = []"
  by (subst int_tail.simps) simp

lemma sign_byte:
  assumes "m < 64" and "b = of_nat ((if c then 128 else 0) + (if s then 64 else 0) + m)"
  shows "odd (unat (b :: byte) div 64) = s" and "unat b mod 64 = m" and "unat b < 128 \<longleftrightarrow> \<not> c"
proof -
  have b: "unat b = (if c then 128 else 0) + (if s then 64 else 0) + m"
    using assms by (simp add: byte_simps del: of_nat_add)
  have "unat b = ((if c then 2 else 0) + (if s then 1 else 0)) * 64 + m" by (simp add: b)
  with assms(1) show "odd (unat b div 64) = s" "unat b mod 64 = m"
    by (simp_all only: div_mult_self3 mod_mult_self3) auto
  show "unat b < 128 \<longleftrightarrow> \<not> c" using assms(1) by (simp add: b)
qed

interpretation int: codec int_bytes readVarInt "\<lambda>x. jmag x \<le> MAX_SAFE_INTEGER"
proof unfold_locales
  fix x d rest
  assume ok: "jmag x \<le> MAX_SAFE_INTEGER" and rem: "remaining d = int_bytes x @ rest"
  obtain s m where x: "x = JInt s m" by (cases x)
  define b :: byte where
    "b = of_nat ((if 63 < m then 128 else 0) + (if s then 64 else 0) + m mod 64)"
  have bytes: "int_bytes x = b # int_tail (m div 64)"
    by (simp only: int_bytes_def x jsint.sel b_def)
  note b = sign_byte [OF _ b_def, simplified]
  have hd: "pos d < length (arr d)" "arr d ! pos d = b"
      "remaining (advance 1 d) = int_tail (m div 64) @ rest"
    using remaining_Cons [of d b "int_tail (m div 64) @ rest"] rem bytes by simp_all
  show "readVarInt d = Inr (x, advance (length (int_bytes x)) d)"
  proof (cases "63 < m")
    case False
    with hd b bytes show ?thesis by (simp add: readVarInt_def x advance_def)
  next
    case True
    then have "int_tail (m div 64) = uint_bytes (m div 64)"
      by (simp add: int_tail_uint div_greater_zero_iff)
    moreover have "read_var_loop (advance 1 d) (m mod 64) 64
        = Inr (m mod 64 + m div 64 * 64, advance (length (uint_bytes (m div 64))) (advance 1 d))"
      using ok hd(3) calculation
      by (intro read_var_loop_uint) (simp_all add: x double_limit_def)
    ultimately show ?thesis
      using True hd b bytes by (simp add: readVarInt_def x advance_def)
  qed
qed

text \<open>Byte arrays and strings carry their length in front.\<close>

lemma remaining_inside:
  "remaining d = ys @ zs \<Longrightarrow> ys \<noteq> [] \<Longrightarrow> pos d + length ys \<le> length (arr d)"
proof -
  assume "remaining d = ys @ zs" and ne: "ys \<noteq> []"
  then have "length (arr d) - pos d = length ys + length zs"
    unfolding remaining_def by (metis length_append length_drop)
  moreover have "0 < length ys" using ne by simp
  ultimately show ?thesis by linarith
qed

lemma readUint8Array_exact:
  "pos d \<le> length (arr d) \<Longrightarrow> remaining d = bs @ rest \<Longrightarrow> readUint8Array d (length bs) = Inr (bs, advance (length bs) d)"
proof -
  assume inside: "pos d \<le> length (arr d)" and rem: "remaining d = bs @ rest"
  then have "length (drop (pos d) (arr d)) = length bs + length rest"
    by (simp add: remaining_def)
  then have "length bs \<le> length (arr d) - pos d" by simp
  with inside rem show ?thesis
    by (auto simp: readUint8Array_def remaining_def advance_def)
qed

interpretation array: codec array_bytes readVarUint8Array "\<lambda>bs. length bs \<le> MAX_SAFE_INTEGER"
proof unfold_locales
  fix bs d rest
  assume ok: "length bs \<le> MAX_SAFE_INTEGER" and rem: "remaining d = array_bytes bs @ rest"
  let ?len = "uint_bytes (length bs)"
  from rem have rem': "remaining d = ?len @ bs @ rest" by (simp add: array_bytes_def)
  have "readVarUint d = Inr (length bs, advance (length ?len) d)"
    using uint.rd_enc [OF ok rem'] .
  moreover have "readUint8Array (advance (length ?len) d) (length bs)
      = Inr (bs, advance (length bs) (advance (length ?len) d))"
    using remaining_inside [OF rem'] remaining_advance [OF rem']
    by (intro readUint8Array_exact) simp_all
  ultimately show "readVarUint8Array d = Inr (bs, advance (length (array_bytes bs)) d)"
    by (simp add: readVarUint8Array_def array_bytes_def)
qed

text \<open>
  The strings the library can transport: no lone surrogate, and fewer bytes than the safe
  integers.
\<close>

definition string_ok :: "jsstring \<Rightarrow> bool" where
  "string_ok s \<longleftrightarrow> well_formed_utf16 s \<and> length (encodeUtf8 s) \<le> MAX_SAFE_INTEGER"

interpretation str: codec string_bytes readVarString string_ok
proof unfold_locales
  fix s d rest
  assume ok: "string_ok s" and "remaining d = string_bytes s @ rest"
  then have "readVarUint8Array d = Inr (encodeUtf8 s, advance (length (string_bytes s)) d)"
    unfolding string_bytes_def by (intro array.rd_enc) (simp_all add: string_ok_def)
  with ok show "readVarString d = Inr (s, advance (length (string_bytes s)) d)"
    by (simp add: readVarString_def decodeUtf8_encodeUtf8 string_ok_def)
qed

text \<open>Two codecs in sequence.\<close>

locale codec_pair = a: codec ea ra oka + b: codec eb rb okb
  for ea :: "'a \<Rightarrow> byte list" and ra oka
    and eb :: "'b \<Rightarrow> byte list" and rb okb
begin

lemma rd_both:
  assumes "oka x" "okb y" "remaining d = ea x @ eb y @ rest"
  shows "ra d = Inr (x, advance (length (ea x)) d)"
    and "rb (advance (length (ea x)) d) = Inr (y, advance (length (ea x) + length (eb y)) d)"
  using a.rd_enc [of x d "eb y @ rest"] b.rd_enc [of y "advance (length (ea x)) d" rest]
    remaining_advance [of d "ea x" "eb y @ rest"] assms
  by simp_all

end

interpretation uint2: codec_pair
  uint_bytes readVarUint "\<lambda>n. n \<le> MAX_SAFE_INTEGER"
  uint_bytes readVarUint "\<lambda>n. n \<le> MAX_SAFE_INTEGER"
  by unfold_locales

section \<open>Properties\<close>

lemma written_then_read:
  assumes "enc_ok e" "enc_bytes e' = enc_bytes e @ bs" "enc_ok e'"
    and "d = \<lparr>arr = toUint8Array e' @ rest, beyond = [], pos = length (toUint8Array e)\<rparr>"
  shows "remaining d = bs @ rest"
    and "advance (length bs) d = d\<lparr>pos := length (toUint8Array e')\<rparr>"
  using assms by (simp_all add: remaining_def advance_def toUint8Array_bytes)

text \<open>
  A variable-length unsigned integer up to \<open>Number.MAX_SAFE_INTEGER\<close>, written after any
  content and followed by any bytes, is read back exactly and the cursor ends just after it.
\<close>

theorem varUint_roundtrip:
  assumes "enc_ok e" and "n \<le> MAX_SAFE_INTEGER"
  shows "readVarUint \<lparr>arr = toUint8Array (writeVarUint e n) @ rest, beyond = [],
                      pos = length (toUint8Array e)\<rparr>
     = Inr (n, \<lparr>arr = toUint8Array (writeVarUint e n) @ rest, beyond = [],
                pos = length (toUint8Array (writeVarUint e n))\<rparr>)"
  using written_then_read [OF assms(1) _ _ refl, of "writeVarUint e n" "uint_bytes n" rest] assms
    uint.rd_enc [OF assms(2)]
  by (simp add: sink_simps)

theorem varUint_roundtrip_witness:
  "readVarUint \<lparr>arr = toUint8Array (writeVarUint createEncoder 300) @ [7], beyond = [],
                pos = length (toUint8Array createEncoder)\<rparr>
     = Inr (300, \<lparr>arr = toUint8Array (writeVarUint createEncoder 300) @ [7], beyond = [],
                pos = length (toUint8Array (writeVarUint createEncoder 300))\<rparr>)"
  by (rule varUint_roundtrip) (simp_all add: MAX_SAFE_INTEGER_def)

text \<open>
  A signed integer is read back with its sign, negative zero included: \<open>readVarInt\<close> of
  what \<open>writeVarInt\<close> wrote for \<open>-0\<close> is \<open>-0\<close>, which the run-length codecs of the library use
  as a marker.
\<close>

lemma varInt_roundtrip:
  assumes "enc_ok e" and "jmag x \<le> MAX_SAFE_INTEGER"
  shows "readVarInt \<lparr>arr = toUint8Array (writeVarInt e x) @ rest, beyond = [],
                     pos = length (toUint8Array e)\<rparr>
     = Inr (x, \<lparr>arr = toUint8Array (writeVarInt e x) @ rest, beyond = [],
                pos = length (toUint8Array (writeVarInt e x))\<rparr>)"
  using written_then_read [OF assms(1) _ _ refl, of "writeVarInt e x" "int_bytes x" rest] assms
    int.rd_enc [OF assms(2)]
  by (simp add: sink_simps)

theorem varInt_roundtrip_witness:
  "readVarInt \<lparr>arr = toUint8Array (writeVarInt createEncoder (JInt True 0)) @ [], beyond = [],
               pos = length (toUint8Array createEncoder)\<rparr>
     = Inr (JInt True 0, \<lparr>arr = toUint8Array (writeVarInt createEncoder (JInt True 0)) @ [],
               beyond = [], pos = length (toUint8Array (writeVarInt createEncoder (JInt True 0)))\<rparr>)"
  by (rule varInt_roundtrip) (simp_all add: MAX_SAFE_INTEGER_def)

text \<open>
  A string without lone surrogates is read back code unit for code unit, through UTF-8, on
  both paths of the writer (scratch buffer for short strings, own array for long ones).
\<close>

theorem varString_roundtrip:
  assumes "enc_ok e" and "string_ok s"
  shows "readVarString \<lparr>arr = toUint8Array (writeVarString e s) @ rest, beyond = [],
                        pos = length (toUint8Array e)\<rparr>
     = Inr (s, \<lparr>arr = toUint8Array (writeVarString e s) @ rest, beyond = [],
                pos = length (toUint8Array (writeVarString e s))\<rparr>)"
  using written_then_read [OF assms(1) _ _ refl, of "writeVarString e s" "string_bytes s" rest] assms
    str.rd_enc [OF assms(2)]
  by (simp add: sink_simps)

lemma string_ok_js: "length s < 10000 \<Longrightarrow> string_ok (js s)"
  using length_encodeUtf8 [of "js s"] by (simp add: string_ok_def MAX_SAFE_INTEGER_def)

theorem varString_roundtrip_witness:
  "readVarString \<lparr>arr = toUint8Array (writeVarString createEncoder (js ''content'')) @ [0],
       beyond = [], pos = length (toUint8Array createEncoder)\<rparr>
     = Inr (js ''content'', \<lparr>arr = toUint8Array (writeVarString createEncoder (js ''content'')) @ [0],
       beyond = [], pos = length (toUint8Array (writeVarString createEncoder (js ''content'')))\<rparr>)"
  by (rule varString_roundtrip) (simp_all add: string_ok_js del: js_simps)

lemma read_var_loop_truncated:
  "remaining d = take k (uint_bytes n) \<Longrightarrow> k < length (uint_bytes n) \<Longrightarrow>
   num + n * mult \<le> MAX_SAFE_INTEGER \<Longrightarrow> mult < double_limit \<Longrightarrow>
   read_var_loop d num mult = Inl UnexpectedEndOfArray"
proof (induction n arbitrary: d k num mult rule: less_induct)
  case (less n)
  show ?case
  proof (cases k)
    case 0
    with less.prems(1) show ?thesis
      by (subst read_var_loop.simps) (simp add: remaining_def)
  next
    case (Suc k')
    with less.prems(2) have big: "128 \<le> n"
      by (cases "n < 128") (simp_all add: uint_bytes_small)
    define b :: byte where "b = of_nat (128 + n mod 128)"
    have b: "unat b = 128 + n mod 128" by (simp add: b_def byte_simps del: of_nat_add)
    have rem: "remaining d = b # take k' (uint_bytes (n div 128))"
      using less.prems(1) big Suc by (simp add: uint_bytes_big b_def)
    have "mult * (n mod 128 + n div 128 * 128) = mult * n" by simp
    then have val: "num + n mod 128 * mult + n div 128 * (mult * 128) = num + n * mult"
      unfolding add_mult_distrib2 by (simp add: ac_simps)
    have "1 * (mult * 128) \<le> n div 128 * (mult * 128)"
      using big by (intro mult_right_mono) simp_all
    then have "mult * 128 \<le> MAX_SAFE_INTEGER" using less.prems(3) val by linarith
    then have "read_var_loop (advance 1 d) (num + n mod 128 * mult) (mult * 128)
        = Inl UnexpectedEndOfArray"
      using less.prems big val Suc remaining_Cons [OF rem] safe_lt [of "mult * 128"]
      by (intro less.IH [of "n div 128" _ k']) (simp_all add: uint_bytes_big)
    with read_var_loop_step [OF rem] less.prems b val show ?thesis by simp
  qed
qed

text \<open>
  A truncated number is an error, never a wrong number: on any proper prefix of the bytes of
  a safe integer \<open>readVarUint\<close> throws the end-of-array error.
\<close>

theorem varUint_truncated:
  assumes "n \<le> MAX_SAFE_INTEGER" and "k < length (toUint8Array (writeVarUint createEncoder n))"
  shows "readVarUint (createDecoder (take k (toUint8Array (writeVarUint createEncoder n))))
     = Inl UnexpectedEndOfArray"
  using assms read_var_loop_truncated [of "createDecoder (take k (uint_bytes n))" k n 0 1]
  by (simp add: readVarUint_def toUint8Array_bytes sink_simps double_limit_def)

theorem varUint_truncated_witness:
  "readVarUint (createDecoder (take 1 (toUint8Array (writeVarUint createEncoder 300))))
     = Inl UnexpectedEndOfArray"
  by (rule varUint_truncated)
     (simp_all add: MAX_SAFE_INTEGER_def toUint8Array_bytes sink_simps uint_bytes_big
       uint_bytes_small)

end
