(* ===== verification/YIds.thy ===== *)
theory YIds
  imports Lib0Decoding
begin

text \<open>
  \<open>yjs/src/utils/ID.js\<close> and the codec half of \<open>yjs/src/utils/RelativePosition.js\<close>: the
  identifiers of inserted characters and the relative positions a proposal carries over the wire.
  The writers are shown to be codecs in the sense of the locale of \<open>Lib0Decoding\<close>; a relative
  position survives up to the fields the writer leaves out.
\<close>

section \<open>Identifiers\<close>

datatype ID = ID (client: nat) (clock: nat)

definition createID :: "nat \<Rightarrow> nat \<Rightarrow> ID" where
  "createID cl ck = ID cl ck"

definition compareIDs :: "ID option \<Rightarrow> ID option \<Rightarrow> bool" where
  "compareIDs a b \<longleftrightarrow>
     (case (a, b) of
        (None, None) \<Rightarrow> True
      | (Some x, Some y) \<Rightarrow> client x = client y \<and> clock x = clock y
      | _ \<Rightarrow> False)"

definition writeID :: "encoder \<Rightarrow> ID \<Rightarrow> encoder" where
  "writeID e i = writeVarUint (writeVarUint e (client i)) (clock i)"

definition readID :: "ID reader" where
  "readID d =
     (case readVarUint d of
        Inl err \<Rightarrow> Inl err
      | Inr (cl, d1) \<Rightarrow>
          (case readVarUint d1 of Inl err \<Rightarrow> Inl err | Inr (ck, d2) \<Rightarrow> Inr (createID cl ck, d2)))"

lemma compareIDs_eq: "compareIDs a b \<longleftrightarrow> a = b"
  by (auto simp: compareIDs_def ID.expand split: option.splits)

definition id_bytes :: "ID \<Rightarrow> byte list" where
  "id_bytes i = uint_bytes (client i) @ uint_bytes (clock i)"

definition id_ok :: "ID \<Rightarrow> bool" where
  "id_ok i \<longleftrightarrow> client i \<le> MAX_SAFE_INTEGER \<and> clock i \<le> MAX_SAFE_INTEGER"

lemma writeID_ok [simp]: "enc_ok e \<Longrightarrow> enc_ok (writeID e i)"
  and writeID_bytes [sink_simps]: "enc_ok e \<Longrightarrow> enc_bytes (writeID e i) = enc_bytes e @ id_bytes i"
  by (simp_all add: writeID_def id_bytes_def sink_simps)

interpretation id: codec id_bytes readID id_ok
proof unfold_locales
  fix i d rest
  assume "id_ok i" and rem: "remaining d = id_bytes i @ rest"
  then have ok: "client i \<le> MAX_SAFE_INTEGER" "clock i \<le> MAX_SAFE_INTEGER"
    by (simp_all add: id_ok_def)
  from rem have "remaining d = uint_bytes (client i) @ uint_bytes (clock i) @ rest"
    by (simp add: id_bytes_def)
  from uint2.rd_both [OF ok this] show "readID d = Inr (i, advance (length (id_bytes i)) d)"
    by (simp add: readID_def id_bytes_def createID_def)
qed

section \<open>Relative positions\<close>

record relpos =
  rp_type :: "ID option"
  rp_tname :: "jsstring option"
  rp_item :: "ID option"
  rp_assoc :: jsint

definition writeRelativePosition :: "encoder \<Rightarrow> relpos \<Rightarrow> encoder result" where
  "writeRelativePosition e rpos =
     (let tagged =
        (case rp_item rpos of
           Some item \<Rightarrow> Inr (writeID (writeVarUint e 0) item)
         | None \<Rightarrow>
             (case rp_tname rpos of
                Some tname \<Rightarrow> Inr (writeVarString (writeUint8 e 1) tname)
              | None \<Rightarrow>
                  (case rp_type rpos of
                     Some typ \<Rightarrow> Inr (writeID (writeUint8 e 2) typ)
                   | None \<Rightarrow> Inl UnexpectedCase)))
      in case tagged of
           Inl err \<Rightarrow> Inl err
         | Inr e1 \<Rightarrow> Inr (writeVarInt e1 (rp_assoc rpos)))"

definition encodeRelativePosition :: "relpos \<Rightarrow> byte list result" where
  "encodeRelativePosition rpos =
     (case writeRelativePosition createEncoder rpos of
        Inl err \<Rightarrow> Inl err
      | Inr e \<Rightarrow> Inr (toUint8Array e))"

text \<open>The \<open>switch\<close> on the tag reads nothing for a tag above 2.\<close>

definition readRelativePosition :: "relpos reader" where
  "readRelativePosition d =
     (case readVarUint d of
        Inl err \<Rightarrow> Inl err
      | Inr (tag, d1) \<Rightarrow>
          (let fields =
             (if tag = 0
              then (case readID d1 of
                      Inl err \<Rightarrow> Inl err | Inr (i, d2) \<Rightarrow> Inr ((None, None, Some i), d2))
              else if tag = 1
              then (case readVarString d1 of
                      Inl err \<Rightarrow> Inl err | Inr (s, d2) \<Rightarrow> Inr ((None, Some s, None), d2))
              else if tag = 2
              then (case readID d1 of
                      Inl err \<Rightarrow> Inl err | Inr (i, d2) \<Rightarrow> Inr ((Some i, None, None), d2))
              else Inr ((None, None, None), d1))
           in case fields of
                Inl err \<Rightarrow> Inl err
              | Inr ((typ, tname, itemID), d2) \<Rightarrow>
                  (if dec_hasContent d2
                   then (case readVarInt d2 of
                           Inl err \<Rightarrow> Inl err
                         | Inr (a, d3) \<Rightarrow>
                             Inr (\<lparr>rp_type = typ, rp_tname = tname, rp_item = itemID,
                                    rp_assoc = a\<rparr>, d3))
                   else Inr (\<lparr>rp_type = typ, rp_tname = tname, rp_item = itemID,
                               rp_assoc = JInt False 0\<rparr>, d2))))"

definition decodeRelativePosition :: "byte list \<Rightarrow> relpos result" where
  "decodeRelativePosition uint8Array =
     (case readRelativePosition (createDecoder uint8Array) of
        Inl err \<Rightarrow> Inl err
      | Inr (rpos, d) \<Rightarrow> Inr rpos)"

text \<open>\<open>===\<close> on numbers identifies the two zeros.\<close>

definition compareRelativePositions :: "relpos option \<Rightarrow> relpos option \<Rightarrow> bool" where
  "compareRelativePositions a b \<longleftrightarrow>
     (case (a, b) of
        (None, None) \<Rightarrow> True
      | (Some x, Some y) \<Rightarrow>
          rp_tname x = rp_tname y \<and> compareIDs (rp_item x) (rp_item y)
          \<and> compareIDs (rp_type x) (rp_type y)
          \<and> jsint_val (rp_assoc x) = jsint_val (rp_assoc y)
      | _ \<Rightarrow> False)"

text \<open>The writer keeps only the first of item, type name and type that is present.\<close>

definition rp_normal :: "relpos \<Rightarrow> relpos" where
  "rp_normal r =
     (if rp_item r \<noteq> None then r\<lparr>rp_type := None, rp_tname := None\<rparr>
      else if rp_tname r \<noteq> None then r\<lparr>rp_type := None\<rparr> else r)"

definition relpos_ok :: "relpos \<Rightarrow> bool" where
  "relpos_ok r \<longleftrightarrow>
     jmag (rp_assoc r) \<le> MAX_SAFE_INTEGER
     \<and> (case rp_item r of
          Some i \<Rightarrow> id_ok i
        | None \<Rightarrow>
            (case rp_tname r of
               Some s \<Rightarrow> string_ok s
             | None \<Rightarrow> (case rp_type r of Some i \<Rightarrow> id_ok i | None \<Rightarrow> False)))"

definition relpos_bytes :: "relpos \<Rightarrow> byte list" where
  "relpos_bytes r =
     (case rp_item r of
        Some i \<Rightarrow> 0 # id_bytes i
      | None \<Rightarrow>
          (case rp_tname r of
             Some s \<Rightarrow> 1 # string_bytes s
           | None \<Rightarrow> (case rp_type r of Some i \<Rightarrow> 2 # id_bytes i | None \<Rightarrow> [])))
     @ int_bytes (rp_assoc r)"

lemma writeRelativePosition_spec:
  assumes "enc_ok e" "relpos_ok r"
  shows "\<exists>e'. writeRelativePosition e r = Inr e' \<and> enc_ok e'
     \<and> enc_bytes e' = enc_bytes e @ relpos_bytes r"
  using assms
  by (auto simp: writeRelativePosition_def relpos_ok_def relpos_bytes_def writeUint8_def sink_simps
      uint_bytes_small split: option.splits)

lemma int_bytes_nonempty [simp]: "int_bytes x \<noteq> []"
  by (simp add: int_bytes_def)

lemma hasContent_remaining: "remaining d = bs \<Longrightarrow> bs \<noteq> [] \<Longrightarrow> dec_hasContent d"
  by (auto simp: remaining_def dec_hasContent_def)

lemma tag_read:
  assumes "remaining d = of_nat t # bs" "t < 128"
  shows "readVarUint d = Inr (t, advance 1 d)" and "remaining (advance 1 d) = bs"
  using uint.rd_enc [of t d bs] remaining_Cons [OF assms(1)] assms
  by (simp_all add: uint_bytes_small MAX_SAFE_INTEGER_def)

lemma readRelativePosition_spec:
  assumes "relpos_ok r" "remaining d = relpos_bytes r @ rest"
  shows "readRelativePosition d = Inr (rp_normal r, advance (length (relpos_bytes r)) d)"
proof -
  have tail: "readVarInt d' = Inr (rp_assoc r, advance (length (int_bytes (rp_assoc r))) d')"
    "dec_hasContent d'"
    if "remaining d' = int_bytes (rp_assoc r) @ rest" for d'
    using that assms(1) hasContent_remaining [OF that]
    by (auto simp: relpos_ok_def intro: int.rd_enc)
  show ?thesis
  proof (cases "rp_item r")
    case (Some i)
    then have "remaining d = of_nat 0 # id_bytes i @ int_bytes (rp_assoc r) @ rest"
      using assms(2) by (simp add: relpos_bytes_def)
    note t = tag_read [OF this, simplified]
    from id.rd_enc [OF _ t(2)] Some assms(1)
    have "readID (advance 1 d) = Inr (i, advance (length (id_bytes i)) (advance 1 d))"
      by (simp add: relpos_ok_def)
    with tail [OF remaining_advance [OF t(2)]] t Some show ?thesis
      by (simp add: readRelativePosition_def relpos_bytes_def rp_normal_def)
  next
    case no_item: None
    show ?thesis
    proof (cases "rp_tname r")
      case (Some s)
      with no_item have "remaining d = of_nat 1 # string_bytes s @ int_bytes (rp_assoc r) @ rest"
        using assms(2) by (simp add: relpos_bytes_def)
      note t = tag_read [OF this, simplified]
      from str.rd_enc [OF _ t(2)] Some no_item assms(1)
      have "readVarString (advance 1 d) = Inr (s, advance (length (string_bytes s)) (advance 1 d))"
        by (simp add: relpos_ok_def)
      with tail [OF remaining_advance [OF t(2)]] t Some no_item show ?thesis
        by (simp add: readRelativePosition_def relpos_bytes_def rp_normal_def)
    next
      case None
      with no_item assms(1) obtain i where i: "rp_type r = Some i" "id_ok i"
        by (auto simp: relpos_ok_def split: option.splits)
      with no_item None have "remaining d = of_nat 2 # id_bytes i @ int_bytes (rp_assoc r) @ rest"
        using assms(2) by (simp add: relpos_bytes_def)
      note t = tag_read [OF this, simplified]
      from id.rd_enc [OF i(2) t(2)]
      have "readID (advance 1 d) = Inr (i, advance (length (id_bytes i)) (advance 1 d))"
        by simp
      with tail [OF remaining_advance [OF t(2)]] t i None no_item show ?thesis
        by (simp add: readRelativePosition_def relpos_bytes_def rp_normal_def)
    qed
  qed
qed

lemma decode_encode_relpos:
  assumes "relpos_ok r"
  shows "\<exists>bs. encodeRelativePosition r = Inr bs \<and> decodeRelativePosition bs = Inr (rp_normal r)"
proof -
  obtain e where e: "writeRelativePosition createEncoder r = Inr e" "enc_ok e"
    "enc_bytes e = relpos_bytes r"
    using writeRelativePosition_spec [of createEncoder r] assms by auto
  then show ?thesis
    using readRelativePosition_spec [of r "createDecoder (relpos_bytes r)" "[]"] assms
    by (simp add: encodeRelativePosition_def decodeRelativePosition_def toUint8Array_bytes)
qed

section \<open>Properties\<close>

text \<open>
  A relative position survives encoding and decoding up to the fields the writer leaves out:
  the decoded position names the same item, or else the same root type, or else the same nested
  type, with the same association, whatever the sign of a zero association.
\<close>

theorem relpos_roundtrip:
  assumes "relpos_ok r"
  shows "(case encodeRelativePosition r of
            Inl err \<Rightarrow> Inl err | Inr bs \<Rightarrow> decodeRelativePosition bs) = Inr (rp_normal r)"
  using decode_encode_relpos [OF assms] by auto

theorem relpos_roundtrip_witness:
  "(case encodeRelativePosition \<lparr>rp_type = None, rp_tname = Some (js ''content''),
            rp_item = Some (ID 7 300), rp_assoc = JInt False 0\<rparr> of
      Inl err \<Rightarrow> Inl err | Inr bs \<Rightarrow> decodeRelativePosition bs)
   = Inr \<lparr>rp_type = None, rp_tname = None, rp_item = Some (ID 7 300), rp_assoc = JInt False 0\<rparr>"
  using relpos_roundtrip [of "\<lparr>rp_type = None, rp_tname = Some (js ''content''),
            rp_item = Some (ID 7 300), rp_assoc = JInt False 0\<rparr>"]
  by (simp add: relpos_ok_def id_ok_def rp_normal_def MAX_SAFE_INTEGER_def)

text \<open>
  Encoding fails in exactly one case, a position that names neither an item nor a root type
  nor a nested type, and then with the library's unexpected-case error.
\<close>

lemma encodeRelativePosition_error:
  "encodeRelativePosition r = Inl err \<longleftrightarrow>
     err = UnexpectedCase \<and> rp_item r = None \<and> rp_tname r = None \<and> rp_type r = None"
  by (auto simp: encodeRelativePosition_def writeRelativePosition_def split: option.splits)

end
