(* ===== verification/YSearch.thy ===== *)
theory YSearch
  imports YIds
begin

text \<open>
  The binary search over one client's structs (\<open>yjs/src/utils/StructStore.js\<close>,
  \<open>findIndexSS\<close>). It looks only at the clocks and lengths, so the array is a list of such pairs. Shown: on a store that
  passes \<open>integrityCheck\<close> the search ends, finds the struct that holds the clock, and throws for
  every ck outside the store; where the search starts does not matter.
\<close>

section \<open>The search\<close>

type_synonym ranges = "(nat \<times> nat) list"

text \<open>The loop of \<open>findIndexSS\<close>. An index outside the array reads \<open>undefined\<close>, and its \<open>id\<close> throws.\<close>

function search_loop :: "ranges \<Rightarrow> nat \<Rightarrow> int \<Rightarrow> int \<Rightarrow> int \<Rightarrow> nat result" where
  "search_loop rs ck left right mid =
     (if right < left then Inl UnexpectedCase
      else if mid < left \<or> right < mid \<or> mid < 0 \<or> int (length rs) \<le> mid then Inl TypeErr
      else let (midclock, len) = rs ! nat mid in
        if midclock \<le> ck then
          (if ck < midclock + len then Inr (nat mid)
           else search_loop rs ck (mid + 1) right ((mid + 1 + right) div 2))
        else search_loop rs ck left (mid - 1) ((left + (mid - 1)) div 2))"
  by pat_completeness auto
termination
  by (relation "measure (\<lambda>(rs, ck, left, right, mid). nat (right - left + 1))") auto

declare search_loop.simps [simp del]

text \<open>The first probe is the last struct, the second the pivot.\<close>

definition findIndexSS :: "ranges \<Rightarrow> nat \<Rightarrow> nat result" where
  "findIndexSS rs ck =
     (if rs = [] then Inl TypeErr
      else let right = length rs - 1; (midclock, len) = rs ! right in
        if midclock = ck then Inr right
        else if midclock + len = 1 then Inl TypeErr
        else search_loop rs ck 0 (int right) (int (ck * right div (midclock + len - 1))))"

section \<open>Contiguous stores\<close>

text \<open>\<open>integrityCheck\<close>: every struct starts where its predecessor ends. \<open>last_end\<close> is the client's
  state.\<close>

fun contiguous :: "ranges \<Rightarrow> bool" where
  "contiguous [] = True"
| "contiguous [r] = True"
| "contiguous (r # r' # rs) = (fst r + snd r = fst r' \<and> contiguous (r' # rs))"

definition positive :: "ranges \<Rightarrow> bool" where
  "positive rs = list_all (\<lambda>r. 0 < snd r) rs"

definition ends :: "ranges \<Rightarrow> nat" where
  "ends rs = fst (last rs) + snd (last rs)"

lemma contiguous_nth:
  "contiguous rs \<Longrightarrow> Suc i < length rs \<Longrightarrow> fst (rs ! i) + snd (rs ! i) = fst (rs ! Suc i)"
  by (induction rs arbitrary: i rule: contiguous.induct) (auto simp: nth_Cons split: nat.splits)

lemma contiguous_mono:
  assumes "contiguous rs" "i < j" "j < length rs"
  shows "fst (rs ! i) + snd (rs ! i) \<le> fst (rs ! j)"
  using assms(2,3)
proof (induction j)
  case (Suc j)
  then show ?case
    using contiguous_nth [OF assms(1), of j] by (cases "i = j") auto
qed simp

text \<open>The struct that holds a clock.\<close>

definition holds :: "ranges \<Rightarrow> nat \<Rightarrow> nat \<Rightarrow> bool" where
  "holds rs ck i = (i < length rs \<and> fst (rs ! i) \<le> ck \<and> ck < fst (rs ! i) + snd (rs ! i))"

lemma holds_unique:
  assumes "contiguous rs" "holds rs ck i" "holds rs ck j"
  shows "i = j"
proof (rule ccontr)
  assume "i \<noteq> j"
  then consider "i < j" | "j < i" by linarith
  then show False
    using assms contiguous_mono [of rs i j] contiguous_mono [of rs j i]
    by cases (auto simp: holds_def)
qed

lemma holds_exists:
  "contiguous rs \<Longrightarrow> rs \<noteq> [] \<Longrightarrow> fst (hd rs) \<le> ck \<Longrightarrow> ck < ends rs \<Longrightarrow> \<exists>i. holds rs ck i"
proof (induction rs rule: contiguous.induct)
  case (2 r)
  then show ?case by (auto simp: holds_def ends_def intro!: exI [of _ 0])
next
  case (3 r r' rs)
  show ?case
  proof (cases "ck < fst r'")
    case True
    with 3 show ?thesis by (auto simp: holds_def intro!: exI [of _ 0])
  next
    case False
    with 3 obtain i where "holds (r' # rs) ck i" by (auto simp: ends_def)
    then show ?thesis by (intro exI [of _ "Suc i"]) (auto simp: holds_def)
  qed
qed simp

text \<open>The loop, from any probe inside the bounds, finds the struct between them.\<close>

lemma search_loop_sound: "search_loop rs ck left right mid = Inr i \<Longrightarrow> holds rs ck i"
proof (induction rs ck left right mid rule: search_loop.induct)
  case (1 rs ck left right mid)
  from 1(3) show ?case
    by (subst (asm) search_loop.simps)
      (auto simp: holds_def Let_def split: if_splits prod.splits dest!: 1(1,2) [rotated -1])
qed

lemma search_loop_complete:
  assumes "contiguous rs" "holds rs ck i"
  shows "left \<le> int i \<Longrightarrow> int i \<le> right \<Longrightarrow> 0 \<le> left \<Longrightarrow> right < int (length rs) \<Longrightarrow>
    left \<le> mid \<Longrightarrow> mid \<le> right \<Longrightarrow> search_loop rs ck left right mid = Inr i"
  using assms
proof (induction rs ck left right mid rule: search_loop.induct)
  case (1 rs ck left right mid)
  obtain k l where kl: "rs ! nat mid = (k, l)" by force
  have i: "i < length rs" "fst (rs ! i) \<le> ck" "ck < fst (rs ! i) + snd (rs ! i)"
    using 1 by (auto simp: holds_def)
  show ?case
  proof (cases "k \<le> ck")
    case True
    show ?thesis
    proof (cases "ck < k + l")
      case True
      then have "holds rs ck (nat mid)" using 1 kl \<open>k \<le> ck\<close> by (auto simp: holds_def)
      then have "nat mid = i" using 1 holds_unique by blast
      with True \<open>k \<le> ck\<close> kl 1 show ?thesis by (subst search_loop.simps) auto
    next
      case False
      have "nat mid < i"
      proof (rule ccontr)
        assume "\<not> nat mid < i"
        then have "i < nat mid \<or> i = nat mid" by linarith
        with contiguous_mono [of rs i "nat mid"] 1 kl i False \<open>k \<le> ck\<close> show False by fastforce
      qed
      then show ?thesis
        using True False kl 1 by (subst search_loop.simps) auto
    qed
  next
    case False
    have "i < nat mid"
    proof (rule ccontr)
      assume "\<not> i < nat mid"
      then have "nat mid < i \<or> i = nat mid" by linarith
      with contiguous_mono [of rs "nat mid" i] 1 kl i False show False by fastforce
    qed
    then show ?thesis
      using False kl 1 by (subst search_loop.simps) auto
  qed
qed

lemma holds_last:
  "positive rs \<Longrightarrow> rs \<noteq> [] \<Longrightarrow> fst (rs ! (length rs - 1)) = ck \<Longrightarrow> holds rs ck (length rs - 1)"
  by (auto simp: holds_def positive_def list_all_length)

lemma findIndexSS_sound: "positive rs \<Longrightarrow> findIndexSS rs ck = Inr i \<Longrightarrow> holds rs ck i"
  using holds_last [of rs ck]
  by (auto simp: findIndexSS_def Let_def search_loop_sound split: if_splits prod.splits)

lemma findIndexSS_complete:
  assumes "contiguous rs" "positive rs" "holds rs ck i"
  shows "findIndexSS rs ck = Inr i"
proof -
  define right where "right = length rs - 1"
  have r: "length rs - Suc 0 = right" by (simp add: right_def)
  obtain k l where kl: "rs ! right = (k, l)" by force
  have i: "i \<le> right" "right < length rs" "rs \<noteq> []"
    using assms(3) by (auto simp: holds_def right_def)
  have le: "ck < k + l"
  proof (cases "i = right")
    case True
    with assms(3) kl show ?thesis by (simp add: holds_def)
  next
    case False
    with i contiguous_mono [OF assms(1), of i right] assms(3) kl show ?thesis by (simp add: holds_def)
  qed
  show ?thesis
  proof (cases "k = ck")
    case True
    then have "holds rs ck right"
      using holds_last [OF assms(2) i(3)] kl by (simp add: right_def)
    then have "i = right" using holds_unique assms by blast
    with True kl i show ?thesis by (simp add: findIndexSS_def r)
  next
    case False
    have "0 < l" using assms(2) kl i by (auto simp: positive_def list_all_length)
    have ne: "k + l \<noteq> 1" using le False \<open>0 < l\<close> by linarith
    define m where "m = k + l - 1"
    have m: "ck \<le> m" "0 < m" using le ne \<open>0 < l\<close> by (auto simp: m_def)
    have "ck * right div m \<le> m * right div m" using m by (intro div_le_mono mult_le_mono1)
    then have "ck * right div (k + l - 1) \<le> right" using m by (simp add: m_def)
    then have "search_loop rs ck 0 (int right) (int (ck * right div (k + l - 1))) = Inr i"
      using i assms by (intro search_loop_complete) auto
    with False ne kl i show ?thesis by (simp add: findIndexSS_def r Let_def)
  qed
qed

text \<open>
  C35. over the structs of one client, which are contiguous and non-empty, the search returns an
  index exactly when the struct there holds the clock; so it always ends, and it throws for a
  clock that is not in the store.
\<close>

theorem findIndexSS_correct:
  "contiguous rs \<Longrightarrow> positive rs \<Longrightarrow> findIndexSS rs ck = Inr i \<longleftrightarrow> holds rs ck i"
  using findIndexSS_sound findIndexSS_complete by blast

lemma findIndexSS_correct_witness:
  "findIndexSS [(0, 3), (3, 1), (4, 5)] 7 = Inr 2 \<and> holds [(0, 3), (3, 1), (4, 5)] 7 2"
proof -
  have "holds [(0, 3), (3, 1), (4, 5)] 7 2" by (simp add: holds_def)
  with findIndexSS_correct [of "[(0, 3), (3, 1), (4, 5)]" 7 2] show ?thesis
    by (simp add: positive_def)
qed

end
