(* ===== verification/YStore.thy ===== *)
theory YStore
  imports YSearch
begin

text \<open>
  The document store (\<open>yjs/src/utils/StructStore.js\<close>, \<open>structs/Item.js\<close>,
  \<open>structs/ContentString.js\<close>, \<open>structs/ContentDeleted.js\<close>). The code's structs are shared,
  mutable objects: the same item is an entry of its client's array and a node of its type's linked
  list. The model keeps them in a heap addressed by the ID of their first clock, the arrays and
  the lists hold addresses. The documents are those the editor makes: every shared type is a root
  text whose items carry strings, or are deleted; items of maps and nested types do not occur.

  A document is abstracted to its list of units, one per inserted UTF-16 code unit, visible or
  deleted. Splitting an item does not change the units, unless the split falls into a surrogate
  pair, where the code itself replaces both halves.
\<close>

section \<open>Contents\<close>

datatype content = ContentString jsstring | ContentDeleted nat

fun getLength :: "content \<Rightarrow> nat" where
  "getLength (ContentString s) = length s"
| "getLength (ContentDeleted n) = n"

fun isCountable :: "content \<Rightarrow> bool" where
  "isCountable (ContentString s) = True"
| "isCountable (ContentDeleted n) = False"

definition isHighSurrogate :: "jschar \<Rightarrow> bool" where
  "isHighSurrogate c = (55296 \<le> unat c \<and> unat c \<le> 56319)"

text \<open>What stays and what is split off. \<open>charCodeAt(-1)\<close> is \<open>NaN\<close>, which is no surrogate.\<close>

fun content_splice :: "content \<Rightarrow> nat \<Rightarrow> content \<times> content" where
  "content_splice (ContentString s) offset =
     (let l = take offset s; r = drop offset s in
      if 0 < offset \<and> offset \<le> length s \<and> isHighSurrogate (s ! (offset - 1))
      then (ContentString (take (offset - 1) l @ [0xFFFD]), ContentString (0xFFFD # drop 1 r))
      else (ContentString l, ContentString r))"
| "content_splice (ContentDeleted n) offset = (ContentDeleted offset, ContentDeleted (n - offset))"

section \<open>Structs and documents\<close>

record item =
  it_origin :: "ID option"
  it_rightOrigin :: "ID option"
  it_parent :: jsstring
  it_redone :: "ID option"
  it_content :: content
  it_length :: nat
  it_deleted :: bool
  it_keep :: bool

datatype struct = GC nat | Item item

fun struct_length :: "struct \<Rightarrow> nat" where
  "struct_length (GC n) = n"
| "struct_length (Item it) = it_length it"

text \<open>\<open>clocks d c\<close> is the array of client \<open>c\<close>; a client without an array has the empty list (the
  code never keeps an empty array). \<open>start d n\<close> is the linked list of the root type \<open>n\<close>, from
  \<open>_start\<close> along \<open>right\<close>.\<close>

record doc =
  heap :: "ID \<Rightarrow> struct option"
  clocks :: "nat \<Rightarrow> nat list"
  start :: "jsstring \<Rightarrow> ID list"
  type_length :: "jsstring \<Rightarrow> int"
  clientID :: nat

text \<open>A transaction is the document with what the transaction has recorded.\<close>

record transaction = doc +
  deleteSet :: "nat \<Rightarrow> (nat \<times> nat) list"
  mergeStructs :: "ID list"
  beforeState :: "nat \<Rightarrow> nat"

definition length_at :: "'a doc_scheme \<Rightarrow> ID \<Rightarrow> nat" where
  "length_at d a = (case heap d a of None \<Rightarrow> 0 | Some s \<Rightarrow> struct_length s)"

definition ranges_of :: "'a doc_scheme \<Rightarrow> nat \<Rightarrow> ranges" where
  "ranges_of d c = map (\<lambda>k. (k, length_at d (ID c k))) (clocks d c)"

definition getState :: "'a doc_scheme \<Rightarrow> nat \<Rightarrow> nat" where
  "getState d c = (if clocks d c = [] then 0
     else last (clocks d c) + length_at d (ID c (last (clocks d c))))"

definition integrityCheck :: "'a doc_scheme \<Rightarrow> nat list \<Rightarrow> bool" where
  "integrityCheck d cs = list_all (\<lambda>c. contiguous (ranges_of d c)) cs"

text \<open>\<open>addStruct\<close>: the struct \<open>s\<close> with ID \<open>a\<close>.\<close>

definition addStruct :: "'a doc_scheme \<Rightarrow> ID \<Rightarrow> struct \<Rightarrow> 'a doc_scheme result" where
  "addStruct d a s =
     (let ks = clocks d (client a) in
      if ks \<noteq> [] \<and> last ks + length_at d (ID (client a) (last ks)) \<noteq> clock a then Inl UnexpectedCase
      else Inr (d\<lparr>heap := (heap d)(a \<mapsto> s),
                  clocks := (clocks d)(client a := ks @ [clock a])\<rparr>))"

text \<open>\<open>find\<close> and \<open>getItem\<close>: the address of the struct that holds an ID.\<close>

definition getItem :: "'a doc_scheme \<Rightarrow> ID \<Rightarrow> ID result" where
  "getItem d i = (case findIndexSS (ranges_of d (client i)) (clock i) of
     Inl e \<Rightarrow> Inl e
   | Inr n \<Rightarrow> Inr (ID (client i) (clocks d (client i) ! n)))"

definition insert_at :: "nat \<Rightarrow> 'a \<Rightarrow> 'a list \<Rightarrow> 'a list" where
  "insert_at i x xs = take i xs @ x # drop i xs"

fun insert_after :: "'a \<Rightarrow> 'a \<Rightarrow> 'a list \<Rightarrow> 'a list" where
  "insert_after a b [] = []"
| "insert_after a b (x # xs) = (if x = a then x # b # xs else x # insert_after a b xs)"

text \<open>\<open>splitItem\<close> of the item \<open>it\<close> at \<open>a\<close>; the new right item is returned by its address.\<close>

definition splitItem :: "'a transaction_scheme \<Rightarrow> ID \<Rightarrow> item \<Rightarrow> nat \<Rightarrow> ID \<times> 'a transaction_scheme" where
  "splitItem t a it diff =
     (let (lc, rc) = content_splice (it_content it) diff;
          b = createID (client a) (clock a + diff);
          right = \<lparr>it_origin = Some (createID (client a) (clock a + diff - 1)),
                   it_rightOrigin = it_rightOrigin it, it_parent = it_parent it,
                   it_redone = map_option (\<lambda>r. createID (client r) (clock r + diff)) (it_redone it),
                   it_content = rc, it_length = getLength rc,
                   it_deleted = it_deleted it, it_keep = it_keep it\<rparr>;
          left = it\<lparr>it_content := lc, it_length := diff\<rparr>
      in (b, t\<lparr>heap := (heap t)(a \<mapsto> Item left, b \<mapsto> Item right),
               start := (start t)(it_parent it := insert_after a b (start t (it_parent it))),
               mergeStructs := mergeStructs t @ [b]\<rparr>))"

text \<open>\<open>structs.splice(index + 1, 0, splitItem(..))\<close>.\<close>

definition spliceSplit :: "'a transaction_scheme \<Rightarrow> nat \<Rightarrow> nat \<Rightarrow> item \<Rightarrow> nat \<Rightarrow> 'a transaction_scheme" where
  "spliceSplit t c i it diff =
     (let (b, t1) = splitItem t (ID c (clocks t c ! i)) it diff in
      t1\<lparr>clocks := (clocks t1)(c := insert_at (i + 1) (clock b) (clocks t1 c))\<rparr>)"

definition findIndexCleanStart ::
  "'a transaction_scheme \<Rightarrow> nat \<Rightarrow> nat \<Rightarrow> (nat \<times> 'a transaction_scheme) result" where
  "findIndexCleanStart t c ck = (case findIndexSS (ranges_of t c) ck of
     Inl e \<Rightarrow> Inl e
   | Inr i \<Rightarrow> let k = clocks t c ! i in
       case heap t (ID c k) of
         Some (Item it) \<Rightarrow>
           if k < ck then Inr (i + 1, spliceSplit t c i it (ck - k)) else Inr (i, t)
       | _ \<Rightarrow> Inr (i, t))"

definition getItemCleanStart :: "'a transaction_scheme \<Rightarrow> ID \<Rightarrow> (ID \<times> 'a transaction_scheme) result" where
  "getItemCleanStart t i = (case findIndexCleanStart t (client i) (clock i) of
     Inl e \<Rightarrow> Inl e
   | Inr (n, t1) \<Rightarrow> Inr (ID (client i) (clocks t1 (client i) ! n), t1))"

definition getItemCleanEnd :: "'a transaction_scheme \<Rightarrow> ID \<Rightarrow> (ID \<times> 'a transaction_scheme) result" where
  "getItemCleanEnd t i = (case findIndexSS (ranges_of t (client i)) (clock i) of
     Inl e \<Rightarrow> Inl e
   | Inr n \<Rightarrow> let k = clocks t (client i) ! n; a = ID (client i) k in
       case heap t a of
         Some (Item it) \<Rightarrow>
           if clock i \<noteq> k + it_length it - 1
           then Inr (a, spliceSplit t (client i) n it (clock i - k + 1)) else Inr (a, t)
       | _ \<Rightarrow> Inr (a, t))"

text \<open>\<open>Item.delete\<close>: \<open>addToDeleteSet\<close> and the length of the parent included.\<close>

definition addToDeleteSet :: "(nat \<Rightarrow> (nat \<times> nat) list) \<Rightarrow> nat \<Rightarrow> nat \<Rightarrow> nat \<Rightarrow> nat \<Rightarrow> (nat \<times> nat) list" where
  "addToDeleteSet ds c ck len = ds(c := ds c @ [(ck, len)])"

definition deleteItem :: "'a transaction_scheme \<Rightarrow> ID \<Rightarrow> item \<Rightarrow> 'a transaction_scheme" where
  "deleteItem t a it =
     (if it_deleted it then t
      else t\<lparr>heap := (heap t)(a \<mapsto> Item (it\<lparr>it_deleted := True\<rparr>)),
             type_length := (type_length t)(it_parent it := type_length t (it_parent it) -
                (if isCountable (it_content it) then int (it_length it) else 0)),
             deleteSet := addToDeleteSet (deleteSet t) (client a) (clock a) (it_length it)\<rparr>)"

end
