(* ===== verification/YUnits.thy ===== *)
theory YUnits
  imports YStore
begin

text \<open>
  The abstraction of a document: the units of a root type, one per inserted code unit, with its ID
  and, while it is visible, its character. The invariant \<open>doc_ok\<close> ties the heap, the clients'
  arrays, the linked lists and the length counters together. Splitting and deleting items are
  described by what they do to the units.
\<close>

section \<open>Units\<close>

type_synonym unit_list = "(ID \<times> jschar option) list"

fun content_char :: "content \<Rightarrow> nat \<Rightarrow> jschar option" where
  "content_char (ContentString s) j = (if j < length s then Some (s ! j) else None)"
| "content_char (ContentDeleted n) j = None"

definition item_units :: "ID \<Rightarrow> item \<Rightarrow> unit_list" where
  "item_units a it = map (\<lambda>j. (ID (client a) (clock a + j),
     if it_deleted it then None else content_char (it_content it) j)) [0..<it_length it]"

definition struct_units :: "'a doc_scheme \<Rightarrow> ID \<Rightarrow> unit_list" where
  "struct_units d a = (case heap d a of Some (Item it) \<Rightarrow> item_units a it | _ \<Rightarrow> [])"

definition units :: "'a doc_scheme \<Rightarrow> jsstring \<Rightarrow> unit_list" where
  "units d n = concat (map (struct_units d) (start d n))"

definition visible :: "unit_list \<Rightarrow> jsstring" where
  "visible us = List.map_filter snd us"

text \<open>\<open>YText.toString\<close>.\<close>

definition item_string :: "item \<Rightarrow> jsstring" where
  "item_string it = (case it_content it of
     ContentString s \<Rightarrow> if \<not> it_deleted it then s else [] | ContentDeleted n \<Rightarrow> [])"

definition toString :: "'a doc_scheme \<Rightarrow> jsstring \<Rightarrow> jsstring" where
  "toString d n = concat (map (\<lambda>a. case heap d a of Some (Item it) \<Rightarrow> item_string it | _ \<Rightarrow> [])
     (start d n))"

section \<open>The invariant\<close>

definition item_ok :: "item \<Rightarrow> bool" where
  "item_ok it = (0 < it_length it \<and> getLength (it_content it) = it_length it \<and>
     (it_deleted it \<or> isCountable (it_content it)))"

fun struct_ok :: "struct \<Rightarrow> bool" where
  "struct_ok (GC n) = (0 < n)"
| "struct_ok (Item it) = item_ok it"

definition doc_ok :: "'a doc_scheme \<Rightarrow> bool" where
  "doc_ok d =
     ((\<forall>a s. heap d a = Some s \<longrightarrow> struct_ok s) \<and>
      (\<forall>a. heap d a \<noteq> None \<longleftrightarrow> clock a \<in> set (clocks d (client a))) \<and>
      (\<forall>c. contiguous (ranges_of d c) \<and> (clocks d c \<noteq> [] \<longrightarrow> hd (clocks d c) = 0)) \<and>
      (\<forall>n. distinct (start d n) \<and>
         (\<forall>a. a \<in> set (start d n) \<longleftrightarrow> (\<exists>it. heap d a = Some (Item it) \<and> it_parent it = n))) \<and>
      (\<forall>n. type_length d n = int (length (visible (units d n)))))"

lemma doc_okD:
  assumes "doc_ok d"
  shows "heap d a = Some s \<Longrightarrow> struct_ok s"
    "heap d a = Some s \<Longrightarrow> clock a \<in> set (clocks d (client a))"
    "k \<in> set (clocks d c) \<Longrightarrow> \<exists>s. heap d (ID c k) = Some s"
    "contiguous (ranges_of d c)"
    "clocks d c \<noteq> [] \<Longrightarrow> hd (clocks d c) = 0"
    "distinct (start d n)"
    "a \<in> set (start d n) \<Longrightarrow> \<exists>it. heap d a = Some (Item it) \<and> it_parent it = n"
    "heap d a = Some (Item it) \<Longrightarrow> a \<in> set (start d (it_parent it))"
    "type_length d n = int (length (visible (units d n)))"
  using assms unfolding doc_ok_def by (auto simp: ID.expand)

section \<open>Lists\<close>

lemma contiguous_append:
  "contiguous (xs @ ys) \<longleftrightarrow>
   contiguous xs \<and> contiguous ys \<and> (xs \<noteq> [] \<and> ys \<noteq> [] \<longrightarrow> ends xs = fst (hd ys))"
proof (induction xs rule: contiguous.induct)
  case (2 r)
  then show ?case by (cases ys) (auto simp: ends_def)
qed (auto simp: ends_def)

lemma contiguous_split:
  assumes "contiguous (xs @ (k, l) # ys)" "m \<le> l"
  shows "contiguous (xs @ (k, m) # (k + m, l - m) # ys)"
  using assms by (cases ys) (auto simp: contiguous_append ends_def split: if_splits)

lemma insert_at_map:
  assumes "distinct ks" "i < length ks" "\<And>x. x \<in> set ks \<Longrightarrow> x \<noteq> ks ! i \<Longrightarrow> g x = f x"
  shows "map g (insert_at (Suc i) y ks) = take i (map f ks) @ g (ks ! i) # g y # drop (Suc i) (map f ks)"
proof -
  have "g x = f x" if "x \<in> set (take i ks) \<or> x \<in> set (drop (Suc i) ks)" for x
  proof (rule assms(3))
    show "x \<in> set ks" using that by (auto dest: in_set_takeD in_set_dropD)
    show "x \<noteq> ks ! i"
      using that assms(1) id_take_nth_drop [OF assms(2)] by (metis disjoint_insert(1) distinct_append
          list.simps(15) not_distinct_conv_prefix distinct.simps(2))
  qed
  then have t: "map g (take i ks) = map f (take i ks)" "map g (drop (Suc i) ks) = map f (drop (Suc i) ks)"
    by simp_all
  show ?thesis using assms(2) t
    by (simp add: insert_at_def take_Suc_conv_app_nth take_map drop_map)
qed

lemma set_insert_at: "set (insert_at i x xs) = insert x (set xs)"
  unfolding insert_at_def by (metis append_take_drop_id insert_commute list.simps(15) set_append Un_insert_right)

lemma insert_at_ne: "insert_at i x xs \<noteq> []"
  by (simp add: insert_at_def)

lemma hd_insert_at: "xs \<noteq> [] \<Longrightarrow> hd (insert_at (Suc i) x xs) = hd xs"
  by (cases xs) (auto simp: insert_at_def)

lemma set_insert_after: "a \<in> set xs \<Longrightarrow> set (insert_after a b xs) = insert b (set xs)"
  by (induction xs) auto

lemma insert_after_notin [simp]: "a \<notin> set xs \<Longrightarrow> insert_after a b xs = xs"
  by (induction xs) auto

lemma distinct_insert_after: "distinct xs \<Longrightarrow> b \<notin> set xs \<Longrightarrow> distinct (insert_after a b xs)"
proof (induction xs)
  case (Cons x xs)
  then show ?case by (cases "a \<in> set xs") (auto simp: set_insert_after)
qed simp

lemma insert_after_append:
  "a \<notin> set xs \<Longrightarrow> insert_after a b (xs @ a # ys) = xs @ a # b # ys"
  by (induction xs) auto

section \<open>What the invariant gives\<close>

lemma doc_ok_positive: "doc_ok d \<Longrightarrow> positive (ranges_of d c)"
  unfolding positive_def list_all_iff
proof
  fix r assume d: "doc_ok d" and "r \<in> set (ranges_of d c)"
  then obtain k where k: "k \<in> set (clocks d c)" "r = (k, length_at d (ID c k))"
    by (auto simp: ranges_of_def)
  then obtain s where "heap d (ID c k) = Some s" using doc_okD(3) [OF d] by blast
  then show "0 < snd r" using k doc_okD(1) [OF d, of "ID c k" s] by (cases s) (auto simp: length_at_def item_ok_def)
qed

lemma ranges_simps [simp]:
  "length (ranges_of d c) = length (clocks d c)"
  "i < length (clocks d c) \<Longrightarrow>
     ranges_of d c ! i = (clocks d c ! i, length_at d (ID c (clocks d c ! i)))"
  "ranges_of d c = [] \<longleftrightarrow> clocks d c = []"
  by (auto simp: ranges_of_def)

lemma clocks_distinct:
  assumes "doc_ok d"
  shows "distinct (clocks d c)"
  unfolding distinct_conv_nth
proof (intro allI impI)
  fix i j
  assume ij: "i < length (clocks d c)" "j < length (clocks d c)" "i \<noteq> j"
  have "clocks d c ! i \<noteq> clocks d c ! j" if "i < j" "j < length (clocks d c)" for i j
    using contiguous_mono [OF doc_okD(4) [OF assms], of i j c] doc_ok_positive [OF assms, of c] that
    by (auto simp: positive_def list_all_length)
  from this [of i j] this [of j i] ij show "clocks d c ! i \<noteq> clocks d c ! j"
    by (cases "i < j") auto
qed

lemma getState_ends: "clocks d c \<noteq> [] \<Longrightarrow> getState d c = ends (ranges_of d c)"
  by (simp add: getState_def ends_def last_conv_nth)

lemma getState_ranges:
  "getState d c = (case ranges_of d c of [] \<Rightarrow> 0 | r # rs \<Rightarrow> ends (ranges_of d c))"
proof (cases "clocks d c = []")
  case True
  then show ?thesis by (simp add: getState_def ranges_of_def)
next
  case False
  then show ?thesis using getState_ends [of d c] by (cases "ranges_of d c") auto
qed

text \<open>The search succeeds on a valid store exactly below the client's state.\<close>

lemma findIndexSS_store:
  assumes "doc_ok d" "ck < getState d c"
  shows "\<exists>i. findIndexSS (ranges_of d c) ck = Inr i \<and> holds (ranges_of d c) ck i"
proof -
  have ne: "clocks d c \<noteq> []" using assms(2) by (auto simp: getState_def)
  then have "fst (hd (ranges_of d c)) = 0"
    using doc_okD(5) [OF assms(1)] by (simp add: hd_conv_nth)
  with ne assms holds_exists [OF doc_okD(4) [OF assms(1)]] obtain i where "holds (ranges_of d c) ck i"
    by (metis getState_ends le0 ranges_simps(3))
  then show ?thesis
    using findIndexSS_complete doc_okD(4) [OF assms(1)] doc_ok_positive [OF assms(1)] by blast
qed

section \<open>Splitting\<close>

definition splittable :: "'a doc_scheme \<Rightarrow> nat \<Rightarrow> nat \<Rightarrow> item \<Rightarrow> nat \<Rightarrow> bool" where
  "splittable d c i it diff = (doc_ok d \<and> i < length (clocks d c) \<and>
     heap d (ID c (clocks d c ! i)) = Some (Item it) \<and> 0 < diff \<and> diff < it_length it)"

lemma splittable_fresh:
  assumes "splittable d c i it diff"
  shows "heap d (ID c (clocks d c ! i + diff)) = None"
proof (rule ccontr)
  assume "heap d (ID c (clocks d c ! i + diff)) \<noteq> None"
  have d: "doc_ok d" using assms by (simp add: splittable_def)
  from \<open>heap d _ \<noteq> None\<close> doc_okD(2) [OF d] obtain j where j: "j < length (clocks d c)"
    "clocks d c ! j = clocks d c ! i + diff" by (metis ID.sel in_set_conv_nth not_Some_eq)
  have "holds (ranges_of d c) (clocks d c ! i + diff) j"
    using j doc_ok_positive [OF d, of c] by (auto simp: holds_def positive_def list_all_length)
  moreover have "holds (ranges_of d c) (clocks d c ! i + diff) i"
    using assms by (auto simp: holds_def splittable_def length_at_def)
  ultimately have "i = j" using holds_unique doc_okD(4) [OF d] by blast
  with j assms show False by (simp add: splittable_def)
qed

lemma content_splice_countable [simp]:
  "isCountable (fst (content_splice ct n)) = isCountable ct"
  "isCountable (snd (content_splice ct n)) = isCountable ct"
  by (cases ct; simp add: Let_def)+

lemma content_splice_length:
  "n < getLength ct \<Longrightarrow> getLength (fst (content_splice ct n)) = n \<and>
     getLength (snd (content_splice ct n)) = getLength ct - n"
  by (cases ct) (auto simp: Let_def min_def)

text \<open>The heap, arrays and lists after a split, with \<open>a\<close> the left and \<open>b\<close> the right part.\<close>

lemma spliceSplit_fields:
  assumes "splittable t c i it diff"
  defines "k \<equiv> clocks t c ! i"
  defines "t' \<equiv> spliceSplit t c i it diff"
  shows "\<exists>l r. heap t' = (heap t)(ID c k \<mapsto> Item l, ID c (k + diff) \<mapsto> Item r) \<and>
      it_length l = diff \<and> it_length r = it_length it - diff \<and> item_ok l \<and> item_ok r \<and>
      it_parent l = it_parent it \<and> it_parent r = it_parent it \<and>
      it_deleted l = it_deleted it \<and> it_deleted r = it_deleted it \<and>
      (it_content l, it_content r) = content_splice (it_content it) diff"
    "clocks t' = (clocks t)(c := insert_at (Suc i) (k + diff) (clocks t c))"
    "start t' = (start t)(it_parent it :=
       insert_after (ID c k) (ID c (k + diff)) (start t (it_parent it)))"
    "type_length t' = type_length t" "clientID t' = clientID t"
proof -
  have "item_ok it" using assms(1) doc_okD(1) [of t "ID c k"] by (auto simp: splittable_def k_def)
  then have "getLength (it_content it) = it_length it" "it_deleted it \<or> isCountable (it_content it)"
    by (simp_all add: item_ok_def)
  with content_splice_length [of diff "it_content it"] assms(1)
    content_splice_countable [of "it_content it" diff]
  show "\<exists>l r. heap t' = (heap t)(ID c k \<mapsto> Item l, ID c (k + diff) \<mapsto> Item r) \<and>
      it_length l = diff \<and> it_length r = it_length it - diff \<and> item_ok l \<and> item_ok r \<and>
      it_parent l = it_parent it \<and> it_parent r = it_parent it \<and>
      it_deleted l = it_deleted it \<and> it_deleted r = it_deleted it \<and>
      (it_content l, it_content r) = content_splice (it_content it) diff"
    unfolding t'_def spliceSplit_def splitItem_def k_def splittable_def createID_def item_ok_def
    by (cases "content_splice (it_content it) diff") (auto simp: Let_def intro!: exI)
qed (simp_all add: t'_def k_def spliceSplit_def splitItem_def createID_def split_beta Let_def)

text \<open>Units that agree in ID and visibility, and characters that may have been replaced.\<close>

definition same_shape :: "unit_list \<Rightarrow> unit_list \<Rightarrow> bool" where
  "same_shape us vs = list_all2 (\<lambda>u v. fst u = fst v \<and> (snd u = None \<longleftrightarrow> snd v = None)) us vs"

lemma same_shape_refl [simp]: "same_shape us us"
  by (simp add: same_shape_def list_all2_same)

lemma same_shape_append:
  "same_shape us us' \<Longrightarrow> same_shape vs vs' \<Longrightarrow> same_shape (us @ vs) (us' @ vs')"
  by (simp add: same_shape_def list_all2_appendI)

lemma map_filter_simps2 [simp]:
  "visible [] = []" "visible (us @ vs) = visible us @ visible vs"
  "visible ((i, Some c) # us) = c # visible us" "visible ((i, None) # us) = visible us"
  by (simp_all add: visible_def List.map_filter_def)

lemma same_shape_visible: "same_shape us vs \<Longrightarrow> length (visible us) = length (visible vs)"
  unfolding same_shape_def
  by (induction rule: list_all2_induct) (auto simp: visible_def List.map_filter_def)

text \<open>No surrogate pair is cut when the character before the split is not a high surrogate, or when
  nothing of the item is visible.\<close>

definition clean_split :: "item \<Rightarrow> nat \<Rightarrow> bool" where
  "clean_split it diff = (it_deleted it \<or> (case it_content it of
     ContentString s \<Rightarrow> \<not> isHighSurrogate (s ! (diff - 1)) | ContentDeleted n \<Rightarrow> True))"

lemma content_splice_chars:
  assumes "content_splice ct diff = (lc, rc)" "0 < diff" "diff < getLength ct"
  shows "j < diff \<Longrightarrow> content_char lc j = None \<longleftrightarrow> content_char ct j = None"
    "j < getLength ct - diff \<Longrightarrow> content_char rc j = None \<longleftrightarrow> content_char ct (diff + j) = None"
    "(case ct of ContentString s \<Rightarrow> \<not> isHighSurrogate (s ! (diff - 1)) | _ \<Rightarrow> True) \<Longrightarrow>
       j < diff \<Longrightarrow> content_char lc j = content_char ct j"
    "(case ct of ContentString s \<Rightarrow> \<not> isHighSurrogate (s ! (diff - 1)) | _ \<Rightarrow> True) \<Longrightarrow>
       j < getLength ct - diff \<Longrightarrow> content_char rc j = content_char ct (diff + j)"
  using assms by (cases ct; auto simp: Let_def split: if_splits)+

lemma upt_split: "diff \<le> n \<Longrightarrow> [0..<n] = [0..<diff] @ map ((+) diff) [0..<n - diff]"
  by (rule nth_equalityI) (auto simp: nth_append)

lemma split_units:
  assumes "item_ok it" "0 < diff" "diff < it_length it"
    "(it_content l, it_content r) = content_splice (it_content it) diff"
    "it_length l = diff" "it_length r = it_length it - diff"
    "it_deleted l = it_deleted it" "it_deleted r = it_deleted it"
    "us = item_units (ID c k) l @ item_units (ID c (k + diff)) r"
  shows "same_shape us (item_units (ID c k) it)"
    "clean_split it diff \<Longrightarrow> us = item_units (ID c k) it"
proof -
  have len: "getLength (it_content it) = it_length it" using assms(1) by (simp add: item_ok_def)
  note ch = content_splice_chars [OF assms(4) [symmetric] assms(2), unfolded len, OF assms(3)]
  have u: "[0..<it_length it] = [0..<diff] @ map ((+) diff) [0..<it_length it - diff]"
    using assms(3) by (intro upt_split) simp
  show "same_shape us (item_units (ID c k) it)"
    unfolding assms(9) item_units_def u same_shape_def map_append
    using ch(1,2) by (intro list_all2_appendI) (auto simp: list_all2_conv_all_nth assms)
  show "us = item_units (ID c k) it" if "clean_split it diff"
    unfolding assms(9) item_units_def u map_append
    using ch(3,4) that by (auto simp: assms clean_split_def)
qed

lemma struct_units_cong: "heap d a = heap d' a \<Longrightarrow> struct_units d a = struct_units d' a"
  by (simp add: struct_units_def)

lemma list_not_in:
  "doc_ok d \<Longrightarrow> heap d a = None \<Longrightarrow> a \<notin> set (start d n)"
  "doc_ok d \<Longrightarrow> heap d a = Some (Item it) \<Longrightarrow> it_parent it \<noteq> n \<Longrightarrow> a \<notin> set (start d n)"
  using doc_okD(7) [of d a n] by auto

lemma spliceSplit_units:
  assumes sp: "splittable t c i it diff"
  defines "t' \<equiv> spliceSplit t c i it diff"
  shows "same_shape (units t' n) (units t n)" "clean_split it diff \<Longrightarrow> units t' n = units t n"
proof -
  define k where "k = clocks t c ! i"
  define a b where "a = ID c k" and "b = ID c (k + diff)"
  obtain l r where lr: "heap t' = (heap t)(a \<mapsto> Item l, b \<mapsto> Item r)"
    "it_length l = diff" "it_length r = it_length it - diff" "it_parent l = it_parent it"
    "it_deleted l = it_deleted it" "it_deleted r = it_deleted it"
    "(it_content l, it_content r) = content_splice (it_content it) diff"
    using spliceSplit_fields(1) [OF sp] unfolding t'_def k_def a_def b_def by blast
  have d: "doc_ok t" "heap t a = Some (Item it)" "0 < diff" "diff < it_length it"
    using sp by (auto simp: splittable_def a_def k_def)
  have b: "heap t b = None" using splittable_fresh [OF sp] by (simp add: b_def k_def)
  have ab: "a \<noteq> b" using d(3) by (simp add: a_def b_def)
  have same: "struct_units t' x = struct_units t x" if "x \<noteq> a" "x \<noteq> b" for x
    by (rule struct_units_cong) (simp add: lr that)
  have split: "struct_units t' a = item_units a l" "struct_units t' b = item_units b r"
    using ab by (simp_all add: struct_units_def lr)
  have ok: "item_ok it" using doc_okD(1) [OF d(1,2)] by simp
  note su = split_units [OF ok d(3,4) lr(7,2,3,5,6) refl, of c k, folded a_def b_def]
  have sta: "start t' n = (if n = it_parent it then insert_after a b (start t n) else start t n)"
    using spliceSplit_fields(3) [OF sp] by (simp add: t'_def a_def b_def k_def)
  have bn: "b \<notin> set (start t n)" by (rule list_not_in(1) [OF d(1) b])
  have main: "same_shape (units t' n) (units t n) \<and> (clean_split it diff \<longrightarrow> units t' n = units t n)"
  proof (cases "n = it_parent it")
    case False
    then have eq: "map (struct_units t') (start t n) = map (struct_units t) (start t n)"
      using bn list_not_in(2) [OF d(1,2)] by (intro map_cong) (auto intro!: same)
    have "units t' n = units t n" using sta False unfolding units_def eq [symmetric] by simp
    then show ?thesis by simp
  next
    case True
    then obtain xs ys where xy: "start t n = xs @ a # ys"
      using doc_okD(8) [OF d(1,2)] by (metis split_list)
    then have nin: "a \<notin> set xs" "a \<notin> set ys" "b \<notin> set xs" "b \<notin> set ys"
      using doc_okD(6) [OF d(1), of n] bn by auto
    have cc: "concat (map (struct_units t') zs) = concat (map (struct_units t) zs)"
      if "a \<notin> set zs" "b \<notin> set zs" for zs
      using that by (intro arg_cong [where f = concat] map_cong) (auto intro!: same)
    have "start t' n = xs @ a # b # ys"
      using sta True xy insert_after_append [OF nin(1)] by simp
    then have "units t' n = concat (map (struct_units t) xs) @ (item_units a l @ item_units b r) @
        concat (map (struct_units t) ys)"
      using split by (simp add: units_def cc [OF nin(1,3)] cc [OF nin(2,4)])
    moreover have "units t n = concat (map (struct_units t) xs) @ item_units a it @
        concat (map (struct_units t) ys)"
      by (simp add: units_def xy struct_units_def d)
    ultimately show ?thesis
      using su same_shape_append [OF same_shape_refl same_shape_append [OF su(1) same_shape_refl]]
      by (simp del: append_assoc)
  qed
  then show "same_shape (units t' n) (units t n)" "clean_split it diff \<Longrightarrow> units t' n = units t n"
    by auto
qed

lemma spliceSplit_ranges_eq:
  assumes sp: "splittable t c i it diff"
  defines "t' \<equiv> spliceSplit t c i it diff"
  shows "c' \<noteq> c \<Longrightarrow> ranges_of t' c' = ranges_of t c'"
    "ranges_of t' c = take i (ranges_of t c) @ (clocks t c ! i, diff) #
       (clocks t c ! i + diff, it_length it - diff) # drop (Suc i) (ranges_of t c)"
    "ranges_of t c = take i (ranges_of t c) @ (clocks t c ! i, it_length it) # drop (Suc i) (ranges_of t c)"
proof -
  define k where "k = clocks t c ! i"
  obtain l r where lr: "heap t' = (heap t)(ID c k \<mapsto> Item l, ID c (k + diff) \<mapsto> Item r)"
    "it_length l = diff" "it_length r = it_length it - diff"
    using spliceSplit_fields(1) [OF sp] unfolding t'_def k_def by blast
  have d: "doc_ok t" "heap t (ID c k) = Some (Item it)" "0 < diff" "diff < it_length it" "i < length (clocks t c)"
    using sp by (auto simp: splittable_def k_def)
  have fresh: "heap t (ID c (k + diff)) = None" using splittable_fresh [OF sp] by (simp add: k_def)
  have ck: "clocks t' x = (if x = c then insert_at (Suc i) (k + diff) (clocks t c) else clocks t x)" for x
    using spliceSplit_fields(2) [OF sp] by (simp add: t'_def k_def)
  show "ranges_of t' c' = ranges_of t c'" if "c' \<noteq> c"
    using that by (simp add: ranges_of_def ck length_at_def lr)
  define f g where "f = (\<lambda>k. (k, length_at t (ID c k)))" and "g = (\<lambda>k. (k, length_at t' (ID c k)))"
  have notin: "k + diff \<notin> set (clocks t c)"
    using fresh doc_okD(3) [OF d(1), of "k + diff" c] by auto
  have "ranges_of t' c = map g (insert_at (Suc i) (k + diff) (clocks t c))"
    by (simp add: ranges_of_def ck g_def)
  also have "\<dots> = take i (map f (clocks t c)) @ g k # g (k + diff) # drop (Suc i) (map f (clocks t c))"
    unfolding k_def
  proof (rule insert_at_map [OF clocks_distinct [OF d(1)] d(5)])
    fix x assume "x \<in> set (clocks t c)" "x \<noteq> clocks t c ! i"
    with notin show "g x = f x" by (auto simp: f_def g_def length_at_def lr k_def)
  qed
  also have "\<dots> = take i (ranges_of t c) @ (k, diff) # (k + diff, it_length it - diff) # drop (Suc i) (ranges_of t c)"
    using d(3) by (simp add: f_def g_def ranges_of_def length_at_def lr)
  finally show "ranges_of t' c = take i (ranges_of t c) @ (clocks t c ! i, diff) #
       (clocks t c ! i + diff, it_length it - diff) # drop (Suc i) (ranges_of t c)"
    by (simp add: k_def)
  show "ranges_of t c = take i (ranges_of t c) @ (clocks t c ! i, it_length it) # drop (Suc i) (ranges_of t c)"
    using id_take_nth_drop [of i "ranges_of t c"] d by (simp add: k_def length_at_def)
qed

lemma spliceSplit_ranges:
  assumes sp: "splittable t c i it diff"
  shows "contiguous (ranges_of (spliceSplit t c i it diff) c')"
    "getState (spliceSplit t c i it diff) c' = getState t c'"
proof -
  have d: "doc_ok t" "diff < it_length it" using sp by (auto simp: splittable_def)
  note eq = spliceSplit_ranges_eq [OF sp]
  have c: "contiguous (take i (ranges_of t c) @ (clocks t c ! i, it_length it) # drop (Suc i) (ranges_of t c))"
    using doc_okD(4) [OF d(1), of c] eq(3) by simp
  show "contiguous (ranges_of (spliceSplit t c i it diff) c')"
    using contiguous_split [OF c, of diff] doc_okD(4) [OF d(1)] eq d(2) by (cases "c' = c") simp_all
  have "ends (ranges_of (spliceSplit t c i it diff) c) = ends (ranges_of t c)"
    unfolding eq(2) by (subst (3) eq(3)) (use d(2) in \<open>auto simp: ends_def\<close>)
  moreover have "clocks t c \<noteq> []" "clocks (spliceSplit t c i it diff) c \<noteq> []"
    using sp spliceSplit_fields(2) [OF sp] by (auto simp: splittable_def insert_at_ne)
  moreover have "getState (spliceSplit t c i it diff) c' = getState t c'" if "c' \<noteq> c"
    unfolding getState_ranges eq(1) [OF that] ..
  ultimately show "getState (spliceSplit t c i it diff) c' = getState t c'"
    by (cases "c' = c") (auto simp: getState_ends)
qed

lemma spliceSplit_ok:
  assumes sp: "splittable t c i it diff"
  defines "t' \<equiv> spliceSplit t c i it diff"
  shows "doc_ok t'"
proof -
  define k where "k = clocks t c ! i"
  define a b where "a = ID c k" and "b = ID c (k + diff)"
  obtain l r where lr: "heap t' = (heap t)(a \<mapsto> Item l, b \<mapsto> Item r)"
    "item_ok l" "item_ok r" "it_parent l = it_parent it" "it_parent r = it_parent it"
    using spliceSplit_fields(1) [OF sp] unfolding t'_def k_def a_def b_def by blast
  have d: "doc_ok t" "heap t a = Some (Item it)" "0 < diff"
    using sp by (auto simp: splittable_def a_def k_def)
  have b: "heap t b = None" using splittable_fresh [OF sp] by (simp add: b_def k_def)
  have ck: "clocks t' x = (if x = c then insert_at (Suc i) (k + diff) (clocks t c) else clocks t x)" for x
    using spliceSplit_fields(2) [OF sp] by (simp add: t'_def k_def)
  have st: "start t' n = (if n = it_parent it then insert_after a b (start t n) else start t n)" for n
    using spliceSplit_fields(3) [OF sp] by (simp add: t'_def a_def b_def k_def)
  have cka: "clocks t c \<noteq> []" using doc_okD(2) [OF d(1,2)] by (auto simp: a_def)
  have bn: "b \<notin> set (start t n)" for n by (rule list_not_in(1) [OF d(1) b])
  have an: "a \<in> set (start t (it_parent it))" by (rule doc_okD(8) [OF d(1,2)])
  show ?thesis
    unfolding doc_ok_def
  proof (intro conjI allI impI)
    show "struct_ok s" if "heap t' x = Some s" for x s
      using that doc_okD(1) [OF d(1), of x s] lr by (auto split: if_splits)
    show "(heap t' x \<noteq> None) = (clock x \<in> set (clocks t' (client x)))" for x
      using d(1) doc_okD(2) [OF d(1,2)] unfolding doc_ok_def
      by (auto simp: lr ck set_insert_at a_def b_def ID.expand)
    show "contiguous (ranges_of t' c')" for c'
      unfolding t'_def by (rule spliceSplit_ranges(1) [OF sp])
    show "hd (clocks t' c') = 0" if "clocks t' c' \<noteq> []" for c'
      using that doc_okD(5) [OF d(1)] cka by (auto simp: ck hd_insert_at)
    show "distinct (start t' n)" for n
      using doc_okD(6) [OF d(1)] bn by (simp add: st distinct_insert_after)
    show "(x \<in> set (start t' n)) = (\<exists>it. heap t' x = Some (Item it) \<and> it_parent it = n)" for n x
      using d(1) an d(2) b bn [of n] unfolding doc_ok_def st lr
      by (auto simp: set_insert_after lr)
    show "type_length t' n = int (length (visible (units t' n)))" for n
      using spliceSplit_fields(4) [OF sp] doc_okD(9) [OF d(1), of n]
        same_shape_visible [OF spliceSplit_units(1) [OF sp, of n]]
      by (simp add: t'_def)
  qed
qed

end
