(* ===== verification/YText.thy ===== *)
theory YText
  imports YUnits
begin

text \<open>
  Edits of a text (\<open>yjs/src/types/YText.js\<close>, \<open>structs/Item.js\<close>): walking to an index, inserting
  an item with the conflict resolution of \<open>integrate\<close>, deleting a range. The loops of the code
  follow \<open>right\<close> pointers; here they recurse over the rest of the linked list, which a loop
  changes only by its last step, a split. A text of this editor carries no formatting attributes,
  so the code's attribute bookkeeping has nothing to do: \<open>minimizeAttributeChanges\<close> walks over
  deleted items, \<open>insertAttributes\<close>, \<open>insertNegatedAttributes\<close> and \<open>cleanupFormattingGap\<close> change
  nothing. The search markers are a cache of positions, here an optional argument.

  An edit is described by what it does to the units: it inserts new ones at the place, or hides
  a range of the visible ones.
\<close>

section \<open>Neighbours\<close>

fun next_in :: "'a \<Rightarrow> 'a list \<Rightarrow> 'a option" where
  "next_in a [] = None"
| "next_in a (x # xs) = (if x = a then (case xs of [] \<Rightarrow> None | y # ys \<Rightarrow> Some y) else next_in a xs)"

text \<open>The list from \<open>a\<close> on.\<close>

definition from_on :: "'a \<Rightarrow> 'a list \<Rightarrow> 'a list" where
  "from_on a xs = dropWhile (\<lambda>x. x \<noteq> a) xs"

definition prev_in :: "'a \<Rightarrow> 'a list \<Rightarrow> 'a option" where
  "prev_in a xs = next_in a (rev xs)"

definition lastId :: "ID \<Rightarrow> item \<Rightarrow> ID" where
  "lastId a it = (if it_length it = 1 then a else createID (client a) (clock a + it_length it - 1))"

definition lastId_at :: "'a doc_scheme \<Rightarrow> ID \<Rightarrow> ID option" where
  "lastId_at d a = (case heap d a of Some (Item it) \<Rightarrow> Some (lastId a it) | _ \<Rightarrow> None)"

section \<open>Walking to an index\<close>

record position =
  p_left :: "ID option"
  p_right :: "ID option"
  p_index :: int

text \<open>\<open>findNextPosition\<close>: \<open>as\<close> is the list from \<open>pos.right\<close> on.\<close>

fun findNextPosition :: "jsstring \<Rightarrow> ID option \<Rightarrow> ID list \<Rightarrow> int \<Rightarrow> int \<Rightarrow> 'a transaction_scheme \<Rightarrow>
    (position \<times> 'a transaction_scheme) result" where
  "findNextPosition n left [] index count t =
     Inr (\<lparr>p_left = left, p_right = None, p_index = index\<rparr>, t)"
| "findNextPosition n left (a # as) index count t =
     (if count \<le> 0 then Inr (\<lparr>p_left = left, p_right = Some a, p_index = index\<rparr>, t)
      else case heap t a of
        Some (Item it) \<Rightarrow>
          if it_deleted it then findNextPosition n (Some a) as index count t
          else if count < int (it_length it) then
            (case getItemCleanStart t (createID (client a) (clock a + nat count)) of
               Inl e \<Rightarrow> Inl e
             | Inr (b, t1) \<Rightarrow>
                 Inr (\<lparr>p_left = Some a, p_right = next_in a (start t1 n), p_index = index + count\<rparr>, t1))
          else findNextPosition n (Some a) as (index + int (it_length it)) (count - int (it_length it)) t
      | _ \<Rightarrow> Inl TypeErr)"

text \<open>\<open>findPosition\<close>, with what \<open>findMarker\<close> returned: an item and the index it starts at.\<close>

definition findPosition :: "(ID \<times> int) option \<Rightarrow> jsstring \<Rightarrow> int \<Rightarrow> 'a transaction_scheme \<Rightarrow>
    (position \<times> 'a transaction_scheme) result" where
  "findPosition marker n index t = (case marker of
     Some (p, mi) \<Rightarrow>
       findNextPosition n (prev_in p (start t n)) (from_on p (start t n)) mi (index - mi) t
   | None \<Rightarrow> findNextPosition n None (start t n) 0 index t)"

section \<open>Integrating an item\<close>

text \<open>The loop that finds where a concurrent item belongs: \<open>os\<close> is the list from the first
  conflicting item on; the two sets are lists.\<close>

fun conflict_loop :: "'a doc_scheme \<Rightarrow> ID \<Rightarrow> item \<Rightarrow> ID option \<Rightarrow> ID list \<Rightarrow> ID option \<Rightarrow>
    ID list \<Rightarrow> ID list \<Rightarrow> ID option result" where
  "conflict_loop d this it right [] left conflicting before = Inr left"
| "conflict_loop d this it right (ob # os) left conflicting before =
     (if Some ob = right then Inr left
      else case heap d ob of
        Some (Item oi) \<Rightarrow>
          let before1 = ob # before; conflicting1 = ob # conflicting in
          if compareIDs (it_origin it) (it_origin oi) then
            (if client ob < client this then conflict_loop d this it right os (Some ob) [] before1
             else if compareIDs (it_rightOrigin it) (it_rightOrigin oi) then Inr left
             else conflict_loop d this it right os left conflicting1 before1)
          else (case it_origin oi of
            None \<Rightarrow> Inr left
          | Some oo \<Rightarrow> (case getItem d oo of
              Inl e \<Rightarrow> Inl e
            | Inr g \<Rightarrow>
                if g \<in> set before1 then
                  (if g \<notin> set conflicting1 then conflict_loop d this it right os (Some ob) [] before1
                   else conflict_loop d this it right os left conflicting1 before1)
                else Inr left))
      | _ \<Rightarrow> Inl TypeErr)"

definition has_conflict :: "ID list \<Rightarrow> ID option \<Rightarrow> ID option \<Rightarrow> bool" where
  "has_conflict xs left right = (case left of
     None \<Rightarrow> (case right of None \<Rightarrow> True | Some r \<Rightarrow> prev_in r xs \<noteq> None)
   | Some l \<Rightarrow> next_in l xs \<noteq> right)"

text \<open>The left neighbour \<open>integrate\<close> settles on.\<close>

definition resolve_left :: "'a doc_scheme \<Rightarrow> ID \<Rightarrow> item \<Rightarrow> ID option \<Rightarrow> ID option \<Rightarrow> ID option result" where
  "resolve_left d this it left right =
     (let xs = start d (it_parent it) in
      if has_conflict xs left right
      then conflict_loop d this it right
             (case left of None \<Rightarrow> xs | Some l \<Rightarrow> tl (from_on l xs)) left [] []
      else Inr left)"

text \<open>Linking the item in, the length of the parent, \<open>addStruct\<close> and \<open>content.integrate\<close>.\<close>

definition integrate :: "ID \<Rightarrow> item \<Rightarrow> ID option \<Rightarrow> ID option \<Rightarrow> 'a transaction_scheme \<Rightarrow>
    'a transaction_scheme result" where
  "integrate this it left right t = (case resolve_left t this it left right of
     Inl e \<Rightarrow> Inl e
   | Inr left1 \<Rightarrow>
       let n = it_parent it; xs = start t n;
           t1 = t\<lparr>start := (start t)(n := (case left1 of None \<Rightarrow> this # xs
                                          | Some l \<Rightarrow> insert_after l this xs)),
                  type_length := (type_length t)(n := type_length t n +
                     (if isCountable (it_content it) \<and> \<not> it_deleted it then int (it_length it) else 0))\<rparr>
       in (case addStruct t1 this (Item it) of
             Inl e \<Rightarrow> Inl e
           | Inr t2 \<Rightarrow> (case it_content it of
               ContentString s \<Rightarrow> Inr t2
             | ContentDeleted m \<Rightarrow>
                 Inr (t2\<lparr>deleteSet := addToDeleteSet (deleteSet t2) (client this) (clock this) m,
                         heap := (heap t2)(this \<mapsto> Item (it\<lparr>it_deleted := True\<rparr>))\<rparr>))))"

section \<open>Inserting\<close>

text \<open>\<open>minimizeAttributeChanges\<close> without attributes: on over deleted items. The result is the new
  left neighbour and the rest of the list.\<close>

fun skip_deleted :: "'a doc_scheme \<Rightarrow> ID option \<Rightarrow> ID list \<Rightarrow> ID option \<times> ID list" where
  "skip_deleted d left [] = (left, [])"
| "skip_deleted d left (a # as) = (case heap d a of
     Some (Item it) \<Rightarrow> if it_deleted it then skip_deleted d (Some a) as else (left, a # as)
   | _ \<Rightarrow> (left, a # as))"

definition insertText :: "jsstring \<Rightarrow> position \<Rightarrow> jsstring \<Rightarrow> 'a transaction_scheme \<Rightarrow>
    'a transaction_scheme result" where
  "insertText n cur text t =
     (let (left, rest) = skip_deleted t (p_left cur)
            (case p_right cur of None \<Rightarrow> [] | Some r \<Rightarrow> from_on r (start t n));
          right = (case rest of [] \<Rightarrow> None | r # rs \<Rightarrow> Some r);
          this = createID (clientID t) (getState t (clientID t));
          content = ContentString text;
          it = \<lparr>it_origin = (case left of None \<Rightarrow> None | Some l \<Rightarrow> lastId_at t l),
                it_rightOrigin = right, it_parent = n, it_redone = None,
                it_content = content, it_length = getLength content,
                it_deleted = False, it_keep = False\<rparr>
      in integrate this it left right t)"

text \<open>\<open>YText.insert\<close> inside a transaction.\<close>

definition ytext_insert :: "(ID \<times> int) option \<Rightarrow> jsstring \<Rightarrow> int \<Rightarrow> jsstring \<Rightarrow>
    'a transaction_scheme \<Rightarrow> 'a transaction_scheme result" where
  "ytext_insert marker n index text t =
     (if text = [] then Inr t
      else case findPosition marker n index t of
        Inl e \<Rightarrow> Inl e | Inr (cur, t1) \<Rightarrow> insertText n cur text t1)"

section \<open>Deleting\<close>

text \<open>The loop of \<open>deleteText\<close>; it ends with the left neighbour and whether anything is left of the
  list.\<close>

fun delete_loop :: "ID option \<Rightarrow> ID list \<Rightarrow> int \<Rightarrow> 'a transaction_scheme \<Rightarrow>
    (ID option \<times> bool \<times> 'a transaction_scheme) result" where
  "delete_loop left [] len t = Inr (left, False, t)"
| "delete_loop left (a # as) len t =
     (if len \<le> 0 then Inr (left, True, t)
      else case heap t a of
        Some (Item it) \<Rightarrow>
          if it_deleted it then delete_loop (Some a) as len t
          else (case it_content it of
            ContentDeleted m \<Rightarrow> delete_loop (Some a) as len t
          | ContentString s \<Rightarrow>
              if len < int (it_length it) then
                (case getItemCleanStart t (createID (client a) (clock a + nat len)) of
                   Inl e \<Rightarrow> Inl e
                 | Inr (b, t1) \<Rightarrow> (case heap t1 a of
                     Some (Item it1) \<Rightarrow> Inr (Some a, True, deleteItem t1 a it1)
                   | _ \<Rightarrow> Inl TypeErr))
              else delete_loop (Some a) as (len - int (it_length it)) (deleteItem t a it))
      | _ \<Rightarrow> Inl TypeErr)"

definition deleteText :: "jsstring \<Rightarrow> position \<Rightarrow> int \<Rightarrow> 'a transaction_scheme \<Rightarrow>
    'a transaction_scheme result" where
  "deleteText n cur len t =
     (case delete_loop (p_left cur)
             (case p_right cur of None \<Rightarrow> [] | Some r \<Rightarrow> from_on r (start t n)) len t of
        Inl e \<Rightarrow> Inl e
      | Inr (left, rest, t1) \<Rightarrow> if left = None \<and> \<not> rest then Inl TypeErr else Inr t1)"

definition ytext_delete :: "(ID \<times> int) option \<Rightarrow> jsstring \<Rightarrow> int \<Rightarrow> int \<Rightarrow>
    'a transaction_scheme \<Rightarrow> 'a transaction_scheme result" where
  "ytext_delete marker n index len t =
     (if len = 0 then Inr t
      else case findPosition marker n index t of
        Inl e \<Rightarrow> Inl e | Inr (cur, t1) \<Rightarrow> deleteText n cur len t1)"

end
