(* ===== verification/YTextSpec.thy ===== *)
theory YTextSpec
  imports YText
begin

text \<open>
  What edits of a text do: on a valid document every insertion and deletion succeeds, keeps the
  invariant, and changes the units as the text operation of the same name does.
\<close>

section \<open>Units of a part of the list\<close>

definition units_of :: "'a doc_scheme \<Rightarrow> ID list \<Rightarrow> unit_list" where
  "units_of d as = concat (map (struct_units d) as)"

lemma units_of_simps [simp]:
  "units_of d [] = []" "units_of d (a # as) = struct_units d a @ units_of d as"
  "units_of d (as @ bs) = units_of d as @ units_of d bs"
  by (simp_all add: units_of_def)

lemma units_units_of: "units d n = units_of d (start d n)"
  by (simp add: units_def units_of_def)

lemma units_of_cong: "(\<And>a. a \<in> set as \<Longrightarrow> heap d a = heap d' a) \<Longrightarrow> units_of d as = units_of d' as"
  unfolding units_of_def by (metis (mono_tags, lifting) map_cong struct_units_cong)

lemma struct_units_item: "heap d a = Some (Item it) \<Longrightarrow> struct_units d a = item_units a it"
  by (simp add: struct_units_def)

lemma visible_deleted: "it_deleted it \<Longrightarrow> visible (item_units a it) = []"
  by (simp add: visible_def List.map_filter_def item_units_def comp_def)

lemma map_filter_string:
  "List.map_filter snd (map (\<lambda>j. (f j, if j < length s then Some (s ! j) else None)) [0..<length s]) = s"
proof -
  have "List.map_filter snd (map (\<lambda>j. (f j, if j < length s then Some (s ! j) else None)) [0..<length s])
      = map (\<lambda>j. s ! j) [0..<length s]"
    by (auto simp: List.map_filter_def comp_def cong: filter_cong)
  then show ?thesis by (simp add: map_nth)
qed

lemma visible_item:
  assumes ok: "item_ok it"
  shows "visible (item_units a it) = item_string it"
proof (cases "it_deleted it")
  case True
  then show ?thesis by (cases "it_content it") (simp_all add: visible_deleted item_string_def)
next
  case False
  with ok obtain s where s: "it_content it = ContentString s" "it_length it = length s"
    by (cases "it_content it") (auto simp: item_ok_def)
  show ?thesis
    using False map_filter_string [of "\<lambda>j. ID (client a) (clock a + j)" s]
    by (simp add: visible_def item_units_def item_string_def s)
qed

lemma item_string_length:
  "item_ok it \<Longrightarrow> \<not> it_deleted it \<Longrightarrow> length (item_string it) = it_length it"
  by (cases "it_content it") (auto simp: item_ok_def item_string_def)

lemma item_string_deleted: "it_deleted it \<Longrightarrow> item_string it = []"
  by (cases "it_content it") (auto simp: item_string_def)

lemma toString_units:
  assumes "doc_ok d"
  shows "toString d n = visible (units d n)"
proof -
  have "(\<And>a. a \<in> set as \<Longrightarrow> \<exists>it. heap d a = Some (Item it)) \<Longrightarrow>
     concat (map (\<lambda>a. case heap d a of Some (Item it) \<Rightarrow> item_string it | _ \<Rightarrow> []) as)
       = visible (units_of d as)" for as
  proof (induction as)
    case (Cons a as)
    then obtain it where it: "heap d a = Some (Item it)" by (metis list.set_intros(1))
    then have "item_ok it" using doc_okD(1) [OF assms it] by simp
    with Cons it show ?case by (auto simp: struct_units_item visible_item)
  qed simp
  from this [of "start d n"] show ?thesis
    using doc_okD(7) [OF assms] by (force simp: toString_def units_units_of)
qed

section \<open>Splitting at a visible character\<close>

lemma getItemCleanStart_split:
  assumes d: "doc_ok t" "heap t a = Some (Item it)" and m: "0 < m" "m < it_length it"
  shows "\<exists>i. splittable t (client a) i it m \<and> clocks t (client a) ! i = clock a \<and>
    getItemCleanStart t (createID (client a) (clock a + m)) =
      Inr (ID (client a) (clock a + m), spliceSplit t (client a) i it m)"
proof -
  obtain i where i: "i < length (clocks t (client a))" "clocks t (client a) ! i = clock a"
    using doc_okD(2) [OF d] by (metis in_set_conv_nth)
  have a: "ID (client a) (clock a) = a" by simp
  have "holds (ranges_of t (client a)) (clock a + m) i"
    using i d(2) m by (simp add: holds_def length_at_def a)
  then have f: "findIndexSS (ranges_of t (client a)) (clock a + m) = Inr i"
    using findIndexSS_complete doc_okD(4) [OF d(1)] doc_ok_positive [OF d(1)] by blast
  have sp: "splittable t (client a) i it m"
    using d i m by (simp add: splittable_def a)
  have "clocks (spliceSplit t (client a) i it m) (client a) ! Suc i = clock a + m"
    using spliceSplit_fields(2) [OF sp] i by (simp add: insert_at_def nth_append)
  with f i d(2) m sp show ?thesis
    by (auto simp: getItemCleanStart_def findIndexCleanStart_def createID_def a Let_def)
qed

definition last_opt :: "'a list \<Rightarrow> 'a option" where
  "last_opt xs = (if xs = [] then None else Some (last xs))"

definition hd_opt :: "'a list \<Rightarrow> 'a option" where
  "hd_opt xs = (case xs of [] \<Rightarrow> None | x # ys \<Rightarrow> Some x)"

lemma last_opt_simps [simp]: "last_opt [] = None" "last_opt (xs @ [x]) = Some x"
  by (simp_all add: last_opt_def)

lemma hd_opt_simps [simp]: "hd_opt [] = None" "hd_opt (x # xs) = Some x"
  by (simp_all add: hd_opt_def)

lemma next_in_append: "a \<notin> set xs \<Longrightarrow> next_in a (xs @ a # ys) = hd_opt ys"
  by (induction xs) (auto simp: hd_opt_def split: list.splits)

lemma from_on_append: "a \<notin> set xs \<Longrightarrow> from_on a (xs @ a # ys) = a # ys"
  by (induction xs) (auto simp: from_on_def)

text \<open>What the steps of an edit keep: the invariant, the identity and shape of the units, the
  clients' states.\<close>

definition keeps :: "'a transaction_scheme \<Rightarrow> 'a transaction_scheme \<Rightarrow> bool" where
  "keeps t t' = (doc_ok t' \<and> (\<forall>n. same_shape (units t' n) (units t n)) \<and>
     clientID t' = clientID t \<and> (\<forall>c. getState t' c = getState t c))"

definition cut_clean :: "jsstring \<Rightarrow> nat \<Rightarrow> bool" where
  "cut_clean s i = (0 < i \<and> i < length s \<longrightarrow> \<not> isHighSurrogate (s ! (i - 1)))"

lemma keeps_refl: "doc_ok t \<Longrightarrow> keeps t t"
  by (simp add: keeps_def)

text \<open>Splitting the item in front of \<open>as\<close>.\<close>

lemma split_in_list:
  assumes d: "doc_ok t" "start t n = pre @ a # as" "heap t a = Some (Item it)"
    and m: "0 < m" "m < it_length it"
  shows "\<exists>b t1 l. getItemCleanStart t (createID (client a) (clock a + m)) = Inr (b, t1) \<and>
    keeps t t1 \<and> start t1 n = pre @ a # b # as \<and> next_in a (start t1 n) = Some b \<and>
    (\<forall>x. x \<noteq> a \<and> x \<noteq> b \<longrightarrow> heap t1 x = heap t x) \<and> b \<notin> set (pre @ a # as) \<and>
    heap t1 a = Some (Item l) \<and> it_length l = m \<and> it_deleted l = it_deleted it \<and> it_parent l = n \<and> item_ok l \<and>
    isCountable (it_content l) = isCountable (it_content it) \<and>
    units_of t1 pre = units_of t pre \<and> units_of t1 as = units_of t as \<and>
    length (visible (struct_units t1 b)) = (if it_deleted it then 0 else it_length it - m) \<and>
    (cut_clean (visible (item_units a it)) m \<longrightarrow> (\<forall>n. units t1 n = units t n))"
proof -
  let ?c = "client a" and ?b = "ID (client a) (clock a + m)"
  obtain i where i: "splittable t ?c i it m" "clocks t ?c ! i = clock a"
    and g: "getItemCleanStart t (createID ?c (clock a + m)) = Inr (?b, spliceSplit t ?c i it m)"
    using getItemCleanStart_split [OF d(1,3) m] by blast
  define t1 where "t1 = spliceSplit t ?c i it m"
  obtain l r where lr: "heap t1 = (heap t)(a \<mapsto> Item l, ?b \<mapsto> Item r)"
      "it_length l = m" "it_length r = it_length it - m" "item_ok l" "item_ok r"
      "it_parent l = it_parent it" "it_deleted l = it_deleted it" "it_deleted r = it_deleted it"
      "(it_content l, it_content r) = content_splice (it_content it) m"
    using spliceSplit_fields(1) [OF i(1)] by (auto simp: t1_def i(2))
  have par: "it_parent it = n" using doc_okD(7) [OF d(1), of a n] d(2,3) by auto
  have fresh: "heap t ?b = None" using splittable_fresh [OF i(1)] by (simp add: i(2))
  have bn: "?b \<notin> set (pre @ a # as)" using list_not_in(1) [OF d(1) fresh, of n] d(2) by simp
  have dist: "distinct (pre @ a # as)" using doc_okD(6) [OF d(1), of n] d(2) by simp
  have st: "start t1 n = pre @ a # ?b # as"
    using spliceSplit_fields(3) [OF i(1)] dist
    by (simp add: t1_def par d(2) i(2) insert_after_append)
  have ab: "a \<noteq> ?b" using bn by auto
  have other: "heap t1 x = heap t x" if "x \<noteq> a \<and> x \<noteq> ?b" for x using that by (simp add: lr(1))
  have u: "units_of t1 pre = units_of t pre" "units_of t1 as = units_of t as"
    using dist bn by (auto intro!: units_of_cong other)
  have keep: "keeps t t1"
    unfolding keeps_def t1_def using spliceSplit_ok [OF i(1)] spliceSplit_units(1) [OF i(1)]
      spliceSplit_fields(5) [OF i(1)] spliceSplit_ranges(2) [OF i(1)] by simp
  have vb: "length (visible (struct_units t1 ?b)) = (if it_deleted it then 0 else it_length it - m)"
    using lr ab visible_item [OF lr(5)] item_string_length [OF lr(5)]
      item_string_deleted [of r]
    by (simp add: struct_units_item [of t1 ?b r] visible_deleted)
  have "clean_split it m" if c: "cut_clean (visible (item_units a it)) m"
  proof (cases "it_deleted it")
    case False
    have ok: "item_ok it" using doc_okD(1) [OF d(1,3)] by simp
    show ?thesis
      using c False m item_string_length [OF ok False] unfolding visible_item [OF ok]
      by (auto simp: clean_split_def cut_clean_def item_string_def split: content.splits)
  qed (simp add: clean_split_def)
  then have cl: "cut_clean (visible (item_units a it)) m \<longrightarrow> (\<forall>n. units t1 n = units t n)"
    using spliceSplit_units(2) [OF i(1)] by (simp add: t1_def)
  have co: "isCountable (it_content l) = isCountable (it_content it)"
    using lr(9) content_splice_countable(1) [of "it_content it" m] by (metis fst_conv)
  have nx: "next_in a (start t1 n) = Some ?b"
    using next_in_append [of a pre "?b # as"] dist by (simp add: st)
  have "heap t1 a = Some (Item l)" using ab by (simp add: lr(1))
  with g keep st other u vb cl co nx bn lr(2,4,6,7) par show ?thesis unfolding t1_def [symmetric] by blast
qed

section \<open>Walking\<close>

lemma cut_clean_left: "cut_clean (u @ v) i \<Longrightarrow> i < length u \<Longrightarrow> cut_clean u i"
  by (auto simp: cut_clean_def nth_append split: if_splits)

lemma cut_clean_right:
  assumes "cut_clean (u @ v) i" "length u \<le> i"
  shows "cut_clean v (i - length u)"
proof -
  have "(u @ v) ! (i - 1) = v ! (i - length u - 1)" if "length u < i"
    using that by (auto simp: nth_append)
  then show ?thesis using assms by (auto simp: cut_clean_def)
qed

lemma cut_clean_shift:
  assumes "cut_clean (u @ v) (i + k)" "length u = min i (length (u @ v))"
  shows "cut_clean v k"
proof (cases "v = []")
  case False
  then have "length u = i" using assms(2) by (cases v) auto
  with cut_clean_right [OF assms(1)] show ?thesis by simp
qed (simp add: cut_clean_def)

lemma list_item:
  assumes "doc_ok d" "a \<in> set (start d n)"
  obtains it where "heap d a = Some (Item it)" "it_parent it = n" "item_ok it"
    "struct_units d a = item_units a it" "visible (struct_units d a) = item_string it"
  using assms doc_okD(7) [OF assms] doc_okD(1) [OF assms(1), of a]
  by (fastforce simp: struct_units_item visible_item)

lemma findNextPosition_spec:
  assumes d: "doc_ok t"
  shows "start t n = pre @ as \<Longrightarrow> 0 \<le> count \<Longrightarrow>
    \<exists>cur t1 pre1 post1. findNextPosition n (last_opt pre) as index count t = Inr (cur, t1) \<and>
      keeps t t1 \<and> start t1 n = pre1 @ post1 \<and> p_left cur = last_opt pre1 \<and> p_right cur = hd_opt post1 \<and>
      int (length (visible (units_of t1 pre1))) = int (length (visible (units_of t pre))) +
        min count (int (length (visible (units_of t as)))) \<and>
      (cut_clean (visible (units_of t as)) (nat count) \<longrightarrow> (\<forall>m. units t1 m = units t m))"
    (is "_ \<Longrightarrow> _ \<Longrightarrow> ?P pre as index count")
proof (induction as arbitrary: pre index count)
  case Nil
  then show ?case using keeps_refl [OF d] by simp (rule exI [of _ pre], rule exI [of _ "[]"], simp)
next
  case (Cons a as)
  obtain it where it: "heap t a = Some (Item it)" "item_ok it"
      "struct_units t a = item_units a it" "visible (item_units a it) = item_string it"
    using list_item [OF d, of a n] Cons.prems(1) by (metis in_set_conv_decomp)
  have st: "start t n = (pre @ [a]) @ as" using Cons.prems by simp
  consider "count = 0" | "0 < count" "it_deleted it" | "0 < count" "\<not> it_deleted it" "count < int (it_length it)"
    | "0 < count" "\<not> it_deleted it" "int (it_length it) \<le> count"
    using Cons.prems(2) by fastforce
  then show ?case
  proof cases
    case 1
    then show ?thesis
      using keeps_refl [OF d] Cons.prems(1)
      by (simp add: cut_clean_def) (rule exI [of _ pre], rule exI [of _ "a # as"], simp)
  next
    case 2
    with Cons.IH [OF st, of count index] it show ?thesis
      by (simp add: item_string_deleted)
  next
    case 3
    define m where "m = nat count"
    have m: "0 < m" "m < it_length it" "count = int m" using 3 by (auto simp: m_def)
    obtain b t1 l where g: "getItemCleanStart t (createID (client a) (clock a + m)) = Inr (b, t1)"
      "keeps t t1" "start t1 n = pre @ a # b # as" "next_in a (start t1 n) = Some b"
      "heap t1 a = Some (Item l)" "it_length l = m" "it_deleted l = it_deleted it" "item_ok l"
      "units_of t1 pre = units_of t pre"
      "cut_clean (visible (item_units a it)) m \<longrightarrow> (\<forall>n. units t1 n = units t n)"
      using split_in_list [OF d Cons.prems(1) it(1) m(1,2)] by blast
    have "length (visible (struct_units t1 a)) = m"
      using g 3 by (simp add: struct_units_item visible_item item_string_length)
    moreover have "cut_clean (visible (item_units a it)) m" if "cut_clean (visible (units_of t (a # as))) m"
      using that m it item_string_length [OF it(2) 3(2)]
      by (auto intro: cut_clean_left)
    ultimately show ?thesis
      using 3 it g m item_string_length [OF it(2) 3(2)]
      by (intro exI [of _ "\<lparr>p_left = Some a, p_right = Some b, p_index = index + count\<rparr>"] exI [of _ t1]
          exI [of _ "pre @ [a]"] exI [of _ "b # as"]) auto
  next
    case 4
    have len: "length (item_string it) = it_length it" by (rule item_string_length [OF it(2) 4(2)])
    have "cut_clean (visible (units_of t as)) (nat (count - int (it_length it)))"
      if "cut_clean (visible (units_of t (a # as))) (nat count)"
      using cut_clean_right [of "item_string it" "visible (units_of t as)" "nat count"] that 4 it len
      by (simp add: nat_diff_distrib le_nat_iff)
    with Cons.IH [OF st, of "count - int (it_length it)" "index + int (it_length it)"] 4 it len
    show ?thesis by (simp add: min_def) (smt (verit))
  qed
qed

section \<open>Linking a new item in\<close>

lemma getState_fresh:
  assumes d: "doc_ok d" and a: "getState d (client a) \<le> clock a"
  shows "heap d a = None"
proof (rule ccontr)
  assume "heap d a \<noteq> None"
  with doc_okD(2) [OF d] obtain i where i: "i < length (clocks d (client a))" "clocks d (client a) ! i = clock a"
    by (metis in_set_conv_nth not_None_eq)
  let ?l = "length (clocks d (client a)) - 1"
  have ne: "clocks d (client a) \<noteq> []" using i by auto
  then have "0 < length_at d (ID (client a) (clocks d (client a) ! ?l))"
    using doc_ok_positive [OF d, of "client a"] by (simp add: positive_def list_all_length)
  moreover have "clock a \<le> clocks d (client a) ! ?l"
    using contiguous_mono [OF doc_okD(4) [OF d], of i ?l "client a"] i ne
    by (cases "i = ?l"; cases "i < ?l") auto
  ultimately have "clock a < getState d (client a)"
    using ne by (simp add: getState_def last_conv_nth)
  with a show False by simp
qed

text \<open>The state of the store with the item \<open>it\<close> linked in between \<open>pre\<close> and \<open>post\<close>.\<close>

definition linked :: "'a transaction_scheme \<Rightarrow> ID \<Rightarrow> item \<Rightarrow> ID list \<Rightarrow> ID list \<Rightarrow> 'a transaction_scheme \<Rightarrow> bool" where
  "linked t this it pre post t' =
     (heap t' = (heap t)(this \<mapsto> Item it) \<and>
      clocks t' = (clocks t)(client this := clocks t (client this) @ [clock this]) \<and>
      start t' = (start t)(it_parent it := pre @ this # post) \<and>
      type_length t' = (type_length t)(it_parent it := type_length t (it_parent it) + int (length (item_string it))) \<and>
      clientID t' = clientID t)"

lemma linked_units:
  assumes l: "linked t this it pre post t'" and d: "doc_ok t" "heap t this = None"
    and st: "start t (it_parent it) = pre @ post"
  shows "units t' (it_parent it) = units_of t pre @ item_units this it @ units_of t post"
    "n \<noteq> it_parent it \<Longrightarrow> units t' n = units t n"
proof -
  have "this \<notin> set (start t m)" for m by (rule list_not_in(1) [OF d])
  then have same: "units_of t' as = units_of t as" if "set as \<subseteq> set (start t m)" for as m
    using l that by (intro units_of_cong) (auto simp: linked_def)
  show "units t' (it_parent it) = units_of t pre @ item_units this it @ units_of t post"
    using l same [of pre "it_parent it"] same [of post "it_parent it"] st
    by (simp add: units_units_of linked_def struct_units_item)
  show "n \<noteq> it_parent it \<Longrightarrow> units t' n = units t n"
    using l same [of "start t n" n] by (simp add: units_units_of linked_def)
qed

lemma linked_ranges:
  assumes l: "linked t this it pre post t'" and d: "doc_ok t" "clock this = getState t (client this)"
  shows "ranges_of t' c = (if c = client this then ranges_of t c @ [(clock this, it_length it)] else ranges_of t c)"
proof -
  have f: "heap t this = None" by (rule getState_fresh [OF d(1)]) (simp add: d(2))
  then have "clock this \<notin> set (clocks t (client this))"
    using doc_okD(3) [OF d(1), of "clock this" "client this"] by auto
  moreover have "ID (client this) x = this \<longleftrightarrow> x = clock this" for x by (cases this) auto
  ultimately show ?thesis
    using l by (auto simp: ranges_of_def linked_def length_at_def)
qed

lemma linked_ok:
  assumes l: "linked t this it pre post t'" and d: "doc_ok t" "clock this = getState t (client this)"
    and st: "start t (it_parent it) = pre @ post" and ok: "item_ok it"
  shows "doc_ok t'"
    "getState t' c = getState t c + (if c = client this then it_length it else 0)"
proof -
  have f: "heap t this = None" by (rule getState_fresh [OF d(1)]) (simp add: d(2))
  note u = linked_units [OF l d(1) f st]
  note r = linked_ranges [OF l d]
  have ne: "ranges_of t c \<noteq> [] \<Longrightarrow> ends (ranges_of t c) = getState t c" for c
    using getState_ends [of t c] by simp
  have pp: "x \<in> set pre \<or> x \<in> set post \<longleftrightarrow> x \<in> set (start t (it_parent it))" for x
    by (simp add: st)
  show "doc_ok t'"
    unfolding doc_ok_def
  proof (intro conjI allI impI)
    show "struct_ok s" if "heap t' x = Some s" for x s
      using that l ok doc_okD(1) [OF d(1), of x s] by (auto simp: linked_def split: if_splits)
    show "(heap t' x \<noteq> None) = (clock x \<in> set (clocks t' (client x)))" for x
      using d(1) l unfolding doc_ok_def linked_def by (auto simp: ID.expand)
    show "contiguous (ranges_of t' c)" for c
      using doc_okD(4) [OF d(1), of c] ne [of c] d(2) by (auto simp: r contiguous_append)
    show "hd (clocks t' c) = 0" if "clocks t' c \<noteq> []" for c
      using that l d(2) doc_okD(5) [OF d(1), of c] by (auto simp: linked_def getState_def hd_append)
    show "distinct (start t' n)" for n
      using l doc_okD(6) [OF d(1), of n] list_not_in(1) [OF d(1) f, of "it_parent it"] st
      by (cases "n = it_parent it") (auto simp: linked_def)
    show "(x \<in> set (start t' n)) = (\<exists>it. heap t' x = Some (Item it) \<and> it_parent it = n)" for n x
      using l d(1) f pp [of x] unfolding doc_ok_def by (auto simp: linked_def)
    show "type_length t' n = int (length (visible (units t' n)))" for n
    proof (cases "n = it_parent it")
      case True
      with l u(1) doc_okD(9) [OF d(1), of n] visible_item [OF ok] show ?thesis
        by (simp add: linked_def units_units_of [of t] st)
    next
      case False
      with l u(2) doc_okD(9) [OF d(1), of n] show ?thesis by (simp add: linked_def)
    qed
  qed
  show "getState t' c = getState t c + (if c = client this then it_length it else 0)"
  proof (cases "c = client this")
    case True
    have "clocks t' c \<noteq> []" using l True by (simp add: linked_def)
    from getState_ends [OF this] show ?thesis using True d(2) by (simp add: r ends_def)
  next
    case False
    then show ?thesis unfolding getState_ranges [of t'] getState_ranges [of t] r by simp
  qed
qed

section \<open>Inserting\<close>

lemma insert_after_last:
  "distinct (pre @ post) \<Longrightarrow>
   (case last_opt pre of None \<Rightarrow> a # pre @ post | Some l \<Rightarrow> insert_after l a (pre @ post)) = pre @ a # post"
proof (cases pre rule: rev_cases)
  case (snoc qs l)
  assume "distinct (pre @ post)"
  with snoc show ?thesis using insert_after_append [of l qs a post] by simp
qed simp

lemma prev_in_first: "distinct (a # xs) \<Longrightarrow> prev_in a (a # xs) = None"
  using next_in_append [of a "rev xs" "[]"] by (simp add: prev_in_def)

text \<open>Between neighbours of the list there is no conflict to resolve.\<close>

lemma resolve_left_local:
  assumes "doc_ok t" "start t (it_parent it) = pre @ post"
  shows "resolve_left t this it (last_opt pre) (hd_opt post) = Inr (last_opt pre)"
proof -
  have dist: "distinct (pre @ post)" using doc_okD(6) [OF assms(1)] assms(2) by metis
  show ?thesis
  proof (cases pre rule: rev_cases)
    case Nil
    with dist show ?thesis
      by (cases post) (simp_all add: resolve_left_def assms(2) has_conflict_def prev_in_first)
  next
    case (snoc qs l)
    with dist next_in_append [of l qs post] show ?thesis
      by (simp add: resolve_left_def assms(2) has_conflict_def)
  qed
qed

lemma addStruct_ok:
  assumes "clock a = getState d (client a)"
  shows "addStruct d a s = Inr (d\<lparr>heap := (heap d)(a \<mapsto> s),
     clocks := (clocks d)(client a := clocks d (client a) @ [clock a])\<rparr>)"
  using assms by (auto simp: addStruct_def getState_def Let_def)

lemma getState_cong: "clocks d = clocks d' \<Longrightarrow> heap d = heap d' \<Longrightarrow> getState d c = getState d' c"
  by (simp add: getState_def length_at_def)

lemma integrate_string:
  assumes r: "resolve_left t this it left right = Inr (last_opt pre)"
    and st: "start t (it_parent it) = pre @ post" and d: "doc_ok t" "clock this = getState t (client this)"
    and it: "it_content it = ContentString s" "\<not> it_deleted it" "it_length it = length s"
  shows "\<exists>t1. integrate this it left right t = Inr t1 \<and> linked t this it pre post t1"
proof -
  have dist: "distinct (pre @ post)" using doc_okD(6) [OF d(1)] st by metis
  note ia = insert_after_last [OF dist, of this]
  define t1 where "t1 = t\<lparr>start := (start t)(it_parent it := pre @ this # post),
      type_length := (type_length t)(it_parent it := type_length t (it_parent it) + int (length s))\<rparr>"
  have "clock this = getState t1 (client this)"
    using d(2) getState_cong [of t1 t] by (simp add: t1_def)
  note as = addStruct_ok [OF this, of "Item it"]
  have ia1: "(case last_opt pre of None \<Rightarrow> this # start t (it_parent it)
      | Some l \<Rightarrow> insert_after l this (start t (it_parent it))) = pre @ this # post"
    unfolding st by (rule ia)
  have "integrate this it left right t = Inr (t1\<lparr>heap := (heap t1)(this \<mapsto> Item it),
     clocks := (clocks t1)(client this := clocks t1 (client this) @ [clock this])\<rparr>)"
    using it as by (simp add: integrate_def r Let_def ia1 t1_def)
  then show ?thesis using it by (auto simp: linked_def t1_def item_string_def)
qed

lemma skip_deleted_spec:
  assumes d: "doc_ok t"
  shows "start t n = pre @ as \<Longrightarrow> \<exists>pre1 post1. skip_deleted t (last_opt pre) as = (last_opt pre1, post1) \<and>
    start t n = pre1 @ post1 \<and> visible (units_of t pre1) = visible (units_of t pre) \<and>
    (units_of t post1 \<noteq> [] \<longrightarrow> snd (hd (units_of t post1)) \<noteq> None)"
proof (induction as arbitrary: pre)
  case Nil
  then show ?case by (intro exI [of _ pre] exI [of _ "[]"]) simp
next
  case (Cons a as)
  obtain it where it: "heap t a = Some (Item it)" "item_ok it"
      "struct_units t a = item_units a it" "visible (item_units a it) = item_string it"
    using list_item [OF d, of a n] Cons.prems(1) by (metis in_set_conv_decomp)
  show ?case
  proof (cases "it_deleted it")
    case True
    with Cons.IH [of "pre @ [a]"] Cons.prems it show ?thesis by (simp add: item_string_deleted)
  next
    case False
    then have "item_units a it \<noteq> [] \<and> snd (hd (item_units a it)) \<noteq> None"
      using it(2) by (cases "it_content it") (auto simp: item_units_def item_ok_def hd_map)
    with False Cons.prems it show ?thesis by (intro exI [of _ pre] exI [of _ "a # as"]) simp
  qed
qed

text \<open>The units a local insertion adds.\<close>

definition new_units :: "nat \<Rightarrow> nat \<Rightarrow> jsstring \<Rightarrow> unit_list" where
  "new_units c k s = map (\<lambda>j. (ID c (k + j), Some (s ! j))) [0..<length s]"

lemma visible_new_units: "visible (new_units c k s) = s"
proof -
  have "visible (new_units c k s) = map (\<lambda>j. s ! j) [0..<length s]"
    by (simp add: visible_def new_units_def List.map_filter_def comp_def)
  then show ?thesis by (simp add: map_nth)
qed

lemma from_on_cut:
  "distinct (pre @ post) \<Longrightarrow> (case hd_opt post of None \<Rightarrow> [] | Some r \<Rightarrow> from_on r (pre @ post)) = post"
  by (cases post) (auto simp: from_on_append)

lemma insertText_linked:
  assumes d: "doc_ok t" and st: "start t n = pre @ post" and ne: "text \<noteq> []"
    and cur: "p_left cur = last_opt pre" "p_right cur = hd_opt post"
    and me: "this = ID (clientID t) (getState t (clientID t))"
  shows "\<exists>t1 pre1 post1 it. insertText n cur text t = Inr t1 \<and> linked t this it pre1 post1 t1 \<and>
    start t n = pre1 @ post1 \<and> visible (units_of t pre1) = visible (units_of t pre) \<and>
    (units_of t post1 \<noteq> [] \<longrightarrow> snd (hd (units_of t post1)) \<noteq> None) \<and>
    it = \<lparr>it_origin = (case last_opt pre1 of None \<Rightarrow> None | Some l \<Rightarrow> lastId_at t l),
      it_rightOrigin = hd_opt post1, it_parent = n, it_redone = None, it_content = ContentString text,
      it_length = length text, it_deleted = False, it_keep = False\<rparr>"
proof -
  have dist: "distinct (pre @ post)" using doc_okD(6) [OF d, of n] st by simp
  obtain pre1 post1 where sk: "skip_deleted t (last_opt pre) post = (last_opt pre1, post1)"
    "start t n = pre1 @ post1" "visible (units_of t pre1) = visible (units_of t pre)"
    "units_of t post1 \<noteq> [] \<longrightarrow> snd (hd (units_of t post1)) \<noteq> None"
    using skip_deleted_spec [OF d st] by blast
  define it where "it = \<lparr>it_origin = (case last_opt pre1 of None \<Rightarrow> None | Some l \<Rightarrow> lastId_at t l),
                it_rightOrigin = hd_opt post1, it_parent = n, it_redone = None,
                it_content = ContentString text, it_length = length text,
                it_deleted = False, it_keep = False\<rparr>"
  have it: "it_parent it = n" "it_content it = ContentString text" "\<not> it_deleted it" "it_length it = length text"
    by (simp_all add: it_def)
  have ck: "clock this = getState t (client this)" by (simp add: me)
  have st1: "start t (it_parent it) = pre1 @ post1" using sk it by simp
  obtain t1 where t1: "integrate this it (last_opt pre1) (hd_opt post1) t = Inr t1"
    "linked t this it pre1 post1 t1"
    using integrate_string [OF resolve_left_local [OF d st1] st1 d ck it(2,3,4)] by blast
  have fo: "(case hd_opt post of None \<Rightarrow> [] | Some r \<Rightarrow> from_on r (start t n)) = post"
    unfolding st by (rule from_on_cut [OF dist])
  have "insertText n cur text t = Inr t1"
    using t1(1) by (simp add: insertText_def cur fo sk(1) it_def me
        createID_def hd_opt_def [symmetric] Let_def)
  then show ?thesis using t1(2) sk(2-4) it_def by blast
qed

lemma insertText_spec:
  assumes d: "doc_ok t" and st: "start t n = pre @ post" and ne: "text \<noteq> []"
    and cur: "p_left cur = last_opt pre" "p_right cur = hd_opt post"
  shows "\<exists>t1 us vs. insertText n cur text t = Inr t1 \<and> doc_ok t1 \<and> clientID t1 = clientID t \<and>
    units t n = us @ vs \<and> length (visible us) = length (visible (units_of t pre)) \<and>
    units t1 n = us @ new_units (clientID t) (getState t (clientID t)) text @ vs \<and>
    (\<forall>m. m \<noteq> n \<longrightarrow> units t1 m = units t m) \<and>
    (\<forall>c. getState t1 c = getState t c + (if c = clientID t then length text else 0))"
proof -
  define this where "this = ID (clientID t) (getState t (clientID t))"
  obtain t1 pre1 post1 it where i: "insertText n cur text t = Inr t1" "linked t this it pre1 post1 t1"
    "start t n = pre1 @ post1" "visible (units_of t pre1) = visible (units_of t pre)"
    "it = \<lparr>it_origin = (case last_opt pre1 of None \<Rightarrow> None | Some l \<Rightarrow> lastId_at t l),
      it_rightOrigin = hd_opt post1, it_parent = n, it_redone = None, it_content = ContentString text,
      it_length = length text, it_deleted = False, it_keep = False\<rparr>"
    using insertText_linked [OF d st ne cur this_def] by - (elim exE conjE, rule that, assumption+)
  have it: "it_parent it = n" "item_ok it" "it_length it = length text" "\<not> it_deleted it"
    "it_content it = ContentString text"
    using ne by (simp_all add: i(5) item_ok_def)
  have ck: "clock this = getState t (client this)" "client this = clientID t" by (simp_all add: this_def)
  have st1: "start t (it_parent it) = pre1 @ post1" using i(3) it by simp
  have "heap t this = None" by (rule getState_fresh [OF d]) (simp add: ck)
  note u = linked_units [OF i(2) d this st1] and ok = linked_ok [OF i(2) d ck(1) st1 it(2)]
  moreover have "item_units this it = new_units (clientID t) (getState t (clientID t)) text"
    by (simp add: item_units_def new_units_def it this_def)
  moreover have "units t n = units_of t pre1 @ units_of t post1" by (simp add: units_units_of i(3))
  ultimately show ?thesis
    using i(1,2,4) it ck by (intro exI [of _ t1] exI [of _ "units_of t pre1"] exI [of _ "units_of t post1"])
      (simp add: linked_def)
qed

section \<open>Hiding and deleting\<close>

text \<open>Hiding the first \<open>k\<close> visible units.\<close>

fun hide :: "nat \<Rightarrow> unit_list \<Rightarrow> unit_list" where
  "hide k [] = []"
| "hide k ((i, None) # us) = (i, None) # hide k us"
| "hide 0 ((i, Some c) # us) = (i, Some c) # us"
| "hide (Suc k) ((i, Some c) # us) = (i, None) # hide k us"

lemma hide_0 [simp]: "hide 0 us = us"
proof (induction us)
  case (Cons u us)
  then show ?case by (cases u; cases "snd u") auto
qed simp

lemma visible_hide: "visible (hide k us) = drop k (visible us)"
  by (induction k us rule: hide.induct) auto

lemma hide_append: "hide k (us @ vs) = hide k us @ hide (k - length (visible us)) vs"
  by (induction k us rule: hide.induct) auto

lemma hide_shape: "map fst (hide k us) = map fst us"
  by (induction k us rule: hide.induct) auto

definition hidden :: "unit_list \<Rightarrow> unit_list" where
  "hidden us = map (\<lambda>u. (fst u, None)) us"

lemma hide_all: "length (visible us) \<le> k \<Longrightarrow> hide k us = hidden us"
  by (induction k us rule: hide.induct) (auto simp: hidden_def)

lemma hidden_item: "hidden (item_units a it) = item_units a (it\<lparr>it_deleted := True\<rparr>)"
  by (simp add: hidden_def item_units_def)

text \<open>Replacing an item by one of the same place and length keeps the invariant.\<close>

lemma replace_item_ok:
  assumes d: "doc_ok t" "heap t a = Some (Item it)"
    and it': "item_ok it'" "it_parent it' = it_parent it" "it_length it' = it_length it"
    and f: "heap t' = (heap t)(a \<mapsto> Item it')" "clocks t' = clocks t" "start t' = start t"
      "type_length t' = (type_length t)(it_parent it := type_length t (it_parent it) +
         int (length (item_string it')) - int (length (item_string it)))"
  shows "doc_ok t'" "getState t' c = getState t c"
    "start t n = pre @ a # post \<Longrightarrow>
       units t' n = units_of t pre @ item_units a it' @ units_of t post \<and>
       units_of t' pre = units_of t pre \<and> units_of t' post = units_of t post"
    "n \<noteq> it_parent it \<Longrightarrow> units t' n = units t n"
proof -
  have len: "length_at t' = length_at t"
    by (rule ext) (simp add: length_at_def f(1) d(2) it')
  show gs: "getState t' c = getState t c" for c by (simp add: getState_def f(2) len)
  have u: "units t' n = units_of t pre @ item_units a it' @ units_of t post \<and>
      units_of t' pre = units_of t pre \<and> units_of t' post = units_of t post"
    if st: "start t n = pre @ a # post" for n pre post
  proof -
    have "a \<notin> set pre" "a \<notin> set post" using doc_okD(6) [OF d(1), of n] st by auto
    then have "units_of t' pre = units_of t pre" "units_of t' post = units_of t post"
      by (auto intro!: units_of_cong simp: f(1))
    then show ?thesis by (simp add: units_units_of f(3) st struct_units_item f(1))
  qed
  show "start t n = pre @ a # post \<Longrightarrow>
       units t' n = units_of t pre @ item_units a it' @ units_of t post \<and>
       units_of t' pre = units_of t pre \<and> units_of t' post = units_of t post"
    by (rule u)
  have v: "units t' n = units t n" if "n \<noteq> it_parent it" for n
  proof -
    have "a \<notin> set (start t n)" using list_not_in(2) [OF d] that by auto
    then have "units_of t' (start t n) = units_of t (start t n)"
      by (auto intro!: units_of_cong simp: f(1))
    then show ?thesis by (simp add: units_units_of f(3))
  qed
  then show "n \<noteq> it_parent it \<Longrightarrow> units t' n = units t n" .
  have tl: "type_length t' n = int (length (visible (units t' n)))" for n
  proof (cases "n = it_parent it")
    case True
    with doc_okD(8) [OF d] obtain pre post where st: "start t n = pre @ a # post"
      by (metis split_list)
    have ok: "item_ok it" using doc_okD(1) [OF d] by simp
    show ?thesis
      using u [OF st] doc_okD(9) [OF d(1), of n] True
      by (simp add: f(4) units_units_of [of t] st [unfolded True] struct_units_item [OF d(2)]
          visible_item [OF ok] visible_item [OF it'(1)])
  next
    case False
    then show ?thesis using v doc_okD(9) [OF d(1), of n] by (simp add: f(4))
  qed
  have "(heap t' x \<noteq> None) = (heap t x \<noteq> None)"
    "(\<exists>j. heap t' x = Some (Item j) \<and> it_parent j = n) = (\<exists>j. heap t x = Some (Item j) \<and> it_parent j = n)" for x n
    using d(2) it'(2) by (auto simp: f(1))
  then show "doc_ok t'"
    using d(1) it'(1) tl unfolding doc_ok_def
    by (auto simp: f ranges_of_def len)
qed

lemma deleteItem_spec:
  assumes d: "doc_ok t" "heap t a = Some (Item it)" "\<not> it_deleted it" and st: "start t n = pre @ a # post"
  defines "t' \<equiv> deleteItem t a it"
  shows "doc_ok t'" "getState t' c = getState t c" "clientID t' = clientID t" "start t' = start t"
    "units t' n = units_of t pre @ hidden (item_units a it) @ units_of t post"
    "units_of t' pre = units_of t pre" "units_of t' post = units_of t post"
    "m \<noteq> n \<Longrightarrow> units t' m = units t m"
proof -
  let ?it = "it\<lparr>it_deleted := True\<rparr>"
  have ok: "item_ok it" using doc_okD(1) [OF d(1,2)] by simp
  then have ok': "item_ok ?it" by (simp add: item_ok_def)
  have par: "it_parent it = n" using doc_okD(7) [OF d(1), of a n] d(2) st by auto
  have f: "heap t' = (heap t)(a \<mapsto> Item ?it)" "clocks t' = clocks t" "start t' = start t"
      "type_length t' = (type_length t)(it_parent it := type_length t (it_parent it) +
         int (length (item_string ?it)) - int (length (item_string it)))"
    using d(3) ok item_string_length [OF ok d(3)]
    by (auto simp: t'_def deleteItem_def item_string_deleted item_ok_def)
  note r = replace_item_ok [OF d(1,2) ok' _ _ f, simplified]
  show "doc_ok t'" "getState t' c = getState t c" "start t' = start t" using r f by auto
  show "clientID t' = clientID t" by (simp add: t'_def deleteItem_def)
  show "units t' n = units_of t pre @ hidden (item_units a it) @ units_of t post"
    "units_of t' pre = units_of t pre" "units_of t' post = units_of t post"
    using r(3) [OF st] by (auto simp: hidden_item)
  show "m \<noteq> n \<Longrightarrow> units t' m = units t m" using r(4) par by simp
qed

text \<open>The loop hides the next \<open>len\<close> visible units, or all that are left.\<close>

lemma hide_first: "length (visible u) = k \<Longrightarrow> hide k (u @ v) = hidden u @ v"
  by (simp add: hide_append hide_all)

lemma delete_loop_spec:
  "doc_ok t \<Longrightarrow> start t n = pre @ as \<Longrightarrow> 0 \<le> len \<Longrightarrow>
   \<exists>left rest t1. delete_loop (last_opt pre) as len t = Inr (left, rest, t1) \<and> doc_ok t1 \<and>
     clientID t1 = clientID t \<and> (\<forall>c. getState t1 c = getState t c) \<and>
     (left = None \<and> \<not> rest \<longrightarrow> pre = [] \<and> as = []) \<and>
     (cut_clean (visible (units_of t as)) (nat len) \<longrightarrow>
        units t1 n = units_of t pre @ hide (nat len) (units_of t as) \<and>
        (\<forall>m. m \<noteq> n \<longrightarrow> units t1 m = units t m))"
proof (induction as arbitrary: pre len t)
  case Nil
  then show ?case
    by (cases pre rule: rev_cases) (auto simp: units_units_of intro: exI [of _ False])
next
  case (Cons a as)
  note d = Cons.prems(1)
  obtain it where it: "heap t a = Some (Item it)" "item_ok it"
      "struct_units t a = item_units a it" "visible (item_units a it) = item_string it"
    using list_item [OF d, of a n] Cons.prems(2) by (metis in_set_conv_decomp)
  have st: "start t n = (pre @ [a]) @ as" using Cons.prems by simp
  consider "len = 0" | "0 < len" "it_deleted it" | "0 < len" "\<not> it_deleted it" "len < int (it_length it)"
    | "0 < len" "\<not> it_deleted it" "int (it_length it) \<le> len"
    using Cons.prems(3) by fastforce
  then show ?case
  proof cases
    case 1
    then show ?thesis using Cons.prems by (simp add: units_units_of exI [of _ True])
  next
    case 2
    then have "hide (nat len) (item_units a it) = item_units a it"
      using hide_all [of "item_units a it" 0] it
      by (simp add: hide_all item_string_deleted)
    with 2 Cons.IH [OF d st Cons.prems(3)] it show ?thesis
      by (simp add: item_string_deleted hide_append)
  next
    case 3
    define m where "m = nat len"
    have m: "0 < m" "m < it_length it" "len = int m" using 3 by (auto simp: m_def)
    obtain s where s: "it_content it = ContentString s" using it(2) 3(2)
      by (cases "it_content it") (auto simp: item_ok_def)
    obtain b t1 l where g: "getItemCleanStart t (createID (client a) (clock a + m)) = Inr (b, t1)"
      "keeps t t1" "start t1 n = pre @ a # b # as" "heap t1 a = Some (Item l)" "it_length l = m"
      "it_deleted l = it_deleted it" "item_ok l" "units_of t1 pre = units_of t pre"
      "units_of t1 as = units_of t as"
      "cut_clean (visible (item_units a it)) m \<longrightarrow> (\<forall>n. units t1 n = units t n)"
      using split_in_list [OF d Cons.prems(2) it(1) m(1,2)] by blast
    have d1: "doc_ok t1" "\<not> it_deleted l" using g 3 by (auto simp: keeps_def)
    note del = deleteItem_spec [OF d1(1) g(4) d1(2) g(3)]
    have "delete_loop (last_opt pre) (a # as) len t = Inr (Some a, True, deleteItem t1 a l)"
      using 3 it s g m by simp
    moreover have "units (deleteItem t1 a l) n = units_of t pre @ hide m (units_of t (a # as)) \<and>
        (\<forall>m'. m' \<noteq> n \<longrightarrow> units (deleteItem t1 a l) m' = units t m')"
      if c: "cut_clean (visible (units_of t (a # as))) m"
    proof -
      have "cut_clean (visible (item_units a it)) m"
        using c m it item_string_length [OF it(2) 3(2)] by (auto intro: cut_clean_left)
      then have same: "units t1 n = units t n" for n using g by blast
      then have "struct_units t1 a @ struct_units t1 b = struct_units t a"
        using same [of n] g Cons.prems(2) by (simp add: units_units_of)
      moreover have "length (visible (struct_units t1 a)) = m"
        using g d1 by (simp add: struct_units_item visible_item item_string_length)
      ultimately have "hide m (units_of t (a # as)) = hidden (struct_units t1 a) @ struct_units t1 b @ units_of t as"
        using hide_first [of "struct_units t1 a" m "struct_units t1 b @ units_of t as"]
        by (metis append_assoc units_of_simps(2))
      then show ?thesis using del same g by (simp add: struct_units_item)
    qed
    ultimately show ?thesis using del g m by (auto simp: keeps_def)
  next
    case 4
    have len: "length (item_string it) = it_length it" by (rule item_string_length [OF it(2) 4(2)])
    obtain s where s: "it_content it = ContentString s" using it(2) 4(2)
      by (cases "it_content it") (auto simp: item_ok_def)
    define t1 where "t1 = deleteItem t a it"
    note del = deleteItem_spec [OF d it(1) 4(2) Cons.prems(2), folded t1_def]
    have st1: "start t1 n = (pre @ [a]) @ as" using del(4) st by simp
    have c: "cut_clean (visible (units_of t1 as)) (nat (len - int (it_length it)))"
      if "cut_clean (visible (units_of t (a # as))) (nat len)"
      using cut_clean_right [of "item_string it" "visible (units_of t as)" "nat len"] that 4 it len del
      by (simp add: nat_diff_distrib le_nat_iff)
    have "struct_units t1 a = hidden (item_units a it)"
      using 4 by (simp add: t1_def deleteItem_def struct_units_def hidden_item)
    moreover have "hide (nat len) (item_units a it) = hidden (item_units a it)"
      using 4 it len by (simp add: hide_all le_nat_iff)
    ultimately have h: "units_of t pre @ hide (nat len) (units_of t (a # as)) =
        units_of t1 (pre @ [a]) @ hide (nat (len - int (it_length it))) (units_of t1 as)"
      using it len del 4 by (simp add: hide_append nat_diff_distrib)
    have "delete_loop (last_opt pre) (a # as) len t
        = delete_loop (last_opt (pre @ [a])) as (len - int (it_length it)) t1"
      using 4 it s by (simp add: t1_def)
    with Cons.IH [OF del(1) st1, of "len - int (it_length it)"] 4 h c del(2,3,8) show ?thesis
      by (simp del: units_of_simps) blast
  qed
qed

section \<open>Positions and markers\<close>

text \<open>A marker names an item of the list and the index it starts at, not beyond the target.\<close>

definition marker_ok :: "'a transaction_scheme \<Rightarrow> jsstring \<Rightarrow> int \<Rightarrow> (ID \<times> int) option \<Rightarrow> bool" where
  "marker_ok t n index marker = (case marker of
     None \<Rightarrow> True
   | Some (p, mi) \<Rightarrow> p \<in> set (start t n) \<and> mi \<le> index \<and>
       mi = int (length (visible (units_of t (takeWhile (\<lambda>a. a \<noteq> p) (start t n))))))"

lemma prev_in_append: "distinct (pre @ a # post) \<Longrightarrow> prev_in a (pre @ a # post) = last_opt pre"
  using next_in_append [of a "rev post" "rev pre"]
  by (simp add: prev_in_def hd_opt_def last_opt_def split: list.splits)

lemma findPosition_spec:
  assumes d: "doc_ok t" and i: "0 \<le> index" and m: "marker_ok t n index marker"
  shows "\<exists>cur t1 pre post. findPosition marker n index t = Inr (cur, t1) \<and>
    keeps t t1 \<and> start t1 n = pre @ post \<and> p_left cur = last_opt pre \<and> p_right cur = hd_opt post \<and>
    length (visible (units_of t1 pre)) = min (nat index) (length (visible (units t n))) \<and>
    (cut_clean (visible (units t n)) (nat index) \<longrightarrow> (\<forall>m. units t1 m = units t m))"
proof (cases marker)
  case None
  obtain cur t1 pre1 post1 where f: "findNextPosition n None (start t n) 0 index t = Inr (cur, t1)"
    "keeps t t1" "start t1 n = pre1 @ post1" "p_left cur = last_opt pre1" "p_right cur = hd_opt post1"
    "int (length (visible (units_of t1 pre1))) = min index (int (length (visible (units t n))))"
    "cut_clean (visible (units t n)) (nat index) \<longrightarrow> (\<forall>m. units t1 m = units t m)"
    using findNextPosition_spec [OF d, of n "[]" "start t n" index 0] i by (auto simp: units_units_of)
  have "length (visible (units_of t1 pre1)) = min (nat index) (length (visible (units t n)))"
    using f(6) i by (auto simp: min_def nat_le_iff le_nat_iff split: if_splits)
  with f None show ?thesis by (auto simp: findPosition_def)
next
  case (Some pm)
  obtain p mi where pm: "pm = (p, mi)" by (cases pm)
  define pre where "pre = takeWhile (\<lambda>a. a \<noteq> p) (start t n)"
  define as where "as = from_on p (start t n)"
  have mk: "p \<in> set (start t n)" "mi \<le> index" "mi = int (length (visible (units_of t pre)))"
    using m Some pm by (simp_all add: marker_ok_def pre_def)
  have st: "start t n = pre @ as" by (simp add: pre_def as_def from_on_def)
  obtain post where as: "as = p # post"
    using mk(1) from_on_append unfolding as_def by (metis split_list_first)
  have left: "prev_in p (start t n) = last_opt pre"
    using prev_in_append [of pre p post] doc_okD(6) [OF d, of n] by (simp add: st as)
  have cc: "cut_clean (visible (units_of t as)) (nat (index - mi))" if "cut_clean (visible (units t n)) (nat index)"
    using cut_clean_right [of "visible (units_of t pre)" "visible (units_of t as)" "nat index"] that mk
    by (simp add: units_units_of st nat_diff_distrib le_nat_iff)
  obtain cur t1 pre1 post1 where f: "findNextPosition n (last_opt pre) as mi (index - mi) t = Inr (cur, t1)"
    "keeps t t1" "start t1 n = pre1 @ post1" "p_left cur = last_opt pre1" "p_right cur = hd_opt post1"
    "int (length (visible (units_of t1 pre1))) = int (length (visible (units_of t pre))) +
        min (index - mi) (int (length (visible (units_of t as))))"
    "cut_clean (visible (units_of t as)) (nat (index - mi)) \<longrightarrow> (\<forall>m. units t1 m = units t m)"
    using findNextPosition_spec [OF d st, of "index - mi" mi] mk by auto
  have "length (visible (units_of t1 pre1)) = min (nat index) (length (visible (units t n)))"
    using f(6) mk i
    by (auto simp: units_units_of st min_def nat_le_iff le_nat_iff split: if_splits)
  with f cc show ?thesis
    by (auto simp: findPosition_def Some pm left as_def [symmetric])
qed

section \<open>The text operations\<close>

lemma visible_split:
  assumes "us @ vs = ws" "length (visible us) = min i (length (visible ws))"
  shows "visible us = take i (visible ws)" "visible vs = drop i (visible ws)"
proof -
  have w: "visible ws = visible us @ visible vs" using assms(1) by auto
  show "visible us = take i (visible ws)" "visible vs = drop i (visible ws)"
    using assms(2) unfolding w by (auto simp: min_def split: if_splits)
qed

text \<open>\<open>us1\<close> is \<open>us0\<close> with the units \<open>new\<close> put after the first \<open>i\<close> visible ones.\<close>

definition inserted :: "unit_list \<Rightarrow> nat \<Rightarrow> unit_list \<Rightarrow> unit_list \<Rightarrow> bool" where
  "inserted us0 i new us1 = (\<exists>us vs. us0 = us @ vs \<and>
     length (visible us) = min i (length (visible us0)) \<and> us1 = us @ new @ vs)"

lemma insert_units:
  assumes d: "doc_ok t" and i: "0 \<le> index" and m: "marker_ok t n index marker" and ne: "text \<noteq> []"
  shows "\<exists>t1. ytext_insert marker n index text t = Inr t1 \<and> doc_ok t1 \<and> clientID t1 = clientID t \<and>
    (\<forall>c. getState t1 c = getState t c + (if c = clientID t then length text else 0)) \<and>
    (cut_clean (visible (units t n)) (nat index) \<longrightarrow>
      (\<forall>m. m \<noteq> n \<longrightarrow> units t1 m = units t m) \<and>
      inserted (units t n) (nat index) (new_units (clientID t) (getState t (clientID t)) text) (units t1 n))"
proof -
  obtain cur t1 pre post where f: "findPosition marker n index t = Inr (cur, t1)"
    "keeps t t1" "start t1 n = pre @ post" "p_left cur = last_opt pre" "p_right cur = hd_opt post"
    "length (visible (units_of t1 pre)) = min (nat index) (length (visible (units t n)))"
    "cut_clean (visible (units t n)) (nat index) \<longrightarrow> (\<forall>m. units t1 m = units t m)"
    using findPosition_spec [OF d i m] by blast
  have d1: "doc_ok t1" "clientID t1 = clientID t" "\<And>c. getState t1 c = getState t c"
    using f(2) by (auto simp: keeps_def)
  obtain t2 us vs where g: "insertText n cur text t1 = Inr t2" "doc_ok t2" "clientID t2 = clientID t1"
    "units t1 n = us @ vs" "length (visible us) = length (visible (units_of t1 pre))"
    "units t2 n = us @ new_units (clientID t1) (getState t1 (clientID t1)) text @ vs"
    "\<forall>m. m \<noteq> n \<longrightarrow> units t2 m = units t1 m"
    "\<forall>c. getState t2 c = getState t1 c + (if c = clientID t1 then length text else 0)"
    using insertText_spec [OF d1(1) f(3) ne f(4,5)] by blast
  have "(\<forall>m. m \<noteq> n \<longrightarrow> units t2 m = units t m) \<and>
      inserted (units t n) (nat index) (new_units (clientID t) (getState t (clientID t)) text) (units t2 n)"
    if c: "cut_clean (visible (units t n)) (nat index)"
  proof -
    have same: "units t1 m = units t m" for m using f(7) c by simp
    then have "length (visible us) = min (nat index) (length (visible (units t n)))"
      using g(5) f(6) by simp
    then show ?thesis
      unfolding inserted_def using g(4,6,7) d1 same by auto
  qed
  moreover have "ytext_insert marker n index text t = Inr t2" using f(1) g(1) ne by (simp add: ytext_insert_def)
  ultimately show ?thesis using g d1 by (intro exI [of _ t2]) auto
qed

text \<open>\<open>us1\<close> is \<open>us0\<close> with \<open>k\<close> visible units hidden after the first \<open>i\<close> visible ones.\<close>

definition removed :: "unit_list \<Rightarrow> nat \<Rightarrow> nat \<Rightarrow> unit_list \<Rightarrow> bool" where
  "removed us0 i k us1 = (\<exists>us vs. us0 = us @ vs \<and>
     length (visible us) = min i (length (visible us0)) \<and> us1 = us @ hide k vs)"

lemma visible_cut: "\<exists>us vs. us0 = us @ vs \<and> length (visible us) = min i (length (visible us0))"
proof (induction us0 arbitrary: i)
  case (Cons u us0)
  show ?case
  proof (cases "snd u")
    case None
    with Cons.IH [of i] obtain us vs where "us0 = us @ vs" "length (visible us) = min i (length (visible us0))" by auto
    with None show ?thesis by (cases u) (intro exI [of _ "u # us"] exI [of _ vs], auto)
  next
    case (Some c)
    show ?thesis
    proof (cases i)
      case 0
      show ?thesis unfolding 0 by (intro exI [of _ "[]"] exI [of _ "u # us0"]) simp
    next
      case (Suc j)
      with Cons.IH [of j] obtain us vs where "us0 = us @ vs" "length (visible us) = min j (length (visible us0))" by auto
      with Some Suc show ?thesis by (cases u) (intro exI [of _ "u # us"] exI [of _ vs], auto)
    qed
  qed
qed simp

lemma removed_0: "removed us i 0 us"
proof -
  obtain xs ys where xy: "us = xs @ ys" "length (visible xs) = min i (length (visible us))"
    using visible_cut by blast
  show ?thesis
    unfolding removed_def using xy by (intro exI [of _ xs] exI [of _ ys]) simp
qed

lemma same_shape_start: "doc_ok d \<Longrightarrow> doc_ok d' \<Longrightarrow> same_shape (units d' n) (units d n) \<Longrightarrow>
    start d n \<noteq> [] \<Longrightarrow> start d' n \<noteq> []"
proof
  assume d: "doc_ok d" and sh: "same_shape (units d' n) (units d n)" and ne: "start d n \<noteq> []" "start d' n = []"
  obtain a as where as: "start d n = a # as" using ne by (cases "start d n") auto
  then obtain it where "item_ok it" "struct_units d a = item_units a it"
    using list_item [OF d, of a n] by (metis list.set_intros(1))
  then have "units d n \<noteq> []" by (simp add: item_units_def item_ok_def units_def as)
  moreover have "units d' n = []" by (simp add: units_def ne)
  ultimately show False using sh by (simp add: same_shape_def)
qed

lemma delete_units:
  assumes d: "doc_ok t" and i: "0 \<le> index" and m: "marker_ok t n index marker" and l: "0 \<le> len"
    and ne: "start t n \<noteq> [] \<or> len = 0"
  shows "\<exists>t1. ytext_delete marker n index len t = Inr t1 \<and> doc_ok t1 \<and> clientID t1 = clientID t \<and>
    (\<forall>c. getState t1 c = getState t c) \<and>
    (cut_clean (visible (units t n)) (nat index) \<and> cut_clean (visible (units t n)) (nat (index + len)) \<longrightarrow>
      (\<forall>m. m \<noteq> n \<longrightarrow> units t1 m = units t m) \<and>
      removed (units t n) (nat index) (nat len) (units t1 n))"
proof (cases "len = 0")
  case True
  with d show ?thesis by (simp add: ytext_delete_def removed_0)
next
  case False
  obtain cur t1 pre post where f: "findPosition marker n index t = Inr (cur, t1)"
    "keeps t t1" "start t1 n = pre @ post" "p_left cur = last_opt pre" "p_right cur = hd_opt post"
    "length (visible (units_of t1 pre)) = min (nat index) (length (visible (units t n)))"
    "cut_clean (visible (units t n)) (nat index) \<longrightarrow> (\<forall>m. units t1 m = units t m)"
    using findPosition_spec [OF d i m] by blast
  have d1: "doc_ok t1" "clientID t1 = clientID t" "\<And>c. getState t1 c = getState t c"
    "same_shape (units t1 n) (units t n)" using f(2) by (auto simp: keeps_def)
  have dist: "distinct (pre @ post)" using doc_okD(6) [OF d1(1), of n] f(3) by simp
  have fo: "(case p_right cur of None \<Rightarrow> [] | Some r \<Rightarrow> from_on r (start t1 n)) = post"
    unfolding f by (rule from_on_cut [OF dist])
  obtain left rest t2 where g: "delete_loop (last_opt pre) post len t1 = Inr (left, rest, t2)" "doc_ok t2"
    "clientID t2 = clientID t1" "\<forall>c. getState t2 c = getState t1 c"
    "left = None \<and> \<not> rest \<longrightarrow> pre = [] \<and> post = []"
    "cut_clean (visible (units_of t1 post)) (nat len) \<longrightarrow>
        units t2 n = units_of t1 pre @ hide (nat len) (units_of t1 post) \<and>
        (\<forall>m. m \<noteq> n \<longrightarrow> units t2 m = units t1 m)"
    using delete_loop_spec [OF d1(1) f(3) l] by blast
  have "start t1 n \<noteq> []" using same_shape_start [OF d d1(1,4)] ne False by simp
  then have "deleteText n cur len t1 = Inr t2"
    unfolding deleteText_def fo f(4) g(1) using g(5) f(3) by auto
  then have "ytext_delete marker n index len t = Inr t2"
    using f(1) False by (simp add: ytext_delete_def)
  moreover have "(\<forall>m. m \<noteq> n \<longrightarrow> units t2 m = units t m) \<and>
      removed (units t n) (nat index) (nat len) (units t2 n)"
    if c: "cut_clean (visible (units t n)) (nat index)" "cut_clean (visible (units t n)) (nat (index + len))"
  proof -
    have same: "units t1 m = units t m" for m using f(7) c by simp
    have u: "units t n = units_of t1 pre @ units_of t1 post"
      using same [of n] f(3) by (simp add: units_units_of)
    have cc: "cut_clean (visible (units_of t1 post)) (nat len)"
    proof (rule cut_clean_shift)
      show "cut_clean (visible (units_of t1 pre) @ visible (units_of t1 post)) (nat index + nat len)"
        using c(2) i l by (simp add: u nat_add_distrib)
      show "length (visible (units_of t1 pre))
          = min (nat index) (length (visible (units_of t1 pre) @ visible (units_of t1 post)))"
        using f(6) by (simp add: u)
    qed
    have r: "units t2 n = units_of t1 pre @ hide (nat len) (units_of t1 post)" using g(6) cc by blast
    have "removed (units t n) (nat index) (nat len) (units t2 n)"
      unfolding removed_def
      by (intro exI [of _ "units_of t1 pre"] exI [of _ "units_of t1 post"] conjI u f(6) r)
    then show ?thesis using g(6) cc same by simp
  qed
  ultimately show ?thesis using g(2-4) d1 by (intro exI [of _ t2]) simp
qed

section \<open>Properties\<close>

text \<open>\<open>new Y.Doc()\<close>.\<close>

definition new_doc :: "nat \<Rightarrow> transaction" where
  "new_doc c = \<lparr>heap = (\<lambda>a. None), clocks = (\<lambda>c. []), start = (\<lambda>n. []), type_length = (\<lambda>n. 0),
     clientID = c, deleteSet = (\<lambda>c. []), mergeStructs = [], beforeState = (\<lambda>c. 0)\<rparr>"

lemma new_doc_ok: "doc_ok (new_doc c)"
  by (simp add: doc_ok_def new_doc_def ranges_of_def units_def)

lemma inserted_visible:
  assumes "inserted us0 i new us1"
  shows "visible us1 = take i (visible us0) @ visible new @ drop i (visible us0)"
proof -
  obtain us vs where uv: "us0 = us @ vs" "length (visible us) = min i (length (visible us0))"
    "us1 = us @ new @ vs" using assms unfolding inserted_def by blast
  show ?thesis using visible_split [OF uv(1) [symmetric] uv(2)] by (simp only: uv(3) map_filter_simps2(2))
qed

lemma removed_visible:
  assumes "removed us0 i k us1"
  shows "visible us1 = take i (visible us0) @ drop (i + k) (visible us0)"
proof -
  obtain us vs where uv: "us0 = us @ vs" "length (visible us) = min i (length (visible us0))"
    "us1 = us @ hide k vs" using assms unfolding removed_def by blast
  have "visible us1 = visible us @ drop k (visible vs)" by (simp add: uv(3) visible_hide)
  then show ?thesis using visible_split [OF uv(1) [symmetric] uv(2)] by (simp add: add.commute)
qed

text \<open>The name of the editor's text.\<close>

definition CONTENT :: jsstring where
  "CONTENT = js ''content''"

lemma insert_string:
  assumes "doc_ok t" "0 \<le> index" "marker_ok t n index marker"
  shows "\<exists>t1. ytext_insert marker n index text t = Inr t1 \<and> doc_ok t1 \<and>
    (cut_clean (visible (units t n)) (nat index) \<longrightarrow>
      (\<forall>m. m \<noteq> n \<longrightarrow> units t1 m = units t m) \<and>
      inserted (units t n) (nat index) (new_units (clientID t) (getState t (clientID t)) text) (units t1 n))"
proof (cases "text = []")
  case True
  have "inserted (units t n) (nat index) [] (units t n)"
    using visible_cut [of "units t n" "nat index"] by (auto simp: inserted_def)
  with True assms(1) show ?thesis by (intro exI [of _ t]) (simp add: ytext_insert_def new_units_def)
qed (use insert_units [OF assms] in blast)

lemma insert_text:
  assumes "doc_ok t" "0 \<le> index" "marker_ok t n index marker"
    "cut_clean (toString t n) (nat index)"
  shows "\<exists>t1. ytext_insert marker n index text t = Inr t1 \<and> doc_ok t1 \<and>
    toString t1 n = take (nat index) (toString t n) @ text @ drop (nat index) (toString t n) \<and>
    (\<forall>m. m \<noteq> n \<longrightarrow> toString t1 m = toString t m)"
proof -
  obtain t1 where t1: "ytext_insert marker n index text t = Inr t1" "doc_ok t1"
    "\<forall>m. m \<noteq> n \<longrightarrow> units t1 m = units t m"
    "inserted (units t n) (nat index) (new_units (clientID t) (getState t (clientID t)) text) (units t1 n)"
    using insert_string [OF assms(1-3)] assms(4) toString_units [OF assms(1)] by metis
  then show ?thesis
    using assms(1) inserted_visible [OF t1(4)]
    by (intro exI [of _ t1]) (simp add: toString_units visible_new_units)
qed

text \<open>
  C36. inserting into a text at an index that does not fall into a surrogate pair succeeds, keeps the
  document valid, and puts new units of this client, one for each code unit of the string and with its next
  clocks, behind the first characters of the text up to the index (or at the end, beyond it), whichever valid
  search marker the walk starts from. All other units of this text and of the others stay as they
  are, nothing is deleted; so the string is inserted at the index.
\<close>

theorem ytext_insert_correct:
  assumes "doc_ok t" "0 \<le> index" "marker_ok t n index marker"
    "cut_clean (toString t n) (nat index)"
  shows "\<exists>t1 us vs. ytext_insert marker n index text t = Inr t1 \<and> doc_ok t1 \<and>
    units t n = us @ vs \<and> length (visible us) = min (nat index) (length (toString t n)) \<and>
    units t1 n = us @ new_units (clientID t) (getState t (clientID t)) text @ vs \<and>
    toString t1 n = take (nat index) (toString t n) @ text @ drop (nat index) (toString t n) \<and>
    (\<forall>m. m \<noteq> n \<longrightarrow> units t1 m = units t m \<and> toString t1 m = toString t m)"
proof -
  obtain t1 where t1: "ytext_insert marker n index text t = Inr t1" "doc_ok t1"
    "\<forall>m. m \<noteq> n \<longrightarrow> units t1 m = units t m"
    "inserted (units t n) (nat index) (new_units (clientID t) (getState t (clientID t)) text) (units t1 n)"
    using insert_string [OF assms(1-3)] assms(4) toString_units [OF assms(1)] by metis
  then obtain us vs where "units t n = us @ vs" "length (visible us) = min (nat index) (length (toString t n))"
    "units t1 n = us @ new_units (clientID t) (getState t (clientID t)) text @ vs"
    using toString_units [OF assms(1)] by (auto simp: inserted_def)
  then show ?thesis
    using t1 assms(1) inserted_visible [OF t1(4)]
    by (intro exI [of _ t1] exI [of _ us] exI [of _ vs]) (simp add: toString_units visible_new_units)
qed

definition hello :: "transaction" where
  "hello = (case ytext_insert None CONTENT 0 (js ''hello'') (new_doc 7) of
     Inr t \<Rightarrow> t | Inl e \<Rightarrow> new_doc 7)"

lemma new_doc_text: "toString (new_doc c) n = []"
  by (simp add: toString_def new_doc_def)

lemma ytext_insert_correct_witness: "toString hello CONTENT = js ''hello''"
  using ytext_insert_correct [OF new_doc_ok, of 0 7 CONTENT None "js ''hello''"]
  by (auto simp: hello_def marker_ok_def new_doc_text cut_clean_def simp del: js_simps)

lemma delete_text:
  assumes "doc_ok t" "0 \<le> index" "marker_ok t n index marker" "0 \<le> len" "start t n \<noteq> []"
    "cut_clean (toString t n) (nat index)" "cut_clean (toString t n) (nat (index + len))"
  shows "\<exists>t1. ytext_delete marker n index len t = Inr t1 \<and> doc_ok t1 \<and>
    toString t1 n = take (nat index) (toString t n) @ drop (nat index + nat len) (toString t n) \<and>
    (\<forall>m. m \<noteq> n \<longrightarrow> toString t1 m = toString t m)"
proof -
  obtain t1 where t1: "ytext_delete marker n index len t = Inr t1" "doc_ok t1"
    "\<forall>m. m \<noteq> n \<longrightarrow> units t1 m = units t m"
    "removed (units t n) (nat index) (nat len) (units t1 n)"
    using delete_units [OF assms(1-4)] assms(5-7) toString_units [OF assms(1)] by metis
  then show ?thesis
    using assms(1) removed_visible [OF t1(4)] by (intro exI [of _ t1]) (simp add: toString_units)
qed

text \<open>
  C37. deleting a range from a text that is not new, neither end of it inside a surrogate pair, succeeds and
  keeps the document valid. The units of the range (as much of it as there is) stay where they are, as
  deleted ones; all other units of this text and of the others stay as they are, so the string of the range
  is removed. (Deleting from a text into which nothing was ever inserted throws.)
\<close>

theorem ytext_delete_correct:
  assumes "doc_ok t" "0 \<le> index" "marker_ok t n index marker" "0 \<le> len" "start t n \<noteq> []"
    "cut_clean (toString t n) (nat index)" "cut_clean (toString t n) (nat (index + len))"
  shows "\<exists>t1 us vs. ytext_delete marker n index len t = Inr t1 \<and> doc_ok t1 \<and>
    units t n = us @ vs \<and> length (visible us) = min (nat index) (length (toString t n)) \<and>
    units t1 n = us @ hide (nat len) vs \<and> map fst (units t1 n) = map fst (units t n) \<and>
    toString t1 n = take (nat index) (toString t n) @ drop (nat index + nat len) (toString t n) \<and>
    (\<forall>m. m \<noteq> n \<longrightarrow> units t1 m = units t m \<and> toString t1 m = toString t m)"
proof -
  obtain t1 where t1: "ytext_delete marker n index len t = Inr t1" "doc_ok t1"
    "\<forall>m. m \<noteq> n \<longrightarrow> units t1 m = units t m"
    "removed (units t n) (nat index) (nat len) (units t1 n)"
    using delete_units [OF assms(1-4)] assms(5-7) toString_units [OF assms(1)] by metis
  then obtain us vs where "units t n = us @ vs" "length (visible us) = min (nat index) (length (toString t n))"
    "units t1 n = us @ hide (nat len) vs"
    using toString_units [OF assms(1)] by (auto simp: removed_def)
  then show ?thesis
    using t1 assms(1) removed_visible [OF t1(4)]
    by (intro exI [of _ t1] exI [of _ us] exI [of _ vs]) (simp add: toString_units hide_shape)
qed

text \<open>The error branch: deleting from a text into which nothing was ever inserted throws.\<close>

lemma ytext_delete_new:
  "start t n = [] \<Longrightarrow> len \<noteq> 0 \<Longrightarrow> ytext_delete None n index len t = Inl TypeErr"
  by (simp add: ytext_delete_def findPosition_def deleteText_def)

lemma hello_ok: "doc_ok hello" "units hello CONTENT = new_units 7 0 (js ''hello'')"
    "clientID hello = 7" "getState hello 7 = 5"
proof -
  have ne: "js ''hello'' \<noteq> []" by simp
  have u: "units (new_doc 7) CONTENT = []" "clientID (new_doc 7) = 7" "getState (new_doc 7) c = 0" for c
    by (simp_all add: units_def new_doc_def getState_def)
  obtain t1 where t1: "ytext_insert None CONTENT 0 (js ''hello'') (new_doc 7) = Inr t1" "doc_ok t1"
    "clientID t1 = 7" "\<forall>c. getState t1 c = (if c = 7 then 5 else 0)"
    "inserted [] 0 (new_units 7 0 (js ''hello'')) (units t1 CONTENT)"
    using insert_units [OF new_doc_ok, of 0 7 CONTENT None "js ''hello''", OF _ _ ne]
    by (auto simp: marker_ok_def cut_clean_def u)
  then show "doc_ok hello" "units hello CONTENT = new_units 7 0 (js ''hello'')"
    "clientID hello = 7" "getState hello 7 = 5"
    by (auto simp: hello_def inserted_def)
qed

lemma hello_text: "toString hello CONTENT = js ''hello''"
  by (simp only: toString_units [OF hello_ok(1)] hello_ok(2) visible_new_units)

lemma ytext_delete_correct_witness:
  "\<exists>t1. ytext_delete None CONTENT 1 3 hello = Inr t1 \<and> toString t1 CONTENT = js ''ho''"
proof -
  have "start hello CONTENT \<noteq> []" using hello_text by (auto simp: toString_def)
  moreover have "cut_clean (js ''hello'') 1" "cut_clean (js ''hello'') 4"
    by (simp_all add: cut_clean_def isHighSurrogate_def)
  ultimately show ?thesis
    using ytext_delete_correct [OF hello_ok(1), of 1 CONTENT None 3]
    by (auto simp: marker_ok_def hello_text)
qed

end
