(* ===== verification/YRelPos.thy ===== *)
theory YRelPos
  imports YTextSpec
begin

text \<open>
  Relative positions (\<open>yjs/src/utils/RelativePosition.js\<close>, \<open>followRedone\<close> of
  \<open>structs/Item.js\<close>): from an index of a text to the ID of the character there, and back to
  wherever that character is now. \<open>followRedone\<close> follows the links an undo leaves from a deleted
  item to its copy; a cycle of links would make the code loop, so it is a partial function, and a
  call that does not return is \<open>None\<close>.
\<close>

section \<open>Definitions\<close>

record abspos =
  ap_type :: jsstring
  ap_index :: int
  ap_assoc :: jsint

definition createRelativePosition :: "jsstring \<Rightarrow> ID option \<Rightarrow> jsint \<Rightarrow> relpos" where
  "createRelativePosition n i assoc =
     \<lparr>rp_type = None, rp_tname = Some n, rp_item = i, rp_assoc = assoc\<rparr>"

fun rel_loop :: "'a doc_scheme \<Rightarrow> jsstring \<Rightarrow> jsint \<Rightarrow> ID list \<Rightarrow> nat \<Rightarrow> relpos" where
  "rel_loop d n assoc [] index = createRelativePosition n None assoc"
| "rel_loop d n assoc (a # as) index = (case heap d a of
     Some (Item it) \<Rightarrow>
       if \<not> it_deleted it \<and> isCountable (it_content it) \<and> index < it_length it
       then createRelativePosition n (Some (createID (client a) (clock a + index))) assoc
       else if as = [] \<and> jsint_val assoc < 0
       then createRelativePosition n (Some (lastId a it)) assoc
       else rel_loop d n assoc as
              (if \<not> it_deleted it \<and> isCountable (it_content it) then index - it_length it else index)
   | _ \<Rightarrow> createRelativePosition n None assoc)"

definition createRelativePositionFromTypeIndex ::
  "'a doc_scheme \<Rightarrow> jsstring \<Rightarrow> nat \<Rightarrow> jsint \<Rightarrow> relpos" where
  "createRelativePositionFromTypeIndex d n index assoc =
     (if jsint_val assoc < 0
      then (if index = 0 then createRelativePosition n None assoc
            else rel_loop d n assoc (start d n) (index - 1))
      else rel_loop d n assoc (start d n) index)"

partial_function (option) followRedone :: "'a doc_scheme \<Rightarrow> ID \<Rightarrow> nat \<Rightarrow> (ID \<times> nat) result option" where
  "followRedone d i diff =
     (let i1 = (if 0 < diff then createID (client i) (clock i + diff) else i) in
      case getItem d i1 of
        Inl e \<Rightarrow> Some (Inl e)
      | Inr a \<Rightarrow>
          (case heap d a of
             Some (Item it) \<Rightarrow>
               (case it_redone it of
                  None \<Rightarrow> Some (Inr (a, clock i1 - clock a))
                | Some r \<Rightarrow> followRedone d r (clock i1 - clock a))
           | _ \<Rightarrow> Some (Inr (a, clock i1 - clock a))))"

definition getItemWithOffset :: "'a doc_scheme \<Rightarrow> ID \<Rightarrow> (ID \<times> nat) result" where
  "getItemWithOffset d i = (case getItem d i of Inl e \<Rightarrow> Inl e | Inr a \<Rightarrow> Inr (a, clock i - clock a))"

text \<open>The lengths of the visible items to the left of \<open>a\<close>.\<close>

definition left_length :: "'a doc_scheme \<Rightarrow> jsstring \<Rightarrow> ID \<Rightarrow> nat" where
  "left_length d n a = sum_list (map (\<lambda>b. case heap d b of
     Some (Item it) \<Rightarrow> if \<not> it_deleted it \<and> isCountable (it_content it) then it_length it else 0
   | _ \<Rightarrow> 0) (takeWhile (\<lambda>b. b \<noteq> a) (start d n)))"

text \<open>The outer option is non-termination, the inner one the \<open>null\<close> of the code.\<close>

definition createAbsolutePositionFromRelativePosition ::
  "relpos \<Rightarrow> 'a doc_scheme \<Rightarrow> bool \<Rightarrow> abspos option result option" where
  "createAbsolutePositionFromRelativePosition rpos d followUndoneDeletions =
     (let assoc = rp_assoc rpos in
      case rp_item rpos of
        Some rightID \<Rightarrow>
          if getState d (client rightID) \<le> clock rightID then Some (Inr None)
          else (case (if followUndoneDeletions then followRedone d rightID 0
                      else Some (getItemWithOffset d rightID)) of
            None \<Rightarrow> None
          | Some (Inl e) \<Rightarrow> Some (Inl e)
          | Some (Inr (a, diff)) \<Rightarrow> (case heap d a of
              Some (Item right) \<Rightarrow>
                let index = (if it_deleted right \<or> \<not> isCountable (it_content right) then 0
                             else diff + (if 0 \<le> jsint_val assoc then 0 else 1))
                in Some (Inr (Some \<lparr>ap_type = it_parent right,
                      ap_index = int (index + left_length d (it_parent right) a), ap_assoc = assoc\<rparr>))
            | _ \<Rightarrow> Some (Inr None)))
      | None \<Rightarrow> (case rp_tname rpos of
          Some tname \<Rightarrow> Some (Inr (Some \<lparr>ap_type = tname,
             ap_index = (if 0 \<le> jsint_val assoc then type_length d tname else 0), ap_assoc = assoc\<rparr>))
        | None \<Rightarrow> (case rp_type rpos of
            Some typeID \<Rightarrow>
              if getState d (client typeID) \<le> clock typeID then Some (Inr None)
              else (case (if followUndoneDeletions then followRedone d typeID 0
                          else Some (getItemWithOffset d typeID)) of
                None \<Rightarrow> None
              | Some (Inl e) \<Rightarrow> Some (Inl e)
              | Some (Inr (a, diff)) \<Rightarrow> Some (Inr None))
          | None \<Rightarrow> Some (Inl UnexpectedCase))))"

section \<open>Owners of IDs\<close>

lemma getItem_holds:
  assumes d: "doc_ok d" "heap d a = Some s" and i: "client i = client a" "clock a \<le> clock i"
    "clock i < clock a + struct_length s"
  shows "getItem d i = Inr a"
proof -
  obtain j where j: "j < length (clocks d (client a))" "clocks d (client a) ! j = clock a"
    using doc_okD(2) [OF d] by (metis in_set_conv_nth)
  have "holds (ranges_of d (client a)) (clock i) j"
    using i j d(2) by (simp add: holds_def length_at_def)
  then have "findIndexSS (ranges_of d (client a)) (clock i) = Inr j"
    using findIndexSS_complete doc_okD(4) [OF d(1)] doc_ok_positive [OF d(1)] by blast
  then show ?thesis using i(1) j by (simp add: getItem_def)
qed

lemma unit_owner:
  assumes d: "doc_ok d" and u: "u \<in> set (struct_units d a)"
  shows "getItem d (fst u) = Inr a"
proof -
  obtain it where it: "heap d a = Some (Item it)" "u \<in> set (item_units a it)"
    using u by (cases "heap d a"; cases "the (heap d a)") (auto simp: struct_units_def)
  then show ?thesis
    using getItem_holds [OF d it(1), of "fst u"] by (auto simp: item_units_def)
qed

lemma distinct_units_of:
  assumes d: "doc_ok d"
  shows "distinct as \<Longrightarrow> distinct (map fst (units_of d as))"
proof (induction as)
  case (Cons a as)
  have "distinct (map fst (struct_units d a))"
    by (auto simp: struct_units_def item_units_def distinct_map comp_def inj_on_def
        split: option.splits struct.splits)
  moreover have "fst ` set (struct_units d a) \<inter> fst ` set (units_of d as) = {}"
  proof (intro equals0I, elim IntE imageE)
    fix i u v assume uv: "i = fst u" "u \<in> set (struct_units d a)" "i = fst v" "v \<in> set (units_of d as)"
    obtain b where "b \<in> set as" "v \<in> set (struct_units d b)" using uv(4) by (auto simp: units_of_def)
    then have "a = b" using unit_owner [OF d uv(2)] unit_owner [OF d, of v b] uv(1,3) by simp
    with \<open>b \<in> set as\<close> Cons.prems show False by simp
  qed
  ultimately show ?case using Cons by simp
qed simp

lemma distinct_units: "doc_ok d \<Longrightarrow> distinct (map fst (units d n))"
  unfolding units_units_of by (rule distinct_units_of) (auto dest: doc_okD(6))

section \<open>Positions in the units\<close>

definition visible_ids :: "unit_list \<Rightarrow> ID list" where
  "visible_ids us = map fst (filter (\<lambda>u. snd u \<noteq> None) us)"

text \<open>The index of the unit \<open>i\<close>: the number of visible units before it.\<close>

definition index_of :: "unit_list \<Rightarrow> ID \<Rightarrow> nat" where
  "index_of us i = length (visible (takeWhile (\<lambda>u. fst u \<noteq> i) us))"

lemma visible_ids_simps [simp]:
  "visible_ids [] = []" "visible_ids (us @ vs) = visible_ids us @ visible_ids vs"
  "visible_ids ((i, None) # us) = visible_ids us" "visible_ids ((i, Some c) # us) = i # visible_ids us"
  by (simp_all add: visible_ids_def)

lemma visible_ids_length: "length (visible_ids us) = length (visible us)"
  by (simp add: visible_ids_def visible_def List.map_filter_def)

lemma set_visible_ids: "set (visible_ids us) \<subseteq> fst ` set us"
  by (auto simp: visible_ids_def)

lemma visible_id_mem: "k < length (visible us) \<Longrightarrow> visible_ids us ! k \<in> fst ` set us"
  using nth_mem [of k "visible_ids us"] set_visible_ids [of us] visible_ids_length [of us] by auto

lemma visible_ids_index:
  "distinct (map fst us) \<Longrightarrow> k < length (visible us) \<Longrightarrow> index_of us (visible_ids us ! k) = k"
proof (induction us arbitrary: k)
  case (Cons u us)
  obtain i c where u: "u = (i, c)" by (cases u)
  show ?case
  proof (cases c)
    case None
    then have "visible_ids us ! k \<in> fst ` set us"
      using Cons.prems u nth_mem [of k "visible_ids us"] set_visible_ids [of us]
      by (auto simp: visible_ids_length)
    with Cons u None show ?thesis by (auto simp: index_of_def)
  next
    case (Some ch)
    show ?thesis
    proof (cases k)
      case 0
      with u Some show ?thesis by (simp add: index_of_def)
    next
      case (Suc j)
      then have "visible_ids us ! j \<in> fst ` set us"
        using Cons.prems u Some nth_mem [of j "visible_ids us"] set_visible_ids [of us]
        by (auto simp: visible_ids_length)
      with Cons u Some Suc show ?thesis by (auto simp: index_of_def)
    qed
  qed
qed simp

section \<open>From an index to an ID\<close>

lemma visible_ids_item:
  assumes "item_ok it"
  shows "visible_ids (item_units a it) =
    (if it_deleted it then [] else map (\<lambda>j. ID (client a) (clock a + j)) [0..<it_length it])"
proof (cases "it_deleted it")
  case True
  then show ?thesis by (simp add: visible_ids_def item_units_def)
next
  case False
  with assms obtain s where s: "it_content it = ContentString s" "it_length it = length s"
    by (cases "it_content it") (auto simp: item_ok_def)
  have "filter (\<lambda>u. snd u \<noteq> None) (item_units a it) = item_units a it"
    using False by (auto simp: item_units_def s)
  then show ?thesis using False by (simp add: visible_ids_def item_units_def comp_def)
qed

lemma rel_loop_spec:
  assumes d: "doc_ok d" and z: "0 \<le> jsint_val assoc"
  shows "(\<forall>a\<in>set as. \<exists>it. heap d a = Some (Item it)) \<Longrightarrow>
    rel_loop d n assoc as k = createRelativePosition n
      (if k < length (visible (units_of d as)) then Some (visible_ids (units_of d as) ! k) else None) assoc"
proof (induction as arbitrary: k)
  case (Cons a as)
  then obtain it where it: "heap d a = Some (Item it)" by auto
  then have ok: "item_ok it" using doc_okD(1) [OF d it] by simp
  note v = visible_ids_item [OF ok, of a] visible_item [OF ok, of a]
  show ?case
  proof (cases "it_deleted it")
    case True
    with Cons it z v show ?thesis by (simp add: struct_units_item item_string_deleted)
  next
    case False
    then have "isCountable (it_content it)" using ok by (simp add: item_ok_def)
    with Cons it z v False item_string_length [OF ok False] show ?thesis
      by (auto simp: struct_units_item nth_append createID_def)
  qed
qed simp

lemma createRelative_spec:
  assumes d: "doc_ok d" and z: "0 \<le> jsint_val assoc"
  shows "createRelativePositionFromTypeIndex d n k assoc = createRelativePosition n
      (if k < length (visible (units d n)) then Some (visible_ids (units d n) ! k) else None) assoc"
  using rel_loop_spec [OF assms, of "start d n" n k] doc_okD(7) [OF d] z
  by (force simp: createRelativePositionFromTypeIndex_def units_units_of)

section \<open>From an ID to an index\<close>

text \<open>No item of the document was undone and redone.\<close>

definition no_redone :: "'a doc_scheme \<Rightarrow> bool" where
  "no_redone d = (\<forall>a it. heap d a = Some (Item it) \<longrightarrow> it_redone it = None)"

text \<open>A copy came after what it replaces: \<open>rank\<close> counts down along the links.\<close>

definition redone_forward :: "(ID \<Rightarrow> nat) \<Rightarrow> 'a doc_scheme \<Rightarrow> bool" where
  "redone_forward rank d \<longleftrightarrow> (\<forall>a it r m. heap d a = Some (Item it) \<and> it_redone it = Some r \<and> m < it_length it \<longrightarrow>
     rank (ID (client r) (clock r + m)) < rank (ID (client a) (clock a + m)))"

lemma no_redone_forward: "no_redone d \<Longrightarrow> redone_forward rank d"
  by (auto simp: no_redone_def redone_forward_def)

lemma getItem_inside:
  assumes "doc_ok d" "getItem d i = Inr a"
  shows "client a = client i" "clock a \<le> clock i" "clock i < clock a + length_at d a"
proof -
  obtain n where n: "findIndexSS (ranges_of d (client i)) (clock i) = Inr n" "a = ID (client i) (clocks d (client i) ! n)"
    using assms(2) by (auto simp: getItem_def split: sum.splits)
  have "holds (ranges_of d (client i)) (clock i) n"
    by (rule findIndexSS_sound [OF doc_ok_positive [OF assms(1)] n(1)])
  then show "client a = client i" "clock a \<le> clock i" "clock i < clock a + length_at d a"
    by (auto simp: holds_def n(2))
qed

lemma followRedone_returns:
  assumes d: "doc_ok d" "redone_forward rank d"
  shows "\<exists>r. followRedone d i diff = Some r"
proof (induction "rank (ID (client i) (clock i + diff))" arbitrary: i diff rule: less_induct)
  case less
  let ?i = "if 0 < diff then createID (client i) (clock i + diff) else i"
  have i: "?i = ID (client i) (clock i + diff)" by (simp add: createID_def)
  show ?case
  proof (cases "\<exists>a it r. getItem d ?i = Inr a \<and> heap d a = Some (Item it) \<and> it_redone it = Some r")
    case True
    then obtain a it r where a: "getItem d ?i = Inr a" "heap d a = Some (Item it)" "it_redone it = Some r" by blast
    note g = getItem_inside [OF d(1) a(1), unfolded i ID.sel]
    let ?m = "clock i + diff - clock a"
    have "?m < it_length it" using g a(2) by (simp add: length_at_def)
    then have "rank (ID (client r) (clock r + ?m)) < rank (ID (client a) (clock a + ?m))"
      using d(2) a(2,3) unfolding redone_forward_def by blast
    then have "rank (ID (client r) (clock r + ?m)) < rank (ID (client i) (clock i + diff))" using g by simp
    from less [OF this] show ?thesis
      using a by (subst followRedone.simps) (simp add: i Let_def)
  next
    case False
    then show ?thesis
      by (subst followRedone.simps) (auto simp: Let_def split: sum.split option.split struct.split)
  qed
qed

lemma followRedone_plain:
  assumes "no_redone d"
  shows "followRedone d i 0 = Some (getItemWithOffset d i)"
  using assms unfolding no_redone_def
  by (subst followRedone.simps)
    (auto simp: getItemWithOffset_def Let_def split: sum.splits option.splits struct.splits)

lemma left_length_units:
  assumes d: "doc_ok d"
  shows "left_length d n a = length (visible (units_of d (takeWhile (\<lambda>b. b \<noteq> a) (start d n))))"
proof -
  have "(\<forall>a\<in>set as. \<exists>it. heap d a = Some (Item it)) \<Longrightarrow>
    sum_list (map (\<lambda>b. case heap d b of
      Some (Item it) \<Rightarrow> if \<not> it_deleted it \<and> isCountable (it_content it) then it_length it else 0
    | _ \<Rightarrow> 0) as) = length (visible (units_of d as))" for as
  proof (induction as)
    case (Cons b as)
    then obtain it where it: "heap d b = Some (Item it)" by auto
    then have ok: "item_ok it" using doc_okD(1) [OF d it] by simp
    with Cons it item_string_length [OF ok] show ?case
      by (cases "it_deleted it") (auto simp: struct_units_item visible_item item_string_deleted item_ok_def)
  qed simp
  then show ?thesis
    unfolding left_length_def using doc_okD(7) [OF d] by (metis (no_types, lifting) set_takeWhileD)
qed

text \<open>Inside the list, the index of a unit is what lies left of its item and its offset in it.\<close>

lemma index_of_append:
  "i \<notin> fst ` set us \<Longrightarrow> index_of (us @ vs) i = length (visible us) + index_of vs i"
  by (induction us) (auto simp: index_of_def takeWhile_append2 visible_def List.map_filter_def)

lemma index_of_left: "i \<in> fst ` set us \<Longrightarrow> index_of (us @ vs) i = index_of us i"
  by (induction us) (auto simp: index_of_def visible_def List.map_filter_def)

lemma index_of_item:
  assumes ok: "item_ok it" and j: "j < it_length it"
  shows "index_of (item_units a it) (ID (client a) (clock a + j)) = (if it_deleted it then 0 else j)"
proof -
  have "takeWhile (\<lambda>u. fst u \<noteq> ID (client a) (clock a + j)) (item_units a it) = take j (item_units a it)"
    using j by (intro takeWhile_eq_take_P_nth) (auto simp: item_units_def)
  moreover have "visible_ids (take j (item_units a it)) = (if it_deleted it then [] else take j (visible_ids (item_units a it)))"
  proof (cases "it_deleted it")
    case True
    then show ?thesis by (auto simp: visible_ids_def item_units_def filter_empty_conv dest: in_set_takeD)
  next
    case False
    then have "\<forall>u\<in>set (item_units a it). snd u \<noteq> None"
      using ok by (cases "it_content it") (auto simp: item_units_def item_ok_def)
    then have "filter (\<lambda>u. snd u \<noteq> None) (item_units a it) = item_units a it"
      "filter (\<lambda>u. snd u \<noteq> None) (take j (item_units a it)) = take j (item_units a it)"
      by (auto simp: filter_id_conv dest: in_set_takeD)
    with False show ?thesis by (simp add: visible_ids_def take_map)
  qed
  ultimately show ?thesis
    using j visible_ids_item [OF ok, of a] visible_ids_length [of "take j (item_units a it)"]
    by (cases "it_deleted it") (simp_all add: index_of_def)
qed

lemma getItem_below_state:
  assumes d: "doc_ok d" and g: "getItem d i = Inr a"
  shows "clock i < getState d (client i)"
proof -
  let ?rs = "ranges_of d (client i)" and ?l = "length (clocks d (client i)) - 1"
  obtain j where "findIndexSS ?rs (clock i) = Inr j"
    using g by (cases "findIndexSS ?rs (clock i)") (auto simp: getItem_def)
  then have h: "holds ?rs (clock i) j"
    using findIndexSS_sound [OF doc_ok_positive [OF d]] by blast
  then have ne: "clocks d (client i) \<noteq> []" by (auto simp: holds_def)
  have "clock i < fst (?rs ! ?l) + snd (?rs ! ?l)"
  proof (cases "j < ?l")
    case True
    have "fst (?rs ! j) + snd (?rs ! j) \<le> fst (?rs ! ?l)"
      by (rule contiguous_mono [OF doc_okD(4) [OF d] True]) (use ne in simp)
    moreover have "clock i < fst (?rs ! j) + snd (?rs ! j)" using h unfolding holds_def by blast
    ultimately show ?thesis by linarith
  next
    case False
    then have "j = ?l" using h by (auto simp: holds_def)
    then show ?thesis using h by (auto simp: holds_def)
  qed
  then show ?thesis
    using ne by (simp add: getState_ends ends_def last_conv_nth)
qed

lemma index_of_unit:
  assumes d: "doc_ok d" and it: "heap d a = Some (Item it)" and i: "client i = client a" "clock a \<le> clock i"
    "clock i < clock a + it_length it"
  shows "index_of (units d (it_parent it)) i =
    (if it_deleted it then 0 else clock i - clock a) + left_length d (it_parent it) a"
proof -
  let ?n = "it_parent it"
  have ok: "item_ok it" using doc_okD(1) [OF d it] by simp
  define pre where "pre = takeWhile (\<lambda>b. b \<noteq> a) (start d ?n)"
  obtain as post where sp: "start d ?n = as @ a # post" "a \<notin> set as"
    using split_list_first [OF doc_okD(8) [OF d it]] by blast
  then have "pre = as" by (auto simp: pre_def takeWhile_append2 takeWhile_tail)
  with sp have st: "start d ?n = pre @ a # post" by simp
  have u: "units d ?n = units_of d pre @ item_units a it @ units_of d post"
    by (simp add: units_units_of st struct_units_item [OF it])
  define m where "m = clock i - clock a"
  have m: "i = ID (client a) (clock a + m)" "m < it_length it"
    using i by (cases i; auto simp: m_def)+
  have inn: "i \<in> fst ` set (item_units a it)"
    using m by (auto simp: item_units_def image_iff intro!: bexI [of _ m])
  moreover have "i \<notin> fst ` set (units_of d pre)"
    using distinct_units [OF d, of ?n] inn unfolding u by auto
  ultimately have "index_of (units d ?n) i = length (visible (units_of d pre)) + index_of (item_units a it) i"
    unfolding u by (simp add: index_of_append index_of_left)
  moreover have "index_of (item_units a it) i = (if it_deleted it then 0 else m)"
    using index_of_item [OF ok m(2), of a] m(1) by simp
  ultimately show ?thesis by (simp add: left_length_units [OF d] pre_def m_def)
qed

text \<open>\<open>null\<close> for an ID the document does not have, an index for every ID of a text.\<close>

lemma createAbsolute_item:
  assumes d: "doc_ok d" "no_redone d" and i: "i \<in> fst ` set (units d n)" and z: "0 \<le> jsint_val (rp_assoc r)"
    and r: "rp_item r = Some i"
  shows "createAbsolutePositionFromRelativePosition r d True =
    Some (Inr (Some \<lparr>ap_type = n, ap_index = int (index_of (units d n) i), ap_assoc = rp_assoc r\<rparr>))"
proof -
  obtain a where a: "a \<in> set (start d n)" "i \<in> fst ` set (struct_units d a)"
    using i by (auto simp: units_def)
  obtain it where it: "heap d a = Some (Item it)" "it_parent it = n" "item_ok it"
      "struct_units d a = item_units a it"
    using list_item [OF d(1) a(1)] by metis
  have b: "client i = client a" "clock a \<le> clock i" "clock i < clock a + it_length it"
    using a(2) it by (auto simp: item_units_def)
  have g: "getItem d i = Inr a" using getItem_holds [OF d(1) it(1)] b by simp
  have "clock i < getState d (client i)" by (rule getItem_below_state [OF d(1) g])
  moreover have "it_deleted it \<or> isCountable (it_content it)" using it(3) by (simp add: item_ok_def)
  ultimately show ?thesis
    using index_of_unit [OF d(1) it(1) b] r z it g
    by (auto simp: createAbsolutePositionFromRelativePosition_def followRedone_plain [OF d(2)]
        getItemWithOffset_def Let_def)
qed

lemma createAbsolute_end:
  assumes d: "doc_ok d" and z: "0 \<le> jsint_val (rp_assoc r)" and r: "rp_item r = None" "rp_tname r = Some n"
  shows "createAbsolutePositionFromRelativePosition r d b =
    Some (Inr (Some \<lparr>ap_type = n, ap_index = int (length (visible (units d n))), ap_assoc = rp_assoc r\<rparr>))"
  using z r doc_okD(9) [OF d, of n] by (simp add: createAbsolutePositionFromRelativePosition_def Let_def)

section \<open>Edits leave no redone links\<close>

lemma spliceSplit_redone: "no_redone t \<Longrightarrow> heap t (ID c (clocks t c ! i)) = Some (Item it) \<Longrightarrow>
    no_redone (spliceSplit t c i it diff)"
  unfolding no_redone_def spliceSplit_def splitItem_def
  by (auto simp: split_beta Let_def createID_def)

lemma getItemCleanStart_redone:
  "no_redone t \<Longrightarrow> getItemCleanStart t i = Inr (b, t1) \<Longrightarrow> no_redone t1"
  by (auto simp: getItemCleanStart_def findIndexCleanStart_def Let_def spliceSplit_redone
      split: sum.splits option.splits struct.splits if_splits)

lemma findNextPosition_redone:
  "no_redone t \<Longrightarrow> findNextPosition n left as index count t = Inr (cur, t1) \<Longrightarrow> no_redone t1"
  by (induction n left as index count t rule: findNextPosition.induct)
    (auto split: if_splits option.splits struct.splits sum.splits dest: getItemCleanStart_redone)

lemma findPosition_redone: "no_redone t \<Longrightarrow> findPosition marker n index t = Inr (cur, t1) \<Longrightarrow> no_redone t1"
  by (auto simp: findPosition_def dest: findNextPosition_redone split: option.splits)

lemma deleteItem_redone: "no_redone t \<Longrightarrow> heap t a = Some (Item it) \<Longrightarrow> no_redone (deleteItem t a it)"
  by (auto simp: no_redone_def deleteItem_def)

lemma split_delete_redone:
  "no_redone t \<Longrightarrow> getItemCleanStart t i = Inr (b, t1) \<Longrightarrow> heap t1 a = Some (Item it) \<Longrightarrow>
   no_redone (deleteItem t1 a it)"
  by (rule deleteItem_redone [OF getItemCleanStart_redone])

lemma delete_loop_redone:
  "no_redone t \<Longrightarrow> delete_loop left as len t = Inr (l, rest, t1) \<Longrightarrow> no_redone t1"
  by (induction left as len t rule: delete_loop.induct)
    (auto split: if_splits option.splits struct.splits sum.splits content.splits
      intro: deleteItem_redone split_delete_redone)

lemma addStruct_redone:
  "no_redone d \<Longrightarrow> addStruct d a (Item it) = Inr d1 \<Longrightarrow> it_redone it = None \<Longrightarrow> no_redone d1"
  by (auto simp: addStruct_def no_redone_def Let_def split: if_splits)

lemma integrate_redone:
  assumes "no_redone t" "integrate this it left right t = Inr t1" "it_redone it = None"
  shows "no_redone t1"
proof -
  obtain left1 where l: "resolve_left t this it left right = Inr left1"
    using assms(2) by (auto simp: integrate_def split: sum.splits)
  define t0 where "t0 = t\<lparr>start := (start t)(it_parent it := (case left1 of None \<Rightarrow> this # start t (it_parent it)
       | Some l \<Rightarrow> insert_after l this (start t (it_parent it)))),
      type_length := (type_length t)(it_parent it := type_length t (it_parent it) +
        (if isCountable (it_content it) \<and> \<not> it_deleted it then int (it_length it) else 0))\<rparr>"
  have "no_redone t0" using assms(1) by (simp add: no_redone_def t0_def)
  obtain t2 where t2: "addStruct t0 this (Item it) = Inr t2"
    using assms(2) l by (auto simp: integrate_def Let_def t0_def split: sum.splits)
  have "no_redone t2" by (rule addStruct_redone [OF \<open>no_redone t0\<close> t2 assms(3)])
  then show ?thesis
    using assms(2,3) l t2
    by (auto simp: integrate_def Let_def t0_def [symmetric] no_redone_def split: content.splits if_splits)
qed

lemma ytext_insert_redone:
  assumes "no_redone t" "ytext_insert marker n index text t = Inr t1"
  shows "no_redone t1"
proof (cases "text = []")
  case False
  then obtain cur t0 where f: "findPosition marker n index t = Inr (cur, t0)" "insertText n cur text t0 = Inr t1"
    using assms(2) by (auto simp: ytext_insert_def split: sum.splits)
  have r: "no_redone t0" by (rule findPosition_redone [OF assms(1) f(1)])
  note g = f(2) [unfolded insertText_def Let_def split_beta]
  show ?thesis by (rule integrate_redone [OF r g]) simp
qed (use assms in \<open>simp add: ytext_insert_def\<close>)

lemma ytext_delete_redone:
  assumes "no_redone t" "ytext_delete marker n index len t = Inr t1"
  shows "no_redone t1"
proof (cases "len = 0")
  case False
  then obtain cur t0 where f: "findPosition marker n index t = Inr (cur, t0)" "deleteText n cur len t0 = Inr t1"
    using assms(2) by (auto simp: ytext_delete_def split: sum.splits)
  have r: "no_redone t0" by (rule findPosition_redone [OF assms(1) f(1)])
  obtain l rest where "delete_loop (p_left cur)
      (case p_right cur of None \<Rightarrow> [] | Some r \<Rightarrow> from_on r (start t0 n)) len t0 = Inr (l, rest, t1)"
    using f(2) by (auto simp: deleteText_def split: sum.splits if_splits)
  from delete_loop_redone [OF r this] show ?thesis .
qed (use assms in \<open>simp add: ytext_delete_def\<close>)

section \<open>Properties\<close>

lemma resolve_created:
  assumes d: "doc_ok d" "no_redone d" and k: "k \<le> length (toString d n)" and z: "0 \<le> jsint_val assoc"
  shows "createAbsolutePositionFromRelativePosition (createRelativePositionFromTypeIndex d n k assoc) d True
    = Some (Inr (Some \<lparr>ap_type = n, ap_index = int k, ap_assoc = assoc\<rparr>))"
proof (cases "k < length (visible (units d n))")
  case True
  then have "visible_ids (units d n) ! k \<in> fst ` set (units d n)"
    by (rule visible_id_mem)
  from createAbsolute_item [OF d this] visible_ids_index [OF distinct_units [OF d(1)] True] True z
  show ?thesis by (simp add: createRelative_spec [OF d(1) z] createRelativePosition_def)
next
  case False
  then have "k = length (visible (units d n))" using k toString_units [OF d(1)] by simp
  with createAbsolute_end [OF d(1)] z False show ?thesis
    by (simp add: createRelative_spec [OF d(1) z] createRelativePosition_def)
qed

text \<open>
  C38. a relative position taken at an index of a text, end included, resolves to that index.
\<close>

theorem relative_position_roundtrip:
  assumes "doc_ok d" "no_redone d" "k \<le> length (toString d n)" "0 \<le> jsint_val assoc"
  shows "createAbsolutePositionFromRelativePosition (createRelativePositionFromTypeIndex d n k assoc) d True
    = Some (Inr (Some \<lparr>ap_type = n, ap_index = int k, ap_assoc = assoc\<rparr>))"
  by (rule resolve_created [OF assms])

lemma hello_redone: "no_redone hello"
proof -
  obtain t1 where "ytext_insert None CONTENT 0 (js ''hello'') (new_doc 7) = Inr t1"
    using insert_units [OF new_doc_ok, of 0 7 CONTENT None "js ''hello''"] by (auto simp: marker_ok_def)
  then show ?thesis
    using ytext_insert_redone [of "new_doc 7" None CONTENT 0 "js ''hello''" t1]
    by (simp add: hello_def no_redone_def new_doc_def)
qed

lemma relative_position_roundtrip_witness:
  "createAbsolutePositionFromRelativePosition
     (createRelativePositionFromTypeIndex hello CONTENT 3 (JInt False 0)) hello True
   = Some (Inr (Some \<lparr>ap_type = CONTENT, ap_index = 3, ap_assoc = JInt False 0\<rparr>))"
  using relative_position_roundtrip [OF hello_ok(1) hello_redone, of 3 CONTENT "JInt False 0"]
  by (simp add: hello_text jsint_val_def)

section \<open>Stability\<close>

lemma index_of_inserted:
  assumes "inserted us0 p new us1" "distinct (map fst us1)" "k < length (visible us0)"
  shows "index_of us1 (visible_ids us0 ! k) = (if p \<le> k then k + length (visible new) else k)"
proof -
  obtain us vs where uv: "us0 = us @ vs" "length (visible us) = min p (length (visible us0))" "us1 = us @ new @ vs"
    using assms(1) unfolding inserted_def by blast
  have d0: "distinct (map fst us)" "distinct (map fst vs)" "fst ` set us \<inter> fst ` set (new @ vs) = {}"
    "fst ` set new \<inter> fst ` set vs = {}" using assms(2) unfolding uv(3) by auto
  show ?thesis
  proof (cases "p \<le> k")
    case True
    then have l: "length (visible us) = p" using uv(2) assms(3) by simp
    let ?i = "visible_ids vs ! (k - p)"
    have kp: "k - p < length (visible vs)" using assms(3) l True by (simp add: uv(1))
    have i: "visible_ids us0 ! k = ?i" using l True by (simp add: uv(1) nth_append visible_ids_length)
    have "?i \<in> fst ` set vs" by (rule visible_id_mem [OF kp])
    then have "?i \<notin> fst ` set us" "?i \<notin> fst ` set new" using d0 by auto
    then show ?thesis
      using True visible_ids_index [OF d0(2) kp] l by (simp add: uv(3) i index_of_append)
  next
    case False
    then have kl: "k < length (visible us)" using uv(2) assms(3) by simp
    let ?i = "visible_ids us ! k"
    have i: "visible_ids us0 ! k = ?i" using kl by (simp add: uv(1) nth_append visible_ids_length)
    have "?i \<in> fst ` set us" by (rule visible_id_mem [OF kl])
    then show ?thesis
      using False visible_ids_index [OF d0(1) kl] by (simp add: uv(3) i index_of_left)
  qed
qed

lemma index_of_hide:
  "index_of (hide m us) i = index_of us i - min m (index_of us i)"
proof (induction m us rule: hide.induct)
  case (2 k j us)
  then show ?case by (simp add: index_of_def)
next
  case (4 k j c us)
  then show ?case by (simp add: index_of_def)
qed (simp_all add: index_of_def)

lemma index_of_removed:
  assumes "removed us0 p m us1" "distinct (map fst us0)" "k < length (visible us0)"
  shows "index_of us1 (visible_ids us0 ! k) = (if k \<le> p then k else if p + m \<le> k then k - m else p)"
proof -
  obtain us vs where uv: "us0 = us @ vs" "length (visible us) = min p (length (visible us0))" "us1 = us @ hide m vs"
    using assms(1) unfolding removed_def by blast
  have d0: "distinct (map fst us)" "distinct (map fst vs)" "fst ` set us \<inter> fst ` set vs = {}"
    using assms(2) unfolding uv(1) by auto
  show ?thesis
  proof (cases "p \<le> k")
    case True
    then have l: "length (visible us) = p" using uv(2) assms(3) by simp
    let ?i = "visible_ids vs ! (k - p)"
    have kp: "k - p < length (visible vs)" using assms(3) l True by (simp add: uv(1))
    have i: "visible_ids us0 ! k = ?i" using l True by (simp add: uv(1) nth_append visible_ids_length)
    have "?i \<in> fst ` set vs" by (rule visible_id_mem [OF kp])
    then have "?i \<notin> fst ` set us" using d0 by auto
    then show ?thesis
      using True visible_ids_index [OF d0(2) kp] l by (auto simp: uv(3) i index_of_append index_of_hide)
  next
    case False
    then have kl: "k < length (visible us)" using uv(2) assms(3) by simp
    let ?i = "visible_ids us ! k"
    have i: "visible_ids us0 ! k = ?i" using kl by (simp add: uv(1) nth_append visible_ids_length)
    have "?i \<in> fst ` set us" by (rule visible_id_mem [OF kl])
    then show ?thesis
      using False visible_ids_index [OF d0(1) kl] by (simp add: uv(3) i index_of_left)
  qed
qed

lemma inserted_ids: "inserted us0 p new us1 \<Longrightarrow> fst ` set us0 \<subseteq> fst ` set us1"
  unfolding inserted_def by auto

lemma hide_ids: "fst ` set (hide m us) = fst ` set us"
  using hide_shape [of m us] by (metis image_set)

lemma removed_ids: "removed us0 p m us1 \<Longrightarrow> fst ` set us0 \<subseteq> fst ` set us1"
  unfolding removed_def by (elim exE conjE) (simp only: set_append image_Un hide_ids order.refl)

lemma resolve_moved:
  assumes d: "doc_ok d" and d1: "doc_ok d1" "no_redone d1" and z: "0 \<le> jsint_val assoc"
    and ids: "fst ` set (units d n) \<subseteq> fst ` set (units d1 n)"
  shows "createAbsolutePositionFromRelativePosition (createRelativePositionFromTypeIndex d n k assoc) d1 True
    = Some (Inr (Some \<lparr>ap_type = n, ap_index = int (if k < length (toString d n)
         then index_of (units d1 n) (visible_ids (units d n) ! k) else length (toString d1 n)),
        ap_assoc = assoc\<rparr>))"
proof (cases "k < length (toString d n)")
  case True
  then have kl: "k < length (visible (units d n))" by (simp add: toString_units [OF d])
  then have "visible_ids (units d n) ! k \<in> fst ` set (units d1 n)"
    using visible_id_mem [OF kl] ids by blast
  from createAbsolute_item [OF d1 this] z kl True show ?thesis
    by (simp add: createRelative_spec [OF d z] createRelativePosition_def)
next
  case False
  with createAbsolute_end [OF d1(1)] z show ?thesis
    by (simp add: createRelative_spec [OF d z] createRelativePosition_def toString_units [OF d]
        toString_units [OF d1(1)])
qed

lemma resolve_after_insert:
  assumes "doc_ok t" "no_redone t" "k \<le> length (toString t n)" "p \<le> length (toString t n)"
    "marker_ok t n (int p) marker" "cut_clean (toString t n) p" "ytext_insert marker n (int p) text t = Inr t1"
  shows "createAbsolutePositionFromRelativePosition
      (createRelativePositionFromTypeIndex t n k (JInt False 0)) t1 True
    = Some (Inr (Some \<lparr>ap_type = n, ap_index = int (if p \<le> k then k + length text else k),
        ap_assoc = JInt False 0\<rparr>))"
proof (cases "text = []")
  case True
  then have "t1 = t" using assms(7) by (simp add: ytext_insert_def)
  with True resolve_created [OF assms(1,2), of k n "JInt False 0"] assms(3) show ?thesis
    by (simp add: jsint_val_def)
next
  case False
  have "doc_ok t1 \<and> inserted (units t n) p (new_units (clientID t) (getState t (clientID t)) text) (units t1 n)"
    using insert_units [OF assms(1) _ assms(5) False] assms(6,7) toString_units [OF assms(1)] by auto
  then have t1: "doc_ok t1"
    "inserted (units t n) p (new_units (clientID t) (getState t (clientID t)) text) (units t1 n)" by auto
  have len: "length (toString t1 n) = length (toString t n) + length text"
    using inserted_visible [OF t1(2)] assms(4)
    by (simp add: toString_units [OF assms(1)] toString_units [OF t1(1)] visible_new_units)
  have z: "0 \<le> jsint_val (JInt False 0)" by (simp add: jsint_val_def)
  note m = resolve_moved [OF assms(1) t1(1) ytext_insert_redone [OF assms(2,7)] z inserted_ids [OF t1(2)], of k]
  show ?thesis
  proof (cases "k < length (toString t n)")
    case True
    then have "k < length (visible (units t n))" by (simp add: toString_units [OF assms(1)])
    from index_of_inserted [OF t1(2) distinct_units [OF t1(1)] this] m True
    show ?thesis by (simp add: visible_new_units)
  next
    case False
    with m len assms(3,4) show ?thesis by simp
  qed
qed

text \<open>
  A relative position moves like the character it names (or the end of the text): after text is
  inserted at or before it it is further by the length of the text, after an insertion behind it
  it is where it was.
\<close>

theorem relative_position_insert:
  assumes "doc_ok t" "no_redone t" "k \<le> length (toString t n)" "p \<le> length (toString t n)"
    "marker_ok t n (int p) marker" "cut_clean (toString t n) p" "ytext_insert marker n (int p) text t = Inr t1"
  shows "createAbsolutePositionFromRelativePosition
      (createRelativePositionFromTypeIndex t n k (JInt False 0)) t1 True
    = Some (Inr (Some \<lparr>ap_type = n, ap_index = int (if p \<le> k then k + length text else k),
        ap_assoc = JInt False 0\<rparr>))"
  by (rule resolve_after_insert [OF assms])

text \<open>
  After a deletion a relative position before the range stays, one behind it moves back by the
  length of the range, and one inside it collapses to where the range began.
\<close>

theorem relative_position_delete:
  assumes "doc_ok t" "no_redone t" "k \<le> length (toString t n)" "p + m \<le> length (toString t n)"
    "marker_ok t n (int p) marker" "cut_clean (toString t n) p" "cut_clean (toString t n) (p + m)"
    "start t n \<noteq> []" "ytext_delete marker n (int p) (int m) t = Inr t1"
  shows "createAbsolutePositionFromRelativePosition
      (createRelativePositionFromTypeIndex t n k (JInt False 0)) t1 True
    = Some (Inr (Some \<lparr>ap_type = n, ap_index = int (if k \<le> p then k else if p + m \<le> k then k - m else p),
        ap_assoc = JInt False 0\<rparr>))"
proof -
  have "doc_ok t1 \<and> removed (units t n) p m (units t1 n)"
    using delete_units [OF assms(1) _ assms(5), of "int m"] assms(6-9) toString_units [OF assms(1)]
    by (auto simp: nat_int_add)
  then have t1: "doc_ok t1" "removed (units t n) p m (units t1 n)" by auto
  have len: "length (toString t1 n) = length (toString t n) - m"
    using removed_visible [OF t1(2)] assms(4)
    by (simp add: toString_units [OF assms(1)] toString_units [OF t1(1)])
  have z: "0 \<le> jsint_val (JInt False 0)" by (simp add: jsint_val_def)
  note mv = resolve_moved [OF assms(1) t1(1) ytext_delete_redone [OF assms(2,9)] z removed_ids [OF t1(2)], of k]
  show ?thesis
  proof (cases "k < length (toString t n)")
    case True
    then have "k < length (visible (units t n))" by (simp add: toString_units [OF assms(1)])
    from index_of_removed [OF t1(2) distinct_units [OF assms(1)] this] mv True
    show ?thesis by simp
  next
    case False
    with mv len assms(3,4) show ?thesis by auto
  qed
qed

lemma hello_clean: "cut_clean (toString hello CONTENT) k"
proof (cases "k - 1 < 5 \<and> 0 < k \<and> k < 5")
  case True
  then have "k = 1 \<or> k = 2 \<or> k = 3 \<or> k = 4" by auto
  then show ?thesis by (auto simp: cut_clean_def isHighSurrogate_def hello_text)
qed (auto simp: cut_clean_def hello_text)

lemma hello_length: "length (toString hello CONTENT) = 5"
  by (simp add: hello_text)

lemma relative_position_insert_witness:
  "\<exists>t1. ytext_insert None CONTENT 2 (js ''ab'') hello = Inr t1 \<and>
     createAbsolutePositionFromRelativePosition
       (createRelativePositionFromTypeIndex hello CONTENT 3 (JInt False 0)) t1 True
     = Some (Inr (Some \<lparr>ap_type = CONTENT, ap_index = 5, ap_assoc = JInt False 0\<rparr>))"
proof -
  obtain t1 where "ytext_insert None CONTENT 2 (js ''ab'') hello = Inr t1"
    using insert_units [OF hello_ok(1), of 2 CONTENT None "js ''ab''"] by (auto simp: marker_ok_def)
  with relative_position_insert [OF hello_ok(1) hello_redone, of 3 CONTENT 2 None "js ''ab''"]
  show ?thesis by (auto simp: hello_clean marker_ok_def hello_length)
qed

lemma relative_position_delete_witness:
  "\<exists>t1. ytext_delete None CONTENT 1 3 hello = Inr t1 \<and>
     createAbsolutePositionFromRelativePosition
       (createRelativePositionFromTypeIndex hello CONTENT 2 (JInt False 0)) t1 True
     = Some (Inr (Some \<lparr>ap_type = CONTENT, ap_index = 1, ap_assoc = JInt False 0\<rparr>))"
proof -
  have "start hello CONTENT \<noteq> []" using hello_text by (auto simp: toString_def)
  moreover from this obtain t1 where "ytext_delete None CONTENT 1 3 hello = Inr t1"
    using delete_units [OF hello_ok(1), of 1 CONTENT None 3] by (auto simp: marker_ok_def)
  ultimately show ?thesis
    using relative_position_delete [OF hello_ok(1) hello_redone, of 2 CONTENT 1 3 None]
    by (auto simp: hello_clean marker_ok_def hello_length)
qed

end
