(* ===== verification/PositionUtils.thy ===== *)
theory PositionUtils
  imports YRelPos
begin

text \<open>
  The positions of a proposal (\<open>frontend/src/positionUtils.js\<close>): a range of the text is sent as
  two base64 strings of encoded relative positions, resolved again by every client, and compared
  with the text the proposer saw. \<open>resolveRange\<close> catches every exception; its result is \<open>None\<close>
  where the code would not return, \<open>Some None\<close> for \<open>null\<close>.
\<close>

section \<open>Definitions\<close>

definition toBase64 :: "byte list \<Rightarrow> jsstring result" where
  "toBase64 bytes = btoa (map (\<lambda>b. of_nat (unat b)) bytes)"

text \<open>\<open>Uint8Array.from\<close> keeps the low eight bits of a character code.\<close>

definition fromBase64 :: "jsstring \<Rightarrow> byte list result" where
  "fromBase64 b64 = (case atob b64 of
     Inl e \<Rightarrow> Inl e | Inr s \<Rightarrow> Inr (map (\<lambda>c. of_nat (unat c)) s))"

definition encodeRange :: "'a doc_scheme \<Rightarrow> jsstring \<Rightarrow> nat \<Rightarrow> nat \<Rightarrow> (jsstring \<times> jsstring) result" where
  "encodeRange d ytext from to =
     (let relStart = createRelativePositionFromTypeIndex d ytext from (JInt False 0);
          relEnd = createRelativePositionFromTypeIndex d ytext to (JInt False 0)
      in case encodeRelativePosition relStart of
        Inl e \<Rightarrow> Inl e
      | Inr bs \<Rightarrow> (case toBase64 bs of
          Inl e \<Rightarrow> Inl e
        | Inr s \<Rightarrow> (case encodeRelativePosition relEnd of
            Inl e \<Rightarrow> Inl e
          | Inr be \<Rightarrow> (case toBase64 be of Inl e \<Rightarrow> Inl e | Inr t \<Rightarrow> Inr (s, t)))))"

definition decode_base64_position :: "jsstring \<Rightarrow> relpos result" where
  "decode_base64_position b64 = (case fromBase64 b64 of
     Inl e \<Rightarrow> Inl e | Inr bs \<Rightarrow> decodeRelativePosition bs)"

definition resolveRange :: "'a doc_scheme \<Rightarrow> jsstring \<Rightarrow> jsstring \<Rightarrow> (int \<times> int) option option" where
  "resolveRange d relStartB64 relEndB64 =
     (case decode_base64_position relStartB64 of
        Inl e \<Rightarrow> Some None
      | Inr relStart \<Rightarrow> (case decode_base64_position relEndB64 of
          Inl e \<Rightarrow> Some None
        | Inr relEnd \<Rightarrow> (case createAbsolutePositionFromRelativePosition relStart d True of
            None \<Rightarrow> None
          | Some (Inl e) \<Rightarrow> Some None
          | Some (Inr absStart) \<Rightarrow> (case createAbsolutePositionFromRelativePosition relEnd d True of
              None \<Rightarrow> None
            | Some (Inl e) \<Rightarrow> Some None
            | Some (Inr absEnd) \<Rightarrow> (case (absStart, absEnd) of
                (Some a, Some b) \<Rightarrow> Some (Some (ap_index a, ap_index b))
              | _ \<Rightarrow> Some None)))))"

text \<open>\<open>String.prototype.slice\<close>.\<close>

definition js_slice :: "jsstring \<Rightarrow> int \<Rightarrow> int \<Rightarrow> jsstring" where
  "js_slice s a b =
     (let len = int (length s);
          from = nat (if a < 0 then max (len + a) 0 else min a len);
          to = nat (if b < 0 then max (len + b) 0 else min b len)
      in take (to - from) (drop from s))"

text \<open>A proposal as a client holds it. A field that is missing is the empty string, which the code
  treats alike; the indices of a proposal without positions may be \<open>undefined\<close>.\<close>

record proposal =
  prop_id :: jsstring
  prop_author :: jsstring
  replacement :: jsstring
  originalText :: jsstring
  relStart :: jsstring
  relEnd :: jsstring
  startLine :: int
  endLine :: int
  startIndex :: "int option"
  endIndex :: "int option"

definition isStale :: "proposal \<Rightarrow> 'a doc_scheme \<Rightarrow> bool option" where
  "isStale p d =
     (if relStart p = [] \<or> relEnd p = [] then Some False
      else case resolveRange d (relStart p) (relEnd p) of
        None \<Rightarrow> None
      | Some None \<Rightarrow> Some True
      | Some (Some (s, e)) \<Rightarrow>
          if originalText p = [] then Some False
          else Some (js_slice (toString d CONTENT) s e \<noteq> originalText p))"

section \<open>Base64\<close>

lemma char_of_byte: "unat (of_nat (unat (b :: byte)) :: jschar) = unat b"
  unfolding unat_of_nat16 by (rule mod_less) (rule less_trans [OF unat_byte_lt], simp)

lemma map_unat_chars: "map unat (map (\<lambda>b. of_nat (unat (b :: byte)) :: jschar) bs) = map unat bs"
  unfolding map_map comp_def char_of_byte ..

lemma map_byte_chars:
  "map (\<lambda>c. of_nat (unat c) :: byte) (map (\<lambda>n. of_nat n :: jschar) (map unat (bs :: byte list))) = bs"
  unfolding map_map comp_def char_of_byte by (simp add: map_idI)

lemma fromBase64_toBase64: "\<exists>s. toBase64 bs = Inr s \<and> fromBase64 s = Inr bs"
proof -
  have lt: "\<forall>x\<in>set (map unat bs). x < 256" by auto
  have "\<not> 255 < unat (of_nat (unat (b :: byte)) :: jschar)" for b
    unfolding char_of_byte using unat_byte_lt [of b] by linarith
  then have "toBase64 bs = Inr (b64_encode (map unat bs))"
    unfolding toBase64_def btoa_def map_unat_chars by (simp add: image_iff del: of_nat_unat)
  moreover have "fromBase64 (b64_encode (map unat bs)) = Inr bs"
    unfolding fromBase64_def atob_b64_encode [OF lt] sum.case map_byte_chars ..
  ultimately show ?thesis by blast
qed

lemma b64_encode_ne: "bs \<noteq> [] \<Longrightarrow> b64_encode bs \<noteq> []"
  by (induction bs rule: b64_encode.induct) auto

lemma toBase64_ne: "toBase64 bs = Inr s \<Longrightarrow> bs \<noteq> [] \<Longrightarrow> s \<noteq> []"
  by (auto simp: toBase64_def btoa_def b64_encode_ne split: if_splits)

section \<open>Encoded positions\<close>

text \<open>The identifiers of a document that fit into the encoding.\<close>

definition ids_safe :: "'a doc_scheme \<Rightarrow> jsstring \<Rightarrow> bool" where
  "ids_safe d n = (string_ok n \<and> (\<forall>u\<in>set (units d n). id_ok (fst u)))"

lemma created_ok:
  assumes d: "doc_ok d" and s: "ids_safe d n"
  shows "relpos_ok (createRelativePositionFromTypeIndex d n k (JInt False 0))"
  using s visible_id_mem [of k "units d n"] unfolding ids_safe_def
  by (fastforce simp: createRelative_spec [OF d, of "JInt False 0", unfolded jsint_val_def, simplified]
      createRelativePosition_def relpos_ok_def)

text \<open>Resolving does not look at the fields the encoding drops.\<close>

lemma resolve_normal:
  "createAbsolutePositionFromRelativePosition (rp_normal r) d b =
   createAbsolutePositionFromRelativePosition r d b"
  by (cases "rp_item r"; cases "rp_tname r")
    (simp_all add: createAbsolutePositionFromRelativePosition_def rp_normal_def cong: option.case_cong)

lemma encoded_position:
  assumes "relpos_ok r"
  shows "\<exists>bs s. encodeRelativePosition r = Inr bs \<and> toBase64 bs = Inr s \<and> s \<noteq> [] \<and>
    decode_base64_position s = Inr (rp_normal r)"
proof -
  obtain bs where bs: "encodeRelativePosition r = Inr bs" "decodeRelativePosition bs = Inr (rp_normal r)"
    using decode_encode_relpos [OF assms] by blast
  obtain s where s: "toBase64 bs = Inr s" "fromBase64 s = Inr bs" using fromBase64_toBase64 by blast
  have "bs \<noteq> []"
  proof
    assume "bs = []"
    then show False using bs(2)
      by (simp add: decodeRelativePosition_def readRelativePosition_def readVarUint_def createDecoder_def
          read_var_loop.simps split: sum.splits)
  qed
  then show ?thesis using bs s toBase64_ne [OF s(1)] by (simp add: decode_base64_position_def)
qed

section \<open>Properties\<close>

lemma encodeRange_resolves:
  assumes d: "doc_ok d" "no_redone d" "ids_safe d n"
    and k: "from \<le> length (toString d n)" "to \<le> length (toString d n)"
  shows "\<exists>a b. encodeRange d n from to = Inr (a, b) \<and> a \<noteq> [] \<and> b \<noteq> [] \<and>
    resolveRange d a b = Some (Some (int from, int to))"
proof -
  let ?r = "\<lambda>k. createRelativePositionFromTypeIndex d n k (JInt False 0)"
  obtain bs s where s: "encodeRelativePosition (?r from) = Inr bs" "toBase64 bs = Inr s" "s \<noteq> []"
    "decode_base64_position s = Inr (rp_normal (?r from))"
    using encoded_position [OF created_ok [OF d(1,3)]] by blast
  obtain be e where e: "encodeRelativePosition (?r to) = Inr be" "toBase64 be = Inr e" "e \<noteq> []"
    "decode_base64_position e = Inr (rp_normal (?r to))"
    using encoded_position [OF created_ok [OF d(1,3)]] by blast
  have z: "0 \<le> jsint_val (JInt False 0)" by (simp add: jsint_val_def)
  show ?thesis
    using s e resolve_created [OF d(1,2) k(1) z] resolve_created [OF d(1,2) k(2) z]
    by (intro exI [of _ s] exI [of _ e]) (simp add: encodeRange_def resolveRange_def resolve_normal)
qed

text \<open>
  A range of the text, sent through base64 and the binary encoding of relative positions,
  resolves to itself in the same document.
\<close>

theorem range_roundtrip:
  assumes "doc_ok d" "no_redone d" "ids_safe d n" "from \<le> length (toString d n)" "to \<le> length (toString d n)"
  shows "\<exists>a b. encodeRange d n from to = Inr (a, b) \<and> resolveRange d a b = Some (Some (int from, int to))"
  using encodeRange_resolves [OF assms] by blast

lemma hello_safe: "ids_safe hello CONTENT"
proof -
  have "id_ok (ID 7 j)" if "j < 5" for j using that by (simp add: id_ok_def MAX_SAFE_INTEGER_def)
  then show ?thesis
    unfolding ids_safe_def hello_ok(2) by (auto simp: new_units_def CONTENT_def string_ok_js simp del: js_simps(1,2))
qed

lemma range_roundtrip_witness:
  "\<exists>a b. encodeRange hello CONTENT 1 4 = Inr (a, b) \<and> resolveRange hello a b = Some (Some (1, 4))"
  using range_roundtrip [OF hello_ok(1) hello_redone hello_safe, of 1 4] by (simp add: hello_text)

lemma js_slice_nat: "js_slice s (int a) (int b) = take (min b (length s) - min a (length s)) (drop (min a (length s)) s)"
  by (simp add: js_slice_def Let_def flip: of_nat_min)

text \<open>The proposal that \<open>submitProposal\<close> sends for a selection.\<close>

definition selected_proposal :: "'a doc_scheme \<Rightarrow> nat \<Rightarrow> nat \<Rightarrow> jsstring \<Rightarrow> jsstring \<Rightarrow> proposal option" where
  "selected_proposal d from to i repl = (case encodeRange d CONTENT from to of
     Inl e \<Rightarrow> None
   | Inr (a, b) \<Rightarrow> Some \<lparr>prop_id = i, prop_author = [], replacement = repl,
       originalText = js_slice (toString d CONTENT) (int from) (int to), relStart = a, relEnd = b,
       startLine = 0, endLine = 0, startIndex = None, endIndex = None\<rparr>)"

text \<open>
  A proposal made for a selection is not stale in the document it was made in.
\<close>

lemma new_proposal_not_stale:
  assumes "doc_ok d" "no_redone d" "ids_safe d CONTENT"
    "from \<le> length (toString d CONTENT)" "to \<le> length (toString d CONTENT)"
  shows "\<exists>p. selected_proposal d from to i repl = Some p \<and> isStale p d = Some False"
  using encodeRange_resolves [OF assms] by (auto simp: selected_proposal_def isStale_def)

lemma new_proposal_not_stale_witness:
  "\<exists>p. selected_proposal hello 1 4 (js ''p1'') (js ''owdy'') = Some p \<and> isStale p hello = Some False"
  using new_proposal_not_stale [OF hello_ok(1) hello_redone hello_safe, of 1 4] by (simp add: hello_text)

lemma slice_after_insert:
  assumes "from < to" "to \<le> length s" "p \<le> length s" "text \<noteq> []"
  defines "mv \<equiv> \<lambda>k. int (if p \<le> k then k + length text else k)"
  shows "js_slice (take p s @ text @ drop p s) (mv from) (mv to) = js_slice s (int from) (int to)
    \<longleftrightarrow> p \<le> from \<or> to < p"
proof -
  define s1 where "s1 = take p s @ text @ drop p s"
  have l1: "length s1 = length s + length text" using assms(3) by (simp add: s1_def)
  consider "p \<le> from" | "to < p" | "from < p" "p \<le> to" by linarith
  then have "js_slice s1 (mv from) (mv to) = js_slice s (int from) (int to) \<longleftrightarrow> p \<le> from \<or> to < p"
  proof cases
    case 1
    then have "mv from = int (from + length text)" "mv to = int (to + length text)"
      using assms(1) by (auto simp: mv_def)
    moreover have "drop (from + length text) s1 = drop from s"
      using 1 assms(3) by (simp add: s1_def)
    ultimately show ?thesis using 1 assms(1,2) by (simp only: js_slice_nat l1) (simp add: min_def)
  next
    case 2
    then have "mv from = int from" "mv to = int to" using assms(1) by (auto simp: mv_def)
    moreover have "take (to - from) (drop from s1) = take (to - from) (drop from s)"
      using 2 assms(1,3) by (simp add: s1_def drop_take)
    ultimately show ?thesis using 2 assms(1-3) by (simp only: js_slice_nat l1) (simp add: min_def)
  next
    case 3
    then have "mv from = int from" "mv to = int (to + length text)" by (auto simp: mv_def)
    then have "length (js_slice s1 (mv from) (mv to)) = to + length text - from"
      using assms(1,2) by (simp only: js_slice_nat l1) (auto simp: l1 min_def)
    moreover have "length (js_slice s (int from) (int to)) = to - from"
      using assms(1,2) by (simp only: js_slice_nat) (auto simp: min_def)
    moreover have "0 < length text" using assms(4) by simp
    ultimately have "length (js_slice s1 (mv from) (mv to)) \<noteq> length (js_slice s (int from) (int to))"
      using assms(1) by linarith
    then have "js_slice s1 (mv from) (mv to) \<noteq> js_slice s (int from) (int to)" by (metis (no_types))
    with 3 show ?thesis by simp
  qed
  then show ?thesis by (simp only: s1_def)
qed

text \<open>
  C39. a pending proposal for a range of the text survives an insertion in front of the range or
  behind it, and is stale exactly after an insertion inside it or right at its end.
\<close>

theorem proposal_stale_after_insert:
  assumes "doc_ok t" "no_redone t" "ids_safe t CONTENT" "from < to" "to \<le> length (toString t CONTENT)"
    "p \<le> length (toString t CONTENT)" "text \<noteq> []" "marker_ok t CONTENT (int p) marker"
    "cut_clean (toString t CONTENT) p" "ytext_insert marker CONTENT (int p) text t = Inr t1"
    "selected_proposal t from to i repl = Some pr"
  shows "isStale pr t1 = Some (from < p \<and> p \<le> to)"
proof -
  let ?r = "\<lambda>k. createRelativePositionFromTypeIndex t CONTENT k (JInt False 0)"
  obtain bs s where s: "encodeRelativePosition (?r from) = Inr bs" "toBase64 bs = Inr s" "s \<noteq> []"
    "decode_base64_position s = Inr (rp_normal (?r from))"
    using encoded_position [OF created_ok [OF assms(1,3)]] by blast
  obtain be e where e: "encodeRelativePosition (?r to) = Inr be" "toBase64 be = Inr e" "e \<noteq> []"
    "decode_base64_position e = Inr (rp_normal (?r to))"
    using encoded_position [OF created_ok [OF assms(1,3)]] by blast
  have p: "relStart pr = s" "relEnd pr = e"
    "originalText pr = js_slice (toString t CONTENT) (int from) (int to)"
    using assms(11) s e by (auto simp: selected_proposal_def encodeRange_def)
  have fl: "from \<le> length (toString t CONTENT)" using assms(4,5) by simp
  note mv = resolve_after_insert [OF assms(1,2) _ assms(6,8,9,10)]
  have r: "resolveRange t1 s e = Some (Some (int (if p \<le> from then from + length text else from),
      int (if p \<le> to then to + length text else to)))"
    using s(4) e(4) mv [OF fl] mv [OF assms(5)] by (simp add: resolveRange_def resolve_normal)
  have ne: "js_slice (toString t CONTENT) (int from) (int to) \<noteq> []"
    using assms(4,5) by (simp add: js_slice_nat)
  have "toString t1 CONTENT = take p (toString t CONTENT) @ text @ drop p (toString t CONTENT)"
    using insert_text [OF assms(1) _ assms(8), of "text"] assms(9,10) by auto
  with r p s(3) e(3) ne slice_after_insert [OF assms(4,5,6,7)] show ?thesis
    by (auto simp: isStale_def)
qed

lemma proposal_stale_after_insert_witness:
  "\<exists>t1 pr. ytext_insert None CONTENT 2 (js ''ab'') hello = Inr t1 \<and>
     selected_proposal hello 3 5 (js ''p1'') (js ''LO'') = Some pr \<and> isStale pr t1 = Some False"
proof -
  obtain t1 where t1: "ytext_insert None CONTENT 2 (js ''ab'') hello = Inr t1"
    using insert_units [OF hello_ok(1), of 2 CONTENT None "js ''ab''"] by (auto simp: marker_ok_def)
  obtain pr where "selected_proposal hello 3 5 (js ''p1'') (js ''LO'') = Some pr"
    using encodeRange_resolves [OF hello_ok(1) hello_redone hello_safe, of 3 5]
    by (auto simp: selected_proposal_def hello_length)
  with t1 proposal_stale_after_insert [OF hello_ok(1) hello_redone hello_safe, of 3 5 2 "js ''ab''" None]
  show ?thesis by (auto simp: hello_clean hello_length marker_ok_def)
qed

end
