(* ===== verification/YTransactionSpec.thy ===== *)
theory YTransactionSpec
  imports YTransaction
begin

text \<open>
  The clean-up of a transaction leaves every text as it is: collecting and merging change the heap,
  the arrays and the lists, but not the units they stand for.
\<close>

section \<open>What a clean-up step keeps\<close>

definition same_text :: "'a transaction_scheme \<Rightarrow> 'a transaction_scheme \<Rightarrow> bool" where
  "same_text t t' = (doc_ok t' \<and> (\<forall>n. units t' n = units t n) \<and> (\<forall>c. getState t' c = getState t c) \<and>
     clientID t' = clientID t \<and> deleteSet t' = deleteSet t \<and> mergeStructs t' = mergeStructs t \<and>
     beforeState t' = beforeState t \<and> (no_redone t \<longrightarrow> no_redone t'))"

lemma same_text_refl: "doc_ok t \<Longrightarrow> same_text t t"
  by (simp add: same_text_def)

lemma same_text_trans: "same_text t t' \<Longrightarrow> same_text t' t'' \<Longrightarrow> same_text t t''"
  by (simp add: same_text_def)

section \<open>Collecting deleted content\<close>

lemma gc_item_same:
  assumes d: "doc_ok t" "heap t a = Some (Item it)" and del: "it_deleted it"
  shows "same_text t (gc_item t a it)"
proof -
  let ?it = "it\<lparr>it_content := ContentDeleted (it_length it)\<rparr>"
  have ok: "item_ok it" using doc_okD(1) [OF d] by simp
  have u: "item_units a ?it = item_units a it" using del by (simp add: item_units_def)
  have f: "heap (gc_item t a it) = (heap t)(a \<mapsto> Item ?it)" "clocks (gc_item t a it) = clocks t"
    "start (gc_item t a it) = start t"
    "type_length (gc_item t a it) = (type_length t)(it_parent it := type_length t (it_parent it) +
       int (length (item_string ?it)) - int (length (item_string it)))"
    using del by (simp_all add: gc_item_def item_string_deleted)
  note r = replace_item_ok [OF d _ _ _ f]
  have ok': "item_ok ?it" using ok del by (simp add: item_ok_def)
  have "units (gc_item t a it) n = units t n" for n
  proof (cases "n = it_parent it")
    case True
    then obtain pre post where st: "start t n = pre @ a # post"
      using doc_okD(8) [OF d] by (metis split_list)
    with r(3) [OF ok' _ _ st] u show ?thesis
      by (simp add: units_units_of [of t] struct_units_item [OF d(2)])
  next
    case False
    then show ?thesis using r(4) [OF ok'] by simp
  qed
  moreover have "no_redone t \<longrightarrow> no_redone (gc_item t a it)"
    using d(2) by (auto simp: no_redone_def gc_item_def)
  ultimately show ?thesis
    using r(1,2) [OF ok'] by (simp add: same_text_def gc_item_def)
qed

lemma gc_range_same: "doc_ok t \<Longrightarrow> same_text t (gc_range t c si e)"
proof (induction t c si e rule: gc_range.induct)
  case (1 t c si e)
  note d = 1(5)
  show ?case
  proof (cases "length (clocks t c) \<le> si \<or> e \<le> clocks t c ! si")
    case True
    then show ?thesis using d by (subst gc_range.simps) (simp add: same_text_refl)
  next
    case False
    let ?a = "ID c (clocks t c ! si)"
    obtain s where s: "heap t ?a = Some s"
      using doc_okD(3) [OF d, of "clocks t c ! si" c] False by auto
    show ?thesis
    proof (cases s)
      case (GC n)
      then show ?thesis using 1(1) [OF False refl] 1(2) [OF False refl] d False s by (subst gc_range.simps) auto
    next
      case (Item it)
      show ?thesis
      proof (cases "it_deleted it \<and> \<not> it_keep it")
        case True
        have g: "same_text t (gc_item t ?a it)" using gc_item_same [OF d] s Item True by simp
        then have "doc_ok (gc_item t ?a it)" by (simp add: same_text_def)
        from 1(3) [OF False refl _ _ True this] s Item
        have "same_text (gc_item t ?a it) (gc_range (gc_item t ?a it) c (si + 1) e)" by simp
        with g have "same_text t (gc_range (gc_item t ?a it) c (si + 1) e)" by (rule same_text_trans)
        then show ?thesis using False s Item True by (subst gc_range.simps) simp
      next
        case nd: False
        then show ?thesis using 1(4) [OF False refl _ _ nd d] False s Item
          by (subst gc_range.simps) auto
      qed
    qed
  qed
qed

section \<open>Merging two structs\<close>

lemma contiguous_merge:
  assumes "contiguous (xs @ (k, l) # (m, l') # ys)"
  shows "k + l = m" "contiguous (xs @ (k, l + l') # ys)"
  using assms by (cases ys; auto simp: contiguous_append ends_def split: if_splits)+

lemma merged_ok:
  assumes d: "doc_ok d" and ck: "clocks d c = xs @ k # m # ys"
    and h: "heap d (ID c k) = Some sa" "heap d (ID c m) = Some sb"
    and f: "heap d1 = (heap d)(ID c k \<mapsto> s, ID c m := None)" "clocks d1 = (clocks d)(c := xs @ k # ys)"
      "type_length d1 = type_length d"
    and s: "struct_ok s" "struct_length s = struct_length sa + struct_length sb"
    and li: "\<And>n. distinct (start d1 n)"
      "\<And>n x. x \<in> set (start d1 n) \<longleftrightarrow> (\<exists>it. heap d1 x = Some (Item it) \<and> it_parent it = n)"
    and u: "\<And>n. units d1 n = units d n"
  shows "doc_ok d1" "getState d1 c' = getState d c'"
proof -
  have dist: "distinct (xs @ k # m # ys)" using clocks_distinct [OF d, of c] ck by simp
  then have km: "k \<noteq> m" by simp
  have la: "length_at d (ID c k) = struct_length sa" "length_at d (ID c m) = struct_length sb"
    by (simp_all add: length_at_def h)
  have other: "length_at d1 (ID c x) = length_at d (ID c x)" if "x \<noteq> k" "x \<noteq> m" for x
    using that by (simp add: length_at_def f(1))
  define f0 where "f0 = (\<lambda>k. (k, length_at d (ID c k)))"
  have r0: "ranges_of d c = map f0 xs @ (k, struct_length sa) # (m, struct_length sb) # map f0 ys"
    by (simp add: ranges_of_def ck f0_def la)
  have "map (\<lambda>k. (k, length_at d1 (ID c k))) xs = map f0 xs" "map (\<lambda>k. (k, length_at d1 (ID c k))) ys = map f0 ys"
    using dist by (auto simp: f0_def intro!: other)
  moreover have "length_at d1 (ID c k) = struct_length sa + struct_length sb"
    using km by (simp add: length_at_def f(1) s(2))
  ultimately have r1: "ranges_of d1 c = map f0 xs @ (k, struct_length sa + struct_length sb) # map f0 ys"
    by (simp add: ranges_of_def f(2))
  have ro: "ranges_of d1 c2 = ranges_of d c2" if "c2 \<noteq> c" for c2
    using that by (simp add: ranges_of_def f(2) length_at_def f(1))
  note cm = contiguous_merge [OF doc_okD(4) [OF d, of c, unfolded r0]]
  have cont: "contiguous (ranges_of d1 c2)" for c2
    using cm(2) ro [of c2] doc_okD(4) [OF d] by (cases "c2 = c") (simp_all add: r1)
  have e: "ends (ranges_of d1 c) = ends (ranges_of d c)"
    using cm(1) unfolding r0 r1 by (auto simp: ends_def)
  show "getState d1 c' = getState d c'"
  proof (cases "c' = c")
    case True
    have "clocks d c \<noteq> []" "clocks d1 c \<noteq> []" by (simp_all add: ck f(2))
    with e True show ?thesis by (simp add: getState_ends)
  next
    case False
    show ?thesis unfolding getState_ranges ro [OF False] ..
  qed
  have hd0: "hd (clocks d1 c2) = 0" if "clocks d1 c2 \<noteq> []" for c2
    using that doc_okD(5) [OF d, of c2] by (auto simp: f(2) ck hd_append split: if_splits)
  have dom: "(heap d1 x \<noteq> None) = (clock x \<in> set (clocks d1 (client x)))" for x
  proof -
    have dx: "(heap d x \<noteq> None) = (clock x \<in> set (clocks d (client x)))"
      using d unfolding doc_ok_def by blast
    show ?thesis
    proof (cases "client x = c")
      case True
      then have "x = ID c (clock x)" by (cases x) auto
      with dx True dist km h show ?thesis by (auto simp: f ck)
    next
      case False
      then have "x \<noteq> ID c k" "x \<noteq> ID c m" by auto
      with dx False show ?thesis by (simp add: f)
    qed
  qed
  have so: "struct_ok s'" if "heap d1 x = Some s'" for x s'
    using that s(1) doc_okD(1) [OF d, of x s'] by (auto simp: f(1) split: if_splits)
  show "doc_ok d1"
    unfolding doc_ok_def using so dom cont hd0 li u doc_okD(9) [OF d] by (simp add: f(3))
qed

lemma mergeWith_clocks [simp]:
  "mergeWith (t\<lparr>clocks := x\<rparr>) a b = map_option (\<lambda>t1. t1\<lparr>clocks := x\<rparr>) (mergeWith t a b)"
  by (simp add: mergeWith_def split: option.split struct.split)

lemma mergeWith_fields:
  assumes "mergeWith t a b = Some t1"
  shows "clocks t1 = clocks t" "type_length t1 = type_length t" "clientID t1 = clientID t"
    "deleteSet t1 = deleteSet t" "mergeStructs t1 = mergeStructs t" "beforeState t1 = beforeState t"
  using assms by (auto simp: mergeWith_def split: option.splits struct.splits if_splits)

lemma content_merge_length: "content_merge x y = Some z \<Longrightarrow>
    getLength z = getLength x + getLength y \<and> isCountable z = isCountable x \<and> isCountable x = isCountable y"
  by (cases "(x, y)" rule: content_merge.cases) auto

lemma content_merge_char: "content_merge x y = Some z \<Longrightarrow>
    content_char z j = (if j < getLength x then content_char x j else content_char y (j - getLength x))"
  by (cases "(x, y)" rule: content_merge.cases) (auto simp: nth_append)

lemma merged_units:
  assumes "content_merge (it_content l) (it_content r) = Some ct" "item_ok l"
    "client a = client b" "clock b = clock a + it_length l" "it_deleted l = it_deleted r"
  shows "item_units a (l\<lparr>it_content := ct, it_keep := k, it_length := it_length l + it_length r\<rparr>)
    = item_units a l @ item_units b r"
proof -
  have "[0..<it_length l + it_length r] = [0..<it_length l] @ map ((+) (it_length l)) [0..<it_length r]"
    using upt_split [of "it_length l" "it_length l + it_length r"] by simp
  then show ?thesis
    using assms content_merge_char [OF assms(1)] by (simp add: item_units_def item_ok_def ac_simps)
qed

lemma next_in_split: "next_in a xs = Some b \<Longrightarrow> \<exists>pre post. xs = pre @ a # b # post"
proof (induction a xs rule: next_in.induct)
  case (2 a x xs)
  show ?case
  proof (cases "x = a")
    case True
    with 2(2) show ?thesis by (intro exI [of _ "[]"] exI [of _ "tl (tl (x # xs))"]) (auto split: list.splits)
  next
    case False
    with 2 obtain pre post where "xs = pre @ a # b # post" by auto
    then show ?thesis by (intro exI [of _ "x # pre"] exI [of _ post]) simp
  qed
qed simp

lemma mergeWith_same:
  assumes d: "doc_ok t" and ck: "clocks t c = xs @ k # m # ys"
    and g: "mergeWith t (ID c k) (ID c m) = Some t1"
  shows "same_text t (t1\<lparr>clocks := (clocks t)(c := xs @ k # ys)\<rparr>)"
proof -
  let ?a = "ID c k" and ?b = "ID c m" and ?d = "t1\<lparr>clocks := (clocks t)(c := xs @ k # ys)\<rparr>"
  have ab: "?a \<noteq> ?b" using clocks_distinct [OF d, of c] ck by auto
  note fields = mergeWith_fields [OF g]
  from g consider (gc) n m' where "heap t ?a = Some (GC n)" "heap t ?b = Some (GC m')"
      "t1 = t\<lparr>heap := (heap t)(?a \<mapsto> GC (n + m'), ?b := None)\<rparr>"
    | (item) l r ct where "heap t ?a = Some (Item l)" "heap t ?b = Some (Item r)"
      "next_in ?a (start t (it_parent l)) = Some ?b" "k + it_length l = m"
      "it_deleted l = it_deleted r" "it_redone l = None"
      "content_merge (it_content l) (it_content r) = Some ct"
      "t1 = t\<lparr>heap := (heap t)(?a \<mapsto> Item (l\<lparr>it_content := ct, it_keep := it_keep l \<or> it_keep r,
          it_length := it_length l + it_length r\<rparr>), ?b := None),
        start := (start t)(it_parent l := remove1 ?b (start t (it_parent l)))\<rparr>"
    by (auto simp: mergeWith_def split: option.splits struct.splits if_splits)
  then show ?thesis
  proof cases
    case gc
    have u: "units ?d n' = units t n'" for n'
      unfolding units_def using gc(1,2) by (intro arg_cong [where f = concat])
        (auto simp: gc(3) struct_units_def split: option.splits struct.splits)
    have li: "distinct (start ?d n')" "x \<in> set (start ?d n') \<longleftrightarrow>
        (\<exists>it. heap ?d x = Some (Item it) \<and> it_parent it = n')" for n' x
      using d gc(1,2) ab unfolding doc_ok_def by (auto simp: gc(3))
    have s: "struct_ok (GC (n + m'))" using doc_okD(1) [OF d gc(1)] by simp
    note mo = merged_ok [OF d ck gc(1,2), of ?d "GC (n + m')", OF _ _ _ s _ li u]
    show ?thesis
      using mo gc(1,2) fields u unfolding same_text_def by (auto simp: gc(3) no_redone_def)
  next
    case item
    let ?n = "it_parent l"
    let ?it = "l\<lparr>it_content := ct, it_keep := it_keep l \<or> it_keep r, it_length := it_length l + it_length r\<rparr>"
    obtain pre post where st: "start t ?n = pre @ ?a # ?b # post" using next_in_split [OF item(3)] by blast
    have dist: "distinct (pre @ ?a # ?b # post)" using doc_okD(6) [OF d, of ?n] st by simp
    have st1: "start ?d ?n = pre @ ?a # post" using dist by (simp add: item(8) st remove1_append)
    have rp: "it_parent r = ?n" using doc_okD(7) [OF d, of ?b ?n] item(2) st by simp
    have ok: "item_ok l" "item_ok r"
      using doc_okD(1) [OF d item(1)] doc_okD(1) [OF d item(2)] by auto
    have mu: "item_units ?a ?it = item_units ?a l @ item_units ?b r"
      using merged_units [OF item(7) ok(1), of ?a ?b "it_keep l \<or> it_keep r"] item(4,5) by simp
    have same: "struct_units ?d x = struct_units t x" if "x \<noteq> ?a" "x \<noteq> ?b" for x
      using that by (simp add: item(8) struct_units_def)
    have sa: "struct_units ?d ?a = item_units ?a ?it" using ab by (simp add: item(8) struct_units_def)
    have u: "units ?d n' = units t n'" for n'
    proof (cases "n' = ?n")
      case True
      have m: "map (struct_units ?d) zs = map (struct_units t) zs" if "set zs \<subseteq> set pre \<union> set post" for zs
        using that dist by (intro map_cong refl same) auto
      then have mp: "map (struct_units ?d) pre = map (struct_units t) pre"
        "map (struct_units ?d) post = map (struct_units t) post" by blast+
      show ?thesis
        unfolding True units_def st st1 using item(1,2)
        by (simp add: sa mu struct_units_item mp del: map_eq_conv)
    next
      case False
      then have "?a \<notin> set (start t n')" "?b \<notin> set (start t n')"
        using doc_okD(7) [OF d, of ?a n'] doc_okD(7) [OF d, of ?b n'] item(1,2) rp by auto
      then have "map (struct_units ?d) (start t n') = map (struct_units t) (start t n')"
        by (intro map_cong refl same) auto
      with False show ?thesis by (simp add: units_def item(8) del: map_eq_conv)
    qed
    have li: "distinct (start ?d n')" "x \<in> set (start ?d n') \<longleftrightarrow>
        (\<exists>it. heap ?d x = Some (Item it) \<and> it_parent it = n')" for n' x
    proof -
      show "distinct (start ?d n')"
        using doc_okD(6) [OF d, of n'] dist st1 by (cases "n' = ?n") (simp_all add: item(8))
      have "x \<in> set (start t n') \<longleftrightarrow> (\<exists>it. heap t x = Some (Item it) \<and> it_parent it = n')"
        using d unfolding doc_ok_def by blast
      then show "x \<in> set (start ?d n') \<longleftrightarrow> (\<exists>it. heap ?d x = Some (Item it) \<and> it_parent it = n')"
        using ab item(1,2) rp doc_okD(6) [OF d, of n'] by (auto simp: item(8))
    qed
    note cl = content_merge_length [OF item(7)]
    have s: "struct_ok (Item ?it)" using ok cl by (auto simp: item_ok_def)
    note mo = merged_ok [OF d ck item(1,2), of ?d "Item ?it", OF _ _ _ s _ li u]
    have nr: "no_redone t \<longrightarrow> no_redone ?d"
      using item(6) by (auto simp: item(8) no_redone_def)
    show ?thesis
      using mo fields nr u unfolding same_text_def by (auto simp: item(8))
  qed
qed

lemma merge_lefts_same:
  assumes "merge_lefts t c ks i = (j, t')" "clocks t c = ks" "i < length ks"
    "doc_ok (t\<lparr>clocks := (clocks t)(c := take (i + 1) ks @ zs)\<rparr>)"
  shows "j \<le> i \<and> clocks t' = clocks t \<and>
    same_text (t\<lparr>clocks := (clocks t)(c := take (i + 1) ks @ zs)\<rparr>)
              (t'\<lparr>clocks := (clocks t)(c := take (j + 1) ks @ zs)\<rparr>)"
  using assms
proof (induction t c ks i rule: merge_lefts.induct)
  case (1 t c ks)
  then show ?case by (auto simp: same_text_refl)
next
  case (2 t c ks i)
  show ?case
  proof (cases "mergeWith t (ID c (ks ! i)) (ID c (ks ! Suc i))")
    case None
    with 2 show ?thesis by (auto simp: same_text_refl)
  next
    case (Some t1)
    let ?d = "t\<lparr>clocks := (clocks t)(c := take (Suc i + 1) ks @ zs)\<rparr>"
    have tk: "take (Suc i + 1) ks @ zs = take i ks @ ks ! i # ks ! Suc i # zs"
      "take (i + 1) ks @ zs = take i ks @ ks ! i # zs"
      using 2(4) by (simp_all add: take_Suc_conv_app_nth)
    have c1: "clocks t1 = clocks t" using mergeWith_fields(1) [OF Some] .
    have m: "same_text ?d (t1\<lparr>clocks := (clocks t)(c := take (i + 1) ks @ zs)\<rparr>)"
    proof -
      have "doc_ok ?d" by (rule 2(5))
      moreover have "clocks ?d c = take i ks @ ks ! i # ks ! Suc i # zs"
        unfolding tk(1) by simp
      moreover have "mergeWith ?d (ID c (ks ! i)) (ID c (ks ! Suc i))
          = Some (t1\<lparr>clocks := clocks ?d\<rparr>)" using Some by simp
      ultimately have "same_text ?d (t1\<lparr>clocks := clocks ?d\<rparr>
          \<lparr>clocks := (clocks ?d)(c := take i ks @ ks ! i # zs)\<rparr>)"
        by (rule mergeWith_same)
      then show ?thesis unfolding tk(2) by simp
    qed
    then have d1: "doc_ok (t1\<lparr>clocks := (clocks t)(c := take (i + 1) ks @ zs)\<rparr>)"
      by (simp add: same_text_def)
    have ml: "merge_lefts t1 c ks i = (j, t')" using 2(2) Some by simp
    have "i < length ks" using 2(4) by simp
    note H = 2(1) [OF Some ml, unfolded c1, OF 2(3) this d1]
    then have ih: "j \<le> i" "clocks t' = clocks t"
      "same_text (t1\<lparr>clocks := (clocks t)(c := take (i + 1) ks @ zs)\<rparr>)
         (t'\<lparr>clocks := (clocks t)(c := take (j + 1) ks @ zs)\<rparr>)" by blast+
    show ?thesis using ih(1,2) same_text_trans [OF m ih(3)] by (intro conjI) linarith+
  qed
qed

lemma tryToMergeWithLefts_same:
  assumes "doc_ok t" "p < length (clocks t c)" "tryToMergeWithLefts t c p = (m, t')"
  shows "same_text t t'" "m \<le> p" "length (clocks t' c) = length (clocks t c) - m"
proof -
  obtain j t1 where g: "merge_lefts t c (clocks t c) p = (j, t1)" by fastforce
  have tt: "t\<lparr>clocks := (clocks t)(c := take (p + 1) (clocks t c) @ drop (p + 1) (clocks t c))\<rparr> = t" by simp
  have s: "j \<le> p \<and> clocks t1 = clocks t \<and>
    same_text t (t1\<lparr>clocks := (clocks t)(c := take (j + 1) (clocks t c) @ drop (p + 1) (clocks t c))\<rparr>)"
    using merge_lefts_same [OF g refl assms(2), of "drop (p + 1) (clocks t c)"] assms(1) unfolding tt by blast
  have r: "m = p - j" "t' = t1\<lparr>clocks := (clocks t1)(c := take (j + 1) (clocks t c) @ drop (p + 1) (clocks t c))\<rparr>"
    using assms(3) g by (simp_all add: tryToMergeWithLefts_def Let_def)
  show "same_text t t'" "m \<le> p" "length (clocks t' c) = length (clocks t c) - m"
    using s assms(2) unfolding r by (auto simp: min_def)
qed

lemma merge_down_same: "doc_ok t \<Longrightarrow> i < length (clocks t c) \<Longrightarrow> same_text t (merge_down go c i t)"
proof (induction go c i t rule: merge_down.induct)
  case (1 go c i t)
  obtain m t1 where g: "tryToMergeWithLefts t c i = (m, t1)" by fastforce
  note s = tryToMergeWithLefts_same [OF 1(2,3) g]
  then have d1: "doc_ok t1" by (simp add: same_text_def)
  show ?case
  proof (cases "0 < i \<and> go i (clocks t c ! i)")
    case True
    have "same_text t1 (merge_down go c (i - (1 + m)) t1)" if "\<not> i < 1 + m"
      by (rule 1(1) [OF True g [symmetric] refl that d1]) (use 1(3) s(3) that in linarith)
    then show ?thesis
      using True g s(1) same_text_trans by (subst merge_down.simps) auto
  next
    case False
    then show ?thesis using 1(2) by (subst merge_down.simps) (auto simp: same_text_refl)
  qed
qed

section \<open>The record a transaction keeps of its changes\<close>

text \<open>Deleted ranges and split structs lie below the clients' states, so the searches of the clean-up
  find them.\<close>

definition log_ok :: "'a transaction_scheme \<Rightarrow> bool" where
  "log_ok t = ((\<forall>c. \<forall>r \<in> set (deleteSet t c). 0 < snd r \<and> fst r + snd r \<le> getState t c) \<and>
     (\<forall>i \<in> set (mergeStructs t). clock i < getState t (client i)) \<and>
     (\<forall>c. beforeState t c \<le> getState t c))"

lemma struct_end:
  assumes d: "doc_ok t" "heap t a = Some s"
  shows "clock a + struct_length s \<le> getState t (client a)"
proof -
  let ?c = "client a" and ?l = "length (clocks t (client a)) - 1"
  obtain i where i: "i < length (clocks t ?c)" "clocks t ?c ! i = clock a"
    using doc_okD(2) [OF d] by (metis in_set_conv_nth)
  have la: "length_at t (ID ?c (clock a)) = struct_length s" using d(2) by (simp add: length_at_def)
  have ne: "clocks t ?c \<noteq> []" using i by auto
  have st: "getState t ?c = clocks t ?c ! ?l + length_at t (ID ?c (clocks t ?c ! ?l))"
    using ne by (simp add: getState_def last_conv_nth)
  show ?thesis
  proof (cases "i = ?l")
    case True
    with st la i show ?thesis by simp
  next
    case False
    then have "i < ?l" "?l < length (clocks t ?c)" using i by linarith+
    then show ?thesis
      using contiguous_mono [OF doc_okD(4) [OF d(1)], of i ?l ?c] i la st by simp
  qed
qed

lemma getState_pos: "doc_ok t \<Longrightarrow> heap t a = Some s \<Longrightarrow> clock a < getState t (client a)"
  using struct_end [of t a s] doc_okD(1) [of t a s] by (cases s) (auto simp: item_ok_def)

lemma split_log:
  assumes sp: "splittable t c i it diff" and l: "log_ok t"
  shows "log_ok (spliceSplit t c i it diff)"
proof -
  let ?k = "clocks t c ! i"
  have s: "doc_ok t" "heap t (ID c ?k) = Some (Item it)" "diff < it_length it"
    using sp by (auto simp: splittable_def)
  have "?k + diff < getState t c" using struct_end [OF s(1,2)] s(3) by simp
  moreover have "deleteSet (spliceSplit t c i it diff) = deleteSet t"
    "mergeStructs (spliceSplit t c i it diff) = mergeStructs t @ [ID c (?k + diff)]"
    "beforeState (spliceSplit t c i it diff) = beforeState t"
    by (simp_all add: spliceSplit_def splitItem_def Let_def createID_def split: prod.split)
  ultimately show ?thesis
    using l unfolding log_ok_def spliceSplit_ranges(2) [OF sp] by auto
qed

lemma getItemCleanStart_log:
  assumes d: "doc_ok t" "log_ok t" and g: "getItemCleanStart t x = Inr (b, t1)"
  shows "log_ok t1"
proof -
  obtain i where i: "findIndexSS (ranges_of t (client x)) (clock x) = Inr i"
    using g by (auto simp: getItemCleanStart_def findIndexCleanStart_def split: sum.splits)
  let ?k = "clocks t (client x) ! i"
  have h: "holds (ranges_of t (client x)) (clock x) i"
    by (rule findIndexSS_sound [OF doc_ok_positive [OF d(1)] i])
  show ?thesis
  proof (cases "\<exists>it. heap t (ID (client x) ?k) = Some (Item it) \<and> ?k < clock x")
    case True
    then obtain it where it: "heap t (ID (client x) ?k) = Some (Item it)" "?k < clock x" by blast
    then have "splittable t (client x) i it (clock x - ?k)"
      using h d(1) by (auto simp: splittable_def holds_def length_at_def)
    from split_log [OF this d(2)] show ?thesis
      using g i it by (auto simp: getItemCleanStart_def findIndexCleanStart_def Let_def)
  next
    case False
    then show ?thesis
      using g i d(2) by (auto simp: getItemCleanStart_def findIndexCleanStart_def Let_def
          split: option.splits struct.splits if_splits)
  qed
qed

lemma findNextPosition_log:
  "findNextPosition n left as index count t = Inr (cur, t1) \<Longrightarrow> doc_ok t \<Longrightarrow> log_ok t \<Longrightarrow> log_ok t1"
  by (induction n left as index count t rule: findNextPosition.induct)
    (auto simp: getItemCleanStart_log split: if_splits option.splits struct.splits sum.splits content.splits)

lemma findPosition_log:
  "findPosition marker n index t = Inr (cur, t1) \<Longrightarrow> doc_ok t \<Longrightarrow> log_ok t \<Longrightarrow> log_ok t1"
  by (auto simp: findPosition_def findNextPosition_log split: option.splits)

lemma deleteItem_log:
  assumes d: "doc_ok t" "heap t a = Some (Item it)" "log_ok t"
    and g: "\<And>c. getState (deleteItem t a it) c = getState t c"
  shows "log_ok (deleteItem t a it)"
proof (cases "it_deleted it")
  case False
  have "item_ok it" using doc_okD(1) [OF d(1,2)] by simp
  with False struct_end [OF d(1,2)] d(3) show ?thesis
    unfolding log_ok_def g by (auto simp: deleteItem_def addToDeleteSet_def item_ok_def)
qed (use d in \<open>simp add: deleteItem_def\<close>)

lemma delete_loop_log:
  "delete_loop left as len t = Inr (l1, rest, t1) \<Longrightarrow> left = last_opt pre \<Longrightarrow> doc_ok t \<Longrightarrow> log_ok t \<Longrightarrow>
   start t n = pre @ as \<Longrightarrow> log_ok t1"
proof (induction as arbitrary: left pre len t)
  case (Cons a as)
  note d = Cons.prems(3,4)
  have st: "start t n = (pre @ [a]) @ as" using Cons.prems by simp
  obtain it where it: "heap t a = Some (Item it)" "item_ok it" "it_parent it = n"
    using list_item [OF d(1), of a n] Cons.prems(5) by (metis in_set_conv_decomp)
  consider "len \<le> 0" | "0 < len" "it_deleted it" | "0 < len" "\<not> it_deleted it" "len < int (it_length it)"
    | "0 < len" "\<not> it_deleted it" "int (it_length it) \<le> len" by fastforce
  then show ?case
  proof cases
    case 1
    then show ?thesis using Cons.prems by simp
  next
    case 2
    show ?thesis
      by (rule Cons.IH [OF _ refl d, of "pre @ [a]" len]) (use Cons.prems(1) 2 it st in simp_all)
  next
    case 3
    obtain s where s: "it_content it = ContentString s" using it(2) 3(2)
      by (cases "it_content it") (auto simp: item_ok_def)
    have m: "0 < nat len" "nat len < it_length it" using 3 by auto
    obtain b t2 l where g: "getItemCleanStart t (createID (client a) (clock a + nat len)) = Inr (b, t2)"
      "keeps t t2" "start t2 n = pre @ a # b # as" "heap t2 a = Some (Item l)" "it_deleted l = it_deleted it"
      using split_in_list [OF d(1) Cons.prems(5) it(1) m] by blast
    have k: "doc_ok t2" "\<not> it_deleted l" using g 3 by (auto simp: keeps_def)
    have "log_ok (deleteItem t2 a l)"
      by (rule deleteItem_log [OF k(1) g(4) getItemCleanStart_log [OF d g(1)]
          deleteItem_spec(2) [OF k(1) g(4) k(2) g(3)]])
    then show ?thesis using Cons.prems(1) 3 it s g by simp
  next
    case 4
    obtain s where s: "it_content it = ContentString s" using it(2) 4(2)
      by (cases "it_content it") (auto simp: item_ok_def)
    note del = deleteItem_spec [OF d(1) it(1) 4(2) Cons.prems(5)]
    have l: "log_ok (deleteItem t a it)" by (rule deleteItem_log [OF d(1) it(1) d(2) del(2)])
    have st1: "start (deleteItem t a it) n = (pre @ [a]) @ as" using del(4) st by simp
    show ?thesis
      by (rule Cons.IH [OF _ refl del(1) l st1, of "len - int (it_length it)"])
        (use Cons.prems(1) 4 it s in simp)
  qed
qed simp

lemma ytext_delete_log:
  assumes d: "doc_ok t" "log_ok t" and i: "0 \<le> index" "marker_ok t n index marker"
    and g: "ytext_delete marker n index len t = Inr t1"
  shows "log_ok t1"
proof (cases "len = 0")
  case False
  obtain cur t2 pre post where f: "findPosition marker n index t = Inr (cur, t2)" "keeps t t2"
    "start t2 n = pre @ post" "p_left cur = last_opt pre" "p_right cur = hd_opt post"
    using findPosition_spec [OF d(1) i] by blast
  have d2: "doc_ok t2" using f(2) by (simp add: keeps_def)
  have dist: "distinct (pre @ post)" using doc_okD(6) [OF d2, of n] f(3) by simp
  have fo: "(case p_right cur of None \<Rightarrow> [] | Some r \<Rightarrow> from_on r (start t2 n)) = post"
    unfolding f by (rule from_on_cut [OF dist])
  from g False f(1) obtain left rest where "delete_loop (last_opt pre) post len t2 = Inr (left, rest, t1)"
    by (auto simp: ytext_delete_def deleteText_def fo f(4) split: sum.splits if_splits)
  from delete_loop_log [OF this refl d2 findPosition_log [OF f(1) d] f(3)] show ?thesis .
qed (use d g in \<open>simp add: ytext_delete_def\<close>)

lemma integrate_log:
  assumes "integrate this it left right t = Inr t1" "it_content it = ContentString s" "log_ok t"
    "\<And>c. getState t c \<le> getState t1 c"
  shows "log_ok t1"
proof -
  have "deleteSet t1 = deleteSet t" "mergeStructs t1 = mergeStructs t" "beforeState t1 = beforeState t"
    using assms(1,2) by (auto simp: integrate_def addStruct_def Let_def split: sum.splits if_splits)
  then show ?thesis using assms(3,4) unfolding log_ok_def
    by (metis less_le_trans order_trans)
qed

lemma ytext_insert_log:
  assumes d: "doc_ok t" "log_ok t" and i: "0 \<le> index" "marker_ok t n index marker"
    and g: "ytext_insert marker n index text t = Inr t1"
  shows "log_ok t1"
proof (cases "text = []")
  case False
  obtain cur t2 pre post where f: "findPosition marker n index t = Inr (cur, t2)" "keeps t t2"
    using findPosition_spec [OF d(1) i] by blast
  have "insertText n cur text t2 = Inr t1" using g f(1) False by (simp add: ytext_insert_def)
  then obtain this it left right where "integrate this it left right t2 = Inr t1"
    "it_content it = ContentString text"
    by (auto simp: insertText_def Let_def split: prod.splits)
  moreover have "getState t2 c \<le> getState t1 c" for c
    using insert_units [OF d(1) i False] g f(2) by (auto simp: keeps_def)
  ultimately show ?thesis using integrate_log findPosition_log [OF f(1) d] by metis
qed (use d g in \<open>simp add: ytext_insert_def\<close>)

section \<open>The clean-up\<close>

lemma merge_ranges_bound:
  assumes "\<forall>r \<in> set acc \<union> set rs. 0 < snd r \<and> fst r + snd r \<le> (b::nat)"
  shows "\<forall>r \<in> set (merge_ranges acc rs). 0 < snd r \<and> fst r + snd r \<le> b"
  using assms
proof (induction acc rs rule: merge_ranges.induct)
  case (3 l acc r rs)
  have "0 < max (snd l) (fst r + snd r - fst l) \<and> fst l + max (snd l) (fst r + snd r - fst l) \<le> b"
    using 3(3) by (auto simp: max_def)
  with 3 show ?case by simp
qed auto

lemma sortAndMerge_same:
  assumes "doc_ok t" "log_ok t"
  shows "doc_ok (sortAndMergeDeleteSet t)" "log_ok (sortAndMergeDeleteSet t)"
    "units (sortAndMergeDeleteSet t) n = units t n" "getState (sortAndMergeDeleteSet t) c = getState t c"
proof -
  have g: "getState (sortAndMergeDeleteSet t) c = getState t c" for c
    by (rule getState_cong) (simp_all add: sortAndMergeDeleteSet_def)
  have u: "struct_units (sortAndMergeDeleteSet t) = struct_units t"
    by (rule ext, rule struct_units_cong) (simp add: sortAndMergeDeleteSet_def)
  have un: "units (sortAndMergeDeleteSet t) n = units t n" for n
    unfolding units_def u by (simp add: sortAndMergeDeleteSet_def)
  show "doc_ok (sortAndMergeDeleteSet t)"
    using assms(1) un unfolding doc_ok_def ranges_of_def length_at_def by (simp add: sortAndMergeDeleteSet_def)
  have "\<forall>r \<in> set (sortAndMerge (deleteSet t c)). 0 < snd r \<and> fst r + snd r \<le> getState t c" for c
    unfolding sortAndMerge_def using assms(2) by (intro merge_ranges_bound) (auto simp: log_ok_def)
  then show "log_ok (sortAndMergeDeleteSet t)"
    using assms(2) unfolding log_ok_def g by (simp add: sortAndMergeDeleteSet_def)
  show "units (sortAndMergeDeleteSet t) n = units t n" "getState (sortAndMergeDeleteSet t) c = getState t c"
    by (rule un, rule g)
qed

text \<open>A step of the clean-up: it succeeds and keeps text and record.\<close>

definition cleans :: "('a transaction_scheme \<Rightarrow> 'a transaction_scheme result) \<Rightarrow> 'a transaction_scheme \<Rightarrow> bool" where
  "cleans f t = (\<exists>t'. f t = Inr t' \<and> same_text t t')"

lemma same_text_log: "same_text t t' \<Longrightarrow> log_ok t \<Longrightarrow> log_ok t'"
  by (simp add: same_text_def log_ok_def)

lemma same_text_ok: "same_text t t' \<Longrightarrow> doc_ok t'"
  by (simp add: same_text_def)

lemma each_client_cleans:
  assumes "\<And>c t. doc_ok t \<Longrightarrow> log_ok t \<Longrightarrow> (\<forall>c. getState t c = sv c) \<Longrightarrow> cleans (f c) t"
  shows "doc_ok t \<Longrightarrow> log_ok t \<Longrightarrow> (\<forall>c. getState t c = sv c) \<Longrightarrow> cleans (each_client f cs) t"
proof (induction cs arbitrary: t)
  case Nil
  then show ?case by (simp add: cleans_def same_text_refl)
next
  case (Cons c cs)
  obtain t1 where t1: "f c t = Inr t1" "same_text t t1"
    using assms [OF Cons.prems] by (auto simp: cleans_def)
  have "\<forall>c. getState t1 c = sv c" using t1(2) Cons.prems(3) by (simp add: same_text_def)
  with Cons.IH [OF same_text_ok [OF t1(2)] same_text_log [OF t1(2) Cons.prems(2)]]
  have "cleans (each_client f cs) t1" .
  with t1 show ?case by (auto simp: cleans_def intro: same_text_trans)
qed

lemma gc_ranges_cleans:
  assumes "\<forall>r \<in> set ds. 0 < snd r \<and> fst r + snd r \<le> getState t c" "doc_ok t"
  shows "cleans (\<lambda>t. gc_ranges t c ds) t"
  using assms
proof (induction ds arbitrary: t)
  case Nil
  then show ?case by (simp add: cleans_def same_text_refl)
next
  case (Cons d ds)
  obtain i where i: "findIndexSS (ranges_of t c) (fst d) = Inr i"
    using findIndexSS_store [OF Cons.prems(2), of "fst d" c] Cons.prems(1) by fastforce
  have s: "same_text t (gc_range t c i (fst d + snd d))" by (rule gc_range_same [OF Cons.prems(2)])
  with Cons have "cleans (\<lambda>t. gc_ranges t c ds) (gc_range t c i (fst d + snd d))"
    by (simp add: same_text_def)
  with i s show ?case by (auto simp: cleans_def intro: same_text_trans)
qed

lemma merge_deleted_cleans:
  assumes "\<forall>r \<in> set ds. 0 < snd r \<and> fst r + snd r \<le> getState t c" "doc_ok t"
  shows "cleans (\<lambda>t. merge_deleted t c ds) t"
  using assms
proof (induction ds arbitrary: t)
  case Nil
  then show ?case by (simp add: cleans_def same_text_refl)
next
  case (Cons d ds)
  obtain i where i: "findIndexSS (ranges_of t c) (fst d + snd d - 1) = Inr i"
      "holds (ranges_of t c) (fst d + snd d - 1) i"
    using findIndexSS_store [OF Cons.prems(2), of "fst d + snd d - 1" c] Cons.prems(1) by fastforce
  let ?t1 = "merge_down (\<lambda>si ck. fst d \<le> ck) c (min (length (clocks t c) - 1) (1 + i)) t"
  have s: "same_text t ?t1"
    by (rule merge_down_same [OF Cons.prems(2)]) (use i(2) in \<open>auto simp: holds_def\<close>)
  with Cons have "cleans (\<lambda>t. merge_deleted t c ds) ?t1" by (simp add: same_text_def)
  with i s show ?case by (auto simp: cleans_def intro: same_text_trans)
qed

lemma merge_new_cleans:
  assumes "doc_ok t" "log_ok t" "\<forall>c. getState t c = after c"
  shows "cleans (merge_new after c) t"
proof (cases "beforeState t c = after c")
  case True
  with assms show ?thesis by (simp add: cleans_def merge_new_def same_text_refl)
next
  case False
  then have "beforeState t c < getState t c" using assms by (metis le_neq_implies_less log_ok_def)
  then obtain i where i: "findIndexSS (ranges_of t c) (beforeState t c) = Inr i"
      "holds (ranges_of t c) (beforeState t c) i"
    using findIndexSS_store [OF assms(1)] by blast
  have "same_text t (merge_down (\<lambda>si ck. max i 1 \<le> si) c (length (clocks t c) - 1) t)"
    by (rule merge_down_same [OF assms(1)]) (use i(2) in \<open>auto simp: holds_def\<close>)
  with i False show ?thesis by (simp add: cleans_def merge_new_def)
qed

lemma merge_split_cleans:
  assumes "\<forall>i \<in> set xs. clock i < getState t (client i)" "doc_ok t"
  shows "cleans (merge_split xs) t"
  using assms
proof (induction xs arbitrary: t)
  case Nil
  then show ?case by (simp add: cleans_def same_text_refl)
next
  case (Cons x xs)
  let ?c = "client x"
  obtain n where n: "findIndexSS (ranges_of t ?c) (clock x) = Inr n" "n < length (clocks t ?c)"
    using findIndexSS_store [OF Cons.prems(2), of "clock x" ?c] Cons.prems(1) by (auto simp: holds_def)
  obtain m t1 where g: "(if n + 1 < length (clocks t ?c) then tryToMergeWithLefts t ?c (n + 1) else (0, t)) = (m, t1)"
    by fastforce
  then have s: "same_text t t1" "1 < m \<or> n < length (clocks t1 ?c)"
    using tryToMergeWithLefts_same [OF Cons.prems(2), of "n + 1" ?c m t1] Cons.prems(2) n
    by (auto simp: same_text_refl split: if_splits)
  have step: "\<exists>t'. merge_split xs t2 = Inr t' \<and> same_text t t'" if "same_text t t2" for t2
    using Cons.IH [of t2] that Cons.prems(1) same_text_trans [OF that]
    by (auto simp: cleans_def same_text_def)
  have "same_text t (snd (tryToMergeWithLefts t1 ?c n))" if "n < length (clocks t1 ?c)"
    using tryToMergeWithLefts_same(1) [OF same_text_ok [OF s(1)] that] same_text_trans [OF s(1)]
    by (metis prod.collapse)
  then show ?case
    using n g s step unfolding cleans_def by (auto simp: Let_def split: prod.split)
qed

lemma delete_steps:
  assumes "doc_ok t" "log_ok t"
  shows "cleans (\<lambda>t. gc_ranges t c (rev (deleteSet t c))) t"
    "cleans (\<lambda>t. merge_deleted t c (rev (deleteSet t c))) t"
proof -
  have "\<forall>r \<in> set (rev (deleteSet t c)). 0 < snd r \<and> fst r + snd r \<le> getState t c"
    using assms(2) by (simp add: log_ok_def)
  from gc_ranges_cleans [OF this assms(1)] merge_deleted_cleans [OF this assms(1)]
  show "cleans (\<lambda>t. gc_ranges t c (rev (deleteSet t c))) t"
    "cleans (\<lambda>t. merge_deleted t c (rev (deleteSet t c))) t" by (simp_all add: cleans_def)
qed

lemma cleansE:
  assumes "cleans f t" "log_ok t"
  obtains t' where "f t = Inr t'" "same_text t t'" "doc_ok t'" "log_ok t'"
    "\<forall>c. getState t' c = getState t c"
  using assms same_text_ok same_text_log unfolding cleans_def same_text_def by metis

lemma cleanup_same:
  assumes d: "doc_ok t" "log_ok t"
  shows "\<exists>t'. cleanupTransaction ds sc t = Inr t' \<and> same_text (sortAndMergeDeleteSet t) t'"
proof -
  define t1 where "t1 = sortAndMergeDeleteSet t"
  note t1 = sortAndMerge_same(1,2) [OF d, folded t1_def]
  obtain t2 where t2: "tryGcDeleteSet ds t1 = Inr t2" "same_text t1 t2" "doc_ok t2" "log_ok t2"
      "\<forall>c. getState t2 c = getState t1 c"
    unfolding tryGcDeleteSet_def
    by (rule cleansE [OF each_client_cleans [OF delete_steps(1) t1] t1(2)]) auto
  obtain t3 where t3: "tryMergeDeleteSet ds t2 = Inr t3" "same_text t2 t3" "doc_ok t3" "log_ok t3"
      "\<forall>c. getState t3 c = getState t2 c"
    unfolding tryMergeDeleteSet_def
    by (rule cleansE [OF each_client_cleans [OF delete_steps(2) t2(3,4)] t2(4)]) auto
  have g3: "\<forall>c. getState t3 c = getState t1 c" using t2(5) t3(5) by simp
  obtain t4 where t4: "each_client (merge_new (getState t1)) sc t3 = Inr t4" "same_text t3 t4"
      "doc_ok t4" "log_ok t4"
    by (rule cleansE [OF each_client_cleans [OF merge_new_cleans t3(3,4) g3] t3(4)])
  have "cleans (merge_split (rev (mergeStructs t4))) t4"
    by (rule merge_split_cleans [OF _ t4(3)]) (use t4(4) in \<open>simp add: log_ok_def\<close>)
  then obtain t5 where t5: "merge_split (rev (mergeStructs t4)) t4 = Inr t5" "same_text t4 t5"
    unfolding cleans_def by blast
  have "cleanupTransaction ds sc t = Inr t5"
    unfolding cleanupTransaction_def Let_def t1_def [symmetric]
    by (simp only: t2(1) t3(1) t4(1) t5(1) sum.case)
  moreover have "same_text t1 t5"
    by (rule same_text_trans [OF t2(2) same_text_trans [OF t3(2) same_text_trans [OF t4(2) t5(2)]]])
  ultimately show ?thesis unfolding t1_def by blast
qed

section \<open>Transactions\<close>

lemma begin_same:
  "doc_ok (beginTransaction t) \<longleftrightarrow> doc_ok t" "units (beginTransaction t) n = units t n"
  "start (beginTransaction t) = start t" "toString (beginTransaction t) n = toString t n"
  "getState (beginTransaction t) c = getState t c" "clientID (beginTransaction t) = clientID t"
  "no_redone (beginTransaction t) \<longleftrightarrow> no_redone t"
  "units_of (beginTransaction t) as = units_of t as"
proof -
  have u: "struct_units (beginTransaction t) = struct_units t"
    by (rule ext, rule struct_units_cong) (simp add: beginTransaction_def)
  have g: "getState (beginTransaction t) c = getState t c" for c
    by (rule getState_cong) (simp_all add: beginTransaction_def)
  have un: "units (beginTransaction t) n = units t n" for n
    unfolding units_def u by (simp add: beginTransaction_def)
  show "doc_ok (beginTransaction t) \<longleftrightarrow> doc_ok t"
    using un unfolding doc_ok_def ranges_of_def length_at_def by (simp add: beginTransaction_def)
  show "units (beginTransaction t) n = units t n" "getState (beginTransaction t) c = getState t c"
    by (rule un, rule g)
  show "units_of (beginTransaction t) as = units_of t as" unfolding units_of_def u ..
  show "start (beginTransaction t) = start t" "toString (beginTransaction t) n = toString t n"
    "clientID (beginTransaction t) = clientID t" "no_redone (beginTransaction t) \<longleftrightarrow> no_redone t"
    by (simp_all add: beginTransaction_def toString_def no_redone_def)
qed

lemma begin_log: "log_ok (beginTransaction t)"
proof -
  have "beforeState (beginTransaction t) c = getState (beginTransaction t) c" for c
    unfolding begin_same by (simp add: beginTransaction_def)
  then show ?thesis by (simp add: log_ok_def beginTransaction_def)
qed

lemma sort_redone: "no_redone (sortAndMergeDeleteSet t) \<longleftrightarrow> no_redone t"
    "clientID (sortAndMergeDeleteSet t) = clientID t"
  by (simp_all add: no_redone_def sortAndMergeDeleteSet_def)

lemma transact_same:
  assumes "body (beginTransaction t) = Inr t1" "doc_ok t1" "log_ok t1"
  shows "\<exists>t2. transact ds sc body t = Inr t2 \<and> doc_ok t2 \<and> (\<forall>n. units t2 n = units t1 n) \<and>
    (\<forall>n. toString t2 n = toString t1 n) \<and> (\<forall>c. getState t2 c = getState t1 c) \<and>
    clientID t2 = clientID t1 \<and> (no_redone t1 \<longrightarrow> no_redone t2)"
proof -
  obtain t2 where t2: "cleanupTransaction ds sc t1 = Inr t2" "same_text (sortAndMergeDeleteSet t1) t2"
    using cleanup_same [OF assms(2,3)] by blast
  have k: "doc_ok t2" "\<And>n. units t2 n = units t1 n" "\<And>c. getState t2 c = getState t1 c"
    "clientID t2 = clientID t1" "no_redone t1 \<longrightarrow> no_redone t2"
    using t2(2) sortAndMerge_same [OF assms(2,3)] sort_redone [of t1] by (simp_all add: same_text_def)
  then have "toString t2 n = toString t1 n" for n
    by (simp only: toString_units [OF k(1)] toString_units [OF assms(2)])
  with k t2(1) assms(1) show ?thesis by (simp add: transact_def)
qed

text \<open>
  C33. the clean-up at the end of a transaction succeeds and is invisible: whatever the transaction's
  body made of the document, as long as it kept the document and the record of its changes valid,
  every text has the same units afterwards, deleted ones included, in the same order, although
  structs were collected and merged; the clients' states do not change.
\<close>

theorem transact_keeps_text:
  assumes "body (beginTransaction t) = Inr t1" "doc_ok t1" "log_ok t1"
  shows "\<exists>t2. transact ds sc body t = Inr t2 \<and> doc_ok t2 \<and> (\<forall>n. units t2 n = units t1 n) \<and>
    (\<forall>n. toString t2 n = toString t1 n) \<and> (\<forall>c. getState t2 c = getState t1 c) \<and>
    clientID t2 = clientID t1 \<and> (no_redone t1 \<longrightarrow> no_redone t2)"
  by (rule transact_same [of body t t1, OF assms])

lemma transact_keeps_text_witness:
  "\<exists>t2. transact [7] [7] (ytext_delete None CONTENT 1 3) hello = Inr t2 \<and> toString t2 CONTENT = js ''ho''"
proof -
  let ?b = "beginTransaction hello"
  have b: "doc_ok ?b" "start ?b CONTENT \<noteq> []" "toString ?b CONTENT = js ''hello''"
    using hello_ok(1) hello_text unfolding begin_same by (auto simp: toString_def)
  have m: "marker_ok ?b CONTENT 1 None" by (simp add: marker_ok_def)
  have c: "cut_clean (toString ?b CONTENT) k" for k using hello_clean by (simp add: begin_same)
  obtain t1 where t1: "ytext_delete None CONTENT 1 3 ?b = Inr t1" "doc_ok t1"
    "toString t1 CONTENT = take 1 (js ''hello'') @ drop 4 (js ''hello'')"
    using delete_text [OF b(1) _ m _ b(2) c c, of 3] b(3) by auto
  have "log_ok t1" by (rule ytext_delete_log [OF b(1) begin_log _ m t1(1)]) simp
  from transact_keeps_text [of "ytext_delete None CONTENT 1 3", OF t1(1,2) this, of "[7]" "[7]"] t1(3)
  show ?thesis by auto
qed

end
