(* ===== verification/YMarker.thy ===== *)
theory YMarker
  imports YTextSpec
begin

text \<open>
  The search marker of a text (\<open>findMarker\<close> in \<open>yjs/src/types/AbstractType.js\<close>): from the stored
  marker nearest to an index, or from the start of the list, the position walks right, then left
  past the index, then left while the item could be merged with its left neighbour. The result is
  shown to be a valid marker for the index whenever the stored one is right about its own position.

  The array of stored markers, its bounded size and its replacement by timestamps are a cache: the
  definition takes the nearest stored marker as an argument.
\<close>

section \<open>Definitions\<close>

text \<open>The length an item contributes to indices.\<close>

definition size_at :: "'a doc_scheme \<Rightarrow> ID \<Rightarrow> int" where
  "size_at d a = (case heap d a of
     Some (Item it) \<Rightarrow> if \<not> it_deleted it \<and> isCountable (it_content it) then int (it_length it) else 0
   | _ \<Rightarrow> 0)"

definition counted :: "'a doc_scheme \<Rightarrow> ID \<Rightarrow> bool" where
  "counted d a = (case heap d a of
     Some (Item it) \<Rightarrow> \<not> it_deleted it \<and> isCountable (it_content it) | _ \<Rightarrow> False)"

text \<open>A position in a list: what is to the left of \<open>p\<close>, nearest first, \<open>p\<close>, and what is to its right.\<close>

fun marker_right :: "'a doc_scheme \<Rightarrow> int \<Rightarrow> ID list \<Rightarrow> ID \<Rightarrow> ID list \<Rightarrow> int \<Rightarrow> ID list \<times> ID \<times> int" where
  "marker_right d index ls p [] pindex = (ls, p, pindex)"
| "marker_right d index ls p (r # rs) pindex =
     (if index \<le> pindex then (ls, p, pindex)
      else if counted d p
      then (if index < pindex + size_at d p then (ls, p, pindex)
            else marker_right d index (p # ls) r rs (pindex + size_at d p))
      else marker_right d index (p # ls) r rs pindex)"

fun marker_left :: "'a doc_scheme \<Rightarrow> int \<Rightarrow> ID list \<Rightarrow> ID \<Rightarrow> int \<Rightarrow> ID list \<times> ID \<times> int" where
  "marker_left d index [] p pindex = ([], p, pindex)"
| "marker_left d index (l # ls) p pindex =
     (if index < pindex then marker_left d index ls l (pindex - size_at d l) else (l # ls, p, pindex))"

fun marker_unmerge :: "'a doc_scheme \<Rightarrow> ID list \<Rightarrow> ID \<Rightarrow> int \<Rightarrow> ID \<times> int" where
  "marker_unmerge d [] p pindex = (p, pindex)"
| "marker_unmerge d (l # ls) p pindex =
     (if client l = client p \<and> clock l + length_at d l = clock p
      then marker_unmerge d ls l (pindex - size_at d l) else (p, pindex))"

definition walk_start :: "(ID \<times> int) option \<Rightarrow> 'a doc_scheme \<Rightarrow> jsstring \<Rightarrow> ID list \<times> ID \<times> ID list \<times> int" where
  "walk_start near d n = (case near of
     None \<Rightarrow> ([], hd (start d n), tl (start d n), 0)
   | Some (p, mi) \<Rightarrow>
       (rev (takeWhile (\<lambda>a. a \<noteq> p) (start d n)), p, tl (from_on p (start d n)), mi))"

definition findMarker :: "(ID \<times> int) option \<Rightarrow> 'a doc_scheme \<Rightarrow> jsstring \<Rightarrow> int \<Rightarrow> (ID \<times> int) option" where
  "findMarker near d n index =
     (if start d n = [] \<or> index = 0 then None
      else let (ls, p, rs, pindex) = walk_start near d n;
               (ls1, p1, i1) = marker_right d index ls p rs pindex;
               (ls2, p2, i2) = marker_left d index ls1 p1 i1
           in Some (marker_unmerge d ls2 p2 i2))"

section \<open>Correctness\<close>

definition stored_ok :: "'a doc_scheme \<Rightarrow> jsstring \<Rightarrow> (ID \<times> int) option \<Rightarrow> bool" where
  "stored_ok d n near = (case near of
     None \<Rightarrow> True
   | Some (p, mi) \<Rightarrow> p \<in> set (start d n) \<and>
       mi = int (length (visible (units_of d (takeWhile (\<lambda>a. a \<noteq> p) (start d n))))))"

text \<open>A position of the list that is right about its index.\<close>

definition at :: "'a doc_scheme \<Rightarrow> jsstring \<Rightarrow> ID list \<Rightarrow> ID \<Rightarrow> int \<Rightarrow> bool" where
  "at d n ls p i = ((\<exists>rs. start d n = rev ls @ p # rs) \<and> i = int (length (visible (units_of d (rev ls)))))"

lemma size_at_visible:
  assumes "doc_ok d" "a \<in> set (start d n)"
  shows "size_at d a = int (length (visible (struct_units d a)))" "\<not> counted d a \<Longrightarrow> size_at d a = 0"
proof -
  obtain it where it: "heap d a = Some (Item it)" "item_ok it" "visible (struct_units d a) = item_string it"
    using list_item [OF assms] by metis
  show "size_at d a = int (length (visible (struct_units d a)))"
    using it item_string_length [OF it(2)] item_string_deleted [of it]
    by (cases "it_deleted it") (auto simp: size_at_def item_ok_def)
  show "\<not> counted d a \<Longrightarrow> size_at d a = 0" using it by (auto simp: size_at_def counted_def)
qed

lemma at_left:
  assumes "doc_ok d" "at d n (l # ls) p i"
  shows "at d n ls l (i - size_at d l)" "0 \<le> size_at d l"
  using assms size_at_visible(1) [OF assms(1), of l n] by (auto simp: at_def)

lemma marker_right_at:
  assumes d: "doc_ok d"
  shows "start d n = rev ls @ p # rs \<Longrightarrow> i = int (length (visible (units_of d (rev ls)))) \<Longrightarrow>
    marker_right d index ls p rs i = (ls1, p1, i1) \<Longrightarrow> at d n ls1 p1 i1"
proof (induction rs arbitrary: ls p i)
  case Nil
  then show ?case by (auto simp: at_def)
next
  case (Cons r rs)
  have s: "start d n = rev (p # ls) @ r # rs" using Cons.prems(1) by simp
  have p: "p \<in> set (start d n)" using Cons.prems(1) by simp
  have "i + size_at d p = int (length (visible (units_of d (rev (p # ls)))))"
    using Cons.prems(2) size_at_visible(1) [OF d p] by simp
  note IH = Cons.IH [OF s this]
  show ?case
  proof (cases "counted d p")
    case True
    then show ?thesis using Cons.prems IH by (auto simp: at_def split: if_splits)
  next
    case False
    then have "size_at d p = 0" using size_at_visible(2) [OF d p] by simp
    with False show ?thesis using Cons.prems IH by (auto simp: at_def split: if_splits)
  qed
qed

lemma marker_left_at:
  assumes d: "doc_ok d"
  shows "at d n ls p i \<Longrightarrow> 0 \<le> index \<Longrightarrow> marker_left d index ls p i = (ls1, p1, i1) \<Longrightarrow> at d n ls1 p1 i1 \<and> i1 \<le> index"
proof (induction ls arbitrary: p i)
  case Nil
  then show ?case by (auto simp: at_def)
next
  case (Cons l ls)
  show ?case
  proof (cases "index < i")
    case True
    with Cons.IH [OF at_left(1) [OF d Cons.prems(1)]] Cons.prems(2,3) show ?thesis by simp
  qed (use Cons.prems in auto)
qed

lemma marker_unmerge_at:
  assumes d: "doc_ok d"
  shows "at d n ls p i \<Longrightarrow> i \<le> index \<Longrightarrow> marker_unmerge d ls p i = (p1, i1) \<Longrightarrow> \<exists>ls1. at d n ls1 p1 i1 \<and> i1 \<le> index"
proof (induction ls arbitrary: p i)
  case (Cons l ls)
  show ?case
  proof (cases "client l = client p \<and> clock l + length_at d l = clock p")
    case True
    with Cons.IH [OF at_left(1) [OF d Cons.prems(1)]] at_left(2) [OF d Cons.prems(1)] Cons.prems(2,3)
    show ?thesis by simp
  qed (use Cons.prems in auto)
qed auto

lemma at_marker:
  assumes "doc_ok d" "at d n ls p i" "i \<le> index"
  shows "marker_ok d n index (Some (p, i))"
proof -
  obtain rs where rs: "start d n = rev ls @ p # rs" using assms(2) by (auto simp: at_def)
  have "p \<notin> set (rev ls)" using doc_okD(6) [OF assms(1), of n] rs by auto
  then have "takeWhile (\<lambda>a. a \<noteq> p) (start d n) = rev ls"
    unfolding rs by (subst takeWhile_append2) auto
  with rs assms show ?thesis by (simp add: marker_ok_def at_def)
qed

lemma stored_split:
  assumes "p \<in> set xs"
  shows "xs = takeWhile (\<lambda>a. a \<noteq> p) xs @ p # tl (from_on p xs)"
proof -
  have "dropWhile (\<lambda>a. a \<noteq> p) xs \<noteq> []" using assms by auto
  then have "dropWhile (\<lambda>a. a \<noteq> p) xs = p # tl (dropWhile (\<lambda>a. a \<noteq> p) xs)"
    using hd_dropWhile [of "\<lambda>a. a \<noteq> p" xs] by (metis list.collapse)
  then show ?thesis unfolding from_on_def by (metis takeWhile_dropWhile_id)
qed

lemma stored_zip:
  assumes "start d n \<noteq> []" "stored_ok d n near"
    "walk_start near d n = (ls, p, rs, i)"
  shows "start d n = rev ls @ p # rs" "i = int (length (visible (units_of d (rev ls))))"
proof -
  have "start d n = rev ls @ p # rs \<and> i = int (length (visible (units_of d (rev ls))))"
  proof (cases near)
    case None
    with assms show ?thesis by (auto simp: walk_start_def)
  next
    case (Some pm)
    obtain q mi where q: "pm = (q, mi)" by (cases pm)
    have m: "q \<in> set (start d n)" "mi = int (length (visible (units_of d (takeWhile (\<lambda>a. a \<noteq> q) (start d n)))))"
      using assms(2) Some q by (simp_all add: stored_ok_def)
    have e: "p = q" "rev ls = takeWhile (\<lambda>a. a \<noteq> q) (start d n)" "rs = tl (from_on q (start d n))" "i = mi"
      using assms(3) Some q by (auto simp: walk_start_def)
    show ?thesis unfolding e(1,2,4) using stored_split [OF m(1)] m(2) e(3) by blast
  qed
  then show "start d n = rev ls @ p # rs" "i = int (length (visible (units_of d (rev ls))))" by auto
qed

lemma found_marker_ok:
  assumes "doc_ok d" "stored_ok d n near" "0 \<le> index"
  shows "marker_ok (d :: 'a transaction_scheme) n index (findMarker near d n index)"
proof (cases "start d n = [] \<or> index = 0")
  case True
  then show ?thesis by (auto simp: findMarker_def marker_ok_def)
next
  case False
  then have ne: "start d n \<noteq> []" by simp
  obtain ls p rs i where z: "walk_start near d n = (ls, p, rs, i)" by (metis prod_cases4)
  note zi = stored_zip [OF ne assms(2) z]
  obtain ls1 p1 i1 where r: "marker_right d index ls p rs i = (ls1, p1, i1)" by (metis prod_cases3)
  obtain ls2 p2 i2 where l: "marker_left d index ls1 p1 i1 = (ls2, p2, i2)" by (metis prod_cases3)
  obtain p3 i3 where u: "marker_unmerge d ls2 p2 i2 = (p3, i3)" by fastforce
  have "at d n ls2 p2 i2 \<and> i2 \<le> index"
    by (rule marker_left_at [OF assms(1) marker_right_at [OF assms(1) zi r] assms(3) l])
  then obtain ls3 where "at d n ls3 p3 i3" "i3 \<le> index" using marker_unmerge_at [OF assms(1) _ _ u] by blast
  then have "marker_ok d n index (Some (p3, i3))" by (rule at_marker [OF assms(1)])
  moreover have "findMarker near d n index = Some (p3, i3)"
    using False by (simp add: findMarker_def z r l u)
  ultimately show ?thesis by simp
qed

text \<open>
  From any stored marker that is right about its position, \<open>findMarker\<close> answers with an item of
  the list and its exact index, not beyond the index sought, so the walk that starts there finds
  the place for an edit.
\<close>

theorem findMarker_correct:
  assumes "doc_ok d" "stored_ok d n near" "0 \<le> index"
  shows "marker_ok (d :: 'a transaction_scheme) n index (findMarker near d n index)"
  by (rule found_marker_ok [OF assms])

lemma findMarker_correct_witness:
  "marker_ok hello CONTENT 3 (findMarker None hello CONTENT 3)"
  by (rule findMarker_correct [OF hello_ok(1)]) (simp_all add: stored_ok_def)

end
