(* ===== verification/YDoc.thy ===== *)
theory YDoc
  imports YTransactionSpec YMarker
begin

text \<open>
  The edits of a text as the program makes them: \<open>ytext.insert\<close> and \<open>ytext.delete\<close>, each a
  transaction of its own, or a deletion and an insertion in one transaction (\<open>ydoc.transact\<close>).
  What a program relies on is stated as an interface: a text is a sequence of code units, an
  insertion and a deletion change it in one place, a transaction does what its body does. The
  model of Yjs is shown to provide it, and from it follows that a sequence of edits acts on the
  document as the same edits on a string.
\<close>

section \<open>The operations\<close>

text \<open>What the operations take from outside the document: the stored search marker nearest to an
  index, the last stored one (which is what the search compares to when the index is not a number), and the order in which the clean-up visits the clients.\<close>

record 'a runtime =
  near_marker :: "'a transaction_scheme \<Rightarrow> jsstring \<Rightarrow> int \<Rightarrow> (ID \<times> int) option"
  last_marker :: "'a transaction_scheme \<Rightarrow> jsstring \<Rightarrow> (ID \<times> int) option"
  ds_order :: "nat list"
  store_order :: "nat list"

definition y_insert :: "'a runtime \<Rightarrow> jsstring \<Rightarrow> nat \<Rightarrow> jsstring \<Rightarrow> 'a transaction_scheme \<Rightarrow>
    'a transaction_scheme result" where
  "y_insert rt n i s t = ytext_insert (findMarker (near_marker rt t n (int i)) t n (int i)) n (int i) s t"

definition y_delete :: "'a runtime \<Rightarrow> jsstring \<Rightarrow> nat \<Rightarrow> nat \<Rightarrow> 'a transaction_scheme \<Rightarrow>
    'a transaction_scheme result" where
  "y_delete rt n i k t = ytext_delete (findMarker (near_marker rt t n (int i)) t n (int i)) n (int i) (int k) t"

text \<open>The same at an index that may be \<open>undefined\<close>: no comparison with it holds, so the walk stays
  where the last stored marker is, moved off what can be merged, or at the start.\<close>

definition y_position :: "'a runtime \<Rightarrow> jsstring \<Rightarrow> int option \<Rightarrow> 'a transaction_scheme \<Rightarrow> (ID \<times> int) option \<times> int" where
  "y_position rt n index t = (case index of
     Some i \<Rightarrow> (findMarker (near_marker rt t n i) t n i, i)
   | None \<Rightarrow> (case (if start t n = [] then None else last_marker rt t n) of
       None \<Rightarrow> (None, 0)
     | Some (p, mi) \<Rightarrow>
         let (q, i) = marker_unmerge t (rev (takeWhile (\<lambda>a. a \<noteq> p) (start t n))) p mi in (Some (q, i), i)))"

definition y_insert_at :: "'a runtime \<Rightarrow> jsstring \<Rightarrow> int option \<Rightarrow> jsstring \<Rightarrow> 'a transaction_scheme \<Rightarrow>
    'a transaction_scheme result" where
  "y_insert_at rt n index s t = (let (m, i) = y_position rt n index t in ytext_insert m n i s t)"

definition y_delete_at :: "'a runtime \<Rightarrow> jsstring \<Rightarrow> int option \<Rightarrow> int \<Rightarrow> 'a transaction_scheme \<Rightarrow>
    'a transaction_scheme result" where
  "y_delete_at rt n index len t = (let (m, i) = y_position rt n index t in ytext_delete m n i len t)"

lemma y_at_nat:
  "y_insert_at rt n (Some (int i)) s = y_insert rt n i s"
  "y_delete_at rt n (Some (int i)) (int k) = y_delete rt n i k"
  by (simp_all add: fun_eq_iff y_insert_at_def y_delete_at_def y_insert_def y_delete_def y_position_def)

definition y_transact :: "'a runtime \<Rightarrow> ('a transaction_scheme \<Rightarrow> 'a transaction_scheme result) \<Rightarrow>
    'a transaction_scheme \<Rightarrow> 'a transaction_scheme result" where
  "y_transact rt = transact (ds_order rt) (store_order rt)"

definition bind_result :: "'a result \<Rightarrow> ('a \<Rightarrow> 'b result) \<Rightarrow> 'b result" where
  "bind_result r f = (case r of Inl e \<Rightarrow> Inl e | Inr x \<Rightarrow> f x)"

lemma bind_result_simps [simp]: "bind_result (Inl e) f = Inl e" "bind_result (Inr x) f = f x"
  by (simp_all add: bind_result_def)

text \<open>\<open>ydoc.transact(() => { ytext.delete(i, k); ytext.insert(i, s) })\<close>, the deletion only if there
  is something to delete. An operation inside a transaction starts none of its own.\<close>

definition replace_body :: "'a runtime \<Rightarrow> jsstring \<Rightarrow> nat \<Rightarrow> nat \<Rightarrow> jsstring \<Rightarrow> 'a transaction_scheme \<Rightarrow>
    'a transaction_scheme result" where
  "replace_body rt n i k s t =
     bind_result (if 0 < k then y_delete rt n i k t else Inr t) (y_insert rt n i s)"

section \<open>The interface\<close>

text \<open>An edit of a string, and the ones that do not cut a surrogate pair; an insertion beyond the end
  appends, a deletion removes what there is of its range.\<close>

datatype edit = Ins nat jsstring | Del nat nat | Replace nat nat jsstring

fun apply_edit :: "edit \<Rightarrow> jsstring \<Rightarrow> jsstring" where
  "apply_edit (Ins i x) s = take i s @ x @ drop i s"
| "apply_edit (Del i k) s = take i s @ drop (i + k) s"
| "apply_edit (Replace i k x) s = take i s @ x @ drop (i + k) s"

fun edit_fits :: "edit \<Rightarrow> jsstring \<Rightarrow> bool" where
  "edit_fits (Ins i x) s = cut_clean s i"
| "edit_fits (Del i k) s = (0 < k \<and> s \<noteq> [] \<and> cut_clean s i \<and> cut_clean s (i + k))"
| "edit_fits (Replace i k x) s = ((0 < k \<longrightarrow> s \<noteq> []) \<and> cut_clean s i \<and> cut_clean s (i + k))"

primrec edits_fit :: "edit list \<Rightarrow> jsstring \<Rightarrow> bool" where
  "edits_fit [] s = True"
| "edits_fit (e # es) s = (edit_fits e s \<and> edits_fit es (apply_edit e s))"

text \<open>Edits of a document, each a transaction, in terms of the operations.\<close>

fun exec_edit :: "(nat \<Rightarrow> jsstring \<Rightarrow> 'd \<Rightarrow> 'd result) \<Rightarrow> (nat \<Rightarrow> nat \<Rightarrow> 'd \<Rightarrow> 'd result) \<Rightarrow>
    (('d \<Rightarrow> 'd result) \<Rightarrow> 'd \<Rightarrow> 'd result) \<Rightarrow> edit \<Rightarrow> 'd \<Rightarrow> 'd result" where
  "exec_edit ins del tx (Ins i s) = tx (ins i s)"
| "exec_edit ins del tx (Del i k) = tx (del i k)"
| "exec_edit ins del tx (Replace i k s) =
     tx (\<lambda>d. bind_result (if 0 < k then del i k d else Inr d) (ins i s))"

primrec exec_edits :: "(nat \<Rightarrow> jsstring \<Rightarrow> 'd \<Rightarrow> 'd result) \<Rightarrow> (nat \<Rightarrow> nat \<Rightarrow> 'd \<Rightarrow> 'd result) \<Rightarrow>
    (('d \<Rightarrow> 'd result) \<Rightarrow> 'd \<Rightarrow> 'd result) \<Rightarrow> edit list \<Rightarrow> 'd \<Rightarrow> 'd result" where
  "exec_edits ins del tx [] d = Inr d"
| "exec_edits ins del tx (e # es) d = bind_result (exec_edit ins del tx e d) (exec_edits ins del tx es)"

text \<open>The operations inside a transaction, over an abstraction \<open>contents\<close> of valid documents.\<close>

locale text_api =
  fixes valid :: "'d \<Rightarrow> bool"
    and contents :: "'d \<Rightarrow> jsstring"
    and ins :: "nat \<Rightarrow> jsstring \<Rightarrow> 'd \<Rightarrow> 'd result"
    and del :: "nat \<Rightarrow> nat \<Rightarrow> 'd \<Rightarrow> 'd result"
  assumes ins_ok: "valid d \<Longrightarrow> edit_fits (Ins i s) (contents d) \<Longrightarrow>
      \<exists>d'. ins i s d = Inr d' \<and> valid d' \<and> contents d' = apply_edit (Ins i s) (contents d)"
    and del_ok: "valid d \<Longrightarrow> edit_fits (Del i k) (contents d) \<Longrightarrow>
      \<exists>d'. del i k d = Inr d' \<and> valid d' \<and> contents d' = apply_edit (Del i k) (contents d)"
begin

lemma cut_clean_prefix: "cut_clean s i \<Longrightarrow> i \<le> j \<Longrightarrow> cut_clean (take i s @ drop j s) i"
  by (cases "i \<le> length s") (auto simp: cut_clean_def nth_append)

lemma insert_after_cut:
  "take i (take i s @ drop (i + k) s) @ x @ drop i (take i s @ drop (i + k) s) = take i s @ x @ drop (i + k) s"
  by (cases "i \<le> length s") auto

lemma replace_ok:
  assumes "valid d" "edit_fits (Replace i k s) (contents d)"
  shows "\<exists>d'. bind_result (if 0 < k then del i k d else Inr d) (ins i s) = Inr d' \<and> valid d' \<and>
    contents d' = apply_edit (Replace i k s) (contents d)"
proof (cases "0 < k")
  case True
  then obtain d1 where d1: "del i k d = Inr d1" "valid d1"
    "contents d1 = take i (contents d) @ drop (i + k) (contents d)"
    using del_ok [OF assms(1), of i k] assms(2) by auto
  have "edit_fits (Ins i s) (contents d1)"
    using assms(2) cut_clean_prefix [of "contents d" i "i + k"] by (auto simp: d1(3))
  from ins_ok [OF d1(2) this] True d1(1) show ?thesis
    by (auto simp only: d1(3) apply_edit.simps insert_after_cut if_True bind_result_simps)
next
  case False
  then show ?thesis using ins_ok [OF assms(1), of i s] assms(2) by simp
qed

end

text \<open>Transactions around them: a transaction succeeds where its body does from every start that
  looks like the document, and leaves what the body made.\<close>

locale transactional_text = text_api +
  fixes settled :: "'d \<Rightarrow> bool"
    and tx :: "('d \<Rightarrow> 'd result) \<Rightarrow> 'd \<Rightarrow> 'd result"
  assumes tx_ok: "settled d \<Longrightarrow>
      (\<And>d0. valid d0 \<Longrightarrow> contents d0 = contents d \<Longrightarrow>
        \<exists>d1. body d0 = Inr d1 \<and> valid d1 \<and> contents d1 = s) \<Longrightarrow>
      \<exists>d2. tx body d = Inr d2 \<and> settled d2 \<and> contents d2 = s"
begin

lemma exec_ok:
  assumes "settled d" "edit_fits e (contents d)"
  shows "\<exists>d'. exec_edit ins del tx e d = Inr d' \<and> settled d' \<and> contents d' = apply_edit e (contents d)"
proof (cases e)
  case (Ins i s)
  show ?thesis unfolding Ins exec_edit.simps
    by (rule tx_ok [OF assms(1)], drule ins_ok [of _ i s]) (use assms(2) Ins in simp_all)
next
  case (Del i k)
  show ?thesis unfolding Del exec_edit.simps
    by (rule tx_ok [OF assms(1)], drule del_ok [of _ i k]) (use assms(2) Del in simp_all)
next
  case (Replace i k s)
  show ?thesis unfolding Replace exec_edit.simps
    by (rule tx_ok [OF assms(1)], drule replace_ok [of _ i k s]) (use assms(2) Replace in simp_all)
qed

lemma exec_edits_ok:
  "settled d \<Longrightarrow> edits_fit es (contents d) \<Longrightarrow>
   \<exists>d'. exec_edits ins del tx es d = Inr d' \<and> settled d' \<and> contents d' = fold apply_edit es (contents d)"
proof (induction es arbitrary: d)
  case (Cons e es)
  obtain d1 where d1: "exec_edit ins del tx e d = Inr d1" "settled d1" "contents d1 = apply_edit e (contents d)"
    using exec_ok [OF Cons.prems(1)] Cons.prems(2) by auto
  with Cons.IH [OF d1(2)] Cons.prems(2) show ?case by auto
qed simp

end

section \<open>The model provides it\<close>

text \<open>A settled document is valid and has no redone items; inside a transaction the record of the
  changes is valid, too. The stored markers must be right about their positions.\<close>

definition settled_doc :: "'a transaction_scheme \<Rightarrow> bool" where
  "settled_doc t = (doc_ok t \<and> no_redone t)"

definition open_doc :: "'a transaction_scheme \<Rightarrow> bool" where
  "open_doc t = (doc_ok t \<and> no_redone t \<and> log_ok t)"

definition markers_right :: "'a runtime \<Rightarrow> bool" where
  "markers_right rt = (\<forall>t n i. doc_ok t \<longrightarrow> stored_ok t n (near_marker rt t n i))"

locale marker_cache =
  fixes rt :: "'a runtime" and n :: jsstring
  assumes markers: "doc_ok t \<Longrightarrow> stored_ok t n (near_marker rt t n i)"
begin

lemma found: "doc_ok t \<Longrightarrow> 0 \<le> i \<Longrightarrow> marker_ok t n i (findMarker (near_marker rt t n i) t n i)"
  by (rule found_marker_ok [OF _ markers])

end

sublocale marker_cache \<subseteq> ytext: transactional_text open_doc "\<lambda>t. toString t n" "y_insert rt n" "y_delete rt n"
  settled_doc "y_transact rt"
proof
  fix d :: "'a transaction_scheme" and i s
  assume d: "open_doc d" and f: "edit_fits (Ins i s) (toString d n)"
  have m: "marker_ok d n (int i) (findMarker (near_marker rt d n (int i)) d n (int i))"
    using d by (simp add: found open_doc_def)
  obtain d' where d': "y_insert rt n i s d = Inr d'" "doc_ok d'"
      "toString d' n = apply_edit (Ins i s) (toString d n)"
    using insert_text [OF _ _ m, of s] d f by (auto simp: y_insert_def open_doc_def)
  have "open_doc d'"
    using d d' ytext_insert_log [OF _ _ _ m, of s d'] ytext_insert_redone [of d _ n "int i" s d']
    by (auto simp: y_insert_def open_doc_def)
  with d' show "\<exists>d'. y_insert rt n i s d = Inr d' \<and> open_doc d' \<and>
      toString d' n = apply_edit (Ins i s) (toString d n)" by blast
next
  fix d :: "'a transaction_scheme" and i k
  assume d: "open_doc d" and f: "edit_fits (Del i k) (toString d n)"
  have m: "marker_ok d n (int i) (findMarker (near_marker rt d n (int i)) d n (int i))"
    using d by (simp add: found open_doc_def)
  have ne: "start d n \<noteq> []" using f by (auto simp: toString_def)
  have c: "cut_clean (toString d n) (nat (int i))" "cut_clean (toString d n) (nat (int i + int k))"
    using f by (simp_all add: nat_int_add)
  obtain d' where d': "y_delete rt n i k d = Inr d'" "doc_ok d'"
      "toString d' n = apply_edit (Del i k) (toString d n)"
    using delete_text [OF _ _ m _ ne c] d by (auto simp: y_delete_def open_doc_def)
  have "open_doc d'"
    using d d' ytext_delete_log [OF _ _ _ m, of "int k" d'] ytext_delete_redone [of d _ n "int i" "int k" d']
    by (auto simp: y_delete_def open_doc_def)
  with d' show "\<exists>d'. y_delete rt n i k d = Inr d' \<and> open_doc d' \<and>
      toString d' n = apply_edit (Del i k) (toString d n)" by blast
next
  fix d :: "'a transaction_scheme" and body :: "'a transaction_scheme \<Rightarrow> 'a transaction_scheme result" and s
  assume d: "settled_doc d" and b: "\<And>d0 :: 'a transaction_scheme. open_doc d0 \<Longrightarrow> toString d0 n = toString d n \<Longrightarrow>
      \<exists>d1. body d0 = Inr d1 \<and> open_doc d1 \<and> toString d1 n = s"
  have "open_doc (beginTransaction d)"
    using d by (simp add: open_doc_def settled_doc_def begin_same begin_log)
  from b [OF this begin_same(4)] obtain d1 where d1: "body (beginTransaction d) = Inr d1"
    "doc_ok d1" "no_redone d1" "log_ok d1" "toString d1 n = s" by (auto simp: open_doc_def)
  show "\<exists>d2. y_transact rt body d = Inr d2 \<and> settled_doc d2 \<and> toString d2 n = s"
    using transact_same [of body d d1, OF d1(1,2,4), of "ds_order rt" "store_order rt"] d1(3,5)
    by (auto simp: y_transact_def settled_doc_def)
qed

context marker_cache
begin

lemma edits_ok:
  "settled_doc d \<Longrightarrow> edits_fit es (toString d n) \<Longrightarrow>
   \<exists>d'. exec_edits (y_insert rt n) (y_delete rt n) (y_transact rt) es d = Inr d' \<and> settled_doc d' \<and>
     toString d' n = fold apply_edit es (toString d n)"
  by (rule ytext.exec_edits_ok)

lemma replace_tx:
  "settled_doc d \<Longrightarrow> edit_fits (Replace i k s) (toString d n) \<Longrightarrow>
   \<exists>d'. y_transact rt (replace_body rt n i k s) d = Inr d' \<and> settled_doc d' \<and>
     toString d' n = apply_edit (Replace i k s) (toString d n)"
  using ytext.exec_ok [of d "Replace i k s"] by (simp add: replace_body_def [abs_def])

end

text \<open>A cache that is empty, and one that remembers the last item of the list.\<close>

definition end_marker :: "'a transaction_scheme \<Rightarrow> jsstring \<Rightarrow> int \<Rightarrow> (ID \<times> int) option" where
  "end_marker t n i = (if start t n = [] then None
     else Some (last (start t n), int (length (visible (units_of t (butlast (start t n)))))))"

lemma end_marker_stored: "doc_ok t \<Longrightarrow> stored_ok t n (end_marker t n i)"
proof (cases "start t n = []")
  case False
  assume "doc_ok t"
  then have d: "distinct (start t n)" by (rule doc_okD(6))
  have s: "start t n = butlast (start t n) @ [last (start t n)]" using False by simp
  with d have "last (start t n) \<notin> set (butlast (start t n))"
    by (metis distinct_append disjoint_iff list.set_intros(1))
  then have "takeWhile (\<lambda>a. a \<noteq> last (start t n)) (butlast (start t n) @ [last (start t n)]) = butlast (start t n)"
    by (subst takeWhile_append2) auto
  with s have "takeWhile (\<lambda>a. a \<noteq> last (start t n)) (start t n) = butlast (start t n)" by metis
  with False show ?thesis by (simp add: end_marker_def stored_ok_def)
qed (simp add: end_marker_def stored_ok_def)

definition no_markers :: "nat list \<Rightarrow> 'a runtime" where
  "no_markers cs = \<lparr>near_marker = \<lambda>t n i. None, last_marker = \<lambda>t n. None, ds_order = cs, store_order = cs\<rparr>"

definition end_markers :: "nat list \<Rightarrow> 'a runtime" where
  "end_markers cs = \<lparr>near_marker = end_marker, last_marker = \<lambda>t n. end_marker t n 0, ds_order = cs, store_order = cs\<rparr>"

lemma markers_right_simps [simp]: "markers_right (no_markers cs)" "markers_right (end_markers cs)"
  by (simp add: markers_right_def no_markers_def stored_ok_def)
    (simp add: markers_right_def end_markers_def end_marker_stored)

lemma markers_right_cache: "markers_right rt \<Longrightarrow> marker_cache rt n"
  by unfold_locales (simp add: markers_right_def)

interpretation no_cache: marker_cache "no_markers cs" n
  by (rule markers_right_cache) simp

interpretation end_cache: marker_cache "end_markers cs" n
  by (rule markers_right_cache) simp

section \<open>Edits of a document\<close>

definition edit_doc :: "'a runtime \<Rightarrow> jsstring \<Rightarrow> edit list \<Rightarrow> 'a transaction_scheme \<Rightarrow>
    'a transaction_scheme result" where
  "edit_doc rt n = exec_edits (y_insert rt n) (y_delete rt n) (y_transact rt)"

lemma new_settled: "settled_doc (new_doc c)"
  by (simp add: settled_doc_def new_doc_ok) (simp add: no_redone_def new_doc_def)

text \<open>
  C3. a sequence of insertions, deletions and replacements, each in a transaction with its clean-up
  and found through the search marker, acts on the shared text as the same edits act on a string,
  provided they stay inside it and cut no surrogate pair.
\<close>

theorem edits_refine_strings:
  assumes "markers_right rt" "settled_doc d" "edits_fit es (toString d n)"
  shows "\<exists>d'. edit_doc rt n es d = Inr d' \<and> settled_doc d' \<and> toString d' n = fold apply_edit es (toString d n)"
  unfolding edit_doc_def by (rule marker_cache.edits_ok [OF markers_right_cache [OF assms(1)] assms(2,3)])

lemma edits_refine_strings_witness:
  "\<exists>d'. edit_doc (end_markers [7]) CONTENT [Ins 0 (js ''hello''), Replace 1 3 (js ''ipp''), Del 4 1] (new_doc 7)
     = Inr d' \<and> toString d' CONTENT = js ''hipp''"
proof -
  have "edits_fit [Ins 0 (js ''hello''), Replace 1 3 (js ''ipp''), Del 4 1] (toString (new_doc 7) CONTENT)"
    by (simp add: new_doc_text cut_clean_def isHighSurrogate_def)
  from edits_refine_strings [OF markers_right_simps(2) new_settled this, of "[7]"]
  show ?thesis by (auto simp: new_doc_text)
qed

end
