(* ===== verification/YAnchor.thy ===== *)
theory YAnchor
  imports YDoc
begin

text \<open>
  Where the characters of a text go. An anchor, a character's ID or the end of the text, has an
  index, and an edit that keeps the character moves it as it moves the index in a string. This is a
  second contract of the text's operations, stated beside the one of \<open>YDoc\<close> and composed over
  transactions and sequences of edits; at the end, what it means for relative positions.
\<close>

section \<open>Anchors in the units\<close>

definition anchored :: "unit_list \<Rightarrow> ID option \<Rightarrow> nat \<Rightarrow> bool" where
  "anchored us a k = (case a of
     None \<Rightarrow> k = length (visible us)
   | Some i \<Rightarrow> k < length (visible us) \<and> visible_ids us ! k = i)"

lemma visible_ids_hide: "visible_ids (hide m us) = drop m (visible_ids us)"
  by (induction m us rule: hide.induct) simp_all

lemma visible_ids_split:
  assumes "us0 = us @ vs" "length (visible us) = min i (length (visible us0))"
  shows "visible_ids us = take i (visible_ids us0)" "visible_ids vs = drop i (visible_ids us0)"
proof -
  have l: "length (visible_ids us) = min i (length (visible_ids us0))"
    using assms(2) by (simp only: visible_ids_length)
  have s: "visible_ids us0 = visible_ids us @ visible_ids vs" by (simp add: assms(1))
  show "visible_ids us = take i (visible_ids us0)" using l unfolding s by (auto simp: min_def split: if_splits)
  show "visible_ids vs = drop i (visible_ids us0)" using l unfolding s by (auto simp: min_def split: if_splits)
qed

lemma inserted_visible_ids:
  assumes "inserted us0 i new us1"
  shows "visible_ids us1 = take i (visible_ids us0) @ visible_ids new @ drop i (visible_ids us0)"
proof -
  obtain us vs where uv: "us0 = us @ vs" "length (visible us) = min i (length (visible us0))" "us1 = us @ new @ vs"
    using assms unfolding inserted_def by blast
  show ?thesis unfolding uv(3) visible_ids_simps visible_ids_split [OF uv(1,2)] ..
qed

lemma removed_visible_ids:
  assumes "removed us0 i k us1"
  shows "visible_ids us1 = take i (visible_ids us0) @ drop (i + k) (visible_ids us0)"
proof -
  obtain us vs where uv: "us0 = us @ vs" "length (visible us) = min i (length (visible us0))" "us1 = us @ hide k vs"
    using assms unfolding removed_def by blast
  show ?thesis using visible_ids_split [OF uv(1,2)]
    by (simp only: uv(3) visible_ids_simps visible_ids_hide drop_drop) (simp add: add.commute)
qed

lemma anchored_inserted:
  assumes "inserted us0 p new us1" "anchored us0 a k" "p \<le> length (visible us0)"
  shows "anchored us1 a (if p \<le> k then k + length (visible new) else k)"
proof -
  have l: "length (visible us1) = length (visible us0) + length (visible new)"
    using inserted_visible [OF assms(1)] assms(3) by simp
  show ?thesis
  proof (cases a)
    case None
    with assms(2,3) l show ?thesis by (simp add: anchored_def)
  next
    case (Some i)
    with assms(2,3) l inserted_visible_ids [OF assms(1)] show ?thesis
      by (auto simp: anchored_def nth_append visible_ids_length min_def)
  qed
qed

lemma anchored_removed:
  assumes "removed us0 p m us1" "anchored us0 a k" "k < p \<or> p + m \<le> k"
  shows "anchored us1 a (if k < p then k else k - m)"
proof -
  note v = removed_visible [OF assms(1)]
  show ?thesis
  proof (cases a)
    case None
    with assms(2,3) show ?thesis by (auto simp: anchored_def v)
  next
    case (Some i)
    with assms(2,3) removed_visible_ids [OF assms(1)] show ?thesis
      by (auto simp: anchored_def v nth_append visible_ids_length min_def)
  qed
qed

section \<open>The interface\<close>

fun moved :: "edit \<Rightarrow> nat \<Rightarrow> nat" where
  "moved (Ins i s) k = (if i \<le> k then k + length s else k)"
| "moved (Del i m) k = (if k < i then k else k - m)"
| "moved (Replace i m s) k = (if k < i then k else k - m + length s)"

fun spares :: "edit \<Rightarrow> nat \<Rightarrow> bool" where
  "spares (Ins i s) k = True"
| "spares (Del i m) k = (k < i \<or> i + m \<le> k)"
| "spares (Replace i m s) k = (k < i \<or> i + m \<le> k)"

fun edit_inside :: "edit \<Rightarrow> jsstring \<Rightarrow> bool" where
  "edit_inside (Ins i x) s = (i \<le> length s)"
| "edit_inside (Del i k) s = (i + k \<le> length s)"
| "edit_inside (Replace i k x) s = (i + k \<le> length s)"

text \<open>An edit away from a range (at its start it goes in front of it), and what it does to the range.\<close>

fun avoids :: "edit \<Rightarrow> nat \<Rightarrow> nat \<Rightarrow> bool" where
  "avoids (Ins i s) from to = (i \<le> from \<or> to < i)"
| "avoids (Del i m) from to = (i + m \<le> from \<or> to < i)"
| "avoids (Replace i m s) from to = (i + m \<le> from \<or> to < i)"

primrec edits_avoid :: "edit list \<Rightarrow> nat \<Rightarrow> nat \<Rightarrow> jsstring \<Rightarrow> bool" where
  "edits_avoid [] from to s = True"
| "edits_avoid (e # es) from to s = (edit_inside e s \<and> avoids e from to \<and>
     edits_avoid es (moved e from) (moved e to) (apply_edit e s))"

lemma avoids_spares: "avoids e from to \<Longrightarrow> from < to \<Longrightarrow> spares e from \<and> spares e to"
  by (cases e) auto

lemma take_drop_front: "i + m \<le> k \<Longrightarrow> k \<le> length s \<Longrightarrow>
    drop (k - m + length x) (take i s @ x @ drop (i + m) s) = drop k s"
  by (simp add: drop_append min_def)

lemma take_drop_behind: "k < i \<Longrightarrow> i \<le> length s \<Longrightarrow>
    take k (take i s @ x) = take k s"
  by (simp add: min_def)

lemma replace_slice:
  assumes "from < to" "to \<le> length s" "i + m \<le> length s" "i + m \<le> from \<or> to < i"
    and mv_def: "\<And>k. mv k = (if k < i then k else k - m + length x)"
  shows "mv from < mv to" "mv to \<le> length (take i s @ x @ drop (i + m) s)"
    "take (mv to - mv from) (drop (mv from) (take i s @ x @ drop (i + m) s)) = take (to - from) (drop from s)"
proof -
  show "mv from < mv to" "mv to \<le> length (take i s @ x @ drop (i + m) s)" using assms by (auto simp: min_def)
  show "take (mv to - mv from) (drop (mv from) (take i s @ x @ drop (i + m) s)) = take (to - from) (drop from s)"
  proof (cases "to < i")
    case True
    then have "mv from = from" "mv to = to" using assms(1) by (simp_all add: mv_def)
    moreover have "take to (take i s @ x @ drop (i + m) s) = take to s"
      using True assms(3) by (intro take_drop_behind) auto
    ultimately show ?thesis by (metis drop_take)
  next
    case False
    then have k: "i + m \<le> from" using assms(4) by simp
    then have "mv from = from - m + length x" "mv to = to - m + length x" using assms(1) by (auto simp: mv_def)
    with take_drop_front [OF k, of s x] k assms(1,2) show ?thesis by simp
  qed
qed

lemma avoids_slice:
  assumes "avoids e from to" "edit_inside e s" "from < to" "to \<le> length s"
  shows "moved e from < moved e to" "moved e to \<le> length (apply_edit e s)"
    "take (moved e to - moved e from) (drop (moved e from) (apply_edit e s)) = take (to - from) (drop from s)"
proof -
  have "moved e from < moved e to \<and> moved e to \<le> length (apply_edit e s) \<and>
    take (moved e to - moved e from) (drop (moved e from) (apply_edit e s)) = take (to - from) (drop from s)"
  proof (cases e)
    case (Ins i x)
    have mv: "moved e k = (if k < i then k else k - 0 + length x)" for k by (simp add: Ins)
    have r: "i + 0 \<le> length s" "i + 0 \<le> from \<or> to < i" using assms(1,2) by (simp_all add: Ins)
    have a: "apply_edit e s = take i s @ x @ drop (i + 0) s" by (simp add: Ins)
    show ?thesis unfolding a using replace_slice [OF assms(3,4) r mv] by blast
  next
    case (Del i m)
    have mv: "moved e k = (if k < i then k else k - m + length [])" for k by (simp add: Del)
    have r: "i + m \<le> length s" "i + m \<le> from \<or> to < i" using assms(1,2) by (simp_all add: Del)
    have a: "apply_edit e s = take i s @ [] @ drop (i + m) s" by (simp add: Del)
    show ?thesis unfolding a using replace_slice [OF assms(3,4) r mv] by blast
  next
    case (Replace i m x)
    have mv: "moved e k = (if k < i then k else k - m + length x)" for k by (simp add: Replace)
    have r: "i + m \<le> length s" "i + m \<le> from \<or> to < i" using assms(1,2) by (simp_all add: Replace)
    have a: "apply_edit e s = take i s @ x @ drop (i + m) s" by (simp add: Replace)
    show ?thesis unfolding a using replace_slice [OF assms(3,4) r mv] by blast
  qed
  then show "moved e from < moved e to" "moved e to \<le> length (apply_edit e s)"
    "take (moved e to - moved e from) (drop (moved e from) (apply_edit e s)) = take (to - from) (drop from s)"
    by blast+
qed

locale anchored_text = transactional_text valid contents ins del settled tx
  for valid :: "'d \<Rightarrow> bool" and contents :: "'d \<Rightarrow> jsstring" and ins :: "nat \<Rightarrow> jsstring \<Rightarrow> 'd \<Rightarrow> 'd result"
    and del :: "nat \<Rightarrow> nat \<Rightarrow> 'd \<Rightarrow> 'd result" and settled :: "'d \<Rightarrow> bool"
    and tx :: "('d \<Rightarrow> 'd result) \<Rightarrow> 'd \<Rightarrow> 'd result" +
  fixes at :: "'d \<Rightarrow> 'i \<Rightarrow> nat \<Rightarrow> bool"
  assumes ins_at: "valid d \<Longrightarrow> edit_fits (Ins i s) (contents d) \<Longrightarrow> i \<le> length (contents d) \<Longrightarrow>
      ins i s d = Inr d' \<Longrightarrow> at d a k \<Longrightarrow> at d' a (moved (Ins i s) k)"
    and del_at: "valid d \<Longrightarrow> edit_fits (Del i m) (contents d) \<Longrightarrow> del i m d = Inr d' \<Longrightarrow>
      spares (Del i m) k \<Longrightarrow> at d a k \<Longrightarrow> at d' a (moved (Del i m) k)"
    and tx_at: "settled d \<Longrightarrow> \<exists>d0. valid d0 \<and> contents d0 = contents d \<and> (\<forall>a k. at d0 a k = at d a k) \<and>
      (\<forall>body d1. body d0 = Inr d1 \<longrightarrow> valid d1 \<longrightarrow>
        (\<exists>d2. tx body d = Inr d2 \<and> (\<forall>a k. at d2 a k = at d1 a k)))"
begin

lemma body_at:
  assumes d: "settled d" and f: "edit_fits e (contents d)" "edit_inside e (contents d)"
    and x: "exec_edit ins del tx e d = Inr d'" and k: "spares e k" "at d a k"
  shows "at d' a (moved e k)"
proof -
  obtain d0 where d0: "valid d0" "contents d0 = contents d" "\<And>a k. at d0 a k = at d a k"
    and run: "\<And>body d1. body d0 = Inr d1 \<Longrightarrow> valid d1 \<Longrightarrow>
      \<exists>d2. tx body d = Inr d2 \<and> (\<forall>a k. at d2 a k = at d1 a k)"
    using tx_at [OF d] by blast
  show ?thesis
  proof (cases e)
    case (Ins i s)
    then obtain d1 where d1: "ins i s d0 = Inr d1" "valid d1" using ins_ok [OF d0(1), of i s] f d0(2) by auto
    have "at d1 a (moved e k)"
      using ins_at [OF d0(1) _ _ d1(1), of a k] f k(2) d0(2,3) by (simp add: Ins)
    with run [of "ins i s" d1] d1 x show ?thesis by (auto simp: Ins)
  next
    case (Del i m)
    then obtain d1 where d1: "del i m d0 = Inr d1" "valid d1" using del_ok [OF d0(1), of i m] f d0(2) by auto
    have "at d1 a (moved e k)"
      using del_at [OF d0(1) _ d1(1), of k a] f k d0(2,3) by (simp add: Del)
    with run [of "del i m" d1] d1 x show ?thesis by (auto simp: Del)
  next
    case (Replace i m s)
    let ?body = "\<lambda>d. bind_result (if 0 < m then del i m d else Inr d) (ins i s)"
    obtain d2 where d2: "?body d0 = Inr d2" "valid d2"
      using replace_ok [OF d0(1), of i m s] f d0(2) by (auto simp: Replace)
    have "at d2 a (moved e k)"
    proof (cases "0 < m")
      case True
      obtain d1 where d1: "del i m d0 = Inr d1" "valid d1" "contents d1 = apply_edit (Del i m) (contents d)"
        using del_ok [OF d0(1), of i m] f d0(2) True by (auto simp: Replace)
      have "at d1 a (if k < i then k else k - m)"
        using del_at [OF d0(1) _ d1(1), of k a] f k d0(2,3) True by (simp add: Replace)
      moreover have "edit_fits (Ins i s) (contents d1)" "i \<le> length (contents d1)"
        using f cut_clean_prefix [of "contents d" i "i + m"] by (simp_all add: Replace d1(3))
      moreover have "ins i s d1 = Inr d2" using d2(1) d1(1) True by simp
      ultimately have "at d2 a (moved (Ins i s) (if k < i then k else k - m))" by (intro ins_at [OF d1(2)])
      then show ?thesis using k(1) by (auto simp: Replace split: if_splits)
    next
      case False
      have "ins i s d0 = Inr d2" using d2(1) False by simp
      from ins_at [OF d0(1) _ _ this, of a k] f k d0(2,3) False show ?thesis
        by (auto simp: Replace split: if_splits)
    qed
    with run [of ?body d2] d2 x show ?thesis by (auto simp: Replace)
  qed
qed

lemma edits_at:
  assumes "settled d" "edits_fit es (contents d)" "edits_avoid es from to (contents d)" "from < to"
    "to \<le> length (contents d)" "exec_edits ins del tx es d = Inr d'" "at d a from" "at d b to"
  shows "at d' a (fold moved es from) \<and> at d' b (fold moved es to) \<and> fold moved es from < fold moved es to \<and>
    fold moved es to \<le> length (contents d') \<and>
    take (fold moved es to - fold moved es from) (drop (fold moved es from) (contents d')) =
      take (to - from) (drop from (contents d))"
  using assms
proof (induction es arbitrary: d "from" to)
  case (Cons e es)
  have f: "edit_fits e (contents d)" "edit_inside e (contents d)" "avoids e from to"
    using Cons.prems(2,3) by simp_all
  obtain d1 where d1: "exec_edit ins del tx e d = Inr d1" "settled d1" "contents d1 = apply_edit e (contents d)"
    using exec_ok [OF Cons.prems(1) f(1)] by blast
  note sl = avoids_slice [OF f(3,2) Cons.prems(4,5)]
  have x: "exec_edits ins del tx es d1 = Inr d'" using Cons.prems(6) d1(1) by simp
  have at1: "at d1 a (moved e from)" "at d1 b (moved e to)"
    using body_at [OF Cons.prems(1) f(1,2) d1(1)] avoids_spares [OF f(3) Cons.prems(4)] Cons.prems(7,8) by blast+
  show ?case
    using Cons.IH [OF d1(2) _ _ sl(1) _ x at1] Cons.prems(2,3) sl(2,3) d1(3) by simp
qed simp

end

section \<open>The model provides it\<close>

lemma insert_at:
  assumes d: "open_doc d" and m: "marker_cache rt n" and f: "cut_clean (toString d n) i" "i \<le> length (toString d n)"
    and x: "y_insert rt n i s d = Inr d'" and a: "anchored (units d n) a k"
  shows "anchored (units d' n) a (if i \<le> k then k + length s else k)"
proof (cases "s = []")
  case True
  then have "d' = d" using x by (simp add: y_insert_def ytext_insert_def)
  with a True show ?thesis by simp
next
  case False
  have ok: "doc_ok d" using d by (simp add: open_doc_def)
  have mk: "marker_ok d n (int i) (findMarker (near_marker rt d n (int i)) d n (int i))"
    using marker_cache.found [OF m ok] by simp
  have "inserted (units d n) i (new_units (clientID d) (getState d (clientID d)) s) (units d' n)"
    using insert_units [OF ok _ mk False] x f toString_units [OF ok] by (auto simp: y_insert_def)
  from anchored_inserted [OF this a, unfolded visible_new_units] f(2) show ?thesis
    by (simp only: toString_units [OF ok])
qed

lemma delete_at:
  assumes d: "open_doc d" and m: "marker_cache rt n" and f: "edit_fits (Del i j) (toString d n)"
    and x: "y_delete rt n i j d = Inr d'" and k: "k < i \<or> i + j \<le> k" and a: "anchored (units d n) a k"
  shows "anchored (units d' n) a (if k < i then k else k - j)"
proof -
  have ok: "doc_ok d" using d by (simp add: open_doc_def)
  have mk: "marker_ok d n (int i) (findMarker (near_marker rt d n (int i)) d n (int i))"
    using marker_cache.found [OF m ok] by simp
  have ne: "start d n \<noteq> [] \<or> int j = 0" using f by (auto simp: toString_def)
  have "removed (units d n) i j (units d' n)"
    using delete_units [OF ok _ mk _ ne] x f toString_units [OF ok] by (auto simp: y_delete_def nat_int_add)
  from anchored_removed [OF this a k] show ?thesis .
qed

sublocale marker_cache \<subseteq> anchors: anchored_text open_doc "\<lambda>t. toString t n" "y_insert rt n" "y_delete rt n"
  settled_doc "y_transact rt" "\<lambda>t. anchored (units t n)"
proof
  fix d d' :: "'a transaction_scheme" and i s a k
  assume "open_doc d" "edit_fits (Ins i s) (toString d n)" "i \<le> length (toString d n)"
    "y_insert rt n i s d = Inr d'" "anchored (units d n) a k"
  then show "anchored (units d' n) a (moved (Ins i s) k)"
    using insert_at [OF _ marker_cache_axioms] by simp
next
  fix d d' :: "'a transaction_scheme" and i m a k
  assume "open_doc d" "edit_fits (Del i m) (toString d n)" "y_delete rt n i m d = Inr d'"
    "spares (Del i m) k" "anchored (units d n) a k"
  then show "anchored (units d' n) a (moved (Del i m) k)"
    using delete_at [OF _ marker_cache_axioms] by simp
next
  fix d :: "'a transaction_scheme"
  assume d: "settled_doc d"
  have o: "open_doc (beginTransaction d)"
    using d by (simp add: open_doc_def settled_doc_def begin_same begin_log)
  have "\<exists>d2. y_transact rt body d = Inr d2 \<and> (\<forall>a k. anchored (units d2 n) a k = anchored (units d1 n) a k)"
    if "body (beginTransaction d) = Inr d1" "open_doc d1" for body d1
    using transact_same [of body d d1 "ds_order rt" "store_order rt"] that
    by (auto simp: y_transact_def open_doc_def)
  with o show "\<exists>d0. open_doc d0 \<and> toString d0 n = toString d n \<and>
      (\<forall>a k. anchored (units d0 n) a k = anchored (units d n) a k) \<and>
      (\<forall>body d1. body d0 = Inr d1 \<longrightarrow> open_doc d1 \<longrightarrow>
        (\<exists>d2. y_transact rt body d = Inr d2 \<and> (\<forall>a k. anchored (units d2 n) a k = anchored (units d1 n) a k)))"
    by (intro exI [of _ "beginTransaction d"]) (simp add: begin_same)
qed

section \<open>Relative positions\<close>

definition anchor_of :: "'a doc_scheme \<Rightarrow> jsstring \<Rightarrow> nat \<Rightarrow> ID option" where
  "anchor_of d n k = (if k < length (visible (units d n)) then Some (visible_ids (units d n) ! k) else None)"

lemma anchored_here: "doc_ok d \<Longrightarrow> k \<le> length (toString d n) \<Longrightarrow> anchored (units d n) (anchor_of d n k) k"
  by (auto simp: anchored_def anchor_of_def toString_units)

lemma resolve_anchored:
  assumes "doc_ok d" "doc_ok d1" "no_redone d1" "0 \<le> jsint_val assoc"
    and a: "anchored (units d1 n) (anchor_of d n k) k1"
  shows "createAbsolutePositionFromRelativePosition (createRelativePositionFromTypeIndex d n k assoc) d1 True
    = Some (Inr (Some \<lparr>ap_type = n, ap_index = int k1, ap_assoc = assoc\<rparr>))"
proof (cases "k < length (visible (units d n))")
  case True
  let ?i = "visible_ids (units d n) ! k"
  have i: "k1 < length (visible (units d1 n))" "visible_ids (units d1 n) ! k1 = ?i"
    using a True by (simp_all add: anchored_def anchor_of_def)
  have "?i \<in> fst ` set (units d1 n)" using visible_id_mem [OF i(1)] i(2) by simp
  moreover have "index_of (units d1 n) ?i = k1"
    using visible_ids_index [OF distinct_units [OF assms(2)] i(1)] i(2) by simp
  ultimately show ?thesis
    using createAbsolute_item [OF assms(2,3)] assms(4) True
    by (simp add: createRelative_spec [OF assms(1,4)] createRelativePosition_def)
next
  case False
  then have "k1 = length (visible (units d1 n))" using a by (simp add: anchored_def anchor_of_def)
  with createAbsolute_end [OF assms(2)] assms(4) False show ?thesis
    by (simp add: createRelative_spec [OF assms(1,4)] createRelativePosition_def)
qed

text \<open>A range of a text, after edits away from it.\<close>

context marker_cache
begin

lemma range_edits:
  assumes d: "settled_doc d" and f: "edits_fit es (toString d n)" "edits_avoid es from to (toString d n)"
    and k: "from < to" "to \<le> length (toString d n)" and x: "edit_doc rt n es d = Inr d1"
  shows "anchored (units d1 n) (anchor_of d n from) (fold moved es from) \<and>
    anchored (units d1 n) (anchor_of d n to) (fold moved es to) \<and>
    fold moved es from < fold moved es to \<and> fold moved es to \<le> length (toString d1 n) \<and>
    take (fold moved es to - fold moved es from) (drop (fold moved es from) (toString d1 n)) =
      take (to - from) (drop from (toString d n))"
proof -
  have ok: "doc_ok d" using d by (simp add: settled_doc_def)
  have "anchored (units d n) (anchor_of d n from) from" "anchored (units d n) (anchor_of d n to) to"
    using k by (auto intro: anchored_here [OF ok])
  with x show ?thesis unfolding edit_doc_def by (intro anchors.edits_at [OF d f k])
qed

end

lemma range_after_edits:
  assumes "markers_right rt" "settled_doc d" "edits_fit es (toString d n)" "edits_avoid es from to (toString d n)"
    "from < to" "to \<le> length (toString d n)" "edit_doc rt n es d = Inr d1"
  shows "anchored (units d1 n) (anchor_of d n from) (fold moved es from)"
    "anchored (units d1 n) (anchor_of d n to) (fold moved es to)"
    "fold moved es from < fold moved es to" "fold moved es to \<le> length (toString d1 n)"
    "js_slice (toString d1 n) (int (fold moved es from)) (int (fold moved es to)) =
      js_slice (toString d n) (int from) (int to)"
proof -
  note r = marker_cache.range_edits [OF markers_right_cache [OF assms(1)] assms(2-7)]
  show "anchored (units d1 n) (anchor_of d n from) (fold moved es from)"
    "anchored (units d1 n) (anchor_of d n to) (fold moved es to)"
    "fold moved es from < fold moved es to" "fold moved es to \<le> length (toString d1 n)"
    using r by blast+
  with r assms(5,6) show "js_slice (toString d1 n) (int (fold moved es from)) (int (fold moved es to)) =
      js_slice (toString d n) (int from) (int to)"
    by (simp only: js_slice_nat) (simp add: min_def)
qed

end
