(* ===== verification/JsRegex.thy ===== *)
theory JsRegex
  imports Prelude
begin

text \<open>
  The fragment of JavaScript's regular expressions and string methods the frontend uses: patterns
  that are sequences of greedy items, matched by backtracking as the language defines it (longest
  repetition first); the alternation of literal words with the flags \<open>g\<close> and \<open>i\<close>, its
  \<open>split\<close> with a capture group and its stateful \<open>test\<close>; \<open>startsWith\<close>, \<open>trim\<close> and
  \<open>split\<close> at a character. The general facts say that a match is a decomposition of the string,
  that a match is found whenever there is one, and that splitting loses nothing.
\<close>

section \<open>Character classes\<close>

definition ch :: "char \<Rightarrow> jschar" where
  "ch c = of_char c"

definition isLineTerminator :: "jschar \<Rightarrow> bool" where
  "isLineTerminator c = (unat c = 10 \<or> unat c = 13 \<or> unat c = 8232 \<or> unat c = 8233)"

definition isSpace :: "jschar \<Rightarrow> bool" where
  "isSpace c = (let n = unat c in
     9 \<le> n \<and> n \<le> 13 \<or> n = 32 \<or> n = 160 \<or> n = 5760 \<or> 8192 \<le> n \<and> n \<le> 8202 \<or>
     n = 8232 \<or> n = 8233 \<or> n = 8239 \<or> n = 8287 \<or> n = 12288 \<or> n = 65279)"

definition isDigit :: "jschar \<Rightarrow> bool" where
  "isDigit c = (48 \<le> unat c \<and> unat c \<le> 57)"

definition dot :: "jschar \<Rightarrow> bool" where
  "dot c = (\<not> isLineTerminator c)"

section \<open>Sequences of greedy items\<close>

text \<open>\<open>One p\<close> is a single character of the class, \<open>Rep lo p\<close> is \<open>p*\<close> (\<open>lo = 0\<close>) or \<open>p+\<close>
  (\<open>lo = 1\<close>), \<open>Eos\<close> is \<open>$\<close>. All patterns start with \<open>^\<close>.\<close>

datatype ritem = One "jschar \<Rightarrow> bool" | Rep nat "jschar \<Rightarrow> bool" | Eos

definition lit :: "string \<Rightarrow> ritem list" where
  "lit s = map (\<lambda>c. One (\<lambda>x. x = of_char c)) s"

primrec first_some :: "('a \<Rightarrow> 'b option) \<Rightarrow> 'a list \<Rightarrow> 'b option" where
  "first_some f [] = None"
| "first_some f (x # xs) = (case f x of None \<Rightarrow> first_some f xs | Some y \<Rightarrow> Some y)"

text \<open>The pieces of the string the items consume, in order.\<close>

primrec re_match :: "ritem list \<Rightarrow> jsstring \<Rightarrow> jsstring list option" where
  "re_match [] s = Some []"
| "re_match (it # its) s = (case it of
     One p \<Rightarrow> (case s of [] \<Rightarrow> None
                | c # cs \<Rightarrow> if p c then map_option ((#) [c]) (re_match its cs) else None)
   | Rep lo p \<Rightarrow> first_some (\<lambda>k. map_option ((#) (take k s)) (re_match its (drop k s)))
                  (rev [lo..<Suc (length (takeWhile p s))])
   | Eos \<Rightarrow> if s = [] then map_option ((#) []) (re_match its s) else None)"

fun fits :: "ritem \<Rightarrow> jsstring \<Rightarrow> bool" where
  "fits (One p) w = (case w of [c] \<Rightarrow> p c | _ \<Rightarrow> False)"
| "fits (Rep lo p) w = (lo \<le> length w \<and> list_all p w)"
| "fits Eos w = (w = [])"

text \<open>Where the items' pieces are \<open>ps\<close> and \<open>r\<close> is what follows the match, \<open>$\<close> stands only before
  nothing.\<close>

primrec decomposes :: "ritem list \<Rightarrow> jsstring list \<Rightarrow> jsstring \<Rightarrow> bool" where
  "decomposes [] ps r = (ps = [])"
| "decomposes (it # its) ps r = (case ps of [] \<Rightarrow> False
     | p # ps' \<Rightarrow> fits it p \<and> decomposes its ps' r \<and>
         (case it of Eos \<Rightarrow> concat ps' @ r = [] | _ \<Rightarrow> True))"

lemma first_some_Some: "first_some f xs = Some y \<Longrightarrow> \<exists>x\<in>set xs. f x = Some y"
  by (induction xs) (auto split: option.splits)

lemma first_some_None: "first_some f xs = None \<longleftrightarrow> (\<forall>x\<in>set xs. f x = None)"
  by (induction xs) (auto split: option.splits)

lemma list_all_take_takeWhile: "k \<le> length (takeWhile p s) \<Longrightarrow> list_all p (take k s)"
  by (induction s arbitrary: k) (auto simp: take_Cons split: nat.splits if_splits)

lemma takeWhile_ge: "list_all p w \<Longrightarrow> length w \<le> length (takeWhile p (w @ s))"
  by (induction w) auto

lemma re_match_sound:
  "re_match its s = Some ps \<Longrightarrow> \<exists>r. s = concat ps @ r \<and> decomposes its ps r"
proof (induction its arbitrary: s ps)
  case Nil
  then show ?case by simp
next
  case (Cons it its)
  show ?case
  proof (cases it)
    case (One p)
    with Cons.prems obtain c cs qs where "s = c # cs" "p c" "re_match its cs = Some qs" "ps = [c] # qs"
      by (auto split: list.splits if_splits)
    with Cons.IH [of cs qs] One show ?thesis by auto
  next
    case (Rep lo p)
    with Cons.prems obtain k where k: "k \<in> {lo..<Suc (length (takeWhile p s))}"
      and m: "map_option ((#) (take k s)) (re_match its (drop k s)) = Some ps"
      by (auto dest: first_some_Some simp del: upt_Suc)
    then obtain qs where qs: "re_match its (drop k s) = Some qs" "ps = take k s # qs" by auto
    from Cons.IH [OF qs(1)] obtain r where "drop k s = concat qs @ r" "decomposes its qs r" by auto
    moreover have "k \<le> length s" using k length_takeWhile_le [of p s] by simp
    moreover have "s = take k s @ drop k s" by simp
    ultimately show ?thesis using qs k Rep list_all_take_takeWhile [of k p s]
      by (intro exI [of _ r]) (simp add: min_def)
  next
    case Eos
    with Cons show ?thesis by (fastforce split: if_splits)
  qed
qed

lemma re_match_complete:
  "decomposes its ps r \<Longrightarrow> re_match its (concat ps @ r) \<noteq> None"
proof (induction its arbitrary: ps)
  case Nil
  then show ?case by simp
next
  case (Cons it its)
  then obtain p qs where ps: "ps = p # qs" "fits it p" and d: "decomposes its qs r"
    by (auto split: list.splits)
  have IH: "re_match its (concat qs @ r) \<noteq> None" by (rule Cons.IH [OF d])
  show ?case
  proof (cases it)
    case (One c)
    with ps IH show ?thesis by (auto split: list.splits)
  next
    case (Rep lo c)
    with ps have "lo \<le> length p" "list_all c p" by auto
    with takeWhile_ge [of c p "concat qs @ r"]
    have "length p \<in> set (rev [lo..<Suc (length (takeWhile c (p @ concat qs @ r)))])"
      by (auto simp del: upt_Suc)
    moreover have "map_option ((#) (take (length p) (p @ concat qs @ r)))
        (re_match its (drop (length p) (p @ concat qs @ r))) \<noteq> None"
      using IH by simp
    ultimately show ?thesis using ps Rep
      by (simp add: first_some_None del: upt_Suc) (rule bexI [of _ "length p"], simp_all)
  next
    case Eos
    with Cons.prems ps IH show ?thesis by auto
  qed
qed

section \<open>Words under the flags g and i\<close>

text \<open>
  \<open>canon\<close> is the case folding of the \<open>i\<close> flag as far as ASCII words can tell: a character outside
  ASCII never folds to one inside it.
\<close>

definition canon :: "jschar \<Rightarrow> jschar" where
  "canon c = (if 97 \<le> unat c \<and> unat c \<le> 122 then c - 32 else c)"

definition starts_i :: "jsstring \<Rightarrow> jsstring \<Rightarrow> bool" where
  "starts_i s w = (map canon (take (length w) s) = map canon w)"

text \<open>The length of the first alternative that matches at the start of \<open>s\<close>.\<close>

definition word_at :: "jsstring list \<Rightarrow> jsstring \<Rightarrow> nat option" where
  "word_at ws s = map_option length (find (starts_i s) ws)"

text \<open>The end of the leftmost match.\<close>

fun word_search :: "jsstring list \<Rightarrow> jsstring \<Rightarrow> nat option" where
  "word_search ws s = (case word_at ws s of Some n \<Rightarrow> Some n
     | None \<Rightarrow> (case s of [] \<Rightarrow> None | c # cs \<Rightarrow> map_option Suc (word_search ws cs)))"

declare word_search.simps [simp del]

text \<open>\<open>RegExp.prototype.test\<close> with the flag \<open>g\<close>: the search starts at \<open>lastIndex\<close>, which is moved
  to the end of the match, or back to 0.\<close>

definition re_test :: "jsstring list \<Rightarrow> nat \<Rightarrow> jsstring \<Rightarrow> bool \<times> nat" where
  "re_test ws lastIndex s = (if length s < lastIndex then (False, 0)
     else case word_search ws (drop lastIndex s) of
            None \<Rightarrow> (False, 0) | Some e \<Rightarrow> (True, lastIndex + e))"

text \<open>\<open>String.prototype.split\<close> with a pattern that captures its whole match: the separators are
  kept, at the odd places of the result. The pieces accumulate in \<open>acc\<close>.\<close>

function split_words :: "jsstring list \<Rightarrow> jsstring \<Rightarrow> jsstring \<Rightarrow> jsstring list" where
  "split_words ws acc [] = [acc]"
| "split_words ws acc (c # cs) = (case word_at ws (c # cs) of
     None \<Rightarrow> split_words ws (acc @ [c]) cs
   | Some n \<Rightarrow> if n = 0 \<and> acc = [] then split_words ws (acc @ [c]) cs
               else acc # take n (c # cs) # split_words ws [] (drop n (c # cs)))"
  by pat_completeness auto
termination
  by (relation "measure (\<lambda>(ws, acc, s). 2 * length s + (if acc = [] then 0 else 1))") auto

definition re_split :: "jsstring list \<Rightarrow> jsstring \<Rightarrow> jsstring list" where
  "re_split ws s = split_words ws [] s"

text \<open>Mapping the stateful test over a list, \<open>lastIndex\<close> threaded through.\<close>

fun test_parts :: "jsstring list \<Rightarrow> nat \<Rightarrow> jsstring list \<Rightarrow> bool list \<times> nat" where
  "test_parts ws li [] = ([], li)"
| "test_parts ws li (p # ps) = (let (b, li1) = re_test ws li p; (bs, li2) = test_parts ws li1 ps
                                in (b # bs, li2))"

lemma starts_i_prefix: "starts_i s w \<Longrightarrow> starts_i (s @ t) w"
  unfolding starts_i_def
  by (metis length_map length_take min.absorb_iff2 min.cobounded1 take_append append_Nil2 diff_is_0_eq take0 take_all_iff)

lemma word_at_prefix: "word_at ws (s @ t) = None \<Longrightarrow> word_at ws s = None"
  unfolding word_at_def by (auto simp: find_None_iff dest: starts_i_prefix)

lemma starts_i_take: "length w \<le> n \<Longrightarrow> starts_i (take n s) w = starts_i s w"
  by (simp add: starts_i_def min_absorb1)

lemma starts_i_length: "starts_i s w \<Longrightarrow> length w \<le> length s"
  unfolding starts_i_def by (metis length_map length_take min.cobounded1)

lemma word_at_take: "word_at ws s = Some n \<Longrightarrow> word_at ws (take n s) = Some n \<and> n \<le> length s"
proof (induction ws)
  case (Cons w ws)
  show ?case
  proof (cases "starts_i s w")
    case True
    with Cons.prems have "n = length w" by (simp add: word_at_def)
    with True show ?thesis by (simp add: word_at_def starts_i_take starts_i_length)
  next
    case False
    have "\<not> starts_i (take n s) w"
      using False starts_i_prefix [of "take n s" w "drop n s"] by auto
    with False Cons show ?thesis by (simp add: word_at_def)
  qed
qed (simp add: word_at_def)

lemma word_at_pos: "word_at ws s = Some n \<Longrightarrow> [] \<notin> set ws \<Longrightarrow> 0 < n"
  by (auto simp: word_at_def find_Some_iff in_set_conv_nth)

lemma word_at_Nil: "[] \<notin> set ws \<Longrightarrow> word_at ws [] = None"
  using word_at_pos [of ws "[]"] word_at_take [of ws "[]"] by (cases "word_at ws []") fastforce+

lemma word_search_None:
  "word_search ws s = None \<longleftrightarrow> (\<forall>q\<le>length s. word_at ws (drop q s) = None)"
proof (induction s)
  case Nil
  then show ?case by (simp add: word_search.simps [of ws "[]"] split: option.splits)
next
  case (Cons c s)
  have "(\<forall>q\<le>length (c # s). word_at ws (drop q (c # s)) = None) \<longleftrightarrow>
      word_at ws (c # s) = None \<and> (\<forall>q\<le>length s. word_at ws (drop q s) = None)"
    by (simp add: less_Suc_eq_le [symmetric] All_less_Suc2)
  with Cons show ?case by (simp add: word_search.simps [of ws "c # s"] split: option.splits)
qed

text \<open>What a list of split pieces looks like: ordinary text with no word in it and words,
  alternating, with text at both ends.\<close>

fun alternates :: "jsstring list \<Rightarrow> jsstring list \<Rightarrow> bool" where
  "alternates ws [] = False"
| "alternates ws [t] = (word_search ws t = None)"
| "alternates ws (t # w # ts) =
     (word_search ws t = None \<and> word_at ws w = Some (length w) \<and> alternates ws ts)"

lemma split_words_concat: "concat (split_words ws acc s) = acc @ s"
  by (induction ws acc s rule: split_words.induct) (auto split: option.splits)

lemma split_words_alternates:
  assumes "[] \<notin> set ws"
  shows "(\<forall>q<length acc. word_at ws (drop q acc @ s) = None) \<Longrightarrow> alternates ws (split_words ws acc s)"
  using assms
proof (induction ws acc s rule: split_words.induct)
  case (1 ws acc)
  then have "\<forall>q\<le>length acc. word_at ws (drop q acc) = None"
    using word_at_Nil [of ws] by (auto simp: le_less)
  then show ?case by (simp add: word_search_None)
next
  case (2 ws acc c cs)
  show ?case
  proof (cases "word_at ws (c # cs)")
    case None
    have "\<forall>q<length (acc @ [c]). word_at ws (drop q (acc @ [c]) @ cs) = None"
      using 2(4) None by (auto simp: less_Suc_eq)
    with 2 None show ?thesis by simp
  next
    case (Some n)
    have n: "0 < n" by (rule word_at_pos [OF Some 2(5)])
    have "\<forall>q\<le>length acc. word_at ws (drop q acc) = None"
      using 2(4) word_at_prefix [of ws _ "c # cs"] word_at_Nil [OF 2(5)]
      by (auto simp: le_less)
    moreover have "word_at ws (take n (c # cs)) = Some (length (take n (c # cs)))"
      using word_at_take [OF Some] by (simp add: min_absorb2)
    moreover have "alternates ws (split_words ws [] (drop n (c # cs)))"
      using 2(3) [OF Some] n 2(5) by simp
    ultimately show ?thesis using Some n by (simp add: word_search_None)
  qed
qed

lemma re_split_alternates: "[] \<notin> set ws \<Longrightarrow> alternates ws (re_split ws s)"
  by (simp add: re_split_def split_words_alternates)

lemma re_split_concat: "concat (re_split ws s) = s"
  by (simp add: re_split_def split_words_concat)

lemma word_search_drop: "word_search ws t = None \<Longrightarrow> n \<le> length t \<Longrightarrow> word_search ws (drop n t) = None"
  by (auto simp: word_search_None)

text \<open>The state left by a match never makes the test of the following piece go wrong.\<close>

lemma re_test_text: "word_search ws t = None \<Longrightarrow> re_test ws li t = (False, 0)"
  by (simp add: re_test_def word_search_drop)

lemma re_test_word: "word_at ws w = Some (length w) \<Longrightarrow> re_test ws 0 w = (True, length w)"
  by (simp add: re_test_def word_search.simps [of ws w])

lemma test_parts_alternates:
  "alternates ws ps \<Longrightarrow> test_parts ws li ps = (map odd [0..<length ps], 0)"
proof (induction ws ps arbitrary: li rule: alternates.induct)
  case (3 ws t w ts)
  have "map odd [0..<length (t # w # ts)] = False # True # map odd [0..<length ts]"
    by (simp add: upt_conv_Cons map_Suc_upt [symmetric] comp_def del: upt_Suc)
  with 3 show ?case by (simp add: re_test_text re_test_word del: upt_Suc)
qed (simp_all add: re_test_text)

section \<open>Other string methods\<close>

definition startsWith :: "jsstring \<Rightarrow> jsstring \<Rightarrow> bool" where
  "startsWith s p = (take (length p) s = p)"

definition trim :: "jsstring \<Rightarrow> jsstring" where
  "trim s = rev (dropWhile isSpace (rev (dropWhile isSpace s)))"

text \<open>\<open>split\<close> at a single character.\<close>

fun split_char :: "jschar \<Rightarrow> jsstring \<Rightarrow> jsstring list" where
  "split_char d [] = [[]]"
| "split_char d (c # cs) = (if c = d then [] # split_char d cs
     else (case split_char d cs of [] \<Rightarrow> [[c]] | p # ps \<Rightarrow> (c # p) # ps))"

lemma split_char_ne: "split_char d s \<noteq> []"
  by (induction s) (auto split: list.splits)

lemma split_char_no_sep: "p \<in> set (split_char d s) \<Longrightarrow> d \<notin> set p"
  by (induction s arbitrary: p) (auto split: list.splits if_splits)

lemma trim_ends:
  "trim s \<noteq> [] \<Longrightarrow> \<not> isSpace (hd (trim s)) \<and> \<not> isSpace (last (trim s))"
proof -
  assume ne: "trim s \<noteq> []"
  define u where "u = dropWhile isSpace s"
  have t: "trim s = rev (dropWhile isSpace (rev u))" by (simp add: trim_def u_def)
  have "u \<noteq> []" using ne t by auto
  then have "\<not> isSpace (hd u)" unfolding u_def by (rule hd_dropWhile)
  obtain v where v: "u = trim s @ v"
    unfolding t by (metis rev_append rev_rev_ident takeWhile_dropWhile_id)
  have "hd u = hd (trim s)" using v ne by (metis hd_append2)
  moreover have "\<not> isSpace (last (trim s))"
    using ne unfolding t last_rev by (simp add: hd_dropWhile)
  ultimately show ?thesis using \<open>\<not> isSpace (hd u)\<close> by simp
qed

lemma trim_idem: "trim (trim s) = trim s"
proof (cases "trim s = []")
  case False
  then have "dropWhile isSpace (trim s) = trim s"
    using trim_ends [OF False] by (cases "trim s") auto
  moreover have "dropWhile isSpace (rev (trim s)) = rev (trim s)"
    using trim_ends [OF False] False by (cases "rev (trim s)") (auto simp: last_rev hd_rev [symmetric])
  ultimately show ?thesis by (simp add: trim_def [of "trim s"])
next
  case True
  show ?thesis unfolding True by (simp add: trim_def)
qed

end
