(* ===== verification/FrontOutput.thy ===== *)
theory FrontOutput
  imports JsRegex
begin

text \<open>
  The output panel (\<open>components/OutputPanel.jsx\<close>): how a line of compiler or program output is
  classified and cut into coloured spans. A rendered element is its class and its children; text
  is a leaf. The regular expressions are the source's, as item sequences of \<open>JsRegex\<close>. Shown:
  what a compiler error line is, as a specification the pattern is equivalent to; that the error
  keywords are highlighted exactly, in spite of the \<open>lastIndex\<close> the global pattern carries from
  one call of \<open>test\<close> to the next; and that a rendered line shows the text it was given.
\<close>

section \<open>Rendered elements\<close>

datatype node = Txt jsstring | Span jsstring "node list"

fun node_text :: "node \<Rightarrow> jsstring" where
  "node_text (Txt s) = s"
| "node_text (Span k ns) = concat (map node_text ns)"

section \<open>Compiler error lines\<close>

definition GO_ERR_RE :: "ritem list" where
  "GO_ERR_RE = [Rep 0 dot] @ lit ''.go'' @ lit '':'' @ [Rep 1 isDigit] @ lit '':'' @ [Rep 1 isDigit]
     @ lit '':'' @ [One isSpace] @ [Rep 1 dot] @ [Eos]"

text \<open>The four capture groups of a match: file, line, column, message.\<close>

definition goErrMatch :: "jsstring \<Rightarrow> (jsstring \<times> jsstring \<times> jsstring \<times> jsstring) option" where
  "goErrMatch s = map_option (\<lambda>ps. (concat (take 4 ps), ps ! 5, ps ! 7, ps ! 10))
     (re_match GO_ERR_RE s)"

definition ERR_KEYWORDS :: "jsstring list" where
  "ERR_KEYWORDS = map js
    [''undefined'', ''undeclared'', ''syntax error'', ''unexpected'',
     ''cannot use'', ''cannot convert'', ''cannot assign'',
     ''declared and not used'', ''imported and not used'',
     ''not enough arguments'', ''too many arguments'',
     ''duplicate'', ''invalid'', ''mismatched'', ''incompatible'',
     ''does not implement'', ''no field or method'']"

text \<open>\<open>highlightErrMsg\<close> reads and writes the \<open>lastIndex\<close> of the pattern, which outlives the call.\<close>

definition highlightErrMsg :: "nat \<Rightarrow> jsstring \<Rightarrow> node list \<times> nat" where
  "highlightErrMsg lastIndex msg = (
     let parts = re_split ERR_KEYWORDS msg;
         (marks, li) = test_parts ERR_KEYWORDS lastIndex parts
     in (map (\<lambda>(m, p). if m then Span (js ''out-keyword'') [Txt p] else Txt p) (zip marks parts), li))"

section \<open>A line\<close>

record out_line =
  kind :: jsstring
  line_text :: jsstring

text \<open>\<open>/^goroutine \d+/\<close> and \<open>/^\s+\S+\.go:\d+/\<close>.\<close>

definition GOROUTINE_RE :: "ritem list" where
  "GOROUTINE_RE = lit ''goroutine '' @ [Rep 1 isDigit]"

definition TRACE_RE :: "ritem list" where
  "TRACE_RE = [Rep 1 isSpace, Rep 1 (\<lambda>c. \<not> isSpace c)] @ lit ''.go:'' @ [Rep 1 isDigit]"

definition OutputLine :: "nat \<Rightarrow> out_line \<Rightarrow> node \<times> nat" where
  "OutputLine li line = (let text = line_text line in
     if kind line = js ''meta'' then (Span (js ''output-line meta'') [Txt text], li)
     else if startsWith text (js ''#'') then (Span (js ''output-line out-section'') [Txt text], li)
     else case (if kind line = js ''err'' then goErrMatch text else None) of
       Some (file, ln, col, msg) \<Rightarrow>
         let (ns, li') = highlightErrMsg li msg in
         (Span (js ''output-line out-compiler-err'')
            [Span (js ''out-file'') [Txt file], Span (js ''out-sep'') [Txt (js '':'')],
             Span (js ''out-linenum'') [Txt ln], Span (js ''out-sep'') [Txt (js '':'')],
             Span (js ''out-colnum'') [Txt col], Span (js ''out-sep'') [Txt (js '': '')],
             Span (js ''out-errmsg'') ns], li')
     | None \<Rightarrow>
       if startsWith text (js ''panic:'') \<or> startsWith text (js ''runtime error:'')
       then (Span (js ''output-line out-panic'') [Txt text], li)
       else if re_match GOROUTINE_RE text \<noteq> None \<or> re_match TRACE_RE text \<noteq> None
       then (Span (js ''output-line out-trace'') [Txt text], li)
       else (Span (js ''output-line '' @ kind line) [Txt text], li))"

text \<open>The status text and the body of the panel.\<close>

definition output_status :: "bool \<Rightarrow> jsstring \<Rightarrow> string option" where
  "output_status running status =
     (if running then Some ''running'' else if status = js ''ok'' then Some ''exited 0''
      else if status = js ''err'' then Some ''build failed'' else None)"

fun output_body :: "nat \<Rightarrow> out_line list \<Rightarrow> node list \<times> nat" where
  "output_body li [] = ([], li)"
| "output_body li (l # ls) = (let (n, li1) = OutputLine li l; (ns, li2) = output_body li1 ls
                              in (n # ns, li2))"

definition PRESS_RUN :: jsstring where
  "PRESS_RUN = 0x25B8 # js '' Press Run to execute your Go code.''"

text \<open>The panel: the status, and the lines or a hint.\<close>

definition OutputPanel :: "nat \<Rightarrow> out_line list \<Rightarrow> jsstring \<Rightarrow> bool \<Rightarrow> string option \<times> node list" where
  "OutputPanel li ls status running = (output_status running status,
     if ls = [] then [Span (js ''output-line meta'') [Txt PRESS_RUN]] else fst (output_body li ls))"

section \<open>The pattern and what it means\<close>

text \<open>\<open>s\<close> is a compiler error line: a file name ending in \<open>.go\<close>, a line, a column, one white
  space, a message.\<close>

definition is_go_err :: "jsstring \<Rightarrow> jsstring \<Rightarrow> jsstring \<Rightarrow> jsstring \<Rightarrow> jsstring \<Rightarrow> bool" where
  "is_go_err f l c m s = (\<exists>pre sp. s = f @ js '':'' @ l @ js '':'' @ c @ js '':'' @ [sp] @ m \<and>
     f = pre @ js ''.go'' \<and> list_all dot pre \<and> isSpace sp \<and>
     l \<noteq> [] \<and> list_all isDigit l \<and> c \<noteq> [] \<and> list_all isDigit c \<and> m \<noteq> [] \<and> list_all dot m)"

lemmas class_simps = dot_def isLineTerminator_def isDigit_def isSpace_def

lemma first_some_rev_upt:
  assumes "first_some g (rev [a..<b]) = Some y"
  shows "\<exists>k. a \<le> k \<and> k < b \<and> g k = Some y \<and> (\<forall>j. k < j \<and> j < b \<longrightarrow> g j = None)"
  using assms
proof (induction b)
  case (Suc b)
  then show ?case
    by (cases "g b") (auto split: if_splits, use less_Suc_eq in metis)
qed simp

lemma colon_not_digit [simp]: "\<not> isDigit 58"
  by (simp add: isDigit_def)

text \<open>Everything after the file name.\<close>

definition GO_ERR_TAIL :: "ritem list" where
  "GO_ERR_TAIL = lit ''.go'' @ lit '':'' @ [Rep 1 isDigit] @ lit '':'' @ [Rep 1 isDigit]
     @ lit '':'' @ [One isSpace] @ [Rep 1 dot] @ [Eos]"

lemma tail_decomposes:
  "decomposes GO_ERR_TAIL ps r \<longleftrightarrow> r = [] \<and> (\<exists>l c sp m.
     ps = map (\<lambda>c. [c]) (js ''.go:'') @ [l] @ [js '':''] @ [c] @ [js '':''] @ [[sp]] @ [m] @ [[]] \<and>
     isSpace sp \<and> l \<noteq> [] \<and> list_all isDigit l \<and> c \<noteq> [] \<and> list_all isDigit c \<and> m \<noteq> [] \<and> list_all dot m)"
  by (auto simp: GO_ERR_TAIL_def lit_def Suc_le_eq split: list.splits)

definition go_err_tail :: "jsstring \<Rightarrow> jsstring \<Rightarrow> jsstring \<Rightarrow> jsstring \<Rightarrow> bool" where
  "go_err_tail l c m t = (\<exists>sp. t = js ''.go'' @ js '':'' @ l @ js '':'' @ c @ js '':'' @ [sp] @ m \<and>
     isSpace sp \<and> l \<noteq> [] \<and> list_all isDigit l \<and> c \<noteq> [] \<and> list_all isDigit c \<and>
     m \<noteq> [] \<and> list_all dot m)"

lemma is_go_err_tail:
  "is_go_err f l c m s \<longleftrightarrow> (\<exists>pre t. s = pre @ t \<and> f = pre @ js ''.go'' \<and> list_all dot pre \<and> go_err_tail l c m t)"
proof
  assume "is_go_err f l c m s"
  then obtain pre sp where "s = pre @ js ''.go'' @ js '':'' @ l @ js '':'' @ c @ js '':'' @ [sp] @ m"
    "f = pre @ js ''.go''" "list_all dot pre" "isSpace sp" "l \<noteq> []" "list_all isDigit l"
    "c \<noteq> []" "list_all isDigit c" "m \<noteq> []" "list_all dot m"
    unfolding is_go_err_def by (auto simp del: js_simps)
  then show "\<exists>pre t. s = pre @ t \<and> f = pre @ js ''.go'' \<and> list_all dot pre \<and> go_err_tail l c m t"
    unfolding go_err_tail_def by blast
next
  assume "\<exists>pre t. s = pre @ t \<and> f = pre @ js ''.go'' \<and> list_all dot pre \<and> go_err_tail l c m t"
  then show "is_go_err f l c m s"
    unfolding go_err_tail_def is_go_err_def by (auto simp del: js_simps)
qed

lemma re_match_tail_Some:
  assumes "re_match GO_ERR_TAIL t = Some qs"
  shows "go_err_tail (qs ! 4) (qs ! 6) (qs ! 9) t \<and> concat (take 3 qs) = js ''.go''"
proof -
  obtain r where r: "t = concat qs @ r" "decomposes GO_ERR_TAIL qs r"
    using re_match_sound [OF assms] by blast
  then show ?thesis unfolding tail_decomposes go_err_tail_def by (auto simp: numeral_eq_Suc)
qed

lemma re_match_tail_None:
  assumes "re_match GO_ERR_TAIL t = None"
  shows "\<not> go_err_tail l c m t"
proof
  assume "go_err_tail l c m t"
  then obtain sp where sp: "t = js ''.go'' @ js '':'' @ l @ js '':'' @ c @ js '':'' @ [sp] @ m"
    "isSpace sp" "l \<noteq> []" "list_all isDigit l" "c \<noteq> []" "list_all isDigit c" "m \<noteq> []" "list_all dot m"
    unfolding go_err_tail_def by blast
  define ps where
    "ps = map (\<lambda>c. [c]) (js ''.go:'') @ [l] @ [js '':''] @ [c] @ [js '':''] @ [[sp]] @ [m] @ [[]]"
  have "decomposes GO_ERR_TAIL ps []" unfolding tail_decomposes ps_def using sp by blast
  from re_match_complete [OF this] have "re_match GO_ERR_TAIL t \<noteq> None"
    using sp(1) by (simp add: ps_def)
  with assms show False by simp
qed

lemma digits_split:
  "list_all isDigit l \<Longrightarrow> list_all isDigit l' \<Longrightarrow>
   l @ of_char CHR '':'' # r = l' @ of_char CHR '':'' # r' \<Longrightarrow> l = l' \<and> r = r'"
  by (induction l arbitrary: l') (auto simp: Cons_eq_append_conv)

lemma go_err_tail_unique:
  assumes "go_err_tail l c m t" "go_err_tail l' c' m' t"
  shows "l = l' \<and> c = c' \<and> m = m'"
proof -
  have colon: "js '':'' @ xs = of_char CHR '':'' # xs" for xs by simp
  obtain sp sp' where t: "l @ js '':'' @ c @ js '':'' @ [sp] @ m = l' @ js '':'' @ c' @ js '':'' @ [sp'] @ m'"
    and d: "list_all isDigit l" "list_all isDigit l'" "list_all isDigit c" "list_all isDigit c'"
    using assms unfolding go_err_tail_def by (metis append_same_eq same_append_eq)
  have 1: "l = l' \<and> c @ js '':'' @ [sp] @ m = c' @ js '':'' @ [sp'] @ m'"
    using t unfolding colon by (rule digits_split [OF d(1,2)])
  then have "c @ of_char CHR '':'' # [sp] @ m = c' @ of_char CHR '':'' # [sp'] @ m'"
    unfolding colon by simp
  from digits_split [OF d(3,4) this] 1 show ?thesis by simp
qed

lemma prefix_le_takeWhile: "list_all p pre \<Longrightarrow> length pre < Suc (length (takeWhile p (pre @ t)))"
  using takeWhile_ge [of p pre t] by simp

lemma goErrMatch_Some:
  assumes "goErrMatch s = Some (f, l, c, m)"
  shows "is_go_err f l c m s \<and> (\<forall>f' l' c' m'. is_go_err f' l' c' m' s \<longrightarrow> length f' \<le> length f)"
proof -
  have "re_match GO_ERR_RE s = first_some
      (\<lambda>k. map_option ((#) (take k s)) (re_match GO_ERR_TAIL (drop k s)))
      (rev [0..<Suc (length (takeWhile dot s))])"
    by (simp add: GO_ERR_RE_def GO_ERR_TAIL_def)
  with assms obtain k ps where k: "k < Suc (length (takeWhile dot s))"
    and ps: "map_option ((#) (take k s)) (re_match GO_ERR_TAIL (drop k s)) = Some ps"
    and max: "\<forall>j. k < j \<and> j < Suc (length (takeWhile dot s)) \<longrightarrow>
        map_option ((#) (take j s)) (re_match GO_ERR_TAIL (drop j s)) = None"
    and flcm: "f = concat (take 4 ps)" "l = ps ! 5" "c = ps ! 7" "m = ps ! 10"
    unfolding goErrMatch_def by (auto dest!: first_some_rev_upt simp del: upt_Suc)
  obtain qs where qs: "re_match GO_ERR_TAIL (drop k s) = Some qs" "ps = take k s # qs"
    using ps by auto
  have kl: "k \<le> length s" using k length_takeWhile_le [of dot s] by simp
  have f: "f = take k s @ js ''.go''"
    using re_match_tail_Some [OF qs(1)] flcm(1) qs(2) by (simp add: numeral_eq_Suc)
  have "is_go_err f l c m s"
    unfolding is_go_err_tail
  proof (intro exI conjI)
    show "s = take k s @ drop k s" by simp
    show "list_all dot (take k s)" using k by (simp add: list_all_take_takeWhile)
    show "go_err_tail l c m (drop k s)"
      using re_match_tail_Some [OF qs(1)] flcm qs(2) by (simp add: numeral_eq_Suc)
  qed (rule f)
  moreover have "length f' \<le> length f" if g: "is_go_err f' l' c' m' s" for f' l' c' m'
  proof (rule ccontr)
    obtain pre t where t: "s = pre @ t" "f' = pre @ js ''.go''" "list_all dot pre" "go_err_tail l' c' m' t"
      using g unfolding is_go_err_tail by blast
    assume "\<not> length f' \<le> length f"
    then have "k < length pre" using t(2) f kl by simp
    then have "re_match GO_ERR_TAIL t = None"
      using max [rule_format, of "length pre"] prefix_le_takeWhile [OF t(3), of t]
      by (simp add: t(1))
    with t(4) show False by (simp add: re_match_tail_None)
  qed
  ultimately show ?thesis by blast
qed

lemma goErrMatch_None: "goErrMatch s = None \<Longrightarrow> \<not> is_go_err f l c m s"
proof
  assume n: "goErrMatch s = None" and "is_go_err f l c m s"
  then obtain pre t where t: "s = pre @ t" "list_all dot pre" "go_err_tail l c m t"
    unfolding is_go_err_tail by blast
  have "re_match GO_ERR_TAIL t \<noteq> None" using t(3) re_match_tail_None by blast
  then have "first_some (\<lambda>k. map_option ((#) (take k s)) (re_match GO_ERR_TAIL (drop k s)))
      (rev [0..<Suc (length (takeWhile dot s))]) \<noteq> None"
    using prefix_le_takeWhile [OF t(2), of t]
    by (auto simp: first_some_None t(1) simp del: upt_Suc intro!: bexI [of _ "length pre"])
  with n show False by (simp add: goErrMatch_def GO_ERR_RE_def GO_ERR_TAIL_def del: upt_Suc)
qed

lemma is_go_err_unique:
  assumes "is_go_err f l c m s" "is_go_err f' l' c' m' s" "length f = length f'"
  shows "f = f' \<and> l = l' \<and> c = c' \<and> m = m'"
proof -
  obtain pre t pre' t' where "s = pre @ t" "f = pre @ js ''.go''" "go_err_tail l c m t"
    "s = pre' @ t'" "f' = pre' @ js ''.go''" "go_err_tail l' c' m' t'"
    using assms(1,2) unfolding is_go_err_tail by blast
  with assms(3) show ?thesis using go_err_tail_unique by (auto simp: append_eq_append_conv)
qed

lemma keywords_ne: "[] \<notin> set ERR_KEYWORDS"
  by (simp add: ERR_KEYWORDS_def)

section \<open>Highlighting\<close>

fun is_span :: "node \<Rightarrow> bool" where
  "is_span (Span k ns) = True"
| "is_span (Txt s) = False"

definition mark :: "bool \<times> jsstring \<Rightarrow> node" where
  "mark = (\<lambda>(m, p). if m then Span (js ''out-keyword'') [Txt p] else Txt p)"

lemma mark_simps [simp]: "node_text (mark (b, p)) = p" "is_span (mark (b, p)) = b"
  by (simp_all add: mark_def)

lemma odds_Suc2: "map odd [0..<Suc (Suc n)] = False # True # map odd [0..<n]"
  by (simp add: upt_conv_Cons map_Suc_upt [symmetric] comp_def del: upt_Suc)

definition marked :: "jsstring list \<Rightarrow> node list" where
  "marked ps = map mark (zip (map odd [0..<length ps]) ps)"

lemma map_mark: "map node_text (map mark zs) = map snd zs" "map is_span (map mark zs) = map fst zs"
  by (induction zs) (auto simp: mark_def split: if_splits)

lemma marked_simps [simp]:
  "map node_text (marked ps) = ps" "length (marked ps) = length ps"
  "map is_span (marked ps) = map odd [0..<length ps]"
  unfolding marked_def map_mark by (simp_all add: map_snd_zip map_fst_zip del: map_map)

lemma marked_hits:
  "alternates ws ps \<Longrightarrow>
   list_all (\<lambda>n. is_span n = (word_search ws (node_text n) \<noteq> None)) (marked ps)"
proof (induction ws ps rule: alternates.induct)
  case (3 ws t w ts)
  then show ?case
    by (simp add: marked_def odds_Suc2 word_search.simps [of ws w] del: upt_Suc)
qed (simp_all add: marked_def)

lemma highlightErrMsg_eq: "highlightErrMsg li msg = (marked (re_split ERR_KEYWORDS msg), 0)"
  by (simp add: highlightErrMsg_def marked_def mark_def Let_def
      test_parts_alternates [OF re_split_alternates [OF keywords_ne]] del: upt_Suc)

lemma highlightErrMsg_text: "concat (map node_text (fst (highlightErrMsg li msg))) = msg"
  by (simp add: highlightErrMsg_eq re_split_concat)

section \<open>Properties\<close>

text \<open>
  The pattern recognises exactly the compiler error lines, and where a line can be read in
  several ways (a message that itself names a file and a position) it takes the reading with the
  longest file part.
\<close>

theorem goErrMatch_correct:
  "goErrMatch s = Some (f, l, c, m) \<longleftrightarrow>
   is_go_err f l c m s \<and> (\<forall>f' l' c' m'. is_go_err f' l' c' m' s \<longrightarrow> length f' \<le> length f)"
proof
  assume R: "is_go_err f l c m s \<and> (\<forall>f' l' c' m'. is_go_err f' l' c' m' s \<longrightarrow> length f' \<le> length f)"
  then obtain f1 l1 c1 m1 where g: "goErrMatch s = Some (f1, l1, c1, m1)"
    by (metis goErrMatch_None not_None_eq prod_cases4)
  with R have "length f1 = length f" by (meson goErrMatch_Some le_antisym)
  with R g show "goErrMatch s = Some (f, l, c, m)"
    using is_go_err_unique goErrMatch_Some by blast
qed (rule goErrMatch_Some)

text \<open>
  An error message is cut into spans that spell it out, every second span is highlighted, a
  span is highlighted exactly when an error keyword occurs in it (in any case), and the pattern's
  \<open>lastIndex\<close> is back at 0 afterwards, whatever it was before.
\<close>

theorem highlightErrMsg_exact:
  "let (ns, li') = highlightErrMsg li msg in
     li' = 0 \<and> concat (map node_text ns) = msg \<and>
     map is_span ns = map odd [0..<length ns] \<and>
     list_all (\<lambda>n. is_span n = (word_search ERR_KEYWORDS (node_text n) \<noteq> None)) ns"
  using marked_hits [OF re_split_alternates [OF keywords_ne], of msg]
  by (simp add: highlightErrMsg_eq re_split_concat del: upt_Suc)

text \<open>
  Whatever its kind, a rendered line shows its text character for character, except that the
  white space after the column of a compiler error is shown as a blank.
\<close>

lemma OutputLine_shows_text:
  "list_all2 (\<lambda>shown c. shown = c \<or> isSpace c \<and> shown = of_char CHR '' '')
     (node_text (fst (OutputLine li line))) (line_text line)"
proof (cases "if kind line = js ''err'' then goErrMatch (line_text line) else None")
  case None
  then show ?thesis by (simp add: OutputLine_def Let_def list_all2_same)
next
  case (Some x)
  obtain f l c m where x: "x = (f, l, c, m)" by (cases x)
  with Some have "goErrMatch (line_text line) = Some (f, l, c, m)" by (auto split: if_splits)
  then obtain sp where sp: "isSpace sp"
    "line_text line = f @ js '':'' @ l @ js '':'' @ c @ js '':'' @ [sp] @ m"
    using goErrMatch_Some unfolding is_go_err_def by blast
  have "list_all2 (\<lambda>shown c. shown = c \<or> isSpace c \<and> shown = of_char CHR '' '')
      (f @ js '':'' @ l @ js '':'' @ c @ js '': '' @ m) (line_text line)"
    unfolding sp(2) using sp(1) by (simp add: list_all2_same list_all2_appendI)
  moreover have "list_all2 (\<lambda>shown c. shown = c \<or> isSpace c \<and> shown = of_char CHR '' '')
      (line_text line) (line_text line)" by (simp add: list_all2_same)
  ultimately show ?thesis using Some x
    by (simp add: OutputLine_def Let_def split_beta highlightErrMsg_text del: js_simps)
qed

text \<open>Witness: a compiler error line and its four parts.\<close>

lemma goErrMatch_correct_witness:
  "goErrMatch (js ''a.go:1:2: x'') = Some (js ''a.go'', js ''1'', js ''2'', js ''x'') \<and>
   is_go_err (js ''a.go'') (js ''1'') (js ''2'') (js ''x'') (js ''a.go:1:2: x'')"
proof -
  have "goErrMatch (js ''a.go:1:2: x'') = Some (js ''a.go'', js ''1'', js ''2'', js ''x'')"
    by (simp add: goErrMatch_def GO_ERR_RE_def lit_def class_simps)
  with goErrMatch_correct [of "js ''a.go:1:2: x''" "js ''a.go''" "js ''1''" "js ''2''" "js ''x''"]
  show ?thesis by blast
qed

end
