(* ===== verification/FrontTypes.thy ===== *)
theory FrontTypes
  imports PositionUtils FrontOutput
begin

text \<open>
  What the components of the page share: participants, roles, and the JSON messages a client sends
  and receives over its WebSocket (the protocol in the head comment of \<open>useCollabWS.js\<close>). A message
  is its parsed form; fields the receiver does not read are left out.
\<close>

record participant =
  part_id :: jsstring
  part_role :: jsstring
  part_isMe :: bool

text \<open>What \<open>sendJSON\<close> is given.\<close>

datatype client_msg =
    SendRoleChange (cm_user: jsstring) (cm_role: jsstring)
  | SendProposalAdd (cm_id: jsstring) (cm_replacement: jsstring) (cm_originalText: jsstring)
      (cm_relStart: jsstring) (cm_relEnd: jsstring) (cm_startLine: nat) (cm_endLine: nat)
  | SendAccept (cm_proposal: proposal)
  | SendReject (cm_reject_id: jsstring)
  | SendRunResult (cm_lines: "out_line list") (cm_status: jsstring)

text \<open>What a client receives and passes to the callbacks of \<open>IDE.jsx\<close>. For \<open>accept\<close> and \<open>reject\<close>
  only the proposal's id is sent.\<close>

datatype proposal_action = Add proposal | Accept jsstring | Reject jsstring | OtherAction

datatype server_msg =
    Participants "(jsstring \<times> jsstring) list"
  | ProposalMsg proposal_action
  | RoleChange (sm_user: jsstring) (sm_role: jsstring)
  | RunResult "out_line list" jsstring

definition is_editor :: "jsstring \<Rightarrow> bool" where
  "is_editor r = (r = js ''editor'')"

end
