(* ===== verification/FrontLanding.thy ===== *)
theory FrontLanding
  imports JsRuntime JsRegex
begin

text \<open>
  The landing page (\<open>components/Landing.jsx\<close>) and the page switch of \<open>App.jsx\<close>: the form's
  state, the checks before a request is made, what is requested, and how the reply (or its
  failure) ends. A handler is an \<open>async\<close> function with one suspension: its part before the
  request and its part after the reply are two definitions, the second given the values the first
  had captured. \<open>toUpperCase\<close> outside ASCII follows the Unicode tables, which are a parameter.
\<close>

section \<open>State and messages\<close>

record session =
  sess_code :: jsstring
  sess_userID :: jsstring
  sess_role :: jsstring
  sess_color :: string

record landing =
  f_userID :: jsstring
  f_joinCode :: jsstring
  f_error :: jsstring
  f_loading :: bool

datatype request =
    PostCreate (req_user: jsstring)
  | PostJoin (req_code: jsstring) (req_user: jsstring)

text \<open>How a request ends: a reply with the parsed body, an HTTP error with its text, or an exception
  of \<open>fetch\<close> or \<open>json()\<close> with its message.\<close>

datatype reply = Ok jsstring jsstring | HttpError jsstring | Thrown jsstring

definition initial_landing :: landing where
  "initial_landing = \<lparr>f_userID = [], f_joinCode = [], f_error = [], f_loading = False\<rparr>"

section \<open>Colours and case\<close>

definition COLORS :: "string list" where
  "COLORS = [''#00adb5'', ''#7c5cfc'', ''#f0a500'', ''#4ec97e'', ''#f47c7c'']"

text \<open>\<open>Math.random()\<close> is \<open>r / 2^53\<close> for some \<open>r < 2^53\<close>; the product with the number of colours is
  rounded to a double before \<open>Math.floor\<close>.\<close>

definition randomColor :: "nat \<Rightarrow> string option" where
  "randomColor r = (let i = js_round (r * length COLORS) div 2 ^ 53 in
     if i < length COLORS then Some (COLORS ! i) else None)"

definition toUpperCase :: "(jsstring \<Rightarrow> jsstring) \<Rightarrow> jsstring \<Rightarrow> jsstring" where
  "toUpperCase unicode s = (if list_all (\<lambda>c. unat c < 128) s
     then map (\<lambda>c. if 97 \<le> unat c \<and> unat c \<le> 122 then c - 32 else c) s else unicode s)"

section \<open>Handlers\<close>

definition handleCreate :: "landing \<Rightarrow> landing \<times> request option" where
  "handleCreate s =
     (if trim (f_userID s) = [] then (s\<lparr>f_error := js ''Enter a display name first.''\<rparr>, None)
      else (s\<lparr>f_error := [], f_loading := True\<rparr>, Some (PostCreate (trim (f_userID s)))))"

definition handleJoin :: "(jsstring \<Rightarrow> jsstring) \<Rightarrow> landing \<Rightarrow> landing \<times> request option" where
  "handleJoin unicode s =
     (if trim (f_userID s) = [] then (s\<lparr>f_error := js ''Enter a display name first.''\<rparr>, None)
      else if trim (f_joinCode s) = [] then (s\<lparr>f_error := js ''Enter an invite code.''\<rparr>, None)
      else (s\<lparr>f_error := [], f_loading := True\<rparr>,
            Some (PostJoin (toUpperCase unicode (trim (f_joinCode s))) (trim (f_userID s)))))"

text \<open>The rest of both handlers: \<open>onJoin\<close>, or \<open>setError\<close>, and in any case \<open>setLoading(false)\<close>.\<close>

definition after_reply :: "nat \<Rightarrow> request \<Rightarrow> reply \<Rightarrow> landing \<Rightarrow> landing \<times> session option" where
  "after_reply r req rep s = (case rep of
     Ok code role \<Rightarrow>
       (s\<lparr>f_loading := False\<rparr>,
        Some \<lparr>sess_code = code, sess_userID = req_user req, sess_role = role,
              sess_color = (case randomColor r of Some c \<Rightarrow> c | None \<Rightarrow> ''undefined'')\<rparr>)
   | HttpError msg \<Rightarrow> (s\<lparr>f_error := msg, f_loading := False\<rparr>, None)
   | Thrown msg \<Rightarrow> (s\<lparr>f_error := msg, f_loading := False\<rparr>, None))"

definition onKey :: "(jsstring \<Rightarrow> jsstring) \<Rightarrow> string \<Rightarrow> landing \<Rightarrow> landing \<times> request option" where
  "onKey unicode key s = (if key = ''Enter'' then handleJoin unicode s else (s, None))"

text \<open>\<open>App\<close>: the landing page until a session is set.\<close>

datatype page = LandingPage | IdePage session

definition App :: "session option \<Rightarrow> page" where
  "App s = (case s of None \<Rightarrow> LandingPage | Some x \<Rightarrow> IdePage x)"

section \<open>Rounding\<close>

lemma js_round_le: "js_round n \<le> n + 2 ^ (bit_length n - 54)"
proof (cases "n \<le> 2 ^ 53")
  case False
  define k where "k = bit_length n - 53"
  define q r where "q = n div 2 ^ k" and "r = n mod 2 ^ k"
  have n: "n = q * 2 ^ k + r"
    unfolding q_def r_def by (rule div_mult_mod_eq [symmetric])
  have h: "(2::nat) ^ k \<le> 2 * 2 ^ (k - 1)" by (cases k) auto
  have "js_round n = (if 2 ^ (k - 1) < r \<or> (r = 2 ^ (k - 1) \<and> odd q) then Suc q * 2 ^ k else q * 2 ^ k)"
    using False unfolding js_round_def k_def [symmetric] q_def r_def Let_def by simp
  then have "js_round n \<le> n + 2 ^ (k - 1)" using n h by auto
  then show ?thesis by (simp add: k_def)
qed simp

lemma bit_length_le: "n < 2 ^ m \<Longrightarrow> bit_length n \<le> m"
proof (induction m arbitrary: n)
  case (Suc m)
  then show ?case by (subst bit_length.simps) (simp add: less_mult_imp_div_less mult.commute)
qed (simp add: bit_length.simps)

lemma COLORS_length: "length COLORS = 5"
  by (simp add: COLORS_def)

text \<open>
  A random colour is always one of the five, although the product of a random double and 5 is
  rounded.
\<close>

theorem randomColor_defined: "r < 2 ^ 53 \<Longrightarrow> randomColor r \<noteq> None"
proof -
  assume r: "r < 2 ^ 53"
  have "bit_length (r * 5) \<le> 56" using r by (intro bit_length_le) simp
  then have "(2::nat) ^ (bit_length (r * 5) - 54) \<le> 2 ^ 2" by (intro power_increasing) auto
  with js_round_le [of "r * 5"] have "js_round (r * 5) \<le> r * 5 + 4" by simp
  with r have "js_round (r * 5) < 5 * 2 ^ 53" by simp
  then have "js_round (r * 5) div 2 ^ 53 < 5" by (simp add: less_mult_imp_div_less)
  then show ?thesis by (simp add: randomColor_def COLORS_length Let_def)
qed

lemma randomColor_defined_witness: "randomColor (2 ^ 53 - 1) \<noteq> None"
  by (rule randomColor_defined) simp

definition trimmed :: "jsstring \<Rightarrow> bool" where
  "trimmed s = (s \<noteq> [] \<and> \<not> isSpace (hd s) \<and> \<not> isSpace (last s))"

text \<open>
  A request leaves the page only with a non-empty name (and, to join, a non-empty code) that
  neither starts nor ends with white space, and then the form is loading with no error shown; and
  whatever the reply is, the form is not loading afterwards, and a session is opened exactly on
  a good reply, for the name that was sent.
\<close>

theorem landing_requests:
  assumes "handleJoin unicode s = (s1, Some req)" "after_reply r req rep s2 = (s3, opened)"
  shows "trimmed (req_user req) \<and> trimmed (trim (f_joinCode s)) \<and>
    req = PostJoin (toUpperCase unicode (trim (f_joinCode s))) (trim (f_userID s)) \<and>
    f_loading s1 \<and> f_error s1 = [] \<and> \<not> f_loading s3 \<and>
    (case rep of Ok code role \<Rightarrow>
        (\<exists>x. opened = Some x \<and> sess_userID x = req_user req \<and> sess_code x = code \<and> sess_role x = role)
     | HttpError msg \<Rightarrow> opened = None \<and> f_error s3 = msg
     | Thrown msg \<Rightarrow> opened = None \<and> f_error s3 = msg)"
  using assms trim_ends [of "f_userID s"] trim_ends [of "f_joinCode s"]
  by (auto simp: handleJoin_def after_reply_def trimmed_def split: if_splits reply.splits)

definition filled_form :: landing where
  "filled_form = \<lparr>f_userID = js ''bo '', f_joinCode = js '' abc'', f_error = [], f_loading = False\<rparr>"

lemma landing_requests_witness:
  "trimmed (js ''bo'') \<and> snd (handleJoin id filled_form) = Some (PostJoin (js ''ABC'') (js ''bo''))"
proof -
  define s1 req where "s1 = fst (handleJoin id filled_form)" and "req = PostJoin (js ''ABC'') (js ''bo'')"
  have h: "handleJoin id filled_form = (s1, Some req)"
    by (simp add: s1_def req_def handleJoin_def filled_form_def trim_def isSpace_def toUpperCase_def)
  have "trimmed (req_user req)"
    by (rule landing_requests [OF h surjective_pairing, THEN conjunct1])
  then show ?thesis by (simp add: h req_def)
qed

end
