(* ===== verification/FrontSidebar.thy ===== *)
theory FrontSidebar
  imports FrontTypes FrontLanding
begin

text \<open>
  The sidebar (\<open>components/Sidebar.jsx\<close>): avatar colours, the live check for stale proposals, the
  dialogue that makes a proposal from the editor's selection, and what is rendered for whom.

  The editor is a third-party component. The sidebar reads its selection, its text and the number
  of the line of a position, which are the fields of \<open>editor_view\<close> and the count of line breaks.
\<close>

section \<open>Avatars\<close>

definition AVATAR_COLORS :: "string list" where
  "AVATAR_COLORS = [''#00adb5'', ''#7c5cfc'', ''#f0a500'', ''#4ec97e'', ''#f47c7c'', ''#00d4aa'']"

text \<open>\<open>(h * 31 + c) >>> 0\<close>: double arithmetic, then the low 32 bits.\<close>

definition hash_step :: "nat \<Rightarrow> jschar \<Rightarrow> nat" where
  "hash_step h c = js_round (js_round (h * 31) + unat c) mod 2 ^ 32"

definition avatarColor :: "jsstring \<Rightarrow> string option" where
  "avatarColor name = (let i = foldl hash_step 0 name mod length AVATAR_COLORS in
     if i < length AVATAR_COLORS then Some (AVATAR_COLORS ! i) else None)"

section \<open>The stale proposals\<close>

text \<open>\<open>new Set(proposals.filter(p => isStale(p, ydoc)).map(p => p.id))\<close>; \<open>None\<close> if a check does not
  return.\<close>

primrec stale_ids :: "proposal list \<Rightarrow> 'a doc_scheme \<Rightarrow> jsstring list option" where
  "stale_ids [] d = Some []"
| "stale_ids (p # ps) d = (case isStale p d of
     None \<Rightarrow> None
   | Some b \<Rightarrow> map_option (\<lambda>ids. if b then prop_id p # ids else ids) (stale_ids ps d))"

section \<open>Making a proposal\<close>

record editor_view =
  view_doc :: jsstring
  view_from :: nat
  view_to :: nat

definition lineNumber :: "jsstring \<Rightarrow> nat \<Rightarrow> nat" where
  "lineNumber doc k = 1 + length (filter (\<lambda>c. c = 10) (take k doc))"

record selection =
  sel_from :: nat
  sel_to :: nat
  sel_text :: jsstring
  sel_startLine :: nat
  sel_endLine :: nat

record sidebar =
  sb_showProposeModal :: bool
  sb_selection :: "selection option"
  sb_staleIds :: "jsstring list"

definition initial_sidebar :: sidebar where
  "initial_sidebar = \<lparr>sb_showProposeModal = False, sb_selection = None, sb_staleIds = []\<rparr>"

definition selection_of :: "editor_view \<Rightarrow> selection" where
  "selection_of v = \<lparr>sel_from = view_from v, sel_to = view_to v,
     sel_text = take (view_to v - view_from v) (drop (view_from v) (view_doc v)),
     sel_startLine = lineNumber (view_doc v) (view_from v),
     sel_endLine = lineNumber (view_doc v) (view_to v)\<rparr>"

definition openProposeModal :: "editor_view option \<Rightarrow> sidebar \<Rightarrow> sidebar" where
  "openProposeModal view s = s\<lparr>sb_selection := map_option selection_of view, sb_showProposeModal := True\<rparr>"

definition closeProposeModal :: "sidebar \<Rightarrow> sidebar" where
  "closeProposeModal s = s\<lparr>sb_showProposeModal := False\<rparr>"

text \<open>\<open>mini\<close> is the text of the dialogue's editor, if it is there; \<open>uuid\<close> the fresh identifier.\<close>

definition submitProposal :: "jsstring option \<Rightarrow> jsstring \<Rightarrow> 'a doc_scheme \<Rightarrow> sidebar \<Rightarrow>
    (sidebar \<times> client_msg option) result" where
  "submitProposal mini uuid d s = (case (mini, sb_selection s) of
     (Some repl, Some sel) \<Rightarrow>
       if repl = sel_text sel then Inr (s, None)
       else (case encodeRange d CONTENT (sel_from sel) (sel_to sel) of
          Inl e \<Rightarrow> Inl e
        | Inr (a, b) \<Rightarrow> Inr (closeProposeModal s,
            Some (SendProposalAdd uuid repl (sel_text sel) a b (sel_startLine sel) (sel_endLine sel))))
   | _ \<Rightarrow> Inr (s, None))"

section \<open>What is rendered\<close>

datatype role_control = RoleSelect jsstring | RoleLabel jsstring

record participant_row =
  row_color :: "string option"
  row_initial :: jsstring
  row_name :: jsstring
  row_control :: role_control

text \<open>\<open>p.id[0].toUpperCase()\<close> throws for an empty id, and with it the whole rendering.\<close>

definition participant_row_of :: "(jsstring \<Rightarrow> jsstring) \<Rightarrow> jsstring \<Rightarrow> participant \<Rightarrow> participant_row result" where
  "participant_row_of unicode myRole p = (case part_id p of
     [] \<Rightarrow> Inl TypeErr
   | c # cs \<Rightarrow> Inr
      \<lparr>row_color = avatarColor (part_id p), row_initial = toUpperCase unicode [c],
       row_name = part_id p @ (if part_isMe p then js '' (you)'' else []),
       row_control = (if myRole = js ''editor'' \<and> \<not> part_isMe p
                      then RoleSelect (part_role p) else RoleLabel (part_role p))\<rparr>)"

primrec participant_rows :: "(jsstring \<Rightarrow> jsstring) \<Rightarrow> jsstring \<Rightarrow> participant list \<Rightarrow> participant_row list result" where
  "participant_rows unicode myRole [] = Inr []"
| "participant_rows unicode myRole (p # ps) = (case participant_row_of unicode myRole p of
     Inl e \<Rightarrow> Inl e
   | Inr r \<Rightarrow> (case participant_rows unicode myRole ps of Inl e \<Rightarrow> Inl e | Inr rs \<Rightarrow> Inr (r # rs)))"

text \<open>The line label of a card. A start line \<open>0\<close> is shown as the number it is, which is what \<open>&&\<close>
  leaves.\<close>

datatype line_label = ZeroLabel | OneLine int | LineRange int int

definition line_label_of :: "proposal \<Rightarrow> line_label" where
  "line_label_of p = (if startLine p = 0 then ZeroLabel
     else if endLine p \<noteq> startLine p then LineRange (startLine p) (endLine p) else OneLine (startLine p))"

record proposal_card =
  card_id :: jsstring
  card_author :: jsstring
  card_stale :: bool
  card_lines :: line_label
  card_del :: "jsstring option"
  card_add :: jsstring
  card_actions :: bool

definition proposal_card_of :: "jsstring \<Rightarrow> jsstring list \<Rightarrow> proposal \<Rightarrow> proposal_card" where
  "proposal_card_of myRole stale p =
     \<lparr>card_id = prop_id p, card_author = prop_author p, card_stale = prop_id p \<in> set stale,
      card_lines = line_label_of p,
      card_del = (if originalText p \<noteq> [] then Some (originalText p) else None),
      card_add = replacement p, card_actions = (myRole = js ''editor'')\<rparr>"

datatype modal = NoModal | EditModal jsstring | HintModal

definition modal_of :: "sidebar \<Rightarrow> modal" where
  "modal_of s = (if \<not> sb_showProposeModal s then NoModal
     else case sb_selection s of
       Some sel \<Rightarrow> if sel_from sel \<noteq> sel_to sel then EditModal (sel_text sel) else HintModal
     | None \<Rightarrow> HintModal)"

record sidebar_view =
  sv_rows :: "participant_row list"
  sv_count :: "nat option"
  sv_cards :: "proposal_card list"
  sv_propose_button :: bool
  sv_modal :: modal

definition Sidebar :: "(jsstring \<Rightarrow> jsstring) \<Rightarrow> jsstring \<Rightarrow> participant list \<Rightarrow> proposal list \<Rightarrow> sidebar \<Rightarrow>
    sidebar_view result" where
  "Sidebar unicode myRole parts props s = (case participant_rows unicode myRole parts of
     Inl e \<Rightarrow> Inl e
   | Inr rows \<Rightarrow> Inr
      \<lparr>sv_rows = rows, sv_count = (if 0 < length props then Some (length props) else None),
       sv_cards = map (proposal_card_of myRole (sb_staleIds s)) props,
       sv_propose_button = (myRole = js ''proposer'' \<or> myRole = js ''editor''),
       sv_modal = modal_of s\<rparr>)"

section \<open>The hash\<close>

text \<open>The polynomial in 31 with the code units as coefficients.\<close>

primrec poly31 :: "nat \<Rightarrow> jsstring \<Rightarrow> nat" where
  "poly31 h [] = h"
| "poly31 h (c # cs) = poly31 (h * 31 + unat c) cs"

lemma hash_step_exact: "h < 2 ^ 32 \<Longrightarrow> hash_step h c = (h * 31 + unat c) mod 2 ^ 32"
proof -
  assume h: "h < 2 ^ 32"
  have c: "unat c < 65536" by (rule unat_jschar_lt)
  have "h < 4294967296" using h by simp
  then have "h * 31 + unat c \<le> 9007199254740992" using c by linarith
  then have "h * 31 \<le> 2 ^ 53" "h * 31 + unat c \<le> 2 ^ 53" by simp_all
  then show ?thesis by (simp only: hash_step_def js_round_small)
qed

lemma poly31_mod: "poly31 (h mod 2 ^ 32) s mod 2 ^ 32 = poly31 h s mod 2 ^ 32"
proof (induction s arbitrary: h)
  case (Cons c s)
  have "poly31 (h mod 2 ^ 32) (c # s) mod 2 ^ 32 = poly31 ((h mod 2 ^ 32 * 31 + unat c) mod 2 ^ 32) s mod 2 ^ 32"
    unfolding poly31.simps by (rule Cons.IH [symmetric])
  also have "(h mod 2 ^ 32 * 31 + unat c) mod 2 ^ 32 = (h * 31 + unat c) mod 2 ^ 32"
    by (metis mod_add_left_eq mod_mult_left_eq)
  also have "poly31 ((h * 31 + unat c) mod 2 ^ 32) s mod 2 ^ 32 = poly31 h (c # s) mod 2 ^ 32"
    unfolding poly31.simps by (rule Cons.IH)
  finally show ?case .
qed simp

lemma hash_poly: "h < 2 ^ 32 \<Longrightarrow> foldl hash_step h s = poly31 h s mod 2 ^ 32"
proof (induction s arbitrary: h)
  case (Cons c s)
  have "foldl hash_step h (c # s) = foldl hash_step ((h * 31 + unat c) mod 2 ^ 32) s"
    using hash_step_exact [OF Cons.prems] by simp
  also have "\<dots> = poly31 ((h * 31 + unat c) mod 2 ^ 32) s mod 2 ^ 32" by (rule Cons.IH) simp
  also have "\<dots> = poly31 h (c # s) mod 2 ^ 32" unfolding poly31.simps by (rule poly31_mod)
  finally show ?case .
qed simp

text \<open>
  The avatar colour of a name is the one picked by the polynomial in 31 over its code units,
  modulo \<open>2^32\<close> and the six colours: no step of the loop loses a bit to the rounding of doubles,
  so every client shows the same colour.
\<close>

lemma avatarColor_poly:
  "avatarColor name = Some (AVATAR_COLORS ! (poly31 0 name mod 2 ^ 32 mod 6))"
proof -
  have l: "length AVATAR_COLORS = 6" by (simp add: AVATAR_COLORS_def)
  have "poly31 0 name mod 2 ^ 32 mod 6 < 6" by simp
  then show ?thesis using hash_poly [of 0 name] unfolding avatarColor_def Let_def l by simp
qed

section \<open>Proposals\<close>

text \<open>
  A proposal leaves the dialogue only for a selection whose text was changed; it carries the
  selected text and two positions that resolve to the selection, and the dialogue is closed.
\<close>

theorem submitProposal_correct:
  assumes "doc_ok d" "no_redone d" "ids_safe d CONTENT" "sb_selection s = Some (selection_of v)"
    "view_doc v = toString d CONTENT" "view_from v \<le> view_to v" "view_to v \<le> length (view_doc v)"
  shows "\<exists>s' m. submitProposal (Some repl) uuid d s = Inr (s', m) \<and>
    (if repl = js_slice (view_doc v) (int (view_from v)) (int (view_to v)) then s' = s \<and> m = None
     else modal_of s' = NoModal \<and>
       (\<exists>a b. m = Some (SendProposalAdd uuid repl (js_slice (view_doc v) (int (view_from v)) (int (view_to v)))
            a b (lineNumber (view_doc v) (view_from v)) (lineNumber (view_doc v) (view_to v))) \<and>
          resolveRange d a b = Some (Some (int (view_from v), int (view_to v)))))"
proof -
  have t: "sel_text (selection_of v) = js_slice (view_doc v) (int (view_from v)) (int (view_to v))"
    using assms(6,7) by (simp add: selection_of_def js_slice_nat min_def)
  obtain a b where "encodeRange d CONTENT (view_from v) (view_to v) = Inr (a, b)"
    "resolveRange d a b = Some (Some (int (view_from v), int (view_to v)))"
    using encodeRange_resolves [OF assms(1-3), of "view_from v" "view_to v"] assms(5-7) by auto
  with t assms(4) show ?thesis
    by (auto simp: submitProposal_def selection_of_def modal_of_def closeProposeModal_def)
qed

definition hello_view :: editor_view where
  "hello_view = \<lparr>view_doc = js ''hello'', view_from = 1, view_to = 4\<rparr>"

lemma submitProposal_correct_witness:
  "\<exists>s' a b. submitProposal (Some (js ''ipp'')) (js ''u1'') hello (openProposeModal (Some hello_view) initial_sidebar)
     = Inr (s', Some (SendProposalAdd (js ''u1'') (js ''ipp'') (js ''ell'') a b 1 1)) \<and>
     resolveRange hello a b = Some (Some (1, 4))"
proof -
  have v: "view_doc hello_view = toString hello CONTENT" "view_from hello_view \<le> view_to hello_view"
    "view_to hello_view \<le> length (view_doc hello_view)" by (simp_all add: hello_view_def hello_text)
  have "sb_selection (openProposeModal (Some hello_view) initial_sidebar) = Some (selection_of hello_view)"
    by (simp add: openProposeModal_def)
  from submitProposal_correct [OF hello_ok(1) hello_redone hello_safe this v, of "js ''ipp''" "js ''u1''"]
  show ?thesis by (auto simp: hello_view_def js_slice_def lineNumber_def)
qed

section \<open>Who sees what\<close>

lemma rows_error: "(\<exists>e. participant_rows unicode r ps = Inl e) \<longleftrightarrow> (\<exists>p \<in> set ps. part_id p = [])"
  by (induction ps) (auto simp: participant_row_of_def split: list.splits sum.splits)

lemma rows_controls:
  "participant_rows unicode r ps = Inr rows \<Longrightarrow>
   list_all2 (\<lambda>p row. (\<exists>x. row_control row = RoleSelect x) \<longleftrightarrow> r = js ''editor'' \<and> \<not> part_isMe p) ps rows"
  by (induction ps arbitrary: rows)
    (auto simp: participant_row_of_def simp del: js_simps split: list.splits sum.splits if_splits)

text \<open>
  The sidebar is rendered unless a participant has an empty name, which throws. Only an editor
  gets the role menus, for everyone else but not for himself, and the buttons that accept or
  reject; a viewer cannot start a proposal.
\<close>

theorem Sidebar_controls:
  "case Sidebar unicode r parts props s of
     Inl e \<Rightarrow> e = TypeErr \<and> (\<exists>p \<in> set parts. part_id p = [])
   | Inr v \<Rightarrow> (\<forall>p \<in> set parts. part_id p \<noteq> []) \<and>
       list_all2 (\<lambda>p row. (\<exists>x. row_control row = RoleSelect x) \<longleftrightarrow> r = js ''editor'' \<and> \<not> part_isMe p)
         parts (sv_rows v) \<and>
       list_all (\<lambda>c. card_actions c \<longleftrightarrow> r = js ''editor'') (sv_cards v) \<and>
       (sv_propose_button v \<longleftrightarrow> r = js ''proposer'' \<or> r = js ''editor'')"
proof (cases "participant_rows unicode r parts")
  case (Inl e)
  have "participant_rows unicode r ps = Inl e \<Longrightarrow> e = TypeErr" for ps
    by (induction ps) (auto simp: participant_row_of_def split: list.splits sum.splits)
  then have "e = TypeErr" using Inl .
  moreover have "\<exists>p \<in> set parts. part_id p = []" using rows_error [of unicode r parts] Inl by blast
  ultimately show ?thesis by (simp add: Sidebar_def Inl)
next
  case (Inr rows)
  have "\<forall>p \<in> set parts. part_id p \<noteq> []" using rows_error [of unicode r parts] Inr by auto
  with rows_controls [OF Inr] Inr show ?thesis
    by (simp add: Sidebar_def list_all_length proposal_card_of_def del: js_simps)
qed

lemma Sidebar_controls_witness:
  "\<exists>v. Sidebar id (js ''editor'') [\<lparr>part_id = js ''ada'', part_role = js ''editor'', part_isMe = True\<rparr>,
       \<lparr>part_id = js ''bob'', part_role = js ''viewer'', part_isMe = False\<rparr>] [] initial_sidebar = Inr v \<and>
     (\<forall>x. row_control (sv_rows v ! 0) \<noteq> RoleSelect x) \<and> (\<exists>x. row_control (sv_rows v ! 1) = RoleSelect x) \<and>
     sv_propose_button v"
proof -
  let ?ps = "[\<lparr>part_id = js ''ada'', part_role = js ''editor'', part_isMe = True\<rparr>,
       \<lparr>part_id = js ''bob'', part_role = js ''viewer'', part_isMe = False\<rparr>]"
  obtain v where v: "Sidebar id (js ''editor'') ?ps [] initial_sidebar = Inr v"
    by (simp add: Sidebar_def participant_row_of_def)
  with Sidebar_controls [where unicode = id and r = "js ''editor''" and parts = ?ps and props = "[]" and s = initial_sidebar]
  show ?thesis by (auto simp: list_all2_Cons1)
qed

end
