(* ===== verification/FrontIDE.thy ===== *)
theory FrontIDE
  imports FrontSidebar YDoc
begin

text \<open>
  The page of a session (\<open>components/IDE.jsx\<close>): its state, the callbacks for the server's messages,
  the handlers of the sidebar and of the Run button, what is rendered, and the steps the page can
  take. \<open>runCode\<close> is an \<open>async\<close> function with one suspension: its part before the request and its
  part after the reply are two definitions. What is given to \<open>sendJSON\<close> is collected in a list;
  whether the socket delivers it is the concern of \<open>CollabWS\<close>.
\<close>

section \<open>State\<close>

record 'a ide =
  ide_userID :: jsstring
  ide_myRole :: jsstring
  ide_participants :: "participant list"
  ide_proposals :: "proposal list"
  ide_lines :: "out_line list"
  ide_status :: "jsstring option"
  ide_running :: bool
  ide_showShare :: bool
  ide_docReady :: bool
  ide_doc :: "'a transaction_scheme"
  ide_sent :: "client_msg list"

definition initial_ide :: "session \<Rightarrow> 'a transaction_scheme \<Rightarrow> 'a ide" where
  "initial_ide ses d = \<lparr>ide_userID = sess_userID ses, ide_myRole = sess_role ses,
     ide_participants = [\<lparr>part_id = sess_userID ses, part_role = sess_role ses, part_isMe = True\<rparr>],
     ide_proposals = [], ide_lines = [], ide_status = None, ide_running = False,
     ide_showShare = False, ide_docReady = False, ide_doc = d, ide_sent = []\<rparr>"

definition sendJSON :: "client_msg \<Rightarrow> 'a ide \<Rightarrow> 'a ide" where
  "sendJSON m s = s\<lparr>ide_sent := ide_sent s @ [m]\<rparr>"

section \<open>Messages of the server\<close>

definition onParticipants :: "(jsstring \<times> jsstring) list \<Rightarrow> 'a ide \<Rightarrow> 'a ide" where
  "onParticipants l s = s\<lparr>ide_participants :=
     map (\<lambda>(i, r). \<lparr>part_id = i, part_role = r, part_isMe = (i = ide_userID s)\<rparr>) l\<rparr>"

definition remove_proposal :: "jsstring \<Rightarrow> 'a ide \<Rightarrow> 'a ide" where
  "remove_proposal i s = s\<lparr>ide_proposals := filter (\<lambda>p. prop_id p \<noteq> i) (ide_proposals s)\<rparr>"

definition onProposal :: "proposal_action \<Rightarrow> 'a ide \<Rightarrow> 'a ide" where
  "onProposal a s = (case a of
     Add p \<Rightarrow> s\<lparr>ide_proposals := ide_proposals s @ [p]\<rparr>
   | Accept i \<Rightarrow> remove_proposal i s
   | Reject i \<Rightarrow> remove_proposal i s
   | OtherAction \<Rightarrow> s)"

definition set_role :: "jsstring \<Rightarrow> jsstring \<Rightarrow> participant list \<Rightarrow> participant list" where
  "set_role i r = map (\<lambda>p. if part_id p = i then p\<lparr>part_role := r\<rparr> else p)"

definition onRoleChange :: "jsstring \<Rightarrow> jsstring \<Rightarrow> 'a ide \<Rightarrow> 'a ide" where
  "onRoleChange i r s = s\<lparr>ide_myRole := (if i = ide_userID s then r else ide_myRole s),
     ide_participants := set_role i r (ide_participants s)\<rparr>"

definition onRunResult :: "out_line list \<Rightarrow> jsstring \<Rightarrow> 'a ide \<Rightarrow> 'a ide" where
  "onRunResult ls st s = s\<lparr>ide_status := Some st, ide_lines := ls, ide_running := False\<rparr>"

definition onDocReady :: "'a ide \<Rightarrow> 'a ide" where
  "onDocReady s = s\<lparr>ide_docReady := True\<rparr>"

definition onMessage :: "server_msg \<Rightarrow> 'a ide \<Rightarrow> 'a ide" where
  "onMessage m s = (case m of
     Participants l \<Rightarrow> onParticipants l s
   | ProposalMsg a \<Rightarrow> onProposal a s
   | RoleChange i r \<Rightarrow> onRoleChange i r s
   | RunResult ls st \<Rightarrow> onRunResult ls st s)"

section \<open>Handlers\<close>

definition handleRoleChange :: "jsstring \<Rightarrow> jsstring \<Rightarrow> 'a ide \<Rightarrow> 'a ide" where
  "handleRoleChange i r s =
     (let s1 = sendJSON (SendRoleChange i r) s
      in s1\<lparr>ide_participants := set_role i r (ide_participants s1)\<rparr>)"

definition handleRejectProposal :: "jsstring \<Rightarrow> 'a ide \<Rightarrow> 'a ide" where
  "handleRejectProposal i s = remove_proposal i (sendJSON (SendReject i) s)"

text \<open>The end of \<open>handleAcceptProposal\<close>, after the document was changed.\<close>

definition accepted :: "proposal \<Rightarrow> 'a ide \<Rightarrow> 'a transaction_scheme \<Rightarrow> 'a ide" where
  "accepted p s d = remove_proposal (prop_id p) (sendJSON (SendAccept p) (s\<lparr>ide_doc := d\<rparr>))"

definition accept_range :: "'a runtime \<Rightarrow> proposal \<Rightarrow> int \<Rightarrow> int \<Rightarrow> 'a transaction_scheme \<Rightarrow>
    'a transaction_scheme result" where
  "accept_range rt p s e = y_transact rt (\<lambda>t.
     bind_result (if s < e then y_delete_at rt CONTENT (Some s) (e - s) t else Inr t)
       (y_insert_at rt CONTENT (Some s) (replacement p)))"

text \<open>A proposal without positions: the two indices, which may be \<open>undefined\<close>. A difference with
  \<open>undefined\<close> is \<open>NaN\<close>, which as a length is neither zero nor positive, like \<open>-1\<close>. Each operation is
  a transaction of its own.\<close>

definition accept_legacy :: "'a runtime \<Rightarrow> proposal \<Rightarrow> 'a transaction_scheme \<Rightarrow> 'a transaction_scheme result" where
  "accept_legacy rt p t =
     bind_result
       (if startIndex p \<noteq> endIndex p
        then y_transact rt (y_delete_at rt CONTENT (startIndex p)
               (case (startIndex p, endIndex p) of (Some a, Some b) \<Rightarrow> b - a | _ \<Rightarrow> -1)) t
        else Inr t)
       (y_transact rt (y_insert_at rt CONTENT (startIndex p) (replacement p)))"

text \<open>\<open>None\<close> if resolving the positions does not return.\<close>

definition handleAcceptProposal :: "'a runtime \<Rightarrow> proposal \<Rightarrow> 'a ide \<Rightarrow> 'a ide result option" where
  "handleAcceptProposal rt p s =
     (if relStart p \<noteq> [] \<and> relEnd p \<noteq> []
      then (case isStale p (ide_doc s) of
          None \<Rightarrow> None
        | Some True \<Rightarrow> Some (Inr (handleRejectProposal (prop_id p) s))
        | Some False \<Rightarrow> (case resolveRange (ide_doc s) (relStart p) (relEnd p) of
            None \<Rightarrow> None
          | Some None \<Rightarrow> Some (Inr (handleRejectProposal (prop_id p) s))
          | Some (Some (i, j)) \<Rightarrow> Some (map_sum id (accepted p s) (accept_range rt p i j (ide_doc s)))))
      else Some (map_sum id (accepted p s) (accept_legacy rt p (ide_doc s))))"

section \<open>Running the program\<close>

definition COMPILING :: jsstring where
  "COMPILING = 0x25B8 # js '' Compiling and running'' @ [0x2026]"

definition NO_OUTPUT :: jsstring where
  "NO_OUTPUT = 0x25B8 # js '' (no output)''"

definition runCode :: "'a ide \<Rightarrow> 'a ide \<times> jsstring option" where
  "runCode s = (if ide_running s then (s, None)
     else (s\<lparr>ide_running := True, ide_status := None,
             ide_lines := [\<lparr>kind = js ''meta'', line_text = COMPILING\<rparr>]\<rparr>,
           Some (toString (ide_doc s) CONTENT)))"

text \<open>The parsed reply, \<open>Errors\<close> and \<open>Events\<close> empty when missing, or the message of what was thrown.\<close>

datatype run_reply = RunData jsstring "(jsstring \<times> jsstring) list" | RunThrown jsstring

definition run_lines :: "run_reply \<Rightarrow> out_line list \<times> jsstring" where
  "run_lines r = (case r of
     RunThrown m \<Rightarrow> ([\<lparr>kind = js ''err'', line_text = m\<rparr>], js ''err'')
   | RunData errors events \<Rightarrow>
       if errors \<noteq> []
       then (map (\<lambda>l. \<lparr>kind = js ''err'', line_text = l\<rparr>) (filter (\<lambda>l. l \<noteq> []) (split_char 10 errors)), js ''err'')
       else if events = [] then ([\<lparr>kind = js ''meta'', line_text = NO_OUTPUT\<rparr>], js ''ok'')
       else (map (\<lambda>(k, m). \<lparr>kind = (if k = js ''stderr'' then js ''err'' else js ''ok''), line_text = m\<rparr>) events,
             js ''ok''))"

definition runCode_reply :: "run_reply \<Rightarrow> 'a ide \<Rightarrow> 'a ide" where
  "runCode_reply r s = (let (ls, st) = run_lines r in
     (sendJSON (SendRunResult ls st) (s\<lparr>ide_status := Some st, ide_lines := ls\<rparr>))\<lparr>ide_running := False\<rparr>)"

section \<open>What is rendered\<close>

datatype run_button = NoRunButton | RunButton | RunningButton

record ide_view =
  iv_badge :: jsstring
  iv_run :: run_button
  iv_sidebar :: sidebar_view
  iv_editor :: "bool option"
  iv_output :: "string option \<times> node list"
  iv_share :: bool

text \<open>\<open>iv_editor\<close> is whether the editor, once it is there, can be edited.\<close>

definition IDE :: "(jsstring \<Rightarrow> jsstring) \<Rightarrow> nat \<Rightarrow> sidebar \<Rightarrow> 'a ide \<Rightarrow> ide_view result" where
  "IDE unicode li sb s = (case Sidebar unicode (ide_myRole s) (ide_participants s) (ide_proposals s) sb of
     Inl e \<Rightarrow> Inl e
   | Inr sv \<Rightarrow> Inr
      \<lparr>iv_badge = ide_myRole s,
       iv_run = (if ide_myRole s = js ''viewer'' then NoRunButton
                 else if ide_running s then RunningButton else RunButton),
       iv_sidebar = sv,
       iv_editor = (if ide_docReady s then Some (ide_myRole s = js ''editor'') else None),
       iv_output = OutputPanel li (ide_lines s)
         (case ide_status s of None \<Rightarrow> [] | Some x \<Rightarrow> x) (ide_running s),
       iv_share = ide_showShare s\<rparr>)"

section \<open>Accepting a proposal\<close>

lemma absolute_nonneg:
  "doc_ok d \<Longrightarrow> createAbsolutePositionFromRelativePosition r d b = Some (Inr (Some a)) \<Longrightarrow> 0 \<le> ap_index a"
  using doc_okD(9) [of d]
  by (auto simp: createAbsolutePositionFromRelativePosition_def Let_def
      split: option.splits if_splits sum.splits struct.splits)

lemma resolveRange_nonneg:
  "doc_ok d \<Longrightarrow> resolveRange d a b = Some (Some (i, j)) \<Longrightarrow> 0 \<le> i \<and> 0 \<le> j"
  by (auto simp: resolveRange_def absolute_nonneg split: sum.splits option.splits)

lemma slice_split:
  assumes "js_slice s i j = x" "x \<noteq> []" "0 \<le> i" "0 \<le> j"
  shows "i < j" "s = take (nat i) s @ x @ drop (nat j) s"
proof -
  define a b where "a = nat i" and "b = nat j"
  have ij: "i = int a" "j = int b" using assms(3,4) by (simp_all add: a_def b_def)
  have x: "x = take (min b (length s) - min a (length s)) (drop (min a (length s)) s)"
    using assms(1) unfolding ij js_slice_nat by simp
  then have ab: "a < b" "a < length s" using assms(2) by (auto simp: min_def split: if_splits)
  then show "i < j" by (simp add: ij)
  have "take a s @ take (min b (length s) - a) (drop a s) @ drop b s = s"
  proof -
    have "take a s @ take (min b (length s) - a) (drop a s) = take (min b (length s)) s"
      using take_add [of a "min b (length s) - a" s] ab by simp
    then have "take a s @ take (min b (length s) - a) (drop a s) @ drop b s = take (min b (length s)) s @ drop b s"
      by (metis append_assoc)
    then show ?thesis by (cases "b \<le> length s") (simp_all add: min_def)
  qed
  with x ab show "s = take (nat i) s @ x @ drop (nat j) s" by (simp add: ij min_def)
qed

lemma accept_range_spec:
  assumes "markers_right rt" "settled_doc d" "0 \<le> i" "i < j" "toString d CONTENT \<noteq> []"
    "cut_clean (toString d CONTENT) (nat i)" "cut_clean (toString d CONTENT) (nat j)"
  shows "\<exists>d'. accept_range rt p i j d = Inr d' \<and> settled_doc d' \<and>
    toString d' CONTENT = take (nat i) (toString d CONTENT) @ replacement p @ drop (nat j) (toString d CONTENT)"
proof -
  define a k where "a = nat i" and "k = nat (j - i)"
  have ak: "i = int a" "j - i = int k" "nat j = a + k" "0 < k"
    using assms(3,4) by (auto simp: a_def k_def)
  have "accept_range rt p i j = y_transact rt (replace_body rt CONTENT a k (replacement p))"
    using assms(4) ak(4) unfolding accept_range_def replace_body_def ak(2) unfolding ak(1) y_at_nat
    by (simp add: fun_eq_iff accept_range_def replace_body_def)
  moreover have "edit_fits (Replace a k (replacement p)) (toString d CONTENT)"
    using assms(5-7) ak by simp
  ultimately show ?thesis
    using marker_cache.replace_tx [OF markers_right_cache [OF assms(1)] assms(2), of a k "replacement p" CONTENT] ak
    by simp
qed

text \<open>What accepting does to the rest of the page.\<close>

lemma accepted_simps [simp]:
  "ide_doc (accepted p s d) = d" "ide_sent (accepted p s d) = ide_sent s @ [SendAccept p]"
  "ide_proposals (accepted p s d) = filter (\<lambda>q. prop_id q \<noteq> prop_id p) (ide_proposals s)"
  by (simp_all add: accepted_def remove_proposal_def sendJSON_def)

lemma accept_not_stale:
  assumes "markers_right rt" "settled_doc (ide_doc s)" "relStart p \<noteq> []" "relEnd p \<noteq> []" "originalText p \<noteq> []"
    "isStale p (ide_doc s) = Some False" "resolveRange (ide_doc s) (relStart p) (relEnd p) = Some (Some (i, j))"
    "cut_clean (toString (ide_doc s) CONTENT) (nat i)" "cut_clean (toString (ide_doc s) CONTENT) (nat j)"
  shows "\<exists>d'. handleAcceptProposal rt p s = Some (Inr (accepted p s d')) \<and> settled_doc d' \<and>
    toString (ide_doc s) CONTENT = take (nat i) (toString (ide_doc s) CONTENT) @ originalText p @
      drop (nat j) (toString (ide_doc s) CONTENT) \<and>
    toString d' CONTENT = take (nat i) (toString (ide_doc s) CONTENT) @ replacement p @
      drop (nat j) (toString (ide_doc s) CONTENT)"
proof -
  let ?t = "toString (ide_doc s) CONTENT"
  have o: "js_slice ?t i j = originalText p" using assms(3-7) by (simp add: isStale_def)
  have n: "0 \<le> i" "0 \<le> j"
    using resolveRange_nonneg [OF _ assms(7)] assms(2) by (auto simp: settled_doc_def)
  note sl = slice_split [OF o assms(5) n]
  have "?t \<noteq> []" using sl(2) assms(5) by auto
  then obtain d' where "accept_range rt p i j (ide_doc s) = Inr d'" "settled_doc d'"
    "toString d' CONTENT = take (nat i) ?t @ replacement p @ drop (nat j) ?t"
    using accept_range_spec [OF assms(1,2) n(1) sl(1) _ assms(8,9)] by blast
  moreover from this assms(3-4,6-7) have "handleAcceptProposal rt p s = Some (Inr (accepted p s d'))"
    by (simp add: handleAcceptProposal_def)
  ultimately show ?thesis using sl(2) by blast
qed

text \<open>
  C2. accepting a proposal that is not stale replaces exactly the text it was made for, wherever the
  edits since have moved it, and nothing else; one message tells the others, and the proposal
  leaves the list.
\<close>

theorem accept_replaces_original:
  assumes "markers_right rt" "settled_doc (ide_doc s)" "relStart p \<noteq> []" "relEnd p \<noteq> []" "originalText p \<noteq> []"
    "isStale p (ide_doc s) = Some False" "resolveRange (ide_doc s) (relStart p) (relEnd p) = Some (Some (i, j))"
    "cut_clean (toString (ide_doc s) CONTENT) (nat i)" "cut_clean (toString (ide_doc s) CONTENT) (nat j)"
  shows "\<exists>s' pre post. handleAcceptProposal rt p s = Some (Inr s') \<and>
    toString (ide_doc s) CONTENT = pre @ originalText p @ post \<and>
    toString (ide_doc s') CONTENT = pre @ replacement p @ post \<and> length pre \<le> nat i \<and>
    settled_doc (ide_doc s') \<and> ide_sent s' = ide_sent s @ [SendAccept p] \<and>
    ide_proposals s' = filter (\<lambda>q. prop_id q \<noteq> prop_id p) (ide_proposals s)"
proof -
  obtain d' where d': "handleAcceptProposal rt p s = Some (Inr (accepted p s d'))" "settled_doc d'"
    "toString (ide_doc s) CONTENT = take (nat i) (toString (ide_doc s) CONTENT) @ originalText p @
      drop (nat j) (toString (ide_doc s) CONTENT)"
    "toString d' CONTENT = take (nat i) (toString (ide_doc s) CONTENT) @ replacement p @
      drop (nat j) (toString (ide_doc s) CONTENT)"
    using accept_not_stale [OF assms] by blast
  then show ?thesis
    by (intro exI [of _ "accepted p s d'"] exI [of _ "take (nat i) (toString (ide_doc s) CONTENT)"]
        exI [of _ "drop (nat j) (toString (ide_doc s) CONTENT)"]) simp
qed

definition hello_ide :: "unit ide" where
  "hello_ide = initial_ide \<lparr>sess_code = js ''ABC-123'', sess_userID = js ''ada'', sess_role = js ''editor'',
     sess_color = ''#00adb5''\<rparr> hello"

lemma hello_settled: "settled_doc (ide_doc hello_ide)"
  using hello_ok(1) hello_redone by (simp add: settled_doc_def hello_ide_def initial_ide_def)

lemma accept_replaces_original_witness:
  "\<exists>p s'. selected_proposal hello 1 4 (js ''p1'') (js ''ipp'') = Some p \<and>
     handleAcceptProposal (no_markers [7]) p hello_ide = Some (Inr s') \<and>
     ide_sent s' = [SendAccept p] \<and> settled_doc (ide_doc s')"
proof -
  have l: "1 \<le> length (toString hello CONTENT)" "4 \<le> length (toString hello CONTENT)"
    by (simp_all add: hello_text)
  obtain a b where ab: "encodeRange hello CONTENT 1 4 = Inr (a, b)" "a \<noteq> []" "b \<noteq> []"
    "resolveRange hello a b = Some (Some (int 1, int 4))"
    using encodeRange_resolves [OF hello_ok(1) hello_redone hello_safe l] by blast
  then obtain p where p: "selected_proposal hello 1 4 (js ''p1'') (js ''ipp'') = Some p"
    "relStart p = a" "relEnd p = b" "originalText p = js_slice (js ''hello'') 1 4"
    by (auto simp: selected_proposal_def hello_text simp del: js_simps)
  have doc: "ide_doc hello_ide = hello" "ide_sent hello_ide = []"
    by (simp_all add: hello_ide_def initial_ide_def)
  have ne: "originalText p \<noteq> []" by (simp add: p(4) js_slice_def)
  have r: "resolveRange hello (relStart p) (relEnd p) = Some (Some (1, 4))" using ab(4) p(2,3) by simp
  have st: "isStale p hello = Some False"
    using r ne ab(2,3) p(2-4) by (simp add: isStale_def hello_text del: js_simps)
  from accept_replaces_original [OF markers_right_simps(1) hello_settled, of p 1 4 "[7]"]
  show ?thesis using p(1-3) ab(2,3) ne r st hello_clean by (auto simp: doc)
qed

section \<open>Any proposal\<close>

lemma resolve_returns:
  assumes "doc_ok d" "redone_forward rank d"
  shows "createAbsolutePositionFromRelativePosition r d b \<noteq> None"
proof -
  have "followRedone d i 0 = None \<Longrightarrow> False" for i using followRedone_returns [OF assms, of i 0] by simp
  then show ?thesis
    by (auto simp: createAbsolutePositionFromRelativePosition_def Let_def split: option.splits sum.splits struct.splits)
qed

lemma resolveRange_returns: "doc_ok d \<Longrightarrow> redone_forward rank d \<Longrightarrow> resolveRange d a b \<noteq> None"
  by (auto simp: resolveRange_def resolve_returns split: sum.splits option.splits)

lemma isStale_returns: "doc_ok d \<Longrightarrow> redone_forward rank d \<Longrightarrow> isStale p d \<noteq> None"
  by (auto simp: isStale_def resolveRange_returns split: option.splits)

text \<open>
  C31. accepting returns for every proposal whatsoever, whatever strings it has for its positions and
  whatever became of the text they name, also when deletions were undone and undone again: the search for the
  item that replaces a deleted one ends, as long as the links lead to later copies (\<open>redone_forward\<close>; a
  cycle of links would make it loop). And a range that is resolved never starts or ends before the text.
\<close>

theorem accept_returns:
  assumes "doc_ok (ide_doc s)" "redone_forward rank (ide_doc s)"
  shows "handleAcceptProposal rt p s \<noteq> None \<and> isStale p (ide_doc s) \<noteq> None \<and>
    (\<exists>r. resolveRange (ide_doc s) a b = Some r \<and> (case r of None \<Rightarrow> True | Some (i, j) \<Rightarrow> 0 \<le> i \<and> 0 \<le> j))"
proof -
  obtain r where r: "resolveRange (ide_doc s) a b = Some r" using resolveRange_returns [OF assms] by blast
  have "case r of None \<Rightarrow> True | Some (i, j) \<Rightarrow> 0 \<le> i \<and> 0 \<le> j"
    using r resolveRange_nonneg [OF assms(1)] by (auto split: option.split prod.split)
  moreover have "handleAcceptProposal rt p s \<noteq> None"
    by (auto simp: handleAcceptProposal_def resolveRange_returns [OF assms] isStale_returns [OF assms]
        split: option.splits bool.splits)
  ultimately show ?thesis using r isStale_returns [OF assms] by blast
qed

text \<open>A document in which the deletion of the only character was undone.\<close>

definition redone_doc :: transaction where
  "redone_doc = \<lparr>heap = [
       ID 7 0 \<mapsto> Item \<lparr>it_origin = None, it_rightOrigin = None, it_parent = CONTENT, it_redone = Some (ID 7 1),
         it_content = ContentString (js ''x''), it_length = 1, it_deleted = True, it_keep = True\<rparr>,
       ID 7 1 \<mapsto> Item \<lparr>it_origin = Some (ID 7 0), it_rightOrigin = None, it_parent = CONTENT, it_redone = None,
         it_content = ContentString (js ''x''), it_length = 1, it_deleted = False, it_keep = False\<rparr>],
     clocks = (\<lambda>c. if c = 7 then [0, 1] else []), start = (\<lambda>n. if n = CONTENT then [ID 7 0, ID 7 1] else []),
     type_length = (\<lambda>n. if n = CONTENT then 1 else 0), clientID = 7, deleteSet = (\<lambda>c. []), mergeStructs = [],
     beforeState = (\<lambda>c. 0)\<rparr>"

lemma redone_doc_ok: "doc_ok redone_doc" "redone_forward (\<lambda>i. 1 - clock i) redone_doc"
proof -
  have "units redone_doc n = (if n = CONTENT then [(ID 7 0, None), (ID 7 1, Some 120)] else [])" for n
    by (simp add: units_def struct_units_def redone_doc_def item_units_def)
  then show "doc_ok redone_doc"
    by (auto simp: doc_ok_def visible_def)
      (auto simp: redone_doc_def item_ok_def ranges_of_def length_at_def ID.expand split: if_split_asm)
  show "redone_forward (\<lambda>i. 1 - clock i) redone_doc"
    by (auto simp: redone_forward_def redone_doc_def split: if_split_asm)
qed

lemma accept_returns_witness:
  "handleAcceptProposal (no_markers [7]) \<lparr>prop_id = [], prop_author = [], replacement = [], originalText = js ''x'',
     relStart = js ''??'', relEnd = js ''AA=='', startLine = 0, endLine = 0, startIndex = None, endIndex = None\<rparr>
     (hello_ide\<lparr>ide_doc := redone_doc\<rparr>) \<noteq> None \<and>
   (\<exists>it. heap redone_doc (ID 7 0) = Some (Item it) \<and> it_redone it = Some (ID 7 1))"
  using accept_returns [of "hello_ide\<lparr>ide_doc := redone_doc\<rparr>"] redone_doc_ok
  by (simp add: redone_doc_def del: js_simps)

section \<open>The stale mark\<close>

lemma stale_ids_mem:
  assumes "stale_ids ps d = Some ids" "p \<in> set ps" "distinct (map prop_id ps)"
  shows "isStale p d = Some (prop_id p \<in> set ids)"
proof -
  have sub: "stale_ids qs d = Some ids0 \<Longrightarrow> set ids0 \<subseteq> prop_id ` set qs" for qs ids0
    by (induction qs arbitrary: ids0) (auto split: option.splits if_splits)
  show ?thesis
    using assms
  proof (induction ps arbitrary: ids)
    case (Cons q qs)
    obtain b ids0 where b: "isStale q d = Some b" "stale_ids qs d = Some ids0"
        "ids = (if b then prop_id q # ids0 else ids0)"
      using Cons.prems(1) by (auto split: option.splits)
    show ?case
    proof (cases "p = q")
      case True
      have "prop_id q \<notin> set ids0" using sub [OF b(2)] Cons.prems(3) by auto
      with True b show ?thesis by simp
    next
      case False
      then have "p \<in> set qs" using Cons.prems(2) by simp
      moreover from this have "prop_id p \<in> set (map prop_id qs)" by simp
      then have "prop_id p \<noteq> prop_id q" using Cons.prems(3) by (metis distinct.simps(2) list.simps(9))
      ultimately show ?thesis using Cons.IH [OF b(2)] Cons.prems(3) b(3) by simp
    qed
  qed simp
qed

lemma reject_not_accept: "handleRejectProposal i s \<noteq> accepted p s d"
proof
  assume "handleRejectProposal i s = accepted p s d"
  then have "ide_sent (handleRejectProposal i s) = ide_sent (accepted p s d)" by (rule arg_cong)
  then show False by (simp add: handleRejectProposal_def remove_proposal_def sendJSON_def)
qed

text \<open>
  C28. the mark on a card tells the truth: a proposal with positions is shown as stale exactly when
  accepting it now would do no more than reject it, which sends one message and leaves the
  document alone.
\<close>

theorem stale_mark_correct:
  assumes "stale_ids (ide_proposals s) (ide_doc s) = Some ids" "p \<in> set (ide_proposals s)"
    "distinct (map prop_id (ide_proposals s))" "relStart p \<noteq> []" "relEnd p \<noteq> []"
  shows "(card_stale (proposal_card_of r ids p) \<longleftrightarrow>
      handleAcceptProposal rt p s = Some (Inr (handleRejectProposal (prop_id p) s))) \<and>
    ide_doc (handleRejectProposal (prop_id p) s) = ide_doc s \<and>
    ide_sent (handleRejectProposal (prop_id p) s) = ide_sent s @ [SendReject (prop_id p)]"
proof (intro conjI)
  have st: "isStale p (ide_doc s) = Some (prop_id p \<in> set ids)" by (rule stale_ids_mem [OF assms(1-3)])
  show "ide_doc (handleRejectProposal (prop_id p) s) = ide_doc s"
    "ide_sent (handleRejectProposal (prop_id p) s) = ide_sent s @ [SendReject (prop_id p)]"
    by (simp_all add: handleRejectProposal_def remove_proposal_def sendJSON_def)
  show "card_stale (proposal_card_of r ids p) \<longleftrightarrow>
      handleAcceptProposal rt p s = Some (Inr (handleRejectProposal (prop_id p) s))"
  proof (cases "prop_id p \<in> set ids")
    case True
    with st assms(4,5) show ?thesis by (simp add: handleAcceptProposal_def proposal_card_of_def)
  next
    case False
    with st assms(4,5) obtain i j where "resolveRange (ide_doc s) (relStart p) (relEnd p) = Some (Some (i, j))"
      by (auto simp: isStale_def split: option.splits)
    with False st assms(4,5) reject_not_accept [of "prop_id p" s p] show ?thesis
      by (cases "accept_range rt p i j (ide_doc s)")
        (auto simp: handleAcceptProposal_def proposal_card_of_def dest: sym)
  qed
qed

lemma stale_mark_correct_witness:
  "\<exists>p. \<not> card_stale (proposal_card_of (js ''editor'') [] p) \<and>
     handleAcceptProposal (no_markers [7]) p (onProposal (Add p) hello_ide)
       \<noteq> Some (Inr (handleRejectProposal (prop_id p) (onProposal (Add p) hello_ide)))"
proof -
  have l: "1 \<le> length (toString hello CONTENT)" "4 \<le> length (toString hello CONTENT)"
    by (simp_all add: hello_text)
  obtain a b where ab: "encodeRange hello CONTENT 1 4 = Inr (a, b)" "a \<noteq> []" "b \<noteq> []"
    "resolveRange hello a b = Some (Some (int 1, int 4))"
    using encodeRange_resolves [OF hello_ok(1) hello_redone hello_safe l] by blast
  define p where "p = \<lparr>prop_id = [], prop_author = [], replacement = [],
      originalText = js_slice (toString hello CONTENT) 1 4, relStart = a, relEnd = b, startLine = 1,
      endLine = 1, startIndex = None, endIndex = None\<rparr>"
  have p: "relStart p = a" "relEnd p = b" "originalText p = js_slice (toString hello CONTENT) 1 4"
    by (simp_all add: p_def)
  have st: "isStale p hello = Some False" using ab p by (simp add: isStale_def)
  have doc: "ide_doc hello_ide = hello" "ide_proposals hello_ide = []"
    by (simp_all add: hello_ide_def initial_ide_def)
  have "stale_ids (ide_proposals (onProposal (Add p) hello_ide)) (ide_doc (onProposal (Add p) hello_ide)) = Some []"
    using st by (simp add: onProposal_def doc)
  from stale_mark_correct [OF this, of p "js ''editor''" "no_markers [7]"] p ab
  show ?thesis by (intro exI [of _ p]) (simp add: onProposal_def doc proposal_card_of_def)
qed

section \<open>Everyone sees the same run\<close>

lemma run_lines_kinds:
  "(ls, st) = run_lines r \<Longrightarrow>
   list_all (\<lambda>l. kind l = js ''err'' \<or> kind l = js ''ok'' \<or> kind l = js ''meta'') ls"
  by (auto simp: run_lines_def list_all_iff simp del: js_simps split: run_reply.splits if_splits)

text \<open>
  Whatever a run ends with, output, compiler errors or an exception, the page stops waiting and
  sends one message, after which every other page that receives it shows the same lines and the
  same status; compiler errors give a failed build with no empty line.
\<close>

theorem run_result_agrees:
  "\<exists>ls st. ide_sent (runCode_reply r s) = ide_sent s @ [SendRunResult ls st] \<and>
     \<not> ide_running (runCode_reply r s) \<and> \<not> ide_running (onMessage (RunResult ls st) s2) \<and>
     OutputPanel li (ide_lines (onMessage (RunResult ls st) s2)) st False
       = OutputPanel li (ide_lines (runCode_reply r s)) st False \<and>
     ide_status (onMessage (RunResult ls st) s2) = ide_status (runCode_reply r s) \<and>
     (case r of RunData (e # es) evs \<Rightarrow> st = js ''err'' \<and> list_all (\<lambda>l. kind l = js ''err'' \<and> line_text l \<noteq> []) ls
      | RunData [] evs \<Rightarrow> st = js ''ok'' \<and> ls \<noteq> [] | RunThrown m \<Rightarrow> st = js ''err'' \<and> map line_text ls = [m])"
proof -
  obtain ls st where l: "run_lines r = (ls, st)" by fastforce
  have "case r of RunData (e # es) evs \<Rightarrow> st = js ''err'' \<and> list_all (\<lambda>l. kind l = js ''err'' \<and> line_text l \<noteq> []) ls
      | RunData [] evs \<Rightarrow> st = js ''ok'' \<and> ls \<noteq> [] | RunThrown m \<Rightarrow> st = js ''err'' \<and> map line_text ls = [m]"
    using l by (auto simp: run_lines_def list_all_iff simp del: js_simps split: run_reply.splits list.splits if_splits)
  with l show ?thesis
    by (intro exI [of _ ls] exI [of _ st])
      (simp add: runCode_reply_def sendJSON_def onMessage_def onRunResult_def)
qed

section \<open>The steps of a page\<close>

text \<open>What happens to a page: \<open>FromServer\<close> and \<open>RemoteUpdate\<close> come over the socket, the rest is done by the
  user or by the page itself.\<close>

datatype ide_event = FromServer server_msg | DocIsReady | RoleSelected | AcceptClicked | RejectClicked | RunClicked |
  RunReplied | ShareToggled | Typed | RemoteUpdate | ProposeClicked | ProposeClosed | ProposeSubmitted | StaleChecked

text \<open>A state with the sidebar's and with the number of run requests that have no reply yet. The sidebar
  offers role changes and decisions to editors only, and the dialogue for a proposal to editors and proposers;
  a dialogue that is open stays open when the role changes. The editor is writable for editors only, and only
  a viewer has no Run button. A remote update may turn the document into any other.\<close>

type_synonym 'a page = "'a ide \<times> sidebar \<times> nat"

inductive ide_step :: "'a runtime \<Rightarrow> ide_event \<Rightarrow> 'a page \<Rightarrow> 'a page \<Rightarrow> bool" for rt where
  message: "ide_step rt (FromServer m) (s, sb, n) (onMessage m s, sb, n)"
| ready: "ide_step rt DocIsReady (s, sb, n) (onDocReady s, sb, n)"
| change_role: "ide_myRole s = js ''editor'' \<Longrightarrow> p \<in> set (ide_participants s) \<Longrightarrow> \<not> part_isMe p \<Longrightarrow>
    ide_step rt RoleSelected (s, sb, n) (handleRoleChange (part_id p) r s, sb, n)"
| accept: "ide_myRole s = js ''editor'' \<Longrightarrow> p \<in> set (ide_proposals s) \<Longrightarrow>
    handleAcceptProposal rt p s = Some (Inr s') \<Longrightarrow> ide_step rt AcceptClicked (s, sb, n) (s', sb, n)"
| reject: "ide_myRole s = js ''editor'' \<Longrightarrow> p \<in> set (ide_proposals s) \<Longrightarrow>
    ide_step rt RejectClicked (s, sb, n) (handleRejectProposal (prop_id p) s, sb, n)"
| run: "ide_myRole s \<noteq> js ''viewer'' \<Longrightarrow> runCode s = (s', Some body) \<Longrightarrow>
    ide_step rt RunClicked (s, sb, n) (s', sb, Suc n)"
| reply: "ide_step rt RunReplied (s, sb, Suc n) (runCode_reply r s, sb, n)"
| share: "ide_step rt ShareToggled (s, sb, n) (s\<lparr>ide_showShare := b\<rparr>, sb, n)"
| edit: "ide_docReady s \<Longrightarrow> ide_myRole s = js ''editor'' \<Longrightarrow> edit_doc rt CONTENT [e] (ide_doc s) = Inr d \<Longrightarrow>
    ide_step rt Typed (s, sb, n) (s\<lparr>ide_doc := d\<rparr>, sb, n)"
| remote: "ide_step rt RemoteUpdate (s, sb, n) (s\<lparr>ide_doc := d\<rparr>, sb, n)"
| propose: "ide_myRole s = js ''proposer'' \<or> ide_myRole s = js ''editor'' \<Longrightarrow>
    ide_step rt ProposeClicked (s, sb, n) (s, openProposeModal view sb, n)"
| close: "ide_step rt ProposeClosed (s, sb, n) (s, closeProposeModal sb, n)"
| submit: "sb_showProposeModal sb \<Longrightarrow> sb_selection sb = Some sel \<Longrightarrow> sel_from sel \<noteq> sel_to sel \<Longrightarrow>
    submitProposal mini uuid (ide_doc s) sb = Inr (sb', m) \<Longrightarrow>
    ide_step rt ProposeSubmitted (s, sb, n) (case m of None \<Rightarrow> s | Some x \<Rightarrow> sendJSON x s, sb', n)"
| check: "stale_ids (ide_proposals s) (ide_doc s) = Some ids \<Longrightarrow>
    ide_step rt StaleChecked (s, sb, n) (s, sb\<lparr>sb_staleIds := ids\<rparr>, n)"

definition page_step :: "'a runtime \<Rightarrow> 'a page \<Rightarrow> 'a page \<Rightarrow> bool" where
  "page_step rt pg pg' \<longleftrightarrow> (\<exists>e. ide_step rt e pg pg')"

definition ide_reach :: "'a runtime \<Rightarrow> session \<Rightarrow> 'a transaction_scheme \<Rightarrow> 'a page \<Rightarrow> bool" where
  "ide_reach rt ses d = (page_step rt)\<^sup>*\<^sup>* (initial_ide ses d, initial_sidebar, 0)"

text \<open>Who is marked as oneself, and when the page waits.\<close>

definition own_marked :: "jsstring \<Rightarrow> participant list \<Rightarrow> bool" where
  "own_marked u = list_all (\<lambda>p. part_isMe p \<longleftrightarrow> part_id p = u)"

lemma own_marked_simps [simp]:
  "own_marked u (set_role i r ps) = own_marked u ps"
  "own_marked u (map (\<lambda>(i, r). \<lparr>part_id = i, part_role = r, part_isMe = (i = u)\<rparr>) l)"
  by (induction ps, simp_all add: own_marked_def set_role_def) (induction l, simp_all add: split_beta)

definition ide_inv :: "jsstring \<Rightarrow> 'a page \<Rightarrow> bool" where
  "ide_inv u pg = (ide_userID (fst pg) = u \<and>
     own_marked u (ide_participants (fst pg)) \<and>
     (ide_running (fst pg) \<longrightarrow> 0 < snd (snd pg)))"

lemmas ide_handlers = onMessage_def onParticipants_def onProposal_def onRoleChange_def onRunResult_def
  onDocReady_def remove_proposal_def set_role_def sendJSON_def handleRoleChange_def
  handleRejectProposal_def accepted_def runCode_def runCode_reply_def

lemma accept_cases:
  assumes "handleAcceptProposal rt p s = Some (Inr s')"
  obtains "s' = handleRejectProposal (prop_id p) s" | d where "s' = accepted p s d"
  using assms by (auto simp: handleAcceptProposal_def map_sum_def
      split: if_splits option.splits bool.splits sum.splits)

lemma onMessage_inv: "ide_inv u (s, sb, n) \<Longrightarrow> ide_inv u (onMessage m s, sb, n)"
proof (cases m)
  case (Participants l)
  assume "ide_inv u (s, sb, n)"
  then show ?thesis
    by (simp add: Participants ide_inv_def onMessage_def onParticipants_def)
next
  case (ProposalMsg a)
  assume "ide_inv u (s, sb, n)"
  then show ?thesis
    by (cases a) (simp_all add: ProposalMsg ide_inv_def onMessage_def onProposal_def remove_proposal_def)
next
  case (RoleChange i r)
  assume "ide_inv u (s, sb, n)"
  then show ?thesis
    by (simp add: RoleChange ide_inv_def onMessage_def onRoleChange_def)
next
  case (RunResult ls st)
  assume "ide_inv u (s, sb, n)"
  then show ?thesis by (simp add: RunResult ide_inv_def onMessage_def onRunResult_def)
qed

lemma ide_step_inv: "ide_step rt e pg pg' \<Longrightarrow> ide_inv u pg \<Longrightarrow> ide_inv u pg'"
proof (induction rule: ide_step.induct)
  case (message m s sb n)
  then show ?case by (rule onMessage_inv)
next
  case (accept s p s' sb n)
  from accept(3) show ?case
    by (rule accept_cases)
      (use accept(4) in \<open>simp_all add: ide_inv_def handleRejectProposal_def accepted_def remove_proposal_def sendJSON_def\<close>)
next
  case (change_role s p r sb n)
  then show ?case by (simp add: ide_inv_def handleRoleChange_def sendJSON_def Let_def)
next
  case (run s s' body sb n)
  then show ?case by (auto simp: ide_inv_def runCode_def simp del: js_simps split: if_splits)
next
  case (reply s sb n r)
  then show ?case by (simp add: ide_inv_def runCode_reply_def sendJSON_def split_beta)
qed (simp_all add: ide_inv_def onDocReady_def handleRejectProposal_def remove_proposal_def sendJSON_def split: option.split)

text \<open>
  C29. in every state a page can reach, exactly the entries with the user's own name are marked as
  his, and while the Run button shows that the program is running a request is outstanding, whose
  reply will end it.
\<close>

theorem ide_invariant:
  assumes "ide_reach rt ses d (s, sb, n)"
  shows "(\<forall>p \<in> set (ide_participants s). part_isMe p \<longleftrightarrow> part_id p = sess_userID ses) \<and>
    (ide_running s \<longrightarrow> 0 < n)"
proof -
  have "(page_step rt)\<^sup>*\<^sup>* pg pg' \<Longrightarrow> ide_inv u pg \<Longrightarrow> ide_inv u pg'" for pg pg' u
    by (induction rule: rtranclp_induct) (auto simp: page_step_def intro: ide_step_inv)
  moreover have "ide_inv (sess_userID ses) (initial_ide ses d, initial_sidebar, 0)"
    by (simp add: ide_inv_def initial_ide_def own_marked_def)
  ultimately have "ide_inv (sess_userID ses) (s, sb, n)" using assms unfolding ide_reach_def by blast
  then show ?thesis by (simp add: ide_inv_def own_marked_def list_all_iff)
qed

definition ada :: session where
  "ada = \<lparr>sess_code = js ''ABC-123'', sess_userID = js ''ada'', sess_role = js ''editor'', sess_color = ''#00adb5''\<rparr>"

lemma ide_invariant_witness:
  "\<exists>s. ide_reach (no_markers [7]) ada hello (s, initial_sidebar, 1) \<and> ide_running s \<and> length (ide_participants s) = 2 \<and>
     (\<forall>p \<in> set (ide_participants s). part_isMe p \<longleftrightarrow> part_id p = js ''ada'')"
proof -
  define m where "m = Participants [(js ''ada'', js ''editor''), (js ''bob'', js ''viewer'')]"
  define s1 where "s1 = onMessage m (initial_ide ada hello)"
  define s2 where "s2 = fst (runCode s1)"
  have "page_step (no_markers [7]) (initial_ide ada hello, initial_sidebar, 0) (s1, initial_sidebar, 0)"
    unfolding s1_def page_step_def by (blast intro: ide_step.message)
  moreover have "page_step (no_markers [7]) (s1, initial_sidebar, 0) (s2, initial_sidebar, Suc 0)"
    unfolding page_step_def by (rule exI, rule ide_step.run [of _ _ "toString hello CONTENT"])
      (simp_all add: s2_def s1_def m_def onMessage_def onParticipants_def initial_ide_def runCode_def ada_def)
  ultimately have r: "ide_reach (no_markers [7]) ada hello (s2, initial_sidebar, 1)" unfolding ide_reach_def by simp
  have "ide_running s2" "length (ide_participants s2) = 2"
    by (simp_all add: s2_def s1_def m_def onMessage_def onParticipants_def initial_ide_def runCode_def)
  with r ide_invariant [OF r] show ?thesis by (auto simp: ada_def)
qed

text \<open>
  C30. what a page does is bound by the role: while the role is not editor, the document changes in no step but
  a remote update; nothing is sent but the result of a run that was started before, and a proposal from
  a dialogue that is open, which an editor or proposer has opened. The role changes by a message of the
  server only.
\<close>

theorem only_editors_act:
  assumes "ide_step rt e (s, sb, n) (s', sb', n')"
  shows "(ide_myRole s \<noteq> js ''editor'' \<longrightarrow>
      (ide_doc s' \<noteq> ide_doc s \<longrightarrow> e = RemoteUpdate) \<and>
      (ide_sent s' \<noteq> ide_sent s \<longrightarrow>
        (e = RunReplied \<and> 0 < n \<and> (\<exists>ls st. ide_sent s' = ide_sent s @ [SendRunResult ls st])) \<or>
        (e = ProposeSubmitted \<and> sb_showProposeModal sb \<and>
          (\<exists>i repl orig a b k l. ide_sent s' = ide_sent s @ [SendProposalAdd i repl orig a b k l])))) \<and>
    (sb_showProposeModal sb' \<and> \<not> sb_showProposeModal sb \<longrightarrow>
      ide_myRole s = js ''proposer'' \<or> ide_myRole s = js ''editor'') \<and>
    (ide_myRole s' \<noteq> ide_myRole s \<longrightarrow> (\<exists>r. e = FromServer (RoleChange (ide_userID s) r) \<and> ide_myRole s' = r))"
  using assms
proof (cases rule: ide_step.cases)
  case (message m)
  then show ?thesis
    by (cases m) (auto simp: ide_handlers simp del: js_simps split: proposal_action.splits if_splits)
next
  case (accept p)
  then have "handleAcceptProposal rt p s = Some (Inr s')" "ide_myRole s = js ''editor''" by auto
  from this(1) show ?thesis
    by (rule accept_cases) (use accept in \<open>simp_all add: \<open>ide_myRole s = _\<close> ide_handlers del: js_simps\<close>)
next
  case (run body)
  then show ?thesis by (auto simp: runCode_def simp del: js_simps split: if_splits)
next
  case (reply r)
  then show ?thesis by (auto simp: runCode_reply_def sendJSON_def split_beta simp del: js_simps)
next
  case (submit sel mini uuid m)
  then show ?thesis
    by (auto simp: submitProposal_def closeProposeModal_def sendJSON_def simp del: js_simps
        split: option.splits sum.splits prod.splits if_splits)
qed (auto simp: onDocReady_def handleRoleChange_def handleRejectProposal_def remove_proposal_def
    openProposeModal_def closeProposeModal_def sendJSON_def Let_def simp del: js_simps)

lemma only_editors_act_witness:
  "\<exists>s'. ide_step (no_markers [7]) RunReplied (hello_ide\<lparr>ide_myRole := js ''viewer''\<rparr>, initial_sidebar, 1)
     (s', initial_sidebar, 0) \<and> ide_sent s' \<noteq> [] \<and> ide_doc s' = hello"
proof -
  let ?s = "hello_ide\<lparr>ide_myRole := js ''viewer''\<rparr>"
  have st: "ide_step (no_markers [7]) RunReplied (?s, initial_sidebar, Suc 0) (runCode_reply (RunThrown []) ?s, initial_sidebar, 0)"
    by (rule ide_step.reply)
  have "js ''viewer'' \<noteq> js ''editor''" by simp
  with only_editors_act [OF st] have "ide_doc (runCode_reply (RunThrown []) ?s) = ide_doc ?s" by auto
  with st show ?thesis
    by (intro exI [of _ "runCode_reply (RunThrown []) ?s"])
      (auto simp: runCode_reply_def run_lines_def sendJSON_def hello_ide_def initial_ide_def simp del: js_simps)
qed

end
