(* ===== verification/Proposals.thy ===== *)
theory Proposals
  imports YAnchor FrontIDE
begin

text \<open>
  The life of a proposal across the program: the proposer's dialogue (\<open>FrontSidebar\<close>) sends it, the
  server relays it (\<open>handleProposalMsg\<close> of \<open>handlers.go\<close>), an editor's page lists it, the document is
  edited meanwhile (\<open>YAnchor\<close>), and the editor accepts it (\<open>FrontIDE\<close>). The strings are made of whole
  characters, so JSON and Go leave them as they are; whether the replicated log takes the command is
  a parameter.
\<close>

section \<open>The server's relay\<close>

datatype relay = Ignored | Redirected | Broadcast server_msg

definition handleProposalMsg :: "jsstring \<Rightarrow> jsstring \<Rightarrow> bool \<Rightarrow> client_msg \<Rightarrow> relay" where
  "handleProposalMsg role user submitted m = (case m of
     SendProposalAdd i repl orig rs re sl el \<Rightarrow>
       if role \<noteq> js ''proposer'' \<and> role \<noteq> js ''editor'' then Ignored
       else if \<not> submitted then Redirected
       else Broadcast (ProposalMsg (Add \<lparr>prop_id = i, prop_author = user, replacement = repl,
         originalText = orig, relStart = rs, relEnd = re, startLine = int sl, endLine = int el,
         startIndex = None, endIndex = None\<rparr>))
   | SendAccept p \<Rightarrow>
       if role \<noteq> js ''editor'' then Ignored else if \<not> submitted then Redirected
       else Broadcast (ProposalMsg (Accept (prop_id p)))
   | SendReject i \<Rightarrow>
       if role \<noteq> js ''editor'' then Ignored else if \<not> submitted then Redirected
       else Broadcast (ProposalMsg (Reject i))
   | _ \<Rightarrow> Ignored)"

section \<open>A range after edits\<close>

lemma encoded_range_after:
  assumes d: "doc_ok d" "ids_safe d CONTENT" and d1: "doc_ok d1" "no_redone d1"
    and e: "encodeRange d CONTENT from to = Inr (a, b)"
    and at: "anchored (units d1 CONTENT) (anchor_of d CONTENT from) from1"
      "anchored (units d1 CONTENT) (anchor_of d CONTENT to) to1"
  shows "a \<noteq> [] \<and> b \<noteq> [] \<and> resolveRange d1 a b = Some (Some (int from1, int to1))"
proof -
  let ?r = "\<lambda>k. createRelativePositionFromTypeIndex d CONTENT k (JInt False 0)"
  have z: "0 \<le> jsint_val (JInt False 0)" by (simp add: jsint_val_def)
  obtain bs s where s: "encodeRelativePosition (?r from) = Inr bs" "toBase64 bs = Inr s" "s \<noteq> []"
    "decode_base64_position s = Inr (rp_normal (?r from))"
    using encoded_position [OF created_ok [OF d]] by blast
  obtain be t where t: "encodeRelativePosition (?r to) = Inr be" "toBase64 be = Inr t" "t \<noteq> []"
    "decode_base64_position t = Inr (rp_normal (?r to))"
    using encoded_position [OF created_ok [OF d]] by blast
  have "a = s" "b = t" using e s t by (auto simp: encodeRange_def)
  with s t resolve_anchored [OF d(1) d1 z at(1)] resolve_anchored [OF d(1) d1 z at(2)] show ?thesis
    by (simp add: resolveRange_def resolve_normal)
qed

section \<open>From the dialogue to the document\<close>

text \<open>
  C1. a proposal keeps its promise across the whole program. It is made in the dialogue for a
  non-empty selection, relayed by the server, and accepted on an editor's page after any sequence of
  insertions, deletions and replacements away from the selected text, in front of it or behind it:
  accepting it replaces the text that was selected, wherever it is now, and nothing else.
\<close>

theorem proposal_survives_edits:
  assumes "markers_right rt" "settled_doc d" "ids_safe d CONTENT"
    and "sb_selection sb = Some (selection_of v)" "view_doc v = toString d CONTENT"
    and "view_from v < view_to v" "view_to v \<le> length (view_doc v)"
    and "submitProposal (Some repl) uuid d sb = Inr (sb', Some m)"
    and "handleProposalMsg role user True m = Broadcast (ProposalMsg (Add pr))"
    and "edits_fit es (toString d CONTENT)" "edits_avoid es (view_from v) (view_to v) (toString d CONTENT)"
    and "edit_doc rt CONTENT es d = Inr (ide_doc s)"
    and "cut_clean (toString (ide_doc s) CONTENT) (fold moved es (view_from v))"
      "cut_clean (toString (ide_doc s) CONTENT) (fold moved es (view_to v))"
  shows "\<exists>s'. handleAcceptProposal rt pr s = Some (Inr s') \<and> ide_sent s' = ide_sent s @ [SendAccept pr] \<and>
    toString (ide_doc s') CONTENT =
      apply_edit (Replace (fold moved es (view_from v)) (fold moved es (view_to v) - fold moved es (view_from v)) repl)
        (fold apply_edit es (toString d CONTENT))"
proof -
  let ?f = "view_from v" and ?t = "view_to v" and ?f1 = "fold moved es (view_from v)" and ?t1 = "fold moved es (view_to v)"
  have ok: "doc_ok d" "no_redone d" using assms(2) by (simp_all add: settled_doc_def)
  have tl: "?t \<le> length (toString d CONTENT)" using assms(5,7) by simp
  note r = range_after_edits [OF assms(1,2,10,11,6) tl assms(12)]
  obtain d1 where d1: "edit_doc rt CONTENT es d = Inr d1" "settled_doc d1" "toString d1 CONTENT = fold apply_edit es (toString d CONTENT)"
    using marker_cache.edits_ok [OF markers_right_cache [OF assms(1)] assms(2,10)] by (auto simp: edit_doc_def)
  then have s: "ide_doc s = d1" using assms(12) by simp
  have ok1: "doc_ok d1" "no_redone d1" using d1(2) by (simp_all add: settled_doc_def)
  have sel: "sel_text (selection_of v) = js_slice (toString d CONTENT) (int ?f) (int ?t)"
    using assms(5-7) by (simp add: selection_of_def js_slice_nat min_def)
  obtain a b where ab: "encodeRange d CONTENT ?f ?t = Inr (a, b)"
    and pr: "relStart pr = a" "relEnd pr = b" "replacement pr = repl"
      "originalText pr = js_slice (toString d CONTENT) (int ?f) (int ?t)"
    using assms(4,8,9) sel
    by (auto simp: submitProposal_def handleProposalMsg_def selection_of_def split: if_splits sum.splits prod.splits)
  have res: "a \<noteq> [] \<and> b \<noteq> [] \<and> resolveRange d1 a b = Some (Some (int ?f1, int ?t1))"
    using encoded_range_after [OF ok(1) assms(3) ok1 ab] r(1,2) s by simp
  have ne: "originalText pr \<noteq> []" using assms(6) tl by (simp add: pr(4) js_slice_nat min_def)
  have st: "isStale pr d1 = Some False" using res r(5) s ne by (simp add: isStale_def pr)
  obtain d2 where "handleAcceptProposal rt pr s = Some (Inr (accepted pr s d2))"
    "toString d2 CONTENT = take (nat (int ?f1)) (toString d1 CONTENT) @ replacement pr @ drop (nat (int ?t1)) (toString d1 CONTENT)"
    using accept_not_stale [of rt s pr "int ?f1" "int ?t1"] assms(1,13,14) d1(2) res ne st pr s by auto
  moreover have "?f1 + (?t1 - ?f1) = ?t1" using r(3) by simp
  ultimately show ?thesis using d1(3) pr(3) by (intro exI [of _ "accepted pr s d2"]) simp
qed

lemma proposal_survives_edits_witness:
  "\<exists>d1 sb' m pr s'. edit_doc (no_markers [7]) CONTENT [Ins 0 (js ''XY''), Ins 7 (js ''!'')] hello = Inr d1 \<and>
     submitProposal (Some (js ''ipp'')) (js ''u1'') hello (openProposeModal (Some hello_view) initial_sidebar) = Inr (sb', Some m) \<and>
     handleProposalMsg (js ''proposer'') (js ''bo'') True m = Broadcast (ProposalMsg (Add pr)) \<and>
     handleAcceptProposal (no_markers [7]) pr (hello_ide\<lparr>ide_doc := d1\<rparr>) = Some (Inr s') \<and>
     toString (ide_doc s') CONTENT = js ''XYhippo!''"
proof -
  let ?es = "[Ins 0 (js ''XY''), Ins 7 (js ''!'')]"
  let ?sb = "openProposeModal (Some hello_view) initial_sidebar"
  have d: "settled_doc hello" using hello_ok(1) hello_redone by (simp add: settled_doc_def)
  have f: "edits_fit ?es (toString hello CONTENT)" by (simp add: hello_text cut_clean_def isHighSurrogate_def)
  obtain d1 where d1: "edit_doc (no_markers [7]) CONTENT ?es hello = Inr d1"
      "toString d1 CONTENT = fold apply_edit ?es (toString hello CONTENT)"
    using marker_cache.edits_ok [OF markers_right_cache [OF markers_right_simps(1)] d f]
    by (auto simp: edit_doc_def simp del: fold_simps)
  have t1: "toString d1 CONTENT = js ''XYhello!''" using d1(2) by (simp add: hello_text)
  have v: "view_from hello_view = 1" "view_to hello_view = 4" "view_doc hello_view = js ''hello''"
    by (simp_all add: hello_view_def)
  have sel: "sb_selection ?sb = Some (selection_of hello_view)" by (simp add: openProposeModal_def)
  obtain a b where "encodeRange hello CONTENT 1 4 = Inr (a, b)"
    using encodeRange_resolves [OF hello_ok(1) hello_redone hello_safe, of 1 4] by (auto simp: hello_text)
  then obtain sb' m where m: "submitProposal (Some (js ''ipp'')) (js ''u1'') hello ?sb = Inr (sb', Some m)"
      "\<exists>a b. m = SendProposalAdd (js ''u1'') (js ''ipp'') (js ''ell'') a b 1 1"
    by (simp add: submitProposal_def sel selection_of_def v lineNumber_def)
  then obtain pr where pr: "handleProposalMsg (js ''proposer'') (js ''bo'') True m = Broadcast (ProposalMsg (Add pr))"
    by (auto simp: handleProposalMsg_def)
  have c: "cut_clean (toString d1 CONTENT) (fold moved ?es (view_from hello_view))"
    "cut_clean (toString d1 CONTENT) (fold moved ?es (view_to hello_view))"
    by (simp_all add: t1 v cut_clean_def isHighSurrogate_def)
  have av: "edits_avoid ?es (view_from hello_view) (view_to hello_view) (toString hello CONTENT)"
    "view_doc hello_view = toString hello CONTENT"
    by (simp_all add: v hello_text)
  let ?s = "hello_ide\<lparr>ide_doc := d1\<rparr>"
  have e: "edit_doc (no_markers [7]) CONTENT ?es hello = Inr (ide_doc ?s)" using d1(1) by simp
  from proposal_survives_edits [OF markers_right_simps(1) d hello_safe sel av(2) _ _ m(1) pr f av(1) e] c
  obtain s' where "handleAcceptProposal (no_markers [7]) pr ?s = Some (Inr s')"
    "toString (ide_doc s') CONTENT = js ''XYhippo!''" by (auto simp: v hello_text)
  with d1(1) m(1) pr show ?thesis by blast
qed

end
