(* ===== verification/CollabWS.thy ===== *)
theory CollabWS
  imports FrontTypes
begin

text \<open>
  The WebSocket hook (\<open>useCollabWS.js\<close>): the sockets it makes, the reference through which the page
  sends, and what it does on each event. The hook's effect may run more than once (the page is
  rendered in strict mode, which mounts every effect twice during development), so there is a list
  of sockets; those made by the effect have handlers of their own, those made for a redirect have
  none.

  Encoding the document's state, state vectors, differences and awareness, and applying such
  updates, is done by Yjs and \<open>y-protocols\<close>; here they are the fields of \<open>replica_ops\<close>, over a
  replica, the document together with its awareness states. Setting the local user,
  removing the local state and applying an awareness update give, when they change something, the
  update that encodes what has changed, with which the \<open>change\<close> event is fired. Applying
  an update to the document may throw in the middle; the flag says that it did not. Applying one to
  the awareness states may, too, and then there is no event.
\<close>

section \<open>Definitions\<close>

definition STARTER_LINES :: "jsstring list" where
  "STARTER_LINES =
    [js ''package main'',
     [],
     js ''import ('',
     [9] @ js ''\"fmt\"'',
     [9] @ js ''\"math\"'',
     js '')'',
     [],
     js ''func fibonacci(n int) int {'',
     [9] @ js ''if n <= 1 {'',
     [9, 9] @ js ''return n'',
     [9] @ js ''}'',
     [9] @ js ''return fibonacci(n-1) + fibonacci(n-2)'',
     js ''}'',
     [],
     js ''func main() {'',
     [9] @ js ''fmt.Println(\"GoCollab IDE '' @ [8212] @ js '' Hello!\")'',
     [9] @ js ''fmt.Println()'',
     [9] @ js ''fmt.Println(\"Fibonacci sequence:\")'',
     [9] @ js ''for i := 0; i < 10; i++ {'',
     [9, 9] @ js ''fmt.Printf(\"  fib(%d) = %d'' @ [92] @ js ''n\", i, fibonacci(i))'',
     [9] @ js ''}'',
     [9] @ js ''fmt.Printf(\"'' @ [92] @ js ''nPi '' @ [8776] @ js '' %.6f'' @ [92] @ js ''n\", math.Pi)'',
     [9] @ js ''fmt.Printf(\"sqrt(2) '' @ [8776] @ js '' %.6f'' @ [92] @ js ''n\", math.Sqrt(2))'',
     js ''}'',
     []]"

fun join_lines :: "jsstring list \<Rightarrow> jsstring" where
  "join_lines [] = []"
| "join_lines [l] = l"
| "join_lines (l # m # ls) = l @ 10 # join_lines (m # ls)"

definition STARTER :: jsstring where
  "STARTER = join_lines STARTER_LINES"

datatype sock_state = CONNECTING | OPEN | CLOSING | CLOSED

text \<open>What is sent over a socket.\<close>

datatype frame =
    StateFrame "byte list"
  | SyncSV (fr_data: jsstring) (fr_from: jsstring)
  | SyncUpdate (fr_data: jsstring) (fr_to: jsstring)
  | AwarenessFrame (fr_data: jsstring)
  | Json client_msg

text \<open>What arrives as text. The port of a redirect is a JSON value: a number, a string, or missing.\<close>

datatype port = PortNumber int | PortString jsstring | NoPort

datatype incoming =
    Redirect port
  | ToPage server_msg
  | AwarenessIn jsstring
  | SyncSVIn jsstring jsstring
  | SyncUpdateIn jsstring
  | OtherText

record 'd replica_ops =
  r_length :: "'d \<Rightarrow> nat"
  r_insert :: "nat \<Rightarrow> jsstring \<Rightarrow> 'd \<Rightarrow> 'd result"
  r_state :: "'d \<Rightarrow> byte list"
  r_sv :: "'d \<Rightarrow> byte list"
  r_diff :: "'d \<Rightarrow> byte list \<Rightarrow> byte list result"
  r_apply :: "byte list \<Rightarrow> 'd \<Rightarrow> 'd \<times> bool"
  r_awareness :: "byte list \<Rightarrow> 'd \<Rightarrow> 'd \<times> byte list option"
  r_setUser :: "'d \<Rightarrow> 'd \<times> byte list option"
  r_leave :: "'d \<Rightarrow> 'd \<times> byte list option"

record socket =
  sk_state :: sock_state
  sk_handlers :: bool
  sk_receivedDoc :: bool
  sk_timer :: bool
  sk_mounted :: bool
  sk_sent :: "frame list"

text \<open>The constants of the hook, and its state; \<open>ws_ready\<close> and \<open>ws_seeds\<close> count the calls of
  \<open>onDocReady\<close> and the insertions of the starter text, \<open>ws_inbox\<close> what the page's callbacks got.\<close>

record 'd env =
  env_userID :: jsstring
  env_port :: jsstring
  env_ops :: "'d replica_ops"

record 'd ws =
  ws_sockets :: "socket list"
  ws_ref :: "nat option"
  ws_role :: jsstring
  ws_doc :: 'd
  ws_ready :: nat
  ws_seeds :: nat
  ws_inbox :: "server_msg list"

definition sock :: "'d ws \<Rightarrow> nat \<Rightarrow> socket" where
  "sock s i = ws_sockets s ! i"

definition update_sock :: "nat \<Rightarrow> (socket \<Rightarrow> socket) \<Rightarrow> 'd ws \<Rightarrow> 'd ws" where
  "update_sock i f s = s\<lparr>ws_sockets := (ws_sockets s)[i := f (sock s i)]\<rparr>"

text \<open>\<open>ws.send\<close> on a socket that is past \<open>CONNECTING\<close>: it is discarded unless the socket is open.\<close>

definition push :: "frame \<Rightarrow> socket \<Rightarrow> socket" where
  "push f k = (if sk_state k = OPEN then k\<lparr>sk_sent := sk_sent k @ [f]\<rparr> else k)"

definition send_on :: "nat \<Rightarrow> frame \<Rightarrow> 'd ws \<Rightarrow> 'd ws" where
  "send_on i f = update_sock i (push f)"

definition new_socket :: "bool \<Rightarrow> socket" where
  "new_socket h = \<lparr>sk_state = CONNECTING, sk_handlers = h, sk_receivedDoc = False, sk_timer = False,
     sk_mounted = h, sk_sent = []\<rparr>"

definition close_sock :: "socket \<Rightarrow> socket" where
  "close_sock k = k\<lparr>sk_state := (if sk_state k = CLOSED then CLOSED else CLOSING)\<rparr>"

text \<open>\<open>send\<close>, through the reference.\<close>

definition send :: "frame \<Rightarrow> 'd ws \<Rightarrow> 'd ws" where
  "send f s = (case ws_ref s of
     None \<Rightarrow> s
   | Some i \<Rightarrow> if sk_state (sock s i) = OPEN then send_on i f s else s)"

definition doSyncHandshake :: "'d env \<Rightarrow> nat \<Rightarrow> 'd ws \<Rightarrow> 'd ws result" where
  "doSyncHandshake env i s = (case toBase64 (r_sv (env_ops env) (ws_doc s)) of
     Inl e \<Rightarrow> Inl e | Inr sv \<Rightarrow> Inr (send_on i (SyncSV sv (env_userID env)) s))"

text \<open>The listeners of every effect that is mounted: \<open>onUpdate\<close> for a change that is not remote, and
  \<open>onAwarenessChange\<close>.\<close>

definition onUpdate :: "'d env \<Rightarrow> 'd ws \<Rightarrow> 'd ws" where
  "onUpdate env s = (if ws_role s = js ''editor''
     then s\<lparr>ws_sockets := map (\<lambda>k. if sk_mounted k
              then push (StateFrame (r_state (env_ops env) (ws_doc s))) k else k) (ws_sockets s)\<rparr>
     else s)"

definition onAwarenessChange :: "byte list \<Rightarrow> 'd ws \<Rightarrow> 'd ws" where
  "onAwarenessChange upd s = (case toBase64 upd of
     Inl e \<Rightarrow> s
   | Inr b \<Rightarrow> s\<lparr>ws_sockets := map (\<lambda>k. if sk_mounted k then push (AwarenessFrame b) k else k) (ws_sockets s)\<rparr>)"

definition awareness_changed :: "'d \<times> byte list option \<Rightarrow> 'd ws \<Rightarrow> 'd ws" where
  "awareness_changed r s = (case r of
     (d, None) \<Rightarrow> s\<lparr>ws_doc := d\<rparr>
   | (d, Some change) \<Rightarrow> onAwarenessChange change (s\<lparr>ws_doc := d\<rparr>))"

definition onopen :: "'d env \<Rightarrow> nat \<Rightarrow> 'd ws \<Rightarrow> 'd ws" where
  "onopen env i s = update_sock i (\<lambda>k. k\<lparr>sk_timer := True\<rparr>)
     (awareness_changed (r_setUser (env_ops env) (ws_doc s)) s)"

text \<open>The function given to \<open>setTimeout\<close>; an exception leaves what was done before it.\<close>

definition starter_timeout :: "'d env \<Rightarrow> nat \<Rightarrow> 'd ws \<Rightarrow> 'd ws" where
  "starter_timeout env i s =
     (if \<not> sk_receivedDoc (sock s i) \<and> ws_role s = js ''editor'' \<and> r_length (env_ops env) (ws_doc s) = 0
      then (case r_insert (env_ops env) 0 STARTER (ws_doc s) of
          Inl e \<Rightarrow> s
        | Inr d \<Rightarrow>
            let s1 = onUpdate env (s\<lparr>ws_doc := d\<rparr>);
                s2 = s1\<lparr>ws_seeds := Suc (ws_seeds s1), ws_ready := Suc (ws_ready s1)\<rparr>
            in (case doSyncHandshake env i s2 of Inl e \<Rightarrow> s2 | Inr s3 \<Rightarrow> s3))
      else s)"

definition onbinary :: "'d env \<Rightarrow> nat \<Rightarrow> byte list \<Rightarrow> 'd ws \<Rightarrow> 'd ws" where
  "onbinary env i bs s =
     (let s1 = (if sk_receivedDoc (sock s i) then s
                else (update_sock i (\<lambda>k. k\<lparr>sk_receivedDoc := True\<rparr>) s)\<lparr>ws_ready := Suc (ws_ready s)\<rparr>)
      in case r_apply (env_ops env) bs (ws_doc s1) of
        (d, False) \<Rightarrow> s1\<lparr>ws_doc := d\<rparr>
      | (d, True) \<Rightarrow> (case doSyncHandshake env i (s1\<lparr>ws_doc := d\<rparr>) of Inl e \<Rightarrow> s1\<lparr>ws_doc := d\<rparr> | Inr s2 \<Rightarrow> s2))"

text \<open>\<open>leaderPort && leaderPort !== location.port\<close>; \<open>location.port\<close> is a string.\<close>

definition redirects :: "'d env \<Rightarrow> port \<Rightarrow> bool" where
  "redirects env p = (case p of
     PortNumber n \<Rightarrow> n \<noteq> 0 | PortString q \<Rightarrow> q \<noteq> [] \<and> q \<noteq> env_port env | NoPort \<Rightarrow> False)"

definition redirect :: "nat \<Rightarrow> 'd ws \<Rightarrow> 'd ws" where
  "redirect i s = (let s1 = update_sock i close_sock s
     in s1\<lparr>ws_sockets := ws_sockets s1 @ [new_socket False], ws_ref := Some (length (ws_sockets s1))\<rparr>)"

text \<open>The text branch of \<open>onmessage\<close>; its \<open>catch\<close> ignores what throws.\<close>

definition ontext :: "'d env \<Rightarrow> nat \<Rightarrow> incoming \<Rightarrow> 'd ws \<Rightarrow> 'd ws" where
  "ontext env i m s = (let ops = env_ops env in case m of
     Redirect p \<Rightarrow> if redirects env p then redirect i s else s
   | ToPage x \<Rightarrow> s\<lparr>ws_inbox := ws_inbox s @ [x]\<rparr>
   | AwarenessIn b \<Rightarrow> (case fromBase64 b of
       Inl e \<Rightarrow> s
     | Inr upd \<Rightarrow> awareness_changed (r_awareness ops upd (ws_doc s)) s)
   | SyncSVIn b from \<Rightarrow> (case fromBase64 b of
       Inl e \<Rightarrow> s
     | Inr sv \<Rightarrow> (case r_diff ops (ws_doc s) sv of
         Inl e \<Rightarrow> s
       | Inr diff \<Rightarrow> if 2 < length diff
           then (case toBase64 diff of Inl e \<Rightarrow> s | Inr b2 \<Rightarrow> send_on i (SyncUpdate b2 from) s) else s))
   | SyncUpdateIn b \<Rightarrow> (case fromBase64 b of
       Inl e \<Rightarrow> s
     | Inr upd \<Rightarrow> s\<lparr>ws_doc := fst (r_apply ops upd (ws_doc s))\<rparr>)
   | OtherText \<Rightarrow> s)"

datatype 'd event =
    Mount
  | Unmount nat
  | Opened nat
  | Timeout nat
  | Binary nat "byte list"
  | Text nat incoming
  | Closed nat
  | LocalEdit 'd
  | AwarenessChange "byte list"
  | SendJSON client_msg
  | SetRole jsstring

definition ready_socket :: "nat \<Rightarrow> sock_state \<Rightarrow> 'd ws \<Rightarrow> bool" where
  "ready_socket i st s = (i < length (ws_sockets s) \<and> sk_state (sock s i) = st)"

text \<open>One event. An event of a socket that is not in a state to have it is ignored.\<close>

fun ws_step :: "'d env \<Rightarrow> 'd event \<Rightarrow> 'd ws \<Rightarrow> 'd ws" where
  "ws_step env Mount s = s\<lparr>ws_sockets := ws_sockets s @ [new_socket True], ws_ref := Some (length (ws_sockets s))\<rparr>"
| "ws_step env (Unmount i) s =
     (if i < length (ws_sockets s) \<and> sk_mounted (sock s i)
      then update_sock i close_sock (awareness_changed (r_leave (env_ops env) (ws_doc s))
             (update_sock i (\<lambda>k. k\<lparr>sk_mounted := False\<rparr>) s))
      else s)"
| "ws_step env (Opened i) s =
     (if ready_socket i CONNECTING s
      then let s1 = update_sock i (\<lambda>k. k\<lparr>sk_state := OPEN\<rparr>) s
           in if sk_handlers (sock s i) then onopen env i s1 else s1
      else s)"
| "ws_step env (Timeout i) s =
     (if i < length (ws_sockets s) \<and> sk_timer (sock s i)
      then starter_timeout env i (update_sock i (\<lambda>k. k\<lparr>sk_timer := False\<rparr>) s) else s)"
| "ws_step env (Binary i bs) s =
     (if ready_socket i OPEN s \<and> sk_handlers (sock s i) then onbinary env i bs s else s)"
| "ws_step env (Text i m) s =
     (if ready_socket i OPEN s \<and> sk_handlers (sock s i) then ontext env i m s else s)"
| "ws_step env (Closed i) s =
     (if i < length (ws_sockets s)
      then let s1 = update_sock i (\<lambda>k. k\<lparr>sk_state := CLOSED\<rparr>) s
           in if sk_handlers (sock s i) then s1\<lparr>ws_ref := None\<rparr> else s1
      else s)"
| "ws_step env (LocalEdit d) s = onUpdate env (s\<lparr>ws_doc := d\<rparr>)"
| "ws_step env (AwarenessChange upd) s = onAwarenessChange upd s"
| "ws_step env (SendJSON m) s = send (Json m) s"
| "ws_step env (SetRole r) s = s\<lparr>ws_role := r\<rparr>"

definition ws_run :: "'d env \<Rightarrow> 'd event list \<Rightarrow> 'd ws \<Rightarrow> 'd ws" where
  "ws_run env es s = fold (ws_step env) es s"

definition initial_ws :: "jsstring \<Rightarrow> 'd \<Rightarrow> 'd ws" where
  "initial_ws role d = \<lparr>ws_sockets = [], ws_ref = None, ws_role = role, ws_doc = d, ws_ready = 0,
     ws_seeds = 0, ws_inbox = []\<rparr>"

text \<open>A replica that is a plain string, with nothing to merge.\<close>

definition plain_ops :: "jsstring replica_ops" where
  "plain_ops = \<lparr>r_length = length, r_insert = (\<lambda>i text d. Inr (take i d @ text @ drop i d)),
     r_state = (\<lambda>d. [0, 0]), r_sv = (\<lambda>d. [0]), r_diff = (\<lambda>d sv. Inr [0, 0]), r_apply = (\<lambda>upd d. (d, True)),
     r_awareness = (\<lambda>upd d. (d, None)), r_setUser = (\<lambda>d. (d, Some [0])), r_leave = (\<lambda>d. (d, None))\<rparr>"

definition plain_env :: "jsstring env" where
  "plain_env = \<lparr>env_userID = js ''alice'', env_port = js ''8080'', env_ops = plain_ops\<rparr>"

lemma base64_zero: "toBase64 [0] = Inr (js ''AA=='')"
  by code_simp

lemmas plain_simps = base64_zero plain_env_def plain_ops_def initial_ws_def new_socket_def sock_def update_sock_def push_def
  close_sock_def onopen_def awareness_changed_def onAwarenessChange_def ready_socket_def Let_def

section \<open>Sockets and frames\<close>

lemma ws_run_simps [simp]:
  "ws_run env [] s = s" "ws_run env (e # es) s = ws_run env es (ws_step env e s)"
  "ws_run env (es @ fs) s = ws_run env fs (ws_run env es s)"
  by (simp_all add: ws_run_def)

lemma update_sock_fields [simp]:
  "ws_sockets (update_sock i f s) = (ws_sockets s)[i := f (sock s i)]" "ws_ref (update_sock i f s) = ws_ref s"
  "ws_role (update_sock i f s) = ws_role s" "ws_doc (update_sock i f s) = ws_doc s"
  "ws_ready (update_sock i f s) = ws_ready s" "ws_seeds (update_sock i f s) = ws_seeds s"
  "ws_inbox (update_sock i f s) = ws_inbox s"
  by (simp_all add: update_sock_def)

lemma push_fields [simp]:
  "sk_state (push f k) = sk_state k" "sk_handlers (push f k) = sk_handlers k" "sk_timer (push f k) = sk_timer k"
  "sk_mounted (push f k) = sk_mounted k" "sk_receivedDoc (push f k) = sk_receivedDoc k"
  by (simp_all add: push_def)

lemma close_sock_fields [simp]:
  "sk_handlers (close_sock k) = sk_handlers k" "sk_timer (close_sock k) = sk_timer k"
  "sk_mounted (close_sock k) = sk_mounted k" "sk_receivedDoc (close_sock k) = sk_receivedDoc k"
  "sk_sent (close_sock k) = sk_sent k" "sk_state (close_sock k) \<noteq> OPEN" "sk_state (close_sock k) \<noteq> CONNECTING"
  by (simp_all add: close_sock_def)

fun is_state :: "frame \<Rightarrow> bool" where
  "is_state (StateFrame b) = True"
| "is_state f = False"

text \<open>The snapshots of the document sent so far, socket by socket.\<close>

definition state_frames :: "'d ws \<Rightarrow> frame list" where
  "state_frames s = concat (map (\<lambda>k. filter is_state (sk_sent k)) (ws_sockets s))"

lemma concat_map_update:
  "f y = f (xs ! i) \<Longrightarrow> concat (map f (xs[i := y])) = concat (map f xs)"
  by (metis list_update_beyond list_update_id map_update not_le)

lemma state_frames_update:
  "filter is_state (sk_sent (f (sock s i))) = filter is_state (sk_sent (sock s i)) \<Longrightarrow>
   state_frames (update_sock i f s) = state_frames s"
  unfolding state_frames_def update_sock_fields sock_def by (rule concat_map_update)

lemma state_frames_fields [simp]:
  "state_frames (s\<lparr>ws_doc := d\<rparr>) = state_frames s" "state_frames (s\<lparr>ws_ref := r\<rparr>) = state_frames s"
  "state_frames (s\<lparr>ws_ready := n\<rparr>) = state_frames s" "state_frames (s\<lparr>ws_seeds := n\<rparr>) = state_frames s"
  "state_frames (s\<lparr>ws_inbox := x\<rparr>) = state_frames s" "state_frames (s\<lparr>ws_role := q\<rparr>) = state_frames s"
  by (simp_all add: state_frames_def)

lemma push_other [simp]: "\<not> is_state f \<Longrightarrow> filter is_state (sk_sent (push f k)) = filter is_state (sk_sent k)"
  by (simp add: push_def)

lemma send_on_frames [simp]: "\<not> is_state f \<Longrightarrow> state_frames (send_on i f s) = state_frames s"
  unfolding send_on_def by (rule state_frames_update) simp

lemma handshake_frames: "doSyncHandshake env i s = Inr s1 \<Longrightarrow> state_frames s1 = state_frames s"
  by (auto simp: doSyncHandshake_def split: sum.splits)

lemma awareness_frames [simp]: "state_frames (onAwarenessChange upd s) = state_frames s"
  by (auto simp: onAwarenessChange_def state_frames_def comp_def intro!: arg_cong [where f = concat] split: sum.split)

lemma awareness_changed_frames [simp]: "state_frames (awareness_changed r s) = state_frames s"
  by (auto simp: awareness_changed_def split: prod.split option.split)

lemma onUpdate_frames: "ws_role s \<noteq> js ''editor'' \<Longrightarrow> state_frames (onUpdate env s) = state_frames s"
  by (simp add: onUpdate_def del: js_simps)

lemma sock_update_frames [simp]:
  "state_frames (update_sock i (\<lambda>k. k\<lparr>sk_timer := b\<rparr>) s) = state_frames s"
  "state_frames (update_sock i (\<lambda>k. k\<lparr>sk_receivedDoc := b\<rparr>) s) = state_frames s"
  "state_frames (update_sock i (\<lambda>k. k\<lparr>sk_state := x\<rparr>) s) = state_frames s"
  "state_frames (update_sock i (\<lambda>k. k\<lparr>sk_mounted := b\<rparr>) s) = state_frames s"
  "state_frames (update_sock i close_sock s) = state_frames s"
  by (rule state_frames_update, simp)+

lemma new_socket_frames [simp]:
  "state_frames (s\<lparr>ws_sockets := ws_sockets s @ [new_socket h]\<rparr>) = state_frames s"
  by (simp add: state_frames_def new_socket_def)

lemma onbinary_frames: "state_frames (onbinary env i bs s) = state_frames s"
  by (auto simp: onbinary_def Let_def dest!: handshake_frames split: sum.split prod.split bool.split)

lemma ontext_frames: "state_frames (ontext env i m s) = state_frames s"
proof (cases m)
  case (Redirect p)
  have "state_frames (redirect i s) = state_frames s"
    using new_socket_frames [of "update_sock i close_sock s" False]
    by (simp add: redirect_def Let_def)
  then show ?thesis by (simp add: ontext_def Redirect)
qed (auto simp: ontext_def Let_def split: sum.split option.split prod.split)

definition local_change :: "'d event \<Rightarrow> bool" where
  "local_change e = (case e of LocalEdit d \<Rightarrow> True | Timeout i \<Rightarrow> True | _ \<Rightarrow> False)"

text \<open>
  C24. a snapshot of the document is sent only by an editor, and only for a change of his own (an
  edit, or the starter text): no message that arrives, from the server or another client, makes
  the hook send the document, so updates do not echo.
\<close>

theorem snapshots_only_from_editors:
  assumes "state_frames (ws_step env e s) \<noteq> state_frames s"
  shows "ws_role s = js ''editor'' \<and> local_change e"
proof (rule ccontr)
  assume n: "\<not> (ws_role s = js ''editor'' \<and> local_change e)"
  have "state_frames (ws_step env e s) = state_frames s"
  proof (cases e)
    case (Timeout i)
    then have "ws_role s \<noteq> js ''editor''" using n by (simp add: local_change_def)
    then show ?thesis by (simp add: Timeout starter_timeout_def del: js_simps)
  next
    case (LocalEdit d)
    then have "ws_role s \<noteq> js ''editor''" using n by (simp add: local_change_def)
    then show ?thesis by (simp add: LocalEdit onUpdate_frames del: js_simps)
  next
    case (SendJSON m)
    then show ?thesis by (simp add: send_def split: option.split)
  next
    case (Opened i)
    then show ?thesis by (simp add: onopen_def Let_def split: prod.split)
  next
    case Mount
    then show ?thesis using new_socket_frames [of s True] by (simp add: state_frames_def)
  qed (simp_all add: onbinary_frames ontext_frames Let_def)
  with assms show False by simp
qed

lemma snapshots_only_from_editors_witness:
  "state_frames (ws_step plain_env (LocalEdit (js ''x''))
      (ws_run plain_env [Mount, Opened 0] (initial_ws (js ''editor'') (js ''hi'')))) = [StateFrame [0, 0]] \<and>
   ws_role (ws_run plain_env [Mount, Opened 0] (initial_ws (js ''editor'') (js ''hi''))) = js ''editor'' \<and>
   local_change (LocalEdit (js ''x''))"
  using snapshots_only_from_editors [of plain_env "LocalEdit (js ''x'')"
      "ws_run plain_env [Mount, Opened 0] (initial_ws (js ''editor'') (js ''hi''))"]
  by (simp add: plain_simps state_frames_def onUpdate_def)

end
