(* ===== verification/CollabSafety.thy ===== *)
theory CollabSafety
  imports CollabWS
begin

text \<open>
  What holds in every run of the WebSocket hook: the counting invariant of \<open>onDocReady\<close> and of the
  starter text, and what becomes of the page's messages once a socket has closed.
\<close>

section \<open>Sockets keep their handlers\<close>

text \<open>An operation that only sends over the sockets, or changes the document.\<close>

definition control :: "socket \<Rightarrow> socket" where
  "control k = k\<lparr>sk_sent := []\<rparr>"

definition same_sockets :: "'d ws \<Rightarrow> 'd ws \<Rightarrow> bool" where
  "same_sockets s s1 \<longleftrightarrow> map control (ws_sockets s1) = map control (ws_sockets s) \<and>
     ws_ref s1 = ws_ref s \<and> ws_role s1 = ws_role s \<and> ws_ready s1 = ws_ready s \<and> ws_seeds s1 = ws_seeds s"

lemma control_push [simp]: "control (push f k) = control k"
  by (simp add: control_def push_def)

lemma control_fields [simp]:
  "sk_state (control k) = sk_state k" "sk_handlers (control k) = sk_handlers k" "sk_timer (control k) = sk_timer k"
  "sk_mounted (control k) = sk_mounted k" "sk_receivedDoc (control k) = sk_receivedDoc k"
  by (simp_all add: control_def)

lemma same_sockets_refl [simp]: "same_sockets s s"
  by (simp add: same_sockets_def)

lemma same_sockets_trans: "same_sockets s s1 \<Longrightarrow> same_sockets s1 s2 \<Longrightarrow> same_sockets s s2"
  by (simp add: same_sockets_def)

lemma same_sockets_doc [simp]:
  "same_sockets s (s1\<lparr>ws_doc := d\<rparr>) = same_sockets s s1" "same_sockets s (s1\<lparr>ws_inbox := x\<rparr>) = same_sockets s s1"
  "same_sockets (s\<lparr>ws_doc := d\<rparr>) s1 = same_sockets s s1"
  by (simp_all add: same_sockets_def)

lemma map_list_update_same: "f y = f (xs ! i) \<Longrightarrow> map f (xs[i := y]) = map f xs"
  by (metis list_update_beyond list_update_id map_update not_le)

lemma same_sockets_send_on [simp]: "same_sockets s (send_on i f s)"
  by (simp add: same_sockets_def send_on_def map_list_update_same sock_def)

lemma same_sockets_send [simp]: "same_sockets s (send f s)"
  by (simp add: send_def split: option.split)

lemma same_sockets_awareness [simp]: "same_sockets s (onAwarenessChange upd s)"
  by (auto simp: onAwarenessChange_def same_sockets_def split: sum.split)

lemma same_sockets_changed [simp]: "same_sockets s (awareness_changed r s)"
  unfolding awareness_changed_def
  by (auto split: prod.split option.split intro: same_sockets_trans [OF _ same_sockets_awareness])

lemma same_sockets_onUpdate [simp]: "same_sockets s (onUpdate env s)"
  by (auto simp: onUpdate_def same_sockets_def)

lemma same_sockets_handshake: "doSyncHandshake env i s = Inr s1 \<Longrightarrow> same_sockets s s1"
  by (auto simp: doSyncHandshake_def split: sum.splits)

text \<open>A message other than a redirect leaves the sockets as they are.\<close>

definition reconnects :: "'d env \<Rightarrow> 'd event \<Rightarrow> bool" where
  "reconnects env e = (case e of
     Mount \<Rightarrow> True
   | Text i m \<Rightarrow> (case m of Redirect p \<Rightarrow> redirects env p | _ \<Rightarrow> False)
   | _ \<Rightarrow> False)"

lemma same_sockets_ontext: "\<not> reconnects env (Text i m) \<Longrightarrow> same_sockets s (ontext env i m s)"
  by (auto simp: reconnects_def ontext_def Let_def split: incoming.splits sum.split)

section \<open>A closed socket\<close>

lemma starter_cases:
  obtains "starter_timeout env i s = s"
  | "\<not> sk_receivedDoc (sock s i)" "r_length (env_ops env) (ws_doc s) = 0" "ws_role s = js ''editor''"
    "same_sockets (s\<lparr>ws_seeds := Suc (ws_seeds s), ws_ready := Suc (ws_ready s)\<rparr>) (starter_timeout env i s)"
proof (cases "\<not> sk_receivedDoc (sock s i) \<and> ws_role s = js ''editor'' \<and> r_length (env_ops env) (ws_doc s) = 0")
  case True
  show ?thesis
  proof (cases "r_insert (env_ops env) 0 STARTER (ws_doc s)")
    case (Inl e)
    then show ?thesis using that(1) by (simp add: starter_timeout_def)
  next
    case (Inr d)
    define s1 where "s1 = onUpdate env (s\<lparr>ws_doc := d\<rparr>)"
    define s2 where "s2 = s1\<lparr>ws_seeds := Suc (ws_seeds s1), ws_ready := Suc (ws_ready s1)\<rparr>"
    have e: "starter_timeout env i s = (case doSyncHandshake env i s2 of Inl e \<Rightarrow> s2 | Inr s3 \<Rightarrow> s3)"
      unfolding starter_timeout_def if_P [OF True] Inr sum.case Let_def s1_def s2_def ..
    have "same_sockets (s\<lparr>ws_doc := d\<rparr>) s1" unfolding s1_def by simp
    then have "same_sockets (s\<lparr>ws_seeds := Suc (ws_seeds s), ws_ready := Suc (ws_ready s)\<rparr>) s2"
      by (simp add: same_sockets_def s2_def)
    then have "same_sockets (s\<lparr>ws_seeds := Suc (ws_seeds s), ws_ready := Suc (ws_ready s)\<rparr>) (starter_timeout env i s)"
      unfolding e by (auto split: sum.split intro: same_sockets_trans same_sockets_handshake)
    with True show ?thesis using that(2) by blast
  qed
next
  case False
  then show ?thesis using that(1) by (auto simp: starter_timeout_def simp del: js_simps)
qed

text \<open>The first snapshot that arrives over a socket.\<close>

definition received :: "nat \<Rightarrow> 'd ws \<Rightarrow> 'd ws" where
  "received i s = (if sk_receivedDoc (sock s i) then s
     else (update_sock i (\<lambda>k. k\<lparr>sk_receivedDoc := True\<rparr>) s)\<lparr>ws_ready := Suc (ws_ready s)\<rparr>)"

lemma onbinary_sockets: "same_sockets (received i s) (onbinary env i bs s)"
proof -
  obtain d ok where a: "r_apply (env_ops env) bs (ws_doc (received i s)) = (d, ok)" by fastforce
  show ?thesis
  proof (cases ok)
    case True
    with a have "onbinary env i bs s = (case doSyncHandshake env i ((received i s)\<lparr>ws_doc := d\<rparr>) of
        Inl e \<Rightarrow> (received i s)\<lparr>ws_doc := d\<rparr> | Inr s2 \<Rightarrow> s2)"
      unfolding onbinary_def received_def Let_def by simp
    then show ?thesis by (auto split: sum.split dest: same_sockets_handshake)
  next
    case False
    with a have "onbinary env i bs s = (received i s)\<lparr>ws_doc := d\<rparr>"
      unfolding onbinary_def received_def Let_def by simp
    then show ?thesis by simp
  qed
qed

lemma ref_starter [simp]: "ws_ref (starter_timeout env i s) = ws_ref s"
  by (cases rule: starter_cases [of env i s]) (simp_all add: same_sockets_def)

lemma ref_onbinary [simp]: "ws_ref (onbinary env i bs s) = ws_ref s"
  using onbinary_sockets [of i s env bs] by (simp add: same_sockets_def received_def split: if_splits)

lemma same_ref: "same_sockets s s1 \<Longrightarrow> ws_ref s1 = ws_ref s"
  by (simp add: same_sockets_def)

lemma same_role: "same_sockets s s1 \<Longrightarrow> ws_role s1 = ws_role s \<and> ws_ready s1 = ws_ready s"
  by (simp add: same_sockets_def)

lemmas same_fields = same_role [OF same_sockets_awareness] same_role [OF same_sockets_changed]
  same_role [OF same_sockets_onUpdate] same_role [OF same_sockets_send]

lemmas ref_simps [simp] =
  same_ref [OF same_sockets_awareness] same_ref [OF same_sockets_changed] same_ref [OF same_sockets_onUpdate]
  same_ref [OF same_sockets_send] same_ref [OF same_sockets_send_on]

lemma ref_none_step:
  assumes "\<not> reconnects env e" "ws_ref s = None"
  shows "ws_ref (ws_step env e s) = None"
proof (cases e)
  case (Text i m)
  then show ?thesis using assms same_ref [OF same_sockets_ontext] by fastforce
qed (use assms in \<open>simp_all add: onopen_def Let_def reconnects_def\<close>)

lemma ref_none_run:
  "\<forall>e\<in>set es. \<not> reconnects env e \<Longrightarrow> ws_ref s = None \<Longrightarrow> ws_ref (ws_run env es s) = None"
  by (induction es arbitrary: s) (simp_all add: ref_none_step)

text \<open>
  When any of the sockets made by the effect reports that it is closed, the page can send
  nothing more, until the effect or a redirect makes another socket: \<open>onclose\<close> resets the shared
  reference without looking which socket it holds. The witness is a page in strict mode, whose
  first socket closes after the second mount: the second one is open, and unreachable.
\<close>

theorem closed_socket_silences:
  assumes "i < length (ws_sockets s)" "sk_handlers (sock s i)"
    and "\<forall>e\<in>set es. \<not> reconnects env e"
  shows "ws_step env (SendJSON m) (ws_run env es (ws_step env (Closed i) s)) =
    ws_run env es (ws_step env (Closed i) s)"
proof -
  have "ws_ref (ws_run env es (ws_step env (Closed i) s)) = None"
    using assms by (intro ref_none_run) (simp_all add: Let_def)
  then show ?thesis by (simp add: send_def)
qed

lemma closed_socket_silences_witness:
  "sk_state (sock (ws_step plain_env (Closed 0)
      (ws_run plain_env [Mount, Unmount 0, Mount, Opened 1] (initial_ws (js ''editor'') (js ''hi'')))) 1) = OPEN \<and>
   ws_step plain_env (SendJSON (SendReject (js ''p1''))) (ws_step plain_env (Closed 0)
      (ws_run plain_env [Mount, Unmount 0, Mount, Opened 1] (initial_ws (js ''editor'') (js ''hi'')))) =
   ws_step plain_env (Closed 0)
      (ws_run plain_env [Mount, Unmount 0, Mount, Opened 1] (initial_ws (js ''editor'') (js ''hi'')))"
  using closed_socket_silences [of 0 "ws_run plain_env [Mount, Unmount 0, Mount, Opened 1]
      (initial_ws (js ''editor'') (js ''hi''))" "[]" plain_env "SendReject (js ''p1'')"]
  by (simp add: plain_simps)

section \<open>Counting\<close>

definition count :: "(socket \<Rightarrow> bool) \<Rightarrow> 'd ws \<Rightarrow> nat" where
  "count P s = length (filter P (ws_sockets s))"

definition pending :: "socket \<Rightarrow> bool" where
  "pending k \<longleftrightarrow> sk_handlers k \<and> (sk_state k = CONNECTING \<or> sk_timer k)"

lemma count_filter_update:
  "i < length xs \<Longrightarrow>
   length (filter P (xs[i := y])) + of_bool (P (xs ! i)) = length (filter P xs) + of_bool (P y)"
proof (induction xs arbitrary: i)
  case (Cons x xs)
  then show ?case by (cases i) auto
qed simp

lemma count_same:
  assumes "same_sockets s s1" "\<And>k. P (control k) = P k"
  shows "count P s1 = count P s"
proof -
  have c: "count P t = length (filter P (map control (ws_sockets t)))" for t
    using assms(2) by (simp add: count_def filter_map comp_def)
  show ?thesis unfolding c using assms(1) by (simp add: same_sockets_def)
qed

lemma count_update:
  "i < length (ws_sockets s) \<Longrightarrow>
   count P (update_sock i f s) + of_bool (P (sock s i)) = count P s + of_bool (P (f (sock s i)))"
  using count_filter_update [of i "ws_sockets s" P "f (sock s i)"] by (simp add: count_def sock_def)

definition sock_ok :: "socket \<Rightarrow> bool" where
  "sock_ok k \<longleftrightarrow> (sk_mounted k \<longrightarrow> sk_handlers k) \<and>
     ((sk_handlers k \<and> sk_state k \<noteq> CONNECTING) \<or> (\<not> sk_timer k \<and> \<not> sk_receivedDoc k))"

definition ws_inv :: "'d ws \<Rightarrow> bool" where
  "ws_inv s \<longleftrightarrow> (\<forall>k\<in>set (ws_sockets s). sock_ok k) \<and>
     ws_ready s = ws_seeds s + count sk_receivedDoc s \<and>
     ws_seeds s + count pending s \<le> count sk_handlers s"

lemma sock_ok_control [simp]: "sock_ok (control k) = sock_ok k" "pending (control k) = pending k"
  by (simp_all add: sock_ok_def pending_def)

lemma sock_ok_same: "same_sockets s s1 \<Longrightarrow> (\<forall>k\<in>set (ws_sockets s1). sock_ok k) = (\<forall>k\<in>set (ws_sockets s). sock_ok k)"
proof -
  assume "same_sockets s s1"
  then have "control ` set (ws_sockets s1) = control ` set (ws_sockets s)"
    unfolding same_sockets_def by (metis set_map)
  then show ?thesis by (metis (no_types, lifting) image_iff sock_ok_control(1))
qed

lemma ws_inv_same: "same_sockets s s1 \<Longrightarrow> ws_inv s1 = ws_inv s"
  using count_same [of s s1 sk_receivedDoc] count_same [of s s1 pending] count_same [of s s1 sk_handlers]
    sock_ok_same [of s s1]
  by (simp add: ws_inv_def) (simp add: same_sockets_def)

lemma handlers_same: "same_sockets s s1 \<Longrightarrow> count sk_handlers s1 = count sk_handlers s"
  by (simp add: count_same)

lemma ws_inv_sock: "ws_inv s \<Longrightarrow> i < length (ws_sockets s) \<Longrightarrow> sock_ok (sock s i)"
  by (simp add: ws_inv_def sock_def)

lemma sock_ok_update:
  "\<forall>k\<in>set (ws_sockets s). sock_ok k \<Longrightarrow> sock_ok (f (sock s i)) \<Longrightarrow>
   \<forall>k\<in>set (ws_sockets (update_sock i f s)). sock_ok k"
  using set_update_subset_insert [of "ws_sockets s" i "f (sock s i)"] by auto

lemma ws_inv_update:
  assumes inv: "ws_inv s" and i: "i < length (ws_sockets s)" and ok: "sock_ok (f (sock s i))"
    and same: "sk_receivedDoc (f (sock s i)) = sk_receivedDoc (sock s i)"
      "sk_handlers (f (sock s i)) = sk_handlers (sock s i)"
    and less: "pending (f (sock s i)) \<Longrightarrow> pending (sock s i)"
  shows "ws_inv (update_sock i f s)"
proof -
  have "count pending (update_sock i f s) \<le> count pending s"
    using count_update [OF i, of pending f] less by (auto simp: of_bool_def split: if_splits)
  moreover have "count sk_receivedDoc (update_sock i f s) = count sk_receivedDoc s"
    "count sk_handlers (update_sock i f s) = count sk_handlers s"
    using count_update [OF i, of sk_receivedDoc f] count_update [OF i, of sk_handlers f] same by simp_all
  ultimately show ?thesis
    using inv sock_ok_update [of s f i] ok by (simp add: ws_inv_def del: update_sock_fields(1))
qed

lemma handlers_update:
  "sk_handlers (f (sock s i)) = sk_handlers (sock s i) \<Longrightarrow>
   count sk_handlers (update_sock i f s) = count sk_handlers s"
  using count_update [of i s sk_handlers f]
  by (cases "i < length (ws_sockets s)") (simp_all add: count_def list_update_beyond)

lemma ws_inv_append:
  "ws_inv s \<Longrightarrow> ws_inv (s\<lparr>ws_sockets := ws_sockets s @ [new_socket h], ws_ref := r\<rparr>)"
  by (auto simp: ws_inv_def count_def new_socket_def sock_ok_def pending_def)

lemma ws_inv_received:
  assumes inv: "ws_inv s" and i: "i < length (ws_sockets s)"
    and k: "sk_handlers (sock s i)" "sk_state (sock s i) = OPEN"
  shows "ws_inv (received i s)"
proof (cases "sk_receivedDoc (sock s i)")
  case False
  let ?f = "\<lambda>k. k\<lparr>sk_receivedDoc := True\<rparr>"
  have ok: "sock_ok (?f (sock s i))" using k by (simp add: sock_ok_def)
  have "count sk_receivedDoc (update_sock i ?f s) = Suc (count sk_receivedDoc s)"
    "count pending (update_sock i ?f s) = count pending s"
    "count sk_handlers (update_sock i ?f s) = count sk_handlers s"
    using count_update [OF i, of sk_receivedDoc ?f] count_update [OF i, of pending ?f]
      count_update [OF i, of sk_handlers ?f] False by (simp_all add: pending_def)
  then show ?thesis
    using inv sock_ok_update [of s ?f i] ok False by (simp add: received_def ws_inv_def count_def)
qed (simp add: received_def inv)

lemma ws_inv_timeout:
  assumes inv: "ws_inv s" and i: "i < length (ws_sockets s)" and t: "sk_timer (sock s i)"
  shows "ws_inv (starter_timeout env i (update_sock i (\<lambda>k. k\<lparr>sk_timer := False\<rparr>) s))"
proof -
  let ?f = "\<lambda>k. k\<lparr>sk_timer := False\<rparr>"
  let ?s = "update_sock i ?f s"
  have k: "sk_handlers (sock s i)" "sk_state (sock s i) \<noteq> CONNECTING"
    using ws_inv_sock [OF inv i] t by (auto simp: sock_ok_def)
  have ok: "sock_ok (?f (sock s i))" using k by (simp add: sock_ok_def)
  have inv1: "ws_inv ?s" using inv i ok k by (intro ws_inv_update) (auto simp: pending_def)
  have c: "count pending s = Suc (count pending ?s)" "count sk_handlers ?s = count sk_handlers s"
    using count_update [OF i, of pending ?f] count_update [OF i, of sk_handlers ?f] t k
    by (simp_all add: pending_def)
  show ?thesis
  proof (cases rule: starter_cases [of env i ?s])
    case 1
    then show ?thesis using inv1 by simp
  next
    case 2
    have "ws_inv (?s\<lparr>ws_seeds := Suc (ws_seeds ?s), ws_ready := Suc (ws_ready ?s)\<rparr>)"
      using inv inv1 c by (simp add: ws_inv_def count_def)
    then show ?thesis using 2(4) ws_inv_same by blast
  qed
qed

lemma ws_inv_redirect:
  assumes "ws_inv s" "i < length (ws_sockets s)" "sk_handlers (sock s i)" "sk_state (sock s i) = OPEN"
  shows "ws_inv (redirect i s)"
proof -
  have "ws_inv (update_sock i close_sock s)"
    using assms by (intro ws_inv_update) (auto simp: pending_def sock_ok_def close_sock_def)
  from ws_inv_append [OF this] show ?thesis by (simp add: redirect_def Let_def)
qed

lemma ontext_cases:
  obtains "same_sockets s (ontext env i m s)" | "ontext env i m s = redirect i s"
proof (cases "reconnects env (Text i m)")
  case True
  then obtain p where "m = Redirect p" "redirects env p"
    by (auto simp: reconnects_def split: incoming.splits)
  then show ?thesis using that(2) by (simp add: ontext_def)
next
  case False
  then show ?thesis using that(1) same_sockets_ontext by blast
qed

lemma same_sockets_update:
  assumes s: "same_sockets s s1" and f: "\<And>k. control (f k) = control (f (control k))"
  shows "same_sockets (update_sock i f s) (update_sock i f s1)"
proof -
  have m: "map control (ws_sockets s1) = map control (ws_sockets s)"
    using s by (simp add: same_sockets_def)
  have l: "length (ws_sockets s1) = length (ws_sockets s)" using m by (metis length_map)
  have "control (f (sock s1 i)) = control (f (sock s i))" if i: "i < length (ws_sockets s)"
  proof -
    have "control (sock s1 i) = control (sock s i)" using m i l by (metis nth_map sock_def)
    then show ?thesis using f by metis
  qed
  then have "map control (ws_sockets (update_sock i f s1)) = map control (ws_sockets (update_sock i f s))"
    using m l by (cases "i < length (ws_sockets s)") (simp_all add: map_update list_update_beyond)
  then show ?thesis using s by (simp add: same_sockets_def)
qed

lemma update_sock_twice:
  "i < length (ws_sockets s) \<Longrightarrow> update_sock i g (update_sock i f s) = update_sock i (\<lambda>k. g (f k)) s"
  by (simp add: update_sock_def sock_def)

lemma ws_inv_opened:
  assumes inv: "ws_inv s" and i: "i < length (ws_sockets s)" and st: "sk_state (sock s i) = CONNECTING"
    and h: "sk_handlers (sock s i)"
  shows "ws_inv (onopen env i (update_sock i (\<lambda>k. k\<lparr>sk_state := OPEN\<rparr>) s))"
proof -
  let ?s1 = "update_sock i (\<lambda>k. k\<lparr>sk_state := OPEN\<rparr>) s"
  have "ws_inv (update_sock i (\<lambda>k. (k\<lparr>sk_state := OPEN\<rparr>)\<lparr>sk_timer := True\<rparr>) s)"
    using inv i st h by (intro ws_inv_update) (auto simp: sock_ok_def pending_def)
  then have "ws_inv (update_sock i (\<lambda>k. k\<lparr>sk_timer := True\<rparr>) ?s1)"
    using update_sock_twice [OF i] by simp
  moreover have "same_sockets (update_sock i (\<lambda>k. k\<lparr>sk_timer := True\<rparr>) ?s1) (onopen env i ?s1)"
    unfolding onopen_def by (rule same_sockets_update) (simp_all add: control_def)
  ultimately show ?thesis using ws_inv_same by blast
qed

lemma ws_inv_step:
  assumes inv: "ws_inv s"
  shows "ws_inv (ws_step env e s)"
proof (cases e)
  case Mount
  then show ?thesis using ws_inv_append [OF inv] by simp
next
  case (Unmount i)
  show ?thesis
  proof (cases "i < length (ws_sockets s) \<and> sk_mounted (sock s i)")
    case True
    let ?s1 = "update_sock i (\<lambda>k. k\<lparr>sk_mounted := False\<rparr>) s"
    let ?s2 = "awareness_changed (r_leave (env_ops env) (ws_doc s)) ?s1"
    have i: "i < length (ws_sockets s)" using True ..
    have "ws_inv ?s1"
      using inv i ws_inv_sock [OF inv i] by (intro ws_inv_update) (auto simp: sock_ok_def pending_def)
    then have inv2: "ws_inv ?s2" using ws_inv_same [OF same_sockets_changed] by blast
    have i2: "i < length (ws_sockets ?s2)"
      using i same_sockets_changed [of ?s1] unfolding same_sockets_def by (metis length_list_update length_map update_sock_fields(1))
    have "ws_inv (update_sock i close_sock ?s2)"
      using inv2 i2 ws_inv_sock [OF inv2 i2]
      by (intro ws_inv_update) (auto simp: sock_ok_def pending_def close_sock_def split: if_splits)
    then show ?thesis using True by (simp add: Unmount)
  next
    case False
    then show ?thesis using inv by (simp only: Unmount ws_step.simps if_False)
  qed
next
  case (Opened i)
  show ?thesis
  proof (cases "ready_socket i CONNECTING s")
    case True
    then have i: "i < length (ws_sockets s)" and st: "sk_state (sock s i) = CONNECTING"
      by (auto simp: ready_socket_def)
    show ?thesis
    proof (cases "sk_handlers (sock s i)")
      case True
      then show ?thesis using ws_inv_opened [OF inv i st] i st by (simp add: Opened ready_socket_def Let_def)
    next
      case False
      then have "ws_inv (update_sock i (\<lambda>k. k\<lparr>sk_state := OPEN\<rparr>) s)"
        using inv i ws_inv_sock [OF inv i] by (intro ws_inv_update) (auto simp: sock_ok_def pending_def)
      then show ?thesis using False i st by (simp add: Opened ready_socket_def Let_def)
    qed
  qed (simp add: Opened inv)
next
  case (Timeout i)
  then show ?thesis using inv ws_inv_timeout [OF inv, of i env] by auto
next
  case (Binary i bs)
  then show ?thesis
    using inv ws_inv_same [OF onbinary_sockets] ws_inv_received [OF inv, of i] by (auto simp: ready_socket_def)
next
  case (Text i m)
  then show ?thesis
    using inv ws_inv_redirect ws_inv_same
    by (cases rule: ontext_cases [of s env i m]) (auto simp: ready_socket_def)
next
  case (Closed i)
  show ?thesis
  proof (cases "i < length (ws_sockets s)")
    case True
    then have "ws_inv (update_sock i (\<lambda>k. k\<lparr>sk_state := CLOSED\<rparr>) s)"
      using inv ws_inv_sock [OF inv True] by (intro ws_inv_update) (auto simp: sock_ok_def pending_def)
    then show ?thesis using True by (simp add: Closed Let_def ws_inv_def count_def)
  qed (simp add: Closed inv)
next
  case (LocalEdit d)
  have "same_sockets s (onUpdate env (s\<lparr>ws_doc := d\<rparr>))"
    by (rule same_sockets_trans [OF _ same_sockets_onUpdate]) simp
  from ws_inv_same [OF this] show ?thesis using inv by (simp add: LocalEdit)
next
  case (AwarenessChange upd)
  then show ?thesis using inv ws_inv_same [of s "onAwarenessChange upd s"] by simp
next
  case (SendJSON m)
  then show ?thesis using inv ws_inv_same [of s "send (Json m) s"] by simp
next
  case (SetRole r)
  then show ?thesis using inv by (simp add: ws_inv_def count_def)
qed

lemma ws_inv_run: "ws_inv s \<Longrightarrow> ws_inv (ws_run env es s)"
  by (induction es arbitrary: s) (simp_all add: ws_inv_step)

lemma ws_inv_initial: "ws_inv (initial_ws role d)"
  by (simp add: initial_ws_def ws_inv_def count_def)

text \<open>Only an effect makes a socket with handlers.\<close>

fun is_mount :: "'d event \<Rightarrow> bool" where
  "is_mount Mount = True"
| "is_mount e = False"

lemma handlers_fields [simp]:
  "count sk_handlers (s\<lparr>ws_ref := r\<rparr>) = count sk_handlers s" "count sk_handlers (s\<lparr>ws_doc := d\<rparr>) = count sk_handlers s"
  "count sk_handlers (s\<lparr>ws_ready := n\<rparr>) = count sk_handlers s" "count sk_handlers (s\<lparr>ws_seeds := n\<rparr>) = count sk_handlers s"
  "count sk_handlers (s\<lparr>ws_role := q\<rparr>) = count sk_handlers s"
  by (simp_all add: count_def)

lemma handlers_append [simp]:
  "count sk_handlers (s\<lparr>ws_sockets := ws_sockets s @ [new_socket h], ws_ref := r\<rparr>) = count sk_handlers s + of_bool h"
  by (simp add: count_def new_socket_def)

lemmas handlers_simps [simp] =
  handlers_same [OF same_sockets_awareness] handlers_same [OF same_sockets_changed]
  handlers_same [OF same_sockets_onUpdate] handlers_same [OF same_sockets_send]

lemma handlers_step: "count sk_handlers (ws_step env e s) = count sk_handlers s + of_bool (is_mount e)"
proof (cases e)
  case (Timeout i)
  have "count sk_handlers (starter_timeout env i t) = count sk_handlers t" for t :: "'a ws"
    by (cases rule: starter_cases [of env i t]) (simp_all add: handlers_same)
  then show ?thesis by (simp add: Timeout handlers_update)
next
  case (Binary i bs)
  then show ?thesis
    by (simp add: handlers_same [OF onbinary_sockets] received_def handlers_update)
next
  case (Text i m)
  have "count sk_handlers (update_sock i close_sock s) = count sk_handlers s" by (rule handlers_update) simp
  then have "count sk_handlers (redirect i s) = count sk_handlers s"
    by (simp add: redirect_def Let_def count_def new_socket_def)
  then show ?thesis
    by (cases rule: ontext_cases [of s env i m]) (simp_all add: Text handlers_same)
next
  case Mount
  then show ?thesis by (simp add: count_def new_socket_def)
qed (simp_all add: handlers_update onopen_def Let_def)

lemma handlers_run:
  "count sk_handlers (ws_run env es s) = count sk_handlers s + length (filter is_mount es)"
  by (induction es arbitrary: s) (simp_all add: handlers_step)

text \<open>
  C23. in every run of the hook, \<open>onDocReady\<close> has been called once for each socket that has received
  a snapshot and once for each insertion of the starter text; and the starter text has been
  inserted at most once for each time the effect was mounted, those still waiting for their
  socket to open or for their timer included.
\<close>

theorem starter_once:
  "ws_ready (ws_run env es (initial_ws role d)) =
     ws_seeds (ws_run env es (initial_ws role d)) + count sk_receivedDoc (ws_run env es (initial_ws role d)) \<and>
   ws_seeds (ws_run env es (initial_ws role d)) + count pending (ws_run env es (initial_ws role d))
     \<le> length (filter is_mount es)"
  using ws_inv_run [OF ws_inv_initial, of env es role d] handlers_run [of env es "initial_ws role d"]
  by (simp add: ws_inv_def initial_ws_def count_def)

section \<open>The page becomes ready\<close>

lemma received_ready:
  assumes "ws_inv s" "i < length (ws_sockets s)" "sk_receivedDoc (sock s i)"
  shows "0 < ws_ready s"
proof -
  have "filter sk_receivedDoc (ws_sockets s) \<noteq> []"
    using assms(2,3) by (auto simp: filter_empty_conv sock_def)
  then show ?thesis using assms(1) by (simp add: ws_inv_def count_def)
qed

text \<open>
  An editor's page becomes ready at the latest when the timer of its socket fires: a snapshot
  has come by then, or the document is empty and the starter text goes into it. (The document can
  only be not empty without a snapshot when the changes of another client came first.)
\<close>

theorem editor_becomes_ready:
  assumes s: "s = ws_run env es (initial_ws role d)"
    and i: "i < length (ws_sockets s)" "sk_timer (sock s i)" and r: "ws_role s = js ''editor''"
    and doc: "sk_receivedDoc (sock s i) \<or> r_length (env_ops env) (ws_doc s) = 0"
    and ins: "\<And>x. r_length (env_ops env) x = 0 \<Longrightarrow> \<exists>y. r_insert (env_ops env) 0 STARTER x = Inr y"
  shows "0 < ws_ready (ws_step env (Timeout i) s)"
proof (cases "sk_receivedDoc (sock s i)")
  case True
  let ?s1 = "ws_step env (Timeout i) s"
  have inv: "ws_inv s" unfolding s by (rule ws_inv_run [OF ws_inv_initial])
  have "ws_ready ?s1 = ws_ready s" using True i by (simp add: starter_timeout_def sock_def)
  then show ?thesis using received_ready [OF inv i(1) True] by simp
next
  case False
  let ?s1 = "update_sock i (\<lambda>k. k\<lparr>sk_timer := False\<rparr>) s"
  have empty: "r_length (env_ops env) (ws_doc ?s1) = 0" using doc False by simp
  then obtain y where y: "r_insert (env_ops env) 0 STARTER (ws_doc ?s1) = Inr y" using ins by blast
  have c: "\<not> sk_receivedDoc (sock ?s1 i) \<and> ws_role ?s1 = js ''editor'' \<and> r_length (env_ops env) (ws_doc ?s1) = 0"
    using False r empty i by (simp add: sock_def)
  have h: "ws_ready s3 = ws_ready s2" if "doSyncHandshake env i s2 = Inr s3" for s2 s3
    using same_sockets_handshake [OF that] by (simp add: same_sockets_def)
  have "0 < ws_ready (starter_timeout env i ?s1)"
    unfolding starter_timeout_def if_P [OF c] y sum.case Let_def by (auto split: sum.split dest: h)
  then show ?thesis using i by simp
qed

lemma editor_becomes_ready_witness:
  "0 < ws_ready (ws_step plain_env (Timeout 0) (ws_run plain_env [Mount, Opened 0] (initial_ws (js ''editor'') [])))"
  using editor_becomes_ready [of "ws_run plain_env [Mount, Opened 0] (initial_ws (js ''editor'') [])"
      plain_env "[Mount, Opened 0]" "js ''editor''" "[]" 0]
  by (simp add: plain_simps)

lemma viewer_step:
  assumes "ws_role s \<noteq> js ''editor''" "\<forall>i bs. e \<noteq> Binary i bs" "e \<noteq> SetRole (js ''editor'')"
  shows "ws_ready (ws_step env e s) = ws_ready s \<and> ws_role (ws_step env e s) \<noteq> js ''editor''"
proof (cases e)
  case (Timeout i)
  have "ws_role (starter_timeout env i t) = ws_role t \<and> (ws_role t \<noteq> js ''editor'' \<longrightarrow>
      ws_ready (starter_timeout env i t) = ws_ready t)" for t :: "'a ws"
    by (cases rule: starter_cases [of env i t]) (auto simp: same_sockets_def simp del: js_simps)
  then show ?thesis using assms by (simp add: Timeout del: js_simps)
next
  case (Text i m)
  then show ?thesis using assms
    by (cases rule: ontext_cases [of s env i m]) (simp_all add: same_sockets_def redirect_def Let_def del: js_simps)
qed (use assms in \<open>simp_all add: onopen_def Let_def same_fields del: js_simps\<close>)

lemma viewer_run:
  "ws_role s \<noteq> js ''editor'' \<Longrightarrow> \<forall>e\<in>set es. (\<forall>i bs. e \<noteq> Binary i bs) \<and> e \<noteq> SetRole (js ''editor'') \<Longrightarrow>
   ws_ready (ws_run env es s) = ws_ready s"
  by (induction es arbitrary: s) (simp_all add: viewer_step del: js_simps)

text \<open>
  A viewer's page becomes ready by a snapshot only. In a session without a document (none of the
  clients has written anything yet) the server has none to send, so a viewer who joins it waits
  until an editor's first edit is broadcast.
\<close>

lemma viewer_waits_for_snapshot:
  assumes "role \<noteq> js ''editor''" "0 < ws_ready (ws_run env es (initial_ws role d))"
  shows "\<exists>e\<in>set es. (\<exists>i bs. e = Binary i bs) \<or> e = SetRole (js ''editor'')"
proof (rule ccontr)
  assume "\<not> ?thesis"
  then have "ws_ready (ws_run env es (initial_ws role d)) = ws_ready (initial_ws role d)"
    using assms(1) by (intro viewer_run) (auto simp: initial_ws_def simp del: js_simps)
  with assms(2) show False by (simp add: initial_ws_def)
qed

lemma viewer_waits_for_snapshot_witness:
  "\<exists>e\<in>set [Mount, Opened 0, Binary 0 [0, 0 :: byte]]. (\<exists>i bs. e = Binary i bs) \<or> e = SetRole (js ''editor'')"
  using viewer_waits_for_snapshot [of "js ''viewer''" plain_env "[Mount, Opened 0, Binary 0 [0, 0]]" "[]"]
  by (simp add: plain_simps onbinary_def doSyncHandshake_def base64_zero)


section \<open>A redirect\<close>

text \<open>No socket of the effect can send.\<close>

definition mute :: "'d ws \<Rightarrow> bool" where
  "mute s \<longleftrightarrow> (\<forall>k\<in>set (ws_sockets s). sk_handlers k \<longrightarrow> sk_state k \<in> {CLOSING, CLOSED}) \<and>
     (\<forall>k\<in>set (ws_sockets s). \<not> sk_handlers k \<longrightarrow> \<not> sk_timer k \<and> \<not> sk_mounted k)"

lemma mute_sends:
  assumes "mute s"
  shows "sk_mounted k \<Longrightarrow> k \<in> set (ws_sockets s) \<Longrightarrow> push f k = k"
  using assms by (auto simp: mute_def push_def)

lemma mute_send_on:
  assumes "mute s" "i < length (ws_sockets s)" "sk_handlers (sock s i)"
  shows "send_on i f s = s"
proof -
  have "push f (sock s i) = sock s i" using assms by (auto simp: mute_def push_def sock_def)
  then show ?thesis by (simp add: send_on_def update_sock_def sock_def)
qed

lemma mute_map:
  assumes "mute s"
  shows "map (\<lambda>k. if sk_mounted k then push f k else k) (ws_sockets s) = ws_sockets s"
  using mute_sends [OF assms] by (intro map_idI) auto

lemma mute_onUpdate: "mute s \<Longrightarrow> onUpdate env s = s"
  by (simp add: onUpdate_def mute_map del: js_simps)

lemma mute_awareness: "mute s \<Longrightarrow> onAwarenessChange upd s = s"
  by (simp add: onAwarenessChange_def mute_map split: sum.split)

lemma mute_fields [simp]:
  "mute (s\<lparr>ws_doc := d\<rparr>) = mute s" "mute (s\<lparr>ws_ref := r\<rparr>) = mute s" "mute (s\<lparr>ws_ready := n\<rparr>) = mute s"
  "mute (s\<lparr>ws_seeds := n\<rparr>) = mute s" "mute (s\<lparr>ws_role := q\<rparr>) = mute s"
  by (simp_all add: mute_def)

lemma mute_changed: "mute s \<Longrightarrow> \<exists>d. awareness_changed r s = s\<lparr>ws_doc := d\<rparr>"
  by (cases r) (auto simp: awareness_changed_def mute_awareness split: option.split)

text \<open>What an event leaves alone once the sockets of the effect are closed.\<close>

definition quiet :: "'d ws \<Rightarrow> 'd ws \<Rightarrow> bool" where
  "quiet s s1 \<longleftrightarrow> mute s1 \<and> ws_inbox s1 = ws_inbox s \<and>
     (ws_ref s = None \<longrightarrow> ws_ref s1 = None \<and> map sk_sent (ws_sockets s1) = map sk_sent (ws_sockets s))"

lemma mute_update:
  assumes "mute s" "i < length (ws_sockets s)"
    and "sk_handlers (f (sock s i)) = sk_handlers (sock s i)"
    and "sk_handlers (sock s i) \<Longrightarrow> sk_state (f (sock s i)) \<in> {CLOSING, CLOSED}"
    and "\<not> sk_handlers (sock s i) \<Longrightarrow> \<not> sk_timer (f (sock s i)) \<and> \<not> sk_mounted (f (sock s i))"
  shows "mute (update_sock i f s)"
  using assms set_update_subset_insert [of "ws_sockets s" i "f (sock s i)"] by (auto simp: mute_def)

lemma quiet_update:
  assumes "mute (update_sock i f s)" "sk_sent (f (sock s i)) = sk_sent (sock s i)"
  shows "quiet s (update_sock i f s)"
  using assms by (simp add: quiet_def map_list_update_same sock_def)

lemma mute_sock:
  "mute s \<Longrightarrow> i < length (ws_sockets s) \<Longrightarrow> sk_handlers (sock s i) \<Longrightarrow> sk_state (sock s i) \<in> {CLOSING, CLOSED}"
  "mute s \<Longrightarrow> i < length (ws_sockets s) \<Longrightarrow> \<not> sk_handlers (sock s i) \<Longrightarrow>
     \<not> sk_timer (sock s i) \<and> \<not> sk_mounted (sock s i)"
  by (auto simp: mute_def sock_def)

lemma mute_timeout:
  assumes m: "mute s" and i: "i < length (ws_sockets s)" "sk_handlers (sock s i)"
  shows "\<exists>d a b. starter_timeout env i s = s\<lparr>ws_doc := d, ws_seeds := a, ws_ready := b\<rparr>"
proof (cases "\<not> sk_receivedDoc (sock s i) \<and> ws_role s = js ''editor'' \<and> r_length (env_ops env) (ws_doc s) = 0")
  case True
  show ?thesis
  proof (cases "r_insert (env_ops env) 0 STARTER (ws_doc s)")
    case (Inl e)
    then have "starter_timeout env i s = s" by (simp add: starter_timeout_def)
    then show ?thesis
      by (intro exI [of _ "ws_doc s"] exI [of _ "ws_seeds s"] exI [of _ "ws_ready s"]) simp
  next
    case (Inr d)
    have u: "onUpdate env (s\<lparr>ws_doc := d\<rparr>) = s\<lparr>ws_doc := d\<rparr>" using m by (simp add: mute_onUpdate)
    let ?s2 = "(s\<lparr>ws_doc := d\<rparr>)\<lparr>ws_seeds := Suc (ws_seeds s), ws_ready := Suc (ws_ready s)\<rparr>"
    have "starter_timeout env i s = (case doSyncHandshake env i ?s2 of Inl e \<Rightarrow> ?s2 | Inr s3 \<Rightarrow> s3)"
      unfolding starter_timeout_def if_P [OF True] Inr sum.case Let_def u by (simp cong: sum.case_cong)
    moreover have "send_on i f ?s2 = ?s2" for f
      using m i by (intro mute_send_on) (simp_all add: sock_def)
    ultimately have "starter_timeout env i s = ?s2" by (simp add: doSyncHandshake_def split: sum.split)
    then show ?thesis by blast
  qed
next
  case False
  then have "starter_timeout env i s = s" unfolding starter_timeout_def by (simp only: if_False)
  then show ?thesis
    by (intro exI [of _ "ws_doc s"] exI [of _ "ws_seeds s"] exI [of _ "ws_ready s"]) simp
qed

lemma quiet_refl: "mute s \<Longrightarrow> quiet s s"
  by (simp add: quiet_def)

lemma quiet_trans: "quiet s s1 \<Longrightarrow> quiet s1 s2 \<Longrightarrow> quiet s s2"
  by (simp add: quiet_def)

lemma quiet_fields [simp]:
  "quiet s (s1\<lparr>ws_doc := d\<rparr>) = quiet s s1" "quiet s (s1\<lparr>ws_ready := n\<rparr>) = quiet s s1"
  "quiet s (s1\<lparr>ws_seeds := n\<rparr>) = quiet s s1" "quiet s (s1\<lparr>ws_role := q\<rparr>) = quiet s s1"
  by (simp_all add: quiet_def)

lemma quiet_step:
  assumes m: "mute s" and e: "\<not> is_mount e"
  shows "quiet s (ws_step env e s)"
proof (cases e)
  case Mount
  then show ?thesis using e by simp
next
  case (Unmount i)
  show ?thesis
  proof (cases "i < length (ws_sockets s) \<and> sk_mounted (sock s i)")
    case True
    let ?f = "\<lambda>k. k\<lparr>sk_mounted := False\<rparr>"
    have i: "i < length (ws_sockets s)" and h: "sk_handlers (sock s i)" using True mute_sock(2) [OF m] by blast+
    have m1: "mute (update_sock i ?f s)" using m i mute_sock [OF m i] by (intro mute_update) auto
    then obtain d where d: "awareness_changed (r_leave (env_ops env) (ws_doc s)) (update_sock i ?f s) =
        (update_sock i ?f s)\<lparr>ws_doc := d\<rparr>" using mute_changed by blast
    let ?s2 = "(update_sock i ?f s)\<lparr>ws_doc := d\<rparr>"
    have q1: "quiet s ?s2" using quiet_update [OF m1] by simp
    have k: "sock ?s2 i = ?f (sock s i)" using i by (simp add: sock_def)
    have "mute (update_sock i close_sock ?s2)"
      using m1 i mute_sock [OF m i] h by (intro mute_update) (auto simp: k close_sock_def)
    then have "quiet ?s2 (update_sock i close_sock ?s2)" by (rule quiet_update) simp
    with q1 have "quiet s (update_sock i close_sock ?s2)" by (rule quiet_trans)
    then show ?thesis using True by (simp add: Unmount d)
  qed (use m in \<open>auto simp: Unmount quiet_refl\<close>)
next
  case (Opened i)
  show ?thesis
  proof (cases "ready_socket i CONNECTING s")
    case True
    then have i: "i < length (ws_sockets s)" and h: "\<not> sk_handlers (sock s i)"
      using mute_sock(1) [OF m, of i] by (auto simp: ready_socket_def)
    have "mute (update_sock i (\<lambda>k. k\<lparr>sk_state := OPEN\<rparr>) s)"
      using m i h mute_sock(2) [OF m i] by (intro mute_update) auto
    then have "quiet s (update_sock i (\<lambda>k. k\<lparr>sk_state := OPEN\<rparr>) s)" by (rule quiet_update) simp
    then show ?thesis using True h by (simp add: Opened Let_def)
  qed (simp add: Opened quiet_refl m)
next
  case (Timeout i)
  show ?thesis
  proof (cases "i < length (ws_sockets s) \<and> sk_timer (sock s i)")
    case True
    let ?s1 = "update_sock i (\<lambda>k. k\<lparr>sk_timer := False\<rparr>) s"
    have i: "i < length (ws_sockets s)" and h: "sk_handlers (sock s i)" using True mute_sock(2) [OF m] by blast+
    have m1: "mute ?s1" using m i h mute_sock [OF m i] by (intro mute_update) auto
    obtain d a b where "starter_timeout env i ?s1 = ?s1\<lparr>ws_doc := d, ws_seeds := a, ws_ready := b\<rparr>"
      using mute_timeout [OF m1, of i env] i h by (auto simp: sock_def)
    then show ?thesis using True quiet_update [OF m1] by (simp add: Timeout)
  qed (auto simp: Timeout quiet_refl m)
next
  case (Binary i bs)
  then show ?thesis using mute_sock(1) [OF m, of i] m by (auto simp: ready_socket_def quiet_refl)
next
  case (Text i x)
  then show ?thesis using mute_sock(1) [OF m, of i] m by (auto simp: ready_socket_def quiet_refl)
next
  case (Closed i)
  show ?thesis
  proof (cases "i < length (ws_sockets s)")
    case True
    have m1: "mute (update_sock i (\<lambda>k. k\<lparr>sk_state := CLOSED\<rparr>) s)"
      using m True mute_sock [OF m True] by (intro mute_update) auto
    then have "quiet s (update_sock i (\<lambda>k. k\<lparr>sk_state := CLOSED\<rparr>) s)" by (rule quiet_update) simp
    then show ?thesis using True by (simp add: Closed Let_def quiet_def)
  qed (simp add: Closed quiet_refl m)
next
  case (SendJSON x)
  have "mute (send_on i f s)" for i f
  proof (cases "i < length (ws_sockets s)")
    case True
    show ?thesis unfolding send_on_def
      using m True mute_sock [OF m True] by (intro mute_update) auto
  next
    case False
    then show ?thesis using m by (simp add: send_on_def update_sock_def list_update_beyond)
  qed
  then show ?thesis using m by (simp add: SendJSON send_def quiet_def send_on_def split: option.split)
qed (use m in \<open>simp_all add: mute_onUpdate mute_awareness quiet_refl\<close>)

lemma quiet_run:
  "mute s \<Longrightarrow> \<forall>e\<in>set es. \<not> is_mount e \<Longrightarrow> quiet s (ws_run env es s)"
proof (induction es arbitrary: s)
  case (Cons e es)
  have "quiet s (ws_step env e s)" using Cons.prems by (simp add: quiet_step)
  moreover from this have "quiet (ws_step env e s) (ws_run env es (ws_step env e s))"
    using Cons by (simp add: quiet_def)
  ultimately show ?case by (simp add: quiet_trans [of s])
qed (simp add: quiet_refl)

text \<open>
  C7. after a redirect the client is cut off. Once the old socket reports that it is closed, whatever
  happens while the page is not mounted again, nothing is sent over any socket, neither the page's
  messages nor its document, and no message reaches the page: the socket made for the leader has no
  handlers, and the old one's \<open>onclose\<close> has reset the reference to it.
\<close>

theorem redirect_disconnects:
  assumes s: "s = ws_run env es0 (initial_ws role d)"
    and i: "ready_socket i OPEN s" "sk_handlers (sock s i)" "redirects env p"
    and one: "\<forall>j<length (ws_sockets s). j \<noteq> i \<longrightarrow> sk_handlers (sock s j) \<longrightarrow>
      sk_state (sock s j) \<in> {CLOSING, CLOSED}"
    and es: "\<forall>e\<in>set es. \<not> is_mount e"
  shows "map sk_sent (ws_sockets (ws_run env ([Text i (Redirect p), Closed i] @ es) s)) =
      map sk_sent (ws_sockets s) @ [[]] \<and>
    ws_inbox (ws_run env ([Text i (Redirect p), Closed i] @ es) s) = ws_inbox s"
proof -
  define s2 where "s2 = ws_run env [Text i (Redirect p), Closed i] s"
  have len: "i < length (ws_sockets s)" using i(1) by (simp add: ready_socket_def)
  have s2: "ws_sockets s2 = (ws_sockets s)[i := (close_sock (sock s i))\<lparr>sk_state := CLOSED\<rparr>] @ [new_socket False]"
    "ws_ref s2 = None" "ws_inbox s2 = ws_inbox s"
    using i len by (simp_all add: s2_def ontext_def redirect_def Let_def sock_def list_update_append nth_append)
  have ok: "sock_ok k" if "k \<in> set (ws_sockets s)" for k
    using ws_inv_run [OF ws_inv_initial, of env es0 role d] that unfolding s ws_inv_def by blast
  have other: "\<forall>k\<in>set ((ws_sockets s)[i := (close_sock (sock s i))\<lparr>sk_state := CLOSED\<rparr>]).
      (if sk_handlers k then sk_state k \<in> {CLOSING, CLOSED} else \<not> sk_timer k \<and> \<not> sk_mounted k)"
  proof
    fix k assume "k \<in> set ((ws_sockets s)[i := (close_sock (sock s i))\<lparr>sk_state := CLOSED\<rparr>])"
    then obtain j where j: "j < length (ws_sockets s)"
      and k: "k = (ws_sockets s)[i := (close_sock (sock s i))\<lparr>sk_state := CLOSED\<rparr>] ! j"
      by (auto simp: in_set_conv_nth)
    show "if sk_handlers k then sk_state k \<in> {CLOSING, CLOSED} else \<not> sk_timer k \<and> \<not> sk_mounted k"
      using one j k i(2) ok [of k] by (cases "j = i") (auto simp: sock_def sock_ok_def)
  qed
  then have "mute s2" unfolding mute_def s2 by (auto simp: new_socket_def split: if_splits)
  then have "quiet s2 (ws_run env es s2)" using es by (rule quiet_run)
  then have "map sk_sent (ws_sockets (ws_run env es s2)) = map sk_sent (ws_sockets s2)"
    "ws_inbox (ws_run env es s2) = ws_inbox s2" using s2(2) by (simp_all add: quiet_def)
  moreover have "map sk_sent (ws_sockets s2) = map sk_sent (ws_sockets s) @ [[]]"
    by (simp add: s2 map_list_update_same sock_def new_socket_def)
  ultimately show ?thesis using s2(3) by (simp add: s2_def)
qed

lemma redirect_disconnects_witness:
  "map sk_sent (ws_sockets (ws_run plain_env
      ([Text 0 (Redirect (PortNumber 8080)), Closed 0] @ [Opened 1, LocalEdit (js ''x''), SendJSON (SendReject (js ''p1''))])
      (ws_run plain_env [Mount, Opened 0] (initial_ws (js ''editor'') (js ''hi''))))) =
    [[AwarenessFrame (js ''AA=='')], []]"
  using redirect_disconnects [of "ws_run plain_env [Mount, Opened 0] (initial_ws (js ''editor'') (js ''hi''))"
      plain_env "[Mount, Opened 0]" "js ''editor''" "js ''hi''" 0 "PortNumber 8080"
      "[Opened 1, LocalEdit (js ''x''), SendJSON (SendReject (js ''p1''))]"]
  by (simp add: plain_simps redirects_def)

end
