(* ===== verification/YAwareness.thy ===== *)
theory YAwareness
  imports YIds "HOL-Library.Product_Lexorder"
begin

text \<open>
  The awareness protocol (\<open>y-protocols/awareness.js\<close>): who is there, and where his cursor is. Every
  client has a state and a clock; updates carry the states of some clients, and a receiver takes an
  entry if its clock is newer, or equal and the entry removes the client. Codes of updates are shown
  to be read back, the rule for entries to be a maximum, so replicas that got the same entries, in
  whatever order and how often, agree.

  A client's state is a JSON object; how it is written and parsed, and deep equality, are given by
  a record of operations. An exception in the middle of an update leaves the entries before it
  applied, with no event.
\<close>

section \<open>Definitions\<close>

record 'v json =
  jn_stringify :: "'v option \<Rightarrow> jsstring"
  jn_parse :: "jsstring \<Rightarrow> 'v option result"
  jn_equal :: "'v \<Rightarrow> 'v \<Rightarrow> bool"

text \<open>\<open>aw_meta\<close> has the clock and the time of the last update.\<close>

record 'v awareness =
  aw_clientID :: nat
  aw_states :: "nat \<Rightarrow> 'v option"
  aw_meta :: "nat \<Rightarrow> (nat \<times> int) option"

text \<open>What the events \<open>change\<close> and \<open>update\<close> are fired with; the first has \<open>ch_filtered\<close> for the
  updated clients.\<close>

record change =
  ch_added :: "nat list"
  ch_updated :: "nat list"
  ch_filtered :: "nat list"
  ch_removed :: "nat list"

definition no_change :: change where
  "no_change = \<lparr>ch_added = [], ch_updated = [], ch_filtered = [], ch_removed = []\<rparr>"

definition fires_change :: "change \<Rightarrow> bool" where
  "fires_change ch \<longleftrightarrow> ch_added ch \<noteq> [] \<or> ch_filtered ch \<noteq> [] \<or> ch_removed ch \<noteq> []"

definition fires_update :: "change \<Rightarrow> bool" where
  "fires_update ch \<longleftrightarrow> ch_added ch \<noteq> [] \<or> ch_updated ch \<noteq> [] \<or> ch_removed ch \<noteq> []"

definition new_awareness :: "nat \<Rightarrow> 'v awareness" where
  "new_awareness c = \<lparr>aw_clientID = c, aw_states = (\<lambda>_. None), aw_meta = (\<lambda>_. None)\<rparr>"

definition getLocalState :: "'v awareness \<Rightarrow> 'v option" where
  "getLocalState aw = aw_states aw (aw_clientID aw)"

definition setLocalState :: "'v json \<Rightarrow> int \<Rightarrow> 'v option \<Rightarrow> 'v awareness \<Rightarrow> 'v awareness \<times> change" where
  "setLocalState J now state aw =
     (let c = aw_clientID aw;
          clk = (case aw_meta aw c of None \<Rightarrow> 0 | Some (k, t) \<Rightarrow> k + 1);
          prevState = aw_states aw c
      in (aw\<lparr>aw_states := (aw_states aw)(c := state), aw_meta := (aw_meta aw)(c \<mapsto> (clk, now))\<rparr>,
          case state of
            None \<Rightarrow> no_change\<lparr>ch_removed := [c]\<rparr>
          | Some v \<Rightarrow> (case prevState of
              None \<Rightarrow> no_change\<lparr>ch_added := [c]\<rparr>
            | Some w \<Rightarrow> no_change\<lparr>ch_updated := [c], ch_filtered := (if jn_equal J w v then [] else [c])\<rparr>)))"

text \<open>\<open>new Awareness(doc)\<close>.\<close>

definition Awareness :: "'v json \<Rightarrow> int \<Rightarrow> 'v \<Rightarrow> nat \<Rightarrow> 'v awareness" where
  "Awareness J now blank c = fst (setLocalState J now (Some blank) (new_awareness c))"

text \<open>\<open>{...state, [field]: value}\<close> is the function \<open>put\<close>.\<close>

definition setLocalStateField :: "'v json \<Rightarrow> int \<Rightarrow> ('v \<Rightarrow> 'v) \<Rightarrow> 'v awareness \<Rightarrow> 'v awareness \<times> change" where
  "setLocalStateField J now put aw = (case getLocalState aw of
     None \<Rightarrow> (aw, no_change) | Some v \<Rightarrow> setLocalState J now (Some (put v)) aw)"

fun remove_states :: "int \<Rightarrow> nat list \<Rightarrow> 'v awareness \<Rightarrow> nat list \<Rightarrow> ('v awareness \<times> nat list) result" where
  "remove_states now [] aw removed = Inr (aw, removed)"
| "remove_states now (c # cs) aw removed =
     (if aw_states aw c \<noteq> None
      then let aw1 = aw\<lparr>aw_states := (aw_states aw)(c := None)\<rparr> in
        if c = aw_clientID aw
        then (case aw_meta aw c of
            None \<Rightarrow> Inl TypeErr
          | Some (k, t) \<Rightarrow> remove_states now cs (aw1\<lparr>aw_meta := (aw_meta aw)(c \<mapsto> (k + 1, now))\<rparr>) (removed @ [c]))
        else remove_states now cs aw1 (removed @ [c])
      else remove_states now cs aw removed)"

definition removeAwarenessStates :: "int \<Rightarrow> nat list \<Rightarrow> 'v awareness \<Rightarrow> ('v awareness \<times> change) result" where
  "removeAwarenessStates now clients aw = (case remove_states now clients aw [] of
     Inl e \<Rightarrow> Inl e | Inr (aw1, removed) \<Rightarrow> Inr (aw1, no_change\<lparr>ch_removed := removed\<rparr>))"

text \<open>An entry of an update.\<close>

type_synonym 'v entry = "nat \<times> nat \<times> 'v option"

definition write_entry :: "'v json \<Rightarrow> encoder \<Rightarrow> 'v entry \<Rightarrow> encoder" where
  "write_entry J e x = (case x of (c, clk, state) \<Rightarrow>
     writeVarString (writeVarUint (writeVarUint e c) clk) (jn_stringify J state))"

fun encode_loop :: "'v json \<Rightarrow> 'v awareness \<Rightarrow> encoder \<Rightarrow> nat list \<Rightarrow> encoder result" where
  "encode_loop J aw e [] = Inr e"
| "encode_loop J aw e (c # cs) = (case aw_meta aw c of
     None \<Rightarrow> Inl TypeErr
   | Some (clk, t) \<Rightarrow> encode_loop J aw (write_entry J e (c, clk, aw_states aw c)) cs)"

definition encodeAwarenessUpdate :: "'v json \<Rightarrow> 'v awareness \<Rightarrow> nat list \<Rightarrow> byte list result" where
  "encodeAwarenessUpdate J aw clients =
     (case encode_loop J aw (writeVarUint createEncoder (length clients)) clients of
        Inl e \<Rightarrow> Inl e | Inr e \<Rightarrow> Inr (toUint8Array e))"

definition read_entry :: "'v json \<Rightarrow> 'v entry reader" where
  "read_entry J d = (case readVarUint d of
     Inl e \<Rightarrow> Inl e
   | Inr (c, d1) \<Rightarrow> (case readVarUint d1 of
       Inl e \<Rightarrow> Inl e
     | Inr (clk, d2) \<Rightarrow> (case readVarString d2 of
         Inl e \<Rightarrow> Inl e
       | Inr (s, d3) \<Rightarrow> (case jn_parse J s of Inl e \<Rightarrow> Inl e | Inr st \<Rightarrow> Inr ((c, clk, st), d3)))))"

text \<open>The body of the loop of \<open>applyAwarenessUpdate\<close>, after an entry was read.\<close>

definition apply_entry :: "'v json \<Rightarrow> int \<Rightarrow> 'v entry \<Rightarrow> 'v awareness \<times> change \<Rightarrow> 'v awareness \<times> change" where
  "apply_entry J now x ac = (case (x, ac) of ((c, clk, state), (aw, ch)) \<Rightarrow>
     (let clientMeta = aw_meta aw c; prevState = aw_states aw c;
          currClock = (case clientMeta of None \<Rightarrow> 0 | Some (k, t) \<Rightarrow> k)
      in if currClock < clk \<or> (currClock = clk \<and> state = None \<and> prevState \<noteq> None)
         then
           (let own = state = None \<and> c = aw_clientID aw \<and> getLocalState aw \<noteq> None in
            (aw\<lparr>aw_states := (if own then aw_states aw else (aw_states aw)(c := state)),
                aw_meta := (aw_meta aw)(c \<mapsto> (if own then clk + 1 else clk, now))\<rparr>,
             case state of
               None \<Rightarrow> if clientMeta = None then ch else ch\<lparr>ch_removed := ch_removed ch @ [c]\<rparr>
             | Some v \<Rightarrow>
                 if clientMeta = None then ch\<lparr>ch_added := ch_added ch @ [c]\<rparr>
                 else ch\<lparr>ch_updated := ch_updated ch @ [c],
                        ch_filtered := ch_filtered ch @
                          (if (case prevState of None \<Rightarrow> False | Some w \<Rightarrow> jn_equal J v w) then [] else [c])\<rparr>))
         else ac))"

fun apply_loop :: "'v json \<Rightarrow> int \<Rightarrow> nat \<Rightarrow> decoder \<Rightarrow> 'v awareness \<times> change \<Rightarrow>
    ('v awareness \<times> change) \<times> js_error option" where
  "apply_loop J now 0 d ac = (ac, None)"
| "apply_loop J now (Suc n) d ac = (case read_entry J d of
     Inl e \<Rightarrow> (ac, Some e) | Inr (x, d1) \<Rightarrow> apply_loop J now n d1 (apply_entry J now x ac))"

definition applyAwarenessUpdate :: "'v json \<Rightarrow> int \<Rightarrow> byte list \<Rightarrow> 'v awareness \<Rightarrow>
    'v awareness \<times> change result" where
  "applyAwarenessUpdate J now upd aw = (case readVarUint (createDecoder upd) of
     Inl e \<Rightarrow> (aw, Inl e)
   | Inr (len, d) \<Rightarrow> (case apply_loop J now len d (aw, no_change) of
       ((aw1, ch), None) \<Rightarrow> (aw1, Inr ch) | ((aw1, ch), Some e) \<Rightarrow> (aw1, Inl e)))"

text \<open>The interval function: the local state is renewed after half the timeout, the states of
  clients not heard of for the whole timeout are removed. \<open>known\<close> is the order of the \<open>Map\<close>.\<close>

definition outdatedTimeout :: int where
  "outdatedTimeout = 30000"

definition outdated :: "int \<Rightarrow> 'v awareness \<Rightarrow> nat \<Rightarrow> bool" where
  "outdated now aw c = (case aw_meta aw c of
     None \<Rightarrow> False
   | Some (k, t) \<Rightarrow> c \<noteq> aw_clientID aw \<and> outdatedTimeout \<le> now - t \<and> aw_states aw c \<noteq> None)"

definition checkInterval :: "'v json \<Rightarrow> int \<Rightarrow> nat list \<Rightarrow> 'v awareness \<Rightarrow> ('v awareness \<times> change list) result" where
  "checkInterval J now known aw =
     (let renew = (case (getLocalState aw, aw_meta aw (aw_clientID aw)) of
          (None, _) \<Rightarrow> Inr False
        | (Some v, None) \<Rightarrow> Inl TypeErr
        | (Some v, Some (k, t)) \<Rightarrow> Inr (outdatedTimeout \<le> 2 * (now - t)))
      in case renew of
        Inl e \<Rightarrow> Inl e
      | Inr b \<Rightarrow>
        (let (aw1, ch1) = (if b then setLocalState J now (getLocalState aw) aw else (aw, no_change));
             remove = filter (outdated now aw1) known
         in if remove = [] then Inr (aw1, [ch1])
            else (case removeAwarenessStates now remove aw1 of
              Inl e \<Rightarrow> Inl e | Inr (aw2, ch2) \<Rightarrow> Inr (aw2, [ch1, ch2]))))"

section \<open>Updates are read back\<close>

definition entry_bytes :: "'v json \<Rightarrow> 'v entry \<Rightarrow> byte list" where
  "entry_bytes J x = (case x of (c, clk, state) \<Rightarrow>
     uint_bytes c @ uint_bytes clk @ string_bytes (jn_stringify J state))"

text \<open>A state that survives the JSON writer and parser, and an entry that can be transported.\<close>

definition json_ok :: "'v json \<Rightarrow> 'v option \<Rightarrow> bool" where
  "json_ok J v \<longleftrightarrow> string_ok (jn_stringify J v) \<and> jn_parse J (jn_stringify J v) = Inr v"

definition entry_ok :: "'v json \<Rightarrow> 'v entry \<Rightarrow> bool" where
  "entry_ok J x \<longleftrightarrow> (case x of (c, clk, state) \<Rightarrow>
     c \<le> MAX_SAFE_INTEGER \<and> clk \<le> MAX_SAFE_INTEGER \<and> json_ok J state)"

interpretation entry: codec "entry_bytes J" "read_entry J" "entry_ok J"
proof unfold_locales
  fix x d rest
  assume ok: "entry_ok J x" and rem: "remaining d = entry_bytes J x @ rest"
  obtain c clk state where x: "x = (c, clk, state)" by (cases x)
  have o: "c \<le> MAX_SAFE_INTEGER" "clk \<le> MAX_SAFE_INTEGER" "json_ok J state"
    using ok by (simp_all add: entry_ok_def x)
  let ?s = "string_bytes (jn_stringify J state)"
  have r: "remaining d = uint_bytes c @ uint_bytes clk @ ?s @ rest" using rem by (simp add: entry_bytes_def x)
  note both = uint2.rd_both [OF o(1,2) r]
  have "remaining (advance (length (uint_bytes c @ uint_bytes clk)) d) = ?s @ rest"
    using r by (intro remaining_advance) simp
  then have "readVarString (advance (length (uint_bytes c) + length (uint_bytes clk)) d) =
      Inr (jn_stringify J state, advance (length ?s) (advance (length (uint_bytes c) + length (uint_bytes clk)) d))"
    using o(3) by (intro str.rd_enc) (simp_all add: json_ok_def)
  with both o(3) show "read_entry J d = Inr (x, advance (length (entry_bytes J x)) d)"
    by (simp add: read_entry_def x entry_bytes_def json_ok_def add.assoc)
qed

lemma write_entry_ok [simp]: "enc_ok e \<Longrightarrow> enc_ok (write_entry J e x)"
  and write_entry_bytes [sink_simps]: "enc_ok e \<Longrightarrow> enc_bytes (write_entry J e x) = enc_bytes e @ entry_bytes J x"
  by (cases x; simp add: write_entry_def entry_bytes_def sink_simps)+

definition clock_of :: "'v awareness \<Rightarrow> nat \<Rightarrow> nat" where
  "clock_of aw c = (case aw_meta aw c of None \<Rightarrow> 0 | Some (k, t) \<Rightarrow> k)"

definition entry_of :: "'v awareness \<Rightarrow> nat \<Rightarrow> 'v entry" where
  "entry_of aw c = (c, clock_of aw c, aw_states aw c)"

definition update_bytes :: "'v json \<Rightarrow> 'v entry list \<Rightarrow> byte list" where
  "update_bytes J xs = uint_bytes (length xs) @ concat (map (entry_bytes J) xs)"

lemma encode_loop_spec:
  "enc_ok e \<Longrightarrow> \<forall>c \<in> set cs. aw_meta aw c \<noteq> None \<Longrightarrow>
   \<exists>e1. encode_loop J aw e cs = Inr e1 \<and> enc_ok e1 \<and>
     enc_bytes e1 = enc_bytes e @ concat (map (entry_bytes J) (map (entry_of aw) cs))"
proof (induction cs arbitrary: e)
  case (Cons c cs)
  then obtain k t where k: "aw_meta aw c = Some (k, t)" by auto
  then have "entry_of aw c = (c, k, aw_states aw c)" by (simp add: entry_of_def clock_of_def)
  with Cons.IH [of "write_entry J e (c, k, aw_states aw c)"] Cons.prems k show ?case
    by (auto simp: sink_simps)
qed simp

lemma encode_update:
  assumes "\<forall>c \<in> set cs. aw_meta aw c \<noteq> None"
  shows "encodeAwarenessUpdate J aw cs = Inr (update_bytes J (map (entry_of aw) cs))"
proof -
  obtain e where "encode_loop J aw (writeVarUint createEncoder (length cs)) cs = Inr e" "enc_ok e"
    "enc_bytes e = enc_bytes (writeVarUint createEncoder (length cs)) @ concat (map (entry_bytes J) (map (entry_of aw) cs))"
    using encode_loop_spec [OF _ assms, of "writeVarUint createEncoder (length cs)" J] by auto
  then show ?thesis
    by (simp add: encodeAwarenessUpdate_def update_bytes_def toUint8Array_bytes sink_simps)
qed

lemma apply_loop_spec:
  "\<forall>x \<in> set xs. entry_ok J x \<Longrightarrow> remaining d = concat (map (entry_bytes J) xs) @ rest \<Longrightarrow>
   apply_loop J now (length xs) d ac = (fold (apply_entry J now) xs ac, None)"
proof (induction xs arbitrary: d ac)
  case (Cons x xs)
  have r: "remaining d = entry_bytes J x @ concat (map (entry_bytes J) xs) @ rest" using Cons.prems(2) by simp
  have "read_entry J d = Inr (x, advance (length (entry_bytes J x)) d)"
    using Cons.prems(1) r by (intro entry.rd_enc) simp_all
  with Cons.IH [OF _ remaining_advance [OF r]] Cons.prems(1) show ?case by simp
qed simp

lemma apply_update:
  assumes "\<forall>x \<in> set xs. entry_ok J x" "length xs \<le> MAX_SAFE_INTEGER"
  shows "applyAwarenessUpdate J now (update_bytes J xs) aw =
    (let (aw1, ch) = fold (apply_entry J now) xs (aw, no_change) in (aw1, Inr ch))"
proof -
  let ?d = "createDecoder (update_bytes J xs)"
  have r: "remaining ?d = uint_bytes (length xs) @ concat (map (entry_bytes J) xs) @ []"
    by (simp add: update_bytes_def)
  have "readVarUint ?d = Inr (length xs, advance (length (uint_bytes (length xs))) ?d)"
    using assms(2) r by (intro uint.rd_enc) simp_all
  with apply_loop_spec [OF assms(1) remaining_advance [OF r], of now "(aw, no_change)"] show ?thesis
    by (simp add: applyAwarenessUpdate_def split_beta)
qed

section \<open>Entries are merged\<close>

definition view :: "'v awareness \<Rightarrow> nat \<Rightarrow> nat \<times> 'v option" where
  "view aw c = (clock_of aw c, aw_states aw c)"

fun merge_view :: "nat \<times> 'v option \<Rightarrow> nat \<times> 'v option \<Rightarrow> nat \<times> 'v option" where
  "merge_view (k, s) (m, r) = (if k < m \<or> (k = m \<and> r = None) then (m, r) else (k, s))"

text \<open>What an entry does: to the client it is about, a merge; to the receiver's own state, no
  removal. Nothing else changes.\<close>

lemma apply_entry_view:
  assumes "c \<noteq> aw_clientID aw \<or> getLocalState aw = None \<or> state \<noteq> None"
  shows "view (fst (apply_entry J now (c, clk, state) (aw, ch))) c = merge_view (view aw c) (clk, state)"
  using assms by (auto simp: apply_entry_def view_def clock_of_def Let_def split: option.splits)

lemma apply_entry_other:
  "c \<noteq> b \<Longrightarrow> view (fst (apply_entry J now (c, clk, state) (aw, ch))) b = view aw b"
  by (auto simp: apply_entry_def view_def clock_of_def Let_def)

lemma apply_entry_id [simp]: "aw_clientID (fst (apply_entry J now x ac)) = aw_clientID (fst ac)"
  by (cases x; cases ac) (auto simp: apply_entry_def Let_def)

lemma apply_entry_own:
  assumes "getLocalState aw = Some v"
  shows "getLocalState (fst (apply_entry J now x (aw, ch))) \<noteq> None \<and>
    clock_of aw (aw_clientID aw) \<le> clock_of (fst (apply_entry J now x (aw, ch))) (aw_clientID aw)"
  using assms by (cases x) (auto simp: apply_entry_def Let_def getLocalState_def clock_of_def split: option.splits)

section \<open>Replicas agree\<close>

definition entries_for :: "nat \<Rightarrow> 'v entry list \<Rightarrow> (nat \<times> 'v option) list" where
  "entries_for c xs = map snd (filter (\<lambda>x. fst x = c) xs)"

lemma entries_for_simps [simp]:
  "entries_for c [] = []" "entries_for c (xs @ ys) = entries_for c xs @ entries_for c ys"
  "entries_for c ((b, e) # xs) = (if b = c then e # entries_for c xs else entries_for c xs)"
  by (simp_all add: entries_for_def)

lemma fold_view:
  "c \<noteq> aw_clientID aw \<Longrightarrow> view (fst (fold (apply_entry J now) xs (aw, ch))) c =
     fold (\<lambda>e v. merge_view v e) (entries_for c xs) (view aw c) \<and>
   aw_clientID (fst (fold (apply_entry J now) xs (aw, ch))) = aw_clientID aw"
proof (induction xs arbitrary: aw ch)
  case (Cons x xs)
  obtain b clk state where x: "x = (b, clk, state)" by (cases x)
  obtain aw1 ch1 where a: "apply_entry J now x (aw, ch) = (aw1, ch1)" by fastforce
  have i: "aw_clientID aw1 = aw_clientID aw" using apply_entry_id [of J now x "(aw, ch)"] by (simp add: a)
  have "view aw1 c = (if b = c then merge_view (view aw c) (clk, state) else view aw c)"
    using apply_entry_view [of c aw state J now clk ch] apply_entry_other [of b c J now clk state aw ch] Cons.prems a
    by (auto simp: x)
  moreover have "fold (apply_entry J now) (x # xs) (aw, ch) = fold (apply_entry J now) xs (aw1, ch1)" by (simp add: a)
  moreover have "fold (\<lambda>e v. merge_view v e) (entries_for c (x # xs)) (view aw c) =
      fold (\<lambda>e v. merge_view v e) (entries_for c xs) (if b = c then merge_view (view aw c) (clk, state) else view aw c)"
    by (simp add: x)
  ultimately show ?case using Cons.IH [of aw1 ch1] Cons.prems i by (simp only:) simp
qed simp

text \<open>Updates as they arrive, each with the time it does.\<close>

definition receive :: "'v json \<Rightarrow> (int \<times> 'v entry list) list \<Rightarrow> 'v awareness \<Rightarrow> 'v awareness" where
  "receive J us aw = fold (\<lambda>(now, xs) aw. fst (applyAwarenessUpdate J now (update_bytes J xs) aw)) us aw"

definition updates_ok :: "'v json \<Rightarrow> (int \<times> 'v entry list) list \<Rightarrow> bool" where
  "updates_ok J us \<longleftrightarrow> (\<forall>u \<in> set us. length (snd u) \<le> MAX_SAFE_INTEGER \<and> (\<forall>x \<in> set (snd u). entry_ok J x))"

lemma receive_view:
  "updates_ok J us \<Longrightarrow> c \<noteq> aw_clientID aw \<Longrightarrow>
   view (receive J us aw) c = fold (\<lambda>e v. merge_view v e) (entries_for c (concat (map snd us))) (view aw c)"
proof (induction us arbitrary: aw)
  case (Cons u us)
  obtain now xs where u: "u = (now, xs)" by fastforce
  define aw1 where "aw1 = fst (fold (apply_entry J now) xs (aw, no_change))"
  have "fst (applyAwarenessUpdate J now (update_bytes J xs) aw) = aw1"
    using apply_update [of xs J now aw] Cons.prems(1) by (simp add: updates_ok_def u aw1_def split_beta)
  then have "receive J (u # us) aw = receive J us aw1" by (simp add: receive_def u)
  with Cons.IH [of aw1] fold_view [OF Cons.prems(2), of J now xs no_change] Cons.prems show ?case
    by (simp add: u aw1_def updates_ok_def)
qed (simp add: receive_def)

text \<open>A client's history gives the state it had at each clock; an entry is for a clock, either with
  that state or removing the client. Ordered by clock, removal last, merging is the maximum.\<close>

definition ent :: "(nat \<Rightarrow> 'v) \<Rightarrow> nat \<times> bool \<Rightarrow> nat \<times> 'v option" where
  "ent H x = (fst x, if snd x then None else Some (H (fst x)))"

lemma merge_ent: "merge_view (ent H x) (ent H y) = ent H (max x y)"
  by (cases x; cases y) (auto simp: ent_def max_def less_eq_prod_simp)

lemma fold_merge_ent:
  "fold (\<lambda>e v. merge_view v e) (map (ent H) es) (ent H x) = ent H (fold max es x)"
  by (induction es arbitrary: x) (simp_all add: merge_ent max.commute)

lemma fold_max: "fold max es x = Max (insert x (set es))" for x :: "nat \<times> bool"
  using Max.set_eq_fold [of x es] by (simp add: max.commute)

definition from_history :: "(nat \<Rightarrow> 'v) \<Rightarrow> (nat \<times> 'v option) list \<Rightarrow> bool" where
  "from_history H es \<longleftrightarrow> (\<forall>e \<in> set es. \<forall>v. snd e = Some v \<longrightarrow> v = H (fst e))"

lemma from_history_ent: "from_history H es \<Longrightarrow> \<exists>xs. es = map (ent H) xs"
proof (induction es)
  case (Cons e es)
  then obtain xs where "es = map (ent H) xs" by (auto simp: from_history_def)
  moreover have "e = ent H (fst e, snd e = None)"
    using Cons.prems by (cases e; cases "snd e") (auto simp: from_history_def ent_def)
  ultimately show ?case by (metis list.simps(9))
qed simp

lemma ent_inj: "ent H x = ent H y \<Longrightarrow> x = y"
  by (cases x; cases y) (auto simp: ent_def split: if_splits)

text \<open>A replica that has not heard of a client.\<close>

definition unheard :: "nat \<Rightarrow> 'v awareness \<Rightarrow> bool" where
  "unheard c aw \<longleftrightarrow> c \<noteq> aw_clientID aw \<and> aw_meta aw c = None \<and> aw_states aw c = None"

lemma receive_newest:
  assumes "unheard c aw" "updates_ok J us" "entries_for c (concat (map snd us)) = map (ent H) es"
  shows "view (receive J us aw) c = ent H (Max (insert (0, True) (set es)))"
proof -
  have "view aw c = ent H (0, True)" using assms(1) by (simp add: unheard_def view_def clock_of_def ent_def)
  then show ?thesis using assms by (simp add: receive_view unheard_def fold_merge_ent fold_max)
qed

text \<open>
  C26. replicas that have received the same entries about a client, in updates of any number and
  order, with any repetitions, see the same state of it, whose clock is the newest they heard of.
\<close>

theorem awareness_converges:
  assumes "unheard c a" "unheard c b" "updates_ok J us" "updates_ok J vs"
    and "from_history H (entries_for c (concat (map snd us)))"
    and "set (entries_for c (concat (map snd us))) = set (entries_for c (concat (map snd vs)))"
  shows "view (receive J us a) c = view (receive J vs b) c \<and>
    (\<forall>(k, s) \<in> set (entries_for c (concat (map snd us))). k \<le> fst (view (receive J us a) c))"
proof -
  obtain es where es: "entries_for c (concat (map snd us)) = map (ent H) es"
    using from_history_ent [OF assms(5)] by blast
  have "from_history H (entries_for c (concat (map snd vs)))" using assms(5,6) by (simp add: from_history_def)
  then obtain fs where fs: "entries_for c (concat (map snd vs)) = map (ent H) fs"
    using from_history_ent by blast
  have "ent H ` set es = ent H ` set fs" using assms(6) es fs by simp
  moreover have "inj (ent H)" using ent_inj [of H] by (rule injI)
  ultimately have "set es = set fs" by (simp add: inj_image_eq_iff)
  moreover have "\<forall>(k, s) \<in> set (map (ent H) es). k \<le> fst (ent H (Max (insert (0, True) (set es))))"
  proof -
    have "x \<le> Max (insert (0, True) (set es))" if "x \<in> set es" for x using that by (intro Max_ge) auto
    then show ?thesis by (force simp: ent_def less_eq_prod_def)
  qed
  ultimately show ?thesis
    using receive_newest [OF assms(1,3) es] receive_newest [OF assms(2,4) fs] es by simp
qed

section \<open>What was received has no effect again\<close>

definition absorbed :: "'v awareness \<Rightarrow> 'v entry \<Rightarrow> bool" where
  "absorbed aw x \<longleftrightarrow> (case x of (c, clk, state) \<Rightarrow>
     clk < clock_of aw c \<or> (clk = clock_of aw c \<and> (state = None \<longrightarrow> aw_states aw c = None)))"

lemma not_absorbed:
  "\<not> absorbed aw (c, clk, state) \<longleftrightarrow>
   clock_of aw c < clk \<or> (clock_of aw c = clk \<and> state = None \<and> aw_states aw c \<noteq> None)"
  by (auto simp: absorbed_def)

lemma absorbed_apply: "absorbed aw x \<Longrightarrow> apply_entry J now x (aw, ch) = (aw, ch)"
proof (cases x)
  case (fields c clk state)
  assume "absorbed aw x"
  then have "\<not> (clock_of aw c < clk \<or> (clock_of aw c = clk \<and> state = None \<and> aw_states aw c \<noteq> None))"
    using not_absorbed [of aw c clk state] by (simp add: fields)
  then show ?thesis unfolding apply_entry_def fields Let_def clock_of_def prod.case by (simp only: if_False)
qed

lemma apply_entry_effect:
  assumes "\<not> absorbed aw (c, clk, state)" and aw1_def: "aw1 = fst (apply_entry J now (c, clk, state) (aw, ch))"
  shows "(\<forall>b. clock_of aw1 b = (if b = c then clk else clock_of aw b)) \<and> aw_states aw1 = (aw_states aw)(c := state) \<or>
    (\<forall>b. clock_of aw1 b = (if b = c then clk + 1 else clock_of aw b)) \<and> aw_states aw1 = aw_states aw \<and> state = None"
proof -
  have cond: "(case aw_meta aw c of None \<Rightarrow> 0 | Some (k, t) \<Rightarrow> k) < clk \<or>
      (case aw_meta aw c of None \<Rightarrow> 0 | Some (k, t) \<Rightarrow> k) = clk \<and> state = None \<and> aw_states aw c \<noteq> None"
    using assms(1) unfolding not_absorbed clock_of_def .
  show ?thesis unfolding aw1_def apply_entry_def Let_def prod.case if_P [OF cond]
    by (cases "state = None \<and> c = aw_clientID aw \<and> getLocalState aw \<noteq> None") (auto simp: clock_of_def)
qed

lemma apply_absorbs: "absorbed (fst (apply_entry J now x ac)) x"
proof (cases x)
  case (fields c clk state)
  obtain aw ch where ac: "ac = (aw, ch)" by fastforce
  show ?thesis
  proof (cases "absorbed aw x")
    case True
    then show ?thesis by (simp add: ac absorbed_apply)
  next
    case False
    then show ?thesis using apply_entry_effect [of aw c clk state _ J now ch, OF _ refl]
      by (auto simp: fields ac absorbed_def)
  qed
qed

lemma absorbed_mono: "absorbed (fst ac) y \<Longrightarrow> absorbed (fst (apply_entry J now x ac)) y"
proof (cases x)
  case (fields c clk state)
  assume y: "absorbed (fst ac) y"
  obtain aw ch where ac: "ac = (aw, ch)" by fastforce
  obtain b m r where b: "y = (b, m, r)" by (cases y)
  show ?thesis
  proof (cases "absorbed aw x")
    case True
    then show ?thesis using y by (simp add: ac absorbed_apply)
  next
    case False
    then show ?thesis
      using apply_entry_effect [of aw c clk state _ J now ch, OF _ refl] not_absorbed [of aw c clk state] y
      by (cases "b = c") (auto simp: fields ac b absorbed_def)
  qed
qed

lemma absorbed_fold: "absorbed (fst ac) y \<Longrightarrow> absorbed (fst (fold (apply_entry J now) xs ac)) y"
  by (induction xs arbitrary: ac) (simp_all add: absorbed_mono)

lemma fold_absorbs: "x \<in> set xs \<Longrightarrow> absorbed (fst (fold (apply_entry J now) xs ac)) x"
proof (induction xs arbitrary: ac)
  case (Cons y ys)
  show ?case
  proof (cases "x = y")
    case True
    then show ?thesis using absorbed_fold [OF apply_absorbs] by simp
  next
    case False
    then show ?thesis using Cons by simp
  qed
qed simp

lemma fold_absorbed: "\<forall>x \<in> set xs. absorbed aw x \<Longrightarrow> fold (apply_entry J now) xs (aw, ch) = (aw, ch)"
  by (induction xs) (simp_all add: absorbed_apply)

lemma receive_absorbs:
  "updates_ok J us \<Longrightarrow> (\<forall>x \<in> set ys. absorbed aw x) \<or> (\<exists>t. (t, ys) \<in> set us) \<Longrightarrow>
   \<forall>x \<in> set ys. absorbed (receive J us aw) x"
proof (induction us arbitrary: aw)
  case (Cons u us)
  obtain now xs where u: "u = (now, xs)" by fastforce
  define aw1 where "aw1 = fst (fold (apply_entry J now) xs (aw, no_change))"
  have "fst (applyAwarenessUpdate J now (update_bytes J xs) aw) = aw1"
    using apply_update [of xs J now aw] Cons.prems(1) by (simp add: updates_ok_def u aw1_def split_beta)
  then have r: "receive J (u # us) aw = receive J us aw1" by (simp add: receive_def u)
  have "(\<forall>x \<in> set ys. absorbed aw1 x) \<or> (\<exists>t. (t, ys) \<in> set us)"
    using Cons.prems(2) fold_absorbs [of _ xs J now "(aw, no_change)"]
      absorbed_fold [of "(aw, no_change)" _ J now xs] by (auto simp: u aw1_def)
  with Cons.IH [of aw1] Cons.prems(1) show ?case unfolding r by (simp add: updates_ok_def)
qed (simp add: receive_def)

text \<open>
  An update that a replica has received, however long ago, has no effect when it comes again: no
  state and no clock changes and no event is fired, so updates that are sent on by everyone who
  receives them die out.
\<close>

theorem awareness_idempotent:
  assumes "updates_ok J us" "(t, xs) \<in> set us"
  shows "applyAwarenessUpdate J now (update_bytes J xs) (receive J us aw) = (receive J us aw, Inr no_change) \<and>
    \<not> fires_change no_change"
proof -
  have "\<forall>x \<in> set xs. absorbed (receive J us aw) x" using receive_absorbs [of J us xs aw] assms by blast
  then show ?thesis
    using apply_update [of xs J now "receive J us aw"] assms
    by (auto simp: fold_absorbed updates_ok_def no_change_def fires_change_def)
qed

section \<open>The local state\<close>

lemma apply_loop_own:
  "getLocalState (fst ac) \<noteq> None \<Longrightarrow>
   getLocalState (fst (fst (apply_loop J now n d ac))) \<noteq> None \<and>
   aw_clientID (fst (fst (apply_loop J now n d ac))) = aw_clientID (fst ac) \<and>
   clock_of (fst ac) (aw_clientID (fst ac)) \<le> clock_of (fst (fst (apply_loop J now n d ac))) (aw_clientID (fst ac))"
proof (induction n arbitrary: d ac)
  case (Suc n)
  obtain aw ch where ac: "ac = (aw, ch)" by fastforce
  obtain v where v: "getLocalState aw = Some v" using Suc.prems by (auto simp: ac)
  show ?case
  proof (cases "read_entry J d")
    case (Inr r)
    obtain x d1 where r: "r = (x, d1)" by fastforce
    note o = apply_entry_own [OF v, of J now x ch]
    have "getLocalState (fst (apply_entry J now x ac)) \<noteq> None" using o by (simp add: ac)
    from Suc.IH [OF this, of d1] o show ?thesis by (auto simp: Inr r ac)
  qed (use v in \<open>simp add: ac\<close>)
qed simp

lemma apply_state:
  "readVarUint (createDecoder upd) = Inr (n, d) \<Longrightarrow>
   fst (applyAwarenessUpdate J now upd aw) = fst (fst (apply_loop J now n d (aw, no_change)))"
  by (cases "apply_loop J now n d (aw, no_change)") (auto simp: applyAwarenessUpdate_def split: option.split)

text \<open>
  Nothing that arrives can remove a client's own state: whatever bytes the update has, well formed
  or not, the state is there afterwards, and its clock has not gone back.
\<close>

theorem own_state_kept:
  assumes "getLocalState aw \<noteq> None"
  shows "getLocalState (fst (applyAwarenessUpdate J now upd aw)) \<noteq> None \<and>
    clock_of aw (aw_clientID aw) \<le> clock_of (fst (applyAwarenessUpdate J now upd aw)) (aw_clientID aw)"
proof (cases "readVarUint (createDecoder upd)")
  case (Inl e)
  then show ?thesis using assms by (simp add: applyAwarenessUpdate_def)
next
  case (Inr nd)
  then show ?thesis
    using apply_loop_own [of "(aw, no_change)" J now "fst nd" "snd nd"] assms
    by (cases nd) (simp add: apply_state)
qed

section \<open>No operation fails\<close>

text \<open>Every client with a state has a clock; the clients of a change have one, too.\<close>

definition aw_ok :: "'v awareness \<Rightarrow> bool" where
  "aw_ok aw \<longleftrightarrow> (\<forall>c. aw_states aw c \<noteq> None \<longrightarrow> aw_meta aw c \<noteq> None)"

definition change_clients :: "change \<Rightarrow> nat list" where
  "change_clients ch = ch_added ch @ ch_filtered ch @ ch_removed ch"

definition clocked :: "'v awareness \<Rightarrow> change \<Rightarrow> bool" where
  "clocked aw ch \<longleftrightarrow> (\<forall>c \<in> set (change_clients ch). aw_meta aw c \<noteq> None)"

lemma setLocalState_ok:
  "aw_ok aw \<Longrightarrow> aw_ok (fst (setLocalState J now state aw)) \<and>
     clocked (fst (setLocalState J now state aw)) (snd (setLocalState J now state aw))"
  by (auto simp: aw_ok_def clocked_def setLocalState_def Let_def change_clients_def no_change_def split: option.split)

lemma apply_entry_ok:
  "aw_ok (fst ac) \<and> clocked (fst ac) (snd ac) \<Longrightarrow>
   aw_ok (fst (apply_entry J now x ac)) \<and> clocked (fst (apply_entry J now x ac)) (snd (apply_entry J now x ac))"
  by (cases x; cases ac)
    (auto simp: aw_ok_def clocked_def apply_entry_def Let_def change_clients_def split: option.split)

lemma apply_loop_ok:
  "aw_ok (fst ac) \<and> clocked (fst ac) (snd ac) \<Longrightarrow>
   aw_ok (fst (fst (apply_loop J now n d ac))) \<and>
   clocked (fst (fst (apply_loop J now n d ac))) (snd (fst (apply_loop J now n d ac)))"
proof (induction n arbitrary: d ac)
  case (Suc n)
  show ?case
  proof (cases "read_entry J d")
    case (Inr r)
    obtain x d1 where r: "r = (x, d1)" by fastforce
    from Suc.IH [OF apply_entry_ok [OF Suc.prems]] show ?thesis by (simp add: Inr r)
  qed (use Suc.prems in simp)
qed simp

lemma apply_ok:
  assumes "aw_ok aw" "applyAwarenessUpdate J now upd aw = (aw1, r)"
  shows "aw_ok aw1" "r = Inr ch \<Longrightarrow> clocked aw1 ch"
proof -
  have c: "clocked aw no_change" by (simp add: clocked_def change_clients_def no_change_def)
  have "aw_ok aw1 \<and> (\<forall>ch. r = Inr ch \<longrightarrow> clocked aw1 ch)"
  proof (cases "readVarUint (createDecoder upd)")
    case (Inl e)
    then show ?thesis using assms by (auto simp: applyAwarenessUpdate_def)
  next
    case (Inr nd)
    obtain n d where nd: "nd = (n, d)" by fastforce
    obtain aw2 ch2 eo where l: "apply_loop J now n d (aw, no_change) = ((aw2, ch2), eo)" by (metis prod.exhaust)
    then show ?thesis
      using apply_loop_ok [of "(aw, no_change)" J now n d] assms c Inr nd
      by (cases eo) (auto simp: applyAwarenessUpdate_def)
  qed
  then show "aw_ok aw1" "r = Inr ch \<Longrightarrow> clocked aw1 ch" by blast+
qed

lemma remove_states_ok:
  "aw_ok aw \<Longrightarrow> \<forall>c \<in> set rs. aw_meta aw c \<noteq> None \<Longrightarrow>
   \<exists>aw1 rs1. remove_states now cs aw rs = Inr (aw1, rs1) \<and> aw_ok aw1 \<and> (\<forall>c \<in> set rs1. aw_meta aw1 c \<noteq> None)"
proof (induction cs arbitrary: aw rs)
  case (Cons c cs)
  show ?case
  proof (cases "aw_states aw c = None")
    case True
    then show ?thesis using Cons.IH [OF Cons.prems] by simp
  next
    case False
    then obtain k t where m: "aw_meta aw c = Some (k, t)" using Cons.prems(1) by (auto simp: aw_ok_def)
    define aw1 where "aw1 = (if c = aw_clientID aw
        then aw\<lparr>aw_states := (aw_states aw)(c := None), aw_meta := (aw_meta aw)(c \<mapsto> (k + 1, now))\<rparr>
        else aw\<lparr>aw_states := (aw_states aw)(c := None)\<rparr>)"
    have "aw_ok aw1" "\<forall>b \<in> set (rs @ [c]). aw_meta aw1 b \<noteq> None"
      using Cons.prems m by (auto simp: aw1_def aw_ok_def)
    moreover have "remove_states now (c # cs) aw rs = remove_states now cs aw1 (rs @ [c])"
      using False m by (auto simp: aw1_def Let_def)
    ultimately show ?thesis using Cons.IH [of aw1 "rs @ [c]"] by simp
  qed
qed simp

lemma remove_states_meta:
  "remove_states now cs aw rs = Inr (aw1, rs1) \<Longrightarrow> aw_meta aw c \<noteq> None \<Longrightarrow> aw_meta aw1 c \<noteq> None"
proof (induction cs arbitrary: aw rs)
  case (Cons b cs)
  from Cons.prems(1) show ?case
    by (auto simp: Let_def split: if_splits option.splits dest!: Cons.IH) (use Cons.prems(2) in auto)
qed simp

lemma remove_keeps_meta:
  "removeAwarenessStates now cs aw = Inr (aw1, ch) \<Longrightarrow> aw_meta aw c \<noteq> None \<Longrightarrow> aw_meta aw1 c \<noteq> None"
  by (auto simp: removeAwarenessStates_def split: sum.splits dest: remove_states_meta)

lemma remove_ok:
  assumes "aw_ok aw"
  obtains aw1 ch where "removeAwarenessStates now cs aw = Inr (aw1, ch)" "aw_ok aw1" "clocked aw1 ch"
proof -
  obtain aw1 rs1 where "remove_states now cs aw [] = Inr (aw1, rs1)" "aw_ok aw1" "\<forall>c \<in> set rs1. aw_meta aw1 c \<noteq> None"
    using remove_states_ok [OF assms, of "[]" now cs] by auto
  then show ?thesis
    by (intro that [of aw1 "no_change\<lparr>ch_removed := rs1\<rparr>"])
      (simp_all add: removeAwarenessStates_def clocked_def change_clients_def no_change_def)
qed

lemma check_ok:
  assumes "aw_ok aw"
  shows "\<exists>aw1 chs. checkInterval J now known aw = Inr (aw1, chs) \<and> aw_ok aw1 \<and> list_all (clocked aw1) chs"
proof -
  define b where "b = (case aw_meta aw (aw_clientID aw) of None \<Rightarrow> False
      | Some (k, t) \<Rightarrow> getLocalState aw \<noteq> None \<and> outdatedTimeout \<le> 2 * (now - t))"
  obtain aw3 ch3 where s3: "(if b then setLocalState J now (getLocalState aw) aw else (aw, no_change)) = (aw3, ch3)"
    by fastforce
  have "clocked aw no_change" by (simp add: clocked_def change_clients_def no_change_def)
  then have ok3: "aw_ok aw3" "clocked aw3 ch3"
    using setLocalState_ok [OF assms, of J now "getLocalState aw"] s3 assms by (auto split: if_splits)
  obtain aw4 ch4 where d4: "removeAwarenessStates now (filter (outdated now aw3) known) aw3 = Inr (aw4, ch4)" "aw_ok aw4"
    "clocked aw4 ch4" using remove_ok [OF ok3(1)] by blast
  have "clocked aw4 ch3" using ok3(2) remove_keeps_meta [OF d4(1)] by (auto simp: clocked_def)
  moreover have "(case (getLocalState aw, aw_meta aw (aw_clientID aw)) of
        (None, _) \<Rightarrow> Inr False | (Some v, None) \<Rightarrow> Inl TypeErr
      | (Some v, Some (k, t)) \<Rightarrow> Inr (outdatedTimeout \<le> 2 * (now - t))) = Inr b"
    using assms by (auto simp: b_def aw_ok_def getLocalState_def split: option.split)
  ultimately show ?thesis using s3 d4 ok3 unfolding checkInterval_def Let_def by simp
qed

text \<open>Every change can be encoded for the others.\<close>

definition encodable :: "'v json \<Rightarrow> 'v awareness \<Rightarrow> change \<Rightarrow> bool" where
  "encodable J aw ch \<longleftrightarrow> (case encodeAwarenessUpdate J aw (change_clients ch) of Inl e \<Rightarrow> False | Inr b \<Rightarrow> True)"

lemma clocked_encodable: "clocked aw ch \<Longrightarrow> encodable J aw ch"
  by (simp add: encodable_def encode_update clocked_def)

text \<open>
  C27. awareness states are well formed, every client with a state having a clock, in the beginning
  and after every operation; and then no operation throws. Applying a well-formed update (one made of entries
  that survive the JSON writer and parser) does not throw either, and one that is not well formed leaves
  a well-formed state. The clients of every change, of the local state, by an update, by removing
  states or by the interval function, can be encoded for the others.
\<close>

theorem awareness_well_formed:
  assumes "aw_ok aw" "updates_ok J [(now, xs)]"
  shows "aw_ok (Awareness J now blank c) \<and>
    (case setLocalState J now state aw of (aw1, ch) \<Rightarrow> aw_ok aw1 \<and> encodable J aw1 ch) \<and>
    aw_ok (fst (applyAwarenessUpdate J now upd aw)) \<and>
    (case applyAwarenessUpdate J now (update_bytes J xs) aw of
       (aw1, Inl e) \<Rightarrow> False | (aw1, Inr ch) \<Rightarrow> aw_ok aw1 \<and> encodable J aw1 ch) \<and>
    (case removeAwarenessStates now cs aw of Inl e \<Rightarrow> False | Inr (aw1, ch) \<Rightarrow> aw_ok aw1 \<and> encodable J aw1 ch) \<and>
    (case checkInterval J now known aw of Inl e \<Rightarrow> False
      | Inr (aw1, chs) \<Rightarrow> aw_ok aw1 \<and> list_all (encodable J aw1) chs)"
proof (intro conjI)
  show "aw_ok (Awareness J now blank c)"
    using setLocalState_ok [of "new_awareness c" J now "Some blank"] by (simp add: Awareness_def aw_ok_def new_awareness_def)
  show "case setLocalState J now state aw of (aw1, ch) \<Rightarrow> aw_ok aw1 \<and> encodable J aw1 ch"
    using setLocalState_ok [OF assms(1), of J now state] by (simp add: split_beta clocked_encodable)
  obtain aw1 r where a: "applyAwarenessUpdate J now upd aw = (aw1, r)" by fastforce
  show "aw_ok (fst (applyAwarenessUpdate J now upd aw))" using apply_ok(1) [OF assms(1) a] by (simp add: a)
  obtain aw2 ch2 where "applyAwarenessUpdate J now (update_bytes J xs) aw = (aw2, Inr ch2)"
    using apply_update [of xs J now aw] assms(2)
    by (cases "fold (apply_entry J now) xs (aw, no_change)") (simp add: updates_ok_def)
  then show "case applyAwarenessUpdate J now (update_bytes J xs) aw of
       (aw1, Inl e) \<Rightarrow> False | (aw1, Inr ch) \<Rightarrow> aw_ok aw1 \<and> encodable J aw1 ch"
    using apply_ok [OF assms(1)] by (fastforce simp: clocked_encodable)
  obtain aw3 ch3 where "removeAwarenessStates now cs aw = Inr (aw3, ch3)" "aw_ok aw3" "clocked aw3 ch3"
    using remove_ok [OF assms(1)] by blast
  then show "case removeAwarenessStates now cs aw of Inl e \<Rightarrow> False | Inr (aw1, ch) \<Rightarrow> aw_ok aw1 \<and> encodable J aw1 ch"
    by (simp add: clocked_encodable)
  obtain aw4 chs where "checkInterval J now known aw = Inr (aw4, chs)" "aw_ok aw4" "list_all (clocked aw4) chs"
    using check_ok [OF assms(1)] by blast
  then show "case checkInterval J now known aw of Inl e \<Rightarrow> False
      | Inr (aw1, chs) \<Rightarrow> aw_ok aw1 \<and> list_all (encodable J aw1) chs"
    by (auto simp: clocked_encodable elim: list.pred_mono_strong)
qed

section \<open>Concrete updates\<close>

text \<open>States that are their own text.\<close>

definition text_json :: "jsstring json" where
  "text_json = \<lparr>jn_stringify = (\<lambda>v. case v of None \<Rightarrow> js ''null'' | Some s \<Rightarrow> s),
     jn_parse = (\<lambda>s. Inr (if s = js ''null'' then None else Some s)), jn_equal = (=)\<rparr>"

lemma text_json_ok: "json_ok text_json None" "json_ok text_json (Some (js ''{}''))"
  using string_ok_js [of "''null''"] string_ok_js [of "''{}''"] by (simp_all add: json_ok_def text_json_def)

lemma small_entry: "json_ok J s \<Longrightarrow> c < 10 \<Longrightarrow> k < 10 \<Longrightarrow> entry_ok J (c, k, s)"
  by (simp add: entry_ok_def MAX_SAFE_INTEGER_def)

definition up :: "jsstring entry" where
  "up = (2, 1, Some (js ''{}''))"

definition gone :: "jsstring entry" where
  "gone = (2, 2, None)"

lemma up_gone_ok: "updates_ok text_json [(0, [up]), (1, [gone])]" "updates_ok text_json [(5, [gone, up, gone])]"
  by (simp_all add: updates_ok_def up_def gone_def small_entry text_json_ok del: js_simps)
    (simp_all add: MAX_SAFE_INTEGER_def)

lemma awareness_converges_witness:
  "view (receive text_json [(0, [up]), (1, [gone])] (new_awareness 1)) 2 =
   view (receive text_json [(5, [gone, up, gone])] (new_awareness 3)) 2"
  using awareness_converges [of 2 "new_awareness 1" "new_awareness 3", OF _ _ up_gone_ok, of "\<lambda>_. js ''{}''"]
  by (auto simp: unheard_def new_awareness_def from_history_def up_def gone_def simp del: js_simps)

lemma awareness_idempotent_witness:
  "applyAwarenessUpdate text_json 9 (update_bytes text_json [up])
     (receive text_json [(0, [up]), (1, [gone])] (new_awareness 1)) =
   (receive text_json [(0, [up]), (1, [gone])] (new_awareness 1), Inr no_change)"
  using awareness_idempotent [OF up_gone_ok(1), of 0 "[up]" 9 "new_awareness 1"] by simp

lemma own_state_kept_witness:
  "getLocalState (fst (applyAwarenessUpdate text_json 9 (update_bytes text_json [gone])
     (Awareness text_json 0 (js ''{}'') 2))) \<noteq> None"
  by (rule own_state_kept [THEN conjunct1])
    (simp add: Awareness_def setLocalState_def Let_def getLocalState_def new_awareness_def)

lemma awareness_well_formed_witness:
  "\<exists>aw1 ch. applyAwarenessUpdate text_json 0 (update_bytes text_json [up]) (new_awareness 1) = (aw1, Inr ch) \<and>
     encodable text_json aw1 ch"
proof -
  have "aw_ok (new_awareness 1 :: jsstring awareness)" by (simp add: aw_ok_def new_awareness_def)
  moreover have "updates_ok text_json [(0, [up])]" using up_gone_ok(1) by (simp add: updates_ok_def)
  ultimately have "case applyAwarenessUpdate text_json 0 (update_bytes text_json [up]) (new_awareness 1) of
       (aw1, Inl e) \<Rightarrow> False | (aw1, Inr ch) \<Rightarrow> aw_ok aw1 \<and> encodable text_json aw1 ch"
    by (rule awareness_well_formed [THEN conjunct2, THEN conjunct2, THEN conjunct2, THEN conjunct1])
  then show ?thesis by (auto split: prod.splits sum.splits)
qed

end
