(* ===== verification/CollabAwareness.thy ===== *)
theory CollabAwareness
  imports CollabSafety YAwareness
begin

text \<open>
  The WebSocket hook with the awareness protocol in it: the three awareness operations of the hook's
  replica are the ones of \<open>YAwareness\<close>, and the \<open>change\<close> event carries the encoded states of the
  clients it names. What one page shows of a user (his name, colour and cursor) is what he set, once
  the message of his page has arrived. As the hook's listener does not ask where a change came from,
  the receiver sends it on; this ends, since what was received before changes nothing.
\<close>

section \<open>Definitions\<close>

text \<open>The body of \<open>onAwarenessChange\<close>: the update that is sent for an event, if there is one.\<close>

definition change_update :: "'v json \<Rightarrow> 'v awareness \<times> change \<Rightarrow> byte list option" where
  "change_update J r = (case r of (aw, cg) \<Rightarrow>
     if fires_change cg
     then (case encodeAwarenessUpdate J aw (change_clients cg) of Inl e \<Rightarrow> None | Inr b \<Rightarrow> Some b) else None)"

text \<open>A replica of a document, whose operations are those of \<open>ops\<close>, and awareness states; \<open>put\<close>
  sets the field \<open>user\<close> of a state.\<close>

definition awareness_replica :: "'v json \<Rightarrow> int \<Rightarrow> ('v \<Rightarrow> 'v) \<Rightarrow> 'd replica_ops \<Rightarrow> ('d \<times> 'v awareness) replica_ops" where
  "awareness_replica J now put ops =
     \<lparr>r_length = r_length ops \<circ> fst,
      r_insert = (\<lambda>i text (d, aw). map_sum id (\<lambda>d1. (d1, aw)) (r_insert ops i text d)),
      r_state = r_state ops \<circ> fst, r_sv = r_sv ops \<circ> fst, r_diff = r_diff ops \<circ> fst,
      r_apply = (\<lambda>upd (d, aw). case r_apply ops upd d of (d1, ok) \<Rightarrow> ((d1, aw), ok)),
      r_awareness = (\<lambda>upd (d, aw). case applyAwarenessUpdate J now upd aw of
          (aw1, Inl e) \<Rightarrow> ((d, aw1), None) | (aw1, Inr cg) \<Rightarrow> ((d, aw1), change_update J (aw1, cg))),
      r_setUser = (\<lambda>(d, aw). case setLocalStateField J now put aw of
          (aw1, cg) \<Rightarrow> ((d, aw1), change_update J (aw1, cg))),
      r_leave = (\<lambda>(d, aw). case removeAwarenessStates now [aw_clientID aw] aw of
          Inl e \<Rightarrow> ((d, aw), None) | Inr (aw1, cg) \<Rightarrow> ((d, aw1), change_update J (aw1, cg)))\<rparr>"

section \<open>A message of another page\<close>

lemma awareness_changed_doc [simp]: "ws_doc (awareness_changed r s) = fst r"
  by (cases r) (simp add: awareness_changed_def onAwarenessChange_def split: option.split sum.split)

lemma awareness_step_doc:
  assumes "ready_socket i OPEN s" "sk_handlers (sock s i)" "toBase64 upd = Inr b"
    "env_ops env = awareness_replica J now put ops" "ws_doc s = (d, aw)"
  shows "ws_doc (ws_step env (Text i (AwarenessIn b)) s) = (d, fst (applyAwarenessUpdate J now upd aw))"
proof -
  have b: "fromBase64 b = Inr upd" using fromBase64_toBase64 [of upd] assms(3) by auto
  obtain aw1 r where a: "applyAwarenessUpdate J now upd aw = (aw1, r)" by fastforce
  show ?thesis using assms(1,2,4,5) b a
    by (cases r) (simp_all add: ontext_def awareness_replica_def)
qed

text \<open>What setting the user's field fires, and with what.\<close>

lemma setLocalStateField_update:
  assumes "setLocalStateField J t put a = (a1, cg)" "fires_change cg"
  shows "change_clients cg = [aw_clientID a]" "aw_meta a1 (aw_clientID a) \<noteq> None" "getLocalState a1 \<noteq> None"
    "aw_clientID a1 = aw_clientID a"
  using assms
  by (auto simp: setLocalStateField_def setLocalState_def Let_def no_change_def change_clients_def fires_change_def
      getLocalState_def split: option.splits if_splits)

text \<open>
  C25. a user's state reaches the other pages. When a page sets its user's field and sends the change,
  a page that gets the message, and has nothing newer of him, shows his new state; what it shows of
  the others and its document stay as they were.
\<close>

theorem state_reaches_others:
  assumes "setLocalStateField J t put0 a = (a1, cg)" "change_update J (a1, cg) = Some upd" "toBase64 upd = Inr b"
    and "entry_ok J (entry_of a1 (aw_clientID a))"
    and "ready_socket i OPEN s" "sk_handlers (sock s i)" "env_ops env = awareness_replica J now put ops"
    and "ws_doc s = (d, aw)" "aw_clientID aw \<noteq> aw_clientID a"
    and "clock_of aw (aw_clientID a) < clock_of a1 (aw_clientID a)"
  shows "\<exists>aw1. ws_doc (ws_step env (Text i (AwarenessIn b)) s) = (d, aw1) \<and>
    view aw1 (aw_clientID a) = view a1 (aw_clientID a) \<and> (\<forall>c. c \<noteq> aw_clientID a \<longrightarrow> view aw1 c = view aw c)"
proof -
  let ?x = "entry_of a1 (aw_clientID a)"
  have f: "fires_change cg" using assms(2) by (auto simp: change_update_def split: if_splits)
  note u = setLocalStateField_update [OF assms(1) f]
  have "upd = update_bytes J [?x]"
    using assms(2) f u(1,2) encode_update [of "[aw_clientID a]" a1 J] by (simp add: change_update_def)
  moreover have "applyAwarenessUpdate J now (update_bytes J [?x]) aw =
      (let (aw1, cg) = apply_entry J now ?x (aw, no_change) in (aw1, Inr cg))"
    using apply_update [of "[?x]" J now aw] assms(4) by (simp add: MAX_SAFE_INTEGER_def)
  moreover define aw1 where "aw1 = fst (apply_entry J now ?x (aw, no_change))"
  ultimately have "ws_doc (ws_step env (Text i (AwarenessIn b)) s) = (d, aw1)"
    using awareness_step_doc [OF assms(5,6,3,7,8)] by (simp add: split_beta)
  moreover have "view aw1 (aw_clientID a) = merge_view (view aw (aw_clientID a)) (view a1 (aw_clientID a))"
    using apply_entry_view [of "aw_clientID a" aw] assms(9) by (simp add: aw1_def entry_of_def view_def)
  moreover have "view aw1 c = view aw c" if "c \<noteq> aw_clientID a" for c
    using apply_entry_other that unfolding aw1_def entry_of_def by metis
  moreover have "merge_view (view aw (aw_clientID a)) (view a1 (aw_clientID a)) = view a1 (aw_clientID a)"
    using assms(10) by (simp add: view_def)
  ultimately show ?thesis by auto
qed

text \<open>
  What a page receives about another user it sends on itself: after a message that changes
  something, every open socket of the mounted effect has sent one awareness message more.
\<close>

lemma remote_awareness_is_sent_on:
  assumes "ready_socket i OPEN s" "sk_handlers (sock s i)" "sk_mounted (sock s i)" "toBase64 upd = Inr b"
    and "env_ops env = awareness_replica J now put ops" "ws_doc s = (d, aw)" "aw_ok aw"
    and "applyAwarenessUpdate J now upd aw = (aw1, Inr cg)" "fires_change cg"
  shows "\<exists>b1. sk_sent (sock (ws_step env (Text i (AwarenessIn b)) s) i) = sk_sent (sock s i) @ [AwarenessFrame b1]"
proof -
  have b: "fromBase64 b = Inr upd" using fromBase64_toBase64 [of upd] assms(4) by auto
  obtain e where e: "encodeAwarenessUpdate J aw1 (change_clients cg) = Inr e"
    using apply_ok(2) [OF assms(7,8) refl] encode_update [of "change_clients cg" aw1 J] by (auto simp: clocked_def)
  obtain b1 where "toBase64 e = Inr b1" using fromBase64_toBase64 by blast
  with assms b e have "sk_sent (sock (ws_step env (Text i (AwarenessIn b)) s) i) = sk_sent (sock s i) @ [AwarenessFrame b1]"
    by (simp add: ontext_def awareness_replica_def change_update_def awareness_changed_def onAwarenessChange_def
        sock_def ready_socket_def push_def)
  then show ?thesis ..
qed

section \<open>Concrete pages\<close>

definition cursor_env :: "(jsstring \<times> jsstring awareness) env" where
  "cursor_env = \<lparr>env_userID = js ''bob'', env_port = js ''8080'', env_ops = awareness_replica text_json 9 id plain_ops\<rparr>"

definition cursor_page :: "(jsstring \<times> jsstring awareness) ws" where
  "cursor_page = ws_run cursor_env [Mount, Opened 0] (initial_ws (js ''editor'') (js ''hi'', Awareness text_json 0 (js ''{}'') 1))"

definition ada_awareness :: "jsstring awareness" where
  "ada_awareness = Awareness text_json 0 (js ''{}'') 2"

definition ada_set :: "jsstring awareness \<times> change" where
  "ada_set = setLocalStateField text_json 5 (\<lambda>_. js ''{ada}'') ada_awareness"

lemmas cursor_simps = setLocalState_def new_awareness_def getLocalState_def Let_def

lemma cursor_page_facts:
  "ready_socket 0 OPEN cursor_page" "sk_handlers (sock cursor_page 0)" "sk_mounted (sock cursor_page 0)"
  "ws_doc cursor_page = (js ''hi'', fst (setLocalState text_json 9 (Some (js ''{}'')) (Awareness text_json 0 (js ''{}'') 1)))"
  by (simp_all add: cursor_page_def cursor_env_def plain_simps awareness_replica_def Awareness_def cursor_simps
      setLocalStateField_def change_update_def fires_change_def no_change_def text_json_def del: js_simps)

lemma ada_facts:
  "fires_change (snd ada_set)" "change_clients (snd ada_set) = [2]"
  "entry_of (fst ada_set) 2 = (2, 1, Some (js ''{ada}''))" "aw_meta (fst ada_set) 2 \<noteq> None"
  by (simp_all add: ada_set_def ada_awareness_def Awareness_def cursor_simps setLocalStateField_def text_json_def
      fires_change_def no_change_def change_clients_def entry_of_def clock_of_def)

lemma ada_update:
  obtains upd b where "change_update text_json (fst ada_set, snd ada_set) = Some upd" "toBase64 upd = Inr b"
    "upd = update_bytes text_json [(2, 1, Some (js ''{ada}''))]"
proof -
  let ?upd = "update_bytes text_json [(2, 1, Some (js ''{ada}''))]"
  have "encodeAwarenessUpdate text_json (fst ada_set) [2] = Inr ?upd"
    using encode_update [of "[2]" "fst ada_set" text_json] ada_facts(3,4) by simp
  then have "change_update text_json (fst ada_set, snd ada_set) = Some ?upd"
    using ada_facts(1,2) by (simp add: change_update_def split_beta)
  with that fromBase64_toBase64 [of ?upd] show ?thesis by blast
qed

lemma ada_entry_ok: "entry_ok text_json (2, 1, Some (js ''{ada}''))"
  using string_ok_js [of "''{ada}''"] by (intro small_entry) (simp_all add: json_ok_def text_json_def)

lemma state_reaches_others_witness:
  "\<exists>b aw1. ws_doc (ws_step cursor_env (Text 0 (AwarenessIn b)) cursor_page) = (js ''hi'', aw1) \<and>
     view aw1 2 = (1, Some (js ''{ada}''))"
proof -
  obtain upd b where u: "change_update text_json (fst ada_set, snd ada_set) = Some upd" "toBase64 upd = Inr b"
    by (rule ada_update)
  have a: "setLocalStateField text_json 5 (\<lambda>_. js ''{ada}'') ada_awareness = (fst ada_set, snd ada_set)"
    by (simp add: ada_set_def)
  have i: "aw_clientID ada_awareness = 2" by (simp add: ada_awareness_def Awareness_def cursor_simps)
  have e: "entry_ok text_json (entry_of (fst ada_set) (aw_clientID ada_awareness))"
    using ada_entry_ok by (simp add: i ada_facts(3) del: js_simps)
  have o: "env_ops cursor_env = awareness_replica text_json 9 id plain_ops" by (simp add: cursor_env_def)
  let ?aw = "fst (setLocalState text_json 9 (Some (js ''{}'')) (Awareness text_json 0 (js ''{}'') 1))"
  have c: "aw_clientID ?aw \<noteq> aw_clientID ada_awareness" "clock_of ?aw (aw_clientID ada_awareness) = 0"
    by (simp_all add: i Awareness_def cursor_simps clock_of_def)
  have v: "view (fst ada_set) 2 = (1, Some (js ''{ada}''))"
    using ada_facts(3) by (simp add: entry_of_def view_def del: js_simps)
  have k: "clock_of ?aw (aw_clientID ada_awareness) < clock_of (fst ada_set) (aw_clientID ada_awareness)"
    using v c(2) unfolding i by (simp add: view_def del: js_simps One_nat_def)
  obtain aw1 where "ws_doc (ws_step cursor_env (Text 0 (AwarenessIn b)) cursor_page) = (js ''hi'', aw1)"
    "view aw1 (aw_clientID ada_awareness) = view (fst ada_set) (aw_clientID ada_awareness)"
    using state_reaches_others [OF a u e cursor_page_facts(1,2) o cursor_page_facts(4) c(1) k] by blast
  then show ?thesis unfolding i v by blast
qed

lemma remote_awareness_is_sent_on_witness:
  "\<exists>b b1. sk_sent (sock (ws_step cursor_env (Text 0 (AwarenessIn b)) cursor_page) 0) =
     sk_sent (sock cursor_page 0) @ [AwarenessFrame b1]"
proof -
  obtain upd b where u: "toBase64 upd = Inr b" "upd = update_bytes text_json [(2, 1, Some (js ''{ada}''))]"
    by (rule ada_update)
  let ?aw = "fst (setLocalState text_json 9 (Some (js ''{}'')) (Awareness text_json 0 (js ''{}'') 1))"
  have o: "env_ops cursor_env = awareness_replica text_json 9 id plain_ops" by (simp add: cursor_env_def)
  have ok: "aw_ok ?aw" by (simp add: aw_ok_def Awareness_def cursor_simps)
  obtain aw1 cg where a: "apply_entry text_json 9 (2, 1, Some (js ''{ada}'')) (?aw, no_change) = (aw1, cg)" by fastforce
  then have f: "fires_change cg"
    by (auto simp: apply_entry_def Awareness_def cursor_simps fires_change_def)
  have "applyAwarenessUpdate text_json 9 upd ?aw = (aw1, Inr cg)"
    using apply_update [of "[(2, 1, Some (js ''{ada}''))]" text_json 9 ?aw] ada_entry_ok a
    by (simp add: u(2) MAX_SAFE_INTEGER_def del: js_simps)
  from remote_awareness_is_sent_on [OF cursor_page_facts(1-3) u(1) o cursor_page_facts(4) ok this f]
  show ?thesis by blast
qed

end
