(* ===== verification/FrontPanels.thy ===== *)
theory FrontPanels
  imports FrontIDE FrontLanding
begin

text \<open>
  The smaller components of the page: the editor pane (\<open>EditorPane.jsx\<close>) and when its effect makes a
  new CodeMirror view, the editor of the proposal dialogue (\<open>MiniEditor.jsx\<close>), the share dialogue
  (\<open>ShareModal.jsx\<close>) with the timers of its button, and what the landing page shows. Of a CodeMirror
  view the initial text, the selection and whether it can be edited are kept; React runs an effect
  after a rendering in which one of its dependencies has changed, after the clean-up of the last.
\<close>

section \<open>The editor pane\<close>

record cm_view =
  cv_doc :: jsstring
  cv_anchor :: nat
  cv_editable :: bool

text \<open>The reference \<open>viewRef\<close>, the role the effect last ran for, and how many views are alive.\<close>

record pane =
  pane_view :: "cm_view option"
  pane_role :: "jsstring option"
  pane_live :: nat

definition initial_pane :: pane where
  "initial_pane = \<lparr>pane_view = None, pane_role = None, pane_live = 0\<rparr>"

text \<open>The effect with its early return: \<open>ready\<close> is that the container and the session's objects are there.\<close>

definition pane_effect :: "bool \<Rightarrow> jsstring \<Rightarrow> 'a doc_scheme \<Rightarrow> pane \<Rightarrow> pane" where
  "pane_effect ready role t p =
     (if \<not> ready then p
      else p\<lparr>pane_view := Some \<lparr>cv_doc = toString t CONTENT, cv_anchor = 0, cv_editable = (role = js ''editor'')\<rparr>,
             pane_live := Suc (pane_live p)\<rparr>)"

definition pane_cleanup :: "pane \<Rightarrow> pane" where
  "pane_cleanup p = (case pane_view p of
     None \<Rightarrow> p | Some v \<Rightarrow> p\<lparr>pane_view := None, pane_live := pane_live p - 1\<rparr>)"

definition EditorPane :: "bool \<Rightarrow> jsstring \<Rightarrow> 'a doc_scheme \<Rightarrow> pane \<Rightarrow> pane" where
  "EditorPane ready role t p = (if pane_role p = Some role then p
     else (pane_effect ready role t (pane_cleanup p))\<lparr>pane_role := Some role\<rparr>)"

text \<open>A sequence of renderings.\<close>

fun pane_run :: "(jsstring \<times> 'a doc_scheme) list \<Rightarrow> pane \<Rightarrow> pane" where
  "pane_run [] p = p"
| "pane_run ((role, t) # rs) p = pane_run rs (EditorPane True role t p)"

definition pane_ok :: "jsstring \<Rightarrow> pane \<Rightarrow> bool" where
  "pane_ok role p \<longleftrightarrow> pane_role p = Some role \<and> pane_live p = 1 \<and>
     (\<exists>v. pane_view p = Some v \<and> (cv_editable v \<longleftrightarrow> role = js ''editor''))"

lemma EditorPane_ok:
  "pane_ok r0 p \<or> p = initial_pane \<Longrightarrow> pane_ok role (EditorPane True role t p)"
  by (auto simp: pane_ok_def initial_pane_def EditorPane_def pane_effect_def pane_cleanup_def simp del: js_simps)

lemma pane_run_ok:
  "pane_ok r0 p \<or> p = initial_pane \<Longrightarrow> rs \<noteq> [] \<Longrightarrow> pane_ok (fst (last rs)) (pane_run rs p)"
proof (induction rs arbitrary: r0 p)
  case (Cons x rs)
  obtain role t where x: "x = (role, t)" by fastforce
  have ok: "pane_ok role (EditorPane True role t p)" using Cons.prems(1) by (rule EditorPane_ok)
  show ?case
  proof (cases "rs = []")
    case True
    with ok show ?thesis by (simp add: x)
  next
    case False
    with Cons.IH [of role "EditorPane True role t p"] ok show ?thesis by (simp add: x)
  qed
qed simp

text \<open>
  After any renderings with any roles and documents there is exactly one editor view, and it can
  be edited if and only if the current role is editor, so a user who is demoted cannot go on typing.
\<close>

theorem editor_follows_role:
  assumes "rs \<noteq> []"
  shows "\<exists>v. pane_view (pane_run rs initial_pane) = Some v \<and> pane_live (pane_run rs initial_pane) = 1 \<and>
    (cv_editable v \<longleftrightarrow> fst (last rs) = js ''editor'')"
  using pane_run_ok [of _ initial_pane, OF _ assms] by (auto simp: pane_ok_def)

lemma editor_follows_role_witness:
  "\<exists>v. pane_view (pane_run [(js ''editor'', hello), (js ''viewer'', hello)] initial_pane) = Some v \<and> \<not> cv_editable v"
  using editor_follows_role [of "[(js ''editor'', hello), (js ''viewer'', hello)]"] by auto

section \<open>The editor of the dialogue\<close>

definition MiniEditor :: "bool \<Rightarrow> jsstring option \<Rightarrow> cm_view option" where
  "MiniEditor container initialContent = (if \<not> container then None
     else let text = (case initialContent of None \<Rightarrow> [] | Some s \<Rightarrow> s)
          in Some \<lparr>cv_doc = text, cv_anchor = length text, cv_editable = True\<rparr>)"

section \<open>The share dialogue\<close>

text \<open>The state and the timers that are running; all have the same delay, so they fire in the order
  they were started.\<close>

record share =
  sh_copied :: bool
  sh_timers :: nat

datatype share_event = Written | Elapsed

definition share_step :: "share_event \<Rightarrow> share \<Rightarrow> share" where
  "share_step e s = (case e of
     Written \<Rightarrow> s\<lparr>sh_copied := True, sh_timers := Suc (sh_timers s)\<rparr>
   | Elapsed \<Rightarrow> if sh_timers s = 0 then s else s\<lparr>sh_copied := False, sh_timers := sh_timers s - 1\<rparr>)"

definition copyCode :: "jsstring \<Rightarrow> jsstring" where
  "copyCode code = code"

definition overlay_closes :: "'n \<Rightarrow> 'n \<Rightarrow> bool" where
  "overlay_closes target currentTarget \<longleftrightarrow> target = currentTarget"

definition share_label :: "share \<Rightarrow> string" where
  "share_label s = (if sh_copied s then ''Copied!'' else ''Copy Invite Code'')"

definition ShareModal :: "jsstring \<Rightarrow> share \<Rightarrow> jsstring \<times> string" where
  "ShareModal code s = (code, share_label s)"

definition share_run :: "share_event list \<Rightarrow> share" where
  "share_run es = fold share_step es \<lparr>sh_copied = False, sh_timers = 0\<rparr>"

lemma share_inv:
  "(sh_copied s \<longrightarrow> 0 < sh_timers s) \<Longrightarrow> sh_copied (fold share_step es s) \<longrightarrow> 0 < sh_timers (fold share_step es s)"
  by (induction es arbitrary: s) (auto simp: share_step_def split: share_event.splits)

lemma share_elapse:
  "sh_timers s = n \<Longrightarrow> 0 < n \<Longrightarrow> fold share_step (replicate n Elapsed) s = \<lparr>sh_copied = False, sh_timers = 0\<rparr>"
proof (induction n arbitrary: s)
  case (Suc n)
  have e: "share_step Elapsed s = \<lparr>sh_copied = False, sh_timers = n\<rparr>" using Suc.prems by (simp add: share_step_def)
  show ?case
  proof (cases n)
    case (Suc m)
    with e Suc.IH [of "share_step Elapsed s"] show ?thesis by (simp del: replicate.simps add: replicate_Suc)
  qed (simp add: e)
qed simp

text \<open>
  However often the code was copied, once the timers that are running have fired the button shows
  its own label again.
\<close>

lemma share_label_returns:
  "share_label (fold share_step (replicate (sh_timers (share_run es)) Elapsed) (share_run es)) = ''Copy Invite Code''"
proof (cases "sh_timers (share_run es) = 0")
  case True
  then show ?thesis using share_inv [of "\<lparr>sh_copied = False, sh_timers = 0\<rparr>" es]
    by (simp add: share_label_def share_run_def)
next
  case False
  then show ?thesis using share_elapse [OF refl, of "share_run es"] by (simp only: share_label_def) simp
qed

section \<open>What the landing page shows\<close>

record landing_view =
  lv_error :: "jsstring option"
  lv_create :: jsstring
  lv_join :: jsstring
  lv_disabled :: bool

definition Landing :: "landing \<Rightarrow> landing_view" where
  "Landing s = \<lparr>lv_error = (if f_error s = [] then None else Some (f_error s)),
     lv_create = (if f_loading s then js ''Creating'' @ [0x2026] else js ''Create new session''),
     lv_join = (if f_loading s then js ''Joining'' @ [0x2026] else js ''Join session''),
     lv_disabled = f_loading s\<rparr>"

text \<open>
  A click or the Enter key on the landing page always shows: either the reason nothing was sent,
  with the buttons enabled, or disabled buttons and no error while the request is out; and a request
  that fails shows its message and enables the buttons again.
\<close>

lemma landing_shows:
  assumes "handleJoin unicode s = (s1, out) \<or> handleCreate s = (s1, out)" "\<not> f_loading s"
  shows "case out of None \<Rightarrow> lv_error (Landing s1) \<noteq> None \<and> \<not> lv_disabled (Landing s1)
    | Some req \<Rightarrow> lv_error (Landing s1) = None \<and> lv_disabled (Landing s1) \<and>
        (\<forall>r msg. msg \<noteq> [] \<longrightarrow> lv_error (Landing (fst (after_reply r req (HttpError msg) s1))) = Some msg \<and>
          \<not> lv_disabled (Landing (fst (after_reply r req (HttpError msg) s1))))"
  using assms by (auto simp: handleJoin_def handleCreate_def Landing_def after_reply_def split: if_splits)

lemma landing_shows_witness:
  "lv_error (Landing (fst (handleCreate initial_landing))) = Some (js ''Enter a display name first.'')"
  using landing_shows [of id initial_landing "fst (handleCreate initial_landing)" None]
  by (auto simp: initial_landing_def handleCreate_def trim_def Landing_def)

end
