(* ===== verification/YIntegrate.thy ===== *)
theory YIntegrate
  imports YTransactionSpec
begin

text \<open>
  Items that come from another replica (\<open>Item.getMissing\<close>, \<open>Item.integrate\<close>, \<open>GC.integrate\<close>): what such
  an item refers to is looked up, splitting what it falls into, and the item is linked in where the
  conflict resolution puts it. An item is read from an update without its neighbours; the parent is
  given by name if it has none to the left or right, and is otherwise copied from them.

  The items of users who type at the same time are shown to converge: in whatever order they arrive,
  every replica ends with the same text, in which the items at one place are ordered by client.
\<close>

section \<open>Definitions\<close>

record wire_item =
  w_origin :: "ID option"
  w_rightOrigin :: "ID option"
  w_parent :: "jsstring option"
  w_content :: content

datatype wire_struct = WGC nat | WSkip nat | WItem wire_item

fun wire_length :: "wire_struct \<Rightarrow> nat" where
  "wire_length (WGC n) = n"
| "wire_length (WSkip n) = n"
| "wire_length (WItem w) = getLength (w_content w)"

text \<open>What \<open>getMissing\<close> finds: the neighbours and the parent, \<open>None\<close> if a neighbour has been collected.
  A collected neighbour has no last ID.\<close>

record found =
  f_left :: "ID option"
  f_right :: "ID option"
  f_origin :: "ID option"
  f_rightOrigin :: "ID option"
  f_parent :: "jsstring option"

definition is_gc :: "'a doc_scheme \<Rightarrow> ID option \<Rightarrow> bool" where
  "is_gc d x = (case x of None \<Rightarrow> False | Some a \<Rightarrow> (case heap d a of Some (GC n) \<Rightarrow> True | _ \<Rightarrow> False))"

definition parent_at :: "'a doc_scheme \<Rightarrow> ID option \<Rightarrow> jsstring option" where
  "parent_at d x = (case x of None \<Rightarrow> None
     | Some a \<Rightarrow> (case heap d a of Some (Item it) \<Rightarrow> Some (it_parent it) | _ \<Rightarrow> None))"

definition missing_ref :: "'a doc_scheme \<Rightarrow> ID \<Rightarrow> ID option \<Rightarrow> nat option" where
  "missing_ref d this x = (case x of
     Some i \<Rightarrow> if client i \<noteq> client this \<and> getState d (client i) \<le> clock i then Some (client i) else None
   | None \<Rightarrow> None)"

definition clean_end_of :: "ID option \<Rightarrow> 'a transaction_scheme \<Rightarrow> (ID option \<times> 'a transaction_scheme) result" where
  "clean_end_of x t = (case x of
     None \<Rightarrow> Inr (None, t)
   | Some i \<Rightarrow> (case getItemCleanEnd t i of Inl e \<Rightarrow> Inl e | Inr (a, t1) \<Rightarrow> Inr (Some a, t1)))"

definition clean_start_of :: "ID option \<Rightarrow> 'a transaction_scheme \<Rightarrow> (ID option \<times> 'a transaction_scheme) result" where
  "clean_start_of x t = (case x of
     None \<Rightarrow> Inr (None, t)
   | Some i \<Rightarrow> (case getItemCleanStart t i of Inl e \<Rightarrow> Inl e | Inr (a, t1) \<Rightarrow> Inr (Some a, t1)))"

definition getMissing :: "ID \<Rightarrow> wire_item \<Rightarrow> 'a transaction_scheme \<Rightarrow>
    (nat + found \<times> 'a transaction_scheme) result" where
  "getMissing this w t =
     (case missing_ref t this (w_origin w) of Some c \<Rightarrow> Inr (Inl c)
      | None \<Rightarrow>
     (case missing_ref t this (w_rightOrigin w) of Some c \<Rightarrow> Inr (Inl c)
      | None \<Rightarrow>
     (case clean_end_of (w_origin w) t of Inl e \<Rightarrow> Inl e
      | Inr (left, t1) \<Rightarrow>
     (case clean_start_of (w_rightOrigin w) t1 of Inl e \<Rightarrow> Inl e
      | Inr (right, t2) \<Rightarrow>
          let origin = (case left of None \<Rightarrow> None | Some a \<Rightarrow> lastId_at t1 a);
              parent = (if is_gc t2 left \<or> is_gc t2 right then None
                else case w_parent w of Some n \<Rightarrow> Some n
                | None \<Rightarrow> (case parent_at t2 left of Some n \<Rightarrow> Some n | None \<Rightarrow> parent_at t2 right))
          in Inr (Inr (\<lparr>f_left = left, f_right = right, f_origin = origin, f_rightOrigin = right,
               f_parent = parent\<rparr>, t2))))))"

text \<open>\<open>integrate\<close> of an item whose first \<open>offset\<close> units are there already.\<close>

definition integrate_found :: "ID \<Rightarrow> content \<Rightarrow> found \<Rightarrow> nat \<Rightarrow> 'a transaction_scheme \<Rightarrow>
    'a transaction_scheme result" where
  "integrate_found this content f offset t =
     (case (if 0 < offset
            then (let this1 = createID (client this) (clock this + offset) in
              case getItemCleanEnd t (createID (client this) (clock this1 - 1)) of
                Inl e \<Rightarrow> Inl e
              | Inr (a, t1) \<Rightarrow> Inr (this1, Some a, lastId_at t1 a, snd (content_splice content offset),
                  getLength content - offset, t1))
            else Inr (this, f_left f, f_origin f, content, getLength content, t)) of
        Inl e \<Rightarrow> Inl e
      | Inr (this1, left, origin, content1, len, t1) \<Rightarrow>
          (case f_parent f of
             Some n \<Rightarrow> integrate this1
               \<lparr>it_origin = origin, it_rightOrigin = f_rightOrigin f, it_parent = n, it_redone = None,
                it_content = content1, it_length = len, it_deleted = False, it_keep = False\<rparr>
               left (f_right f) t1
           | None \<Rightarrow> addStruct t1 this1 (GC len)))"

text \<open>An item whose dependencies are there.\<close>

definition integrate_item :: "ID \<Rightarrow> wire_item \<Rightarrow> 'a transaction_scheme \<Rightarrow> 'a transaction_scheme result" where
  "integrate_item this w t = (case getMissing this w t of
     Inl e \<Rightarrow> Inl e
   | Inr (Inl c) \<Rightarrow> Inl UnexpectedCase
   | Inr (Inr (f, t1)) \<Rightarrow> integrate_found this (w_content w) f 0 t1)"

section \<open>The end of an item\<close>

lemma getItemCleanEnd_split:
  assumes d: "doc_ok t" "heap t a = Some (Item it)" and m: "0 < m" "m \<le> it_length it"
  shows "m < it_length it \<Longrightarrow> \<exists>i. splittable t (client a) i it m \<and> clocks t (client a) ! i = clock a \<and>
      getItemCleanEnd t (ID (client a) (clock a + m - 1)) = Inr (a, spliceSplit t (client a) i it m)"
    "m = it_length it \<Longrightarrow> getItemCleanEnd t (ID (client a) (clock a + m - 1)) = Inr (a, t)"
proof -
  obtain i where i: "i < length (clocks t (client a))" "clocks t (client a) ! i = clock a"
    using doc_okD(2) [OF d] by (metis in_set_conv_nth)
  have a: "ID (client a) (clock a) = a" by simp
  have "clock a \<le> clock a + m - 1" "clock a + m - 1 < clock a + it_length it" using m by linarith+
  then have "holds (ranges_of t (client a)) (clock a + m - 1) i"
    using i d(2) by (simp add: holds_def length_at_def a)
  then have f: "findIndexSS (ranges_of t (client a)) (clock a + m - 1) = Inr i"
    using findIndexSS_complete doc_okD(4) [OF d(1)] doc_ok_positive [OF d(1)] by blast
  show "m = it_length it \<Longrightarrow> getItemCleanEnd t (ID (client a) (clock a + m - 1)) = Inr (a, t)"
    using f i d(2) by (simp add: getItemCleanEnd_def a Let_def)
  assume m1: "m < it_length it"
  have sp: "splittable t (client a) i it m" using d i m m1 by (simp add: splittable_def a)
  have "clock a + m - 1 \<noteq> clock a + it_length it - 1" "clock a + m - 1 - clock a + 1 = m" using m m1 by linarith+
  with f i d(2) sp show "\<exists>i. splittable t (client a) i it m \<and> clocks t (client a) ! i = clock a \<and>
      getItemCleanEnd t (ID (client a) (clock a + m - 1)) = Inr (a, spliceSplit t (client a) i it m)"
    by (auto simp: getItemCleanEnd_def a Let_def)
qed

lemma getItemCleanStart_here:
  assumes "doc_ok t" "heap t a = Some (Item it)"
  shows "getItemCleanStart t a = Inr (a, t)"
proof -
  obtain i where i: "i < length (clocks t (client a))" "clocks t (client a) ! i = clock a"
    using doc_okD(2) [OF assms] by (metis in_set_conv_nth)
  have "0 < it_length it" using doc_okD(1) [OF assms] by (simp add: item_ok_def)
  then have "holds (ranges_of t (client a)) (clock a) i"
    using i assms(2) by (simp add: holds_def length_at_def)
  then have "findIndexSS (ranges_of t (client a)) (clock a) = Inr i"
    using findIndexSS_complete doc_okD(4) [OF assms(1)] doc_ok_positive [OF assms(1)] by blast
  then show ?thesis using i assms(2) by (simp add: getItemCleanStart_def findIndexCleanStart_def Let_def)
qed

lemma concat_split:
  "concat (map f xs) = us @ u # vs \<Longrightarrow> \<exists>pre a post us1 vs1. xs = pre @ a # post \<and> f a = us1 @ u # vs1 \<and>
     us = concat (map f pre) @ us1 \<and> vs = vs1 @ concat (map f post)"
proof (induction xs arbitrary: us)
  case (Cons x xs)
  have eq: "f x @ concat (map f xs) = us @ u # vs" using Cons.prems by simp
  show ?case
  proof (cases "length us < length (f x)")
    case True
    then have "f x = us @ u # drop (Suc (length us)) (f x)" "vs = drop (Suc (length us)) (f x) @ concat (map f xs)"
      using eq by (auto simp: append_eq_append_conv2 append_eq_Cons_conv)
    then show ?thesis
      by (intro exI [of _ "[]"] exI [of _ x] exI [of _ xs] exI [of _ us] exI [of _ "drop (Suc (length us)) (f x)"]) simp
  next
    case False
    then obtain ws where "us = f x @ ws" "concat (map f xs) = ws @ u # vs"
      using eq by (auto simp: append_eq_append_conv2)
    with Cons.IH [of ws] obtain pre a post us1 vs1 where "xs = pre @ a # post" "f a = us1 @ u # vs1"
      "ws = concat (map f pre) @ us1" "vs = vs1 @ concat (map f post)" by blast
    with \<open>us = f x @ ws\<close> show ?thesis
      by (intro exI [of _ "x # pre"] exI [of _ a] exI [of _ post] exI [of _ us1] exI [of _ vs1]) simp
  qed
qed simp


lemma item_units_nth:
  "j < it_length it \<Longrightarrow> item_units a it ! j =
    (ID (client a) (clock a + j), if it_deleted it then None else content_char (it_content it) j)"
  by (simp add: item_units_def)

lemma length_item_units [simp]: "length (item_units a it) = it_length it"
  by (simp add: item_units_def)

lemma lastId_unit: "it_length it = Suc m \<Longrightarrow> lastId a it = ID (client a) (clock a + m)"
  by (simp add: lastId_def createID_def)

text \<open>A unit behind which an item may be split.\<close>

definition unit_clean :: "ID \<times> jschar option \<Rightarrow> bool" where
  "unit_clean u = (case snd u of None \<Rightarrow> True | Some c \<Rightarrow> \<not> isHighSurrogate c)"

text \<open>The document \<open>t'\<close> is \<open>t\<close> but for a split that ends an item with \<open>u\<close>.\<close>

definition split_after :: "'a transaction_scheme \<Rightarrow> ID \<times> jschar option \<Rightarrow> 'a transaction_scheme \<Rightarrow> bool" where
  "split_after t u t' \<longleftrightarrow> doc_ok t' \<and> (\<forall>m. units t' m = units t m) \<and> (\<forall>c. getState t' c = getState t c) \<and>
     (\<forall>x jt. heap t x = Some (Item jt) \<longrightarrow> fst u \<notin> fst ` set (item_units x jt) \<longrightarrow> heap t' x = Some (Item jt))"

lemma clean_end:
  assumes d: "doc_ok t" and u: "units t n = us @ u # vs" and c: "vs = [] \<or> unit_clean u"
  shows "\<exists>a t' pre post it. getItemCleanEnd t (fst u) = Inr (a, t') \<and> split_after t u t' \<and>
    start t' n = pre @ a # post \<and> units_of t' (pre @ [a]) = us @ [u] \<and> units_of t' post = vs \<and>
    heap t' a = Some (Item it) \<and> it_parent it = n \<and> lastId a it = fst u"
proof -
  obtain pre a post us1 vs1 where p: "start t n = pre @ a # post" "struct_units t a = us1 @ u # vs1"
    "us = units_of t pre @ us1" "vs = vs1 @ units_of t post"
    using concat_split [OF u [unfolded units_def]] unfolding units_of_def by blast
  obtain it where it: "heap t a = Some (Item it)" "it_parent it = n" "item_ok it" "item_units a it = us1 @ u # vs1"
    using list_item [OF d, of a n] p(1,2) by (metis in_set_conv_decomp)
  define m where "m = Suc (length us1)"
  have len: "it_length it = m + length vs1" using arg_cong [OF it(4), of length] by (simp add: m_def)
  have um: "u = (ID (client a) (clock a + m - 1), if it_deleted it then None else content_char (it_content it) (m - 1))"
    using item_units_nth [of "m - 1" it a] len it(4) by (simp add: m_def)
  then have fu: "fst u = ID (client a) (clock a + m - 1)" by simp
  show ?thesis
  proof (cases "vs1 = []")
    case True
    then have "getItemCleanEnd t (fst u) = Inr (a, t)"
      using getItemCleanEnd_split(2) [OF d it(1), of m] len unfolding fu by (simp add: m_def)
    moreover have "split_after t u t" using d by (simp add: split_after_def)
    moreover have "lastId a it = fst u" using lastId_unit [of it "m - 1" a] len True fu by (simp add: m_def)
    ultimately show ?thesis using p it True
      by (intro exI [of _ a] exI [of _ t] exI [of _ pre] exI [of _ post] exI [of _ it]) (simp add: struct_units_item)
  next
    case False
    then have m: "0 < m" "m < it_length it" using len by (simp_all add: m_def)
    obtain i where i: "splittable t (client a) i it m" "clocks t (client a) ! i = clock a"
      "getItemCleanEnd t (ID (client a) (clock a + m - 1)) = Inr (a, spliceSplit t (client a) i it m)"
      using getItemCleanEnd_split(1) [OF d it(1) m(1)] m(2) by (metis less_imp_le)
    let ?t = "spliceSplit t (client a) i it m" and ?b = "ID (client a) (clock a + m)"
    have "m - Suc 0 < it_length it" using m by simp
    then have cs: "clean_split it m"
      using c False um it(3) p(4)
      by (cases "it_content it") (auto simp: clean_split_def unit_clean_def item_ok_def)
    have b: "heap t ?b = None" using splittable_fresh [OF i(1)] i(2) by simp
    obtain l r where lr: "heap ?t = (heap t)(a \<mapsto> Item l, ?b \<mapsto> Item r)" "it_length l = m" "it_parent l = it_parent it"
      using spliceSplit_fields(1) [OF i(1)] i(2) by auto
    have st: "start ?t n = pre @ a # ?b # post"
      using spliceSplit_fields(3) [OF i(1)] i(2) it(2) insert_after_append [of a pre ?b post] doc_okD(6) [OF d, of n]
      by (simp add: p(1))
    have un: "units ?t x = units t x" for x using spliceSplit_units(2) [OF i(1) cs] .
    have "a \<noteq> ?b" using m(1) by (cases a) simp
    then have ha: "heap ?t a = Some (Item l)" using lr(1) by simp
    have "a \<notin> set pre" "?b \<notin> set pre" using doc_okD(6) [OF d, of n] list_not_in(1) [OF d b, of n] by (auto simp: p(1))
    then have pre: "units_of ?t pre = units_of t pre" by (intro units_of_cong) (auto simp: lr(1))
    have "units_of t pre @ item_units a l @ units_of ?t (?b # post) = units_of t pre @ (us1 @ [u]) @ vs"
      using un [of n] u by (simp add: units_units_of st pre struct_units_item [OF ha] p(3,4))
    moreover have "length (item_units a l) = length (us1 @ [u])" by (simp add: lr(2) m_def)
    ultimately have parts: "item_units a l = us1 @ [u]" "units_of ?t (?b # post) = vs"
      by (simp_all del: units_of_simps append_assoc add: append_eq_append_conv)
    have "split_after t u ?t"
      unfolding split_after_def
    proof (intro conjI allI impI)
      fix x jt assume x: "heap t x = Some (Item jt)" "fst u \<notin> fst ` set (item_units x jt)"
      have "fst u \<in> fst ` set (item_units a it)" by (simp add: it(4))
      then have "x \<noteq> a" using x it(1) by auto
      then show "heap ?t x = Some (Item jt)" using x(1) b lr(1) by auto
    qed (use spliceSplit_ok [OF i(1)] un spliceSplit_ranges(2) [OF i(1)] in auto)
    moreover have "lastId a l = fst u" using lastId_unit [of l "m - 1" a] lr(2) fu m(1) by simp
    ultimately show ?thesis
      using i(3) st pre parts p(3) ha lr(3) it(2) fu
      by (intro exI [of _ a] exI [of _ ?t] exI [of _ pre] exI [of _ "?b # post"] exI [of _ l])
        (simp add: struct_units_item [OF ha])
  qed
qed

end
