(* ===== verification/YConverge.thy ===== *)
theory YConverge
  imports YIntegrate "HOL-Library.Multiset"
begin

text \<open>
  Insertions that were made at the same time. Several users, each in a replica with the same text,
  insert a string each, without having seen the others'; the items then arrive everywhere, in any
  order. They are described by where in the text they were made; each replica ends with the text in
  which every gap has the strings inserted there, in the order of the clients' numbers.
\<close>

section \<open>Concurrent insertions\<close>

record conc =
  cc_client :: nat
  cc_gap :: nat
  cc_text :: jsstring

text \<open>The item of an insertion between the units \<open>g - 1\<close> and \<open>g\<close> of the text \<open>base\<close>, as it is sent; \<open>st\<close>
  gives the state of each client before.\<close>

definition cc_id :: "(nat \<Rightarrow> nat) \<Rightarrow> conc \<Rightarrow> ID" where
  "cc_id st x = ID (cc_client x) (st (cc_client x))"

definition gap_origin :: "unit_list \<Rightarrow> nat \<Rightarrow> ID option" where
  "gap_origin base g = (if g = 0 then None else Some (fst (base ! (g - 1))))"

definition gap_right :: "unit_list \<Rightarrow> nat \<Rightarrow> ID option" where
  "gap_right base g = (if g < length base then Some (fst (base ! g)) else None)"

definition cc_wire :: "jsstring \<Rightarrow> unit_list \<Rightarrow> conc \<Rightarrow> wire_item" where
  "cc_wire n base x =
     \<lparr>w_origin = gap_origin base (cc_gap x), w_rightOrigin = gap_right base (cc_gap x),
      w_parent = (if gap_origin base (cc_gap x) = None \<and> gap_right base (cc_gap x) = None then Some n else None),
      w_content = ContentString (cc_text x)\<rparr>"

definition cc_item :: "jsstring \<Rightarrow> unit_list \<Rightarrow> conc \<Rightarrow> item" where
  "cc_item n base x =
     \<lparr>it_origin = gap_origin base (cc_gap x), it_rightOrigin = gap_right base (cc_gap x), it_parent = n,
      it_redone = None, it_content = ContentString (cc_text x), it_length = length (cc_text x),
      it_deleted = False, it_keep = False\<rparr>"

definition cc_units :: "(nat \<Rightarrow> nat) \<Rightarrow> conc \<Rightarrow> unit_list" where
  "cc_units st x = new_units (cc_client x) (st (cc_client x)) (cc_text x)"

definition conc_ok :: "unit_list \<Rightarrow> conc \<Rightarrow> bool" where
  "conc_ok base x \<longleftrightarrow> cc_text x \<noteq> [] \<and> cc_gap x \<le> length base \<and>
     (0 < cc_gap x \<longrightarrow> unit_clean (base ! (cc_gap x - 1)))"

text \<open>The items arrive one after the other.\<close>

fun receive_all :: "jsstring \<Rightarrow> unit_list \<Rightarrow> (nat \<Rightarrow> nat) \<Rightarrow> conc list \<Rightarrow> 'a transaction_scheme \<Rightarrow>
    'a transaction_scheme result" where
  "receive_all n base st [] t = Inr t"
| "receive_all n base st (x # xs) t = (case integrate_item (cc_id st x) (cc_wire n base x) t of
     Inl e \<Rightarrow> Inl e | Inr t1 \<Rightarrow> receive_all n base st xs t1)"

text \<open>The text they make.\<close>

definition gap_ops :: "conc list \<Rightarrow> nat \<Rightarrow> conc list" where
  "gap_ops xs g = sort_key cc_client (filter (\<lambda>x. cc_gap x = g) xs)"

definition gap_units :: "(nat \<Rightarrow> nat) \<Rightarrow> unit_list \<Rightarrow> conc list \<Rightarrow> nat \<Rightarrow> unit_list" where
  "gap_units st base xs g = concat (map (cc_units st) (gap_ops xs g)) @ (if g < length base then [base ! g] else [])"

definition weave :: "(nat \<Rightarrow> nat) \<Rightarrow> unit_list \<Rightarrow> conc list \<Rightarrow> unit_list" where
  "weave st base xs = concat (map (gap_units st base xs) [0..<Suc (length base)])"

section \<open>Items in their gap\<close>

lemma cc_item_fields [simp]:
  "it_origin (cc_item n base x) = gap_origin base (cc_gap x)"
  "it_rightOrigin (cc_item n base x) = gap_right base (cc_gap x)" "it_parent (cc_item n base x) = n"
  "it_content (cc_item n base x) = ContentString (cc_text x)" "it_length (cc_item n base x) = length (cc_text x)"
  "\<not> it_deleted (cc_item n base x)"
  by (simp_all add: cc_item_def)

lemma cc_item_units: "item_units (cc_id st x) (cc_item n base x) = cc_units st x"
  by (simp add: item_units_def cc_units_def new_units_def cc_id_def)

lemma compareIDs_same [simp]: "compareIDs x x"
  by (cases x) (simp_all add: compareIDs_def)

lemma cc_units_Cons:
  "cc_text x \<noteq> [] \<Longrightarrow> \<exists>us. cc_units st x = (cc_id st x, Some (hd (cc_text x))) # us"
  by (cases "cc_text x") (simp_all add: cc_units_def new_units_def cc_id_def upt_conv_Cons del: upt_Suc)

text \<open>Where the units of such items stand in the list, the items do.\<close>

lemma items_in_list:
  assumes d: "doc_ok t"
  shows "start t n = pre @ post \<Longrightarrow> units_of t post = concat (map (cc_units st) xs) @ vs \<Longrightarrow>
    \<forall>x\<in>set xs. heap t (cc_id st x) = Some (Item (cc_item n base x)) \<and> cc_text x \<noteq> [] \<Longrightarrow>
    \<exists>post1. post = map (cc_id st) xs @ post1 \<and> units_of t post1 = vs"
proof (induction xs arbitrary: pre post)
  case (Cons x xs)
  obtain us where us: "cc_units st x = (cc_id st x, Some (hd (cc_text x))) # us"
    using cc_units_Cons Cons.prems(3) by (metis list.set_intros(1))
  then obtain a as where a: "post = a # as" using Cons.prems(2) by (cases post) auto
  obtain it where it: "heap t a = Some (Item it)" "item_ok it" "struct_units t a = item_units a it"
    using list_item [OF d, of a n] Cons.prems(1) a by (metis in_set_conv_decomp)
  then have "0 < it_length it" by (simp add: item_ok_def)
  then have "hd (item_units a it) = (a, snd (hd (item_units a it)))" "item_units a it \<noteq> []"
    by (simp_all add: item_units_def hd_map upt_conv_Cons del: upt_Suc)
  moreover have "item_units a it @ units_of t as = (cc_id st x, Some (hd (cc_text x))) # us @ concat (map (cc_units st) xs) @ vs"
    using Cons.prems(2) a it(3) us by simp
  ultimately have ax: "a = cc_id st x" by (cases "item_units a it") auto
  then have "struct_units t a = cc_units st x" using Cons.prems(3) by (simp add: struct_units_item cc_item_units)
  then have "units_of t as = concat (map (cc_units st) xs) @ vs" using Cons.prems(2) a by simp
  with Cons.IH [of "pre @ [a]" as] Cons.prems(1,3) a ax show ?case by auto
qed simp

lemma conflict_loop_sorted:
  assumes "\<forall>x\<in>set xs. heap d (cc_id st x) = Some (Item (cc_item n base x)) \<and> cc_gap x = g \<and>
      Some (cc_id st x) \<noteq> hd_opt post"
    and "it_origin it = gap_origin base g" "it_rightOrigin it = gap_right base g"
    and "sorted (map cc_client xs)" "client this \<notin> cc_client ` set xs"
  shows "conflict_loop d this it (hd_opt post) (map (cc_id st) xs @ post) left cs bs =
    Inr (case takeWhile (\<lambda>x. cc_client x < client this) xs of [] \<Rightarrow> left | ys \<Rightarrow> Some (cc_id st (last ys)))"
  using assms(1,4,5)
proof (induction xs arbitrary: left cs bs)
  case Nil
  then show ?case by (cases post) simp_all
next
  case (Cons x xs)
  have c: "client (cc_id st x) = cc_client x" by (simp add: cc_id_def)
  show ?case
  proof (cases "cc_client x < client this")
    case True
    with Cons show ?thesis
      by (auto simp: c assms(2) Let_def split: list.splits)
  next
    case False
    with Cons.prems show ?thesis by (simp add: c assms(2,3) Let_def)
  qed
qed

lemma resolve_sorted:
  assumes d: "doc_ok t" and st: "start t (it_parent it) = pre @ map (cc_id st) xs @ post"
    and xs: "\<forall>x\<in>set xs. heap t (cc_id st x) = Some (Item (cc_item n base x)) \<and> cc_gap x = g"
    and it: "it_origin it = gap_origin base g" "it_rightOrigin it = gap_right base g"
    and s: "sorted (map cc_client xs)" "client this \<notin> cc_client ` set xs"
  shows "resolve_left t this it (last_opt pre) (hd_opt post) =
    Inr (last_opt (pre @ map (cc_id st) (takeWhile (\<lambda>x. cc_client x < client this) xs)))"
proof -
  let ?ids = "map (cc_id st) xs" and ?tw = "takeWhile (\<lambda>x. cc_client x < client this) xs"
  have dist: "distinct (pre @ ?ids @ post)" using doc_okD(6) [OF d] st by metis
  then have ne: "\<forall>x\<in>set xs. Some (cc_id st x) \<noteq> hd_opt post" by (cases post) auto
  have last: "(case ?tw of [] \<Rightarrow> last_opt pre | ys \<Rightarrow> Some (cc_id st (last ys))) = last_opt (pre @ map (cc_id st) ?tw)"
    by (cases ?tw) (auto simp: last_opt_def last_map)
  have rest: "(case last_opt pre of None \<Rightarrow> pre @ ?ids @ post | Some l \<Rightarrow> tl (from_on l (pre @ ?ids @ post))) = ?ids @ post"
    using dist by (cases pre rule: rev_cases) (simp_all add: from_on_append)
  have "xs = []" if "\<not> has_conflict (pre @ ?ids @ post) (last_opt pre) (hd_opt post)"
  proof (rule ccontr)
    assume "xs \<noteq> []"
    then obtain y ys where y: "xs = ys @ [y]" by (metis rev_exhaust)
    show False
    proof (cases pre rule: rev_cases)
      case Nil
      show False
      proof (cases post)
        case (Cons a as)
        then have "prev_in a (?ids @ post) = Some (cc_id st y)"
          using prev_in_append [of ?ids a as] dist Nil y by simp
        then show False using that Nil Cons by (simp add: has_conflict_def)
      qed (use that Nil in \<open>simp add: has_conflict_def\<close>)
    next
      case (snoc qs l)
      then have "next_in l (pre @ ?ids @ post) = hd_opt (?ids @ post)"
        using dist next_in_append [of l qs "?ids @ post"] by simp
      with that snoc ne \<open>xs \<noteq> []\<close> show False by (cases xs) (auto simp: has_conflict_def)
    qed
  qed
  moreover have "conflict_loop t this it (hd_opt post) (?ids @ post) (last_opt pre) [] [] =
      Inr (last_opt (pre @ map (cc_id st) ?tw))"
    using conflict_loop_sorted [of xs t st n base g post it this "last_opt pre" "[]" "[]"] xs ne it s
    unfolding last [symmetric] by simp
  ultimately show ?thesis
    unfolding resolve_left_def st Let_def rest by auto
qed


section \<open>One more item\<close>

definition conc_inv :: "jsstring \<Rightarrow> unit_list \<Rightarrow> (nat \<Rightarrow> nat) \<Rightarrow> conc list \<Rightarrow> 'a transaction_scheme \<Rightarrow> bool" where
  "conc_inv n base st xs t \<longleftrightarrow> doc_ok t \<and> units t n = weave st base xs \<and>
     (\<forall>x\<in>set xs. heap t (cc_id st x) = Some (Item (cc_item n base x)) \<and> cc_text x \<noteq> []) \<and>
     (\<forall>c. c \<notin> cc_client ` set xs \<longrightarrow> getState t c = st c) \<and> distinct (map cc_client xs)"

lemma gap_ops_set: "set (gap_ops xs g) = {x \<in> set xs. cc_gap x = g}"
  by (simp add: gap_ops_def)

lemma gap_ops_sorted: "sorted (map cc_client (gap_ops xs g))"
  by (simp add: gap_ops_def)

lemma gap_ops_Cons:
  assumes "distinct (map cc_client (x # xs))"
  shows "gap_ops (x # xs) g = (if cc_gap x = g
    then takeWhile (\<lambda>y. cc_client y < cc_client x) (gap_ops xs g) @ x #
      dropWhile (\<lambda>y. cc_client y < cc_client x) (gap_ops xs g)
    else gap_ops xs g)"
proof -
  have "insort_key cc_client x ys = takeWhile (\<lambda>y. cc_client y < cc_client x) ys @ x #
      dropWhile (\<lambda>y. cc_client y < cc_client x) ys" if "cc_client x \<notin> cc_client ` set ys" for ys
    using that by (induction ys) (auto simp: less_le)
  moreover have "cc_client x \<notin> cc_client ` set (gap_ops xs g)" using assms by (auto simp: gap_ops_set)
  ultimately show ?thesis by (simp add: gap_ops_def)
qed

text \<open>A text around the gap \<open>g\<close>.\<close>

definition before_gap :: "(nat \<Rightarrow> nat) \<Rightarrow> unit_list \<Rightarrow> conc list \<Rightarrow> nat \<Rightarrow> unit_list" where
  "before_gap st base xs g = concat (map (gap_units st base xs) [0..<g])"

definition after_gap :: "(nat \<Rightarrow> nat) \<Rightarrow> unit_list \<Rightarrow> conc list \<Rightarrow> nat \<Rightarrow> unit_list" where
  "after_gap st base xs g = (if g < length base then [base ! g] else []) @
     concat (map (gap_units st base xs) [Suc g..<Suc (length base)])"

lemma weave_at:
  assumes "g \<le> length base"
  shows "weave st base xs = before_gap st base xs g @ concat (map (cc_units st) (gap_ops xs g)) @ after_gap st base xs g"
proof -
  have "[0..<Suc (length base)] = [0..<g] @ g # [Suc g..<Suc (length base)]"
    using upt_add_eq_append [of 0 g "Suc (length base) - g"] assms by (simp add: upt_conv_Cons del: upt_Suc)
  then show ?thesis by (simp add: weave_def before_gap_def after_gap_def gap_units_def del: upt_Suc)
qed

lemma before_gap_last:
  assumes "0 < g" "g \<le> length base"
  shows "\<exists>us. before_gap st base xs g = us @ [base ! (g - 1)]"
  using assms by (cases g) (simp_all add: before_gap_def gap_units_def)

lemma after_gap_hd: "g < length base \<Longrightarrow> \<exists>us. after_gap st base xs g = base ! g # us"
  by (simp add: after_gap_def)

lemma after_gap_end: "after_gap st base xs (length base) = []"
  by (simp add: after_gap_def)

lemma gaps_Cons:
  assumes "distinct (map cc_client (x # xs))"
  shows "before_gap st base (x # xs) (cc_gap x) = before_gap st base xs (cc_gap x)"
    "after_gap st base (x # xs) (cc_gap x) = after_gap st base xs (cc_gap x)"
proof -
  have "gap_units st base (x # xs) g = gap_units st base xs g" if "g \<noteq> cc_gap x" for g
    using that gap_ops_Cons [OF assms, of g] by (simp add: gap_units_def)
  then show "before_gap st base (x # xs) (cc_gap x) = before_gap st base xs (cc_gap x)"
    "after_gap st base (x # xs) (cc_gap x) = after_gap st base xs (cc_gap x)"
    unfolding before_gap_def after_gap_def by (auto intro!: arg_cong [where f = concat] simp del: upt_Suc)
qed

lemma weave_Cons:
  assumes "distinct (map cc_client (x # xs))" "cc_gap x \<le> length base"
  shows "weave st base (x # xs) = before_gap st base xs (cc_gap x) @
    concat (map (cc_units st) (takeWhile (\<lambda>y. cc_client y < cc_client x) (gap_ops xs (cc_gap x)))) @ cc_units st x @
    concat (map (cc_units st) (dropWhile (\<lambda>y. cc_client y < cc_client x) (gap_ops xs (cc_gap x)))) @
    after_gap st base xs (cc_gap x)"
  using weave_at [OF assms(2), of st "x # xs"] gaps_Cons [OF assms(1)] gap_ops_Cons [OF assms(1), of "cc_gap x"]
  by simp

text \<open>The left neighbour, the item that ends where the gap begins.\<close>

lemma left_of_gap:
  assumes d: "doc_ok t" and u: "units t n = us @ vs" and g: "us = [] \<longleftrightarrow> g = 0" "0 < g \<longrightarrow> last us = base ! (g - 1)"
    and c: "0 < g \<longrightarrow> unit_clean (base ! (g - 1))"
  shows "\<exists>left t1 pre post. clean_end_of (gap_origin base g) t = Inr (left, t1) \<and> left = last_opt pre \<and>
    doc_ok t1 \<and> (\<forall>m. units t1 m = units t m) \<and> (\<forall>c. getState t1 c = getState t c) \<and>
    (\<forall>x jt. heap t x = Some (Item jt) \<longrightarrow> (0 < g \<longrightarrow> fst (base ! (g - 1)) \<notin> fst ` set (item_units x jt)) \<longrightarrow>
       heap t1 x = Some (Item jt)) \<and>
    start t1 n = pre @ post \<and> units_of t1 pre = us \<and> units_of t1 post = vs \<and>
    (case left of None \<Rightarrow> None | Some a \<Rightarrow> lastId_at t1 a) = gap_origin base g \<and>
    \<not> is_gc t1 left \<and> parent_at t1 left = (if g = 0 then None else Some n)"
proof (cases "g = 0")
  case True
  have "units t n = units_of t (start t n)" by (simp add: units_units_of)
  then show ?thesis using d u True g(1)
    by (intro exI [of _ None] exI [of _ t] exI [of _ "[]"] exI [of _ "start t n"])
      (simp add: gap_origin_def clean_end_of_def is_gc_def parent_at_def)
next
  case False
  then obtain us1 where us: "us = us1 @ [base ! (g - 1)]" using g by (metis append_butlast_last_id neq0_conv)
  let ?u = "base ! (g - 1)"
  obtain a t' pre post it where e: "getItemCleanEnd t (fst ?u) = Inr (a, t')" "split_after t ?u t'"
    "start t' n = pre @ a # post" "units_of t' (pre @ [a]) = us1 @ [?u]" "units_of t' post = vs"
    "heap t' a = Some (Item it)" "it_parent it = n" "lastId a it = fst ?u"
    using clean_end [OF d, of n us1 ?u vs] u us c False by auto
  show ?thesis using e False us
    by (intro exI [of _ "Some a"] exI [of _ t'] exI [of _ "pre @ [a]"] exI [of _ post])
      (auto simp: gap_origin_def clean_end_of_def is_gc_def parent_at_def split_after_def lastId_at_def)
qed


lemma first_item:
  assumes d: "doc_ok t" and st: "start t n = pre @ post" and u: "units_of t post = vs"
  shows "vs = [] \<Longrightarrow> post = []"
    "vs = v # vs1 \<Longrightarrow> \<exists>as it. post = fst v # as \<and> heap t (fst v) = Some (Item it) \<and> it_parent it = n"
proof -
  have i: "\<exists>it. heap t a = Some (Item it) \<and> it_parent it = n \<and> struct_units t a \<noteq> [] \<and> fst (hd (struct_units t a)) = a"
    if "post = a # as" for a as
  proof -
    have "a \<in> set (start t n)" using st that by simp
    from list_item [OF d this] obtain it where it: "heap t a = Some (Item it)" "it_parent it = n" "item_ok it"
      "struct_units t a = item_units a it" by blast
    then have l: "0 < it_length it" by (simp add: item_ok_def)
    then have ne: "item_units a it \<noteq> []" by (simp add: item_units_def)
    have "fst (hd (item_units a it)) = a" using item_units_nth [OF l, of a] ne by (simp add: hd_conv_nth)
    then show ?thesis using it(1,2) ne unfolding it(4) by blast
  qed
  show "post = []" if "vs = []" using i u that by (cases post) auto
  show "\<exists>as it. post = fst v # as \<and> heap t (fst v) = Some (Item it) \<and> it_parent it = n" if v: "vs = v # vs1"
  proof (cases post)
    case (Cons a as)
    from i [OF this] obtain it where it: "heap t a = Some (Item it)" "it_parent it = n" "struct_units t a \<noteq> []"
      "fst (hd (struct_units t a)) = a" by blast
    have "hd (struct_units t a) = v" using u v Cons it(3) by (cases "struct_units t a") auto
    then show ?thesis using it Cons by auto
  qed (use u v in simp)
qed

lemma missing_ref_known: "(\<And>i. x = Some i \<Longrightarrow> clock i < getState d (client i)) \<Longrightarrow> missing_ref d a x = None"
  by (cases x) (auto simp: missing_ref_def)

lemma conc_step:
  assumes inv: "conc_inv n base st xs t" and x: "conc_ok base x" "cc_client x \<notin> cc_client ` set xs"
    and base: "\<forall>u\<in>set base. clock (fst u) < st (client (fst u))"
    and known: "\<forall>u\<in>set base. clock (fst u) < getState t (client (fst u))"
  shows "\<exists>t1. integrate_item (cc_id st x) (cc_wire n base x) t = Inr t1 \<and> conc_inv n base st (x # xs) t1 \<and>
    (\<forall>m. m \<noteq> n \<longrightarrow> units t1 m = units t m) \<and> (\<forall>c. getState t c \<le> getState t1 c)"
proof -
  let ?g = "cc_gap x" and ?me = "cc_id st x"
  let ?ops = "gap_ops xs ?g"
  let ?tw = "takeWhile (\<lambda>y. cc_client y < cc_client x) ?ops" and ?dw = "dropWhile (\<lambda>y. cc_client y < cc_client x) ?ops"
  have d: "doc_ok t" and u: "units t n = weave st base xs" and g: "?g \<le> length base"
    and h: "\<forall>y\<in>set xs. heap t (cc_id st y) = Some (Item (cc_item n base y)) \<and> cc_text y \<noteq> []"
    using inv x(1) by (simp_all add: conc_inv_def conc_ok_def)
  have dist: "distinct (map cc_client (x # xs))" using inv x(2) by (simp add: conc_inv_def)
  have bg: "before_gap st base xs ?g = [] \<longleftrightarrow> ?g = 0" "0 < ?g \<longrightarrow> last (before_gap st base xs ?g) = base ! (?g - 1)"
    using before_gap_last [of ?g base st xs] g by (cases "?g = 0", auto simp: before_gap_def [of st base xs 0])+
  have uw: "units t n = before_gap st base xs ?g @ (concat (map (cc_units st) ?ops) @ after_gap st base xs ?g)"
    unfolding u by (rule weave_at [OF g])
  have uc: "0 < ?g \<longrightarrow> unit_clean (base ! (?g - 1))" using x(1) by (simp add: conc_ok_def)
  obtain left t1 pre post where l: "clean_end_of (gap_origin base ?g) t = Inr (left, t1)" "left = last_opt pre"
    "doc_ok t1" "\<forall>m. units t1 m = units t m" "\<forall>c. getState t1 c = getState t c"
    "\<forall>y jt. heap t y = Some (Item jt) \<longrightarrow> (0 < ?g \<longrightarrow> fst (base ! (?g - 1)) \<notin> fst ` set (item_units y jt)) \<longrightarrow>
       heap t1 y = Some (Item jt)"
    "start t1 n = pre @ post" "units_of t1 pre = before_gap st base xs ?g"
    "units_of t1 post = concat (map (cc_units st) ?ops) @ after_gap st base xs ?g"
    "(case left of None \<Rightarrow> None | Some a \<Rightarrow> lastId_at t1 a) = gap_origin base ?g"
    "\<not> is_gc t1 left" "parent_at t1 left = (if ?g = 0 then None else Some n)"
    using left_of_gap [OF d uw bg uc] by - (elim exE conjE, rule that, assumption+)
  have other: "fst (base ! (?g - 1)) \<notin> fst ` set (item_units (cc_id st y) (cc_item n base y))" if "0 < ?g" for y
  proof -
    have "base ! (?g - 1) \<in> set base" using g that by simp
    then show ?thesis using base by (force simp: cc_item_units cc_units_def new_units_def)
  qed
  then have h1: "\<forall>y\<in>set xs. heap t1 (cc_id st y) = Some (Item (cc_item n base y)) \<and> cc_text y \<noteq> []"
    using h l(6) by blast
  obtain post1 where post1: "post = map (cc_id st) ?ops @ post1" "units_of t1 post1 = after_gap st base xs ?g"
    using items_in_list [OF l(3,7,9), of base] h1 by (auto simp: gap_ops_set)
  have right: "gap_right base ?g = hd_opt post1" "clean_start_of (gap_right base ?g) t1 = Inr (hd_opt post1, t1)"
    "\<not> is_gc t1 (hd_opt post1)" "?g < length base \<Longrightarrow> parent_at t1 (hd_opt post1) = Some n"
  proof -
    have sp: "start t1 n = (pre @ map (cc_id st) ?ops) @ post1" using l(7) post1(1) by simp
    have "gap_right base ?g = hd_opt post1 \<and> clean_start_of (gap_right base ?g) t1 = Inr (hd_opt post1, t1) \<and>
      \<not> is_gc t1 (hd_opt post1) \<and> (?g < length base \<longrightarrow> parent_at t1 (hd_opt post1) = Some n)"
    proof (cases "?g < length base")
      case True
      then obtain us where "after_gap st base xs ?g = base ! ?g # us" using after_gap_hd by blast
      from first_item(2) [OF l(3) sp post1(2) this] obtain as it where
        i: "post1 = fst (base ! ?g) # as" "heap t1 (fst (base ! ?g)) = Some (Item it)" "it_parent it = n" by blast
      then show ?thesis using True getItemCleanStart_here [OF l(3) i(2)]
        by (simp add: gap_right_def clean_start_of_def is_gc_def parent_at_def)
    next
      case False
      then have "after_gap st base xs ?g = []" using g after_gap_end [of st base xs] by simp
      from first_item(1) [OF l(3) sp post1(2) this] False show ?thesis
        by (simp add: gap_right_def clean_start_of_def is_gc_def)
    qed
    then show "gap_right base ?g = hd_opt post1" "clean_start_of (gap_right base ?g) t1 = Inr (hd_opt post1, t1)"
      "\<not> is_gc t1 (hd_opt post1)" "?g < length base \<Longrightarrow> parent_at t1 (hd_opt post1) = Some n" by blast+
  qed
  have miss: "missing_ref t ?me (gap_origin base ?g) = None" "missing_ref t ?me (gap_right base ?g) = None"
    by (rule missing_ref_known, use known g in \<open>auto simp: gap_origin_def gap_right_def split: if_splits\<close>)+
  have gm: "getMissing ?me (cc_wire n base x) t = Inr (Inr (\<lparr>f_left = left, f_right = hd_opt post1,
      f_origin = gap_origin base ?g, f_rightOrigin = gap_right base ?g, f_parent = Some n\<rparr>, t1))"
    using miss l(1,10,11,12) right g
    by (auto simp: getMissing_def cc_wire_def Let_def gap_origin_def gap_right_def split: if_splits)
  have "integrate_item ?me (cc_wire n base x) t = integrate ?me (cc_item n base x) left (hd_opt post1) t1"
    by (simp add: integrate_item_def gm integrate_found_def cc_item_def) (simp add: cc_wire_def)
  moreover have st1: "start t1 (it_parent (cc_item n base x)) = (pre @ map (cc_id st) ?tw) @ (map (cc_id st) ?dw @ post1)"
    using l(7) post1(1) by (simp flip: map_append)
  have c: "client ?me = cc_client x" by (simp add: cc_id_def)
  have "resolve_left t1 ?me (cc_item n base x) left (hd_opt post1) = Inr (last_opt (pre @ map (cc_id st) ?tw))"
    unfolding l(2) c [symmetric]
  proof (rule resolve_sorted [OF l(3)])
    show "start t1 (it_parent (cc_item n base x)) = pre @ map (cc_id st) ?ops @ post1" using l(7) post1(1) by simp
    show "\<forall>y\<in>set ?ops. heap t1 (cc_id st y) = Some (Item (cc_item n base y)) \<and> cc_gap y = ?g"
      using h1 by (simp add: gap_ops_set)
    show "client ?me \<notin> cc_client ` set ?ops" using x(2) by (auto simp: c gap_ops_set)
  qed (simp_all add: gap_ops_sorted)
  moreover have ck: "clock ?me = getState t1 (client ?me)"
    using inv x(2) l(5) by (simp add: conc_inv_def cc_id_def)
  ultimately obtain t2 where t2: "integrate_item ?me (cc_wire n base x) t = Inr t2"
    "linked t1 ?me (cc_item n base x) (pre @ map (cc_id st) ?tw) (map (cc_id st) ?dw @ post1) t2"
    using integrate_string [OF _ st1 l(3) ck, of left "hd_opt post1" "cc_text x"] by auto
  have fresh: "heap t1 ?me = None" using getState_fresh [OF l(3)] ck by simp
  have ok: "item_ok (cc_item n base x)" using x(1) by (simp add: item_ok_def conc_ok_def)
  note lk = linked_ok [OF t2(2) l(3) ck st1 ok] and lu = linked_units [OF t2(2) l(3) fresh st1]
  have uo: "units_of t1 (map (cc_id st) ys) = concat (map (cc_units st) ys)" if "set ys \<subseteq> set xs" for ys
    using that h1 by (induction ys) (auto simp: struct_units_item cc_item_units)
  have "set ?tw \<subseteq> set xs" "set ?dw \<subseteq> set xs" by (auto simp: gap_ops_set dest: set_takeWhileD set_dropWhileD)
  note uo2 = uo [OF this(1)] uo [OF this(2)]
  have "units t2 n = weave st base (x # xs)"
    using lu(1) l(8) post1(2) weave_Cons [OF dist g] by (simp add: uo2 cc_item_units)
  moreover have "heap t2 (cc_id st y) = Some (Item (cc_item n base y)) \<and> cc_text y \<noteq> []" if "y \<in> set (x # xs)" for y
    using that t2(2) h1 fresh x(1) by (auto simp: linked_def conc_ok_def)
  moreover have "getState t2 c = st c" if "c \<notin> cc_client ` set (x # xs)" for c
    using that lk(2) l(5) inv c by (auto simp: conc_inv_def)
  ultimately have "conc_inv n base st (x # xs) t2" using lk(1) dist unfolding conc_inv_def by blast
  moreover have "\<forall>m. m \<noteq> n \<longrightarrow> units t2 m = units t m" using lu(2) l(4) by simp
  moreover have "\<forall>c. getState t c \<le> getState t2 c" using lk(2) l(5) by simp
  ultimately show ?thesis using t2(1) by blast
qed

section \<open>All of them\<close>

lemma gap_ops_none: "g \<notin> cc_gap ` set xs \<Longrightarrow> gap_ops xs g = []"
  using gap_ops_set [of xs g] by (metis (mono_tags, lifting) Collect_empty_eq image_eqI set_empty)

lemma weave_plain:
  "b \<le> length base \<Longrightarrow> \<forall>g. a \<le> g \<and> g < b \<longrightarrow> g \<notin> cc_gap ` set xs \<Longrightarrow>
   concat (map (gap_units st base xs) [a..<b]) = take (b - a) (drop a base)"
proof (induction b)
  case (Suc b)
  show ?case
  proof (cases "a \<le> b")
    case True
    then have "gap_units st base xs b = [base ! b]" using Suc.prems by (simp add: gap_units_def gap_ops_none)
    moreover have "take (Suc b - a) (drop a base) = take (b - a) (drop a base) @ [base ! b]"
      using True Suc.prems(1) by (simp add: Suc_diff_le take_Suc_conv_app_nth)
    ultimately show ?thesis using Suc True by simp
  next
    case False
    then show ?thesis by simp
  qed
qed simp

lemma weave_none: "weave st base [] = base"
  using weave_plain [of "length base" base 0 "[]" st] by (simp add: weave_def gap_units_def gap_ops_def)

lemma gap_ops_mset:
  assumes "mset xs = mset ys" "distinct (map cc_client xs)"
  shows "gap_ops xs g = gap_ops ys g"
proof -
  have "mset (filter (\<lambda>x. cc_gap x = g) xs) = mset (filter (\<lambda>x. cc_gap x = g) ys)"
    using assms(1) by (simp only: mset_filter)
  moreover have "inj_on cc_client (set (filter (\<lambda>x. cc_gap x = g) xs))"
    using assms(2) by (auto simp: distinct_map intro: inj_on_subset)
  ultimately show ?thesis unfolding gap_ops_def by (intro sort_key_inj_key_eq) simp_all
qed

lemma weave_mset: "mset xs = mset ys \<Longrightarrow> distinct (map cc_client xs) \<Longrightarrow> weave st base xs = weave st base ys"
  by (simp add: weave_def gap_units_def [abs_def] gap_ops_mset cong: map_cong)

lemma units_known:
  assumes "doc_ok t" "u \<in> set (units t n)"
  shows "clock (fst u) < getState t (client (fst u))"
proof -
  obtain a where a: "a \<in> set (start t n)" "u \<in> set (struct_units t a)" using assms(2) by (auto simp: units_def)
  obtain it where it: "heap t a = Some (Item it)" "struct_units t a = item_units a it"
    using list_item [OF assms(1) a(1)] by blast
  have "clock a + it_length it \<le> getState t (client a)" using struct_end [OF assms(1) it(1)] by simp
  then show ?thesis using a(2) it(2) by (auto simp: item_units_def)
qed

lemma conc_inv_start: "doc_ok t \<Longrightarrow> units t n = base \<Longrightarrow> \<forall>c. getState t c = st c \<Longrightarrow> conc_inv n base st [] t"
  by (simp add: conc_inv_def weave_none)

lemma receive_all_inv:
  assumes base: "\<forall>u\<in>set base. clock (fst u) < st (client (fst u))"
  shows "conc_inv n base st xs t \<Longrightarrow> \<forall>u\<in>set base. clock (fst u) < getState t (client (fst u)) \<Longrightarrow>
    \<forall>y\<in>set ys. conc_ok base y \<Longrightarrow> distinct (map cc_client (ys @ xs)) \<Longrightarrow>
    \<exists>t1. receive_all n base st ys t = Inr t1 \<and> conc_inv n base st (rev ys @ xs) t1 \<and>
      (\<forall>m. m \<noteq> n \<longrightarrow> units t1 m = units t m)"
proof (induction ys arbitrary: xs t)
  case (Cons y ys)
  obtain t1 where t1: "integrate_item (cc_id st y) (cc_wire n base y) t = Inr t1" "conc_inv n base st (y # xs) t1"
    "\<forall>m. m \<noteq> n \<longrightarrow> units t1 m = units t m" "\<forall>c. getState t c \<le> getState t1 c"
    using conc_step [OF Cons.prems(1) _ _ base Cons.prems(2), of y] Cons.prems(3,4) by auto
  have "\<forall>u\<in>set base. clock (fst u) < getState t1 (client (fst u))"
    using Cons.prems(2) t1(4) by (meson order_less_le_trans)
  from Cons.IH [OF t1(2) this] Cons.prems(3,4) t1(1,3) show ?case by auto
qed simp

text \<open>
  C5. insertions made at the same time converge: whatever strings the users of one text inserted at
  whatever places, each without having seen the others', every replica that receives them all has
  the same text, in which each gap has its strings in the order of the clients' numbers, in whatever
  order they arrived, and however its items were split or merged before.
\<close>

theorem concurrent_inserts_converge:
  assumes "doc_ok t" "doc_ok t'" "units t' n = units t n" "\<forall>c. getState t' c = getState t c"
    and "\<forall>x\<in>set xs. conc_ok (units t n) x" "distinct (map cc_client xs)" "mset ys = mset xs"
  shows "\<exists>t1 t1'. receive_all n (units t n) (getState t) xs t = Inr t1 \<and>
    receive_all n (units t n) (getState t) ys t' = Inr t1' \<and> doc_ok t1 \<and> doc_ok t1' \<and>
    units t1 n = weave (getState t) (units t n) xs \<and> units t1' n = units t1 n \<and>
    toString t1' n = toString t1 n"
proof -
  let ?base = "units t n" and ?st = "getState t"
  have known: "\<forall>u\<in>set ?base. clock (fst u) < ?st (client (fst u))" using units_known [OF assms(1)] by blast
  have "set ys = set xs" "distinct (map cc_client ys)"
    using assms(6,7) by (metis mset_eq_setD, metis mset_eq_imp_distinct_iff mset_map)
  then have r: "\<exists>t1. receive_all n ?base ?st zs s = Inr t1 \<and> doc_ok t1 \<and> units t1 n = weave ?st ?base xs"
    if "conc_inv n ?base ?st [] s" "\<forall>u\<in>set ?base. clock (fst u) < getState s (client (fst u))" "zs = xs \<or> zs = ys" for s zs
  proof -
    have "\<forall>y\<in>set zs. conc_ok ?base y" "distinct (map cc_client (zs @ []))" "mset (rev zs @ []) = mset xs"
      using that(3) assms(5,6,7) \<open>set ys = set xs\<close> \<open>distinct (map cc_client ys)\<close> by auto
    from receive_all_inv [OF known that(1,2) this(1,2)] weave_mset [OF this(3) [symmetric] assms(6)]
    show ?thesis by (auto simp: conc_inv_def)
  qed
  obtain t1 where t1: "receive_all n ?base ?st xs t = Inr t1" "doc_ok t1" "units t1 n = weave ?st ?base xs"
    using r [OF conc_inv_start [OF assms(1)]] known by auto
  obtain t1' where t1': "receive_all n ?base ?st ys t' = Inr t1'" "doc_ok t1'" "units t1' n = weave ?st ?base xs"
    using r [of t' ys, OF conc_inv_start [OF assms(2-4)]] known assms(4) by auto
  show ?thesis using t1 t1' by (intro exI [of _ t1] exI [of _ t1']) (simp add: toString_units)
qed

text \<open>Three users type into \<open>hello\<close>, two of them at its end.\<close>

definition three_users :: "conc list" where
  "three_users = [\<lparr>cc_client = 9, cc_gap = 5, cc_text = js ''!''\<rparr>, \<lparr>cc_client = 3, cc_gap = 0, cc_text = js ''oh ''\<rparr>,
     \<lparr>cc_client = 8, cc_gap = 5, cc_text = js '' you''\<rparr>]"

lemma hello_units: "units hello CONTENT = zip (map (ID 7) [0..<5]) (map Some (js ''hello''))"
  by (simp add: hello_ok(2) new_units_def upt_conv_Cons)

lemma concurrent_inserts_converge_witness:
  "\<exists>t1 t1'. receive_all CONTENT (units hello CONTENT) (getState hello) three_users hello = Inr t1 \<and>
     receive_all CONTENT (units hello CONTENT) (getState hello) (rev three_users) hello = Inr t1' \<and>
     toString t1 CONTENT = js ''oh hello you!'' \<and> toString t1' CONTENT = js ''oh hello you!''"
proof -
  have "\<forall>x\<in>set three_users. conc_ok (units hello CONTENT) x" "distinct (map cc_client three_users)"
    by (simp_all add: three_users_def conc_ok_def hello_units unit_clean_def isHighSurrogate_def upt_conv_Cons)
  from concurrent_inserts_converge [OF hello_ok(1,1) refl _ this, of "rev three_users"]
  obtain t1 t1' where t: "receive_all CONTENT (units hello CONTENT) (getState hello) three_users hello = Inr t1"
    "receive_all CONTENT (units hello CONTENT) (getState hello) (rev three_users) hello = Inr t1'" "doc_ok t1"
    "units t1 CONTENT = weave (getState hello) (units hello CONTENT) three_users"
    "toString t1' CONTENT = toString t1 CONTENT" by auto
  have "visible (weave st (units hello CONTENT) three_users) = js ''oh hello you!''" for st
    by (simp add: weave_def gap_units_def gap_ops_def three_users_def hello_units cc_units_def visible_new_units
      upt_conv_Cons insort_key.simps)
  then show ?thesis using t by (simp add: toString_units)
qed

end
