(* ===== verification/YTyping.thy ===== *)
theory YTyping
  imports YConverge
begin

text \<open>
  Two users who type at the same time. Each inserts into their own replica (\<open>ytext.insert\<close>), the item
  this makes is written (\<open>Item.write\<close>) and integrated by the other's replica. Both end with the same
  text, which has both insertions where they were made.
\<close>

section \<open>Sending an item\<close>

text \<open>\<open>Item.write\<close> of the item \<open>it\<close> at \<open>a\<close> without its first \<open>offset\<close> units. A parent is a root type.\<close>

fun content_write :: "content \<Rightarrow> nat \<Rightarrow> content" where
  "content_write (ContentString s) offset = ContentString (if offset = 0 then s else drop offset s)"
| "content_write (ContentDeleted m) offset = ContentDeleted (m - offset)"

definition write_item :: "ID \<Rightarrow> item \<Rightarrow> nat \<Rightarrow> wire_item" where
  "write_item a it offset =
     (let origin = (if 0 < offset then Some (createID (client a) (clock a + offset - 1)) else it_origin it) in
      \<lparr>w_origin = origin, w_rightOrigin = it_rightOrigin it,
       w_parent = (if origin = None \<and> it_rightOrigin it = None then Some (it_parent it) else None),
       w_content = content_write (it_content it) offset\<rparr>)"

lemma write_cc_item: "write_item a (cc_item n base x) 0 = cc_wire n base x"
  by (auto simp: write_item_def cc_wire_def Let_def)

text \<open>The item that an edit of its own replica added.\<close>

definition sent_item :: "'a transaction_scheme \<Rightarrow> ID \<Rightarrow> wire_item option" where
  "sent_item t a = (case heap t a of Some (Item it) \<Rightarrow> Some (write_item a it 0) | _ \<Rightarrow> None)"

section \<open>An insertion is one of its gap\<close>

lemma last_unit:
  assumes d: "doc_ok t" and st: "start t n = pre @ post"
  shows "(case last_opt pre of None \<Rightarrow> None | Some l \<Rightarrow> lastId_at t l) =
    (if units_of t pre = [] then None else Some (fst (last (units_of t pre))))"
proof (cases pre rule: rev_cases)
  case (snoc qs l)
  obtain it where it: "heap t l = Some (Item it)" "item_ok it" "struct_units t l = item_units l it"
    using list_item [OF d, of l n] st snoc by auto
  then obtain m where m: "it_length it = Suc m" by (metis item_ok_def gr0_conv_Suc)
  then have "item_units l it \<noteq> []" "fst (last (item_units l it)) = lastId l it"
    by (simp_all add: item_units_def last_map lastId_unit)
  then show ?thesis using snoc it by (simp add: lastId_at_def)
qed simp

lemma unit_clean_last:
  assumes "us \<noteq> []" "visible us = [] \<or> \<not> isHighSurrogate (last (visible us))"
  shows "unit_clean (last us)"
proof -
  obtain vs u where "us = vs @ [u]" using assms(1) by (metis rev_exhaust)
  with assms(2) show ?thesis by (cases "snd u") (auto simp: unit_clean_def visible_def List.map_filter_def)
qed

text \<open>The character in front of the place is no high surrogate.\<close>

definition clean_before :: "jsstring \<Rightarrow> nat \<Rightarrow> bool" where
  "clean_before s i = (0 < i \<longrightarrow> \<not> isHighSurrogate (s ! (i - 1)))"

text \<open>The gap of an index: as far to the right as the visible units allow.\<close>

definition gap_of :: "unit_list \<Rightarrow> nat \<Rightarrow> nat \<Rightarrow> bool" where
  "gap_of base i g = (g \<le> length base \<and> length (visible (take g base)) = i \<and>
     (g < length base \<longrightarrow> snd (base ! g) \<noteq> None))"

lemma weave_one:
  assumes "cc_gap x \<le> length base"
  shows "weave st base [x] = take (cc_gap x) base @ cc_units st x @ drop (cc_gap x) base"
proof -
  have b: "before_gap st base [] (cc_gap x) = take (cc_gap x) base"
    using weave_plain [of "cc_gap x" base 0 "[]" st] assms by (simp add: before_gap_def)
  have "base = before_gap st base [] (cc_gap x) @ after_gap st base [] (cc_gap x)"
    using weave_at [OF assms, of st "[]"] by (simp add: weave_none gap_ops_none)
  then have "after_gap st base [] (cc_gap x) = drop (cc_gap x) base"
    unfolding b by (metis append_take_drop_id same_append_eq)
  then show ?thesis using weave_Cons [of x "[]" base st] assms b by (simp add: gap_ops_none)
qed

lemma local_typing:
  assumes d: "doc_ok t" and i: "i \<le> length (toString t n)" and m: "marker_ok t n (int i) marker"
    and ne: "text \<noteq> []" and cl: "clean_before (toString t n) i"
  shows "\<exists>t1 x. ytext_insert marker n (int i) text t = Inr t1 \<and> conc_ok (units t n) x \<and>
    cc_client x = clientID t \<and> cc_text x = text \<and> gap_of (units t n) i (cc_gap x) \<and>
    conc_inv n (units t n) (getState t) [x] t1"
proof -
  have s: "toString t n = visible (units t n)" by (rule toString_units [OF d])
  have "cut_clean (visible (units t n)) i" using cl by (simp add: s clean_before_def cut_clean_def)
  then obtain cur t0 pre post where f: "findPosition marker n (int i) t = Inr (cur, t0)" "keeps t t0"
    "start t0 n = pre @ post" "p_left cur = last_opt pre" "p_right cur = hd_opt post"
    "length (visible (units_of t0 pre)) = i" "units t0 n = units t n"
    using findPosition_spec [OF d _ m] i by (auto simp: s)
  have d0: "doc_ok t0" "clientID t0 = clientID t" "\<And>c. getState t0 c = getState t c"
    using f(2) by (auto simp: keeps_def)
  define this where "this = ID (clientID t0) (getState t0 (clientID t0))"
  obtain t1 pre1 post1 it where g: "insertText n cur text t0 = Inr t1" "linked t0 this it pre1 post1 t1"
    "start t0 n = pre1 @ post1" "visible (units_of t0 pre1) = visible (units_of t0 pre)"
    "units_of t0 post1 \<noteq> [] \<longrightarrow> snd (hd (units_of t0 post1)) \<noteq> None"
    "it = \<lparr>it_origin = (case last_opt pre1 of None \<Rightarrow> None | Some l \<Rightarrow> lastId_at t0 l),
      it_rightOrigin = hd_opt post1, it_parent = n, it_redone = None, it_content = ContentString text,
      it_length = length text, it_deleted = False, it_keep = False\<rparr>"
    using insertText_linked [OF d0(1) f(3) ne f(4,5) this_def] by - (elim exE conjE, rule that, assumption+)
  let ?us = "units_of t0 pre1" and ?vs = "units_of t0 post1"
  have base: "units t n = ?us @ ?vs" using f(7) by (simp add: units_units_of g(3) flip: f(7))
  define x where "x = \<lparr>cc_client = clientID t, cc_gap = length ?us, cc_text = text\<rparr>"
  have x: "cc_client x = clientID t" "cc_gap x = length ?us" "cc_text x = text" by (simp_all add: x_def)
  have vis: "length (visible ?us) = i" using f(6) g(4) by simp
  have "unit_clean (last ?us)" if "?us \<noteq> []"
  proof (rule unit_clean_last [OF that])
    have "visible (units t n) = visible ?us @ visible ?vs" by (simp add: base)
    then show "visible ?us = [] \<or> \<not> isHighSurrogate (last (visible ?us))"
      using cl vis by (auto simp: s clean_before_def last_conv_nth nth_append)
  qed
  then have ok: "conc_ok (units t n) x"
    using ne by (cases ?us rule: rev_cases) (auto simp: conc_ok_def x base nth_append)
  have gap: "gap_of (units t n) i (cc_gap x)"
    using vis g(5) by (cases ?vs) (auto simp: gap_of_def x base nth_append)
  have "it_origin it = gap_origin (units t n) (length ?us)"
    using last_unit [OF d0(1) g(3)]
    by (cases ?us rule: rev_cases) (auto simp: g(6) gap_origin_def base nth_append)
  moreover have "it_rightOrigin it = gap_right (units t n) (length ?us)"
  proof (cases ?vs)
    case Nil
    with first_item(1) [OF d0(1) g(3) refl] show ?thesis by (simp add: g(6) gap_right_def base)
  next
    case (Cons v vs)
    from first_item(2) [OF d0(1) g(3) refl this] Cons show ?thesis by (auto simp: g(6) gap_right_def base)
  qed
  ultimately have itx: "it = cc_item n (units t n) x" by (simp add: g(6) cc_item_def x)
  have me: "this = cc_id (getState t) x" by (simp add: this_def cc_id_def x d0)
  have ck: "clock this = getState t0 (client this)" "client this = cc_client x" by (simp_all add: this_def x d0)
  have st1: "start t0 (it_parent it) = pre1 @ post1" and io: "item_ok it" using g(3) ne by (simp_all add: g(6) item_ok_def)
  have fresh: "heap t0 this = None" by (rule getState_fresh [OF d0(1)]) (simp add: ck)
  note u = linked_units(1) [OF g(2) d0(1) fresh st1] and k = linked_ok [OF g(2) d0(1) ck(1) st1 io]
  have "weave (getState t) (units t n) [x] = ?us @ cc_units (getState t) x @ ?vs"
    using weave_one [of x "units t n" "getState t"] by (simp add: x base)
  then have "units t1 n = weave (getState t) (units t n) [x]"
    using u by (simp add: me itx cc_item_units)
  moreover have "heap t1 this = Some (Item it)" using g(2) by (simp add: linked_def)
  ultimately have "conc_inv n (units t n) (getState t) [x] t1"
    using k d0 ck(2) by (simp add: conc_inv_def me itx x ne)
  moreover have "ytext_insert marker n (int i) text t = Inr t1" using f(1) g(1) ne by (simp add: ytext_insert_def)
  ultimately show ?thesis using ok gap x by blast
qed

section \<open>Two insertions\<close>

lemma weave_two:
  assumes "cc_gap x < cc_gap y \<or> (cc_gap x = cc_gap y \<and> cc_client x < cc_client y)" "cc_gap y \<le> length base"
    "cc_client x \<noteq> cc_client y"
  shows "weave st base [x, y] = take (cc_gap x) base @ cc_units st x @
    take (cc_gap y - cc_gap x) (drop (cc_gap x) base) @ cc_units st y @ drop (cc_gap y) base"
proof -
  let ?g = "cc_gap x"
  have g: "?g \<le> cc_gap y" "?g \<le> length base" using assms by linarith+
  have b: "before_gap st base [y] ?g = take ?g base"
    using weave_plain [of ?g base 0 "[y]" st] g by (simp add: before_gap_def)
  have o: "gap_ops [y] ?g = (if cc_gap y = ?g then [y] else [])" by (simp add: gap_ops_def)
  have w: "takeWhile (\<lambda>z. cc_client z < cc_client x) (gap_ops [y] ?g) = []"
    "dropWhile (\<lambda>z. cc_client z < cc_client x) (gap_ops [y] ?g) = gap_ops [y] ?g"
    unfolding o using assms(1) by (cases "cc_gap y = ?g"; simp)+
  have "distinct (map cc_client [x, y])" using assms(3) by simp
  from weave_Cons [OF this g(2), of st] have "weave st base [x, y] = take ?g base @ cc_units st x @
      (concat (map (cc_units st) (gap_ops [y] ?g)) @ after_gap st base [y] ?g)"
    unfolding w b by simp
  moreover have "weave st base [y] = take ?g base @
      (concat (map (cc_units st) (gap_ops [y] ?g)) @ after_gap st base [y] ?g)"
    using weave_at [OF g(2), of st "[y]"] unfolding b .
  then have "concat (map (cc_units st) (gap_ops [y] ?g)) @ after_gap st base [y] ?g =
      drop ?g (weave st base [y])" using g by simp
  moreover have "drop ?g (weave st base [y]) = take (cc_gap y - ?g) (drop ?g base) @ cc_units st y @ drop (cc_gap y) base"
    using g assms(2) unfolding weave_one [OF assms(2)] by (simp add: drop_take)
  ultimately show ?thesis by metis
qed

lemma gap_of_strings:
  assumes "gap_of base i g" "gap_of base j h"
  shows "i < j \<Longrightarrow> g < h" "i = j \<Longrightarrow> g = h" "visible (take g base) = take i (visible base)"
    "visible (drop g base) = drop i (visible base)"
    "i \<le> j \<Longrightarrow> visible (take (h - g) (drop g base)) = take (j - i) (drop i (visible base))"
proof -
  have v: "visible base = visible (take k base) @ visible (drop k base)" for k
    by (metis append_take_drop_id map_filter_simps2(2))
  have m: "length (visible (take k base)) \<le> length (visible (take l base))" if "k \<le> l" for k l
  proof -
    have "take l base = take k base @ drop k (take l base)" using that by (metis append_take_drop_id min.absorb1 take_take)
    then show ?thesis by (metis length_append le_add1 map_filter_simps2(2))
  qed
  have strict: "i' < j'" if "gap_of base i' g'" "gap_of base j' h'" "g' < h'" for i' j' g' h'
  proof -
    have "take (Suc g') base = take g' base @ [base ! g']"
      using that by (simp add: gap_of_def take_Suc_conv_app_nth)
    then have "length (visible (take (Suc g') base)) = Suc i'"
      using that by (auto simp: gap_of_def visible_def List.map_filter_def)
    moreover have "length (visible (take (Suc g') base)) \<le> j'"
      using m [of "Suc g'" h'] that by (simp add: gap_of_def)
    ultimately show ?thesis by simp
  qed
  show "i < j \<Longrightarrow> g < h" using strict [OF assms(2,1)] assms by (cases g h rule: linorder_cases) (auto simp: gap_of_def)
  show "i = j \<Longrightarrow> g = h" using strict [OF assms] strict [OF assms(2,1)] by (cases g h rule: linorder_cases) auto
  have p: "visible (take g base) = take i (visible base) \<and> visible (drop g base) = drop i (visible base)"
    if "gap_of base i g" for i g
    using that v [of g] by (auto simp: gap_of_def)
  then show "visible (take g base) = take i (visible base)" "visible (drop g base) = drop i (visible base)"
    using assms(1) by blast+
  show "visible (take (h - g) (drop g base)) = take (j - i) (drop i (visible base))" if "i \<le> j"
  proof -
    have "g \<le> h" using strict [OF assms(2,1)] that by (cases g h rule: linorder_cases) auto
    then have "take h base = take g base @ take (h - g) (drop g base)"
      by (metis le_add_diff_inverse take_add)
    then have "take j (visible base) = take i (visible base) @ visible (take (h - g) (drop g base))"
      using p [OF assms(1)] p [OF assms(2)] by (metis map_filter_simps2(2))
    moreover have "take j (visible base) = take i (visible base) @ take (j - i) (drop i (visible base))"
      using that by (metis le_add_diff_inverse take_add)
    ultimately show ?thesis by simp
  qed
qed

text \<open>The string two users make of \<open>s\<close> who insert \<open>x\<close> at \<open>i\<close> and \<open>y\<close> at \<open>j\<close>.\<close>

definition both_typed :: "nat \<Rightarrow> nat \<Rightarrow> jsstring \<Rightarrow> nat \<Rightarrow> nat \<Rightarrow> jsstring \<Rightarrow> jsstring \<Rightarrow> jsstring" where
  "both_typed c i x c' j y s =
     (if i < j \<or> (i = j \<and> c < c') then take i s @ x @ take (j - i) (drop i s) @ y @ drop j s
      else take j s @ y @ take (i - j) (drop j s) @ x @ drop i s)"

lemma weave_typed:
  assumes "gap_of base i (cc_gap x)" "gap_of base j (cc_gap y)" "cc_client x \<noteq> cc_client y"
  shows "visible (weave st base [x, y]) = both_typed (cc_client x) i (cc_text x) (cc_client y) j (cc_text y) (visible base)"
proof -
  have v: "visible (cc_units st z) = cc_text z" for z by (simp add: cc_units_def visible_new_units)
  have l: "cc_gap x \<le> length base" "cc_gap y \<le> length base" using assms by (simp_all add: gap_of_def)
  note G = gap_of_strings [OF assms(1,2)] and H = gap_of_strings [OF assms(2,1)]
  show ?thesis
  proof (cases "i < j \<or> (i = j \<and> cc_client x < cc_client y)")
    case True
    then have "cc_gap x < cc_gap y \<or> (cc_gap x = cc_gap y \<and> cc_client x < cc_client y)" using G(1,2) by blast
    from weave_two [OF this l(2) assms(3)] True G(3,5) H(4) v show ?thesis by (auto simp: both_typed_def)
  next
    case False
    then have "cc_gap y < cc_gap x \<or> (cc_gap y = cc_gap x \<and> cc_client y < cc_client x)"
      using H(1,2) assms(3) by (metis linorder_neqE_nat)
    moreover have "weave st base [x, y] = weave st base [y, x]" using assms(3) by (intro weave_mset) auto
    ultimately show ?thesis using weave_two [OF _ l(1), of y st] assms(3) False H(3,5) G(4) v
      by (auto simp: both_typed_def)
  qed
qed

section \<open>Two users\<close>

lemma type_and_receive:
  assumes "conc_inv n base st [x] t1" "conc_ok base x" "conc_ok base y" "cc_client x \<noteq> cc_client y"
    "\<forall>u\<in>set base. clock (fst u) < st (client (fst u))"
    "\<forall>u\<in>set base. clock (fst u) < getState t1 (client (fst u))"
  shows "sent_item t1 (cc_id st x) = Some (cc_wire n base x)"
    "\<exists>t2. integrate_item (cc_id st y) (cc_wire n base y) t1 = Inr t2 \<and> doc_ok t2 \<and> units t2 n = weave st base [y, x]"
proof -
  show "sent_item t1 (cc_id st x) = Some (cc_wire n base x)"
    using assms(1) by (simp add: conc_inv_def sent_item_def write_cc_item)
  show "\<exists>t2. integrate_item (cc_id st y) (cc_wire n base y) t1 = Inr t2 \<and> doc_ok t2 \<and> units t2 n = weave st base [y, x]"
    using conc_step [OF assms(1,3) _ assms(5,6)] assms(4) by (auto simp: conc_inv_def)
qed

lemma insert_grows:
  assumes "doc_ok t" "marker_ok t n (int i) m" "text \<noteq> []" "ytext_insert m n (int i) text t = Inr t1"
  shows "getState t c \<le> getState t1 c"
  using insert_units [OF assms(1) _ assms(2,3)] assms(4) by auto

text \<open>
  C4. two users who type into the same text at the same time end with the same text: each one's
  insertion succeeds, the item it made is integrated by the other's replica, and in both replicas
  both strings are where they were typed, the one of the smaller client number first if it was at
  one place. (The items are sent as they are made, before the clean-up merges them with others.)
\<close>

theorem simultaneous_typing_converges:
  assumes "doc_ok t" "doc_ok t'" "units t' n = units t n" "\<forall>k. getState t' k = getState t k" "clientID t \<noteq> clientID t'"
    and "i \<le> length (toString t n)" "clean_before (toString t n) i" "marker_ok t n (int i) m" "x \<noteq> []"
    and "j \<le> length (toString t n)" "clean_before (toString t n) j" "marker_ok t' n (int j) m'" "y \<noteq> []"
    and "a = ID (clientID t) (getState t (clientID t))" "b = ID (clientID t') (getState t' (clientID t'))"
  shows "\<exists>t1 t1' w w' t2 t2'.
    ytext_insert m n (int i) x t = Inr t1 \<and> sent_item t1 a = Some w \<and> integrate_item a w t1' = Inr t2' \<and>
    ytext_insert m' n (int j) y t' = Inr t1' \<and> sent_item t1' b = Some w' \<and> integrate_item b w' t1 = Inr t2 \<and>
    doc_ok t2 \<and> doc_ok t2' \<and> units t2' n = units t2 n \<and> toString t2' n = toString t2 n \<and>
    toString t2 n = both_typed (clientID t) i x (clientID t') j y (toString t n)"
proof -
  let ?base = "units t n" and ?st = "getState t"
  have st: "getState t' = ?st" using assms(4) by auto
  have s: "toString t n = visible ?base" "toString t' n = toString t n"
    using toString_units [OF assms(1)] toString_units [OF assms(2)] assms(3) by simp_all
  have known: "\<forall>u\<in>set ?base. clock (fst u) < ?st (client (fst u))" using units_known [OF assms(1)] by blast
  obtain t1 p where p: "ytext_insert m n (int i) x t = Inr t1" "conc_ok ?base p" "cc_client p = clientID t"
    "cc_text p = x" "gap_of ?base i (cc_gap p)" "conc_inv n ?base ?st [p] t1"
    using local_typing [OF assms(1,6,8,9,7)] by blast
  obtain t1' q where q: "ytext_insert m' n (int j) y t' = Inr t1'" "conc_ok ?base q" "cc_client q = clientID t'"
    "cc_text q = y" "gap_of ?base j (cc_gap q)" "conc_inv n ?base ?st [q] t1'"
    using local_typing [OF assms(2) _ assms(12,13)] assms(10,11) unfolding s(2) assms(3) st by blast
  have id: "cc_id ?st p = a" "cc_id ?st q = b" using p(3) q(3) assms(14,15) st by (simp_all add: cc_id_def)
  have ne: "cc_client p \<noteq> cc_client q" using p(3) q(3) assms(5) by simp
  have k1: "\<forall>u\<in>set ?base. clock (fst u) < getState t1 (client (fst u))"
    using known insert_grows [OF assms(1,8,9) p(1)] by (meson order_less_le_trans)
  have k2: "\<forall>u\<in>set ?base. clock (fst u) < getState t1' (client (fst u))"
    using known insert_grows [OF assms(2,12,13) q(1)] st by (metis order_less_le_trans)
  note P = type_and_receive [OF p(6,2) q(2) ne known k1] and Q = type_and_receive [OF q(6,2) p(2) ne [symmetric] known k2]
  obtain t2 where t2: "integrate_item b (cc_wire n ?base q) t1 = Inr t2" "doc_ok t2" "units t2 n = weave ?st ?base [q, p]"
    using P(2) unfolding id by blast
  obtain t2' where t2': "integrate_item a (cc_wire n ?base p) t1' = Inr t2'" "doc_ok t2'" "units t2' n = weave ?st ?base [p, q]"
    using Q(2) unfolding id by blast
  have "weave ?st ?base [q, p] = weave ?st ?base [p, q]" using ne by (intro weave_mset) auto
  moreover have "visible (weave ?st ?base [p, q]) = both_typed (clientID t) i x (clientID t') j y (toString t n)"
    using weave_typed [OF p(5) q(5) ne] p(3,4) q(3,4) s(1) by simp
  ultimately show ?thesis
    using p(1) q(1) P(1) Q(1) t2 t2' toString_units [OF t2(2), of n] toString_units [OF t2'(2), of n]
    unfolding id by auto
qed

text \<open>Client 7 has made \<open>hello\<close>, client 3 has the same document; both type at its end.\<close>

definition hello3 :: transaction where
  "hello3 = hello\<lparr>clientID := 3\<rparr>"

lemma hello3_ok: "doc_ok hello3" "units hello3 n = units hello n" "getState hello3 k = getState hello k" "clientID hello3 = 3"
proof -
  have *: "length_at hello3 = length_at hello" "ranges_of hello3 = ranges_of hello"
    by (auto simp: length_at_def [abs_def] ranges_of_def [abs_def] hello3_def)
  show "units hello3 n = units hello n" for n
    by (simp add: units_def hello3_def struct_units_def [abs_def])
  then show "doc_ok hello3" using hello_ok(1) unfolding doc_ok_def * by (simp add: hello3_def)
qed (simp_all add: hello3_def getState_def length_at_def)

lemma hello_other: "c \<noteq> 7 \<Longrightarrow> getState hello c = 0"
proof -
  assume c: "c \<noteq> 7"
  obtain t1 where "ytext_insert None CONTENT 0 (js ''hello'') (new_doc 7) = Inr t1"
    "\<forall>c. getState t1 c = getState (new_doc 7) c + (if c = clientID (new_doc 7) then length (js ''hello'') else 0)"
    using insert_units [OF new_doc_ok, of 0 7 CONTENT None "js ''hello''"] by (auto simp: marker_ok_def)
  then show ?thesis using c by (simp add: hello_def new_doc_def getState_def)
qed

lemma simultaneous_typing_converges_witness:
  "\<exists>t1 t1' w w' t2 t2'.
    ytext_insert None CONTENT (int 5) (js '' you'') hello = Inr t1 \<and> sent_item t1 (ID 7 5) = Some w \<and>
    ytext_insert None CONTENT (int 5) (js '' all'') hello3 = Inr t1' \<and> sent_item t1' (ID 3 0) = Some w' \<and>
    integrate_item (ID 7 5) w t1' = Inr t2' \<and> integrate_item (ID 3 0) w' t1 = Inr t2 \<and>
    toString t2 CONTENT = js ''hello all you'' \<and> toString t2' CONTENT = js ''hello all you''"
proof -
  have st: "getState hello3 3 = 0" "clientID hello = 7" "getState hello 7 = 5" "toString hello CONTENT = js ''hello''"
    using hello_other [of 3] hello_ok(3,4) hello_text by (simp_all add: hello3_ok del: js_simps)
  have c: "clean_before (js ''hello'') 5" by (simp add: clean_before_def isHighSurrogate_def)
  have m: "marker_ok hello CONTENT (int 5) None" "marker_ok hello3 CONTENT (int 5) None" by (simp_all add: marker_ok_def)
  have b: "both_typed 7 5 (js '' you'') 3 5 (js '' all'') (js ''hello'') = js ''hello all you''"
    by (simp add: both_typed_def)
  have ne: "js '' you'' \<noteq> []" "js '' all'' \<noteq> []" "5 \<le> length (js ''hello'')" by simp_all
  have k: "7 \<noteq> (3 :: nat)" "ID 3 0 = ID 3 (getState hello 3)" using hello_other [of 3] by simp_all
  note r = simultaneous_typing_converges [OF hello_ok(1) hello3_ok(1), of CONTENT 5 None "js '' you''" 5 None
      "js '' all''" "ID 7 5" "ID 3 0", unfolded st hello3_ok, OF refl _ _ ne(3) c m(1) ne(1) ne(3) c m(2) ne(2) refl]
  obtain t1 t1' w w' t2 t2' where x: "ytext_insert None CONTENT (int 5) (js '' you'') hello = Inr t1"
    "sent_item t1 (ID 7 5) = Some w" "integrate_item (ID 7 5) w t1' = Inr t2'"
    "ytext_insert None CONTENT (int 5) (js '' all'') hello3 = Inr t1'" "sent_item t1' (ID 3 0) = Some w'"
    "integrate_item (ID 3 0) w' t1 = Inr t2" "toString t2' CONTENT = toString t2 CONTENT"
    "toString t2 CONTENT = js ''hello all you''"
    using r [OF allI [OF refl] k(1,2), unfolded b] by - (elim exE conjE, rule that, assumption+)
  have "toString t2' CONTENT = js ''hello all you''" using x(7,8) by (rule trans)
  then show ?thesis using x(1-6,8) by - (intro exI conjI, assumption+)
qed

end
