(* ===== verification/ServerState.thy ===== *)
theory ServerState
  imports CollabWS
begin

text \<open>
  The replicated state of the server (\<open>src/ide/server.go\<close>, \<open>commands.go\<close>) and its invite codes
  (\<open>session.go\<close>): the commands that go through the log, the sessions they act on, and what the other
  parts of the server read from them. A Go string is the string of the message it came in; a map
  that is read at a missing key gives \<open>None\<close>. A \<open>nil\<close> slice and an empty one are the same list,
  which is all that their readers look at.
\<close>

section \<open>Sessions\<close>

record go_proposal =
  gp_ID :: jsstring
  gp_Author :: jsstring
  gp_Replacement :: jsstring
  gp_OriginalText :: jsstring
  gp_RelStart :: jsstring
  gp_RelEnd :: jsstring
  gp_StartLine :: int
  gp_EndLine :: int

record session_state =
  ss_Doc :: "byte list"
  ss_Proposals :: "jsstring \<Rightarrow> go_proposal option"
  ss_Roles :: "jsstring \<Rightarrow> jsstring option"
  ss_Creator :: jsstring

type_synonym sessions = "jsstring \<Rightarrow> session_state option"

datatype command =
    CRDTUpdateCmd jsstring "byte list"
  | ProposalCmd jsstring go_proposal jsstring
  | RoleChangeCmd jsstring jsstring jsstring
  | SessionCmd jsstring jsstring jsstring jsstring
  | OtherCmd

definition NewCollabServer :: sessions where
  "NewCollabServer = (\<lambda>code. None)"

definition new_session :: session_state where
  "new_session = \<lparr>ss_Doc = [], ss_Proposals = (\<lambda>i. None), ss_Roles = (\<lambda>u. None), ss_Creator = []\<rparr>"

definition getOrCreate :: "jsstring \<Rightarrow> sessions \<Rightarrow> session_state" where
  "getOrCreate code cs = (case cs code of Some s \<Rightarrow> s | None \<Rightarrow> new_session)"

text \<open>\<open>getOrCreate\<close> returns a pointer into the map: what is done to the session stays in it.\<close>

definition with_session :: "jsstring \<Rightarrow> (session_state \<Rightarrow> session_state) \<Rightarrow> sessions \<Rightarrow> sessions" where
  "with_session code f cs = cs(code \<mapsto> f (getOrCreate code cs))"

definition GetDoc :: "sessions \<Rightarrow> jsstring \<Rightarrow> byte list" where
  "GetDoc cs code = (case cs code of Some s \<Rightarrow> ss_Doc s | None \<Rightarrow> [])"

fun do_proposal :: "jsstring \<Rightarrow> go_proposal \<Rightarrow> session_state \<Rightarrow> session_state" where
  "do_proposal action p s =
     (if action = js ''add'' then s\<lparr>ss_Proposals := (ss_Proposals s)(gp_ID p \<mapsto> p)\<rparr>
      else if action = js ''accept'' \<or> action = js ''reject''
      then s\<lparr>ss_Proposals := (ss_Proposals s)(gp_ID p := None)\<rparr>
      else s)"

fun DoOp :: "command \<Rightarrow> sessions \<Rightarrow> sessions" where
  "DoOp (CRDTUpdateCmd code upd) cs = with_session code (\<lambda>s. s\<lparr>ss_Doc := upd\<rparr>) cs"
| "DoOp (ProposalCmd code p action) cs = with_session code (do_proposal action p) cs"
| "DoOp (RoleChangeCmd code user role) cs =
     with_session code (\<lambda>s. s\<lparr>ss_Roles := (ss_Roles s)(user \<mapsto> role)\<rparr>) cs"
| "DoOp (SessionCmd action code user role) cs =
     (if action = js ''create''
      then with_session code
        (\<lambda>s. s\<lparr>ss_Creator := user, ss_Roles := (ss_Roles s)(user \<mapsto> js ''editor'')\<rparr>) cs
      else if action = js ''join''
      then with_session code
        (\<lambda>s. if ss_Roles s user \<noteq> None then s else s\<lparr>ss_Roles := (ss_Roles s)(user \<mapsto> js ''viewer'')\<rparr>) cs
      else cs)"
| "DoOp OtherCmd cs = cs"

definition GetSession :: "sessions \<Rightarrow> jsstring \<Rightarrow> jsstring \<Rightarrow> jsstring \<times> bool" where
  "GetSession cs code user = (case cs code of
     None \<Rightarrow> ([], False)
   | Some s \<Rightarrow> (case ss_Roles s user of None \<Rightarrow> (js ''viewer'', True) | Some r \<Rightarrow> (r, True)))"

definition SessionExists :: "sessions \<Rightarrow> jsstring \<Rightarrow> bool" where
  "SessionExists cs code = (cs code \<noteq> None)"

definition GetRole :: "sessions \<Rightarrow> jsstring \<Rightarrow> jsstring \<Rightarrow> jsstring" where
  "GetRole cs code user = (case cs code of
     None \<Rightarrow> js ''viewer''
   | Some s \<Rightarrow> (case ss_Roles s user of Some role \<Rightarrow> role | None \<Rightarrow> js ''viewer''))"

text \<open>\<open>Snapshot\<close> and \<open>Restore\<close>, over an encoder and a decoder of the sessions (\<open>encoding/gob\<close>).\<close>

definition SnapshotState :: "(sessions \<Rightarrow> byte list) \<Rightarrow> sessions \<Rightarrow> byte list" where
  "SnapshotState enc cs = enc cs"

definition RestoreState :: "(byte list \<Rightarrow> sessions option) \<Rightarrow> byte list \<Rightarrow> sessions \<Rightarrow> sessions" where
  "RestoreState dec data cs = (case dec data of None \<Rightarrow> cs | Some m \<Rightarrow> m)"

definition run_log :: "command list \<Rightarrow> sessions \<Rightarrow> sessions" where
  "run_log cmds cs = fold DoOp cmds cs"

section \<open>Invite codes\<close>

text \<open>The seven results of \<open>rand.Intn\<close> are an argument.\<close>

definition code_letters :: jsstring where
  "code_letters = js ''ABCDEFGHJKLMNPQRSTUVWXYZ''"

definition code_digits :: jsstring where
  "code_digits = js ''0123456789''"

definition generateCode :: "nat list \<Rightarrow> jsstring" where
  "generateCode rs = map (\<lambda>i. code_letters ! (rs ! i)) [0..<3] @ js ''-'' @
     map (\<lambda>i. code_digits ! (rs ! i)) [3..<7]"

section \<open>The sessions after a command\<close>

text \<open>What a command is about, and what it does there.\<close>

fun cmd_code :: "command \<Rightarrow> jsstring option" where
  "cmd_code (CRDTUpdateCmd code upd) = Some code"
| "cmd_code (ProposalCmd code p action) = Some code"
| "cmd_code (RoleChangeCmd code user role) = Some code"
| "cmd_code (SessionCmd action code user role) =
     (if action = js ''create'' \<or> action = js ''join'' then Some code else None)"
| "cmd_code OtherCmd = None"

lemma getOrCreate_simps [simp]:
  "cs code = Some s \<Longrightarrow> getOrCreate code cs = s" "cs code = None \<Longrightarrow> getOrCreate code cs = new_session"
  by (simp_all add: getOrCreate_def)

lemma new_session_simps [simp]:
  "ss_Doc new_session = []" "ss_Roles new_session u = None" "ss_Proposals new_session i = None"
  by (simp_all add: new_session_def)

lemma with_session_apply [simp]:
  "with_session code f cs c = (if c = code then Some (f (getOrCreate code cs)) else cs c)"
  by (simp add: with_session_def)

lemma getOrCreate_with_session [simp]:
  "getOrCreate c (with_session code f cs) = (if c = code then f (getOrCreate c cs) else getOrCreate c cs)"
  by (simp add: getOrCreate_def with_session_def)

lemma GetRole_getOrCreate:
  "GetRole cs code u = (case ss_Roles (getOrCreate code cs) u of Some r \<Rightarrow> r | None \<Rightarrow> js ''viewer'')"
  by (simp add: GetRole_def getOrCreate_def new_session_def split: option.split)

lemma GetDoc_getOrCreate: "GetDoc cs code = ss_Doc (getOrCreate code cs)"
  by (simp add: GetDoc_def getOrCreate_def new_session_def split: option.split)

lemma GetSession_GetRole: "SessionExists cs code \<Longrightarrow> GetSession cs code u = (GetRole cs code u, True)"
  by (auto simp: GetSession_def GetRole_def SessionExists_def split: option.split)

lemma run_log_simps [simp]:
  "run_log [] cs = cs" "run_log (c # cmds) cs = run_log cmds (DoOp c cs)"
  "run_log (xs @ ys) cs = run_log ys (run_log xs cs)"
  by (simp_all add: run_log_def)

lemma DoOp_other: "cmd_code c \<noteq> Some code \<Longrightarrow> DoOp c cs code = cs code"
  by (cases c) auto

lemma DoOp_code: "cmd_code c = Some code \<Longrightarrow> DoOp c cs code \<noteq> None"
  by (cases c) (auto split: if_splits simp del: js_simps)

lemma DoOp_exists: "SessionExists cs code \<Longrightarrow> SessionExists (DoOp c cs) code"
  by (cases "cmd_code c = Some code") (simp_all add: SessionExists_def DoOp_other DoOp_code)

text \<open>The document of a session is the last update that was submitted for it, and a user's role
  the last one that was set: commands about other sessions are without effect.\<close>

fun last_update :: "jsstring \<Rightarrow> command list \<Rightarrow> byte list option" where
  "last_update code [] = None"
| "last_update code (c # cs) = (case last_update code cs of
     Some u \<Rightarrow> Some u
   | None \<Rightarrow> (case c of CRDTUpdateCmd code1 u \<Rightarrow> if code1 = code then Some u else None | _ \<Rightarrow> None))"

lemma DoOp_doc:
  "GetDoc (DoOp c cs) code = (case c of CRDTUpdateCmd code1 u \<Rightarrow> if code1 = code then u else GetDoc cs code
     | _ \<Rightarrow> GetDoc cs code)"
  by (cases c) (auto simp: GetDoc_getOrCreate)

lemma run_log_doc:
  "GetDoc (run_log cmds cs) code = (case last_update code cmds of Some u \<Rightarrow> u | None \<Rightarrow> GetDoc cs code)"
proof (induction cmds arbitrary: cs)
  case (Cons c cmds)
  then show ?case by (auto simp: DoOp_doc simp del: DoOp.simps split: option.split command.split)
qed simp

end
