(* ===== verification/ServerHub.thy ===== *)
theory ServerHub
  imports ServerState "HOL-Library.AList"
begin

text \<open>
  The hub of the server (\<open>src/ide/hub.go\<close>): the connected clients and the queues of messages to
  them. Clients are pointers, so the hub has them in a heap, a list whose indices are the pointers;
  one that was replaced by a later connection of the same user stays there, as its goroutines do. The
  map from user names to clients is an association list, in the order in which \<open>range\<close> visits it.
  A queue is a channel of 64 messages; a message for a full one is dropped, and sending on a closed
  one would be a panic, which is the result \<open>None\<close>.
\<close>

section \<open>Definitions\<close>

text \<open>What a client's browser gets: a binary frame, or a text frame as it parses it.\<close>

datatype ws_message = BinaryMsg "byte list" | TextMsg incoming

datatype stage = Connecting | Serving | Left

record hub_client =
  cl_ID :: jsstring
  cl_Role :: jsstring
  cl_Code :: jsstring
  cl_Conn :: "ws_message list"
  cl_Send :: "ws_message list"
  cl_closed :: bool
  cl_stage :: stage
  cl_broken :: bool
  cl_pump :: bool

text \<open>\<open>cl_Conn\<close> is what has been written to the connection, \<open>cl_closed\<close> whether the channel is closed,
  \<open>cl_stage\<close> how far its \<open>handleWS\<close> is: before, in or after the reading loop; \<open>cl_broken\<close> whether the
  connection is closed or lost, so that writing to it fails, and \<open>cl_pump\<close> whether its \<open>writePump\<close> is running.\<close>

record hub =
  hub_clients :: "(jsstring \<times> nat) list"
  hub_heap :: "hub_client list"

definition queue_size :: nat where
  "queue_size = 64"

definition NewHub :: hub where
  "NewHub = \<lparr>hub_clients = [], hub_heap = []\<rparr>"

definition client_at :: "hub \<Rightarrow> nat \<Rightarrow> hub_client" where
  "client_at h p = hub_heap h ! p"

definition update_client :: "nat \<Rightarrow> (hub_client \<Rightarrow> hub_client) \<Rightarrow> hub \<Rightarrow> hub" where
  "update_client p f h = h\<lparr>hub_heap := (hub_heap h)[p := f (client_at h p)]\<rparr>"

definition Register :: "nat \<Rightarrow> hub \<Rightarrow> hub" where
  "Register p h = h\<lparr>hub_clients := AList.update (cl_ID (client_at h p)) p (hub_clients h)\<rparr>"

definition Unregister :: "nat \<Rightarrow> hub \<Rightarrow> hub option" where
  "Unregister p h =
     (let c = client_at h p in
      if map_of (hub_clients h) (cl_ID c) = Some p
      then if cl_closed c then None
           else Some (update_client p (\<lambda>c. c\<lparr>cl_closed := True\<rparr>)
             (h\<lparr>hub_clients := AList.delete (cl_ID c) (hub_clients h)\<rparr>))
      else Some h)"

text \<open>\<open>select { case c.Send <- msg: default: }\<close>.\<close>

definition try_send :: "ws_message \<Rightarrow> nat \<Rightarrow> hub \<Rightarrow> hub option" where
  "try_send m p h =
     (let c = client_at h p in
      if cl_closed c then None
      else if length (cl_Send c) < queue_size
      then Some (update_client p (\<lambda>c. c\<lparr>cl_Send := cl_Send c @ [m]\<rparr>) h) else Some h)"

fun send_each :: "(jsstring \<Rightarrow> hub_client \<Rightarrow> bool) \<Rightarrow> ws_message \<Rightarrow> (jsstring \<times> nat) list \<Rightarrow> hub \<Rightarrow> hub option" where
  "send_each to m [] h = Some h"
| "send_each to m ((u, p) # ps) h =
     (if to u (client_at h p)
      then (case try_send m p h of None \<Rightarrow> None | Some h1 \<Rightarrow> send_each to m ps h1)
      else send_each to m ps h)"

definition BroadcastSession :: "ws_message \<Rightarrow> jsstring \<Rightarrow> jsstring \<Rightarrow> hub \<Rightarrow> hub option" where
  "BroadcastSession m sender code h =
     send_each (\<lambda>u c. \<not> (u = sender \<or> cl_Code c \<noteq> code)) m (hub_clients h) h"

definition BroadcastSessionAll :: "ws_message \<Rightarrow> jsstring \<Rightarrow> hub \<Rightarrow> hub option" where
  "BroadcastSessionAll m code h = send_each (\<lambda>u c. \<not> cl_Code c \<noteq> code) m (hub_clients h) h"

definition SessionParticipants :: "jsstring \<Rightarrow> hub \<Rightarrow> (jsstring \<times> jsstring) list" where
  "SessionParticipants code h =
     map (\<lambda>c. (cl_ID c, cl_Role c)) (filter (\<lambda>c. cl_Code c = code) (map (\<lambda>(u, p). client_at h p) (hub_clients h)))"

definition UpdateClientRole :: "jsstring \<Rightarrow> jsstring \<Rightarrow> hub \<Rightarrow> hub" where
  "UpdateClientRole user role h = (case map_of (hub_clients h) user of
     Some p \<Rightarrow> update_client p (\<lambda>c. c\<lparr>cl_Role := role\<rparr>) h | None \<Rightarrow> h)"

definition SendRaw :: "jsstring \<Rightarrow> ws_message \<Rightarrow> hub \<Rightarrow> hub option" where
  "SendRaw user m h = (case map_of (hub_clients h) user of Some p \<Rightarrow> try_send m p h | None \<Rightarrow> Some h)"

text \<open>A direct \<open>conn.WriteMessage\<close>, whose error is ignored, and one round of \<open>writePump\<close>: it waits while the
  queue is empty and open, closes the connection when it has emptied a closed queue, and stops, the message
  it took being lost, when writing fails.\<close>

definition WriteMessage :: "ws_message \<Rightarrow> nat \<Rightarrow> hub \<Rightarrow> hub" where
  "WriteMessage m p = update_client p (\<lambda>c. if cl_broken c then c else c\<lparr>cl_Conn := cl_Conn c @ [m]\<rparr>)"

fun pump_round :: "hub_client \<Rightarrow> ws_message list \<Rightarrow> hub_client" where
  "pump_round c [] = (if cl_closed c then c\<lparr>cl_pump := False, cl_broken := True\<rparr> else c)"
| "pump_round c (m # ms) =
     (if cl_broken c then c\<lparr>cl_Send := ms, cl_pump := False\<rparr>
      else c\<lparr>cl_Send := ms, cl_Conn := cl_Conn c @ [m]\<rparr>)"

definition writePump :: "nat \<Rightarrow> hub \<Rightarrow> hub" where
  "writePump p = update_client p (\<lambda>c. if cl_pump c then pump_round c (cl_Send c) else c)"

text \<open>The connection is lost or closed from the other side.\<close>

definition lose :: "nat \<Rightarrow> hub \<Rightarrow> hub" where
  "lose p = update_client p (\<lambda>c. c\<lparr>cl_broken := True\<rparr>)"

section \<open>The invariant\<close>

text \<open>Every entry is the client of that name, is in the heap, and its queue is open.\<close>

definition hub_ok :: "hub \<Rightarrow> bool" where
  "hub_ok h \<longleftrightarrow> distinct (map fst (hub_clients h)) \<and>
     (\<forall>u p. map_of (hub_clients h) u = Some p \<longrightarrow>
        p < length (hub_heap h) \<and> cl_ID (client_at h p) = u \<and> \<not> cl_closed (client_at h p))"

text \<open>The registered clients, as pointers.\<close>

definition registered :: "hub \<Rightarrow> nat \<Rightarrow> bool" where
  "registered h p \<longleftrightarrow> p \<in> snd ` set (hub_clients h)"

lemma update_client_simps [simp]:
  "hub_clients (update_client p f h) = hub_clients h"
  "length (hub_heap (update_client p f h)) = length (hub_heap h)"
  by (simp_all add: update_client_def)

lemma client_at_update:
  "client_at (update_client p f h) q =
    (if p = q \<and> p < length (hub_heap h) then f (client_at h p) else client_at h q)"
  by (cases "p < length (hub_heap h)") (auto simp: update_client_def client_at_def nth_list_update list_update_beyond)

lemma client_at_clients [simp]: "client_at (h\<lparr>hub_clients := xs\<rparr>) p = client_at h p"
  by (simp add: client_at_def)

lemma registered_update [simp]: "registered (update_client p f h) q = registered h q"
  by (simp add: registered_def)

lemma hub_okD:
  assumes "hub_ok h" "map_of (hub_clients h) u = Some p"
  shows "p < length (hub_heap h)" "cl_ID (client_at h p) = u" "\<not> cl_closed (client_at h p)" "registered h p"
proof -
  show "p < length (hub_heap h)" "cl_ID (client_at h p) = u" "\<not> cl_closed (client_at h p)"
    using assms unfolding hub_ok_def by blast+
  show "registered h p"
    unfolding registered_def using map_of_SomeD [OF assms(2)] by (rule rev_image_eqI) simp
qed

lemma registered_iff: "hub_ok h \<Longrightarrow> registered h p \<longleftrightarrow> map_of (hub_clients h) (cl_ID (client_at h p)) = Some p"
proof
  assume h: "hub_ok h" and "registered h p"
  then obtain u where "(u, p) \<in> set (hub_clients h)" by (auto simp: registered_def)
  then have "map_of (hub_clients h) u = Some p" using h by (simp add: hub_ok_def)
  then show "map_of (hub_clients h) (cl_ID (client_at h p)) = Some p" using hub_okD(2) [OF h] by simp
qed (rule hub_okD(4))

lemma registeredD:
  assumes "hub_ok h" "registered h p"
  shows "map_of (hub_clients h) (cl_ID (client_at h p)) = Some p" "p < length (hub_heap h)" "\<not> cl_closed (client_at h p)"
proof -
  show m: "map_of (hub_clients h) (cl_ID (client_at h p)) = Some p" using assms registered_iff by blast
  show "p < length (hub_heap h)" "\<not> cl_closed (client_at h p)" using hub_okD [OF assms(1) m] by blast+
qed

text \<open>What an operation may do to the clients: everything but change their names or close queues.\<close>

lemma hub_ok_update:
  assumes "hub_ok h" "\<And>c. cl_ID (f c) = cl_ID c" "\<And>c. cl_closed (f c) = cl_closed c"
  shows "hub_ok (update_client p f h)"
  using assms by (auto simp: hub_ok_def client_at_update)

lemma hub_ok_Register:
  assumes "hub_ok h" "p < length (hub_heap h)" "\<not> cl_closed (client_at h p)"
  shows "hub_ok (Register p h)"
  using assms by (auto simp: hub_ok_def Register_def distinct_update update_conv' client_at_def split: if_splits)

lemma Unregister_ok:
  assumes "hub_ok h"
  shows "\<exists>h1. Unregister p h = Some h1 \<and> hub_ok h1"
proof (cases "map_of (hub_clients h) (cl_ID (client_at h p)) = Some p")
  case True
  let ?k = "cl_ID (client_at h p)"
  let ?h = "update_client p (\<lambda>c. c\<lparr>cl_closed := True\<rparr>) (h\<lparr>hub_clients := AList.delete ?k (hub_clients h)\<rparr>)"
  have "q < length (hub_heap ?h) \<and> cl_ID (client_at ?h q) = u \<and> \<not> cl_closed (client_at ?h q)"
    if q: "map_of (hub_clients ?h) u = Some q" for u q
  proof -
    have u: "u \<noteq> ?k" "map_of (hub_clients h) u = Some q"
      using q by (simp_all add: delete_conv' split: if_splits)
    then have "q \<noteq> p" using hub_okD(2) [OF assms u(2)] by blast
    then show ?thesis using hub_okD [OF assms u(2)] by (simp add: client_at_update)
  qed
  then have "hub_ok ?h" using assms by (auto simp: hub_ok_def distinct_delete)
  then show ?thesis using hub_okD(3) [OF assms True] True by (simp add: Unregister_def Let_def)
qed (use assms in \<open>simp add: Unregister_def Let_def\<close>)

lemma pump_round_fields [simp]:
  "cl_ID (pump_round c ms) = cl_ID c" "cl_Role (pump_round c ms) = cl_Role c" "cl_Code (pump_round c ms) = cl_Code c"
  "cl_closed (pump_round c ms) = cl_closed c" "cl_stage (pump_round c ms) = cl_stage c"
  by (cases ms; simp)+

section \<open>Broadcasting\<close>

text \<open>The hub with a message in the queue of every registered client that \<open>to\<close> holds of and that has
  room for it.\<close>

definition enqueue :: "ws_message \<Rightarrow> hub_client \<Rightarrow> hub_client" where
  "enqueue m c = (if length (cl_Send c) < queue_size then c\<lparr>cl_Send := cl_Send c @ [m]\<rparr> else c)"

definition deliver :: "(hub_client \<Rightarrow> bool) \<Rightarrow> ws_message \<Rightarrow> hub \<Rightarrow> hub" where
  "deliver to m h = h\<lparr>hub_heap :=
     map (\<lambda>p. if registered h p \<and> to (client_at h p) then enqueue m (client_at h p) else client_at h p)
       [0..<length (hub_heap h)]\<rparr>"

lemma enqueue_fields [simp]:
  "cl_ID (enqueue m c) = cl_ID c" "cl_Role (enqueue m c) = cl_Role c" "cl_Code (enqueue m c) = cl_Code c"
  "cl_Conn (enqueue m c) = cl_Conn c" "cl_closed (enqueue m c) = cl_closed c" "cl_stage (enqueue m c) = cl_stage c"
  "cl_broken (enqueue m c) = cl_broken c" "cl_pump (enqueue m c) = cl_pump c"
  by (simp_all add: enqueue_def)

lemma deliver_simps [simp]:
  "hub_clients (deliver to m h) = hub_clients h" "length (hub_heap (deliver to m h)) = length (hub_heap h)"
  "registered (deliver to m h) p = registered h p"
  by (simp_all add: deliver_def registered_def)

lemma client_at_deliver:
  "p < length (hub_heap h) \<Longrightarrow> client_at (deliver to m h) p =
    (if registered h p \<and> to (client_at h p) then enqueue m (client_at h p) else client_at h p)"
  by (simp add: deliver_def client_at_def)

lemma hub_eqI:
  assumes "hub_clients h = hub_clients h1" "length (hub_heap h) = length (hub_heap h1)"
    "\<And>p. p < length (hub_heap h) \<Longrightarrow> client_at h p = client_at h1 p"
  shows "h = (h1 :: hub)"
proof -
  have "hub_heap h = hub_heap h1" using assms by (intro nth_equalityI) (simp_all add: client_at_def)
  then show ?thesis using assms(1) by simp
qed

lemma try_send_open: "\<not> cl_closed (client_at h p) \<Longrightarrow> try_send m p h = Some (update_client p (enqueue m) h)"
  by (auto simp: try_send_def Let_def update_client_def enqueue_def client_at_def list_update_same_conv
      intro!: list_update_id [symmetric])

lemma send_each_spec:
  assumes "distinct (map snd ps)" "\<forall>(u, p)\<in>set ps. cl_ID (client_at h p) = u \<and> \<not> cl_closed (client_at h p)"
  shows "\<exists>h1. send_each to m ps h = Some h1 \<and> hub_clients h1 = hub_clients h \<and>
    length (hub_heap h1) = length (hub_heap h) \<and>
    (\<forall>q < length (hub_heap h). client_at h1 q =
      (if q \<in> snd ` set ps \<and> to (cl_ID (client_at h q)) (client_at h q) then enqueue m (client_at h q)
       else client_at h q))"
  using assms
proof (induction ps arbitrary: h)
  case (Cons x ps)
  obtain u p where x: "x = (u, p)" by fastforce
  let ?h = "if to u (client_at h p) then update_client p (enqueue m) h else h"
  have e: "send_each to m (x # ps) h = send_each to m ps ?h"
    using Cons.prems(2) by (auto simp: x try_send_open)
  have "distinct (map snd ps)" "\<forall>(u, q)\<in>set ps. cl_ID (client_at ?h q) = u \<and> \<not> cl_closed (client_at ?h q)"
    using Cons.prems by (auto simp: client_at_update)
  from Cons.IH [OF this] Cons.prems show ?case
    unfolding e by (fastforce simp: x client_at_update)
qed simp

lemma registered_distinct: "hub_ok h \<Longrightarrow> distinct (map snd (hub_clients h))"
proof -
  assume h: "hub_ok h"
  have "map fst (hub_clients h) = map (\<lambda>p. cl_ID (client_at h p)) (map snd (hub_clients h))"
    using h by (auto simp: hub_ok_def)
  then show ?thesis using h distinct_map by (metis hub_ok_def)
qed

lemma send_each_deliver:
  assumes "hub_ok h"
  shows "send_each to m (hub_clients h) h = Some (deliver (\<lambda>c. to (cl_ID c) c) m h)"
proof -
  have "\<forall>(u, p)\<in>set (hub_clients h). cl_ID (client_at h p) = u \<and> \<not> cl_closed (client_at h p)"
    using assms by (auto simp: hub_ok_def)
  from send_each_spec [OF registered_distinct [OF assms] this] obtain h1 where h1:
    "send_each to m (hub_clients h) h = Some h1" "hub_clients h1 = hub_clients h"
    "length (hub_heap h1) = length (hub_heap h)"
    "\<forall>q < length (hub_heap h). client_at h1 q =
      (if q \<in> snd ` set (hub_clients h) \<and> to (cl_ID (client_at h q)) (client_at h q) then enqueue m (client_at h q)
       else client_at h q)"
    by blast
  then have "h1 = deliver (\<lambda>c. to (cl_ID c) c) m h"
    by (intro hub_eqI) (simp_all add: client_at_deliver registered_def)
  with h1(1) show ?thesis by simp
qed

lemma Broadcast_deliver:
  assumes "hub_ok h"
  shows "BroadcastSession m sender code h = Some (deliver (\<lambda>c. cl_ID c \<noteq> sender \<and> cl_Code c = code) m h)"
    "BroadcastSessionAll m code h = Some (deliver (\<lambda>c. cl_Code c = code) m h)"
  by (simp_all add: BroadcastSession_def BroadcastSessionAll_def send_each_deliver [OF assms] conj_commute)

lemma hub_ok_deliver: "hub_ok h \<Longrightarrow> hub_ok (deliver to m h)"
  by (auto simp: hub_ok_def client_at_deliver)

lemma SendRaw_ok: "hub_ok h \<Longrightarrow> \<exists>h1. SendRaw u m h = Some h1 \<and> hub_ok h1"
  using hub_okD [of h u] by (auto simp: SendRaw_def try_send_open intro!: hub_ok_update split: option.split)

end
