(* ===== verification/ServerHandlers.thy ===== *)
theory ServerHandlers
  imports ServerHub
begin

text \<open>
  The handlers of the server (\<open>src/ide/handlers.go\<close>): creating and joining a session, and the
  WebSocket connections, from \<open>handleWS\<close> over the messages of a client to its clean-up. A handler is
  one step here; \<open>handleWS\<close> is cut into its stages, so that others' messages come between them. What
  the replicated log does with a command is an argument (\<open>consensus\<close>), as are the reply of the
  playground and random numbers. The result \<open>None\<close> is a panic.
\<close>

section \<open>State and messages\<close>

record server =
  srv_hub :: hub
  srv_sessions :: sessions

text \<open>Without an RSM a command is done at once. With one, \<open>Submit\<close> returns when the command or its
  failure is known; by then this node has applied some commands of the log.\<close>

datatype consensus = SingleNode | Replicated "command list" bool

definition submit :: "consensus \<Rightarrow> command \<Rightarrow> server \<Rightarrow> server \<times> bool" where
  "submit rsm cmd s = (case rsm of
     SingleNode \<Rightarrow> (s\<lparr>srv_sessions := DoOp cmd (srv_sessions s)\<rparr>, True)
   | Replicated applied ok \<Rightarrow> (s\<lparr>srv_sessions := run_log applied (srv_sessions s)\<rparr>, ok))"

text \<open>The fields of \<open>incomingMsg\<close> that are read; of the nested proposal that is the ID.\<close>

record incoming_msg =
  im_Type :: jsstring
  im_Action :: jsstring
  im_ID :: jsstring
  im_Replacement :: jsstring
  im_Proposal :: "jsstring option"
  im_UserID :: jsstring
  im_Role :: jsstring
  im_OriginalText :: jsstring
  im_RelStart :: jsstring
  im_RelEnd :: jsstring
  im_StartLine :: int
  im_EndLine :: int
  im_To :: jsstring

text \<open>What the reading loop gets: a binary frame, or a text frame with what \<open>json.Unmarshal\<close> makes of
  it and what another client will make of it when it is passed on as it is.\<close>

datatype got_msg = GotBinary "byte list" | GotText "incoming_msg option" incoming

definition no_msg :: incoming_msg where
  "no_msg = \<lparr>im_Type = [], im_Action = [], im_ID = [], im_Replacement = [], im_Proposal = None,
     im_UserID = [], im_Role = [], im_OriginalText = [], im_RelStart = [], im_RelEnd = [],
     im_StartLine = 0, im_EndLine = 0, im_To = []\<rparr>"

text \<open>The frames of the page's hook as the server gets them.\<close>

fun got_json :: "client_msg \<Rightarrow> got_msg" where
  "got_json (SendRoleChange u r) =
     GotText (Some (no_msg\<lparr>im_Type := js ''role_change'', im_UserID := u, im_Role := r\<rparr>)) (ToPage (RoleChange u r))"
| "got_json (SendProposalAdd i repl orig rs re sl el) =
     GotText (Some (no_msg\<lparr>im_Type := js ''proposal'', im_Action := js ''add'', im_ID := i, im_Replacement := repl,
       im_OriginalText := orig, im_RelStart := rs, im_RelEnd := re, im_StartLine := int sl, im_EndLine := int el\<rparr>))
       OtherText"
| "got_json (SendAccept p) =
     GotText (Some (no_msg\<lparr>im_Type := js ''proposal'', im_Action := js ''accept'', im_Proposal := Some (prop_id p)\<rparr>))
       (ToPage (ProposalMsg (Accept (prop_id p))))"
| "got_json (SendReject i) =
     GotText (Some (no_msg\<lparr>im_Type := js ''proposal'', im_Action := js ''reject'', im_Proposal := Some i\<rparr>))
       (ToPage (ProposalMsg (Reject i)))"
| "got_json (SendRunResult ls st) =
     GotText (Some (no_msg\<lparr>im_Type := js ''run_result''\<rparr>)) (ToPage (RunResult ls st))"

fun got_frame :: "frame \<Rightarrow> got_msg" where
  "got_frame (StateFrame b) = GotBinary b"
| "got_frame (SyncSV d from) = GotText (Some (no_msg\<lparr>im_Type := js ''sync_sv''\<rparr>)) (SyncSVIn d from)"
| "got_frame (SyncUpdate d to) = GotText (Some (no_msg\<lparr>im_Type := js ''sync_update'', im_To := to\<rparr>)) (SyncUpdateIn d)"
| "got_frame (AwarenessFrame d) = GotText (Some (no_msg\<lparr>im_Type := js ''awareness''\<rparr>)) (AwarenessIn d)"
| "got_frame (Json m) = got_json m"

section \<open>HTTP requests\<close>

datatype http_reply = HttpError nat | JoinReply jsstring jsstring | Passed "byte list"

text \<open>\<open>body\<close> is the decoded request, or \<open>None\<close> if it does not decode.\<close>

definition serveCreate :: "consensus \<Rightarrow> bool \<Rightarrow> jsstring option \<Rightarrow> nat list \<Rightarrow> server \<Rightarrow> http_reply \<times> server" where
  "serveCreate rsm post body rands s =
     (if \<not> post then (HttpError 405, s)
      else case body of
        None \<Rightarrow> (HttpError 400, s)
      | Some user \<Rightarrow>
          if user = [] then (HttpError 400, s)
          else let code = generateCode rands;
                   (s1, ok) = submit rsm (SessionCmd (js ''create'') code user (js ''editor'')) s
               in if \<not> ok then (HttpError 503, s1) else (JoinReply code (js ''editor''), s1))"

definition serveJoin :: "consensus \<Rightarrow> bool \<Rightarrow> (jsstring \<times> jsstring) option \<Rightarrow> server \<Rightarrow> http_reply \<times> server" where
  "serveJoin rsm post body s =
     (if \<not> post then (HttpError 405, s)
      else case body of
        None \<Rightarrow> (HttpError 400, s)
      | Some (code, user) \<Rightarrow>
          if \<not> SessionExists (srv_sessions s) code then (HttpError 404, s)
          else let (s1, ok) = submit rsm (SessionCmd (js ''join'') code user (js ''viewer'')) s
               in if \<not> ok then (HttpError 503, s1)
                  else (JoinReply code (GetRole (srv_sessions s1) code user), s1))"

text \<open>The playground's reply, if it was reached, goes back as it came.\<close>

definition serveRun :: "bool \<Rightarrow> byte list option \<Rightarrow> (byte list \<Rightarrow> byte list option) \<Rightarrow> http_reply" where
  "serveRun post body playground =
     (if \<not> post then HttpError 405
      else case body of
        None \<Rightarrow> HttpError 400
      | Some b \<Rightarrow> (case playground b of None \<Rightarrow> HttpError 502 | Some r \<Rightarrow> Passed r))"

section \<open>Messages of a client\<close>

definition on_hub :: "(hub \<Rightarrow> hub option) \<Rightarrow> server \<Rightarrow> server option" where
  "on_hub f s = map_option (\<lambda>h. s\<lparr>srv_hub := h\<rparr>) (f (srv_hub s))"

definition sendRedirect :: "int \<Rightarrow> nat \<Rightarrow> server \<Rightarrow> server" where
  "sendRedirect leaderPort p s =
     s\<lparr>srv_hub := WriteMessage (TextMsg (Redirect (PortNumber leaderPort))) p (srv_hub s)\<rparr>"

definition broadcastParticipants :: "jsstring \<Rightarrow> server \<Rightarrow> server option" where
  "broadcastParticipants code s =
     on_hub (BroadcastSessionAll (TextMsg (ToPage (Participants (SessionParticipants code (srv_hub s))))) code) s"

definition the_client :: "server \<Rightarrow> nat \<Rightarrow> hub_client" where
  "the_client s p = client_at (srv_hub s) p"

definition serveProposal :: "consensus \<Rightarrow> int \<Rightarrow> nat \<Rightarrow> incoming_msg \<Rightarrow> server \<Rightarrow> server option" where
  "serveProposal rsm leaderPort p m s =
     (let client = the_client s p in
      if im_Action m = js ''add'' then
        (if cl_Role client \<noteq> js ''proposer'' \<and> cl_Role client \<noteq> js ''editor'' then Some s
         else let proposal = \<lparr>gp_ID = im_ID m, gp_Author = cl_ID client, gp_Replacement = im_Replacement m,
                    gp_OriginalText = im_OriginalText m, gp_RelStart = im_RelStart m, gp_RelEnd = im_RelEnd m,
                    gp_StartLine = im_StartLine m, gp_EndLine = im_EndLine m\<rparr>;
                  (s1, ok) = submit rsm (ProposalCmd (cl_Code client) proposal (js ''add'')) s
              in if \<not> ok then Some (sendRedirect leaderPort p s1)
                 else on_hub (BroadcastSessionAll (TextMsg (ToPage (ProposalMsg (Add
                   \<lparr>prop_id = gp_ID proposal, prop_author = gp_Author proposal, replacement = gp_Replacement proposal,
                    originalText = gp_OriginalText proposal, relStart = gp_RelStart proposal,
                    relEnd = gp_RelEnd proposal, startLine = gp_StartLine proposal, endLine = gp_EndLine proposal,
                    startIndex = None, endIndex = None\<rparr>)))) (cl_Code client)) s1)
      else if im_Action m = js ''accept'' \<or> im_Action m = js ''reject'' then
        (if cl_Role client \<noteq> js ''editor'' then Some s
         else case im_Proposal m of
           None \<Rightarrow> Some s
         | Some i \<Rightarrow>
             let (s1, ok) = submit rsm (ProposalCmd (cl_Code client)
                   \<lparr>gp_ID = i, gp_Author = [], gp_Replacement = [], gp_OriginalText = [], gp_RelStart = [],
                    gp_RelEnd = [], gp_StartLine = 0, gp_EndLine = 0\<rparr> (im_Action m)) s
             in if \<not> ok then Some (sendRedirect leaderPort p s1)
                else on_hub (BroadcastSessionAll (TextMsg (ToPage (ProposalMsg
                  (if im_Action m = js ''accept'' then Accept i else Reject i)))) (cl_Code client)) s1)
      else Some s)"

definition serveRoleChange :: "consensus \<Rightarrow> int \<Rightarrow> nat \<Rightarrow> incoming_msg \<Rightarrow> server \<Rightarrow> server option" where
  "serveRoleChange rsm leaderPort p m s =
     (let client = the_client s p in
      if cl_Role client \<noteq> js ''editor'' then Some s
      else if im_Role m \<noteq> js ''editor'' \<and> im_Role m \<noteq> js ''proposer'' \<and> im_Role m \<noteq> js ''viewer'' then Some s
      else let s1 = s\<lparr>srv_hub := UpdateClientRole (im_UserID m) (im_Role m) (srv_hub s)\<rparr>;
               (s2, ok) = submit rsm (RoleChangeCmd (cl_Code client) (im_UserID m) (im_Role m)) s1
           in if \<not> ok then Some (sendRedirect leaderPort p s2)
              else Option.bind (on_hub (BroadcastSessionAll
                     (TextMsg (ToPage (RoleChange (im_UserID m) (im_Role m)))) (cl_Code client)) s2)
                   (broadcastParticipants (cl_Code client)))"

definition relay_raw :: "nat \<Rightarrow> incoming \<Rightarrow> server \<Rightarrow> server option" where
  "relay_raw p raw s = on_hub (BroadcastSession (TextMsg raw) (cl_ID (the_client s p)) (cl_Code (the_client s p))) s"

definition serveText :: "consensus \<Rightarrow> int \<Rightarrow> nat \<Rightarrow> incoming_msg option \<Rightarrow> incoming \<Rightarrow> server \<Rightarrow> server option" where
  "serveText rsm leaderPort p msg raw s = (case msg of
     None \<Rightarrow> Some s
   | Some m \<Rightarrow>
       if im_Type m = js ''proposal'' then serveProposal rsm leaderPort p m s
       else if im_Type m = js ''role_change'' then serveRoleChange rsm leaderPort p m s
       else if im_Type m = js ''run_result'' \<or> im_Type m = js ''awareness'' \<or> im_Type m = js ''sync_sv''
       then relay_raw p raw s
       else if im_Type m = js ''sync_update'' \<and> im_To m \<noteq> [] then on_hub (SendRaw (im_To m) (TextMsg raw)) s
       else Some s)"

text \<open>The deferred clean-up of \<open>handleWS\<close>.\<close>

definition leave :: "nat \<Rightarrow> server \<Rightarrow> server option" where
  "leave p s = Option.bind (on_hub (Unregister p) (s\<lparr>srv_hub := update_client p (\<lambda>c. c\<lparr>cl_stage := Left\<rparr>) (srv_hub s)\<rparr>))
     (broadcastParticipants (cl_Code (the_client s p)))"

definition serveBinary :: "consensus \<Rightarrow> int \<Rightarrow> nat \<Rightarrow> byte list \<Rightarrow> server \<Rightarrow> server option" where
  "serveBinary rsm leaderPort p msg s =
     (let client = the_client s p in
      if cl_Role client = js ''editor'' then
        (let (s1, ok) = submit rsm (CRDTUpdateCmd (cl_Code client) msg) s
         in if \<not> ok then leave p (sendRedirect leaderPort p s1)
            else on_hub (BroadcastSession (BinaryMsg msg) (cl_ID client) (cl_Code client)) s1)
      else Some s)"

section \<open>Connections\<close>

text \<open>\<open>handleWS\<close> up to the new client, and from there to the reading loop. A refused request makes
  no connection.\<close>

definition connect :: "jsstring \<Rightarrow> jsstring \<Rightarrow> server \<Rightarrow> server" where
  "connect user code s =
     (if user = [] \<or> code = [] \<or> \<not> SessionExists (srv_sessions s) code then s
      else s\<lparr>srv_hub := (srv_hub s)\<lparr>hub_heap := hub_heap (srv_hub s) @
        [\<lparr>cl_ID = user, cl_Role = GetRole (srv_sessions s) code user, cl_Code = code, cl_Conn = [],
          cl_Send = [], cl_closed = False, cl_stage = Connecting, cl_broken = False, cl_pump = False\<rparr>]\<rparr>\<rparr>)"

definition begin_serving :: "nat \<Rightarrow> server \<Rightarrow> server option" where
  "begin_serving p s =
     (let code = cl_Code (the_client s p); doc = GetDoc (srv_sessions s) code;
          h1 = Register p (srv_hub s);
          h2 = (if 0 < length doc then WriteMessage (BinaryMsg doc) p h1 else h1);
          h3 = update_client p (\<lambda>c. c\<lparr>cl_stage := Serving, cl_pump := True\<rparr>) h2
      in broadcastParticipants code (s\<lparr>srv_hub := h3\<rparr>))"

section \<open>Steps\<close>

datatype server_event =
    Create consensus "jsstring option" "nat list"
  | Join consensus "(jsstring \<times> jsstring) option"
  | Connect jsstring jsstring
  | Begin nat
  | Receive consensus nat got_msg
  | Leave nat
  | Pump nat
  | Lost nat
  | Applied "command list"

definition at_stage :: "server \<Rightarrow> nat \<Rightarrow> stage \<Rightarrow> bool" where
  "at_stage s p st = (p < length (hub_heap (srv_hub s)) \<and> cl_stage (the_client s p) = st)"

fun server_step :: "int \<Rightarrow> server_event \<Rightarrow> server \<Rightarrow> server option" where
  "server_step port (Create rsm body rands) s = Some (snd (serveCreate rsm True body rands s))"
| "server_step port (Join rsm body) s = Some (snd (serveJoin rsm True body s))"
| "server_step port (Connect user code) s = Some (connect user code s)"
| "server_step port (Begin p) s = (if at_stage s p Connecting then begin_serving p s else Some s)"
| "server_step port (Receive rsm p (GotBinary b)) s =
     (if at_stage s p Serving then serveBinary rsm port p b s else Some s)"
| "server_step port (Receive rsm p (GotText m raw)) s =
     (if at_stage s p Serving then serveText rsm port p m raw s else Some s)"
| "server_step port (Leave p) s = (if at_stage s p Serving then leave p s else Some s)"
| "server_step port (Pump p) s =
     Some (if at_stage s p Serving \<or> at_stage s p Left then s\<lparr>srv_hub := writePump p (srv_hub s)\<rparr> else s)"
| "server_step port (Lost p) s = Some (s\<lparr>srv_hub := lose p (srv_hub s)\<rparr>)"
| "server_step port (Applied cmds) s = Some (s\<lparr>srv_sessions := run_log cmds (srv_sessions s)\<rparr>)"

fun server_run :: "int \<Rightarrow> server_event list \<Rightarrow> server \<Rightarrow> server option" where
  "server_run port [] s = Some s"
| "server_run port (e # es) s = (case server_step port e s of None \<Rightarrow> None | Some s1 \<Rightarrow> server_run port es s1)"

definition NewServer :: server where
  "NewServer = \<lparr>srv_hub = NewHub, srv_sessions = NewCollabServer\<rparr>"

end
