(* ===== verification/ServerFrame.thy ===== *)
theory ServerFrame
  imports ServerHandlers
begin

text \<open>
  What the handlers of the server leave alone. A relation between the hub before and the hub after that
  holds for each elementary change - a message put into a queue, written to a connection, a client that
  leaves - holds for what the handlers do with the hub: this is stated once, as a locale, and used for
  the roles of the connections and for what is on its way to a connection.
\<close>

locale hub_relation =
  fixes R :: "hub \<Rightarrow> hub \<Rightarrow> bool"
  assumes same: "R h h"
    and trans: "R h h1 \<Longrightarrow> R h1 h2 \<Longrightarrow> R h h2"
    and queued: "R h (update_client p (\<lambda>c. c\<lparr>cl_Send := cl_Send c @ [m]\<rparr>) h)"
    and written: "R h (WriteMessage m p h)"
    and listed: "R h (h\<lparr>hub_clients := xs\<rparr>)"
    and closed: "R h (update_client p (\<lambda>c. c\<lparr>cl_closed := True\<rparr>) h)"
    and parted: "R h (update_client p (\<lambda>c. c\<lparr>cl_stage := Left\<rparr>) h)"

context hub_relation begin

lemma try_send: "try_send m p h = Some h1 \<Longrightarrow> R h h1"
  using queued same by (auto simp: try_send_def Let_def split: if_splits)

lemma send_each: "send_each to m ps h = Some h1 \<Longrightarrow> R h h1"
proof (induction to m ps h rule: send_each.induct)
  case (2 to m u p ps h)
  then show ?case by (auto split: if_splits option.splits dest!: try_send intro: trans)
qed (simp add: same)

lemma Unregister: "Unregister p h = Some h1 \<Longrightarrow> R h h1"
  using trans [OF listed closed] same by (auto simp: Unregister_def Let_def split: if_splits)

text \<open>The operations of the hub, on the server.\<close>

lemma on_hub:
  "on_hub (BroadcastSession m u code) s = Some s1 \<Longrightarrow> R (srv_hub s) (srv_hub s1)"
  "on_hub (BroadcastSessionAll m code) s = Some s1 \<Longrightarrow> R (srv_hub s) (srv_hub s1)"
  "on_hub (SendRaw u m) s = Some s1 \<Longrightarrow> R (srv_hub s) (srv_hub s1)"
  "on_hub (Unregister p) s = Some s1 \<Longrightarrow> R (srv_hub s) (srv_hub s1)"
  using same by (auto simp: on_hub_def BroadcastSession_def BroadcastSessionAll_def SendRaw_def
      split: option.splits dest: send_each try_send Unregister)

lemma broadcastParticipants: "broadcastParticipants code s = Some s1 \<Longrightarrow> R (srv_hub s) (srv_hub s1)"
  by (auto simp: broadcastParticipants_def dest: on_hub)

lemma redirect: "R (srv_hub s) (srv_hub (sendRedirect port p s))"
  by (simp add: sendRedirect_def written)

lemma leave: "leave p s = Some s1 \<Longrightarrow> R (srv_hub s) (srv_hub s1)"
  using parted [of "srv_hub s" p]
  by (auto simp: leave_def bind_eq_Some_conv dest!: on_hub broadcastParticipants) (blast intro: trans)

lemma submitted: "submit rsm c s = (s1, ok) \<Longrightarrow> srv_hub s1 = srv_hub s"
  by (auto simp: submit_def split: consensus.splits)

text \<open>The handlers, but for the role change.\<close>

lemma serveBinary: "serveBinary rsm port p b s = Some s1 \<Longrightarrow> R (srv_hub s) (srv_hub s1)"
  using same redirect
  by (auto simp: serveBinary_def Let_def simp del: js_simps split: prod.splits if_splits
      dest!: submitted on_hub leave) (metis trans)

lemma serveProposal: "serveProposal rsm port p m s = Some s1 \<Longrightarrow> R (srv_hub s) (srv_hub s1)"
proof -
  assume e: "serveProposal rsm port p m s = Some s1"
  have "R (srv_hub s) (srv_hub s1)"
    if "(case submit rsm c s of (s1, ok) \<Rightarrow>
      if \<not> ok then Some (sendRedirect port p s1) else on_hub (BroadcastSessionAll msg code1) s1) = Some s1"
    for c msg code1
    using that redirect by (auto split: prod.splits if_splits dest!: submitted on_hub) metis
  with e show ?thesis
    using same unfolding serveProposal_def Let_def by (auto simp del: js_simps split: option.splits if_splits)
qed

lemma serveText:
  assumes "serveText rsm port p m raw s = Some s1"
  shows "R (srv_hub s) (srv_hub s1) \<or>
    (\<exists>x. m = Some x \<and> im_Type x = js ''role_change'' \<and> serveRoleChange rsm port p x s = Some s1)"
  using assms same
  by (auto simp: serveText_def relay_raw_def simp del: js_simps split: option.splits if_splits
      dest: on_hub serveProposal)

end

text \<open>When changing a role is one of the changes, all handlers are covered.\<close>

locale hub_relation_roles = hub_relation +
  assumes roled: "R h (update_client p (\<lambda>c. c\<lparr>cl_Role := r\<rparr>) h)"

context hub_relation_roles begin

lemma UpdateClientRole: "R h (UpdateClientRole u r h)"
  by (simp add: UpdateClientRole_def same roled split: option.split)

lemma serveRoleChange: "serveRoleChange rsm port p m s = Some s1 \<Longrightarrow> R (srv_hub s) (srv_hub s1)"
proof -
  assume e: "serveRoleChange rsm port p m s = Some s1"
  let ?s = "s\<lparr>srv_hub := UpdateClientRole (im_UserID m) (im_Role m) (srv_hub s)\<rparr>"
  let ?c = "RoleChangeCmd (cl_Code (the_client s p)) (im_UserID m) (im_Role m)"
  obtain s2 ok where sub: "submit rsm ?c ?s = (s2, ok)" by fastforce
  have h: "R (srv_hub s) (srv_hub s2)" using submitted [OF sub] UpdateClientRole by simp
  consider "s1 = s" | "s1 = sendRedirect port p s2"
    | s3 where "on_hub (BroadcastSessionAll (TextMsg (ToPage (RoleChange (im_UserID m) (im_Role m)))) (cl_Code (the_client s p))) s2 = Some s3"
        "broadcastParticipants (cl_Code (the_client s p)) s3 = Some s1"
    using e sub by (auto simp: serveRoleChange_def Let_def bind_eq_Some_conv simp del: js_simps split: if_splits)
  then show ?thesis
  proof cases
    case 2
    then show ?thesis using trans [OF h redirect] by simp
  next
    case 3
    then show ?thesis using trans [OF trans [OF h on_hub(2)] broadcastParticipants] by blast
  qed (simp add: same)
qed

lemma received:
  "server_step port (Receive rsm p m) s = Some s1 \<Longrightarrow> R (srv_hub s) (srv_hub s1)"
  using same by (cases m) (auto split: if_splits dest!: serveText dest: serveBinary serveRoleChange)

end

section \<open>The roles of the connections\<close>

definition same_roles :: "hub \<Rightarrow> hub \<Rightarrow> bool" where
  "same_roles h h1 \<longleftrightarrow> length (hub_heap h1) = length (hub_heap h) \<and>
     (\<forall>q < length (hub_heap h). cl_Role (client_at h1 q) = cl_Role (client_at h q))"

interpretation roles: hub_relation same_roles
  by unfold_locales (auto simp: same_roles_def client_at_update WriteMessage_def)

section \<open>What is on its way to a connection\<close>

text \<open>What was written stays written, what is queued stays in its place, a lost connection stays lost.\<close>

definition onward :: "nat \<Rightarrow> hub \<Rightarrow> hub \<Rightarrow> bool" where
  "onward q h h1 \<longleftrightarrow> length (hub_heap h) \<le> length (hub_heap h1) \<and> (q < length (hub_heap h) \<longrightarrow>
     (\<exists>xs ys. cl_Conn (client_at h1 q) = cl_Conn (client_at h q) @ xs \<and>
        cl_Send (client_at h1 q) = cl_Send (client_at h q) @ ys) \<and>
     (cl_pump (client_at h q) \<longrightarrow> cl_pump (client_at h1 q)) \<and>
     (cl_broken (client_at h q) \<longrightarrow> cl_broken (client_at h1 q)) \<and>
     (cl_stage (client_at h q) \<noteq> Connecting \<longrightarrow> cl_stage (client_at h1 q) \<noteq> Connecting))"

lemma onwardD:
  assumes "onward q h h1" "q < length (hub_heap h)"
  shows "q < length (hub_heap h1)" "cl_pump (client_at h q) \<Longrightarrow> cl_pump (client_at h1 q)"
    "cl_broken (client_at h q) \<Longrightarrow> cl_broken (client_at h1 q)"
    "cl_stage (client_at h q) \<noteq> Connecting \<Longrightarrow> cl_stage (client_at h1 q) \<noteq> Connecting"
    "\<exists>xs ys. cl_Conn (client_at h1 q) = cl_Conn (client_at h q) @ xs \<and> cl_Send (client_at h1 q) = cl_Send (client_at h q) @ ys"
  using assms by (auto simp: onward_def)

lemma onward_trans: "onward q h h1 \<Longrightarrow> onward q h1 h2 \<Longrightarrow> onward q h h2"
  unfolding onward_def by (metis append.assoc order_less_le_trans order_trans)

interpretation queue: hub_relation_roles "onward q"
  by unfold_locales (auto simp: client_at_update WriteMessage_def onward_def intro: onward_trans)

lemma onward_begin:
  assumes "begin_serving p s = Some s1"
  shows "onward q (srv_hub s) (srv_hub s1)"
proof -
  let ?doc = "GetDoc (srv_sessions s) (cl_Code (the_client s p))" and ?h1 = "Register p (srv_hub s)"
  let ?h2 = "if 0 < length ?doc then WriteMessage (BinaryMsg ?doc) p ?h1 else ?h1"
  let ?h3 = "update_client p (\<lambda>c. c\<lparr>cl_stage := Serving, cl_pump := True\<rparr>) ?h2"
  have "onward q (srv_hub s) ?h1" by (simp add: Register_def queue.listed)
  moreover have "onward q ?h1 ?h2" by (simp add: queue.same queue.written)
  moreover have "onward q ?h2 ?h3" by (simp add: onward_def client_at_update)
  moreover have "broadcastParticipants (cl_Code (the_client s p)) (s\<lparr>srv_hub := ?h3\<rparr>) = Some s1"
    using assms by (simp add: begin_serving_def Let_def)
  from queue.broadcastParticipants [OF this, of q] have "onward q ?h3 (srv_hub s1)" by simp
  ultimately show ?thesis by (blast intro: onward_trans)
qed

text \<open>No event but the pump of the connection takes anything out of its queue.\<close>

lemma onward_step:
  assumes "server_step port e s = Some s1" "e \<noteq> Pump q"
  shows "onward q (srv_hub s) (srv_hub s1)"
proof (cases e)
  case (Begin p)
  with assms(1) show ?thesis by (auto simp: queue.same intro: onward_begin split: if_splits)
next
  case (Create rsm body rands)
  with assms(1) show ?thesis
    by (auto simp: serveCreate_def Let_def queue.same split: option.splits prod.splits dest!: queue.submitted)
next
  case (Join rsm body)
  with assms(1) show ?thesis
    by (auto simp: serveJoin_def Let_def queue.same split: option.splits prod.splits dest!: queue.submitted)
next
  case (Connect user code)
  with assms(1) have "s1 = connect user code s" by simp
  then show ?thesis by (auto simp: connect_def onward_def client_at_def nth_append)
next
  case (Receive rsm p m)
  with assms(1) show ?thesis by (auto dest: queue.received)
next
  case (Leave p)
  with assms(1) show ?thesis by (auto simp: queue.same dest: queue.leave split: if_splits)
next
  case (Pump p)
  with assms(1) have "srv_hub s1 = writePump p (srv_hub s) \<or> srv_hub s1 = srv_hub s" by auto
  then show ?thesis using assms(2) Pump by (auto simp: onward_def writePump_def client_at_update)
next
  case (Lost p)
  with assms(1) have "s1 = s\<lparr>srv_hub := lose p (srv_hub s)\<rparr>" by simp
  then show ?thesis by (auto simp: onward_def lose_def client_at_update)
next
  case (Applied cmds)
  with assms(1) show ?thesis by (auto simp: queue.same)
qed

end
