(* ===== verification/ServerSafety.thy ===== *)
theory ServerSafety
  imports ServerFrame
begin

text \<open>
  What holds of the server in all runs: no handler panics, roles are roles, the document of a session
  changes only by an editor's update, messages stay in their session; and what does not: a role
  change is not confined to the session it is made in, and does not reach a connection that was
  replaced.
\<close>

section \<open>The invariant\<close>

definition valid_role :: "jsstring \<Rightarrow> bool" where
  "valid_role r \<longleftrightarrow> r = js ''editor'' \<or> r = js ''proposer'' \<or> r = js ''viewer''"

fun cmd_ok :: "command \<Rightarrow> bool" where
  "cmd_ok (RoleChangeCmd code user role) = valid_role role"
| "cmd_ok c = True"

definition roles_ok :: "sessions \<Rightarrow> bool" where
  "roles_ok cs \<longleftrightarrow> (\<forall>code u r. ss_Roles (getOrCreate code cs) u = Some r \<longrightarrow> valid_role r)"

definition server_ok :: "server \<Rightarrow> bool" where
  "server_ok s \<longleftrightarrow> hub_ok (srv_hub s) \<and> roles_ok (srv_sessions s) \<and>
     (\<forall>p < length (hub_heap (srv_hub s)). valid_role (cl_Role (the_client s p)) \<and>
        (cl_stage (the_client s p) = Connecting \<longrightarrow> \<not> cl_closed (the_client s p) \<and> \<not> registered (srv_hub s) p))"

text \<open>The commands an event brings from the log.\<close>

fun log_of :: "consensus \<Rightarrow> command list" where
  "log_of SingleNode = []"
| "log_of (Replicated applied ok) = applied"

fun event_log :: "server_event \<Rightarrow> command list" where
  "event_log (Create rsm body rands) = log_of rsm"
| "event_log (Join rsm body) = log_of rsm"
| "event_log (Receive rsm p m) = log_of rsm"
| "event_log (Applied cmds) = cmds"
| "event_log e = []"

definition entries_ok :: "server_event \<Rightarrow> bool" where
  "entries_ok e \<longleftrightarrow> list_all cmd_ok (event_log e)"

lemma valid_role_simps [simp]:
  "valid_role (js ''editor'')" "valid_role (js ''proposer'')" "valid_role (js ''viewer'')"
  by (simp_all only: valid_role_def simp_thms)

lemma roles_ok_DoOp: "roles_ok cs \<Longrightarrow> cmd_ok c \<Longrightarrow> roles_ok (DoOp c cs)"
  by (cases c) (auto simp: roles_ok_def simp del: js_simps)

lemma roles_ok_log: "roles_ok cs \<Longrightarrow> list_all cmd_ok cmds \<Longrightarrow> roles_ok (run_log cmds cs)"
  by (induction cmds arbitrary: cs) (simp_all add: roles_ok_DoOp)

lemma roles_ok_GetRole: "roles_ok cs \<Longrightarrow> valid_role (GetRole cs code u)"
  by (auto simp: roles_ok_def GetRole_getOrCreate simp del: js_simps split: option.split)

lemma submit_hub [simp]: "srv_hub (fst (submit rsm c s)) = srv_hub s"
  by (simp add: submit_def split: consensus.split)

lemma submit_roles:
  "roles_ok (srv_sessions s) \<Longrightarrow> cmd_ok c \<Longrightarrow> list_all cmd_ok (log_of rsm) \<Longrightarrow>
   roles_ok (srv_sessions (fst (submit rsm c s)))"
  by (cases rsm) (simp_all add: submit_def roles_ok_DoOp roles_ok_log)

lemma server_okI_sessions:
  "server_ok s \<Longrightarrow> srv_hub s1 = srv_hub s \<Longrightarrow> roles_ok (srv_sessions s1) \<Longrightarrow> server_ok s1"
  by (simp add: server_ok_def the_client_def)

lemma server_ok_submit:
  "server_ok s \<Longrightarrow> cmd_ok c \<Longrightarrow> list_all cmd_ok (log_of rsm) \<Longrightarrow> submit rsm c s = (s1, ok) \<Longrightarrow> server_ok s1"
  by (rule server_okI_sessions [of s]) (use submit_hub [of rsm c s] submit_roles [of s c rsm] in \<open>simp_all add: server_ok_def\<close>)

text \<open>An operation on the hub that keeps the names, the roles, the stages of the clients and their
  registration, and closes no queue.\<close>

definition hub_like :: "hub \<Rightarrow> hub \<Rightarrow> bool" where
  "hub_like h h1 \<longleftrightarrow> hub_clients h1 = hub_clients h \<and> length (hub_heap h1) = length (hub_heap h) \<and>
     (\<forall>p < length (hub_heap h). cl_ID (client_at h1 p) = cl_ID (client_at h p) \<and>
        cl_Code (client_at h1 p) = cl_Code (client_at h p) \<and>
        cl_stage (client_at h1 p) = cl_stage (client_at h p) \<and> cl_closed (client_at h1 p) = cl_closed (client_at h p) \<and>
        (valid_role (cl_Role (client_at h p)) \<longrightarrow> valid_role (cl_Role (client_at h1 p))))"

lemma hub_like_refl [simp]: "hub_like h h"
  by (simp add: hub_like_def)

lemma hub_like_deliver [simp]: "hub_like h (deliver to m h)"
  by (simp add: hub_like_def client_at_deliver)

lemma hub_like_WriteMessage [simp]: "hub_like h (WriteMessage m p h)"
  by (simp add: hub_like_def WriteMessage_def client_at_update)

lemma hub_like_writePump [simp]: "hub_like h (writePump p h)"
  by (simp add: hub_like_def writePump_def client_at_update)

lemma hub_like_lose [simp]: "hub_like h (lose p h)"
  by (simp add: hub_like_def lose_def client_at_update)

lemma hub_like_UpdateClientRole: "valid_role r \<Longrightarrow> hub_like h (UpdateClientRole u r h)"
  by (simp add: hub_like_def UpdateClientRole_def client_at_update split: option.split)

lemma hub_like_SendRaw: "hub_ok h \<Longrightarrow> SendRaw u m h = Some h1 \<Longrightarrow> hub_like h h1"
proof (cases "map_of (hub_clients h) u")
  case (Some p)
  assume h: "hub_ok h" and s: "SendRaw u m h = Some h1"
  from s hub_okD(3) [OF h Some] have "h1 = update_client p (enqueue m) h"
    by (simp add: SendRaw_def Some try_send_open)
  then show ?thesis by (simp add: hub_like_def client_at_update)
qed (simp add: SendRaw_def)

lemma hub_ok_like:
  assumes h: "hub_ok h" and l: "hub_like h h1"
  shows "hub_ok h1"
  unfolding hub_ok_def
proof (intro conjI allI impI)
  show "distinct (map fst (hub_clients h1))" using h l by (simp add: hub_ok_def hub_like_def)
  fix u p assume "map_of (hub_clients h1) u = Some p"
  then have m: "map_of (hub_clients h) u = Some p" using l by (simp add: hub_like_def)
  then show "p < length (hub_heap h1)" "cl_ID (client_at h1 p) = u" "\<not> cl_closed (client_at h1 p)"
    using hub_okD [OF h m] l by (simp_all add: hub_like_def)
qed

lemma server_ok_like:
  "server_ok s \<Longrightarrow> hub_like (srv_hub s) h1 \<Longrightarrow> server_ok (s\<lparr>srv_hub := h1\<rparr>)"
  using hub_ok_like by (auto simp: server_ok_def the_client_def hub_like_def registered_def)

lemma broadcastParticipants_ok:
  assumes "server_ok s"
  shows "\<exists>s1. broadcastParticipants code s = Some s1 \<and> server_ok s1"
  using assms Broadcast_deliver(2) [of "srv_hub s"] server_ok_like [OF assms hub_like_deliver]
  by (simp add: broadcastParticipants_def on_hub_def server_ok_def)

lemma broadcast_ok:
  assumes "server_ok s"
  shows "\<exists>s1. on_hub (BroadcastSession m u code) s = Some s1 \<and> server_ok s1"
    "\<exists>s1. on_hub (BroadcastSessionAll m code) s = Some s1 \<and> server_ok s1"
  using assms Broadcast_deliver [of "srv_hub s"] server_ok_like [OF assms hub_like_deliver]
  by (simp_all add: on_hub_def server_ok_def)

lemma redirect_ok: "server_ok s \<Longrightarrow> server_ok (sendRedirect port p s)"
  by (simp add: sendRedirect_def server_ok_like)


section \<open>No panic\<close>

lemma serveProposal_ok:
  assumes s: "server_ok s" and l: "list_all cmd_ok (log_of rsm)"
  shows "\<exists>s1. serveProposal rsm port p m s = Some s1 \<and> server_ok s1"
proof -
  have sub: "server_ok (fst (submit rsm (ProposalCmd code q a) s))" for code q a
    using server_ok_submit [OF s, of "ProposalCmd code q a" rsm] l by (cases "submit rsm (ProposalCmd code q a) s") simp
  have done1: "\<exists>s1. (case submit rsm (ProposalCmd code q a) s of (s1, ok) \<Rightarrow>
      if \<not> ok then Some (sendRedirect port p s1) else on_hub (BroadcastSessionAll msg code1) s1) = Some s1 \<and> server_ok s1"
    for code q a msg code1
    using sub [of code q a] broadcast_ok(2) [of "fst (submit rsm (ProposalCmd code q a) s)" msg code1]
    by (auto simp: redirect_ok split: prod.split)
  show ?thesis unfolding serveProposal_def Let_def
    using done1 s by (auto simp del: js_simps split: option.split)
qed

lemma serveRoleChange_ok:
  assumes s: "server_ok s" and l: "list_all cmd_ok (log_of rsm)"
  shows "\<exists>s1. serveRoleChange rsm port p m s = Some s1 \<and> server_ok s1"
proof (cases "cl_Role (the_client s p) = js ''editor'' \<and> valid_role (im_Role m)")
  case True
  let ?s = "s\<lparr>srv_hub := UpdateClientRole (im_UserID m) (im_Role m) (srv_hub s)\<rparr>"
  let ?c = "RoleChangeCmd (cl_Code (the_client s p)) (im_UserID m) (im_Role m)"
  obtain s2 ok where sub: "submit rsm ?c ?s = (s2, ok)" by fastforce
  have "server_ok ?s" using True s by (simp add: server_ok_like hub_like_UpdateClientRole)
  then have ok2: "server_ok s2" using server_ok_submit [OF _ _ l sub] True by simp
  obtain s3 where s3: "on_hub (BroadcastSessionAll (TextMsg (ToPage (RoleChange (im_UserID m) (im_Role m))))
      (cl_Code (the_client s p))) s2 = Some s3" "server_ok s3" using broadcast_ok(2) [OF ok2] by blast
  show ?thesis
    using True sub s3 broadcastParticipants_ok [OF s3(2)] redirect_ok [OF ok2]
    by (cases ok) (auto simp: serveRoleChange_def Let_def valid_role_def simp del: js_simps)
next
  case False
  then have "serveRoleChange rsm port p m s = Some s"
    by (auto simp: serveRoleChange_def Let_def valid_role_def simp del: js_simps)
  then show ?thesis using s by simp
qed

lemma leave_ok:
  assumes s: "server_ok s"
  shows "\<exists>s1. leave p s = Some s1 \<and> server_ok s1"
proof -
  let ?h = "update_client p (\<lambda>c. c\<lparr>cl_stage := Left\<rparr>) (srv_hub s)"
  have h: "hub_ok ?h" using s by (intro hub_ok_update) (simp_all add: server_ok_def)
  from Unregister_ok [OF this, of p] obtain h1 where h1: "Unregister p ?h = Some h1" "hub_ok h1" by blast
  have "server_ok (s\<lparr>srv_hub := h1\<rparr>)"
  proof -
    have len: "length (hub_heap h1) = length (hub_heap (srv_hub s))"
      using h1(1) by (auto simp: Unregister_def Let_def split: if_splits)
    have c: "cl_Role (client_at h1 q) = cl_Role (the_client s q)"
      "cl_stage (client_at h1 q) = Connecting \<Longrightarrow> q \<noteq> p \<and> cl_stage (the_client s q) = Connecting \<and>
         cl_closed (client_at h1 q) = cl_closed (the_client s q)"
      "registered h1 q \<Longrightarrow> registered (srv_hub s) q"
      if "q < length (hub_heap (srv_hub s))" for q
      using h1(1) that
      by (auto simp: Unregister_def Let_def client_at_update the_client_def registered_def AList.delete_eq
          split: if_splits)
    show ?thesis using s h1(2) len c by (auto simp: server_ok_def the_client_def)
  qed
  then show ?thesis
    using broadcastParticipants_ok [of "s\<lparr>srv_hub := h1\<rparr>"] h1(1) by (simp add: leave_def on_hub_def)
qed


lemma begin_serving_ok:
  assumes s: "server_ok s" and p: "at_stage s p Connecting"
  shows "\<exists>s1. begin_serving p s = Some s1 \<and> server_ok s1"
proof -
  let ?h = "srv_hub s" and ?doc = "GetDoc (srv_sessions s) (cl_Code (the_client s p))"
  let ?h1 = "Register p ?h"
  let ?h2 = "if 0 < length ?doc then WriteMessage (BinaryMsg ?doc) p ?h1 else ?h1"
  let ?h3 = "update_client p (\<lambda>c. c\<lparr>cl_stage := Serving, cl_pump := True\<rparr>) ?h2"
  have p: "p < length (hub_heap ?h)" "cl_stage (client_at ?h p) = Connecting"
    using p by (simp_all add: at_stage_def the_client_def)
  then have "hub_ok ?h1" using s by (intro hub_ok_Register) (simp_all add: server_ok_def the_client_def)
  then have "hub_ok ?h2" using hub_ok_like hub_like_WriteMessage by simp
  then have ok: "hub_ok ?h3" by (rule hub_ok_update) simp_all
  have len: "length (hub_heap ?h3) = length (hub_heap ?h)" by (simp add: Register_def WriteMessage_def)
  have c: "cl_Role (client_at ?h3 q) = cl_Role (client_at ?h q)"
    "cl_closed (client_at ?h3 q) = cl_closed (client_at ?h q)"
    "cl_stage (client_at ?h3 q) = (if q = p then Serving else cl_stage (client_at ?h q))" for q
    using p(1) by (simp_all add: client_at_update WriteMessage_def Register_def)
  have r: "registered ?h q" if "registered ?h3 q" "q \<noteq> p" for q
    using hub_okD(4) [of ?h "cl_ID (client_at ?h q)" q] s p(1) that registered_iff [OF ok, of q]
    by (auto simp: server_ok_def Register_def WriteMessage_def update_conv' client_at_update split: if_splits)
  have "server_ok (s\<lparr>srv_hub := ?h3\<rparr>)"
    using s ok len c r by (auto simp: server_ok_def the_client_def)
  then show ?thesis using broadcastParticipants_ok by (simp add: begin_serving_def Let_def)
qed


lemma serveBinary_ok:
  assumes s: "server_ok s" and l: "list_all cmd_ok (log_of rsm)"
  shows "\<exists>s1. serveBinary rsm port p b s = Some s1 \<and> server_ok s1"
proof (cases "cl_Role (the_client s p) = js ''editor''")
  case True
  let ?c = "CRDTUpdateCmd (cl_Code (the_client s p)) b"
  obtain s2 ok where sub: "submit rsm ?c s = (s2, ok)" by fastforce
  have ok2: "server_ok s2" using server_ok_submit [OF s _ l sub] by simp
  show ?thesis
    using True sub broadcast_ok(1) [OF ok2] leave_ok [OF redirect_ok [OF ok2]]
    by (cases ok) (auto simp: serveBinary_def Let_def simp del: js_simps)
qed (use s in \<open>simp add: serveBinary_def\<close>)

lemma serveText_ok:
  assumes s: "server_ok s" and l: "list_all cmd_ok (log_of rsm)"
  shows "\<exists>s1. serveText rsm port p m raw s = Some s1 \<and> server_ok s1"
proof -
  have "\<exists>s1. on_hub (SendRaw u x) s = Some s1 \<and> server_ok s1" for u x
    using SendRaw_ok [of "srv_hub s" u x] server_ok_like [OF s hub_like_SendRaw [of "srv_hub s" u x]] s
    by (auto simp: on_hub_def server_ok_def)
  then show ?thesis
    using serveProposal_ok [OF s l] serveRoleChange_ok [OF s l] broadcast_ok(1) [OF s] s
    by (simp add: serveText_def relay_raw_def del: js_simps split: option.split)
qed

lemma http_ok:
  assumes s: "server_ok s" and l: "list_all cmd_ok (log_of rsm)"
  shows "server_ok (snd (serveCreate rsm post body rands s))" "server_ok (snd (serveJoin rsm post jbody s))"
proof -
  have "server_ok s1" if "submit rsm (SessionCmd a c u r) s = (s1, ok)" for a c u r s1 ok
    using server_ok_submit [OF s _ l that] by simp
  then show "server_ok (snd (serveCreate rsm post body rands s))" "server_ok (snd (serveJoin rsm post jbody s))"
    using s by (auto simp: serveCreate_def serveJoin_def Let_def split: option.split prod.splits)
qed

lemma connect_ok: "server_ok s \<Longrightarrow> server_ok (connect user code s)"
proof -
  assume s: "server_ok s"
  let ?c = "\<lparr>cl_ID = user, cl_Role = GetRole (srv_sessions s) code user, cl_Code = code, cl_Conn = [],
          cl_Send = [], cl_closed = False, cl_stage = Connecting, cl_broken = False, cl_pump = False\<rparr>"
  let ?h = "(srv_hub s)\<lparr>hub_heap := hub_heap (srv_hub s) @ [?c]\<rparr>"
  have c: "client_at ?h p = (if p < length (hub_heap (srv_hub s)) then client_at (srv_hub s) p else ?c)"
    if "p < length (hub_heap ?h)" for p
    using that by (auto simp: client_at_def nth_append)
  have old: "map_of (hub_clients (srv_hub s)) u = Some p \<Longrightarrow> p < length (hub_heap (srv_hub s))" for u p
    using s hub_okD(1) by (simp add: server_ok_def)
  have r: "registered ?h p \<Longrightarrow> registered (srv_hub s) p \<and> p < length (hub_heap (srv_hub s))" for p
    using s registeredD(2) [of "srv_hub s" p] by (simp add: server_ok_def registered_def)
  have "hub_ok ?h"
    unfolding hub_ok_def
  proof (intro conjI allI impI)
    show "distinct (map fst (hub_clients ?h))" using s by (simp add: server_ok_def hub_ok_def)
    fix u p assume "map_of (hub_clients ?h) u = Some p"
    then have m: "map_of (hub_clients (srv_hub s)) u = Some p" by simp
    show "p < length (hub_heap ?h)" "cl_ID (client_at ?h p) = u" "\<not> cl_closed (client_at ?h p)"
      using hub_okD [OF _ m] old [OF m] c [of p] s by (simp_all add: server_ok_def)
  qed
  then show ?thesis
    using s c r roles_ok_GetRole [of "srv_sessions s" code user]
    by (auto simp: connect_def server_ok_def the_client_def less_Suc_eq)
qed

lemma server_step_ok:
  assumes "server_ok s" "entries_ok e"
  shows "\<exists>s1. server_step port e s = Some s1 \<and> server_ok s1"
proof -
  have l: "list_all cmd_ok (event_log e)" using assms(2) by (simp add: entries_ok_def)
  show ?thesis
  proof (cases e)
    case (Applied cmds)
    then have "roles_ok (run_log cmds (srv_sessions s))" using assms(1) l roles_ok_log by (simp add: server_ok_def)
    then show ?thesis using Applied server_okI_sessions [OF assms(1)] by simp
  next
    case (Receive rsm p m)
    then show ?thesis using serveBinary_ok [OF assms(1)] serveText_ok [OF assms(1)] assms(1) l by (cases m) simp_all
  qed (use assms(1) l http_ok [OF assms(1)] connect_ok begin_serving_ok leave_ok server_ok_like in auto)
qed

lemma server_run_ok:
  "server_ok s \<Longrightarrow> list_all entries_ok es \<Longrightarrow> \<exists>s1. server_run port es s = Some s1 \<and> server_ok s1"
proof (induction es arbitrary: s)
  case (Cons e es)
  from Cons.prems obtain s1 where "server_step port e s = Some s1" "server_ok s1"
    using server_step_ok [of s e port] by auto
  then show ?case using Cons by simp
qed simp

lemma server_ok_new: "server_ok NewServer"
  by (simp add: server_ok_def NewServer_def NewHub_def hub_ok_def roles_ok_def NewCollabServer_def getOrCreate_def)

text \<open>
  C9. in every run of the server no handler panics, although every queue may be closed by a
  connection's clean-up while others send to it: what is registered is open. In the state it ends in
  the hub is consistent and every role, of a session and of a connection, is one of the three. The
  commands that other nodes put into the log are assumed to be ones this server would submit.
\<close>

theorem server_never_panics:
  assumes "list_all entries_ok es"
  shows "\<exists>s. server_run port es NewServer = Some s \<and> server_ok s"
  using server_run_ok [OF server_ok_new assms] .

text \<open>An editor and a second user, who joins while the first one leaves.\<close>

definition short_run :: "server_event list" where
  "short_run = [Create SingleNode (Some (js ''ann'')) [0, 0, 0, 0, 0, 0, 0], Connect (js ''ann'') (js ''AAA-0000''), Begin 0,
     Join (Replicated [] False) (Some (js ''AAA-0000'', js ''eve'')), Receive SingleNode 0 (GotBinary [1]),
     Connect (js ''eve'') (js ''AAA-0000''), Leave 0, Begin 1, Pump 1, Pump 1]"

lemma server_never_panics_witness: "\<exists>s. server_run 0 short_run NewServer = Some s \<and> server_ok s"
  by (rule server_never_panics) (simp add: short_run_def entries_ok_def)

section \<open>Who changes what\<close>

text \<open>What a message asks for, by the role of the connection it comes from.\<close>

fun msg_command :: "hub_client \<Rightarrow> got_msg \<Rightarrow> command option" where
  "msg_command c (GotBinary b) = (if cl_Role c = js ''editor'' then Some (CRDTUpdateCmd (cl_Code c) b) else None)"
| "msg_command c (GotText None raw) = None"
| "msg_command c (GotText (Some m) raw) =
     (if im_Type m = js ''proposal'' then
        (if im_Action m = js ''add'' then
           (if cl_Role c = js ''proposer'' \<or> cl_Role c = js ''editor''
            then Some (ProposalCmd (cl_Code c) \<lparr>gp_ID = im_ID m, gp_Author = cl_ID c, gp_Replacement = im_Replacement m,
              gp_OriginalText = im_OriginalText m, gp_RelStart = im_RelStart m, gp_RelEnd = im_RelEnd m,
              gp_StartLine = im_StartLine m, gp_EndLine = im_EndLine m\<rparr> (js ''add'')) else None)
         else if (im_Action m = js ''accept'' \<or> im_Action m = js ''reject'') \<and> cl_Role c = js ''editor''
         then map_option (\<lambda>i. ProposalCmd (cl_Code c) \<lparr>gp_ID = i, gp_Author = [], gp_Replacement = [],
              gp_OriginalText = [], gp_RelStart = [], gp_RelEnd = [], gp_StartLine = 0, gp_EndLine = 0\<rparr> (im_Action m))
              (im_Proposal m)
         else None)
      else if im_Type m = js ''role_change'' \<and> cl_Role c = js ''editor'' \<and> valid_role (im_Role m)
      then Some (RoleChangeCmd (cl_Code c) (im_UserID m) (im_Role m)) else None)"

text \<open>The commands an event executes on this node.\<close>

fun executed :: "consensus \<Rightarrow> command option \<Rightarrow> command list" where
  "executed rsm None = []"
| "executed SingleNode (Some c) = [c]"
| "executed (Replicated applied ok) (Some c) = applied"

fun event_commands :: "server_event \<Rightarrow> server \<Rightarrow> command list" where
  "event_commands (Create rsm body rands) s = executed rsm (case body of None \<Rightarrow> None
     | Some u \<Rightarrow> if u = [] then None else Some (SessionCmd (js ''create'') (generateCode rands) u (js ''editor'')))"
| "event_commands (Join rsm body) s = executed rsm (case body of None \<Rightarrow> None
     | Some (code, u) \<Rightarrow> if SessionExists (srv_sessions s) code
         then Some (SessionCmd (js ''join'') code u (js ''viewer'')) else None)"
| "event_commands (Receive rsm p m) s =
     (if at_stage s p Serving then executed rsm (msg_command (the_client s p) m) else [])"
| "event_commands (Applied cmds) s = cmds"
| "event_commands e s = []"

lemma submit_sessions: "srv_sessions (fst (submit rsm c s)) = run_log (executed rsm (Some c)) (srv_sessions s)"
  by (simp add: submit_def split: consensus.split)

lemma submit_sessionsD: "submit rsm c s = (s1, ok) \<Longrightarrow> srv_sessions s1 = run_log (executed rsm (Some c)) (srv_sessions s)"
  using submit_sessions [of rsm c s] by simp

lemma on_hub_sessions: "on_hub f s = Some s1 \<Longrightarrow> srv_sessions s1 = srv_sessions s"
  by (auto simp: on_hub_def)

lemma broadcastParticipants_sessions: "broadcastParticipants code s = Some s1 \<Longrightarrow> srv_sessions s1 = srv_sessions s"
  by (auto simp: broadcastParticipants_def dest: on_hub_sessions)

lemma leave_sessions: "leave p s = Some s1 \<Longrightarrow> srv_sessions s1 = srv_sessions s"
  by (auto simp: leave_def bind_eq_Some_conv dest!: on_hub_sessions broadcastParticipants_sessions)

lemma redirect_sessions [simp]: "srv_sessions (sendRedirect port p s) = srv_sessions s"
  by (simp add: sendRedirect_def)

lemmas sessions_dests = on_hub_sessions broadcastParticipants_sessions leave_sessions submit_sessionsD

lemma serveBinary_sessions:
  "serveBinary rsm port p b s = Some s1 \<Longrightarrow>
   srv_sessions s1 = run_log (executed rsm (msg_command (the_client s p) (GotBinary b))) (srv_sessions s)"
  by (auto simp: serveBinary_def Let_def simp del: js_simps split: prod.splits if_splits dest!: sessions_dests)

lemma serveProposal_sessions:
  assumes "serveProposal rsm port p m s = Some s1" "im_Type m = js ''proposal''"
  shows "srv_sessions s1 = run_log (executed rsm (msg_command (the_client s p) (GotText (Some m) raw))) (srv_sessions s)"
proof -
  have n: "js ''accept'' \<noteq> js ''add''" "js ''reject'' \<noteq> js ''add''" by simp_all
  show ?thesis
    using assms n
    by (auto simp: serveProposal_def Let_def simp del: js_simps split: prod.splits if_splits option.splits
        dest!: sessions_dests)
qed

lemma serveRoleChange_sessions:
  assumes "serveRoleChange rsm port p m s = Some s1" "im_Type m = js ''role_change''"
  shows "srv_sessions s1 = run_log (executed rsm (msg_command (the_client s p) (GotText (Some m) raw))) (srv_sessions s)"
proof -
  have n: "js ''role_change'' \<noteq> js ''proposal''" by simp
  show ?thesis
    using assms n
    by (auto simp: serveRoleChange_def valid_role_def Let_def bind_eq_Some_conv simp del: js_simps
        split: prod.splits if_splits dest!: sessions_dests)
qed


lemma serveText_sessions:
  assumes "serveText rsm port p m raw s = Some s1"
  shows "srv_sessions s1 = run_log (executed rsm (msg_command (the_client s p) (GotText m raw))) (srv_sessions s)"
proof (cases m)
  case (Some x)
  consider "im_Type x = js ''proposal''" | "im_Type x = js ''role_change''"
    | "im_Type x \<noteq> js ''proposal''" "im_Type x \<noteq> js ''role_change''" by blast
  then show ?thesis
  proof cases
    case 1
    then have "serveProposal rsm port p x s = Some s1" using assms by (simp add: serveText_def Some del: js_simps)
    from serveProposal_sessions [OF this 1] show ?thesis by (simp only: Some)
  next
    case 2
    moreover have "js ''role_change'' \<noteq> js ''proposal''" by simp
    ultimately have "serveRoleChange rsm port p x s = Some s1" using assms by (simp add: serveText_def Some del: js_simps)
    from serveRoleChange_sessions [OF this 2] show ?thesis by (simp only: Some)
  next
    case 3
    then have "srv_sessions s1 = srv_sessions s"
      using assms by (auto simp: serveText_def relay_raw_def Some simp del: js_simps split: if_splits dest: on_hub_sessions)
    then show ?thesis using 3 by (simp add: Some del: js_simps)
  qed
qed (use assms in \<open>simp add: serveText_def\<close>)

text \<open>What a server does to its sessions is to execute commands.\<close>

lemma step_executes_commands:
  assumes "server_step port e s = Some s1"
  shows "srv_sessions s1 = run_log (event_commands e s) (srv_sessions s)"
proof (cases e)
  case (Create rsm body rands)
  then show ?thesis
    using assms by (auto simp: serveCreate_def Let_def split: option.splits prod.splits dest!: submit_sessionsD)
next
  case (Join rsm body)
  then show ?thesis
    using assms by (auto simp: serveJoin_def Let_def split: option.splits prod.splits dest!: submit_sessionsD)
next
  case (Receive rsm p m)
  then show ?thesis
    using assms serveBinary_sessions serveText_sessions by (cases m) (auto split: if_splits)
next
  case (Begin p)
  then show ?thesis
    using assms by (auto simp: begin_serving_def Let_def split: if_splits dest!: broadcastParticipants_sessions)
qed (use assms in \<open>auto simp: connect_def split: if_splits dest: leave_sessions\<close>)

lemma executed_single: "c \<in> set (executed SingleNode x) \<longleftrightarrow> x = Some c"
  by (cases x) auto


text \<open>An editor in a session that has been created.\<close>

definition editor_alone :: server where
  "editor_alone = \<lparr>srv_hub = \<lparr>hub_clients = [(js ''ann'', 0)],
       hub_heap = [\<lparr>cl_ID = js ''ann'', cl_Role = js ''editor'', cl_Code = js ''A'', cl_Conn = [], cl_Send = [],
         cl_closed = False, cl_stage = Serving, cl_broken = False, cl_pump = True\<rparr>]\<rparr>,
     srv_sessions = DoOp (SessionCmd (js ''create'') (js ''A'') (js ''ann'') (js ''editor'')) NewCollabServer\<rparr>"

lemma editor_writes:
  "\<exists>s1. server_step 0 (Receive SingleNode 0 (GotBinary [1])) editor_alone = Some s1 \<and>
     GetDoc (srv_sessions s1) (js ''A'') = [1] \<and> GetDoc (srv_sessions editor_alone) (js ''A'') = []"
proof -
  have "map_option (\<lambda>s. GetDoc (srv_sessions s) (js ''A'')) (server_step 0 (Receive SingleNode 0 (GotBinary [1])) editor_alone)
      = Some [1] \<and> GetDoc (srv_sessions editor_alone) (js ''A'') = []"
    by code_simp
  then show ?thesis by auto
qed

lemma receive_roles:
  assumes "server_step port (Receive rsm p m) s = Some s1" "q < length (hub_heap (srv_hub s))"
    and "cl_Role (the_client s1 q) \<noteq> cl_Role (the_client s q)" and "server_ok s"
  shows "at_stage s p Serving \<and> cl_Role (the_client s p) = js ''editor'' \<and>
    msg_command (the_client s p) m =
      Some (RoleChangeCmd (cl_Code (the_client s p)) (cl_ID (the_client s q)) (cl_Role (the_client s1 q)))"
proof -
  have n: "\<not> same_roles (srv_hub s) (srv_hub s1)" using assms(2,3) by (auto simp: same_roles_def the_client_def)
  have st: "at_stage s p Serving" using assms(1) n roles.same by (cases m) (auto split: if_splits)
  obtain x raw where m: "m = GotText (Some x) raw" "serveRoleChange rsm port p x s = Some s1"
    and t: "im_Type x = js ''role_change''"
  proof (cases m)
    case (GotBinary b)
    with assms(1) st n roles.serveBinary show ?thesis by simp
  next
    case (GotText y raw)
    with assms(1) st roles.serveText [of rsm port p y raw s s1] n that show ?thesis by auto
  qed
  let ?s = "s\<lparr>srv_hub := UpdateClientRole (im_UserID x) (im_Role x) (srv_hub s)\<rparr>"
  let ?c = "RoleChangeCmd (cl_Code (the_client s p)) (im_UserID x) (im_Role x)"
  have e: "cl_Role (the_client s p) = js ''editor''" "valid_role (im_Role x)"
    using m(2) n roles.same by (auto simp: serveRoleChange_def valid_role_def Let_def simp del: js_simps split: if_splits)
  obtain s2 ok where sub: "submit rsm ?c ?s = (s2, ok)" by fastforce
  have "same_roles (srv_hub s2) (srv_hub s1)"
    using m(2) e sub roles.redirect
    by (auto simp: serveRoleChange_def Let_def valid_role_def bind_eq_Some_conv simp del: js_simps split: if_splits
        dest!: roles.on_hub roles.broadcastParticipants intro: roles.trans)
  then have "cl_Role (the_client s1 q) = cl_Role (client_at (UpdateClientRole (im_UserID x) (im_Role x) (srv_hub s)) q)"
    using assms(2) roles.submitted [OF sub]
    by (simp add: same_roles_def the_client_def UpdateClientRole_def split: option.splits)
  then have "map_of (hub_clients (srv_hub s)) (im_UserID x) = Some q" "cl_Role (the_client s1 q) = im_Role x"
    using assms(2,3) by (auto simp: UpdateClientRole_def the_client_def client_at_update split: option.splits if_splits)
  moreover from this have "cl_ID (the_client s q) = im_UserID x"
    using hub_okD(2) assms(4) by (simp add: server_ok_def the_client_def)
  moreover have "js ''role_change'' \<noteq> js ''proposal''" by simp
  ultimately show ?thesis using st e t by (simp add: m(1) del: js_simps)
qed

lemma msg_command_allowed:
  assumes "msg_command c m = Some cmd"
  shows "cmd_code cmd = Some (cl_Code c)" "cl_Role c = js ''editor'' \<or> cl_Role c = js ''proposer'' \<and>
      (\<exists>pr. gp_Author pr = cl_ID c \<and> cmd = ProposalCmd (cl_Code c) pr (js ''add''))"
  using assms by (cases "(c, m)" rule: msg_command.cases; auto simp del: js_simps split: if_splits)+

text \<open>
  C10. a message changes the sessions, or the role of a connection, only if it comes over a live connection
  whose user is an editor, or a proposer who adds a proposal in his own name. What happens to the
  sessions is one command about the session of that connection - in a cluster, what the log brings
  until that command is answered. The role of a connection changes only by an editor's role change that
  names its user, to the role it gives.
\<close>

theorem role_permissions:
  assumes "server_ok s" "server_step port (Receive rsm p m) s = Some s1"
    and "srv_sessions s1 \<noteq> srv_sessions s \<or>
      (\<exists>q. q < length (hub_heap (srv_hub s)) \<and> cl_Role (the_client s1 q) \<noteq> cl_Role (the_client s q))"
  shows "at_stage s p Serving \<and> (\<exists>c. cmd_code c = Some (cl_Code (the_client s p)) \<and>
    (cl_Role (the_client s p) = js ''editor'' \<or> cl_Role (the_client s p) = js ''proposer'' \<and>
       (\<exists>pr. gp_Author pr = cl_ID (the_client s p) \<and> c = ProposalCmd (cl_Code (the_client s p)) pr (js ''add''))) \<and>
    srv_sessions s1 =
      run_log (case rsm of SingleNode \<Rightarrow> [c] | Replicated applied ok \<Rightarrow> applied) (srv_sessions s) \<and>
    (\<forall>code. rsm = SingleNode \<and> code \<noteq> cl_Code (the_client s p) \<longrightarrow> srv_sessions s1 code = srv_sessions s code) \<and>
    (\<forall>q < length (hub_heap (srv_hub s)). cl_Role (the_client s1 q) \<noteq> cl_Role (the_client s q) \<longrightarrow>
       cl_Role (the_client s p) = js ''editor'' \<and>
       c = RoleChangeCmd (cl_Code (the_client s p)) (cl_ID (the_client s q)) (cl_Role (the_client s1 q))))"
proof -
  let ?c = "the_client s p"
  note e = step_executes_commands [OF assms(2)] and r = receive_roles [OF assms(2) _ _ assms(1)]
  have st: "at_stage s p Serving" using assms(3) e r by (auto split: if_splits)
  moreover obtain c where c: "msg_command ?c m = Some c"
    using assms(3) e r st by (cases "msg_command ?c m") (auto simp del: msg_command.simps)
  moreover have sess: "srv_sessions s1 = run_log (case rsm of SingleNode \<Rightarrow> [c] | Replicated applied ok \<Rightarrow> applied) (srv_sessions s)"
    using e st c by (cases rsm) (simp_all del: msg_command.simps)
  moreover have "srv_sessions s1 code = srv_sessions s code" if "rsm = SingleNode" "code \<noteq> cl_Code ?c" for code
    using that sess msg_command_allowed(1) [OF c] DoOp_other [of c code "srv_sessions s"] by simp
  ultimately show ?thesis using msg_command_allowed [OF c] r c by (intro conjI exI [of _ c]) auto
qed

lemma editor_alone_ok: "server_ok editor_alone"
proof -
  have "roles_ok (srv_sessions editor_alone)"
    unfolding editor_alone_def server.select_convs
    by (rule roles_ok_DoOp) (simp_all add: roles_ok_def NewCollabServer_def getOrCreate_def)
  then show ?thesis
    by (simp add: editor_alone_def server_ok_def hub_ok_def the_client_def client_at_def valid_role_def)
qed

lemma role_permissions_witness:
  "\<exists>s1. server_step 0 (Receive SingleNode 0 (GotBinary [1])) editor_alone = Some s1 \<and>
     at_stage editor_alone 0 Serving \<and> srv_sessions s1 (js ''B'') = srv_sessions editor_alone (js ''B'')"
proof -
  obtain s1 where s1: "server_step 0 (Receive SingleNode 0 (GotBinary [1])) editor_alone = Some s1"
    "srv_sessions s1 \<noteq> srv_sessions editor_alone" using editor_writes by fastforce
  have "cl_Code (the_client editor_alone 0) \<noteq> js ''B''"
    by (simp add: editor_alone_def the_client_def client_at_def)
  moreover obtain "at_stage editor_alone 0 Serving"
    "\<forall>code. SingleNode = SingleNode \<and> code \<noteq> cl_Code (the_client editor_alone 0) \<longrightarrow>
       srv_sessions s1 code = srv_sessions editor_alone code"
    using role_permissions [OF editor_alone_ok s1(1) disjI1 [OF s1(2)]] by (elim conjE exE) (rule that)
  ultimately show ?thesis using s1(1) by metis
qed

text \<open>
  C11. the document of a session changes only by an editor's binary message over a live connection to it, or
  in a cluster by an update for it in the part of the log that this node applies in the step; then it is the
  bytes of that message, or of the last such update.
\<close>

theorem only_editors_change_documents:
  assumes "server_step port e s = Some s1" "GetDoc (srv_sessions s1) code \<noteq> GetDoc (srv_sessions s) code"
  shows "(\<exists>p b. e = Receive SingleNode p (GotBinary b) \<and> at_stage s p Serving \<and>
      cl_Role (the_client s p) = js ''editor'' \<and> cl_Code (the_client s p) = code \<and>
      GetDoc (srv_sessions s1) code = b) \<or>
    (\<exists>b. last_update code (event_log e) = Some b \<and> GetDoc (srv_sessions s1) code = b)"
proof -
  from step_executes_commands [OF assms(1)] assms(2)
  obtain b where b: "last_update code (event_commands e s) = Some b" "GetDoc (srv_sessions s1) code = b"
    by (cases "last_update code (event_commands e s)") (auto simp: run_log_doc)
  have rsm: "rsm = SingleNode \<or> executed rsm x = [] \<or> executed rsm x = log_of rsm" for rsm x
    by (cases "(rsm, x)" rule: executed.cases) auto
  show ?thesis
  proof (cases e)
    case (Receive rsm p m)
    then have st: "at_stage s p Serving" using b(1) by (auto split: if_splits)
    show ?thesis
    proof (cases rsm)
      case SingleNode
      with b(1) st Receive obtain c where c: "msg_command (the_client s p) m = Some c" "last_update code [c] = Some b"
        by (cases "msg_command (the_client s p) m") (auto simp del: msg_command.simps)
      then have "c = CRDTUpdateCmd code b" by (auto split: command.splits if_splits)
      with c(1) st b(2) Receive SingleNode show ?thesis
        by (cases "(the_client s p, m)" rule: msg_command.cases) (auto simp del: js_simps split: if_splits)
    next
      case (Replicated applied ok)
      with b st Receive rsm [of rsm "msg_command (the_client s p) m"] show ?thesis by (auto simp del: msg_command.simps)
    qed
  next
    case (Create rsm body rands)
    with b rsm [of rsm] show ?thesis by (cases rsm) (auto split: option.splits if_splits)
  next
    case (Join rsm body)
    with b rsm [of rsm] show ?thesis by (cases rsm) (auto split: option.splits if_splits)
  qed (use b in simp_all)
qed

lemma only_editors_change_documents_witness:
  "\<exists>s1. server_step 0 (Receive SingleNode 0 (GotBinary [1])) editor_alone = Some s1 \<and>
     cl_Role (the_client editor_alone 0) = js ''editor'' \<and> GetDoc (srv_sessions s1) (js ''A'') = [1]"
proof -
  obtain s1 where s1: "server_step 0 (Receive SingleNode 0 (GotBinary [1])) editor_alone = Some s1"
    "GetDoc (srv_sessions s1) (js ''A'') \<noteq> GetDoc (srv_sessions editor_alone) (js ''A'')" using editor_writes by fastforce
  have l: "event_log (Receive SingleNode 0 (GotBinary [1])) = []" by simp
  from only_editors_change_documents [OF s1] have "cl_Role (the_client editor_alone 0) = js ''editor''"
    "GetDoc (srv_sessions s1) (js ''A'') = [1]" unfolding l by auto
  then show ?thesis using s1(1) by blast
qed

end
