(* ===== verification/ServerRoles.thy ===== *)
theory ServerRoles
  imports ServerSafety
begin

text \<open>
  The role a connection has in the hub and the role its user has in the session. They are meant to be
  the same, and they are not in two cases: the hub knows users by their name only, so a role
  change reaches a user's connection in whatever session it is, and it has one connection per user,
  so an earlier connection keeps the role it had.
\<close>

section \<open>Role changes\<close>

lemma try_broadcast:
  assumes "server_ok s"
  shows "on_hub (BroadcastSession m u code) s =
      Some (s\<lparr>srv_hub := deliver (\<lambda>c. cl_ID c \<noteq> u \<and> cl_Code c = code) m (srv_hub s)\<rparr>)"
    "on_hub (BroadcastSessionAll m code) s = Some (s\<lparr>srv_hub := deliver (\<lambda>c. cl_Code c = code) m (srv_hub s)\<rparr>)"
  using assms Broadcast_deliver [of "srv_hub s"] by (simp_all add: on_hub_def server_ok_def)

text \<open>The clients but for what is in their queues.\<close>

definition same_clients :: "server \<Rightarrow> server \<Rightarrow> bool" where
  "same_clients s s1 \<longleftrightarrow> hub_clients (srv_hub s1) = hub_clients (srv_hub s) \<and>
     length (hub_heap (srv_hub s1)) = length (hub_heap (srv_hub s)) \<and>
     (\<forall>p < length (hub_heap (srv_hub s)). (the_client s1 p)\<lparr>cl_Send := [], cl_Conn := []\<rparr> =
        (the_client s p)\<lparr>cl_Send := [], cl_Conn := []\<rparr>)"

lemma same_clients_refl [simp]: "same_clients s s"
  by (simp add: same_clients_def)

lemma same_clients_trans: "same_clients s s1 \<Longrightarrow> same_clients s1 s2 \<Longrightarrow> same_clients s s2"
  by (simp add: same_clients_def)

lemma same_clientsD:
  assumes "same_clients s s1" "p < length (hub_heap (srv_hub s))"
  shows "cl_ID (the_client s1 p) = cl_ID (the_client s p)" "cl_Role (the_client s1 p) = cl_Role (the_client s p)"
    "cl_Code (the_client s1 p) = cl_Code (the_client s p)" "cl_stage (the_client s1 p) = cl_stage (the_client s p)"
    "registered (srv_hub s1) p = registered (srv_hub s) p"
proof -
  have "(the_client s1 p)\<lparr>cl_Send := [], cl_Conn := []\<rparr> = (the_client s p)\<lparr>cl_Send := [], cl_Conn := []\<rparr>"
    using assms by (simp add: same_clients_def)
  then show "cl_ID (the_client s1 p) = cl_ID (the_client s p)" "cl_Role (the_client s1 p) = cl_Role (the_client s p)"
    "cl_Code (the_client s1 p) = cl_Code (the_client s p)" "cl_stage (the_client s1 p) = cl_stage (the_client s p)"
    by (metis hub_client.select_convs hub_client.surjective hub_client.update_convs)+
  show "registered (srv_hub s1) p = registered (srv_hub s) p"
    using assms by (simp add: same_clients_def registered_def)
qed

lemma same_clients_hub: "same_clients s s1 \<Longrightarrow> srv_hub s2 = srv_hub s1 \<Longrightarrow> same_clients s s2"
  by (simp add: same_clients_def the_client_def)

lemma same_clients_deliver [simp]: "same_clients s (s\<lparr>srv_hub := deliver to m (srv_hub s)\<rparr>)"
  by (simp add: same_clients_def the_client_def client_at_deliver enqueue_def)

lemma same_clients_redirect [simp]: "same_clients s (sendRedirect port p s)"
  by (simp add: same_clients_def the_client_def sendRedirect_def WriteMessage_def client_at_update)

lemma same_clients_submit: "submit rsm c s = (s1, ok) \<Longrightarrow> same_clients s s1"
  using submit_hub [of rsm c s] by (simp add: same_clients_def the_client_def)

lemma same_clients_broadcast:
  assumes "server_ok s"
  shows "on_hub (BroadcastSession m u code) s = Some s1 \<Longrightarrow> same_clients s s1"
    "on_hub (BroadcastSessionAll m code) s = Some s1 \<Longrightarrow> same_clients s s1"
    "broadcastParticipants code s = Some s1 \<Longrightarrow> same_clients s s1"
  using try_broadcast [OF assms] by (auto simp: broadcastParticipants_def)

lemma same_clients_SendRaw:
  assumes "server_ok s" "on_hub (SendRaw u m) s = Some s1"
  shows "same_clients s s1"
proof (cases "map_of (hub_clients (srv_hub s)) u")
  case (Some p)
  have "hub_ok (srv_hub s)" using assms(1) by (simp add: server_ok_def)
  from hub_okD(3) [OF this Some] assms(2) have "s1 = s\<lparr>srv_hub := update_client p (enqueue m) (srv_hub s)\<rparr>"
    by (auto simp: on_hub_def SendRaw_def Some try_send_open)
  then show ?thesis by (simp add: same_clients_def the_client_def client_at_update enqueue_def)
qed (use assms(2) in \<open>auto simp: on_hub_def SendRaw_def\<close>)

lemma server_ok_sessions: "server_ok s \<Longrightarrow> roles_ok cs \<Longrightarrow> server_ok (s\<lparr>srv_sessions := cs\<rparr>)"
  by (rule server_okI_sessions) simp_all

text \<open>A role change.\<close>

lemma role_change_step:
  assumes s: "server_ok s" and p: "at_stage s p Serving" "cl_Role (the_client s p) = js ''editor''" and r: "valid_role r"
  shows "\<exists>s1. server_step port (Receive SingleNode p (got_frame (Json (SendRoleChange u r)))) s = Some s1 \<and>
    server_ok s1 \<and> same_clients (s\<lparr>srv_hub := UpdateClientRole u r (srv_hub s)\<rparr>) s1 \<and>
    srv_sessions s1 = DoOp (RoleChangeCmd (cl_Code (the_client s p)) u r) (srv_sessions s)"
proof -
  let ?s1 = "s\<lparr>srv_hub := UpdateClientRole u r (srv_hub s)\<rparr>"
  let ?s2 = "?s1\<lparr>srv_sessions := DoOp (RoleChangeCmd (cl_Code (the_client s p)) u r) (srv_sessions s)\<rparr>"
  let ?e = "Receive SingleNode p (got_frame (Json (SendRoleChange u r)))"
  have n: "js ''role_change'' \<noteq> js ''proposal''" by simp
  have "server_ok ?s1" using s r by (simp add: server_ok_like hub_like_UpdateClientRole)
  moreover have "roles_ok (DoOp (RoleChangeCmd (cl_Code (the_client s p)) u r) (srv_sessions s))"
    using s r by (intro roles_ok_DoOp) (simp_all add: server_ok_def)
  ultimately have ok2: "server_ok ?s2"
    by (rule server_ok_sessions)
  obtain s3 where s3: "on_hub (BroadcastSessionAll (TextMsg (ToPage (RoleChange u r))) (cl_Code (the_client s p))) ?s2 = Some s3"
    "server_ok s3" using broadcast_ok(2) [OF ok2] by blast
  obtain s4 where s4: "broadcastParticipants (cl_Code (the_client s p)) s3 = Some s4" "server_ok s4"
    using broadcastParticipants_ok [OF s3(2)] by blast
  have e: "server_step port ?e s = Some s4"
    using p n r s3(1) s4(1)
    by (auto simp: serveText_def serveRoleChange_def submit_def Let_def valid_role_def simp del: js_simps DoOp.simps)
  have "same_clients ?s1 ?s2" by (rule same_clients_hub [OF same_clients_refl]) simp
  then have "same_clients ?s1 s3" using same_clients_broadcast(2) [OF ok2 s3(1)] by (rule same_clients_trans)
  then have "same_clients ?s1 s4" using same_clients_broadcast(3) [OF s3(2) s4(1)] by (rule same_clients_trans)
  moreover have "srv_sessions s4 = DoOp (RoleChangeCmd (cl_Code (the_client s p)) u r) (srv_sessions s)"
    using on_hub_sessions [OF s3(1)] broadcastParticipants_sessions [OF s4(1)] by simp
  ultimately show ?thesis using e s4(2) by blast
qed

text \<open>An update of an editor's connection.\<close>

lemma binary_step:
  assumes s: "server_ok s" and p: "at_stage s p Serving" "cl_Role (the_client s p) = js ''editor''"
  shows "server_step port (Receive SingleNode p (GotBinary b)) s =
    Some (s\<lparr>srv_hub := deliver (\<lambda>c. cl_ID c \<noteq> cl_ID (the_client s p) \<and> cl_Code c = cl_Code (the_client s p)) (BinaryMsg b) (srv_hub s),
      srv_sessions := DoOp (CRDTUpdateCmd (cl_Code (the_client s p)) b) (srv_sessions s)\<rparr>)"
  using p s Broadcast_deliver(1) [of "srv_hub s"]
  by (simp add: serveBinary_def submit_def Let_def on_hub_def server_ok_def del: js_simps DoOp.simps)


lemma changed_role:
  assumes "server_ok s" "q < length (hub_heap (srv_hub s))" "registered (srv_hub s) q"
  shows "the_client (s\<lparr>srv_hub := UpdateClientRole (cl_ID (the_client s q)) r (srv_hub s)\<rparr>) q =
    (the_client s q)\<lparr>cl_Role := r\<rparr>"
  using registeredD(1) [of "srv_hub s" q] assms
  by (simp add: UpdateClientRole_def the_client_def client_at_update server_ok_def)

lemma server_run_two:
  "server_step port e s = Some s1 \<Longrightarrow> server_step port f s1 = Some s2 \<Longrightarrow> server_run port [e, f] s = Some s2"
  by simp

text \<open>
  C12. an editor of one session can make a user of any other session one who overwrites its document: the
  role change finds the connection by the user's name, in whatever session it is, and from then on its
  updates are accepted there, although the role the user has in that session is what it was.
\<close>

theorem role_change_crosses_sessions:
  assumes "server_ok s" "at_stage s p Serving" "cl_Role (the_client s p) = js ''editor''"
    and "at_stage s q Serving" "registered (srv_hub s) q"
    and "cl_Code (the_client s p) \<noteq> cl_Code (the_client s q)"
  shows "\<exists>s1. server_run port
      [Receive SingleNode p (got_frame (Json (SendRoleChange (cl_ID (the_client s q)) (js ''editor'')))),
       Receive SingleNode q (GotBinary b)] s = Some s1 \<and>
    GetDoc (srv_sessions s1) (cl_Code (the_client s q)) = b \<and>
    GetRole (srv_sessions s1) (cl_Code (the_client s q)) (cl_ID (the_client s q)) =
      GetRole (srv_sessions s) (cl_Code (the_client s q)) (cl_ID (the_client s q))"
proof -
  let ?u = "cl_ID (the_client s q)" and ?code = "cl_Code (the_client s q)"
  let ?s0 = "s\<lparr>srv_hub := UpdateClientRole ?u (js ''editor'') (srv_hub s)\<rparr>"
  obtain s1 where s1: "server_step port (Receive SingleNode p (got_frame (Json (SendRoleChange ?u (js ''editor''))))) s = Some s1"
    "server_ok s1" "same_clients ?s0 s1"
    "srv_sessions s1 = DoOp (RoleChangeCmd (cl_Code (the_client s p)) ?u (js ''editor'')) (srv_sessions s)"
    using role_change_step [OF assms(1-3)] valid_role_simps(1) by blast
  have q: "q < length (hub_heap (srv_hub s))" "cl_stage (the_client s q) = Serving" using assms(4) by (simp_all add: at_stage_def)
  then have q0: "q < length (hub_heap (srv_hub ?s0))" by (simp add: UpdateClientRole_def split: option.split)
  note c = same_clientsD [OF s1(3) q0] changed_role [OF assms(1) q(1) assms(5)]
  have len: "length (hub_heap (srv_hub s1)) = length (hub_heap (srv_hub ?s0))" using s1(3) by (simp add: same_clients_def)
  have st: "at_stage s1 q Serving" "cl_Role (the_client s1 q) = js ''editor''" "cl_Code (the_client s1 q) = ?code"
    using c q q0 len by (simp_all add: at_stage_def del: js_simps)
  from server_run_two [OF s1(1) binary_step [OF s1(2) st(1,2)], of b] assms(6) show ?thesis
    by (simp only: s1(4) st(3)) (simp add: GetDoc_getOrCreate GetRole_getOrCreate)
qed


text \<open>Two sessions: Mal is the editor of one, Eve a viewer in Ann's.\<close>

definition live_client :: "jsstring \<Rightarrow> jsstring \<Rightarrow> jsstring \<Rightarrow> hub_client" where
  "live_client user role code = \<lparr>cl_ID = user, cl_Role = role, cl_Code = code, cl_Conn = [], cl_Send = [],
     cl_closed = False, cl_stage = Serving, cl_broken = False, cl_pump = True\<rparr>"

definition two_sessions :: server where
  "two_sessions =
     \<lparr>srv_hub = \<lparr>hub_clients = [(js ''mal'', 0), (js ''eve'', 1)],
        hub_heap = [live_client (js ''mal'') (js ''editor'') (js ''A''), live_client (js ''eve'') (js ''viewer'') (js ''B'')]\<rparr>,
      srv_sessions = run_log [SessionCmd (js ''create'') (js ''A'') (js ''mal'') (js ''editor''),
        SessionCmd (js ''create'') (js ''B'') (js ''ann'') (js ''editor''),
        SessionCmd (js ''join'') (js ''B'') (js ''eve'') (js ''viewer'')] NewCollabServer\<rparr>"

lemma roles_ok_new: "roles_ok NewCollabServer"
  by (simp add: roles_ok_def NewCollabServer_def getOrCreate_def)

lemma two_sessions_ok: "server_ok two_sessions"
proof -
  have "roles_ok (srv_sessions two_sessions)"
    unfolding two_sessions_def server.select_convs by (rule roles_ok_log) (simp_all add: roles_ok_new del: js_simps)
  then show ?thesis
    by (auto simp: two_sessions_def server_ok_def hub_ok_def the_client_def client_at_def live_client_def
        less_Suc_eq valid_role_def split: if_splits)
qed

lemma role_change_crosses_sessions_witness:
  "\<exists>s1. server_run 0 [Receive SingleNode 0 (got_frame (Json (SendRoleChange (js ''eve'') (js ''editor'')))),
       Receive SingleNode 1 (GotBinary [7])] two_sessions = Some s1 \<and>
     GetDoc (srv_sessions s1) (js ''B'') = [7] \<and> GetRole (srv_sessions s1) (js ''B'') (js ''eve'') = js ''viewer''"
proof -
  have c: "the_client two_sessions 0 = live_client (js ''mal'') (js ''editor'') (js ''A'')"
    "the_client two_sessions 1 = live_client (js ''eve'') (js ''viewer'') (js ''B'')"
    by (simp_all add: two_sessions_def the_client_def client_at_def)
  have f: "at_stage two_sessions 0 Serving" "at_stage two_sessions 1 Serving" "registered (srv_hub two_sessions) 1"
    using c by (simp_all add: at_stage_def live_client_def two_sessions_def registered_def)
  have r: "GetRole (srv_sessions two_sessions) (js ''B'') (js ''eve'') = js ''viewer''"
    by (simp add: two_sessions_def GetRole_getOrCreate NewCollabServer_def)
  have v: "cl_ID (the_client two_sessions 1) = js ''eve''" "cl_Code (the_client two_sessions 1) = js ''B''"
    "cl_Role (the_client two_sessions 0) = js ''editor''" "cl_Code (the_client two_sessions 0) \<noteq> js ''B''"
    using c by (simp_all add: live_client_def)
  then have n: "cl_Code (the_client two_sessions 0) \<noteq> cl_Code (the_client two_sessions 1)" by simp
  show ?thesis
    using role_change_crosses_sessions [OF two_sessions_ok f(1) v(3) f(2,3) n, of 0 "[7]"] unfolding v r .
qed

section \<open>Replaced connections\<close>

text \<open>An event that is not one of the connection \<open>p\<close> itself.\<close>

fun not_by :: "nat \<Rightarrow> server_event \<Rightarrow> bool" where
  "not_by p (Receive rsm q m) = (q \<noteq> p)"
| "not_by p (Leave q) = (q \<noteq> p)"
| "not_by p e = True"

definition replaced :: "server \<Rightarrow> nat \<Rightarrow> jsstring \<Rightarrow> jsstring \<Rightarrow> bool" where
  "replaced s p role code \<longleftrightarrow> at_stage s p Serving \<and> \<not> registered (srv_hub s) p \<and>
     cl_Role (the_client s p) = role \<and> cl_Code (the_client s p) = code"

lemma replaced_same: "same_clients s s1 \<Longrightarrow> replaced s p role code \<Longrightarrow> replaced s1 p role code"
  using same_clientsD [of s s1 p] by (auto simp: replaced_def at_stage_def same_clients_def)

lemma replaced_hub: "srv_hub s1 = srv_hub s \<Longrightarrow> replaced s p role code = replaced s1 p role code"
  by (simp add: replaced_def at_stage_def the_client_def)


lemma Unregister_other:
  assumes "Unregister q h = Some h1" "p \<noteq> q"
  shows "client_at h1 p = client_at h p" "length (hub_heap h1) = length (hub_heap h)"
    "registered h1 p \<Longrightarrow> registered h p"
  using assms by (auto simp: Unregister_def Let_def client_at_update registered_def AList.delete_eq split: if_splits)

lemma replaced_leave:
  assumes "server_ok s" "replaced s p role code" "p \<noteq> q" "leave q s = Some s1"
  shows "replaced s1 p role code"
proof -
  let ?h = "update_client q (\<lambda>c. c\<lparr>cl_stage := Left\<rparr>) (srv_hub s)"
  obtain h1 where h1: "Unregister q ?h = Some h1"
    and b: "broadcastParticipants (cl_Code (the_client s q)) (s\<lparr>srv_hub := h1\<rparr>) = Some s1"
    using assms(4) by (auto simp: leave_def on_hub_def bind_eq_Some_conv)
  have "hub_ok ?h" using assms(1) by (intro hub_ok_update) (simp_all add: server_ok_def)
  then have "hub_ok h1" using Unregister_ok [of ?h q] h1 by auto
  then have "same_clients (s\<lparr>srv_hub := h1\<rparr>) s1"
    using b Broadcast_deliver(2) [of h1] same_clients_deliver [of "s\<lparr>srv_hub := h1\<rparr>"]
    by (auto simp: broadcastParticipants_def on_hub_def)
  moreover have "replaced (s\<lparr>srv_hub := h1\<rparr>) p role code"
    using assms(2,3) Unregister_other [OF h1 assms(3)]
    by (auto simp: replaced_def at_stage_def the_client_def client_at_update)
  ultimately show ?thesis by (rule replaced_same)
qed

lemma replaced_begin:
  assumes "server_ok s" "replaced s p role code" "at_stage s q Connecting" "begin_serving q s = Some s1"
  shows "replaced s1 p role code"
proof -
  have pq: "p \<noteq> q" using assms(2,3) by (auto simp: replaced_def at_stage_def)
  let ?doc = "GetDoc (srv_sessions s) (cl_Code (the_client s q))"
  let ?h1 = "Register q (srv_hub s)"
  let ?h2 = "if 0 < length ?doc then WriteMessage (BinaryMsg ?doc) q ?h1 else ?h1"
  let ?h3 = "update_client q (\<lambda>c. c\<lparr>cl_stage := Serving, cl_pump := True\<rparr>) ?h2"
  have b: "broadcastParticipants (cl_Code (the_client s q)) (s\<lparr>srv_hub := ?h3\<rparr>) = Some s1"
    using assms(4) by (simp add: begin_serving_def Let_def)
  have "hub_ok ?h1" using assms(1,3)
    by (intro hub_ok_Register) (simp_all add: server_ok_def at_stage_def the_client_def)
  then have "hub_ok ?h2" using hub_ok_like hub_like_WriteMessage by simp
  then have ok: "hub_ok ?h3" by (rule hub_ok_update) simp_all
  then have "same_clients (s\<lparr>srv_hub := ?h3\<rparr>) s1"
    using b Broadcast_deliver(2) [of ?h3] same_clients_deliver [of "s\<lparr>srv_hub := ?h3\<rparr>"]
    by (auto simp: broadcastParticipants_def on_hub_def)
  moreover have "replaced (s\<lparr>srv_hub := ?h3\<rparr>) p role code"
  proof -
    have c: "client_at ?h3 p = client_at (srv_hub s) p" using pq by (simp add: client_at_update WriteMessage_def Register_def)
    have "\<not> registered ?h3 p"
    proof
      assume "registered ?h3 p"
      then have "map_of (hub_clients (srv_hub s)) (cl_ID (client_at (srv_hub s) p)) = Some p"
        using registered_iff [OF ok, of p] pq c
        by (auto simp: Register_def WriteMessage_def update_conv' split: if_splits)
      then show False using assms(1,2) hub_okD(4) by (auto simp: replaced_def server_ok_def)
    qed
    then show ?thesis using assms(2) c by (simp add: replaced_def at_stage_def the_client_def WriteMessage_def Register_def)
  qed
  ultimately show ?thesis by (rule replaced_same)
qed


lemma replaced_UpdateClientRole:
  assumes "hub_ok (srv_hub s)" "replaced s p role code"
  shows "replaced (s\<lparr>srv_hub := UpdateClientRole u r (srv_hub s)\<rparr>) p role code"
proof (cases "map_of (hub_clients (srv_hub s)) u")
  case (Some q)
  then have "q \<noteq> p" using hub_okD(4) [OF assms(1)] assms(2) by (auto simp: replaced_def)
  then show ?thesis using assms(2) Some
    by (simp add: replaced_def at_stage_def the_client_def UpdateClientRole_def client_at_update)
qed (use assms(2) in \<open>simp add: replaced_def at_stage_def the_client_def UpdateClientRole_def\<close>)

lemma serveProposal_same:
  assumes s: "server_ok s" and l: "list_all cmd_ok (log_of rsm)" and e: "serveProposal rsm port p m s = Some s1"
  shows "same_clients s s1"
proof -
  have sub: "same_clients s s2" "server_ok s2" if "submit rsm (ProposalCmd code q a) s = (s2, ok)" for code q a s2 ok
    using same_clients_submit [OF that] server_ok_submit [OF s _ l that] by simp_all
  have done1: "same_clients s s1"
    if "(case submit rsm (ProposalCmd code q a) s of (s1, ok) \<Rightarrow>
      if \<not> ok then Some (sendRedirect port p s1) else on_hub (BroadcastSessionAll msg code1) s1) = Some s1"
    for code q a msg code1
  proof -
    obtain s2 ok where x: "submit rsm (ProposalCmd code q a) s = (s2, ok)" by fastforce
    show ?thesis
      using that same_clients_broadcast(2) [OF sub(2) [OF x], of msg code1 s1] same_clients_trans [OF sub(1) [OF x]]
      by (cases ok) (auto simp: x)
  qed
  show ?thesis
    using e done1 unfolding serveProposal_def Let_def
    by (auto simp del: js_simps split: option.splits if_splits)
qed

lemma replaced_serveRoleChange:
  assumes s: "server_ok s" and l: "list_all cmd_ok (log_of rsm)" and r: "replaced s p role code"
    and e: "serveRoleChange rsm port q m s = Some s1"
  shows "replaced s1 p role code"
proof (cases "cl_Role (the_client s q) = js ''editor'' \<and> valid_role (im_Role m)")
  case True
  let ?s = "s\<lparr>srv_hub := UpdateClientRole (im_UserID m) (im_Role m) (srv_hub s)\<rparr>"
  let ?c = "RoleChangeCmd (cl_Code (the_client s q)) (im_UserID m) (im_Role m)"
  obtain s2 ok where sub: "submit rsm ?c ?s = (s2, ok)" by fastforce
  have ok1: "server_ok ?s" using True s by (simp add: server_ok_like hub_like_UpdateClientRole)
  have r1: "replaced ?s p role code" using replaced_UpdateClientRole s r by (simp add: server_ok_def)
  have ok2: "server_ok s2" using server_ok_submit [OF ok1 _ l sub] True by simp
  have r2: "replaced s2 p role code" using replaced_same [OF same_clients_submit [OF sub] r1] .
  show ?thesis
  proof (cases ok)
    case True1: True
    with e True sub obtain s3 where s3: "on_hub (BroadcastSessionAll (TextMsg (ToPage (RoleChange (im_UserID m) (im_Role m))))
      (cl_Code (the_client s q))) s2 = Some s3" "broadcastParticipants (cl_Code (the_client s q)) s3 = Some s1"
      by (auto simp: serveRoleChange_def Let_def valid_role_def bind_eq_Some_conv simp del: js_simps)
    have "server_ok s3" using broadcast_ok(2) [OF ok2] s3(1) by (metis option.inject)
    from same_clients_broadcast(3) [OF this s3(2)] same_clients_broadcast(2) [OF ok2 s3(1)] r2
    show ?thesis by (blast intro: replaced_same)
  next
    case False
    with e True sub have "s1 = sendRedirect port q s2"
      by (auto simp: serveRoleChange_def Let_def valid_role_def simp del: js_simps)
    then show ?thesis using replaced_same [OF same_clients_redirect r2] by simp
  qed
next
  case False
  then have "s1 = s" using e by (auto simp: serveRoleChange_def Let_def valid_role_def simp del: js_simps split: if_splits)
  then show ?thesis using r by simp
qed

lemma replaced_serveText:
  assumes s: "server_ok s" and l: "list_all cmd_ok (log_of rsm)" and r: "replaced s p role code"
    and e: "serveText rsm port q m raw s = Some s1"
  shows "replaced s1 p role code"
proof (cases m)
  case (Some x)
  have "same_clients s s1 \<or> serveRoleChange rsm port q x s = Some s1"
    using e serveProposal_same [OF s l, of port q x s1] same_clients_broadcast(1) [OF s] same_clients_SendRaw [OF s]
    by (auto simp: serveText_def relay_raw_def Some simp del: js_simps split: if_splits)
  then show ?thesis using replaced_same r replaced_serveRoleChange [OF s l r] by blast
qed (use e r in \<open>simp add: serveText_def\<close>)

lemma replaced_serveBinary:
  assumes s: "server_ok s" and l: "list_all cmd_ok (log_of rsm)" and r: "replaced s p role code" and pq: "q \<noteq> p"
    and e: "serveBinary rsm port q b s = Some s1"
  shows "replaced s1 p role code"
proof (cases "cl_Role (the_client s q) = js ''editor''")
  case True
  obtain s2 ok where sub: "submit rsm (CRDTUpdateCmd (cl_Code (the_client s q)) b) s = (s2, ok)" by fastforce
  have ok2: "server_ok s2" using server_ok_submit [OF s _ l sub] by simp
  have r2: "replaced s2 p role code" using replaced_same [OF same_clients_submit [OF sub] r] .
  show ?thesis
  proof (cases ok)
    case True1: True
    with e True sub have "on_hub (BroadcastSession (BinaryMsg b) (cl_ID (the_client s q)) (cl_Code (the_client s q))) s2 = Some s1"
      by (simp add: serveBinary_def Let_def del: js_simps)
    then show ?thesis using replaced_same [OF same_clients_broadcast(1) [OF ok2] r2] by blast
  next
    case False
    with e True sub have "leave q (sendRedirect port q s2) = Some s1"
      by (simp add: serveBinary_def Let_def del: js_simps)
    then show ?thesis
      using replaced_leave [OF redirect_ok [OF ok2] replaced_same [OF same_clients_redirect r2] pq [symmetric]] by blast
  qed
qed (use e r in \<open>simp add: serveBinary_def\<close>)


lemma submit_hubD: "submit rsm c s = (s1, ok) \<Longrightarrow> srv_hub s1 = srv_hub s"
  using submit_hub [of rsm c s] by simp

lemma replaced_step:
  assumes s: "server_ok s" and l: "entries_ok e" and r: "replaced s p role code" and e: "not_by p e"
    and st: "server_step port e s = Some s1"
  shows "replaced s1 p role code"
proof (cases e)
  case (Receive rsm q m)
  then show ?thesis
    using st e l r replaced_serveBinary [OF s _ r] replaced_serveText [OF s _ r]
    by (cases m) (auto simp: entries_ok_def split: if_splits)
next
  case (Leave q)
  then show ?thesis using st e r replaced_leave [OF s r, of q s1] by (auto split: if_splits)
next
  case (Begin q)
  then show ?thesis using st r replaced_begin [OF s r] by (auto split: if_splits)
next
  case (Create rsm body rands)
  have "srv_hub s1 = srv_hub s"
    using st Create by (auto simp: serveCreate_def Let_def split: option.splits prod.splits dest!: submit_hubD)
  then show ?thesis using r replaced_hub by blast
next
  case (Join rsm body)
  have "srv_hub s1 = srv_hub s"
    using st Join by (auto simp: serveJoin_def Let_def split: option.splits prod.splits dest!: submit_hubD)
  then show ?thesis using r replaced_hub by blast
next
  case (Connect user code1)
  then have "p < length (hub_heap (srv_hub s)) \<Longrightarrow> the_client s1 p = the_client s p"
    "length (hub_heap (srv_hub s)) \<le> length (hub_heap (srv_hub s1))" "registered (srv_hub s1) p = registered (srv_hub s) p"
    using st by (auto simp: connect_def the_client_def client_at_def nth_append registered_def split: if_splits)
  then show ?thesis using r by (simp add: replaced_def at_stage_def)
next
  case (Pump q)
  then have "srv_hub s1 = writePump q (srv_hub s) \<or> s1 = s" using st by (auto split: if_splits)
  then show ?thesis
    using r by (auto simp: replaced_def at_stage_def the_client_def writePump_def client_at_update)
next
  case (Lost q)
  then have "srv_hub s1 = lose q (srv_hub s)" using st by auto
  then show ?thesis
    using r by (auto simp: replaced_def at_stage_def the_client_def lose_def client_at_update)
next
  case (Applied cmds)
  then have "srv_hub s1 = srv_hub s" using st by auto
  then show ?thesis using r replaced_hub by blast
qed


lemma replaced_run:
  "server_ok s \<Longrightarrow> list_all entries_ok es \<Longrightarrow> list_all (not_by p) es \<Longrightarrow> replaced s p role code \<Longrightarrow>
   server_run port es s = Some s1 \<Longrightarrow> server_ok s1 \<and> replaced s1 p role code"
proof (induction es arbitrary: s)
  case (Cons e es)
  then obtain s2 where s2: "server_step port e s = Some s2" "server_run port es s2 = Some s1"
    by (auto split: option.splits)
  then have "server_ok s2" using server_step_ok [of s e port] Cons.prems(1,2) by auto
  then show ?case using Cons s2 replaced_step [of s e p role code port s2] by auto
qed simp

text \<open>
  A connection that a later one of the same user has replaced in the hub keeps the role it was made
  with, whatever happens: if that was editor, its updates still overwrite the document after the user
  has been made a viewer.
\<close>

theorem replaced_connection_keeps_role:
  assumes "server_ok s" "at_stage s p Serving" "\<not> registered (srv_hub s) p" "cl_Role (the_client s p) = js ''editor''"
    and "list_all entries_ok es" "list_all (not_by p) es" "server_run port es s = Some s1"
  shows "\<exists>s2. server_step port (Receive SingleNode p (GotBinary b)) s1 = Some s2 \<and>
    GetDoc (srv_sessions s2) (cl_Code (the_client s p)) = b"
proof -
  have "replaced s p (js ''editor'') (cl_Code (the_client s p))" using assms(2-4) by (simp add: replaced_def)
  from replaced_run [OF assms(1,5,6) this assms(7)]
  have r: "server_ok s1" "replaced s1 p (js ''editor'') (cl_Code (the_client s p))" by blast+
  then have "at_stage s1 p Serving" "cl_Role (the_client s1 p) = js ''editor''"
    "cl_Code (the_client s1 p) = cl_Code (the_client s p)" by (simp_all add: replaced_def)
  then show ?thesis using binary_step [OF r(1)] by (simp add: GetDoc_getOrCreate)
qed

text \<open>Bob has two connections when Ann makes him a viewer.\<close>

definition two_tabs :: server where
  "two_tabs =
     \<lparr>srv_hub = \<lparr>hub_clients = [(js ''ann'', 0), (js ''bob'', 2)],
        hub_heap = [live_client (js ''ann'') (js ''editor'') (js ''A''), live_client (js ''bob'') (js ''editor'') (js ''A''),
          live_client (js ''bob'') (js ''editor'') (js ''A'')]\<rparr>,
      srv_sessions = run_log [SessionCmd (js ''create'') (js ''A'') (js ''ann'') (js ''editor''),
        RoleChangeCmd (js ''A'') (js ''bob'') (js ''editor'')] NewCollabServer\<rparr>"

lemma two_tabs_ok: "server_ok two_tabs"
proof -
  have "roles_ok (srv_sessions two_tabs)"
    unfolding two_tabs_def server.select_convs by (rule roles_ok_log) (simp_all add: roles_ok_new del: js_simps)
  then show ?thesis
    by (auto simp: two_tabs_def server_ok_def hub_ok_def the_client_def client_at_def live_client_def
        less_Suc_eq valid_role_def split: if_splits)
qed

lemma replaced_connection_keeps_role_witness:
  "\<exists>s1 s2. server_run 0 [Receive SingleNode 0 (got_frame (Json (SendRoleChange (js ''bob'') (js ''viewer''))))] two_tabs = Some s1 \<and>
     GetRole (srv_sessions s1) (js ''A'') (js ''bob'') = js ''viewer'' \<and>
     server_step 0 (Receive SingleNode 1 (GotBinary [7])) s1 = Some s2 \<and> GetDoc (srv_sessions s2) (js ''A'') = [7]"
proof -
  have c: "the_client two_tabs 0 = live_client (js ''ann'') (js ''editor'') (js ''A'')"
    "the_client two_tabs 1 = live_client (js ''bob'') (js ''editor'') (js ''A'')"
    by (simp_all add: two_tabs_def the_client_def client_at_def)
  have f: "at_stage two_tabs 0 Serving" "at_stage two_tabs 1 Serving" "\<not> registered (srv_hub two_tabs) 1"
    using c by (simp_all add: at_stage_def live_client_def two_tabs_def registered_def)
  have v: "cl_Role (the_client two_tabs 0) = js ''editor''" "cl_Role (the_client two_tabs 1) = js ''editor''"
    "cl_Code (the_client two_tabs 0) = js ''A''" "cl_Code (the_client two_tabs 1) = js ''A''"
    using c by (simp_all add: live_client_def)
  let ?e = "Receive SingleNode 0 (got_frame (Json (SendRoleChange (js ''bob'') (js ''viewer''))))"
  obtain s1 where s1: "server_step 0 ?e two_tabs = Some s1"
    "srv_sessions s1 = DoOp (RoleChangeCmd (js ''A'') (js ''bob'') (js ''viewer'')) (srv_sessions two_tabs)"
    using role_change_step [OF two_tabs_ok f(1) v(1) valid_role_simps(3), of 0 "js ''bob''"] unfolding v(3) by blast
  have run: "server_run 0 [?e] two_tabs = Some s1" using s1(1) by (simp del: got_frame.simps server_step.simps)
  moreover have "GetRole (srv_sessions s1) (js ''A'') (js ''bob'') = js ''viewer''"
    by (simp only: s1(2)) (simp add: GetRole_getOrCreate)
  ultimately show ?thesis
    using replaced_connection_keeps_role [OF two_tabs_ok f(2,3) v(2) _ _ run, of "[7]"] unfolding v(4)
    by (simp add: entries_ok_def del: server_run.simps server_step.simps)
qed

end
