(* ===== verification/Delivery.thy ===== *)
theory Delivery
  imports ServerRoles "HOL-Library.Sublist"
begin

text \<open>
  The pages and the server together: an edit of one page goes over its socket to the server, which
  stores it and passes it on, and from the queues of the other connections to their pages. What a page
  sends is a \<open>frame\<close> of \<open>CollabWS\<close>, what it gets a message of \<open>ServerHub\<close>.
\<close>

section \<open>From page to page\<close>

text \<open>The event a message is for the hook of a page, on its socket \<open>j\<close>.\<close>

fun page_event :: "nat \<Rightarrow> ws_message \<Rightarrow> 'd event" where
  "page_event j (BinaryMsg b) = Binary j b"
| "page_event j (TextMsg x) = Text j x"

lemma edit_is_sent:
  assumes "ws_role a = js ''editor''" "ready_socket i OPEN a" "sk_mounted (sock a i)"
  shows "sk_sent (sock (ws_step env (LocalEdit d) a) i) = sk_sent (sock a i) @ [StateFrame (r_state (env_ops env) d)]"
  using assms by (simp add: onUpdate_def ready_socket_def sock_def push_def)

text \<open>The commands that a run executes.\<close>

fun run_commands :: "int \<Rightarrow> server_event list \<Rightarrow> server \<Rightarrow> command list" where
  "run_commands port [] s = []"
| "run_commands port (e # es) s = (case server_step port e s of
     None \<Rightarrow> [] | Some s1 \<Rightarrow> event_commands e s @ run_commands port es s1)"

lemma run_executes: "server_run port es s = Some s1 \<Longrightarrow> srv_sessions s1 = run_log (run_commands port es s) (srv_sessions s)"
  by (induction es arbitrary: s) (auto split: option.splits dest: step_executes_commands)

text \<open>What is queued is written, in its order, as often as the pump runs, whatever else happens, unless the
  connection is lost.\<close>

lemma pump_step:
  assumes "server_step port (Pump q) s = Some s1" "q < length (hub_heap (srv_hub s))"
    and "cl_stage (the_client s q) \<noteq> Connecting" "cl_pump (the_client s q)" "\<not> cl_broken (the_client s1 q)"
  shows "the_client s1 q = (case cl_Send (the_client s q) of [] \<Rightarrow> the_client s q
      | m # ms \<Rightarrow> (the_client s q)\<lparr>cl_Send := ms, cl_Conn := cl_Conn (the_client s q) @ [m]\<rparr>)"
    "length (hub_heap (srv_hub s1)) = length (hub_heap (srv_hub s))"
proof -
  have "at_stage s q Serving \<or> at_stage s q Left" using assms(2,3) by (cases "cl_stage (the_client s q)") (simp_all add: at_stage_def)
  then have e: "s1 = s\<lparr>srv_hub := writePump q (srv_hub s)\<rparr>" using assms(1) by simp
  then show "length (hub_heap (srv_hub s1)) = length (hub_heap (srv_hub s))" by (simp add: writePump_def)
  have "the_client s1 q = pump_round (the_client s q) (cl_Send (the_client s q))"
    using assms(2,4) by (simp add: e the_client_def writePump_def client_at_update)
  then show "the_client s1 q = (case cl_Send (the_client s q) of [] \<Rightarrow> the_client s q
      | m # ms \<Rightarrow> (the_client s q)\<lparr>cl_Send := ms, cl_Conn := cl_Conn (the_client s q) @ [m]\<rparr>)"
    using assms(5) by (cases "cl_Send (the_client s q)") (auto split: if_splits)
qed

lemma stays_broken:
  assumes "server_run port es s = Some s1" "q < length (hub_heap (srv_hub s))" "cl_broken (the_client s q)"
  shows "cl_broken (the_client s1 q)"
  using assms
proof (induction es arbitrary: s)
  case (Cons e es)
  then obtain s2 where s2: "server_step port e s = Some s2" "server_run port es s2 = Some s1" by (auto split: option.splits)
  have "q < length (hub_heap (srv_hub s2)) \<and> cl_broken (the_client s2 q)"
  proof (cases "e = Pump q")
    case True
    have "cl_broken (pump_round c ms)" if "cl_broken c" for c ms using that by (cases ms) simp_all
    then show ?thesis using s2(1) Cons.prems(2,3)
      by (auto simp: True the_client_def writePump_def client_at_update)
  next
    case False
    from onwardD(1,3) [OF onward_step [OF s2(1) False] Cons.prems(2)] Cons.prems(3) show ?thesis by (simp add: the_client_def)
  qed
  then show ?case using Cons.IH [OF s2(2)] by blast
qed simp

lemma run_delivers:
  assumes "server_run port es s = Some s1" "q < length (hub_heap (srv_hub s))" "cl_stage (the_client s q) \<noteq> Connecting"
    and "cl_pump (the_client s q)" "\<not> cl_broken (the_client s1 q)"
  shows "\<exists>zs. cl_Conn (the_client s1 q) = cl_Conn (the_client s q) @ zs \<and>
    subseq (take (count_list es (Pump q)) (cl_Send (the_client s q))) zs"
  using assms
proof (induction es arbitrary: s)
  case (Cons e es)
  then obtain s2 where s2: "server_step port e s = Some s2" "server_run port es s2 = Some s1" by (auto split: option.splits)
  show ?case
  proof (cases "e = Pump q")
    case True
    have len: "length (hub_heap (srv_hub s2)) = length (hub_heap (srv_hub s))"
      using s2(1) by (auto simp: True writePump_def)
    then have "\<not> cl_broken (the_client s2 q)" using stays_broken [OF s2(2)] Cons.prems(2,5) by auto
    from pump_step(1) [OF s2(1) [unfolded True] Cons.prems(2-4) this]
    show ?thesis
    proof (cases "cl_Send (the_client s q)")
      case (Cons m ms)
      with pump_step(1) [OF s2(1) [unfolded True] Cons.prems(2-4) \<open>\<not> cl_broken (the_client s2 q)\<close>]
      have c: "the_client s2 q = (the_client s q)\<lparr>cl_Send := ms, cl_Conn := cl_Conn (the_client s q) @ [m]\<rparr>" by simp
      from Cons.IH [OF s2(2)] len Cons.prems(2-5) obtain zs where
        "cl_Conn (the_client s1 q) = cl_Conn (the_client s q) @ m # zs" "subseq (take (count_list es (Pump q)) ms) zs"
        by (auto simp: c)
      then show ?thesis by (intro exI [of _ "m # zs"]) (simp add: True Cons)
    next
      case Nil
      with \<open>the_client s2 q = _\<close> have "the_client s2 q = the_client s q" by simp
      with Cons.IH [OF s2(2)] len Cons.prems(2-5) show ?thesis by (auto simp: Nil)
    qed
  next
    case False
    note o = onwardD [OF onward_step [OF s2(1) False] Cons.prems(2)]
    obtain xs ys where xy: "cl_Conn (the_client s2 q) = cl_Conn (the_client s q) @ xs"
      "cl_Send (the_client s2 q) = cl_Send (the_client s q) @ ys" using o(5) by (auto simp: the_client_def)
    from Cons.IH [OF s2(2)] o(1,2,4) Cons.prems(3-5) obtain zs where
      zs: "cl_Conn (the_client s1 q) = cl_Conn (the_client s2 q) @ zs"
      "subseq (take (count_list es (Pump q)) (cl_Send (the_client s2 q))) zs" by (auto simp: the_client_def)
    have "subseq (take (count_list es (Pump q)) (cl_Send (the_client s q))) (xs @ zs)"
      using zs(2) unfolding xy(2) take_append by (blast intro: subseq_order.order_trans list_emb_prefix list_emb_append2 subseq_order.order_refl)
    then show ?thesis using zs(1) xy(1) False by auto
  qed
qed simp

text \<open>The node puts the command into effect: it runs without a cluster, or \<open>Submit\<close> answers OK, when the node has
  applied the command.\<close>

fun commits :: "consensus \<Rightarrow> command \<Rightarrow> bool" where
  "commits SingleNode c = True"
| "commits (Replicated applied ok) c = (ok \<and> c \<in> set applied)"

lemma committed_binary:
  assumes s: "server_ok s" and p: "at_stage s p Serving" "cl_Role (the_client s p) = js ''editor''"
    and c: "commits rsm (CRDTUpdateCmd (cl_Code (the_client s p)) b)"
  shows "server_step port (Receive rsm p (GotBinary b)) s = Some
      (s\<lparr>srv_hub := deliver (\<lambda>c. cl_ID c \<noteq> cl_ID (the_client s p) \<and> cl_Code c = cl_Code (the_client s p)) (BinaryMsg b) (srv_hub s),
        srv_sessions := run_log (event_commands (Receive rsm p (GotBinary b)) s) (srv_sessions s)\<rparr>)"
    "CRDTUpdateCmd (cl_Code (the_client s p)) b \<in> set (event_commands (Receive rsm p (GotBinary b)) s)"
  using assms Broadcast_deliver(1) [of "srv_hub s"]
  by (cases rsm; simp add: serveBinary_def submit_def Let_def on_hub_def server_ok_def del: js_simps DoOp.simps)+

lemma last_update_split:
  "GetDoc (run_log (pre @ CRDTUpdateCmd code b # post) cs) code = (case last_update code post of None \<Rightarrow> b | Some u \<Rightarrow> u)"
  by (simp add: run_log_doc DoOp_doc del: DoOp.simps split: option.split)

text \<open>
  C8. an edit reaches the other pages. When an editor's page is edited and the node that it is connected to
  commits the update - the node runs alone, or its \<open>Submit\<close> answers OK - the new state is a command that the
  node executes, and the document it keeps for those who join later is that state, until a later update of
  the session. A connection of another user in the session whose queue has room gets the state behind what was
  queued before: whatever the server does next, once the pump of the connection has run as often as that
  takes, and unless the connection was lost, all this has been written to it, in this order. The page that gets
  it applies it to its document.
\<close>

theorem edit_reaches_pages:
  assumes "ws_role a = js ''editor''" "ready_socket i OPEN a" "sk_mounted (sock a i)"
    and "server_ok s" "at_stage s p Serving" "cl_Role (the_client s p) = js ''editor''"
    and "commits rsm (CRDTUpdateCmd (cl_Code (the_client s p)) (r_state (env_ops env) d))"
    and "at_stage s q Serving" "registered (srv_hub s) q" "cl_Code (the_client s q) = cl_Code (the_client s p)"
    and "cl_ID (the_client s q) \<noteq> cl_ID (the_client s p)" "length (cl_Send (the_client s q)) < queue_size"
    and "cl_pump (the_client s q)"
    and "server_run port (Receive rsm p (got_frame (last (sk_sent (sock (ws_step env (LocalEdit d) a) i)))) # es) s = Some s1"
    and "length (cl_Send (the_client s q)) < count_list es (Pump q)" "\<not> cl_broken (the_client s1 q)"
    and "ready_socket j OPEN w" "sk_handlers (sock w j)"
  shows "(\<exists>pre post.
      run_commands port (Receive rsm p (got_frame (last (sk_sent (sock (ws_step env (LocalEdit d) a) i)))) # es) s =
        pre @ CRDTUpdateCmd (cl_Code (the_client s p)) (r_state (env_ops env) d) # post \<and>
      GetDoc (srv_sessions s1) (cl_Code (the_client s p)) =
        (case last_update (cl_Code (the_client s p)) post of None \<Rightarrow> r_state (env_ops env) d | Some u \<Rightarrow> u)) \<and>
    (\<exists>ms. cl_Conn (the_client s1 q) = cl_Conn (the_client s q) @ ms \<and>
      subseq (cl_Send (the_client s q) @ [BinaryMsg (r_state (env_ops env) d)]) ms) \<and>
    ws_doc (ws_step env2 (page_event j (BinaryMsg (r_state (env_ops env) d))) w) =
      fst (r_apply (env_ops env2) (r_state (env_ops env) d) (ws_doc w))"
proof -
  let ?b = "r_state (env_ops env) d" and ?code = "cl_Code (the_client s p)"
  let ?e = "Receive rsm p (GotBinary ?b)"
  let ?s = "s\<lparr>srv_hub := deliver (\<lambda>c. cl_ID c \<noteq> cl_ID (the_client s p) \<and> cl_Code c = ?code) (BinaryMsg ?b) (srv_hub s),
      srv_sessions := run_log (event_commands ?e s) (srv_sessions s)\<rparr>"
  have f: "got_frame (last (sk_sent (sock (ws_step env (LocalEdit d) a) i))) = GotBinary ?b"
    by (simp only: edit_is_sent [OF assms(1-3)]) simp
  note step = committed_binary(1) [OF assms(4-7), of port] committed_binary(2) [OF assms(4-7)]
  have run1: "server_run port (?e # es) s = Some s1" using assms(14) unfolding f .
  then have run: "server_run port es ?s = Some s1" unfolding server_run.simps(2) step(1) by simp
  have q: "q < length (hub_heap (srv_hub s))" "cl_stage (the_client s q) = Serving" using assms(8) by (simp_all add: at_stage_def)
  have c: "the_client ?s q = (the_client s q)\<lparr>cl_Send := cl_Send (the_client s q) @ [BinaryMsg ?b]\<rparr>"
    using q(1) assms(9-12) by (simp add: the_client_def client_at_deliver enqueue_def)
  have len: "q < length (hub_heap (srv_hub ?s))" using q(1) by simp
  have "\<exists>ms. cl_Conn (the_client s1 q) = cl_Conn (the_client ?s q) @ ms \<and>
      subseq (take (count_list es (Pump q)) (cl_Send (the_client ?s q))) ms"
    by (rule run_delivers [OF run len]) (unfold c, simp_all add: q(2) assms(13,16))
  then obtain ms where ms: "cl_Conn (the_client s1 q) = cl_Conn (the_client s q) @ ms"
    "subseq (cl_Send (the_client s q) @ [BinaryMsg ?b]) ms" unfolding c using assms(15) by auto
  obtain pre post where "event_commands ?e s = pre @ CRDTUpdateCmd ?code ?b # post" using split_list [OF step(2)] by blast
  moreover have "run_commands port (?e # es) s = event_commands ?e s @ run_commands port es ?s"
    using step(1) by (simp del: server_step.simps event_commands.simps)
  ultimately have cmds: "run_commands port (?e # es) s = pre @ CRDTUpdateCmd ?code ?b # (post @ run_commands port es ?s)" by simp
  from run_executes [OF run1] have "GetDoc (srv_sessions s1) ?code =
      (case last_update ?code (post @ run_commands port es ?s) of None \<Rightarrow> ?b | Some u \<Rightarrow> u)"
    unfolding cmds by (simp only: last_update_split)
  moreover have "ws_doc (onbinary env2 j x w) = fst (r_apply (env_ops env2) x (ws_doc w))" for x
    by (auto simp: onbinary_def Let_def doSyncHandshake_def send_on_def split: prod.split sum.split bool.split)
  ultimately show ?thesis using ms cmds assms(17,18) unfolding f by auto
qed

definition one_session :: server where
  "one_session =
     \<lparr>srv_hub = \<lparr>hub_clients = [(js ''ann'', 0), (js ''eve'', 1)],
        hub_heap = [live_client (js ''ann'') (js ''editor'') (js ''A''), live_client (js ''eve'') (js ''viewer'') (js ''A'')]\<rparr>,
      srv_sessions = run_log [SessionCmd (js ''create'') (js ''A'') (js ''ann'') (js ''editor''),
        SessionCmd (js ''join'') (js ''A'') (js ''eve'') (js ''viewer'')] NewCollabServer\<rparr>"

lemma one_session_ok: "server_ok one_session"
proof -
  have "roles_ok (srv_sessions one_session)"
    unfolding one_session_def server.select_convs by (rule roles_ok_log) (simp_all add: roles_ok_new del: js_simps)
  then show ?thesis
    by (auto simp: one_session_def server_ok_def hub_ok_def the_client_def client_at_def live_client_def
        less_Suc_eq valid_role_def split: if_splits)
qed

definition open_page :: "jsstring \<Rightarrow> jsstring \<Rightarrow> jsstring ws" where
  "open_page role d = ws_run plain_env [Mount, Opened 0] (initial_ws role d)"

lemma open_page_ok:
  "ws_role (open_page role d) = role" "ready_socket 0 OPEN (open_page role d)" "sk_handlers (sock (open_page role d) 0)"
  "sk_mounted (sock (open_page role d) 0)"
  by (simp_all add: open_page_def plain_simps)

lemma edit_reaches_pages_witness:
  "\<exists>s1. server_run 0 [Receive (Replicated [CRDTUpdateCmd (js ''A'') [0, 0]] True) 0 (GotBinary [0, 0]), Pump 1] one_session = Some s1 \<and>
     GetDoc (srv_sessions s1) (js ''A'') = [0, 0] \<and> subseq [BinaryMsg [0, 0]] (cl_Conn (the_client s1 1))"
proof -
  let ?rsm = "Replicated [CRDTUpdateCmd (js ''A'') [0, 0]] True"
  let ?run = "[Receive ?rsm 0 (GotBinary [0, 0]), Pump 1]"
  have c: "the_client one_session 0 = live_client (js ''ann'') (js ''editor'') (js ''A'')"
    "the_client one_session 1 = live_client (js ''eve'') (js ''viewer'') (js ''A'')"
    by (simp_all add: one_session_def the_client_def client_at_def)
  have f: "at_stage one_session 0 Serving" "at_stage one_session 1 Serving" "registered (srv_hub one_session) 1"
    using c by (simp_all add: at_stage_def live_client_def one_session_def registered_def)
  have v: "cl_Role (the_client one_session 0) = js ''editor''" "cl_Code (the_client one_session 0) = js ''A''"
    "cl_Code (the_client one_session 1) = cl_Code (the_client one_session 0)"
    "cl_ID (the_client one_session 1) \<noteq> cl_ID (the_client one_session 0)"
    "cl_Send (the_client one_session 1) = []" "cl_Conn (the_client one_session 1) = []" "cl_pump (the_client one_session 1)"
    using c by (simp_all add: live_client_def)
  have z: "length (cl_Send (the_client one_session 1)) < queue_size" "length (cl_Send (the_client one_session 1)) < count_list [Pump 1] (Pump 1)"
    unfolding v(5) queue_size_def by simp_all
  let ?a = "open_page (js ''editor'') (js ''a'')"
  have sent: "got_frame (last (sk_sent (sock (ws_step plain_env (LocalEdit (js ''ab'')) ?a) 0))) = GotBinary [0, 0]"
    by (simp only: edit_is_sent [OF open_page_ok(1,2,4)]) (simp add: plain_env_def plain_ops_def)
  have b: "r_state (env_ops plain_env) (js ''ab'') = [0, 0]" by (simp add: plain_env_def plain_ops_def)
  have m: "commits ?rsm (CRDTUpdateCmd (cl_Code (the_client one_session 0)) (r_state (env_ops plain_env) (js ''ab'')))"
    unfolding v(2) b by simp
  have "list_all entries_ok ?run" by (simp add: entries_ok_def)
  then obtain s1 where s1: "server_run 0 ?run one_session = Some s1" using server_run_ok [OF one_session_ok] by blast
  have "map_option (\<lambda>s. (cl_broken (the_client s 1), GetDoc (srv_sessions s) (js ''A''))) (server_run 0 ?run one_session) = Some (False, [0, 0])"
    by code_simp
  then have n: "\<not> cl_broken (the_client s1 1)" "GetDoc (srv_sessions s1) (js ''A'') = [0, 0]"
    unfolding s1 option.map option.inject prod.inject by simp_all
  note page = open_page_ok [of "js ''editor''" "js ''a''"]
  from edit_reaches_pages [OF page(1,2,4) one_session_ok f(1) v(1) m f(2,3) v(3,4) z(1) v(7) s1 [folded sent] z(2) n(1)
      open_page_ok(2,3) [of "js ''viewer''" "js ''a''"]]
  have "subseq [BinaryMsg [0, 0]] (cl_Conn (the_client s1 1))" unfolding v(5,6) b by auto
  then show ?thesis using s1 n(2) by blast
qed

section \<open>Joining\<close>

lemma broadcastParticipants_conn:
  assumes "hub_ok (srv_hub s)" "p < length (hub_heap (srv_hub s))" "broadcastParticipants code s = Some s1"
  shows "cl_Conn (the_client s1 p) = cl_Conn (the_client s p)"
  using assms Broadcast_deliver(2) [OF assms(1)]
  by (auto simp: broadcastParticipants_def on_hub_def the_client_def client_at_deliver)

text \<open>
  C13. who joins gets the last update an editor has sent, as it was sent, and nothing else of the document:
  an update that another editor sent before it, and that is not part of it because the two were
  made at the same time, is not there.
\<close>

theorem joiner_gets_last_update:
  assumes "list_all entries_ok es" "server_run port es NewServer = Some s" "user \<noteq> []" "code \<noteq> []"
    and "SessionExists (srv_sessions s) code"
  shows "\<exists>s1. server_run port [Connect user code, Begin (length (hub_heap (srv_hub s)))] s = Some s1 \<and>
    cl_Conn (the_client s1 (length (hub_heap (srv_hub s)))) =
      (case last_update code (run_commands port es NewServer) of
         Some (x # xs) \<Rightarrow> [BinaryMsg (x # xs)] | _ \<Rightarrow> [])"
proof -
  let ?p = "length (hub_heap (srv_hub s))" and ?s = "connect user code s"
  let ?c = "\<lparr>cl_ID = user, cl_Role = GetRole (srv_sessions s) code user, cl_Code = code, cl_Conn = [],
      cl_Send = [], cl_closed = False, cl_stage = Connecting, cl_broken = False, cl_pump = False\<rparr>"
  have ok: "server_ok s" using server_run_ok [OF server_ok_new assms(1), of port] assms(2) by simp
  have con: "?s = s\<lparr>srv_hub := (srv_hub s)\<lparr>hub_heap := hub_heap (srv_hub s) @ [?c]\<rparr>\<rparr>"
    using assms(3-5) by (simp add: connect_def)
  have p: "the_client ?s ?p = ?c" "at_stage ?s ?p Connecting"
    by (simp_all add: con the_client_def client_at_def at_stage_def)
  have doc: "GetDoc (srv_sessions ?s) code =
      (case last_update code (run_commands port es NewServer) of Some u \<Rightarrow> u | None \<Rightarrow> [])"
  proof -
    have n: "srv_sessions NewServer = NewCollabServer" "GetDoc NewCollabServer code = []"
      by (simp_all add: NewServer_def GetDoc_def NewCollabServer_def)
    have "GetDoc (srv_sessions ?s) code = GetDoc (run_log (run_commands port es NewServer) NewCollabServer) code"
      using run_executes [OF assms(2)] by (simp add: con n(1))
    then show ?thesis unfolding run_log_doc n(2) .
  qed
  obtain s1 where s1: "begin_serving ?p ?s = Some s1" using begin_serving_ok [OF connect_ok [OF ok] p(2)] by blast
  let ?doc = "GetDoc (srv_sessions ?s) code"
  let ?h2 = "if 0 < length ?doc then WriteMessage (BinaryMsg ?doc) ?p (Register ?p (srv_hub ?s)) else Register ?p (srv_hub ?s)"
  let ?h3 = "update_client ?p (\<lambda>c. c\<lparr>cl_stage := Serving, cl_pump := True\<rparr>) ?h2"
  have len: "?p < length (hub_heap ?h3)" by (simp add: con WriteMessage_def Register_def)
  have len0: "?p < length (hub_heap (srv_hub ?s))" by (simp add: con)
  have conn: "cl_Conn (client_at ?h3 ?p) = (if ?doc = [] then [] else [BinaryMsg ?doc])"
    using p(1) len len0 by (auto simp: client_at_update WriteMessage_def Register_def the_client_def)
  have ok3: "hub_ok ?h3"
  proof -
    have "hub_ok (Register ?p (srv_hub ?s))"
      using connect_ok [OF ok, of user code] p by (intro hub_ok_Register) (simp_all add: server_ok_def the_client_def at_stage_def)
    then have "hub_ok ?h2" using hub_ok_like hub_like_WriteMessage by simp
    then show ?thesis by (rule hub_ok_update) simp_all
  qed
  have "broadcastParticipants code (?s\<lparr>srv_hub := ?h3\<rparr>) = Some s1"
    using s1 unfolding begin_serving_def Let_def p(1) hub_client.select_convs .
  from broadcastParticipants_conn [OF _ _ this, of ?p] ok3 len
  have "cl_Conn (the_client s1 ?p) = cl_Conn (client_at ?h3 ?p)"
    by (simp only: the_client_def server.select_convs server.update_convs simp_thms) (simp add: the_client_def)
  then have "cl_Conn (the_client s1 ?p) = (case last_update code (run_commands port es NewServer) of
         Some (x # xs) \<Rightarrow> [BinaryMsg (x # xs)] | _ \<Rightarrow> [])"
    using conn doc by (auto split: option.splits list.splits)
  then show ?thesis using s1 p(2) by auto
qed


lemma joiner_gets_last_update_witness:
  "\<exists>s s1. server_run 0 [Create SingleNode (Some (js ''ann'')) [0, 0, 0, 0, 0, 0, 0],
        Connect (js ''ann'') (js ''AAA-0000''), Begin 0,
        Receive SingleNode 0 (GotBinary [1]), Receive SingleNode 0 (GotBinary [2])] NewServer = Some s \<and>
     server_run 0 [Connect (js ''eve'') (js ''AAA-0000''), Begin 1] s = Some s1 \<and>
     cl_Conn (the_client s1 1) = [BinaryMsg [2]]"
proof -
  let ?es = "[Create SingleNode (Some (js ''ann'')) [0, 0, 0, 0, 0, 0, 0], Connect (js ''ann'') (js ''AAA-0000''), Begin 0,
        Receive SingleNode 0 (GotBinary [1]), Receive SingleNode 0 (GotBinary [2])]"
  have l: "list_all entries_ok ?es" by (simp add: entries_ok_def)
  obtain s where s: "server_run 0 ?es NewServer = Some s" using server_run_ok [OF server_ok_new l] by blast
  have e: "map_option (\<lambda>s. (length (hub_heap (srv_hub s)), SessionExists (srv_sessions s) (js ''AAA-0000'')))
      (server_run 0 ?es NewServer) = Some (1, True)"
    by code_simp
  have c: "last_update (js ''AAA-0000'') (run_commands 0 ?es NewServer) = Some [2]" by code_simp
  from joiner_gets_last_update [OF l s, of "js ''eve''" "js ''AAA-0000''"] e s c show ?thesis by auto
qed

end
