(* ===== verification/Rsm.thy ===== *)
theory Rsm
  imports ServerState
begin

text \<open>
  The replicated state machine (\<open>src/rsm/rsm.go\<close>): commands go into the log of Raft, come back when they
  are committed, are executed in the order of the log, and wake the call that submitted them. The
  state machine is the interface the code has: what executes a command, takes a snapshot and restores
  one. What Raft answers to \<open>Start\<close>, \<open>GetState\<close> and \<open>PersistBytes\<close> and what it delivers are arguments
  of the steps.

  A step is what a goroutine does between two places where another one can come in: a section under
  the lock \<open>mu\<close>, a call of \<open>Start\<close>, a receive. The result \<open>None\<close> is a step that cannot be taken (now):
  a send on a full channel, or on none, blocks with the lock held.
\<close>

section \<open>State\<close>

record 'r op =
  op_Req :: 'r
  op_Id :: "64 word"

datatype 'r apply_msg = CommandMsg "'r op option" nat | SnapshotMsg "byte list" nat | NoMsg

record ('s, 'r, 'v) state_machine =
  sm_DoOp :: "'r \<Rightarrow> 's \<Rightarrow> 's \<times> 'v"
  sm_Snapshot :: "'s \<Rightarrow> byte list"
  sm_Restore :: "byte list \<Rightarrow> 's \<Rightarrow> 's"

datatype rpc_err = ErrOK | ErrWrongLeader

type_synonym 'v op_result = "rpc_err \<times> 'v option"

text \<open>A call of \<open>Submit\<close>: it has its number, has been taken by Raft, waits on its channel, has received
  a result, or has returned one. \<open>su_buffer\<close> is its channel, which holds one result.\<close>

datatype 'v submit_stage = Numbered | Started | Waiting | Woken "'v op_result" | Returned "'v op_result"

record ('r, 'v) submitter =
  su_req :: 'r
  su_id :: "64 word"
  su_index :: nat
  su_term :: nat
  su_stage :: "'v submit_stage"
  su_buffer :: "'v op_result option"

text \<open>\<open>rsm_chan\<close> has the channels by index, a channel being that of a call; \<open>rsm_snapshots\<close> is what was
  passed to \<open>rf.Snapshot\<close>.\<close>

record ('s, 'r, 'v) rsm =
  rsm_me :: nat
  rsm_maxraftstate :: int
  rsm_sm :: 's
  rsm_nextId :: "64 word"
  rsm_calls :: "('r, 'v) submitter list"
  rsm_chan :: "nat \<Rightarrow> nat option"
  rsm_chanIds :: "nat \<Rightarrow> 64 word option"
  rsm_chanTerms :: "nat \<Rightarrow> nat option"
  rsm_snapshots :: "(nat \<times> byte list) list"

definition MakeRSM :: "('s, 'r, 'v) state_machine \<Rightarrow> nat \<Rightarrow> int \<Rightarrow> byte list \<Rightarrow> 's \<Rightarrow> ('s, 'r, 'v) rsm" where
  "MakeRSM sm me maxraftstate snapshot s0 =
     \<lparr>rsm_me = me, rsm_maxraftstate = maxraftstate,
      rsm_sm = (if 0 < length snapshot then sm_Restore sm snapshot s0 else s0),
      rsm_nextId = 0, rsm_calls = [], rsm_chan = (\<lambda>i. None), rsm_chanIds = (\<lambda>i. None),
      rsm_chanTerms = (\<lambda>i. None), rsm_snapshots = []\<rparr>"

section \<open>Submit\<close>

definition op_number :: "nat \<Rightarrow> 64 word \<Rightarrow> 64 word" where
  "op_number me n = or (push_bit 32 (of_nat me)) n"

definition call_at :: "('s, 'r, 'v) rsm \<Rightarrow> nat \<Rightarrow> ('r, 'v) submitter" where
  "call_at s k = rsm_calls s ! k"

definition update_call :: "nat \<Rightarrow> (('r, 'v) submitter \<Rightarrow> ('r, 'v) submitter) \<Rightarrow> ('s, 'r, 'v) rsm \<Rightarrow> ('s, 'r, 'v) rsm" where
  "update_call k f s = s\<lparr>rsm_calls := (rsm_calls s)[k := f (call_at s k)]\<rparr>"

definition at_stage_of :: "('s, 'r, 'v) rsm \<Rightarrow> nat \<Rightarrow> 'v submit_stage \<Rightarrow> bool" where
  "at_stage_of s k st = (k < length (rsm_calls s) \<and> su_stage (call_at s k) = st)"

definition submit_begin :: "'r \<Rightarrow> ('s, 'r, 'v) rsm \<Rightarrow> ('s, 'r, 'v) rsm" where
  "submit_begin req s =
     (let n = rsm_nextId s + 1 in
      s\<lparr>rsm_nextId := n, rsm_calls := rsm_calls s @
         [\<lparr>su_req = req, su_id = op_number (rsm_me s) n, su_index = 0, su_term = 0, su_stage = Numbered, su_buffer = None\<rparr>]\<rparr>)"

definition submit_start :: "nat \<Rightarrow> nat \<Rightarrow> nat \<Rightarrow> bool \<Rightarrow> ('s, 'r, 'v) rsm \<Rightarrow> ('s, 'r, 'v) rsm" where
  "submit_start k index term isLeader s =
     (if \<not> isLeader then update_call k (\<lambda>c. c\<lparr>su_stage := Returned (ErrWrongLeader, None)\<rparr>) s
      else update_call k (\<lambda>c. c\<lparr>su_index := index, su_term := term, su_stage := Started\<rparr>) s)"

definition submit_register :: "nat \<Rightarrow> ('s, 'r, 'v) rsm \<Rightarrow> ('s, 'r, 'v) rsm" where
  "submit_register k s =
     (let c = call_at s k; s1 = update_call k (\<lambda>c. c\<lparr>su_stage := Waiting\<rparr>) s in
      s1\<lparr>rsm_chan := (rsm_chan s)(su_index c \<mapsto> k), rsm_chanIds := (rsm_chanIds s)(su_index c \<mapsto> su_id c),
         rsm_chanTerms := (rsm_chanTerms s)(su_index c \<mapsto> su_term c)\<rparr>)"

definition forget :: "nat \<Rightarrow> ('s, 'r, 'v) rsm \<Rightarrow> ('s, 'r, 'v) rsm" where
  "forget idx s = s\<lparr>rsm_chan := (rsm_chan s)(idx := None), rsm_chanIds := (rsm_chanIds s)(idx := None),
     rsm_chanTerms := (rsm_chanTerms s)(idx := None)\<rparr>"

definition submit_receive :: "nat \<Rightarrow> ('s, 'r, 'v) rsm \<Rightarrow> ('s, 'r, 'v) rsm option" where
  "submit_receive k s = (case su_buffer (call_at s k) of
     None \<Rightarrow> None
   | Some r \<Rightarrow> Some (update_call k (\<lambda>c. c\<lparr>su_buffer := None, su_stage := Woken r\<rparr>) s))"

definition submit_finish :: "nat \<Rightarrow> 'v op_result \<Rightarrow> ('s, 'r, 'v) rsm \<Rightarrow> ('s, 'r, 'v) rsm" where
  "submit_finish k r s = forget (su_index (call_at s k)) (update_call k (\<lambda>c. c\<lparr>su_stage := Returned r\<rparr>) s)"

section \<open>The reader and the leader check\<close>

definition send_result :: "nat \<Rightarrow> 'v op_result \<Rightarrow> ('s, 'r, 'v) rsm \<Rightarrow> ('s, 'r, 'v) rsm option" where
  "send_result idx r s = (case rsm_chan s idx of
     None \<Rightarrow> None
   | Some k \<Rightarrow> if su_buffer (call_at s k) = None then Some (update_call k (\<lambda>c. c\<lparr>su_buffer := Some r\<rparr>) s) else None)"

text \<open>\<open>order\<close> is the order in which a loop goes over the map.\<close>

fun wake_all :: "nat list \<Rightarrow> ('s, 'r, 'v) rsm \<Rightarrow> ('s, 'r, 'v) rsm option" where
  "wake_all [] s = Some s"
| "wake_all (idx # order) s =
     (if rsm_chan s idx = None then wake_all order s
      else Option.bind (send_result idx (ErrWrongLeader, None) s) (\<lambda>s1. wake_all order (forget idx s1)))"

fun wake_closed :: "nat list \<Rightarrow> ('s, 'r, 'v) rsm \<Rightarrow> ('s, 'r, 'v) rsm option" where
  "wake_closed [] s = Some s"
| "wake_closed (idx # order) s =
     (if rsm_chan s idx = None then wake_closed order s
      else Option.bind (send_result idx (ErrWrongLeader, None) s) (wake_closed order))"

fun leaderCheck :: "nat \<Rightarrow> nat list \<Rightarrow> ('s, 'r, 'v) rsm \<Rightarrow> ('s, 'r, 'v) rsm option" where
  "leaderCheck currTerm [] s = Some s"
| "leaderCheck currTerm (idx # order) s = (case rsm_chanTerms s idx of
     None \<Rightarrow> leaderCheck currTerm order s
   | Some chanTerm \<Rightarrow>
       if chanTerm < currTerm then Option.bind (send_result idx (ErrWrongLeader, None) s) (leaderCheck currTerm order)
       else leaderCheck currTerm order s)"

definition execute :: "('s, 'r, 'v) state_machine \<Rightarrow> int \<Rightarrow> 'r op \<Rightarrow> nat \<Rightarrow> ('s, 'r, 'v) rsm \<Rightarrow> 'v \<times> ('s, 'r, 'v) rsm" where
  "execute sm bytes op idx s =
     (let (st, result) = sm_DoOp sm (op_Req op) (rsm_sm s); s1 = s\<lparr>rsm_sm := st\<rparr> in
      (result, if rsm_maxraftstate s \<noteq> -1 \<and> rsm_maxraftstate s \<le> bytes
               then s1\<lparr>rsm_snapshots := rsm_snapshots s @ [(idx, sm_Snapshot sm st)]\<rparr> else s1))"

definition reader_step :: "('s, 'r, 'v) state_machine \<Rightarrow> nat list \<Rightarrow> int \<Rightarrow> 'r apply_msg \<Rightarrow> ('s, 'r, 'v) rsm \<Rightarrow> ('s, 'r, 'v) rsm option" where
  "reader_step sm order bytes msg s = (case msg of
     SnapshotMsg data i \<Rightarrow> wake_all order (s\<lparr>rsm_sm := sm_Restore sm data (rsm_sm s)\<rparr>)
   | NoMsg \<Rightarrow> Some s
   | CommandMsg None idx \<Rightarrow> Some s
   | CommandMsg (Some op) idx \<Rightarrow>
       let (result, s1) = execute sm bytes op idx s in
       if rsm_chan s1 idx = None then Some s1
       else if op_Id op \<noteq> (case rsm_chanIds s1 idx of Some i \<Rightarrow> i | None \<Rightarrow> 0)
       then send_result idx (ErrWrongLeader, None) s1
       else send_result idx (ErrOK, Some result) s1)"

section \<open>Steps\<close>

datatype 'r rsm_event =
    SubmitBegin 'r
  | SubmitStart nat nat nat bool
  | SubmitRegister nat
  | SubmitReceive nat
  | SubmitFinish nat
  | Deliver "nat list" int "'r apply_msg"
  | ApplyClosed "nat list"
  | LeaderCheck nat "nat list"

fun rsm_step :: "('s, 'r, 'v) state_machine \<Rightarrow> 'r rsm_event \<Rightarrow> ('s, 'r, 'v) rsm \<Rightarrow> ('s, 'r, 'v) rsm option" where
  "rsm_step sm (SubmitBegin req) s = Some (submit_begin req s)"
| "rsm_step sm (SubmitStart k index term isLeader) s =
     (if at_stage_of s k Numbered then Some (submit_start k index term isLeader s) else None)"
| "rsm_step sm (SubmitRegister k) s = (if at_stage_of s k Started then Some (submit_register k s) else None)"
| "rsm_step sm (SubmitReceive k) s = (if at_stage_of s k Waiting then submit_receive k s else None)"
| "rsm_step sm (SubmitFinish k) s = (if k < length (rsm_calls s)
     then (case su_stage (call_at s k) of Woken r \<Rightarrow> Some (submit_finish k r s) | _ \<Rightarrow> None) else None)"
| "rsm_step sm (Deliver order bytes msg) s = reader_step sm order bytes msg s"
| "rsm_step sm (ApplyClosed order) s = wake_closed order s"
| "rsm_step sm (LeaderCheck currTerm order) s = leaderCheck currTerm order s"

fun rsm_run :: "('s, 'r, 'v) state_machine \<Rightarrow> 'r rsm_event list \<Rightarrow> ('s, 'r, 'v) rsm \<Rightarrow> ('s, 'r, 'v) rsm option" where
  "rsm_run sm [] s = Some s"
| "rsm_run sm (e # es) s = Option.bind (rsm_step sm e s) (rsm_run sm es)"

text \<open>The server is such a state machine (\<open>StateMachine\<close> of \<open>server.go\<close>); \<open>DoOp\<close> returns \<open>nil\<close>.\<close>

definition collab_machine :: "(sessions \<Rightarrow> byte list) \<Rightarrow> (byte list \<Rightarrow> sessions option) \<Rightarrow>
    (sessions, command, unit) state_machine" where
  "collab_machine enc dec =
     \<lparr>sm_DoOp = (\<lambda>cmd cs. (DoOp cmd cs, ())), sm_Snapshot = SnapshotState enc, sm_Restore = RestoreState dec\<rparr>"

end
