(* ===== verification/RsmSpec.thy ===== *)
theory RsmSpec
  imports Rsm
begin

text \<open>
  What the replicated state machine promises: nodes that are at the same place of the log have the same
  state, also when they got there by snapshots; a call of \<open>Submit\<close> that ends well has had its own
  command executed at its place. And what it does not: a command that is executed before the call has
  put down its channel leaves the call waiting.
\<close>

section \<open>What the steps leave alone\<close>

lemma update_call_simps [simp]:
  "rsm_sm (update_call k f s) = rsm_sm s" "rsm_snapshots (update_call k f s) = rsm_snapshots s"
  "rsm_me (update_call k f s) = rsm_me s" "rsm_nextId (update_call k f s) = rsm_nextId s"
  "rsm_chan (update_call k f s) = rsm_chan s" "rsm_chanIds (update_call k f s) = rsm_chanIds s"
  "rsm_chanTerms (update_call k f s) = rsm_chanTerms s" "length (rsm_calls (update_call k f s)) = length (rsm_calls s)"
  "j < length (rsm_calls s) \<Longrightarrow> call_at (update_call k f s) j = (if j = k then f (call_at s k) else call_at s j)"
  by (simp_all add: update_call_def call_at_def nth_list_update)

lemma forget_simps [simp]:
  "rsm_sm (forget i s) = rsm_sm s" "rsm_snapshots (forget i s) = rsm_snapshots s" "rsm_me (forget i s) = rsm_me s"
  "rsm_nextId (forget i s) = rsm_nextId s" "rsm_calls (forget i s) = rsm_calls s" "call_at (forget i s) k = call_at s k"
  "rsm_chan (forget i s) = (rsm_chan s)(i := None)" "rsm_chanIds (forget i s) = (rsm_chanIds s)(i := None)"
  "rsm_chanTerms (forget i s) = (rsm_chanTerms s)(i := None)"
  by (simp_all add: forget_def call_at_def)

lemma register_simps:
  "call_at (submit_register k s) = call_at (update_call k (\<lambda>c. c\<lparr>su_stage := Waiting\<rparr>) s)"
  "rsm_calls (submit_register k s) = rsm_calls (update_call k (\<lambda>c. c\<lparr>su_stage := Waiting\<rparr>) s)"
  "rsm_me (submit_register k s) = rsm_me s" "rsm_nextId (submit_register k s) = rsm_nextId s"
  "rsm_chan (submit_register k s) = (rsm_chan s)(su_index (call_at s k) \<mapsto> k)"
  "rsm_chanIds (submit_register k s) = (rsm_chanIds s)(su_index (call_at s k) \<mapsto> su_id (call_at s k))"
  "rsm_chanTerms (submit_register k s) = (rsm_chanTerms s)(su_index (call_at s k) \<mapsto> su_term (call_at s k))"
  by (auto simp: submit_register_def Let_def call_at_def [abs_def])

definition same_machine :: "('s, 'r, 'v) rsm \<Rightarrow> ('s, 'r, 'v) rsm \<Rightarrow> bool" where
  "same_machine s s' \<longleftrightarrow> rsm_sm s' = rsm_sm s \<and> rsm_snapshots s' = rsm_snapshots s \<and> rsm_me s' = rsm_me s"

lemma same_machine_trans: "same_machine s s1 \<Longrightarrow> same_machine s1 s2 \<Longrightarrow> same_machine s s2"
  by (simp add: same_machine_def)

lemma send_result_same: "send_result i r s = Some s' \<Longrightarrow> same_machine s s'"
  by (auto simp: send_result_def same_machine_def split: option.splits if_splits)

lemma wake_all_same: "wake_all order s = Some s' \<Longrightarrow> same_machine s s'"
proof (induction order arbitrary: s)
  case (Cons i order)
  show ?case
  proof (cases "rsm_chan s i = None")
    case False
    then obtain s1 where s1: "send_result i (ErrWrongLeader, None) s = Some s1" "wake_all order (forget i s1) = Some s'"
      using Cons.prems by (auto simp: bind_eq_Some_conv)
    have "same_machine s (forget i s1)" using send_result_same [OF s1(1)] by (simp add: same_machine_def)
    then show ?thesis using Cons.IH [OF s1(2)] same_machine_trans by blast
  qed (use Cons in auto)
qed (simp add: same_machine_def)

lemma wake_closed_same: "wake_closed order s = Some s' \<Longrightarrow> same_machine s s'"
  by (induction order arbitrary: s)
    (auto simp: same_machine_def bind_eq_Some_conv split: if_splits dest!: send_result_same)

lemma leaderCheck_same: "leaderCheck term order s = Some s' \<Longrightarrow> same_machine s s'"
  by (induction order arbitrary: s)
    (auto simp: same_machine_def bind_eq_Some_conv split: if_splits option.splits dest!: send_result_same)

section \<open>Replicas agree\<close>

fun deliveries :: "'r rsm_event list \<Rightarrow> 'r apply_msg list" where
  "deliveries [] = []"
| "deliveries (Deliver order bytes msg # es) = msg # deliveries es"
| "deliveries (e # es) = deliveries es"

lemma step_same:
  assumes "rsm_step sm e s = Some s'" "deliveries [e] = []"
  shows "same_machine s s'"
  using assms
  by (cases e) (auto simp: submit_begin_def submit_start_def submit_register_def submit_receive_def submit_finish_def
      same_machine_def Let_def split: if_splits option.splits submit_stage.splits dest!: wake_closed_same leaderCheck_same)

text \<open>The state after the first \<open>i\<close> entries of the log \<open>L\<close>.\<close>

definition state_at :: "('s, 'r, 'v) state_machine \<Rightarrow> 'r op option list \<Rightarrow> 's \<Rightarrow> nat \<Rightarrow> 's" where
  "state_at sm L s0 i = fold (\<lambda>c s. case c of Some op \<Rightarrow> fst (sm_DoOp sm (op_Req op) s) | None \<Rightarrow> s) (take i L) s0"

text \<open>Where in the log the messages lead: a command is the next entry, a snapshot one of some prefix. The
  first entry has the index 1.\<close>

fun log_position :: "('s, 'r, 'v) state_machine \<Rightarrow> 'r op option list \<Rightarrow> 's \<Rightarrow> nat \<Rightarrow> 'r apply_msg list \<Rightarrow> nat option" where
  "log_position sm L s0 n [] = Some n"
| "log_position sm L s0 n (CommandMsg c i # ms) =
     (if i = n + 1 \<and> n < length L \<and> L ! n = c then log_position sm L s0 (n + 1) ms else None)"
| "log_position sm L s0 n (SnapshotMsg data i # ms) =
     (if i \<le> length L \<and> data = sm_Snapshot sm (state_at sm L s0 i) then log_position sm L s0 i ms else None)"
| "log_position sm L s0 n (NoMsg # ms) = log_position sm L s0 n ms"

text \<open>The contract of a state machine: a snapshot restores the state it was taken of.\<close>

locale restorable =
  fixes sm :: "('s, 'r, 'v) state_machine" and good :: "'s \<Rightarrow> bool"
  assumes restore: "good s \<Longrightarrow> sm_Restore sm (sm_Snapshot sm s) s1 = s"
begin

definition at_position :: "'r op option list \<Rightarrow> 's \<Rightarrow> nat \<Rightarrow> ('s, 'r, 'v) rsm \<Rightarrow> bool" where
  "at_position L s0 n s \<longleftrightarrow> n \<le> length L \<and> rsm_sm s = state_at sm L s0 n \<and>
     (\<forall>(i, data) \<in> set (rsm_snapshots s). data = sm_Snapshot sm (state_at sm L s0 i))"

lemma at_position_same: "same_machine s s' \<Longrightarrow> at_position L s0 n s \<Longrightarrow> at_position L s0 n s'"
  by (simp add: same_machine_def at_position_def)

lemma state_at_Suc:
  "n < length L \<Longrightarrow> state_at sm L s0 (Suc n) =
    (case L ! n of Some op \<Rightarrow> fst (sm_DoOp sm (op_Req op) (state_at sm L s0 n)) | None \<Rightarrow> state_at sm L s0 n)"
  by (simp add: state_at_def take_Suc_conv_app_nth split: option.split)

lemma execute_position:
  assumes "at_position L s0 n s" "n < length L" "L ! n = Some op" "execute sm bytes op (n + 1) s = (result, s1)"
  shows "at_position L s0 (n + 1) s1"
  using assms state_at_Suc [OF assms(2), of s0]
  by (auto simp: execute_def at_position_def Let_def split: prod.splits if_splits)

lemma reader_position:
  assumes "at_position L s0 n s" "\<forall>i \<le> length L. good (state_at sm L s0 i)"
    and "reader_step sm order bytes msg s = Some s'" "log_position sm L s0 n (msg # ms) = Some m"
  shows "\<exists>n'. at_position L s0 n' s' \<and> log_position sm L s0 n' ms = Some m"
proof (cases msg)
  case (SnapshotMsg data i)
  then have i: "i \<le> length L" "data = sm_Snapshot sm (state_at sm L s0 i)" "log_position sm L s0 i ms = Some m"
    using assms(4) by (auto split: if_splits)
  have "at_position L s0 i (s\<lparr>rsm_sm := sm_Restore sm data (rsm_sm s)\<rparr>)"
    using assms(1,2) i(1,2) restore by (simp add: at_position_def)
  moreover have "wake_all order (s\<lparr>rsm_sm := sm_Restore sm data (rsm_sm s)\<rparr>) = Some s'"
    using assms(3) SnapshotMsg by (simp add: reader_step_def)
  ultimately show ?thesis using wake_all_same at_position_same i(3) by blast
next
  case (CommandMsg c i)
  then have i: "i = n + 1" "n < length L" "L ! n = c" "log_position sm L s0 (n + 1) ms = Some m"
    using assms(4) by (auto split: if_splits)
  show ?thesis
  proof (cases c)
    case None
    then have "at_position L s0 (n + 1) s'"
      using assms(1,3) CommandMsg i state_at_Suc [OF i(2), of s0] by (simp add: reader_step_def at_position_def)
    then show ?thesis using i(4) by blast
  next
    case (Some op)
    obtain result s1 where x: "execute sm bytes op i s = (result, s1)" by fastforce
    have "at_position L s0 (n + 1) s1" using execute_position [OF assms(1) i(2)] i(1,3) Some x by simp
    moreover have "same_machine s1 s'"
      using assms(3) CommandMsg Some x
      by (auto simp: reader_step_def same_machine_def split: if_splits option.splits dest!: send_result_same)
    ultimately show ?thesis using at_position_same i(4) by blast
  qed
qed (use assms in \<open>auto simp: reader_step_def\<close>)

lemma run_position:
  assumes "\<forall>i \<le> length L. good (state_at sm L s0 i)"
  shows "at_position L s0 n s \<Longrightarrow> rsm_run sm es s = Some s' \<Longrightarrow> log_position sm L s0 n (deliveries es) = Some m \<Longrightarrow>
    at_position L s0 m s'"
proof (induction es arbitrary: n s)
  case (Cons e es)
  obtain s1 where s1: "rsm_step sm e s = Some s1" "rsm_run sm es s1 = Some s'"
    using Cons.prems(2) by (auto simp: bind_eq_Some_conv)
  show ?case
  proof (cases "deliveries [e] = []")
    case True
    then have "deliveries (e # es) = deliveries es" by (cases e) auto
    then show ?thesis using Cons.IH [OF at_position_same [OF step_same [OF s1(1) True] Cons.prems(1)] s1(2)] Cons.prems(3) by simp
  next
    case False
    then obtain order bytes msg where e: "e = Deliver order bytes msg" by (cases e) auto
    obtain n' where "at_position L s0 n' s1" "log_position sm L s0 n' (deliveries es) = Some m"
      using reader_position [OF Cons.prems(1) assms, of order bytes msg s1 "deliveries es" m] s1(1) Cons.prems(3) e by auto
    then show ?thesis using Cons.IH s1(2) by blast
  qed
qed simp

end

interpretation collab: restorable "collab_machine enc dec" "\<lambda>cs. dec (enc cs) = Some cs" for enc dec
  by unfold_locales (simp add: collab_machine_def SnapshotState_def RestoreState_def)

lemma collab_simps [simp]:
  "sm_DoOp (collab_machine enc dec) cmd cs = (DoOp cmd cs, ())" "sm_Snapshot (collab_machine enc dec) cs = enc cs"
  by (simp_all add: collab_machine_def SnapshotState_def)

text \<open>The log of the server's commands, and what it makes of the sessions.\<close>

definition sessions_at :: "command op option list \<Rightarrow> nat \<Rightarrow> sessions" where
  "sessions_at L i = run_log (map op_Req (List.map_filter id (take i L))) NewCollabServer"

lemma state_at_collab: "state_at (collab_machine enc dec) L NewCollabServer i = sessions_at L i"
proof -
  have "fold (\<lambda>c s. case c of Some op \<Rightarrow> fst (sm_DoOp (collab_machine enc dec) (op_Req op) s) | None \<Rightarrow> s) xs s =
      run_log (map op_Req (List.map_filter id xs)) s" for xs s
    by (induction xs arbitrary: s) (auto simp: collab_machine_def List.map_filter_def split: option.split)
  then show ?thesis by (simp add: state_at_def sessions_at_def)
qed

text \<open>
  C21. replicas agree. A node that starts from nothing, whatever calls of \<open>Submit\<close> it has meanwhile, and
  to which the log is delivered, entry by entry or by snapshots of it, has at every point exactly the
  sessions that the entries so far make of the empty server; so nodes that are at the same place have
  the same sessions. And every snapshot it hands to Raft for an index is one of the sessions there.
\<close>

theorem replica_follows_log:
  assumes "rsm_run (collab_machine enc dec) es (MakeRSM (collab_machine enc dec) me limit [] NewCollabServer) = Some s"
    and "log_position (collab_machine enc dec) L NewCollabServer 0 (deliveries es) = Some m"
    and "\<forall>i \<le> length L. dec (enc (sessions_at L i)) = Some (sessions_at L i)"
  shows "rsm_sm s = sessions_at L m \<and> (\<forall>(i, data) \<in> set (rsm_snapshots s). data = enc (sessions_at L i))"
proof -
  let ?sm = "collab_machine enc dec"
  have "collab.at_position enc dec L NewCollabServer 0 (MakeRSM ?sm me limit [] NewCollabServer)"
    by (simp add: collab.at_position_def MakeRSM_def state_at_def)
  from collab.run_position [OF _ this assms(1,2)] assms(3)
  have "collab.at_position enc dec L NewCollabServer m s" by (simp add: state_at_collab)
  then show ?thesis
    by (simp add: collab.at_position_def state_at_collab)
qed

text \<open>A log of one entry, and a code for the two states it goes through.\<close>

definition one_op :: "command op" where
  "one_op = \<lparr>op_Req = SessionCmd (js ''create'') (js ''A'') (js ''ann'') (js ''editor''), op_Id = 1\<rparr>"

definition tiny_enc :: "sessions \<Rightarrow> byte list" where
  "tiny_enc cs = (if cs (js ''A'') = None then [0] else [1])"

definition tiny_dec :: "byte list \<Rightarrow> sessions option" where
  "tiny_dec data = Some (if data = [0] then NewCollabServer else DoOp (op_Req one_op) NewCollabServer)"

lemma one_op_states: "sessions_at [Some one_op] 0 = NewCollabServer" "sessions_at [Some one_op] (Suc 0) = DoOp (op_Req one_op) NewCollabServer"
  by (simp_all add: sessions_at_def List.map_filter_def run_log_def)

lemma tiny_codec: "\<forall>i \<le> length [Some one_op]. tiny_dec (tiny_enc (sessions_at [Some one_op] i)) = Some (sessions_at [Some one_op] i)"
proof -
  have "tiny_enc NewCollabServer = [0]" "tiny_enc (DoOp (op_Req one_op) NewCollabServer) = [1]"
    by (simp_all add: tiny_enc_def NewCollabServer_def one_op_def)
  then have "tiny_dec (tiny_enc (sessions_at [Some one_op] i)) = Some (sessions_at [Some one_op] i)" if "i = 0 \<or> i = Suc 0" for i
    using that by (auto simp: one_op_states tiny_dec_def)
  then show ?thesis by (simp add: le_Suc_eq)
qed

lemma replica_follows_log_witness:
  "\<exists>s s'. rsm_run (collab_machine tiny_enc tiny_dec) [Deliver [] 9 (CommandMsg (Some one_op) 1)]
       (MakeRSM (collab_machine tiny_enc tiny_dec) 0 5 [] NewCollabServer) = Some s \<and>
     rsm_snapshots s = [(1, [1])] \<and>
     rsm_run (collab_machine tiny_enc tiny_dec) [Deliver [] 9 (SnapshotMsg [1] 1)]
       (MakeRSM (collab_machine tiny_enc tiny_dec) 1 5 [] NewCollabServer) = Some s' \<and> rsm_sm s = rsm_sm s'"
proof -
  let ?sm = "collab_machine tiny_enc tiny_dec" and ?L = "[Some one_op]"
  have d: "sm_Snapshot ?sm (state_at ?sm ?L NewCollabServer 1) = [1]"
    unfolding state_at_collab by (simp add: one_op_states) (simp add: tiny_enc_def one_op_def)
  obtain s where s: "rsm_run ?sm [Deliver [] 9 (CommandMsg (Some one_op) 1)] (MakeRSM ?sm 0 5 [] NewCollabServer) = Some s"
    "map fst (rsm_snapshots s) = [1]"
    by (simp add: reader_step_def execute_def MakeRSM_def Let_def collab_simps)
  obtain s' where s': "rsm_run ?sm [Deliver [] 9 (SnapshotMsg [1] 1)] (MakeRSM ?sm 1 5 [] NewCollabServer) = Some s'"
    by (simp add: reader_step_def)
  have p: "log_position ?sm ?L NewCollabServer 0 (deliveries [Deliver [] 9 (CommandMsg (Some one_op) 1)]) = Some 1"
    "log_position ?sm ?L NewCollabServer 0 (deliveries [Deliver [] 9 (SnapshotMsg [1] 1)]) = Some 1"
    using d by simp_all
  note r = replica_follows_log [OF s(1) p(1) tiny_codec] and r' = replica_follows_log [OF s' p(2) tiny_codec]
  have "tiny_enc (sessions_at ?L 1) = [1]" using d by (simp add: state_at_collab)
  then have "rsm_snapshots s = [(1, [1])]" using r s(2) by (cases "rsm_snapshots s") auto
  then show ?thesis using s(1) s' r r' by (intro exI [of _ s] exI [of _ s'] conjI) simp_all
qed

section \<open>Who is answered\<close>

lemma op_number_unat:
  assumes "me < 2 ^ 32" "n < 2 ^ 32"
  shows "unat (op_number me (of_nat n)) = me * 2 ^ 32 + n"
proof -
  have "\<not> bit n i" if "32 \<le> i" for i
  proof -
    have "n < 2 ^ i" using assms(2) power_increasing [OF that, of "2 :: nat"] by simp
    then show ?thesis by (simp add: bit_iff_odd)
  qed
  then have z: "and (push_bit 32 (of_nat me)) (of_nat n :: 64 word) = 0"
    by (intro bit_eqI) (auto simp: bit_simps)
  have "op_number me (of_nat n) = push_bit 32 (of_nat me) + of_nat n"
    unfolding op_number_def by (rule disjunctive_add_eq_or [OF z, symmetric])
  also have "\<dots> = of_nat (me * 2 ^ 32 + n)" by (simp add: push_bit_eq_mult)
  finally have "unat (op_number me (of_nat n)) = (me * 2 ^ 32 + n) mod 2 ^ 64"
    by (simp only: unat_of_nat take_bit_eq_mod) simp
  moreover have "me * 2 ^ 32 + n < 2 ^ 64" using assms by simp
  ultimately show ?thesis by (metis mod_less)
qed

lemma op_number_inj:
  assumes "op_number me (of_nat m) = op_number me' (of_nat n)" "me < 2 ^ 32" "me' < 2 ^ 32" "m < 2 ^ 32" "n < 2 ^ 32"
  shows "me = me' \<and> m = n"
proof -
  have e: "me * 2 ^ 32 + m = me' * 2 ^ 32 + n" using assms op_number_unat by metis
  have "(me * 2 ^ 32 + m) div 2 ^ 32 = me" "(me' * 2 ^ 32 + n) div 2 ^ 32 = me'" using assms(4,5) by simp_all
  then have "me = me'" using e by metis
  then show ?thesis using e by simp
qed

text \<open>
  C40. the numbers that nodes give to commands differ for different calls, on one node or on two, for the
  calls 1 to \<open>2 ^ 32 - 1\<close> of each node that is started once. (The call \<open>2 ^ 32\<close> has a number that
  wraps around, and a node that is started again begins with 1 again.)
\<close>

theorem op_numbers_unique:
  assumes "me < 2 ^ 32" "me' < 2 ^ 32" "m < 2 ^ 32" "n < 2 ^ 32" "(me, m) \<noteq> (me', n)"
  shows "op_number me (of_nat m) \<noteq> op_number me' (of_nat n)"
  using op_number_inj [of me m me' n] assms by auto

lemma op_numbers_unique_witness: "op_number 1 (of_nat 5) \<noteq> op_number 2 (of_nat 5)"
  by (rule op_numbers_unique) simp_all

text \<open>After that they do not.\<close>

lemma op_numbers_collide: "op_number 0 (of_nat (2 ^ 32 + 1)) = op_number 1 (of_nat 1)"
  by (simp add: op_number_def)

text \<open>The calls, the channels and what has been delivered: who has the result \<open>ErrOK\<close>, in his channel or
  further on, has had a command with his number delivered at his index.\<close>

fun executed_ops :: "'r rsm_event list \<Rightarrow> ('r op \<times> nat) list" where
  "executed_ops [] = []"
| "executed_ops (Deliver order bytes (CommandMsg (Some op) i) # es) = (op, i) # executed_ops es"
| "executed_ops (e # es) = executed_ops es"

definition answered_ok :: "('r, 'v) submitter \<Rightarrow> bool" where
  "answered_ok c \<longleftrightarrow> (\<exists>v. su_buffer c = Some (ErrOK, v) \<or> su_stage c = Woken (ErrOK, v) \<or> su_stage c = Returned (ErrOK, v))"

definition call_ok :: "(64 word \<times> nat) set \<Rightarrow> nat \<Rightarrow> nat \<Rightarrow> ('r, 'v) submitter \<Rightarrow> bool" where
  "call_ok D me k c \<longleftrightarrow> su_id c = op_number me (of_nat (Suc k)) \<and> (answered_ok c \<longrightarrow> (su_id c, su_index c) \<in> D) \<and>
     (su_stage c \<in> {Numbered, Started} \<longrightarrow> su_buffer c = None)"

definition chan_ok :: "nat \<Rightarrow> 64 word option \<Rightarrow> ('r, 'v) submitter \<Rightarrow> bool" where
  "chan_ok i key c \<longleftrightarrow> su_index c = i \<and> key = Some (su_id c) \<and> su_stage c \<notin> {Numbered, Started}"

definition rsm_ok :: "(64 word \<times> nat) set \<Rightarrow> ('s, 'r, 'v) rsm \<Rightarrow> bool" where
  "rsm_ok D s \<longleftrightarrow> rsm_nextId s = of_nat (length (rsm_calls s)) \<and>
     (\<forall>k < length (rsm_calls s). call_ok D (rsm_me s) k (call_at s k)) \<and>
     (\<forall>i k. rsm_chan s i = Some k \<longrightarrow> k < length (rsm_calls s) \<and> chan_ok i (rsm_chanIds s i) (call_at s k))"

lemma rsm_ok_mono: "rsm_ok D s \<Longrightarrow> D \<subseteq> D' \<Longrightarrow> rsm_ok D' s"
  unfolding rsm_ok_def call_ok_def by blast

lemma rsm_ok_machine [simp]: "rsm_ok D (s\<lparr>rsm_sm := st, rsm_snapshots := x\<rparr>) = rsm_ok D s" "rsm_ok D (s\<lparr>rsm_sm := st\<rparr>) = rsm_ok D s"
  by (simp_all add: rsm_ok_def call_at_def)

lemma rsm_ok_update:
  assumes "rsm_ok D s" "k < length (rsm_calls s)" "call_ok D (rsm_me s) k (f (call_at s k))"
    and "\<And>i key. chan_ok i key (call_at s k) \<Longrightarrow> chan_ok i key (f (call_at s k))"
  shows "rsm_ok D (update_call k f s)"
  using assms unfolding rsm_ok_def by auto

lemma rsm_ok_forget: "rsm_ok D s \<Longrightarrow> rsm_ok D (forget i s)"
  by (auto simp: rsm_ok_def)

lemma send_result_ok:
  assumes "rsm_ok D s" "send_result i r s = Some s'" "fst r = ErrOK \<longrightarrow> (\<exists>key. rsm_chanIds s i = Some key \<and> (key, i) \<in> D)"
  shows "rsm_ok D s'"
proof -
  obtain k where k: "rsm_chan s i = Some k" "su_buffer (call_at s k) = None"
    "s' = update_call k (\<lambda>c. c\<lparr>su_buffer := Some r\<rparr>) s"
    using assms(2) by (auto simp: send_result_def split: option.splits if_splits)
  have c: "k < length (rsm_calls s)" "chan_ok i (rsm_chanIds s i) (call_at s k)" "call_ok D (rsm_me s) k (call_at s k)"
    using assms(1) k(1) by (auto simp: rsm_ok_def)
  show ?thesis unfolding k(3)
  proof (rule rsm_ok_update [OF assms(1) c(1)])
    show "call_ok D (rsm_me s) k ((call_at s k)\<lparr>su_buffer := Some r\<rparr>)"
      using c(2,3) assms(3) by (cases r) (auto simp: call_ok_def chan_ok_def answered_ok_def)
  qed (auto simp: chan_ok_def)
qed

lemma send_wrong_ok: "rsm_ok D s \<Longrightarrow> send_result i (ErrWrongLeader, v) s = Some s' \<Longrightarrow> rsm_ok D s'"
  using send_result_ok [of D s i "(ErrWrongLeader, v)" s'] by simp

lemma wake_all_ok: "rsm_ok D s \<Longrightarrow> wake_all order s = Some s' \<Longrightarrow> rsm_ok D s'"
proof (induction order arbitrary: s)
  case (Cons i order)
  show ?case
  proof (cases "rsm_chan s i = None")
    case False
    then obtain s1 where s1: "send_result i (ErrWrongLeader, None) s = Some s1" "wake_all order (forget i s1) = Some s'"
      using Cons.prems(2) by (auto simp: bind_eq_Some_conv)
    show ?thesis by (rule Cons.IH [OF rsm_ok_forget [OF send_wrong_ok [OF Cons.prems(1) s1(1)]] s1(2)])
  qed (use Cons in auto)
qed simp

lemma wake_closed_ok: "rsm_ok D s \<Longrightarrow> wake_closed order s = Some s' \<Longrightarrow> rsm_ok D s'"
  by (induction order arbitrary: s) (auto simp: bind_eq_Some_conv split: if_splits dest: send_wrong_ok)

lemma leaderCheck_ok: "rsm_ok D s \<Longrightarrow> leaderCheck term order s = Some s' \<Longrightarrow> rsm_ok D s'"
  by (induction order arbitrary: s) (auto simp: bind_eq_Some_conv split: if_splits option.splits dest: send_wrong_ok)

lemma reader_ok:
  assumes ok: "rsm_ok D s" and r: "reader_step sm order bytes msg s = Some s'"
  shows "rsm_ok (D \<union> (\<lambda>(op, i). (op_Id op, i)) ` set (executed_ops [Deliver order bytes msg])) s'"
proof (cases "\<exists>op i. msg = CommandMsg (Some op) i")
  case True
  then obtain op i where m: "msg = CommandMsg (Some op) i" by blast
  obtain result s1 where x: "execute sm bytes op i s = (result, s1)" by fastforce
  have same: "rsm_chan s1 = rsm_chan s" "rsm_chanIds s1 = rsm_chanIds s"
    and ok1: "rsm_ok D s1" using x ok by (auto simp: execute_def Let_def split: prod.splits if_splits)
  let ?D = "insert (op_Id op, i) D"
  have ok2: "rsm_ok ?D s1" by (rule rsm_ok_mono [OF ok1]) blast
  have "rsm_ok ?D s'"
  proof (cases "rsm_chan s1 i")
    case None
    then show ?thesis using r m x ok2 by (simp add: reader_step_def)
  next
    case (Some k)
    then obtain key where key: "rsm_chanIds s1 i = Some key" using ok2 by (auto simp: rsm_ok_def chan_ok_def)
    show ?thesis
    proof (cases "op_Id op = key")
      case True
      then have "send_result i (ErrOK, Some result) s1 = Some s'" using r m x Some key by (simp add: reader_step_def)
      then show ?thesis by (rule send_result_ok [OF ok2]) (use True key in simp)
    next
      case False
      then have "send_result i (ErrWrongLeader, None) s1 = Some s'" using r m x Some key by (simp add: reader_step_def)
      then show ?thesis by (rule send_wrong_ok [OF ok2])
    qed
  qed
  then show ?thesis using m by simp
next
  case False
  then have "executed_ops [Deliver order bytes msg] = []" by (cases msg) (auto split: option.splits elim: option.exhaust)
  moreover have "rsm_ok D s'"
    using False ok r wake_all_ok [of D "s\<lparr>rsm_sm := st\<rparr>" for st]
    by (cases msg) (auto simp: reader_step_def split: option.splits)
  ultimately show ?thesis by simp
qed

lemma submit_begin_ok:
  assumes "rsm_ok D s"
  shows "rsm_ok D (submit_begin req s)"
proof -
  let ?s = "submit_begin req s"
  have c: "call_at ?s k = (if k = length (rsm_calls s) then \<lparr>su_req = req, su_id = op_number (rsm_me s) (rsm_nextId s + 1),
      su_index = 0, su_term = 0, su_stage = Numbered, su_buffer = None\<rparr> else call_at s k)" if "k \<le> length (rsm_calls s)" for k
    using that by (simp add: submit_begin_def Let_def call_at_def nth_append)
  have l: "length (rsm_calls ?s) = Suc (length (rsm_calls s))" "rsm_me ?s = rsm_me s" "rsm_chan ?s = rsm_chan s"
    "rsm_chanIds ?s = rsm_chanIds s" "rsm_nextId ?s = rsm_nextId s + 1" by (simp_all add: submit_begin_def Let_def)
  have "call_ok D (rsm_me s) k (call_at ?s k)" if "k < Suc (length (rsm_calls s))" for k
  proof (cases "k = length (rsm_calls s)")
    case True
    then show ?thesis using assms c [of k] by (simp add: rsm_ok_def call_ok_def answered_ok_def add.commute)
  next
    case False
    then show ?thesis using assms c [of k] that by (simp add: rsm_ok_def)
  qed
  moreover have "k < Suc (length (rsm_calls s)) \<and> chan_ok i (rsm_chanIds s i) (call_at ?s k)" if "rsm_chan s i = Some k" for i k
  proof -
    have "k < length (rsm_calls s)" "chan_ok i (rsm_chanIds s i) (call_at s k)" using assms that by (auto simp: rsm_ok_def)
    then show ?thesis using c [of k] by simp
  qed
  ultimately show ?thesis using assms unfolding rsm_ok_def [of D ?s] l by (simp add: rsm_ok_def add.commute)
qed

lemma step_ok:
  assumes ok: "rsm_ok D s" and st: "rsm_step sm e s = Some s'"
  shows "rsm_ok (D \<union> (\<lambda>(op, i). (op_Id op, i)) ` set (executed_ops [e])) s'"
proof (cases e)
  case (SubmitBegin req)
  then show ?thesis using st submit_begin_ok [OF ok] by auto
next
  case (SubmitStart k index tm isLeader)
  then have k: "k < length (rsm_calls s)" "su_stage (call_at s k) = Numbered" "s' = submit_start k index tm isLeader s"
    using st by (auto simp: at_stage_of_def split: if_splits)
  have "call_ok D (rsm_me s) k (call_at s k)" using ok k(1) by (simp add: rsm_ok_def)
  then have "rsm_ok D (submit_start k index tm isLeader s)"
    unfolding submit_start_def
    by (auto intro!: rsm_ok_update [OF ok k(1)] simp: k(2) call_ok_def answered_ok_def chan_ok_def)
  then show ?thesis using k(3) SubmitStart by simp
next
  case (SubmitRegister k)
  then have k: "k < length (rsm_calls s)" "su_stage (call_at s k) = Started" "s' = submit_register k s"
    using st by (auto simp: at_stage_of_def split: if_splits)
  let ?s = "update_call k (\<lambda>c. c\<lparr>su_stage := Waiting\<rparr>) s"
  have "call_ok D (rsm_me s) k (call_at s k)" using ok k(1) by (simp add: rsm_ok_def)
  then have ok1: "rsm_ok D ?s"
    by (intro rsm_ok_update [OF ok k(1)]) (auto simp: k(2) call_ok_def answered_ok_def chan_ok_def)
  then have ch: "j < length (rsm_calls s) \<and> chan_ok i (rsm_chanIds s i) (call_at ?s j)" if "rsm_chan s i = Some j" for i j
    using that by (simp only: rsm_ok_def update_call_simps(1-8))
  have "chan_ok (su_index (call_at s k)) (Some (su_id (call_at s k))) (call_at ?s k)"
    using k(1) by (simp add: chan_ok_def)
  then have "rsm_ok D (submit_register k s)"
    using ok1 ch k(1) unfolding rsm_ok_def by (simp add: register_simps del: update_call_simps(9))
  then show ?thesis using k(3) SubmitRegister by simp
next
  case (SubmitReceive k)
  then obtain r where k: "k < length (rsm_calls s)" "su_stage (call_at s k) = Waiting" "su_buffer (call_at s k) = Some r"
    "s' = update_call k (\<lambda>c. c\<lparr>su_buffer := None, su_stage := Woken r\<rparr>) s"
    using st by (auto simp: at_stage_of_def submit_receive_def split: if_splits option.splits)
  have "call_ok D (rsm_me s) k (call_at s k)" using ok k(1) by (simp add: rsm_ok_def)
  then have "rsm_ok D s'" unfolding k(4)
    by (intro rsm_ok_update [OF ok k(1)]) (auto simp: k(2,3) call_ok_def answered_ok_def chan_ok_def)
  then show ?thesis using SubmitReceive by simp
next
  case (SubmitFinish k)
  then obtain r where k: "k < length (rsm_calls s)" "su_stage (call_at s k) = Woken r"
    "s' = forget (su_index (call_at s k)) (update_call k (\<lambda>c. c\<lparr>su_stage := Returned r\<rparr>) s)"
    using st by (auto simp: submit_finish_def split: if_splits submit_stage.splits)
  have "call_ok D (rsm_me s) k (call_at s k)" using ok k(1) by (simp add: rsm_ok_def)
  then have "rsm_ok D s'" unfolding k(3)
    by (intro rsm_ok_forget rsm_ok_update [OF ok k(1)]) (auto simp: k(2) call_ok_def answered_ok_def chan_ok_def)
  then show ?thesis using SubmitFinish by simp
next
  case (Deliver order bytes msg)
  then show ?thesis using reader_ok [OF ok] st by simp
qed (use ok st in \<open>auto dest: wake_closed_ok leaderCheck_ok\<close>)

lemma executed_Cons: "executed_ops (e # es) = executed_ops [e] @ executed_ops es"
  by (cases "[e]" rule: executed_ops.cases) auto

lemma run_ok:
  "rsm_ok D s \<Longrightarrow> rsm_run sm es s = Some s' \<Longrightarrow> rsm_ok (D \<union> (\<lambda>(op, i). (op_Id op, i)) ` set (executed_ops es)) s'"
proof (induction es arbitrary: D s)
  case (Cons e es)
  then obtain s1 where s1: "rsm_step sm e s = Some s1" "rsm_run sm es s1 = Some s'" by (auto simp: bind_eq_Some_conv)
  from Cons.IH [OF step_ok [OF Cons.prems(1) s1(1)] s1(2)] show ?case
    by (simp only: executed_Cons [of e es] set_append image_Un Un_assoc)
qed simp

lemma MakeRSM_ok: "rsm_ok {} (MakeRSM sm me limit snapshot s0)"
  by (simp add: MakeRSM_def rsm_ok_def)

lemma step_me: "rsm_step sm e s = Some s' \<Longrightarrow> rsm_me s' = rsm_me s"
proof (cases "deliveries [e] = []")
  case False
  assume st: "rsm_step sm e s = Some s'"
  obtain order bytes msg where e: "e = Deliver order bytes msg" using False by (cases e) auto
  have x: "rsm_me (snd (execute sm bytes op i s)) = rsm_me s" for op i
    by (simp add: execute_def Let_def split: prod.split)
  show ?thesis
  proof (cases "\<exists>op i. msg = CommandMsg (Some op) i")
    case True
    then obtain op i where m: "msg = CommandMsg (Some op) i" by blast
    obtain result s1 where s1: "execute sm bytes op i s = (result, s1)" by fastforce
    have "rsm_me s' = rsm_me s1"
      using st e m s1 by (auto simp: reader_step_def same_machine_def split: if_splits option.splits dest!: send_result_same)
    then show ?thesis using x [of op i] s1 by simp
  next
    case False
    then show ?thesis using st e
      by (cases msg) (auto simp: reader_step_def same_machine_def split: option.splits dest!: wake_all_same)
  qed
qed (auto dest!: step_same simp: same_machine_def)

lemma run_me: "rsm_run sm es s = Some s' \<Longrightarrow> rsm_me s' = rsm_me s"
  by (induction es arbitrary: s) (auto simp: bind_eq_Some_conv dest: step_me)

text \<open>A node that was started once and has taken less than \<open>2 ^ 32\<close> commands.\<close>

definition started_node :: "('s, 'r, 'v) state_machine \<Rightarrow> ('s, 'r, 'v) rsm \<Rightarrow> bool" where
  "started_node sm s \<longleftrightarrow> rsm_me s < 2 ^ 32 \<and> length (rsm_calls s) < 2 ^ 32 \<and>
     (\<exists>es limit snapshot s0. rsm_run sm es (MakeRSM sm (rsm_me s) limit snapshot s0) = Some s)"

lemma node_ids:
  assumes "started_node sm s" "k < length (rsm_calls s)"
  shows "su_id (call_at s k) = op_number (rsm_me s) (of_nat (Suc k))"
proof -
  obtain es limit snapshot s0 where "rsm_run sm es (MakeRSM sm (rsm_me s) limit snapshot s0) = Some s"
    using assms(1) by (auto simp: started_node_def)
  from run_ok [OF MakeRSM_ok this] assms(2) show ?thesis by (simp add: rsm_ok_def call_ok_def)
qed

definition op_of :: "('s, 'r, 'v) rsm \<Rightarrow> nat \<Rightarrow> 'r op" where
  "op_of s k = \<lparr>op_Req = su_req (call_at s k), op_Id = su_id (call_at s k)\<rparr>"

text \<open>
  C22. a call of \<open>Submit\<close> that returns OK has had its own command executed, at the index Raft gave it. This
  holds for any interleaving of calls, deliveries and leader checks, if what is in the log are commands of
  fewer than \<open>2 ^ 32\<close> calls on each of the nodes, which were started once: a restarted node begins its
  numbering again.
\<close>

theorem submit_ok_executed:
  assumes "rsm_run sm es (MakeRSM sm (rsm_me s) limit snapshot s0) = Some s" "s \<in> nodes"
    and "\<forall>a\<in>nodes. started_node sm a" "\<forall>a\<in>nodes. \<forall>b\<in>nodes. rsm_me a = rsm_me b \<longrightarrow> a = b"
    and "\<forall>(op, i)\<in>set (executed_ops es). \<exists>a\<in>nodes. \<exists>j<length (rsm_calls a). op = op_of a j"
    and "k < length (rsm_calls s)" "su_stage (call_at s k) = Returned (ErrOK, v)"
  shows "(op_of s k, su_index (call_at s k)) \<in> set (executed_ops es)"
proof -
  have "answered_ok (call_at s k)" using assms(7) by (auto simp: answered_ok_def)
  then obtain op where op: "(op, su_index (call_at s k)) \<in> set (executed_ops es)" "op_Id op = su_id (call_at s k)"
    using run_ok [OF MakeRSM_ok assms(1)] assms(6) by (fastforce simp: rsm_ok_def call_ok_def)
  obtain a j where a: "a \<in> nodes" "j < length (rsm_calls a)" "op = op_of a j" using assms(5) op(1) by fastforce
  have n: "started_node sm a" "started_node sm s" using assms(2,3) a(1) by blast+
  have "op_number (rsm_me a) (of_nat (Suc j)) = op_number (rsm_me s) (of_nat (Suc k))"
    using node_ids [OF n(1) a(2)] node_ids [OF n(2) assms(6)] op(2) a(3) by (simp add: op_of_def)
  then have "rsm_me a = rsm_me s \<and> Suc j = Suc k"
    by (rule op_number_inj) (use n a(2) assms(6) in \<open>auto simp: started_node_def\<close>)
  then have "a = s" "j = k" using assms(2,4) a(1) by auto
  then show ?thesis using op(1) a(3) by simp
qed

text \<open>One node and one call.\<close>

definition one_call :: "command rsm_event list" where
  "one_call = [SubmitBegin OtherCmd, SubmitStart 0 1 1 True, SubmitRegister 0,
     Deliver [] 0 (CommandMsg (Some \<lparr>op_Req = OtherCmd, op_Id = 1\<rparr>) 1), SubmitReceive 0, SubmitFinish 0]"

lemma submit_ok_executed_witness:
  "\<exists>s. rsm_run (collab_machine tiny_enc tiny_dec) one_call (MakeRSM (collab_machine tiny_enc tiny_dec) 0 (- 1) [] NewCollabServer) = Some s \<and>
     su_stage (call_at s 0) = Returned (ErrOK, Some ()) \<and> (op_of s 0, 1) \<in> set (executed_ops one_call)"
proof -
  let ?sm = "collab_machine tiny_enc tiny_dec"
  define s where "s = the (rsm_run ?sm one_call (MakeRSM ?sm 0 (- 1) [] NewCollabServer))"
  have r: "rsm_run ?sm one_call (MakeRSM ?sm 0 (- 1) [] NewCollabServer) = Some s" and me: "rsm_me s = 0"
    and c: "length (rsm_calls s) = 1" "su_stage (call_at s 0) = Returned (ErrOK, Some ())" "su_index (call_at s 0) = 1"
      "op_of s 0 = \<lparr>op_Req = OtherCmd, op_Id = 1\<rparr>"
    by (simp_all add: s_def one_call_def MakeRSM_def submit_begin_def submit_start_def submit_register_def submit_receive_def
        submit_finish_def at_stage_of_def update_call_def call_at_def reader_step_def execute_def send_result_def forget_def
        op_number_def op_of_def Let_def)
  have "started_node ?sm s" using r me c(1) by (auto simp: started_node_def intro!: exI [of _ one_call])
  with submit_ok_executed [of ?sm one_call s "- 1" "[]" NewCollabServer "{s}" 0 "Some ()"] r me c
  have "(op_of s 0, 1) \<in> set (executed_ops one_call)" by (fastforce simp: one_call_def)
  then show ?thesis using r c by blast
qed

section \<open>Who waits\<close>

text \<open>The events that do not concern a call with index \<open>i\<close> and term \<open>t\<close>: other commands are delivered, other
  calls come and go, the term is not higher.\<close>

fun unconcerned :: "nat \<Rightarrow> nat \<Rightarrow> 'r rsm_event \<Rightarrow> bool" where
  "unconcerned i t (Deliver order bytes (CommandMsg c j)) = (j \<noteq> i)"
| "unconcerned i t (Deliver order bytes (SnapshotMsg data j)) = False"
| "unconcerned i t (ApplyClosed order) = False"
| "unconcerned i t (LeaderCheck currTerm order) = (currTerm \<le> t)"
| "unconcerned i t e = True"

definition stuck :: "nat \<Rightarrow> nat \<Rightarrow> nat \<Rightarrow> ('s, 'r, 'v) rsm \<Rightarrow> bool" where
  "stuck k i t s \<longleftrightarrow> k < length (rsm_calls s) \<and> su_stage (call_at s k) = Waiting \<and> su_buffer (call_at s k) = None \<and>
     (\<forall>j. rsm_chan s j = Some k \<longrightarrow> j = i \<and> rsm_chanTerms s i = Some t)"

lemma stuck_send: "stuck k i t s \<Longrightarrow> send_result j r s = Some s' \<Longrightarrow> rsm_chan s j \<noteq> Some k \<Longrightarrow> stuck k i t s'"
  by (auto simp: stuck_def send_result_def split: option.splits if_splits)

lemma stuck_leaderCheck: "stuck k i t s \<Longrightarrow> currTerm \<le> t \<Longrightarrow> leaderCheck currTerm order s = Some s' \<Longrightarrow> stuck k i t s'"
proof (induction order arbitrary: s)
  case (Cons j order)
  show ?case
  proof (cases "\<exists>ct. rsm_chanTerms s j = Some ct \<and> ct < currTerm")
    case True
    then obtain s1 where s1: "send_result j (ErrWrongLeader, None) s = Some s1" "leaderCheck currTerm order s1 = Some s'"
      using Cons.prems(3) by (auto simp: bind_eq_Some_conv)
    have "rsm_chan s j \<noteq> Some k" using True Cons.prems(1,2) by (auto simp: stuck_def)
    from Cons.IH [OF stuck_send [OF Cons.prems(1) s1(1) this] Cons.prems(2) s1(2)] show ?thesis .
  next
    case False
    then show ?thesis using Cons by (auto split: option.splits if_splits)
  qed
qed simp

lemma stuck_reader:
  assumes s: "stuck k i t s" and j: "j \<noteq> i" and r: "reader_step sm order bytes (CommandMsg c j) s = Some s'"
  shows "stuck k i t s'"
proof (cases c)
  case (Some op)
  obtain result s1 where x: "execute sm bytes op j s = (result, s1)" by fastforce
  then have "stuck k i t s1" using s by (auto simp: execute_def stuck_def call_at_def Let_def split: prod.splits if_splits)
  moreover from this have "rsm_chan s1 j \<noteq> Some k" using j by (auto simp: stuck_def)
  ultimately show ?thesis
    using r Some x by (auto simp: reader_step_def split: if_splits intro: stuck_send)
qed (use assms in \<open>simp add: reader_step_def\<close>)

lemma stuck_begin: "stuck k i t s \<Longrightarrow> stuck k i t (submit_begin req s)"
  by (auto simp: stuck_def submit_begin_def Let_def call_at_def nth_append)

lemma stuck_start: "stuck k i t s \<Longrightarrow> at_stage_of s j Numbered \<Longrightarrow> stuck k i t (submit_start j index tm isLeader s)"
  by (auto simp: stuck_def submit_start_def at_stage_of_def)

lemma stuck_register: "stuck k i t s \<Longrightarrow> at_stage_of s j Started \<Longrightarrow> stuck k i t (submit_register j s)"
  by (auto simp: stuck_def register_simps at_stage_of_def)

lemma stuck_receive: "stuck k i t s \<Longrightarrow> submit_receive j s = Some s' \<Longrightarrow> stuck k i t s'"
  by (auto simp: stuck_def submit_receive_def split: option.splits)

lemma stuck_finish: "stuck k i t s \<Longrightarrow> su_stage (call_at s j) = Woken r \<Longrightarrow> stuck k i t (submit_finish j r s)"
  by (auto simp: stuck_def submit_finish_def)

lemma stuck_step:
  assumes s: "stuck k i t s" and q: "unconcerned i t e" and st: "rsm_step sm e s = Some s'"
  shows "stuck k i t s'"
proof (cases e)
  case (SubmitBegin req)
  then show ?thesis using st stuck_begin [OF s] by auto
next
  case (SubmitStart j index tm isLeader)
  then show ?thesis using st stuck_start [OF s] by (auto split: if_splits)
next
  case (SubmitRegister j)
  then show ?thesis using st stuck_register [OF s] by (auto split: if_splits)
next
  case (SubmitReceive j)
  then show ?thesis using st stuck_receive [OF s] by (auto split: if_splits)
next
  case (SubmitFinish j)
  then show ?thesis using st stuck_finish [OF s] by (auto split: if_splits submit_stage.splits)
next
  case (Deliver order bytes msg)
  then show ?thesis using st q s stuck_reader [OF s] by (cases msg) (auto simp: reader_step_def)
next
  case (LeaderCheck tm order)
  then show ?thesis using st q stuck_leaderCheck [OF s] by auto
qed (use q in simp)

lemma stuck_run: "stuck k i t s \<Longrightarrow> list_all (unconcerned i t) es \<Longrightarrow> rsm_run sm es s = Some s' \<Longrightarrow> stuck k i t s'"
  by (induction es arbitrary: s) (auto simp: bind_eq_Some_conv dest: stuck_step)

text \<open>
  A call of \<open>Submit\<close> can be forgotten. If its command is delivered and executed after Raft has taken it
  but before the call has put down its channel, the call waits as long as no snapshot comes and no
  higher term begins, whatever else is submitted, delivered or checked.
\<close>

theorem submit_can_be_forgotten:
  assumes "rsm_run sm es0 (MakeRSM sm me limit snapshot s0) = Some s"
    and "at_stage_of s k Started" "rsm_chan s (su_index (call_at s k)) = None"
    and "rsm_run sm (Deliver order bytes (CommandMsg (Some (op_of s k)) (su_index (call_at s k))) #
      SubmitRegister k # es) s = Some s1"
    and "list_all (unconcerned (su_index (call_at s k)) (su_term (call_at s k))) es"
  shows "at_stage_of s1 k Waiting \<and> su_buffer (call_at s1 k) = None"
proof -
  let ?c = "call_at s k" and ?i = "su_index (call_at s k)"
  have k: "k < length (rsm_calls s)" "su_stage ?c = Started" using assms(2) by (simp_all add: at_stage_of_def)
  have ok: "call_ok D (rsm_me s) k ?c \<and> (\<forall>j. rsm_chan s j \<noteq> Some k)" if "rsm_ok D s" for D
    using that k by (auto simp: rsm_ok_def chan_ok_def)
  then have ok: "su_buffer ?c = None" "\<And>j. rsm_chan s j \<noteq> Some k"
    using run_ok [OF MakeRSM_ok assms(1)] k(2) by (auto simp: call_ok_def)
  obtain result s2 where x: "execute sm bytes (op_of s k) ?i s = (result, s2)" by fastforce
  have s2: "rsm_chan s2 = rsm_chan s" "rsm_calls s2 = rsm_calls s" "call_at s2 = call_at s"
    using x by (auto simp: execute_def call_at_def [abs_def] Let_def split: prod.splits if_splits)
  have "rsm_step sm (Deliver order bytes (CommandMsg (Some (op_of s k)) ?i)) s = Some s2"
    using x s2(1) assms(3) by (simp add: reader_step_def)
  then have r: "rsm_run sm es (submit_register k s2) = Some s1"
    using assms(4) k by (auto simp: at_stage_of_def s2 bind_eq_Some_conv simp del: rsm_run.simps(1) split: if_splits)
  have "stuck k ?i (su_term ?c) (submit_register k s2)"
    using k ok by (auto simp: stuck_def register_simps s2)
  from stuck_run [OF this assms(5) r] show ?thesis by (simp add: stuck_def at_stage_of_def)
qed

lemma submit_can_be_forgotten_witness:
  "\<exists>s s1. rsm_run (collab_machine tiny_enc tiny_dec) [SubmitBegin OtherCmd, SubmitStart 0 1 1 True]
       (MakeRSM (collab_machine tiny_enc tiny_dec) 0 (- 1) [] NewCollabServer) = Some s \<and>
     rsm_run (collab_machine tiny_enc tiny_dec) [Deliver [] 0 (CommandMsg (Some (op_of s 0)) 1), SubmitRegister 0,
       LeaderCheck 1 [1]] s = Some s1 \<and> at_stage_of s1 0 Waiting \<and> su_buffer (call_at s1 0) = None"
proof -
  let ?sm = "collab_machine tiny_enc tiny_dec"
  define s where "s = the (rsm_run ?sm [SubmitBegin OtherCmd, SubmitStart 0 1 1 True] (MakeRSM ?sm 0 (- 1) [] NewCollabServer))"
  have r: "rsm_run ?sm [SubmitBegin OtherCmd, SubmitStart 0 1 1 True] (MakeRSM ?sm 0 (- 1) [] NewCollabServer) = Some s"
    and c: "at_stage_of s 0 Started" "rsm_chan s (su_index (call_at s 0)) = None" "su_index (call_at s 0) = 1"
      "su_term (call_at s 0) = 1"
    by (simp_all add: s_def MakeRSM_def submit_begin_def submit_start_def at_stage_of_def update_call_def call_at_def Let_def)
  have "rsm_run ?sm (Deliver [] 0 (CommandMsg (Some (op_of s 0)) (su_index (call_at s 0))) #
      SubmitRegister 0 # [LeaderCheck 1 [1]]) s \<noteq> None"
    by (simp add: s_def MakeRSM_def submit_begin_def submit_start_def at_stage_of_def update_call_def call_at_def Let_def
        op_of_def reader_step_def execute_def submit_register_def)
  then obtain s1 where s1: "rsm_run ?sm (Deliver [] 0 (CommandMsg (Some (op_of s 0)) (su_index (call_at s 0))) #
      SubmitRegister 0 # [LeaderCheck 1 [1]]) s = Some s1" by blast
  from submit_can_be_forgotten [OF r c(1,2) s1] c(3,4) r s1 show ?thesis by auto
qed

end
