(* ===== verification/Raft.thy ===== *)
theory Raft
  imports Rsm
begin

text \<open>
  The consensus module (\<open>src/raft/raft.go\<close>): the state of a peer and what its goroutines do under the
  lock, that is the handlers of the three calls, the handling of their replies, the steps of the
  ticker, the heartbeat and the applier, and the calls of the service. Elections may time out at any
  time, so the timers have no state here. A log always has its first entry, which stands for what the
  snapshot covers. The result \<open>None\<close> is an index out of range, a panic.
\<close>

section \<open>State\<close>

datatype raft_role = Follower | Candidate | Leader

record 'r log_entry =
  le_Term :: nat
  le_Command :: "'r op option"

text \<open>What \<open>persist\<close> has written.\<close>

record 'r raft_state =
  ps_currentTerm :: nat
  ps_votedFor :: "nat option"
  ps_log :: "'r log_entry list"
  ps_lastIncludedIndex :: nat
  ps_lastIncludedTerm :: nat
  ps_snapshot :: "byte list"

text \<open>\<open>rf_votedFor\<close> is \<open>None\<close> for -1; \<open>rf_applied\<close> is what was sent on \<open>applyChan\<close>.\<close>

record 'r raft =
  rf_me :: nat
  rf_currentTerm :: nat
  rf_votedFor :: "nat option"
  rf_currentRole :: raft_role
  rf_log :: "'r log_entry list"
  rf_commitIndex :: nat
  rf_lastApplied :: nat
  rf_nextIndex :: "nat list"
  rf_matchIndex :: "nat list"
  rf_lastIncludedIndex :: nat
  rf_lastIncludedTerm :: nat
  rf_snapshot :: "byte list"
  rf_persisted :: "'r raft_state"
  rf_applied :: "'r apply_msg list"

definition persist :: "'r raft \<Rightarrow> 'r raft" where
  "persist rf = rf\<lparr>rf_persisted :=
     \<lparr>ps_currentTerm = rf_currentTerm rf, ps_votedFor = rf_votedFor rf, ps_log = rf_log rf,
      ps_lastIncludedIndex = rf_lastIncludedIndex rf, ps_lastIncludedTerm = rf_lastIncludedTerm rf,
      ps_snapshot = rf_snapshot rf\<rparr>\<rparr>"

text \<open>\<open>Make\<close>, from what is on disk.\<close>

definition no_state :: "'r raft_state" where
  "no_state = \<lparr>ps_currentTerm = 0, ps_votedFor = None, ps_log = [\<lparr>le_Term = 0, le_Command = None\<rparr>],
     ps_lastIncludedIndex = 0, ps_lastIncludedTerm = 0, ps_snapshot = []\<rparr>"

definition MakeRaft :: "nat \<Rightarrow> 'r raft_state \<Rightarrow> 'r raft" where
  "MakeRaft me p =
     \<lparr>rf_me = me, rf_currentTerm = ps_currentTerm p, rf_votedFor = ps_votedFor p, rf_currentRole = Follower,
      rf_log = ps_log p, rf_commitIndex = ps_lastIncludedIndex p, rf_lastApplied = ps_lastIncludedIndex p,
      rf_nextIndex = [], rf_matchIndex = [], rf_lastIncludedIndex = ps_lastIncludedIndex p,
      rf_lastIncludedTerm = ps_lastIncludedTerm p, rf_snapshot = ps_snapshot p, rf_persisted = p, rf_applied = []\<rparr>"

definition lastLogIndex :: "'r raft \<Rightarrow> nat" where
  "lastLogIndex rf = length (rf_log rf) + rf_lastIncludedIndex rf - 1"

text \<open>\<open>rf.log[rf.logIndex(i)]\<close>.\<close>

definition entry_at :: "'r raft \<Rightarrow> nat \<Rightarrow> 'r log_entry option" where
  "entry_at rf i = (if rf_lastIncludedIndex rf \<le> i \<and> i - rf_lastIncludedIndex rf < length (rf_log rf)
     then Some (rf_log rf ! (i - rf_lastIncludedIndex rf)) else None)"

section \<open>Elections\<close>

record vote_args =
  va_Term :: nat
  va_CandidateId :: nat
  va_LastLogIndex :: nat
  va_LastLogTerm :: nat

record vote_reply =
  vr_Term :: nat
  vr_VoteGranted :: bool

definition RequestVote :: "vote_args \<Rightarrow> 'r raft \<Rightarrow> (vote_reply \<times> 'r raft) option" where
  "RequestVote a rf =
     (if va_Term a < rf_currentTerm rf then Some (\<lparr>vr_Term = rf_currentTerm rf, vr_VoteGranted = False\<rparr>, rf)
      else let rf1 = (if rf_currentTerm rf < va_Term a
                      then persist (rf\<lparr>rf_currentTerm := va_Term a, rf_currentRole := Follower, rf_votedFor := None\<rparr>)
                      else rf);
               no = \<lparr>vr_Term = rf_currentTerm rf1, vr_VoteGranted = False\<rparr>
           in if rf_votedFor rf1 = None \<or> rf_votedFor rf1 = Some (va_CandidateId a)
              then (case entry_at rf1 (lastLogIndex rf1) of
                 None \<Rightarrow> None
               | Some e \<Rightarrow>
                   if le_Term e < va_LastLogTerm a \<or> (le_Term e = va_LastLogTerm a \<and> lastLogIndex rf1 \<le> va_LastLogIndex a)
                   then Some (\<lparr>vr_Term = rf_currentTerm rf1, vr_VoteGranted = True\<rparr>,
                              persist (rf1\<lparr>rf_votedFor := Some (va_CandidateId a)\<rparr>))
                   else Some (no, rf1))
              else Some (no, rf1))"

text \<open>The ticker starts an election.\<close>

definition startElection :: "'r raft \<Rightarrow> (vote_args \<times> 'r raft) option" where
  "startElection rf =
     (let rf1 = persist (rf\<lparr>rf_currentRole := Candidate, rf_currentTerm := rf_currentTerm rf + 1,
                            rf_votedFor := Some (rf_me rf)\<rparr>) in
      case entry_at rf1 (lastLogIndex rf1) of
        None \<Rightarrow> None
      | Some e \<Rightarrow> Some (\<lparr>va_Term = rf_currentTerm rf1, va_CandidateId = rf_me rf, va_LastLogIndex = lastLogIndex rf1,
                        va_LastLogTerm = le_Term e\<rparr>, rf1))"

text \<open>A reply with a higher term than the call was made in.\<close>

definition stepDown :: "nat \<Rightarrow> 'r raft \<Rightarrow> 'r raft" where
  "stepDown t rf = persist (rf\<lparr>rf_currentTerm := t, rf_currentRole := Follower, rf_votedFor := None\<rparr>)"

text \<open>The reply to a vote that was asked for in the term \<open>t\<close>; \<open>count\<close> are the votes of that election.\<close>

definition voteReply :: "nat \<Rightarrow> nat \<Rightarrow> vote_reply \<Rightarrow> nat \<Rightarrow> 'r raft \<Rightarrow> nat \<times> 'r raft" where
  "voteReply peers t r count rf =
     (if t < vr_Term r then (count, stepDown (vr_Term r) rf)
      else if rf_currentTerm rf \<noteq> t \<or> rf_currentRole rf \<noteq> Candidate then (count, rf)
      else let count1 = (if vr_VoteGranted r then count + 1 else count) in
        (count1, if peers div 2 + 1 \<le> count1
                 then rf\<lparr>rf_currentRole := Leader, rf_nextIndex := replicate peers (lastLogIndex rf + 1),
                         rf_matchIndex := replicate peers 0\<rparr>
                 else rf))"

section \<open>The log\<close>

record 'r append_args =
  aa_Term :: nat
  aa_LeaderId :: nat
  aa_PrevLogIndex :: nat
  aa_PrevLogTerm :: nat
  aa_Entries :: "'r log_entry list"
  aa_LeaderCommit :: nat

record append_reply =
  ar_Term :: nat
  ar_Success :: bool
  ar_XTerm :: int
  ar_XIndex :: int
  ar_XLen :: nat

record snapshot_args =
  sa_Term :: nat
  sa_LeaderId :: nat
  sa_LastIncludedIndex :: nat
  sa_LastIncludedTerm :: nat
  sa_Data :: "byte list"

text \<open>The first index of a term in the log.\<close>

definition first_of_term :: "'r raft \<Rightarrow> nat \<Rightarrow> int" where
  "first_of_term rf t = int (length (takeWhile (\<lambda>e. le_Term e \<noteq> t) (rf_log rf)) + rf_lastIncludedIndex rf)"

definition AppendEntries :: "'r append_args \<Rightarrow> 'r raft \<Rightarrow> (append_reply \<times> 'r raft) option" where
  "AppendEntries a rf =
     (if aa_Term a < rf_currentTerm rf
      then Some (\<lparr>ar_Term = rf_currentTerm rf, ar_Success = False, ar_XTerm = 0, ar_XIndex = 0, ar_XLen = 0\<rparr>, rf)
      else let rf1 = (if rf_currentTerm rf < aa_Term a
                      then persist (rf\<lparr>rf_currentTerm := aa_Term a, rf_votedFor := None\<rparr>) else rf);
               rf2 = rf1\<lparr>rf_currentRole := Follower\<rparr>;
               no = \<lparr>ar_Term = rf_currentTerm rf2, ar_Success = False, ar_XTerm = -1, ar_XIndex = -1,
                     ar_XLen = lastLogIndex rf2 + 1\<rparr>
           in if lastLogIndex rf2 < aa_PrevLogIndex a then Some (no, rf2)
              else if aa_PrevLogIndex a < rf_lastIncludedIndex rf2
              then Some (no\<lparr>ar_XLen := rf_lastIncludedIndex rf2 + 1\<rparr>, rf2)
              else (case entry_at rf2 (aa_PrevLogIndex a) of
                 None \<Rightarrow> None
               | Some e \<Rightarrow>
                   if le_Term e \<noteq> aa_PrevLogTerm a
                   then Some (no\<lparr>ar_XTerm := int (le_Term e), ar_XIndex := first_of_term rf2 (le_Term e)\<rparr>, rf2)
                   else let rf3 = persist (rf2\<lparr>rf_log :=
                                take (aa_PrevLogIndex a - rf_lastIncludedIndex rf2 + 1) (rf_log rf2) @ aa_Entries a\<rparr>);
                            rf4 = (if rf_commitIndex rf3 < aa_LeaderCommit a
                                   then rf3\<lparr>rf_commitIndex := min (aa_LeaderCommit a) (lastLogIndex rf3)\<rparr> else rf3)
                        in Some (\<lparr>ar_Term = rf_currentTerm rf4, ar_Success = True, ar_XTerm = 0, ar_XIndex = 0,
                                  ar_XLen = 0\<rparr>, rf4)))"

definition InstallSnapshot :: "snapshot_args \<Rightarrow> 'r raft \<Rightarrow> (nat \<times> 'r raft) option" where
  "InstallSnapshot a rf =
     (if sa_Term a < rf_currentTerm rf then Some (rf_currentTerm rf, rf)
      else let rf1 = rf\<lparr>rf_currentRole := Follower, rf_currentTerm := max (sa_Term a) (rf_currentTerm rf)\<rparr>;
               i = sa_LastIncludedIndex a; dummy = \<lparr>le_Term = sa_LastIncludedTerm a, le_Command = None\<rparr>
           in if i \<le> rf_lastIncludedIndex rf1 then Some (sa_Term a, rf1)
              else let keep = (i \<le> lastLogIndex rf1 \<and>
                         (case entry_at rf1 i of Some e \<Rightarrow> le_Term e = sa_LastIncludedTerm a | None \<Rightarrow> False));
                       rf2 = rf1\<lparr>rf_log := dummy # (if keep then drop (i - rf_lastIncludedIndex rf1 + 1) (rf_log rf1) else []),
                                 rf_lastIncludedIndex := i, rf_lastIncludedTerm := sa_LastIncludedTerm a,
                                 rf_snapshot := sa_Data a, rf_commitIndex := max i (rf_commitIndex rf1)\<rparr>
                   in Some (sa_Term a, persist rf2))"

text \<open>What a leader sends to the peer \<open>i\<close>.\<close>

definition heartbeat_args :: "nat \<Rightarrow> 'r raft \<Rightarrow> (snapshot_args + 'r append_args) option" where
  "heartbeat_args i rf =
     (let next = rf_nextIndex rf ! i in
      if next \<le> rf_lastIncludedIndex rf
      then Some (Inl \<lparr>sa_Term = rf_currentTerm rf, sa_LeaderId = rf_me rf,
                  sa_LastIncludedIndex = rf_lastIncludedIndex rf, sa_LastIncludedTerm = rf_lastIncludedTerm rf,
                  sa_Data = rf_snapshot rf\<rparr>)
      else (case entry_at rf (next - 1) of
          None \<Rightarrow> None
        | Some e \<Rightarrow> Some (Inr \<lparr>aa_Term = rf_currentTerm rf, aa_LeaderId = rf_me rf, aa_PrevLogIndex = next - 1,
                     aa_PrevLogTerm = le_Term e, aa_Entries = drop (next - rf_lastIncludedIndex rf) (rf_log rf),
                     aa_LeaderCommit = rf_commitIndex rf\<rparr>)))"

text \<open>The last index of a term in the log.\<close>

definition last_of_term :: "'r raft \<Rightarrow> int \<Rightarrow> nat option" where
  "last_of_term rf t = find (\<lambda>i. case entry_at rf i of Some e \<Rightarrow> int (le_Term e) = t | None \<Rightarrow> False)
     (rev [rf_lastIncludedIndex rf..<lastLogIndex rf + 1])"

text \<open>The highest index of the own term that a majority has.\<close>

definition replicated_at :: "nat \<Rightarrow> 'r raft \<Rightarrow> nat \<Rightarrow> bool" where
  "replicated_at peers rf i \<longleftrightarrow>
     (case entry_at rf i of Some e \<Rightarrow> le_Term e = rf_currentTerm rf | None \<Rightarrow> False) \<and>
     peers div 2 + 1 \<le> 1 + length (filter (\<lambda>j. j \<noteq> rf_me rf \<and> i \<le> rf_matchIndex rf ! j) [0..<peers])"

definition advanceCommit :: "nat \<Rightarrow> 'r raft \<Rightarrow> 'r raft" where
  "advanceCommit peers rf = (case find (replicated_at peers rf) (rev [rf_commitIndex rf + 1..<lastLogIndex rf + 1]) of
     None \<Rightarrow> rf | Some i \<Rightarrow> rf\<lparr>rf_commitIndex := i\<rparr>)"

definition appendReply :: "nat \<Rightarrow> nat \<Rightarrow> 'r append_args \<Rightarrow> append_reply \<Rightarrow> 'r raft \<Rightarrow> 'r raft" where
  "appendReply peers i a r rf =
     (if aa_Term a < ar_Term r then stepDown (ar_Term r) rf
      else if rf_currentTerm rf \<noteq> aa_Term a \<or> rf_currentRole rf \<noteq> Leader then rf
      else if \<not> ar_Success r
      then rf\<lparr>rf_nextIndex := (rf_nextIndex rf)[i :=
             (if ar_XTerm r = -1 then ar_XLen r
              else case last_of_term rf (ar_XTerm r) of None \<Rightarrow> nat (ar_XIndex r) | Some k \<Rightarrow> k + 1)]\<rparr>
      else let next = aa_PrevLogIndex a + length (aa_Entries a) + 1 in
        advanceCommit peers (rf\<lparr>rf_nextIndex := (rf_nextIndex rf)[i := next], rf_matchIndex := (rf_matchIndex rf)[i := next - 1]\<rparr>))"

definition snapshotReply :: "nat \<Rightarrow> snapshot_args \<Rightarrow> nat \<Rightarrow> 'r raft \<Rightarrow> 'r raft" where
  "snapshotReply i a t rf =
     (if sa_Term a < t then stepDown t rf
      else if rf_currentTerm rf \<noteq> sa_Term a \<or> rf_currentRole rf \<noteq> Leader then rf
      else rf\<lparr>rf_nextIndex := (rf_nextIndex rf)[i := sa_LastIncludedIndex a + 1],
              rf_matchIndex := (rf_matchIndex rf)[i := sa_LastIncludedIndex a]\<rparr>)"

section \<open>The service\<close>

definition StartCommand :: "'r op \<Rightarrow> 'r raft \<Rightarrow> (int \<times> nat \<times> bool) \<times> 'r raft" where
  "StartCommand op rf =
     (if rf_currentRole rf \<noteq> Leader then ((-1, rf_currentTerm rf, False), rf)
      else ((int (lastLogIndex rf + 1), rf_currentTerm rf, True),
            persist (rf\<lparr>rf_log := rf_log rf @ [\<lparr>le_Term = rf_currentTerm rf, le_Command = Some op\<rparr>]\<rparr>)))"

definition SnapshotAt :: "nat \<Rightarrow> byte list \<Rightarrow> 'r raft \<Rightarrow> 'r raft" where
  "SnapshotAt index data rf =
     (if index \<le> rf_lastIncludedIndex rf then rf
      else case entry_at rf index of
        None \<Rightarrow> rf
      | Some e \<Rightarrow> persist (rf\<lparr>rf_lastIncludedTerm := le_Term e,
          rf_log := \<lparr>le_Term = le_Term e, le_Command = None\<rparr> # drop (index - rf_lastIncludedIndex rf + 1) (rf_log rf),
          rf_lastIncludedIndex := index, rf_snapshot := data\<rparr>))"

text \<open>One round of the applier. An entry that is not there is beyond the end of the slice.\<close>

definition applier :: "'r raft \<Rightarrow> 'r raft option" where
  "applier rf =
     (if rf_lastApplied rf < rf_lastIncludedIndex rf
      then Some (rf\<lparr>rf_lastApplied := rf_lastIncludedIndex rf,
             rf_applied := rf_applied rf @ [SnapshotMsg (rf_snapshot rf) (rf_lastIncludedIndex rf)]\<rparr>)
      else if rf_lastApplied rf < rf_commitIndex rf
      then (case those (map (entry_at rf) [rf_lastApplied rf + 1..<rf_commitIndex rf + 1]) of
          None \<Rightarrow> None
        | Some es \<Rightarrow> Some (rf\<lparr>rf_lastApplied := rf_commitIndex rf,
             rf_applied := rf_applied rf @
               map2 (\<lambda>e i. CommandMsg (le_Command e) i) es [rf_lastApplied rf + 1..<rf_commitIndex rf + 1]\<rparr>))
      else Some rf)"

end
