(* ===== verification/RaftCluster.thy ===== *)
theory RaftCluster
  imports Raft
begin

text \<open>
  A cluster of Raft peers (\<open>src/raft/raft.go\<close>). A call of one peer to another is handled once at most,
  at any later time, and its reply is processed at any time after that, in any order, or never: the
  network may lose, delay and reorder. An election keeps the votes it has counted, the variable the
  goroutines of \<open>ticker\<close> share. A peer that crashes loses its goroutines, so the replies it waited for
  are not processed any more, and starts again from what it has persisted.
\<close>

section \<open>State\<close>

record election =
  el_node :: nat
  el_term :: nat
  el_count :: nat

text \<open>The calls with their arguments; a vote is asked for by an election.\<close>

datatype 'r raft_call = VoteCall nat vote_args | AppendCall "'r append_args" | SnapshotCall snapshot_args

datatype raft_reply = VoteRep vote_reply | AppendRep append_reply | SnapshotRep nat

datatype call_stage = InFlight | Answered raft_reply | Processed raft_reply

record 'r call =
  ca_from :: nat
  ca_to :: nat
  ca_call :: "'r raft_call"
  ca_alive :: bool
  ca_stage :: call_stage

record 'r cluster =
  cl_nodes :: "'r raft list"
  cl_elections :: "election list"
  cl_calls :: "'r call list"

definition initCluster :: "nat \<Rightarrow> 'r cluster" where
  "initCluster n = \<lparr>cl_nodes = map (\<lambda>i. MakeRaft i no_state) [0..<n], cl_elections = [], cl_calls = []\<rparr>"

section \<open>Steps\<close>

datatype 'r cluster_event =
  Timeout nat | Handle nat | Reply nat | Heartbeat nat | ClientStart nat "'r op"
  | TakeSnapshot nat nat "byte list" | Apply nat | Crash nat

definition set_node :: "nat \<Rightarrow> 'r raft \<Rightarrow> 'r cluster \<Rightarrow> 'r cluster" where
  "set_node n rf c = c\<lparr>cl_nodes := (cl_nodes c)[n := rf]\<rparr>"

definition set_stage :: "nat \<Rightarrow> call_stage \<Rightarrow> 'r cluster \<Rightarrow> 'r cluster" where
  "set_stage k st c = c\<lparr>cl_calls := (cl_calls c)[k := (cl_calls c ! k)\<lparr>ca_stage := st\<rparr>]\<rparr>"

definition others :: "nat \<Rightarrow> 'r cluster \<Rightarrow> nat list" where
  "others n c = filter (\<lambda>i. i \<noteq> n) [0..<length (cl_nodes c)]"

definition send_call :: "nat \<Rightarrow> 'r raft_call \<Rightarrow> nat \<Rightarrow> 'r call" where
  "send_call n x i = \<lparr>ca_from = n, ca_to = i, ca_call = x, ca_alive = True, ca_stage = InFlight\<rparr>"

text \<open>The ticker of a peer that is not the leader finds that its time is up.\<close>

definition timeout :: "nat \<Rightarrow> 'r cluster \<Rightarrow> 'r cluster option" where
  "timeout n c =
     (if n < length (cl_nodes c) \<and> rf_currentRole (cl_nodes c ! n) \<noteq> Leader
      then (case startElection (cl_nodes c ! n) of
          None \<Rightarrow> None
        | Some (a, rf) \<Rightarrow> Some ((set_node n rf c)
            \<lparr>cl_elections := cl_elections c @ [\<lparr>el_node = n, el_term = va_Term a, el_count = 1\<rparr>],
             cl_calls := cl_calls c @ map (send_call n (VoteCall (length (cl_elections c)) a)) (others n c)\<rparr>))
      else None)"

definition answer :: "nat \<Rightarrow> raft_reply \<Rightarrow> 'r raft \<Rightarrow> 'r cluster \<Rightarrow> 'r cluster" where
  "answer k r rf c = set_stage k (Answered r) (set_node (ca_to (cl_calls c ! k)) rf c)"

definition handle :: "nat \<Rightarrow> 'r cluster \<Rightarrow> 'r cluster option" where
  "handle k c =
     (if k < length (cl_calls c) \<and> ca_stage (cl_calls c ! k) = InFlight
      then (let rf = cl_nodes c ! ca_to (cl_calls c ! k) in
        case ca_call (cl_calls c ! k) of
          VoteCall e a \<Rightarrow> map_option (\<lambda>(r, rf). answer k (VoteRep r) rf c) (RequestVote a rf)
        | AppendCall a \<Rightarrow> map_option (\<lambda>(r, rf). answer k (AppendRep r) rf c) (AppendEntries a rf)
        | SnapshotCall a \<Rightarrow> map_option (\<lambda>(t, rf). answer k (SnapshotRep t) rf c) (InstallSnapshot a rf))
      else None)"

definition set_count :: "nat \<Rightarrow> nat \<Rightarrow> 'r cluster \<Rightarrow> 'r cluster" where
  "set_count e m c = c\<lparr>cl_elections := (cl_elections c)[e := (cl_elections c ! e)\<lparr>el_count := m\<rparr>]\<rparr>"

definition receive_reply :: "nat \<Rightarrow> 'r cluster \<Rightarrow> 'r cluster option" where
  "receive_reply k c =
     (if k < length (cl_calls c) \<and> ca_alive (cl_calls c ! k)
      then (let x = cl_calls c ! k; n = ca_from x; rf = cl_nodes c ! n in
        case (ca_call x, ca_stage x) of
          (VoteCall e a, Answered (VoteRep r)) \<Rightarrow>
            (case voteReply (length (cl_nodes c)) (va_Term a) r (el_count (cl_elections c ! e)) rf of
               (m, rf) \<Rightarrow> Some (set_stage k (Processed (VoteRep r)) (set_count e m (set_node n rf c))))
        | (AppendCall a, Answered (AppendRep r)) \<Rightarrow>
            Some (set_stage k (Processed (AppendRep r))
              (set_node n (appendReply (length (cl_nodes c)) (ca_to x) a r rf) c))
        | (SnapshotCall a, Answered (SnapshotRep t)) \<Rightarrow>
            Some (set_stage k (Processed (SnapshotRep t)) (set_node n (snapshotReply (ca_to x) a t rf) c))
        | _ \<Rightarrow> None)
      else None)"

text \<open>One round of \<open>heartbeat\<close>.\<close>

definition heartbeat_call :: "nat \<Rightarrow> 'r raft \<Rightarrow> nat \<Rightarrow> 'r call option" where
  "heartbeat_call n rf i = map_option (\<lambda>x. send_call n (case x of Inl s \<Rightarrow> SnapshotCall s | Inr a \<Rightarrow> AppendCall a) i)
     (heartbeat_args i rf)"

definition heartbeat :: "nat \<Rightarrow> 'r cluster \<Rightarrow> 'r cluster option" where
  "heartbeat n c =
     (if n < length (cl_nodes c) \<and> rf_currentRole (cl_nodes c ! n) = Leader
      then map_option (\<lambda>xs. c\<lparr>cl_calls := cl_calls c @ xs\<rparr>)
             (those (map (heartbeat_call n (cl_nodes c ! n)) (others n c)))
      else None)"

text \<open>A peer stops and is made again.\<close>

definition restart :: "nat \<Rightarrow> 'r cluster \<Rightarrow> 'r cluster" where
  "restart n c = (set_node n (MakeRaft n (rf_persisted (cl_nodes c ! n))) c)
     \<lparr>cl_calls := map (\<lambda>x. if ca_from x = n then x\<lparr>ca_alive := False\<rparr> else x) (cl_calls c)\<rparr>"

definition local_step :: "nat \<Rightarrow> ('r raft \<Rightarrow> 'r raft option) \<Rightarrow> 'r cluster \<Rightarrow> 'r cluster option" where
  "local_step n f c = (if n < length (cl_nodes c) then map_option (\<lambda>rf. set_node n rf c) (f (cl_nodes c ! n)) else None)"

primrec cluster_step :: "'r cluster_event \<Rightarrow> 'r cluster \<Rightarrow> 'r cluster option" where
  "cluster_step (Timeout n) c = timeout n c"
| "cluster_step (Handle k) c = handle k c"
| "cluster_step (Reply k) c = receive_reply k c"
| "cluster_step (Heartbeat n) c = heartbeat n c"
| "cluster_step (ClientStart n x) c = local_step n (\<lambda>rf. Some (snd (StartCommand x rf))) c"
| "cluster_step (TakeSnapshot n i s) c = local_step n (\<lambda>rf. Some (SnapshotAt i s rf)) c"
| "cluster_step (Apply n) c = local_step n applier c"
| "cluster_step (Crash n) c = (if n < length (cl_nodes c) then Some (restart n c) else None)"

primrec run_cluster :: "'r cluster_event list \<Rightarrow> 'r cluster \<Rightarrow> 'r cluster option" where
  "run_cluster [] c = Some c"
| "run_cluster (e # es) c = (case cluster_step e c of None \<Rightarrow> None | Some c' \<Rightarrow> run_cluster es c')"

text \<open>The peer \<open>n\<close> leads in the term \<open>t\<close>.\<close>

definition leads :: "'r cluster \<Rightarrow> nat \<Rightarrow> nat \<Rightarrow> bool" where
  "leads c n t \<longleftrightarrow> n < length (cl_nodes c) \<and> rf_currentRole (cl_nodes c ! n) = Leader \<and>
     rf_currentTerm (cl_nodes c ! n) = t"

text \<open>A reply that makes the caller step down is news for it: its term is higher than the one the
  caller is in by now, and not only than the one the call was made in. The code compares with the
  latter.\<close>

definition news :: "'r cluster_event \<Rightarrow> 'r cluster \<Rightarrow> bool" where
  "news ev c = (case ev of Reply k \<Rightarrow> (let x = cl_calls c ! k; now = rf_currentTerm (cl_nodes c ! ca_from x) in
       case (ca_call x, ca_stage x) of
         (VoteCall e a, Answered (VoteRep r)) \<Rightarrow> va_Term a < vr_Term r \<longrightarrow> now < vr_Term r
       | (AppendCall a, Answered (AppendRep r)) \<Rightarrow> aa_Term a < ar_Term r \<longrightarrow> now < ar_Term r
       | (SnapshotCall a, Answered (SnapshotRep t)) \<Rightarrow> sa_Term a < t \<longrightarrow> now < t
       | _ \<Rightarrow> True)
     | _ \<Rightarrow> True)"

primrec all_news :: "'r cluster_event list \<Rightarrow> 'r cluster \<Rightarrow> bool" where
  "all_news [] c \<longleftrightarrow> True"
| "all_news (e # es) c \<longleftrightarrow> news e c \<and> (case cluster_step e c of None \<Rightarrow> True | Some c' \<Rightarrow> all_news es c')"

end
