(* ===== verification/RaftSafety.thy ===== *)
theory RaftSafety
  imports RaftCluster
begin

text \<open>
  Election safety of the cluster of \<open>RaftCluster\<close>: votes are kept by every step of a peer, over crashes
  too, so that no peer votes for two candidates in a term, and two majorities share a peer.
\<close>

section \<open>What the steps of a peer keep\<close>

text \<open>The peer remembers that it voted for \<open>n\<close> in the term \<open>t\<close>, in memory and on disk, as long as that
  term lasts.\<close>

definition remembers :: "nat \<Rightarrow> nat \<Rightarrow> 'r raft \<Rightarrow> bool" where
  "remembers t n rf \<longleftrightarrow> t \<le> rf_currentTerm rf \<and> (t = rf_currentTerm rf \<longrightarrow> rf_votedFor rf = Some n) \<and>
     t \<le> ps_currentTerm (rf_persisted rf) \<and>
     (t = ps_currentTerm (rf_persisted rf) \<longrightarrow> ps_votedFor (rf_persisted rf) = Some n)"

text \<open>A step that forgets no vote and makes no leader.\<close>

definition keeps_votes :: "'r raft \<Rightarrow> 'r raft \<Rightarrow> bool" where
  "keeps_votes rf rf' \<longleftrightarrow> rf_me rf' = rf_me rf \<and> (\<forall>t n. remembers t n rf \<longrightarrow> remembers t n rf') \<and>
     (rf_currentRole rf' = Leader \<longrightarrow> rf_currentRole rf = Leader \<and> rf_currentTerm rf' = rf_currentTerm rf)"

lemma keeps_votes_refl [simp]: "keeps_votes rf rf"
  by (simp add: keeps_votes_def)

lemma keeps_votesI:
  assumes "rf_me rf' = rf_me rf"
    and "rf_currentTerm rf < rf_currentTerm rf' \<or> rf_currentTerm rf' = rf_currentTerm rf \<and>
      (rf_votedFor rf = None \<or> rf_votedFor rf' = rf_votedFor rf)"
    and "rf_persisted rf' = rf_persisted rf \<or>
      ps_currentTerm (rf_persisted rf') = rf_currentTerm rf' \<and> ps_votedFor (rf_persisted rf') = rf_votedFor rf'"
    and "rf_currentRole rf' = Leader \<Longrightarrow> rf_currentRole rf = Leader \<and> rf_currentTerm rf' = rf_currentTerm rf"
  shows "keeps_votes rf rf'"
  using assms unfolding keeps_votes_def remembers_def by auto

lemma persist_simps [simp]:
  "rf_me (persist rf) = rf_me rf" "rf_currentTerm (persist rf) = rf_currentTerm rf"
  "rf_votedFor (persist rf) = rf_votedFor rf" "rf_currentRole (persist rf) = rf_currentRole rf"
  "ps_currentTerm (rf_persisted (persist rf)) = rf_currentTerm rf"
  "ps_votedFor (rf_persisted (persist rf)) = rf_votedFor rf"
  by (simp_all add: persist_def)

lemma RequestVote_keeps: "RequestVote a rf = Some (r, rf') \<Longrightarrow> keeps_votes rf rf'"
  unfolding RequestVote_def Let_def
  by (rule keeps_votesI) (auto split: if_splits option.splits)

lemma RequestVote_granted:
  assumes "RequestVote a rf = Some (r, rf')" "vr_VoteGranted r"
  shows "va_Term a = rf_currentTerm rf'" "remembers (va_Term a) (va_CandidateId a) rf'"
proof -
  have tm: "\<not> va_Term a < rf_currentTerm rf"
    using assms by (auto simp: RequestVote_def)
  obtain rf1 where rf1: "rf1 = (if rf_currentTerm rf < va_Term a
      then persist (rf\<lparr>rf_currentTerm := va_Term a, rf_currentRole := Follower, rf_votedFor := None\<rparr>) else rf)"
    by blast
  have "rf' = persist (rf1\<lparr>rf_votedFor := Some (va_CandidateId a)\<rparr>)"
    using assms tm unfolding RequestVote_def Let_def rf1 [symmetric]
    by (auto split: if_split_asm option.split_asm)
  moreover have "rf_currentTerm rf1 = va_Term a"
    using tm by (simp add: rf1)
  ultimately show "va_Term a = rf_currentTerm rf'" "remembers (va_Term a) (va_CandidateId a) rf'"
    by (simp_all add: remembers_def)
qed

lemma startElection_remembers:
  assumes "startElection rf = Some (a, rf')"
  shows "va_Term a = rf_currentTerm rf'" "va_CandidateId a = rf_me rf" "remembers (va_Term a) (rf_me rf) rf'"
    "keeps_votes rf rf'" "rf_currentRole rf' = Candidate"
proof -
  have *: "rf' = persist (rf\<lparr>rf_currentRole := Candidate, rf_currentTerm := rf_currentTerm rf + 1, rf_votedFor := Some (rf_me rf)\<rparr>)
      \<and> va_Term a = rf_currentTerm rf + 1 \<and> va_CandidateId a = rf_me rf"
    using assms by (auto simp: startElection_def Let_def split: option.split_asm)
  then show "va_Term a = rf_currentTerm rf'" "va_CandidateId a = rf_me rf" "remembers (va_Term a) (rf_me rf) rf'"
    "rf_currentRole rf' = Candidate"
    by (simp_all add: remembers_def)
  from * show "keeps_votes rf rf'" by (intro keeps_votesI) simp_all
qed

lemma AppendEntries_keeps: "AppendEntries a rf = Some (r, rf') \<Longrightarrow> keeps_votes rf rf'"
  unfolding AppendEntries_def Let_def
  by (rule keeps_votesI) (auto split: if_split_asm option.split_asm)

lemma InstallSnapshot_keeps: "InstallSnapshot a rf = Some (r, rf') \<Longrightarrow> keeps_votes rf rf'"
  unfolding InstallSnapshot_def Let_def
  by (rule keeps_votesI) (auto split: if_split_asm)

lemma stepDown_keeps: "rf_currentTerm rf < t \<Longrightarrow> keeps_votes rf (stepDown t rf)"
  by (rule keeps_votesI) (simp_all add: stepDown_def)

lemma advanceCommit_keeps: "keeps_votes rf rf' \<Longrightarrow> keeps_votes rf (advanceCommit peers rf')"
  by (auto simp: advanceCommit_def keeps_votes_def remembers_def split: option.split)

lemma appendReply_keeps:
  "(aa_Term a < ar_Term r \<Longrightarrow> rf_currentTerm rf < ar_Term r) \<Longrightarrow> keeps_votes rf (appendReply peers i a r rf)"
  unfolding appendReply_def Let_def
  by (auto simp: stepDown_keeps intro!: advanceCommit_keeps intro: keeps_votesI)

lemma snapshotReply_keeps:
  "(sa_Term a < t \<Longrightarrow> rf_currentTerm rf < t) \<Longrightarrow> keeps_votes rf (snapshotReply i a t rf)"
  unfolding snapshotReply_def
  by (auto simp: stepDown_keeps intro: keeps_votesI)

lemma StartCommand_keeps: "keeps_votes rf (snd (StartCommand x rf))"
  by (rule keeps_votesI) (auto simp: StartCommand_def split: if_split_asm)

lemma SnapshotAt_keeps: "keeps_votes rf (SnapshotAt i s rf)"
  by (rule keeps_votesI) (auto simp: SnapshotAt_def split: if_split_asm option.split option.split_asm)

lemma applier_keeps: "applier rf = Some rf' \<Longrightarrow> keeps_votes rf rf'"
  by (rule keeps_votesI) (auto simp: applier_def split: if_split_asm option.split_asm)

lemma MakeRaft_keeps: "rf_me rf = n \<Longrightarrow> keeps_votes rf (MakeRaft n (rf_persisted rf))"
  by (simp add: keeps_votes_def remembers_def MakeRaft_def)

text \<open>A vote reply makes the caller a leader of the term it asked in, with a majority.\<close>

lemma voteReply_keeps:
  assumes "voteReply peers t r m rf = (m', rf')" "t < vr_Term r \<longrightarrow> rf_currentTerm rf < vr_Term r"
  shows "rf_me rf' = rf_me rf" "remembers u n rf \<Longrightarrow> remembers u n rf'"
    "rf_currentRole rf' = Leader \<Longrightarrow> rf_currentRole rf = Leader \<and> rf_currentTerm rf' = rf_currentTerm rf \<or>
       rf_currentTerm rf' = t \<and> peers div 2 + 1 \<le> m'"
    "m \<le> m'" "m' \<le> (if vr_VoteGranted r then m + 1 else m)"
proof -
  consider (down) "t < vr_Term r" | (stale) "\<not> t < vr_Term r" "rf_currentTerm rf \<noteq> t \<or> rf_currentRole rf \<noteq> Candidate"
    | (vote) "\<not> t < vr_Term r" "rf_currentTerm rf = t" "rf_currentRole rf = Candidate" by blast
  note cs = this
  show "rf_me rf' = rf_me rf" "remembers u n rf \<Longrightarrow> remembers u n rf'"
    "rf_currentRole rf' = Leader \<Longrightarrow> rf_currentRole rf = Leader \<and> rf_currentTerm rf' = rf_currentTerm rf \<or>
       rf_currentTerm rf' = t \<and> peers div 2 + 1 \<le> m'"
    "m \<le> m'" "m' \<le> (if vr_VoteGranted r then m + 1 else m)"
    using cs assms stepDown_keeps [of rf "vr_Term r"]
    by (cases, auto simp: voteReply_def Let_def remembers_def keeps_votes_def stepDown_def split: if_split_asm)+
qed

section \<open>The invariant of the cluster\<close>

definition granted :: "call_stage \<Rightarrow> bool" where
  "granted st \<longleftrightarrow> (case st of Answered (VoteRep r) \<Rightarrow> vr_VoteGranted r | Processed (VoteRep r) \<Rightarrow> vr_VoteGranted r
     | _ \<Rightarrow> False)"

definition vote_counted :: "call_stage \<Rightarrow> bool" where
  "vote_counted st \<longleftrightarrow> (case st of Processed (VoteRep r) \<Rightarrow> vr_VoteGranted r | _ \<Rightarrow> False)"

lemma stage_simps [simp]:
  "\<not> granted InFlight" "\<not> vote_counted InFlight" "\<not> vote_counted (Answered r)"
  "granted (Answered (VoteRep v)) = vr_VoteGranted v" "granted (Processed (VoteRep v)) = vr_VoteGranted v"
  "vote_counted (Processed (VoteRep v)) = vr_VoteGranted v"
  "\<not> granted (Answered (AppendRep a))" "\<not> granted (Answered (SnapshotRep t))"
  "\<not> granted (Processed (AppendRep a))" "\<not> granted (Processed (SnapshotRep t))"
  "\<not> vote_counted (Processed (AppendRep a))" "\<not> vote_counted (Processed (SnapshotRep t))"
  by (simp_all add: granted_def vote_counted_def)

text \<open>The peer \<open>v\<close> has voted for \<open>n\<close> in the term \<open>t\<close>: by standing itself, or by an answer.\<close>

definition stood :: "'r cluster \<Rightarrow> nat \<Rightarrow> nat \<Rightarrow> bool" where
  "stood c v t \<longleftrightarrow> (\<exists>e<length (cl_elections c). el_node (cl_elections c ! e) = v \<and> el_term (cl_elections c ! e) = t)"

definition answered :: "'r cluster \<Rightarrow> nat \<Rightarrow> nat \<Rightarrow> nat \<Rightarrow> bool" where
  "answered c v t n \<longleftrightarrow> (\<exists>k<length (cl_calls c). \<exists>e a. ca_call (cl_calls c ! k) = VoteCall e a \<and>
     ca_to (cl_calls c ! k) = v \<and> va_Term a = t \<and> va_CandidateId a = n \<and> granted (ca_stage (cl_calls c ! k)))"

definition voted :: "'r cluster \<Rightarrow> nat \<Rightarrow> nat \<Rightarrow> nat \<Rightarrow> bool" where
  "voted c v t n \<longleftrightarrow> stood c v t \<and> n = v \<or> answered c v t n"

definition counted_calls :: "'r cluster \<Rightarrow> nat \<Rightarrow> nat set" where
  "counted_calls c e = {k. k < length (cl_calls c) \<and> (\<exists>a. ca_call (cl_calls c ! k) = VoteCall e a) \<and>
     vote_counted (ca_stage (cl_calls c ! k))}"

definition majority :: "'r cluster \<Rightarrow> nat" where
  "majority c = length (cl_nodes c) div 2 + 1"

text \<open>A call belongs to its election, which asks every other peer once.\<close>

definition well_formed_calls :: "'r cluster \<Rightarrow> bool" where
  "well_formed_calls c \<longleftrightarrow>
     (\<forall>k<length (cl_calls c). ca_from (cl_calls c ! k) < length (cl_nodes c) \<and> ca_to (cl_calls c ! k) < length (cl_nodes c)) \<and>
     (\<forall>k<length (cl_calls c). \<forall>e a. ca_call (cl_calls c ! k) = VoteCall e a \<longrightarrow> e < length (cl_elections c) \<and>
        el_node (cl_elections c ! e) = ca_from (cl_calls c ! k) \<and> el_term (cl_elections c ! e) = va_Term a \<and>
        va_CandidateId a = ca_from (cl_calls c ! k) \<and> ca_to (cl_calls c ! k) \<noteq> ca_from (cl_calls c ! k)) \<and>
     (\<forall>k<length (cl_calls c). \<forall>l<length (cl_calls c). \<forall>e a b. ca_call (cl_calls c ! k) = VoteCall e a \<longrightarrow>
        ca_call (cl_calls c ! l) = VoteCall e b \<longrightarrow> ca_to (cl_calls c ! k) = ca_to (cl_calls c ! l) \<longrightarrow> k = l)"

definition well_formed_nodes :: "'r cluster \<Rightarrow> bool" where
  "well_formed_nodes c \<longleftrightarrow> (\<forall>i<length (cl_nodes c). rf_me (cl_nodes c ! i) = i) \<and>
     (\<forall>e<length (cl_elections c). el_node (cl_elections c ! e) < length (cl_nodes c))"

definition votes_remembered :: "'r cluster \<Rightarrow> bool" where
  "votes_remembered c \<longleftrightarrow> (\<forall>v t n. voted c v t n \<longrightarrow> v < length (cl_nodes c) \<and> remembers t n (cl_nodes c ! v)) \<and>
     (\<forall>v t n m. voted c v t n \<longrightarrow> voted c v t m \<longrightarrow> n = m)"

definition votes_counted :: "'r cluster \<Rightarrow> bool" where
  "votes_counted c \<longleftrightarrow> (\<forall>e<length (cl_elections c). el_count (cl_elections c ! e) \<le> 1 + card (counted_calls c e))"

definition elected :: "'r cluster \<Rightarrow> nat \<Rightarrow> nat \<Rightarrow> bool" where
  "elected c n t \<longleftrightarrow> (\<exists>e<length (cl_elections c). el_node (cl_elections c ! e) = n \<and>
     el_term (cl_elections c ! e) = t \<and> majority c \<le> el_count (cl_elections c ! e))"

definition cluster_inv :: "'r cluster \<Rightarrow> bool" where
  "cluster_inv c \<longleftrightarrow> well_formed_calls c \<and> well_formed_nodes c \<and> votes_remembered c \<and> votes_counted c \<and>
     (\<forall>n t. leads c n t \<longrightarrow> elected c n t)"

section \<open>Two majorities\<close>

lemma well_formed_callD:
  assumes "well_formed_calls c" "k < length (cl_calls c)"
  shows "ca_from (cl_calls c ! k) < length (cl_nodes c)" "ca_to (cl_calls c ! k) < length (cl_nodes c)"
  using assms unfolding well_formed_calls_def by simp_all

lemma well_formed_voteD:
  assumes "well_formed_calls c" "k < length (cl_calls c)" "ca_call (cl_calls c ! k) = VoteCall e a"
  shows "e < length (cl_elections c)" "el_node (cl_elections c ! e) = ca_from (cl_calls c ! k)"
    "el_term (cl_elections c ! e) = va_Term a" "va_CandidateId a = ca_from (cl_calls c ! k)"
    "ca_to (cl_calls c ! k) \<noteq> ca_from (cl_calls c ! k)"
proof -
  from assms(1) have "\<forall>k<length (cl_calls c). \<forall>e a. ca_call (cl_calls c ! k) = VoteCall e a \<longrightarrow>
      e < length (cl_elections c) \<and>
      el_node (cl_elections c ! e) = ca_from (cl_calls c ! k) \<and> el_term (cl_elections c ! e) = va_Term a \<and>
      va_CandidateId a = ca_from (cl_calls c ! k) \<and> ca_to (cl_calls c ! k) \<noteq> ca_from (cl_calls c ! k)"
    unfolding well_formed_calls_def by (elim conjE)
  with assms(2,3) show "e < length (cl_elections c)" "el_node (cl_elections c ! e) = ca_from (cl_calls c ! k)"
    "el_term (cl_elections c ! e) = va_Term a" "va_CandidateId a = ca_from (cl_calls c ! k)"
    "ca_to (cl_calls c ! k) \<noteq> ca_from (cl_calls c ! k)" by blast+
qed

lemma well_formed_calls_distinct:
  assumes "well_formed_calls c" "k < length (cl_calls c)" "l < length (cl_calls c)"
    "ca_call (cl_calls c ! k) = VoteCall e a" "ca_call (cl_calls c ! l) = VoteCall e b"
    "ca_to (cl_calls c ! k) = ca_to (cl_calls c ! l)"
  shows "k = l"
  using assms unfolding well_formed_calls_def by blast

lemma finite_counted_calls [simp]: "finite (counted_calls c e)"
  by (simp add: counted_calls_def)

text \<open>The peers that voted in an election that was won.\<close>

lemma elected_voters:
  assumes inv: "cluster_inv c" and "elected c n t"
  obtains V where "V \<subseteq> {v. v < length (cl_nodes c) \<and> voted c v t n}" "majority c \<le> card V"
proof -
  obtain e where e: "e < length (cl_elections c)" "el_node (cl_elections c ! e) = n"
      "el_term (cl_elections c ! e) = t" "majority c \<le> el_count (cl_elections c ! e)"
    using assms by (auto simp: elected_def)
  have wf: "well_formed_calls c" "well_formed_nodes c" "votes_counted c"
    using inv by (simp_all add: cluster_inv_def)
  let ?to = "\<lambda>k. ca_to (cl_calls c ! k)"
  have inj: "inj_on ?to (counted_calls c e)"
    using well_formed_calls_distinct [OF wf(1)] by (intro inj_onI) (auto simp: counted_calls_def)
  have notn: "n \<notin> ?to ` counted_calls c e"
    using well_formed_voteD(2,5) [OF wf(1)] e by (fastforce simp: counted_calls_def)
  have sub: "insert n (?to ` counted_calls c e) \<subseteq> {v. v < length (cl_nodes c) \<and> voted c v t n}"
  proof
    fix v assume "v \<in> insert n (?to ` counted_calls c e)"
    then consider "v = n" | k where "k \<in> counted_calls c e" "v = ?to k" by blast
    then show "v \<in> {v. v < length (cl_nodes c) \<and> voted c v t n}"
    proof cases
      case 1
      then show ?thesis using e wf(2) by (auto simp: voted_def stood_def well_formed_nodes_def)
    next
      case 2
      then obtain a where a: "k < length (cl_calls c)" "ca_call (cl_calls c ! k) = VoteCall e a"
        "vote_counted (ca_stage (cl_calls c ! k))" by (auto simp: counted_calls_def)
      have "granted (ca_stage (cl_calls c ! k))"
        using a(3) by (auto simp: granted_def vote_counted_def split: call_stage.splits raft_reply.splits)
      moreover have "v < length (cl_nodes c)" "va_Term a = t" "va_CandidateId a = n"
        using well_formed_callD(2) [OF wf(1) a(1)] well_formed_voteD(2-4) [OF wf(1) a(1,2)] 2 e by simp_all
      ultimately have "v < length (cl_nodes c)" "answered c v t n"
        using a 2 unfolding answered_def by blast+
      then show ?thesis by (simp add: voted_def)
    qed
  qed
  have "card (insert n (?to ` counted_calls c e)) = 1 + card (counted_calls c e)"
    using notn by (simp add: card_image [OF inj])
  also have "\<dots> \<ge> majority c" using wf(3) e by (auto simp: votes_counted_def intro: order_trans)
  finally have "majority c \<le> card (insert n (?to ` counted_calls c e))" .
  with sub show thesis by (rule that)
qed

lemma majorities_meet:
  "N div 2 + 1 \<le> a \<Longrightarrow> N div 2 + 1 \<le> b \<Longrightarrow> u \<le> N \<Longrightarrow> a + b = u + i \<Longrightarrow> 0 < i" for N :: nat
  by linarith

lemma elected_unique:
  assumes inv: "cluster_inv c" and "elected c n t" "elected c m t"
  shows "n = m"
proof -
  obtain V where V: "V \<subseteq> {v. v < length (cl_nodes c) \<and> voted c v t n}" "majority c \<le> card V"
    by (rule elected_voters [OF inv assms(2)])
  obtain W where W: "W \<subseteq> {v. v < length (cl_nodes c) \<and> voted c v t m}" "majority c \<le> card W"
    by (rule elected_voters [OF inv assms(3)])
  have sub: "V \<union> W \<subseteq> {..<length (cl_nodes c)}" using V W by auto
  then have fin: "finite V" "finite W" by (auto intro: finite_subset)
  have "card (V \<union> W) \<le> length (cl_nodes c)" using card_mono [OF _ sub] by simp
  moreover have "card V + card W = card (V \<union> W) + card (V \<inter> W)" by (rule card_Un_Int [OF fin])
  ultimately have "0 < card (V \<inter> W)" by (rule majorities_meet [OF V(2) [unfolded majority_def] W(2) [unfolded majority_def]])
  then obtain v where "v \<in> V" "v \<in> W" by (auto simp: card_gt_0_iff)
  then have "voted c v t n" "voted c v t m" using V W by auto
  then show ?thesis using inv unfolding cluster_inv_def votes_remembered_def by blast
qed

section \<open>Every step keeps the invariant\<close>

text \<open>Elections and calls are only added, and only their counts and stages change.\<close>

definition grows :: "'r cluster \<Rightarrow> 'r cluster \<Rightarrow> bool" where
  "grows c c' \<longleftrightarrow> length (cl_nodes c') = length (cl_nodes c) \<and>
     length (cl_elections c) \<le> length (cl_elections c') \<and> length (cl_calls c) \<le> length (cl_calls c') \<and>
     (\<forall>e<length (cl_elections c). el_node (cl_elections c' ! e) = el_node (cl_elections c ! e) \<and>
        el_term (cl_elections c' ! e) = el_term (cl_elections c ! e) \<and>
        el_count (cl_elections c ! e) \<le> el_count (cl_elections c' ! e)) \<and>
     (\<forall>k<length (cl_calls c). ca_from (cl_calls c' ! k) = ca_from (cl_calls c ! k) \<and>
        ca_to (cl_calls c' ! k) = ca_to (cl_calls c ! k) \<and> ca_call (cl_calls c' ! k) = ca_call (cl_calls c ! k) \<and>
        (vote_counted (ca_stage (cl_calls c ! k)) \<longrightarrow> vote_counted (ca_stage (cl_calls c' ! k))))"

lemma grows_refl [simp]: "grows c c"
  by (simp add: grows_def)

lemma grows_trans: "grows c1 c2 \<Longrightarrow> grows c2 c3 \<Longrightarrow> grows c1 c3"
  unfolding grows_def by (auto intro: order_trans)

lemma elected_grows: "elected c n t \<Longrightarrow> grows c c' \<Longrightarrow> elected c' n t"
  unfolding elected_def grows_def majority_def by (metis order_less_le_trans order_trans)

lemma well_formed_calls_grows:
  assumes g: "grows c c'" and len: "length (cl_calls c') = length (cl_calls c)" and wf: "well_formed_calls c"
  shows "well_formed_calls c'"
proof -
  have *: "ca_from (cl_calls c' ! k) = ca_from (cl_calls c ! k)" "ca_to (cl_calls c' ! k) = ca_to (cl_calls c ! k)"
      "ca_call (cl_calls c' ! k) = ca_call (cl_calls c ! k)" if "k < length (cl_calls c)" for k
    using g that unfolding grows_def by simp_all
  have e: "e < length (cl_elections c')" "el_node (cl_elections c' ! e) = el_node (cl_elections c ! e)"
      "el_term (cl_elections c' ! e) = el_term (cl_elections c ! e)" if "e < length (cl_elections c)" for e
    using g that unfolding grows_def by auto
  have N: "length (cl_nodes c') = length (cl_nodes c)" using g by (simp add: grows_def)
  show ?thesis
    unfolding well_formed_calls_def len N
    using well_formed_callD [OF wf] well_formed_voteD [OF wf] well_formed_calls_distinct [OF wf]
    by (auto simp: * e)
qed

lemma counted_calls_grows: "grows c c' \<Longrightarrow> counted_calls c e \<subseteq> counted_calls c' e"
  unfolding grows_def counted_calls_def by auto

text \<open>A step of the peer \<open>v\<close> keeps the invariant if it keeps its votes, if what becomes known of new votes
  is remembered by \<open>v\<close>, and if a new leader is elected.\<close>

lemma cluster_inv_step:
  assumes inv: "cluster_inv c" and g: "grows c c'"
    and wf: "well_formed_calls c'" "\<forall>e<length (cl_elections c'). el_node (cl_elections c' ! e) < length (cl_nodes c)"
    and nodes: "cl_nodes c' = (cl_nodes c)[v := rf]" "v < length (cl_nodes c)" "rf_me rf = rf_me (cl_nodes c ! v)"
    and mem: "\<And>t n. remembers t n (cl_nodes c ! v) \<Longrightarrow> remembers t n rf"
    and lead: "rf_currentRole rf = Leader \<Longrightarrow> rf_currentRole (cl_nodes c ! v) = Leader \<and>
      rf_currentTerm rf = rf_currentTerm (cl_nodes c ! v) \<or> elected c' v (rf_currentTerm rf)"
    and new: "\<And>u t n. voted c' u t n \<Longrightarrow> voted c u t n \<or> u = v \<and> t = rf_currentTerm rf \<and> remembers t n rf"
    and cnt: "votes_counted c'"
  shows "cluster_inv c'"
proof -
  have wn: "well_formed_nodes c" and vr: "votes_remembered c" and ld: "\<And>n t. leads c n t \<Longrightarrow> elected c n t"
    using inv by (simp_all add: cluster_inv_def)
  have N: "length (cl_nodes c') = length (cl_nodes c)" by (simp add: nodes)
  have node: "cl_nodes c' ! u = (if u = v then rf else cl_nodes c ! u)" for u
    using nodes by simp
  have mem': "u < length (cl_nodes c)" "remembers t n (cl_nodes c' ! u)" if "voted c' u t n" for u t n
  proof -
    have old: "u < length (cl_nodes c) \<and> remembers t n (cl_nodes c ! u)" if "voted c u t n"
      using vr that unfolding votes_remembered_def by blast
    from new [OF that] show "u < length (cl_nodes c)" "remembers t n (cl_nodes c' ! u)"
      using old mem nodes(2) by (auto simp: node)
  qed
  have "n = m" if "voted c' u t n" "voted c' u t m" for u t n m
  proof (cases "u = v \<and> t = rf_currentTerm rf")
    case True
    then have "remembers t n rf" "remembers t m rf" using mem'(2) [OF that(1)] mem'(2) [OF that(2)] by (simp_all add: node)
    with True show ?thesis by (simp add: remembers_def)
  next
    case False
    then have "voted c u t n" "voted c u t m" using new that by blast+
    then show ?thesis using vr unfolding votes_remembered_def by blast
  qed
  then have "votes_remembered c'" using mem' unfolding votes_remembered_def N by blast
  moreover have "well_formed_nodes c'"
    using wn wf(2) nodes(2,3) by (simp add: well_formed_nodes_def node N)
  moreover have "elected c' n t" if l: "leads c' n t" for n t
  proof (cases "leads c n t")
    case True
    then show ?thesis by (rule elected_grows [OF ld g])
  next
    case False
    then have "n = v" using l by (auto simp: leads_def node N split: if_split_asm)
    with l False lead nodes show ?thesis by (auto simp: leads_def node N)
  qed
  ultimately show ?thesis using wf cnt by (simp add: cluster_inv_def)
qed

lemma set_simps [simp]:
  "cl_nodes (set_node n rf c) = (cl_nodes c)[n := rf]" "cl_elections (set_node n rf c) = cl_elections c"
  "cl_calls (set_node n rf c) = cl_calls c"
  "cl_nodes (set_stage k st c) = cl_nodes c" "cl_elections (set_stage k st c) = cl_elections c"
  "cl_calls (set_stage k st c) = (cl_calls c)[k := (cl_calls c ! k)\<lparr>ca_stage := st\<rparr>]"
  "cl_nodes (set_count e m c) = cl_nodes c" "cl_calls (set_count e m c) = cl_calls c"
  "cl_elections (set_count e m c) = (cl_elections c)[e := (cl_elections c ! e)\<lparr>el_count := m\<rparr>]"
  by (simp_all add: set_node_def set_stage_def set_count_def)

lemma answered_stage:
  assumes "cl_calls c' = (cl_calls c)[k := (cl_calls c ! k)\<lparr>ca_stage := st\<rparr>]" "answered c' u t n"
  shows "answered c u t n \<or> granted st \<and> k < length (cl_calls c) \<and> (\<exists>e a. ca_call (cl_calls c ! k) = VoteCall e a \<and>
    ca_to (cl_calls c ! k) = u \<and> va_Term a = t \<and> va_CandidateId a = n)"
proof -
  obtain l e a where l: "l < length (cl_calls c)" "ca_call (cl_calls c' ! l) = VoteCall e a"
      "ca_to (cl_calls c' ! l) = u" "va_Term a = t" "va_CandidateId a = n" "granted (ca_stage (cl_calls c' ! l))"
    using assms unfolding answered_def by auto
  show ?thesis
  proof (cases "l = k")
    case True
    then show ?thesis using l assms(1) by auto
  next
    case False
    then have "cl_calls c' ! l = cl_calls c ! l" using assms(1) by simp
    with l show ?thesis unfolding answered_def by auto
  qed
qed

lemma stood_same:
  assumes "length (cl_elections c') = length (cl_elections c)"
    "\<And>e. e < length (cl_elections c) \<Longrightarrow> el_node (cl_elections c' ! e) = el_node (cl_elections c ! e) \<and>
       el_term (cl_elections c' ! e) = el_term (cl_elections c ! e)"
  shows "stood c' v t = stood c v t"
  using assms unfolding stood_def by auto

lemma cluster_invD:
  assumes "cluster_inv c"
  shows "well_formed_calls c" "\<And>i. i < length (cl_nodes c) \<Longrightarrow> rf_me (cl_nodes c ! i) = i"
    "\<And>e. e < length (cl_elections c) \<Longrightarrow> el_node (cl_elections c ! e) < length (cl_nodes c)"
    "\<And>e. e < length (cl_elections c) \<Longrightarrow> el_count (cl_elections c ! e) \<le> 1 + card (counted_calls c e)"
  using assms by (simp_all add: cluster_inv_def well_formed_nodes_def votes_counted_def)

lemma votes_counted_grows:
  assumes g: "grows c c'" and "votes_counted c"
    and "\<And>e. e < length (cl_elections c') \<Longrightarrow> el_count (cl_elections c' ! e) \<le> 1 \<or>
      e < length (cl_elections c) \<and> el_count (cl_elections c' ! e) \<le> el_count (cl_elections c ! e) \<or>
      e < length (cl_elections c) \<and> el_count (cl_elections c' ! e) \<le> 1 + el_count (cl_elections c ! e) \<and>
      (\<exists>k. k \<in> counted_calls c' e - counted_calls c e)"
  shows "votes_counted c'"
  unfolding votes_counted_def
proof (intro allI impI)
  fix e assume e: "e < length (cl_elections c')"
  note sub = counted_calls_grows [OF g, of e]
  have le: "card (counted_calls c e) \<le> card (counted_calls c' e)" by (rule card_mono [OF _ sub]) simp
  have lt: "card (counted_calls c e) < card (counted_calls c' e)" if "k \<in> counted_calls c' e - counted_calls c e" for k
    using sub that by (intro psubset_card_mono) auto
  have old: "e < length (cl_elections c) \<Longrightarrow> el_count (cl_elections c ! e) \<le> 1 + card (counted_calls c e)"
    using assms(2) by (simp add: votes_counted_def)
  from assms(3) [OF e] show "el_count (cl_elections c' ! e) \<le> 1 + card (counted_calls c' e)"
    using le lt old by (elim disjE conjE exE; fastforce)
qed

text \<open>A call is handled.\<close>

lemma handle_cases:
  assumes "handle k c = Some c'"
  obtains r rf where "k < length (cl_calls c)" "ca_stage (cl_calls c ! k) = InFlight" "c' = answer k r rf c"
    "keeps_votes (cl_nodes c ! ca_to (cl_calls c ! k)) rf"
    "granted (Answered r) \<longrightarrow> (\<exists>e a. ca_call (cl_calls c ! k) = VoteCall e a \<and> va_Term a = rf_currentTerm rf \<and>
       remembers (va_Term a) (va_CandidateId a) rf)"
proof (cases "ca_call (cl_calls c ! k)")
  case (VoteCall e a)
  with assms obtain r rf where "RequestVote a (cl_nodes c ! ca_to (cl_calls c ! k)) = Some (r, rf)"
      "c' = answer k (VoteRep r) rf c" "k < length (cl_calls c)" "ca_stage (cl_calls c ! k) = InFlight"
    by (auto simp: handle_def Let_def split: if_split_asm)
  with VoteCall show ?thesis
    using RequestVote_keeps RequestVote_granted by (intro that [of "VoteRep r" rf]) auto
next
  case (AppendCall a)
  with assms show ?thesis
    by (auto simp: handle_def Let_def split: if_split_asm intro!: that AppendEntries_keeps)
next
  case (SnapshotCall a)
  with assms show ?thesis
    by (auto simp: handle_def Let_def split: if_split_asm intro!: that InstallSnapshot_keeps)
qed

lemma handle_inv:
  assumes inv: "cluster_inv c" and "handle k c = Some c'"
  shows "cluster_inv c' \<and> grows c c'"
proof -
  obtain r rf where k: "k < length (cl_calls c)" "ca_stage (cl_calls c ! k) = InFlight" and c': "c' = answer k r rf c"
    and kp: "keeps_votes (cl_nodes c ! ca_to (cl_calls c ! k)) rf"
    and gr: "granted (Answered r) \<longrightarrow> (\<exists>e a. ca_call (cl_calls c ! k) = VoteCall e a \<and> va_Term a = rf_currentTerm rf \<and>
       remembers (va_Term a) (va_CandidateId a) rf)"
    by (rule handle_cases [OF assms(2)])
  let ?v = "ca_to (cl_calls c ! k)"
  have calls: "cl_calls c' = (cl_calls c)[k := (cl_calls c ! k)\<lparr>ca_stage := Answered r\<rparr>]"
      "cl_elections c' = cl_elections c" "cl_nodes c' = (cl_nodes c)[?v := rf]"
    by (simp_all add: c' answer_def)
  have g: "grows c c'"
    using k by (auto simp: grows_def calls nth_list_update)
  have "voted c u t n \<or> u = ?v \<and> t = rf_currentTerm rf \<and> remembers t n rf" if "voted c' u t n" for u t n
    using that answered_stage [OF calls(1), of u t n] gr stood_same [of c' c u t]
    by (auto simp: voted_def calls)
  moreover have "votes_counted c'"
    using inv by (intro votes_counted_grows [OF g]) (auto simp: calls cluster_inv_def)
  moreover have "well_formed_calls c'"
    using cluster_invD(1) [OF inv] by (rule well_formed_calls_grows [OF g, rotated]) (simp add: calls)
  moreover have "?v < length (cl_nodes c)" by (rule well_formed_callD(2) [OF cluster_invD(1) [OF inv] k(1)])
  ultimately have "cluster_inv c'"
    using kp cluster_invD(3) [OF inv]
    by (intro cluster_inv_step [OF inv g, of ?v rf]) (auto simp: calls keeps_votes_def)
  with g show ?thesis by simp
qed

text \<open>A step of a peer that touches neither elections nor calls, or only closes a call whose votes do not
  count.\<close>

lemma quiet_step_inv:
  assumes inv: "cluster_inv c" and v: "v < length (cl_nodes c)" and kp: "keeps_votes (cl_nodes c ! v) rf"
    and c': "cl_nodes c' = (cl_nodes c)[v := rf]" "cl_elections c' = cl_elections c"
      "length (cl_calls c') = length (cl_calls c)"
      "\<And>k. k < length (cl_calls c) \<Longrightarrow> ca_from (cl_calls c' ! k) = ca_from (cl_calls c ! k) \<and>
        ca_to (cl_calls c' ! k) = ca_to (cl_calls c ! k) \<and> ca_call (cl_calls c' ! k) = ca_call (cl_calls c ! k) \<and>
        granted (ca_stage (cl_calls c' ! k)) = granted (ca_stage (cl_calls c ! k)) \<and>
        (vote_counted (ca_stage (cl_calls c ! k)) \<longrightarrow> vote_counted (ca_stage (cl_calls c' ! k)))"
  shows "cluster_inv c' \<and> grows c c'"
proof -
  have g: "grows c c'" using c' by (simp add: grows_def)
  have "voted c' u t n = voted c u t n" for u t n
    using c'(2-4) by (auto simp: voted_def stood_def answered_def)
  moreover have "votes_counted c'"
    using inv by (intro votes_counted_grows [OF g]) (auto simp: c' cluster_inv_def)
  moreover have "well_formed_calls c'"
    using cluster_invD(1) [OF inv] by (rule well_formed_calls_grows [OF g c'(3)])
  ultimately have "cluster_inv c'"
    using kp v cluster_invD(3) [OF inv]
    by (intro cluster_inv_step [OF inv g, of v rf]) (auto simp: c' keeps_votes_def)
  with g show ?thesis by simp
qed

lemma local_step_inv:
  assumes "cluster_inv c" "local_step n f c = Some c'" "\<And>rf rf'. f rf = Some rf' \<Longrightarrow> keeps_votes rf rf'"
  shows "cluster_inv c' \<and> grows c c'"
proof -
  obtain rf where "n < length (cl_nodes c)" "f (cl_nodes c ! n) = Some rf" "c' = set_node n rf c"
    using assms(2) by (auto simp: local_step_def split: if_split_asm)
  then show ?thesis using assms(3) by (intro quiet_step_inv [OF assms(1), of n rf]) auto
qed

lemma restart_inv:
  assumes "cluster_inv c" "n < length (cl_nodes c)"
  shows "cluster_inv (restart n c) \<and> grows c (restart n c)"
  using MakeRaft_keeps [OF cluster_invD(2) [OF assms]]
  by (intro quiet_step_inv [OF assms]) (simp_all add: restart_def)

text \<open>A reply to a vote is processed.\<close>

lemma vote_reply_inv:
  assumes inv: "cluster_inv c" and k: "k < length (cl_calls c)" "ca_call (cl_calls c ! k) = VoteCall e a"
      "ca_stage (cl_calls c ! k) = Answered (VoteRep r)"
    and vr: "voteReply (length (cl_nodes c)) (va_Term a) r (el_count (cl_elections c ! e))
      (cl_nodes c ! ca_from (cl_calls c ! k)) = (m, rf)"
    and now: "va_Term a < vr_Term r \<longrightarrow> rf_currentTerm (cl_nodes c ! ca_from (cl_calls c ! k)) < vr_Term r"
    and c': "c' = set_stage k (Processed (VoteRep r)) (set_count e m (set_node (ca_from (cl_calls c ! k)) rf c))"
  shows "cluster_inv c' \<and> grows c c'"
proof -
  let ?v = "ca_from (cl_calls c ! k)"
  note kp = voteReply_keeps [OF vr now] and wf = cluster_invD(1) [OF inv]
  note e = well_formed_voteD [OF wf k(1,2)] and v = well_formed_callD(1) [OF wf k(1)]
  have calls: "cl_calls c' = (cl_calls c)[k := (cl_calls c ! k)\<lparr>ca_stage := Processed (VoteRep r)\<rparr>]"
      "cl_elections c' = (cl_elections c)[e := (cl_elections c ! e)\<lparr>el_count := m\<rparr>]"
      "cl_nodes c' = (cl_nodes c)[?v := rf]"
    by (simp_all add: c')
  have g: "grows c c'"
    using k kp(4) e(1) by (auto simp: grows_def calls nth_list_update)
  have "answered c' u t n \<Longrightarrow> answered c u t n" for u t n
    using answered_stage [OF calls(1), of u t n] k unfolding answered_def by auto
  moreover have "stood c' u t = stood c u t" for u t
    using e(1) by (intro stood_same) (auto simp: calls nth_list_update)
  ultimately have "voted c' u t n \<Longrightarrow> voted c u t n" for u t n
    unfolding voted_def by blast
  moreover have "votes_counted c'"
  proof (rule votes_counted_grows [OF g])
    show "votes_counted c" using inv by (simp add: cluster_inv_def)
    fix d assume d: "d < length (cl_elections c')"
    have "vr_VoteGranted r \<Longrightarrow> k \<in> counted_calls c' e - counted_calls c e"
      using k by (auto simp: counted_calls_def calls)
    then show "el_count (cl_elections c' ! d) \<le> 1 \<or>
      d < length (cl_elections c) \<and> el_count (cl_elections c' ! d) \<le> el_count (cl_elections c ! d) \<or>
      d < length (cl_elections c) \<and> el_count (cl_elections c' ! d) \<le> 1 + el_count (cl_elections c ! d) \<and>
      (\<exists>k. k \<in> counted_calls c' d - counted_calls c d)"
      using d kp(5) by (cases "d = e"; cases "vr_VoteGranted r") (auto simp: calls)
  qed
  moreover have "well_formed_calls c'"
    using wf by (rule well_formed_calls_grows [OF g, rotated]) (simp add: calls)
  moreover have "rf_currentRole rf = Leader \<Longrightarrow> rf_currentRole (cl_nodes c ! ?v) = Leader \<and>
      rf_currentTerm rf = rf_currentTerm (cl_nodes c ! ?v) \<or> elected c' ?v (rf_currentTerm rf)"
  proof -
    assume "rf_currentRole rf = Leader"
    from kp(3) [OF this] show ?thesis
    proof (elim disjE)
      assume "rf_currentTerm rf = va_Term a \<and> length (cl_nodes c) div 2 + 1 \<le> m"
      then have "elected c' ?v (rf_currentTerm rf)"
        using e unfolding elected_def majority_def by (intro exI [of _ e]) (simp add: calls)
      then show ?thesis ..
    qed simp
  qed
  moreover have "\<forall>d<length (cl_elections c'). el_node (cl_elections c' ! d) < length (cl_nodes c)"
    using cluster_invD(3) [OF inv] e(1) by (auto simp: calls nth_list_update)
  ultimately have "cluster_inv c'"
    using kp(1,2) v by (intro cluster_inv_step [OF inv g, of ?v rf]) (auto simp: calls)
  with g show ?thesis by simp
qed

lemma receive_inv:
  assumes inv: "cluster_inv c" and rc: "receive_reply k c = Some c'" and nw: "news (Reply k) c"
  shows "cluster_inv c' \<and> grows c c'"
proof -
  have k: "k < length (cl_calls c)" using rc by (simp add: receive_reply_def split: if_split_asm)
  have v: "ca_from (cl_calls c ! k) < length (cl_nodes c)"
    by (rule well_formed_callD(1) [OF cluster_invD(1) [OF inv] k])
  note step = quiet_step_inv [OF inv v]
  show ?thesis
  proof (cases "ca_call (cl_calls c ! k)")
    case (VoteCall e a)
    with rc obtain r m rf where r: "ca_stage (cl_calls c ! k) = Answered (VoteRep r)"
        "voteReply (length (cl_nodes c)) (va_Term a) r (el_count (cl_elections c ! e))
          (cl_nodes c ! ca_from (cl_calls c ! k)) = (m, rf)"
        "c' = set_stage k (Processed (VoteRep r)) (set_count e m (set_node (ca_from (cl_calls c ! k)) rf c))"
      by (auto simp: receive_reply_def Let_def split: if_split_asm call_stage.split_asm raft_reply.split_asm prod.split_asm)
    show ?thesis
      using nw VoteCall r(1) by (intro vote_reply_inv [OF inv k VoteCall r(1,2) _ r(3)]) (simp add: news_def Let_def)
  next
    case (AppendCall a)
    with rc obtain r where r: "ca_stage (cl_calls c ! k) = Answered (AppendRep r)"
        "c' = set_stage k (Processed (AppendRep r)) (set_node (ca_from (cl_calls c ! k))
          (appendReply (length (cl_nodes c)) (ca_to (cl_calls c ! k)) a r (cl_nodes c ! ca_from (cl_calls c ! k))) c)"
      by (auto simp: receive_reply_def Let_def split: if_split_asm call_stage.split_asm raft_reply.split_asm)
    show ?thesis
      using nw AppendCall r(1) k
      by (intro step [OF appendReply_keeps]) (auto simp: r(2) news_def Let_def nth_list_update)
  next
    case (SnapshotCall a)
    with rc obtain t where r: "ca_stage (cl_calls c ! k) = Answered (SnapshotRep t)"
        "c' = set_stage k (Processed (SnapshotRep t)) (set_node (ca_from (cl_calls c ! k))
          (snapshotReply (ca_to (cl_calls c ! k)) a t (cl_nodes c ! ca_from (cl_calls c ! k))) c)"
      by (auto simp: receive_reply_def Let_def split: if_split_asm call_stage.split_asm raft_reply.split_asm)
    show ?thesis
      using nw SnapshotCall r(1) k
      by (intro step [OF snapshotReply_keeps]) (auto simp: r(2) news_def Let_def nth_list_update)
  qed
qed

text \<open>New calls, of a new election or of none.\<close>

lemma appended_calls_distinct:
  assumes wf: "well_formed_calls c" and calls: "cl_calls c' = cl_calls c @ xs"
    and vote: "\<And>x e a. x \<in> set xs \<Longrightarrow> ca_call x = VoteCall e a \<Longrightarrow> length (cl_elections c) \<le> e"
    and dist: "distinct (map ca_to xs)"
    and kl: "k < length (cl_calls c')" "l < length (cl_calls c')" "ca_call (cl_calls c' ! k) = VoteCall e a"
    "ca_call (cl_calls c' ! l) = VoteCall e b" "ca_to (cl_calls c' ! k) = ca_to (cl_calls c' ! l)"
  shows "k = l"
proof -
  have side: "i < length (cl_calls c) \<longleftrightarrow> e < length (cl_elections c)"
    if "i < length (cl_calls c')" "ca_call (cl_calls c' ! i) = VoteCall e d" for i d
  proof (cases "i < length (cl_calls c)")
    case True
    then show ?thesis using that well_formed_voteD(1) [OF wf True] by (simp add: calls nth_append)
  next
    case False
    then have "cl_calls c' ! i \<in> set xs" using that(1) by (simp add: calls nth_append)
    from vote [OF this that(2)] False show ?thesis by simp
  qed
  show ?thesis
  proof (cases "e < length (cl_elections c)")
    case True
    then have "k < length (cl_calls c)" "l < length (cl_calls c)" using side kl by blast+
    then show ?thesis using kl well_formed_calls_distinct [OF wf] by (simp add: calls nth_append)
  next
    case False
    then have ge: "\<not> k < length (cl_calls c)" "\<not> l < length (cl_calls c)" using side kl by blast+
    then have "k - length (cl_calls c) = l - length (cl_calls c)"
      using kl dist by (auto simp: calls nth_append nth_eq_iff_index_eq [symmetric])
    with ge show ?thesis by simp
  qed
qed

lemma well_formed_calls_append:
  assumes wf: "well_formed_calls c" and N: "length (cl_nodes c') = length (cl_nodes c)"
    and calls: "cl_calls c' = cl_calls c @ xs" and els: "cl_elections c' = cl_elections c @ es"
    and ends: "\<And>x. x \<in> set xs \<Longrightarrow> ca_from x < length (cl_nodes c) \<and> ca_to x < length (cl_nodes c)"
    and vote: "\<And>x e a. x \<in> set xs \<Longrightarrow> ca_call x = VoteCall e a \<Longrightarrow> length (cl_elections c) \<le> e \<and>
      e < length (cl_elections c') \<and> el_node (cl_elections c' ! e) = ca_from x \<and>
      el_term (cl_elections c' ! e) = va_Term a \<and> va_CandidateId a = ca_from x \<and> ca_to x \<noteq> ca_from x"
    and dist: "distinct (map ca_to xs)"
  shows "well_formed_calls c'"
proof -
  have nth: "P (cl_calls c' ! k)" if "k < length (cl_calls c')" "k < length (cl_calls c) \<Longrightarrow> P (cl_calls c ! k)"
    "\<And>x. x \<in> set xs \<Longrightarrow> P x" for P k
    using that by (cases "k < length (cl_calls c)") (simp_all add: calls nth_append)
  have old: "cl_elections c' ! e = cl_elections c ! e" if "e < length (cl_elections c)" for e
    using that by (simp add: els nth_append)
  have ge: "length (cl_elections c) \<le> e" if "x \<in> set xs" "ca_call x = VoteCall e a" for x e a
    using vote [OF that] by blast
  have "\<forall>k<length (cl_calls c'). \<forall>l<length (cl_calls c'). \<forall>e a b. ca_call (cl_calls c' ! k) = VoteCall e a \<longrightarrow>
      ca_call (cl_calls c' ! l) = VoteCall e b \<longrightarrow> ca_to (cl_calls c' ! k) = ca_to (cl_calls c' ! l) \<longrightarrow> k = l"
    by (intro allI impI) (rule appended_calls_distinct [OF wf calls ge dist], assumption+)
  moreover have "ca_from (cl_calls c' ! k) < length (cl_nodes c) \<and> ca_to (cl_calls c' ! k) < length (cl_nodes c)"
    if "k < length (cl_calls c')" for k
    by (rule nth [OF that]) (simp_all add: well_formed_callD [OF wf] ends)
  moreover have "\<forall>e a. ca_call (cl_calls c' ! k) = VoteCall e a \<longrightarrow> e < length (cl_elections c') \<and>
        el_node (cl_elections c' ! e) = ca_from (cl_calls c' ! k) \<and> el_term (cl_elections c' ! e) = va_Term a \<and>
        va_CandidateId a = ca_from (cl_calls c' ! k) \<and> ca_to (cl_calls c' ! k) \<noteq> ca_from (cl_calls c' ! k)"
    if k: "k < length (cl_calls c')" for k
  proof (rule nth [OF k])
    fix x assume "x \<in> set xs"
    then show "\<forall>e a. ca_call x = VoteCall e a \<longrightarrow> e < length (cl_elections c') \<and>
        el_node (cl_elections c' ! e) = ca_from x \<and> el_term (cl_elections c' ! e) = va_Term a \<and>
        va_CandidateId a = ca_from x \<and> ca_to x \<noteq> ca_from x" using vote by blast
  next
    assume k: "k < length (cl_calls c)"
    show "\<forall>e a. ca_call (cl_calls c ! k) = VoteCall e a \<longrightarrow> e < length (cl_elections c') \<and>
        el_node (cl_elections c' ! e) = ca_from (cl_calls c ! k) \<and> el_term (cl_elections c' ! e) = va_Term a \<and>
        va_CandidateId a = ca_from (cl_calls c ! k) \<and> ca_to (cl_calls c ! k) \<noteq> ca_from (cl_calls c ! k)"
    proof (intro allI impI)
      fix e a assume "ca_call (cl_calls c ! k) = VoteCall e a"
      note v = well_formed_voteD [OF wf k this]
      have len: "e < length (cl_elections c')" using v(1) by (simp add: els)
      show "e < length (cl_elections c') \<and>
        el_node (cl_elections c' ! e) = ca_from (cl_calls c ! k) \<and> el_term (cl_elections c' ! e) = va_Term a \<and>
        va_CandidateId a = ca_from (cl_calls c ! k) \<and> ca_to (cl_calls c ! k) \<noteq> ca_from (cl_calls c ! k)"
        using v v(1)[THEN old] len by simp
    qed
  qed
  ultimately show ?thesis unfolding well_formed_calls_def N by blast
qed

lemma grows_append:
  assumes "length (cl_nodes c') = length (cl_nodes c)" "cl_calls c' = cl_calls c @ xs"
    "cl_elections c' = cl_elections c @ es"
  shows "grows c c'"
  using assms by (simp add: grows_def nth_append)

lemma answered_append:
  assumes "cl_calls c' = cl_calls c @ xs" "\<And>x. x \<in> set xs \<Longrightarrow> ca_stage x = InFlight" "answered c' v t n"
  shows "answered c v t n"
proof -
  obtain k e a where k: "k < length (cl_calls c')" "ca_call (cl_calls c' ! k) = VoteCall e a"
      "ca_to (cl_calls c' ! k) = v" "va_Term a = t" "va_CandidateId a = n" "granted (ca_stage (cl_calls c' ! k))"
    using assms(3) unfolding answered_def by blast
  have "k < length (cl_calls c)"
  proof (rule ccontr)
    assume "\<not> k < length (cl_calls c)"
    then have "cl_calls c' ! k \<in> set xs" using k(1) by (simp add: assms(1) nth_append)
    then show False using assms(2) k(6) by fastforce
  qed
  then show ?thesis using k unfolding answered_def by (auto simp: assms(1) nth_append)
qed

lemma timeout_inv:
  assumes inv: "cluster_inv c" and "timeout n c = Some c'"
  shows "cluster_inv c' \<and> grows c c'"
proof -
  let ?E = "length (cl_elections c)"
  obtain a rf where n: "n < length (cl_nodes c)" and se: "startElection (cl_nodes c ! n) = Some (a, rf)"
    and c': "c' = (set_node n rf c)\<lparr>cl_elections := cl_elections c @ [\<lparr>el_node = n, el_term = va_Term a, el_count = 1\<rparr>],
             cl_calls := cl_calls c @ map (send_call n (VoteCall ?E a)) (others n c)\<rparr>"
    using assms(2) by (auto simp: timeout_def split: if_split_asm option.split_asm)
  note st = startElection_remembers [OF se] and wf = cluster_invD(1) [OF inv] and me = cluster_invD(2) [OF inv n]
  have calls: "cl_calls c' = cl_calls c @ map (send_call n (VoteCall ?E a)) (others n c)"
      "cl_elections c' = cl_elections c @ [\<lparr>el_node = n, el_term = va_Term a, el_count = 1\<rparr>]"
      "cl_nodes c' = (cl_nodes c)[n := rf]" by (simp_all add: c')
  have g: "grows c c'" by (rule grows_append [OF _ calls(1,2)]) (simp add: calls(3))
  have "well_formed_calls c'"
  proof (rule well_formed_calls_append [OF wf _ calls(1,2)])
    show "distinct (map ca_to (map (send_call n (VoteCall ?E a)) (others n c)))"
      by (simp add: send_call_def others_def o_def)
  qed (use n st me in \<open>auto simp: calls send_call_def others_def\<close>)
  moreover have "voted c u t m \<or> u = n \<and> t = rf_currentTerm rf \<and> remembers t m rf" if v: "voted c' u t m" for u t m
  proof -
    have "answered c' u t m \<Longrightarrow> answered c u t m"
      by (rule answered_append [OF calls(1)]) (auto simp: send_call_def)
    moreover have "stood c' u t \<Longrightarrow> stood c u t \<or> u = n \<and> t = va_Term a"
      by (auto simp: stood_def calls nth_append less_Suc_eq)
    ultimately show ?thesis using v st me unfolding voted_def by auto
  qed
  moreover have "votes_counted c'"
    using inv by (intro votes_counted_grows [OF g]) (auto simp: calls cluster_inv_def nth_append)
  moreover have "\<forall>e<length (cl_elections c'). el_node (cl_elections c' ! e) < length (cl_nodes c)"
    using cluster_invD(3) [OF inv] n by (auto simp: calls nth_append)
  ultimately have "cluster_inv c'"
    using st(4,5) n by (intro cluster_inv_step [OF inv g, of n rf]) (auto simp: calls(3) keeps_votes_def)
  with g show ?thesis by simp
qed

lemma heartbeat_inv:
  assumes inv: "cluster_inv c" and "heartbeat n c = Some c'"
  shows "cluster_inv c' \<and> grows c c'"
proof -
  obtain xs where n: "n < length (cl_nodes c)"
    and xs: "those (map (heartbeat_call n (cl_nodes c ! n)) (others n c)) = Some xs"
    and c': "c' = c\<lparr>cl_calls := cl_calls c @ xs\<rparr>"
    using assms(2) by (auto simp: heartbeat_def split: if_split_asm)
  have shape: "map ca_to xs = ys \<and> (\<forall>x\<in>set xs. ca_from x = n \<and> ca_to x \<in> set ys \<and> ca_stage x = InFlight \<and>
      (\<forall>e a. ca_call x \<noteq> VoteCall e a))"
    if "those (map (heartbeat_call n rf) ys) = Some xs" for rf xs ys
    using that
    by (induction ys arbitrary: xs)
      (auto simp: heartbeat_call_def send_call_def split: option.split_asm sum.split_asm)
  note sh = shape [OF xs]
  have calls: "cl_calls c' = cl_calls c @ xs" "cl_elections c' = cl_elections c @ []" by (simp_all add: c')
  have g: "grows c c'" by (rule grows_append [OF _ calls]) (simp add: c')
  have to: "ca_to x < length (cl_nodes c)" if "x \<in> set xs" for x
    using sh that by (auto simp: others_def)
  have wf: "well_formed_calls c'"
  proof (rule well_formed_calls_append [OF cluster_invD(1) [OF inv] _ calls])
    show "distinct (map ca_to xs)" using sh by (simp add: others_def)
  qed (use sh n to in \<open>auto simp: c'\<close>)
  have "voted c' u t m \<Longrightarrow> voted c u t m" for u t m
    using answered_append [OF calls(1), of u t m] sh by (auto simp: voted_def stood_def c')
  moreover have "votes_counted c'"
    using inv by (intro votes_counted_grows [OF g]) (auto simp: c' cluster_inv_def)
  ultimately have "cluster_inv c'"
    using wf n cluster_invD(3) [OF inv]
    by (intro cluster_inv_step [OF inv g, of n "cl_nodes c ! n"]) (auto simp: c')
  with g show ?thesis by simp
qed

lemma cluster_step_inv:
  assumes "cluster_inv c" "cluster_step ev c = Some c'" "news ev c"
  shows "cluster_inv c' \<and> grows c c'"
proof (cases ev)
  case (Timeout n)
  with assms(2) show ?thesis by (auto intro!: timeout_inv [OF assms(1)])
next
  case (Handle k)
  with assms(2) show ?thesis by (auto intro!: handle_inv [OF assms(1)])
next
  case (Reply k)
  show ?thesis
    using assms(2,3) unfolding Reply by (intro receive_inv [OF assms(1), of k]) simp_all
next
  case (Heartbeat n)
  with assms(2) show ?thesis by (auto intro!: heartbeat_inv [OF assms(1)])
next
  case (Apply n)
  with assms(2) have "local_step n applier c = Some c'" by simp
  from local_step_inv [OF assms(1) this applier_keeps] show ?thesis by simp
next
  case (Crash n)
  with assms(2) restart_inv [OF assms(1), of n] show ?thesis by (simp split: if_split_asm)
qed (use assms(2) in \<open>auto intro!: local_step_inv [OF assms(1)] simp: StartCommand_keeps SnapshotAt_keeps\<close>)

lemma run_cluster_inv:
  "cluster_inv c \<Longrightarrow> run_cluster es c = Some c' \<Longrightarrow> all_news es c \<Longrightarrow> cluster_inv c' \<and> grows c c'"
proof (induction es arbitrary: c)
  case (Cons ev es)
  then obtain c1 where c1: "cluster_step ev c = Some c1" "run_cluster es c1 = Some c'"
    by (auto split: option.split_asm)
  have "cluster_inv c1 \<and> grows c c1" using cluster_step_inv [OF Cons.prems(1) c1(1)] Cons.prems(3) by simp
  moreover have "cluster_inv c' \<and> grows c1 c'"
    using Cons.IH [OF _ c1(2)] calculation Cons.prems(3) c1 by simp
  ultimately show ?case using grows_trans by blast
qed simp

lemma cluster_inv_init: "cluster_inv (initCluster n)"
  by (simp add: cluster_inv_def initCluster_def well_formed_calls_def well_formed_nodes_def votes_remembered_def
      votes_counted_def voted_def stood_def answered_def leads_def MakeRaft_def cong: conj_cong)

lemma run_cluster_append:
  "run_cluster (es @ fs) c = (case run_cluster es c of None \<Rightarrow> None | Some c' \<Rightarrow> run_cluster fs c')"
  by (induction es arbitrary: c) (auto split: option.split)

lemma all_news_append:
  "run_cluster es c = Some c' \<Longrightarrow> all_news (es @ fs) c \<longleftrightarrow> all_news es c \<and> all_news fs c'"
  by (induction es arbitrary: c) (auto split: option.split_asm)

text \<open>
  C14. Two peers that lead in the same term, at the same time or one after the other, are one peer, in
  every run with lost, delayed and reordered calls and replies and with crashes, provided that a reply
  that makes its caller step down has a higher term than the caller is in by then.\<close>

theorem one_leader_per_term:
  assumes "run_cluster es (initCluster peers) = Some c" "run_cluster fs c = Some c'"
    and "all_news (es @ fs) (initCluster peers)"
    and "leads c n t" "leads c' m t"
  shows "n = m"
proof -
  have inv: "cluster_inv c" "cluster_inv c' \<and> grows c c'"
    using run_cluster_inv [OF cluster_inv_init assms(1)] assms(3) run_cluster_inv [OF _ assms(2)]
    by (simp_all add: all_news_append [OF assms(1)])
  then have "elected c' n t" "elected c' m t"
    using assms(4,5) elected_grows unfolding cluster_inv_def by blast+
  then show ?thesis using elected_unique inv by blast
qed

lemmas cluster_evals = initCluster_def no_state_def MakeRaft_def timeout_def startElection_def handle_def
  receive_reply_def RequestVote_def voteReply_def answer_def set_stage_def set_node_def set_count_def others_def
  send_call_def persist_def entry_at_def lastLogIndex_def stepDown_def Let_def leads_def heartbeat_def
  heartbeat_call_def heartbeat_args_def AppendEntries_def first_of_term_def appendReply_def last_of_term_def
  advanceCommit_def replicated_at_def local_step_def StartCommand_def applier_def news_def

theorem one_leader_per_term_witness:
  "\<exists>c c' :: nat cluster. run_cluster [Timeout 0, Handle 0, Reply 0] (initCluster 3) = Some c \<and>
     run_cluster [Timeout 2, Handle 3, Heartbeat 0] c = Some c' \<and> (\<forall>m. leads c' m 1 = (m = 0))"
proof -
  define c :: "nat cluster" where "c = the (run_cluster [Timeout 0, Handle 0, Reply 0] (initCluster 3))"
  define c' where "c' = the (run_cluster [Timeout 2, Handle 3, Heartbeat 0] c)"
  have runs: "run_cluster [Timeout 0, Handle 0, Reply 0] (initCluster 3) = Some c"
      "run_cluster [Timeout 2, Handle 3, Heartbeat 0] c = Some c'" "leads c 0 1" "leads c' 0 1"
    unfolding c'_def c_def by (simp_all add: cluster_evals upt_rec)
  have "all_news ([Timeout 0, Handle 0, Reply 0] @ [Timeout 2, Handle 3, Heartbeat 0]) (initCluster 3 :: nat cluster)"
    by (simp add: cluster_evals upt_rec)
  with runs show ?thesis
    using one_leader_per_term [OF runs(1,2) _ runs(3)] by blast
qed

section \<open>What goes wrong\<close>

text \<open>Peer 0 asks for votes in term 1 and hears of term 2 twice: by a call, when it votes for 1, and then
  by the answer to its own call, when it forgets that.\<close>

definition late_reply_run :: "nat cluster_event list" where
  "late_reply_run = [Timeout 0, Timeout 1, Timeout 1, Handle 0, Handle 4, Reply 4, Reply 0,
     Timeout 2, Timeout 2, Handle 8, Reply 8]"

text \<open>
  C16. A late reply makes a peer vote twice. A peer has voted in its term \<open>T\<close> and refuses any other candidate of
  that term. Then it handles the reply to a call it made in an earlier term, from a peer that is in \<open>T\<close> by
  now, be it the reply to a vote, to entries or to a snapshot: it forgets its vote, and grants the vote of \<open>T\<close> to
  any candidate whose log is not behind its own.\<close>

theorem late_reply_votes_twice:
  assumes "rf_votedFor rf = Some x" "va_CandidateId a \<noteq> x" "va_Term a = rf_currentTerm rf"
    and "t < rf_currentTerm rf" "aa_Term ap = t" "sa_Term sn = t" "vr_Term vr = rf_currentTerm rf" "ar_Term ar = rf_currentTerm rf"
    and "entry_at rf (lastLogIndex rf) = Some e"
    and "le_Term e < va_LastLogTerm a \<or> le_Term e = va_LastLogTerm a \<and> lastLogIndex rf \<le> va_LastLogIndex a"
  shows "RequestVote a rf = Some (\<lparr>vr_Term = rf_currentTerm rf, vr_VoteGranted = False\<rparr>, rf) \<and>
    list_all (\<lambda>rf1. \<exists>rf2. RequestVote a rf1 = Some (\<lparr>vr_Term = rf_currentTerm rf, vr_VoteGranted = True\<rparr>, rf2) \<and>
        rf_votedFor rf2 = Some (va_CandidateId a) \<and> rf_currentTerm rf2 = rf_currentTerm rf)
      [snd (voteReply peers t vr count rf), appendReply peers i ap ar rf, snapshotReply i sn (rf_currentTerm rf) rf]"
proof -
  have down: "snd (voteReply peers t vr count rf) = stepDown (rf_currentTerm rf) rf"
    "appendReply peers i ap ar rf = stepDown (rf_currentTerm rf) rf"
    "snapshotReply i sn (rf_currentTerm rf) rf = stepDown (rf_currentTerm rf) rf"
    using assms(4-8) by (simp_all add: voteReply_def appendReply_def snapshotReply_def)
  have "entry_at (stepDown (rf_currentTerm rf) rf) k = entry_at rf k" "lastLogIndex (stepDown (rf_currentTerm rf) rf) = lastLogIndex rf" for k
    by (simp_all add: stepDown_def persist_def entry_at_def lastLogIndex_def)
  moreover have "rf_currentTerm (stepDown (rf_currentTerm rf) rf) = rf_currentTerm rf" "rf_votedFor (stepDown (rf_currentTerm rf) rf) = None"
    by (simp_all add: stepDown_def persist_def)
  ultimately show ?thesis
    using assms(1-3,9,10) by (auto simp: down RequestVote_def Let_def persist_def)
qed

lemma late_reply_votes_twice_witness:
  "\<exists>rf2. RequestVote \<lparr>va_Term = 2, va_CandidateId = 2, va_LastLogIndex = 0, va_LastLogTerm = 0\<rparr>
      (snd (voteReply 3 1 \<lparr>vr_Term = 2, vr_VoteGranted = False\<rparr> 1 ((MakeRaft 0 no_state :: nat raft)\<lparr>rf_currentTerm := 2, rf_votedFor := Some 1\<rparr>)))
    = Some (\<lparr>vr_Term = 2, vr_VoteGranted = True\<rparr>, rf2)"
  using late_reply_votes_twice [of "(MakeRaft 0 no_state :: nat raft)\<lparr>rf_currentTerm := 2, rf_votedFor := Some 1\<rparr>" 1
      "\<lparr>va_Term = 2, va_CandidateId = 2, va_LastLogIndex = 0, va_LastLogTerm = 0\<rparr>" 1
      "\<lparr>aa_Term = 1, aa_LeaderId = 0, aa_PrevLogIndex = 0, aa_PrevLogTerm = 0, aa_Entries = [], aa_LeaderCommit = 0\<rparr>"
      "\<lparr>sa_Term = 1, sa_LeaderId = 0, sa_LastIncludedIndex = 0, sa_LastIncludedTerm = 0, sa_Data = []\<rparr>"
      "\<lparr>vr_Term = 2, vr_VoteGranted = False\<rparr>" "\<lparr>ar_Term = 2, ar_Success = False, ar_XTerm = 0, ar_XIndex = 0, ar_XLen = 0\<rparr>"
      "\<lparr>le_Term = 0, le_Command = None\<rparr>" 3 1]
  by (auto simp: MakeRaft_def no_state_def entry_at_def lastLogIndex_def)

text \<open>And so two peers can lead in one term.\<close>

lemma two_leaders:
  "\<exists>c. run_cluster late_reply_run (initCluster 3) = Some c \<and> leads c 1 2 \<and> leads c 2 2"
  by (simp add: late_reply_run_def cluster_evals upt_rec)

text \<open>Peer 1 handles the second \<open>AppendEntries\<close> before the first.\<close>

definition reordered_run :: "nat cluster_event list" where
  "reordered_run = [Timeout 0, Handle 0, Reply 0,
     ClientStart 0 \<lparr>op_Req = 1, op_Id = 1\<rparr>, Heartbeat 0, ClientStart 0 \<lparr>op_Req = 2, op_Id = 2\<rparr>, Heartbeat 0,
     Handle 4, Reply 4, Apply 0, Handle 2,
     Timeout 1, Handle 7, Reply 7, ClientStart 1 \<lparr>op_Req = 3, op_Id = 1\<rparr>, Heartbeat 1, Handle 9, Reply 9,
     Heartbeat 1, Handle 11, Reply 11, Apply 1]"

lemma heartbeat_append:
  assumes "heartbeat_args i ld = Some (Inr a)"
  shows "aa_Term a = rf_currentTerm ld" "aa_LeaderCommit a = rf_commitIndex ld" "aa_PrevLogIndex a = rf_nextIndex ld ! i - 1"
    "\<exists>e. entry_at ld (aa_PrevLogIndex a) = Some e \<and> aa_PrevLogTerm a = le_Term e"
    "aa_Entries a = drop (rf_nextIndex ld ! i - rf_lastIncludedIndex ld) (rf_log ld)"
    "rf_lastIncludedIndex ld < rf_nextIndex ld ! i" "entry_at ld (rf_nextIndex ld ! i - 1) \<noteq> None"
  using assms by (auto simp: heartbeat_args_def Let_def split: if_splits option.splits)

text \<open>The vote in the term that follows.\<close>

lemma next_vote:
  assumes "entry_at rf (lastLogIndex rf) = Some e" "va_Term v = Suc (rf_currentTerm rf)"
  shows "\<exists>rf'. RequestVote v rf = Some (\<lparr>vr_Term = va_Term v, vr_VoteGranted =
    (le_Term e < va_LastLogTerm v \<or> le_Term e = va_LastLogTerm v \<and> lastLogIndex rf \<le> va_LastLogIndex v)\<rparr>, rf')"
proof -
  let ?rf = "persist (rf\<lparr>rf_currentTerm := Suc (rf_currentTerm rf), rf_currentRole := Follower, rf_votedFor := None\<rparr>)"
  have same: "lastLogIndex ?rf = lastLogIndex rf" "entry_at ?rf k = entry_at rf k" "rf_votedFor ?rf = None"
    "rf_currentTerm ?rf = Suc (rf_currentTerm rf)" for k
    by (simp_all add: lastLogIndex_def entry_at_def persist_def)
  show ?thesis
    using assms by (auto simp: RequestVote_def Let_def same)
qed

lemma entry_at_appended:
  "rf_log rf = xs @ ys \<Longrightarrow> k < length ys \<Longrightarrow> entry_at rf (rf_lastIncludedIndex rf + (length xs + k)) = Some (ys ! k)"
  by (simp add: entry_at_def)

lemma entry_at_last: "rf_log rf \<noteq> [] \<Longrightarrow> entry_at rf (lastLogIndex rf) = Some (last (rf_log rf))"
  by (cases "length (rf_log rf)") (simp_all add: entry_at_def lastLogIndex_def last_conv_nth)

text \<open>What is accepted, and when.\<close>

lemma append_accepted:
  assumes "AppendEntries a rf = Some (r, rf')" "ar_Success r"
  shows "aa_Term a = ar_Term r" "rf_currentTerm rf' = aa_Term a" "rf_lastIncludedIndex rf' = rf_lastIncludedIndex rf"
    "rf_lastIncludedIndex rf \<le> aa_PrevLogIndex a"
    "\<exists>e. entry_at rf (aa_PrevLogIndex a) = Some e \<and> le_Term e = aa_PrevLogTerm a"
    "rf_log rf' = take (aa_PrevLogIndex a - rf_lastIncludedIndex rf + 1) (rf_log rf) @ aa_Entries a"
    "rf_commitIndex rf' = (if rf_commitIndex rf < aa_LeaderCommit a then min (aa_LeaderCommit a) (lastLogIndex rf') else rf_commitIndex rf)"
  using assms by (auto simp: AppendEntries_def Let_def persist_def entry_at_def lastLogIndex_def split: if_splits option.splits)

lemma append_accepts:
  assumes "aa_Term a = rf_currentTerm rf" "aa_PrevLogIndex a \<le> lastLogIndex rf" "rf_lastIncludedIndex rf \<le> aa_PrevLogIndex a"
    "entry_at rf (aa_PrevLogIndex a) = Some e" "le_Term e = aa_PrevLogTerm a"
  shows "\<exists>r rf'. AppendEntries a rf = Some (r, rf') \<and> ar_Success r \<and> ps_log (rf_persisted rf') = rf_log rf'"
  using assms by (auto simp: AppendEntries_def Let_def persist_def entry_at_def lastLogIndex_def split: if_splits)

text \<open>
  C17. An older \<open>AppendEntries\<close> that is handled after a newer one cuts off what the newer one has added, although
  the leader counts the peer for it. A leader sends its entries, appends \<open>es\<close>, and sends again; the peer
  accepts the second call, and the leader notes that it has everything. Then the peer handles the first call,
  and accepts it: the entries \<open>es\<close> are gone from its log and from its disk, while its commit index stays at
  what it was; and a candidate without \<open>es\<close>, whom it would have refused before, gets its vote.\<close>

theorem older_append_cuts:
  assumes "es \<noteq> []" "ld' = ld\<lparr>rf_log := rf_log ld @ es\<rparr>" "rf_currentRole ld = Leader" "rf_commitIndex ld \<le> lastLogIndex ld"
    and "heartbeat_args i ld = Some (Inr a1)" "heartbeat_args i ld' = Some (Inr a2)" "i < length (rf_matchIndex ld)"
    and "AppendEntries a2 rf = Some (r2, rf2)" "ar_Success r2" "rf_commitIndex rf2 \<le> c"
    and "le_Term (last (rf_log ld)) = rf_currentTerm ld" "le_Term (last es) = rf_currentTerm ld"
    and "va_Term v = Suc (rf_currentTerm ld)" "va_LastLogIndex v = lastLogIndex ld" "va_LastLogTerm v = rf_currentTerm ld"
  shows "(\<forall>k<length es. entry_at rf2 (Suc (lastLogIndex ld) + k) = Some (es ! k)) \<and>
    rf_matchIndex (appendReply peers i a2 r2 ld') ! i = lastLogIndex ld + length es \<and>
    (\<exists>rf4. RequestVote v rf2 = Some (\<lparr>vr_Term = va_Term v, vr_VoteGranted = False\<rparr>, rf4)) \<and>
    (\<exists>r3 rf3 rf4. AppendEntries a1 (rf2\<lparr>rf_commitIndex := c\<rparr>) = Some (r3, rf3) \<and> ar_Success r3 \<and>
      lastLogIndex rf3 = lastLogIndex ld \<and> ps_log (rf_persisted rf3) = rf_log rf3 \<and> rf_commitIndex rf3 = c \<and>
      RequestVote v rf3 = Some (\<lparr>vr_Term = va_Term v, vr_VoteGranted = True\<rparr>, rf4))"
proof -
  let ?next = "rf_nextIndex ld ! i" and ?T = "rf_currentTerm ld"
  note a1 = heartbeat_append [OF assms(5)]
  have ld': "rf_nextIndex ld' = rf_nextIndex ld" "rf_lastIncludedIndex ld' = rf_lastIncludedIndex ld" "rf_currentTerm ld' = ?T"
    "rf_log ld' = rf_log ld @ es" "rf_commitIndex ld' = rf_commitIndex ld" "rf_matchIndex ld' = rf_matchIndex ld"
    "rf_currentRole ld' = Leader" by (simp_all add: assms(2,3))
  note a2 = heartbeat_append [OF assms(6), unfolded ld']
  note acc = append_accepted [OF assms(8,9)]
  have len: "?next - rf_lastIncludedIndex ld \<le> length (rf_log ld)" "rf_log ld \<noteq> []" "rf_lastIncludedIndex ld < ?next"
    using a1(6,7) by (auto simp: entry_at_def split: if_splits)
  have prev: "aa_PrevLogIndex a2 = aa_PrevLogIndex a1" "aa_PrevLogTerm a2 = aa_PrevLogTerm a1"
    "aa_Entries a2 = aa_Entries a1 @ es" "aa_LeaderCommit a2 = aa_LeaderCommit a1" "aa_Term a2 = aa_Term a1"
  proof -
    have "entry_at ld' (?next - 1) = entry_at ld (?next - 1)"
      using len a1(7) by (auto simp: entry_at_def ld' nth_append)
    then show "aa_PrevLogIndex a2 = aa_PrevLogIndex a1" "aa_PrevLogTerm a2 = aa_PrevLogTerm a1"
      "aa_Entries a2 = aa_Entries a1 @ es" "aa_LeaderCommit a2 = aa_LeaderCommit a1" "aa_Term a2 = aa_Term a1"
      using a1(1-5) a2(1-5) len by auto
  qed
  let ?p = "aa_PrevLogIndex a1"
  have last1: "?p + length (aa_Entries a1) = lastLogIndex ld" using a1(3,5) len by (simp add: lastLogIndex_def)
  let ?q = "?p - rf_lastIncludedIndex rf + 1"
  have q: "?q \<le> length (rf_log rf)" "rf_lastIncludedIndex rf \<le> ?p" using acc(4,5) prev by (auto simp: entry_at_def split: if_splits)
  have log2: "rf_log rf2 = take ?q (rf_log rf) @ aa_Entries a1 @ es" using acc(6) prev by simp
  have last2: "lastLogIndex rf2 = lastLogIndex ld + length es"
    using last1 q by (simp add: lastLogIndex_def log2 acc(3))
  have cur2: "rf_currentTerm rf2 = ?T" using acc(2) prev a1(1) by simp
  have new: "entry_at rf2 (Suc (lastLogIndex ld) + k) = Some (es ! k)" if "k < length es" for k
  proof -
    let ?l = "take ?q (rf_log rf) @ aa_Entries a1"
    have "length ?l = ?q + length (aa_Entries a1)" using q by simp
    then have i: "Suc (lastLogIndex ld) + k = rf_lastIncludedIndex rf + (length ?l + k)" using last1 q by simp
    have "rf_log rf2 = ?l @ es" by (simp add: log2)
    from entry_at_appended [OF this] that show ?thesis by (simp only: i acc(3) [symmetric])
  qed
  have "entry_at rf2 (lastLogIndex rf2) = Some (last es)"
    using new [of "length es - 1"] assms(1) last2 by (cases es rule: rev_cases) simp_all
  from next_vote [OF this, of v] have refused: "\<exists>rf4. RequestVote v rf2 = Some (\<lparr>vr_Term = va_Term v, vr_VoteGranted = False\<rparr>, rf4)"
    using assms(1,12-15) cur2 last2 by simp
  let ?rf = "rf2\<lparr>rf_commitIndex := c\<rparr>"
  obtain e where e: "entry_at rf ?p = Some e" "le_Term e = aa_PrevLogTerm a1" using acc(5) prev by auto
  have "entry_at ?rf ?p = Some e" using e q by (auto simp: entry_at_def log2 acc(3) nth_append split: if_splits)
  then obtain r3 rf3 where rf3: "AppendEntries a1 ?rf = Some (r3, rf3)" "ar_Success r3" "ps_log (rf_persisted rf3) = rf_log rf3"
    using append_accepts [of a1 ?rf e] e(2) cur2 a1(1) q(2) acc(3) last1 last2 by (auto simp: lastLogIndex_def)
  note acc3 = append_accepted [OF rf3(1,2)]
  have log3: "rf_log rf3 = take ?q (rf_log rf) @ aa_Entries a1" using acc3(6) q by (simp add: log2 acc(3))
  have last3: "lastLogIndex rf3 = lastLogIndex ld" using last1 q by (simp add: lastLogIndex_def log3 acc(3) acc3(3))
  have "rf_commitIndex ld \<le> c" using acc(7) assms(4,10) prev(4) a1(2) last2 by (auto simp: min_def split: if_splits)
  then have commit: "rf_commitIndex rf3 = c" using acc3(7) a1(2) by simp
  have "le_Term (last (rf_log rf3)) = ?T"
  proof (cases "aa_Entries a1 = []")
    case True
    then have p: "?p - rf_lastIncludedIndex ld = length (rf_log ld) - 1" using a1(3,5) len by simp
    have "aa_PrevLogTerm a1 = le_Term (last (rf_log ld))"
      using a1(4) len(2) by (auto simp: entry_at_def p last_conv_nth split: if_splits)
    moreover have "last (take (Suc n) xs) = xs ! n" if "Suc n \<le> length xs" for n and xs :: "'a log_entry list"
      using that by (simp add: take_Suc_conv_app_nth)
    from this [of "?p - rf_lastIncludedIndex rf" "rf_log rf"] have "last (rf_log rf3) = e"
      using True e(1) q by (auto simp: log3 entry_at_def split: if_splits)
    ultimately show ?thesis using e(2) assms(11) by simp
  next
    case False
    then have "last (rf_log rf3) = last (rf_log ld)" using a1(5) by (simp add: log3)
    then show ?thesis using assms(11) by simp
  qed
  moreover have "rf_log rf3 \<noteq> []" using q by (cases "rf_log rf") (simp_all add: log3)
  then have "entry_at rf3 (lastLogIndex rf3) = Some (last (rf_log rf3))"
    by (rule entry_at_last)
  ultimately have "\<exists>rf4. RequestVote v rf3 = Some (\<lparr>vr_Term = va_Term v, vr_VoteGranted = True\<rparr>, rf4)"
    using next_vote [of rf3 "last (rf_log rf3)" v] assms(13-15) acc3(2) a1(1) last3 by simp
  moreover have "rf_matchIndex (appendReply peers i a2 r2 ld') ! i = lastLogIndex ld + length es"
  proof -
    have "aa_Term a2 = ar_Term r2" "aa_Term a2 = ?T" using acc(1) a2(1) by simp_all
    then have "appendReply peers i a2 r2 ld' = advanceCommit peers (ld'\<lparr>rf_nextIndex := (rf_nextIndex ld')[i := Suc (lastLogIndex ld + length es)],
        rf_matchIndex := (rf_matchIndex ld')[i := lastLogIndex ld + length es]\<rparr>)"
      using assms(9) ld' prev last1 by (simp add: appendReply_def Let_def add.assoc [symmetric])
    then show ?thesis using assms(7) ld'(6) by (simp add: advanceCommit_def split: option.split)
  qed
  ultimately show ?thesis using new refused rf3 last3 commit by blast
qed

definition sending_leader :: "nat raft" where
  "sending_leader = (MakeRaft 0 no_state)\<lparr>rf_currentTerm := 1, rf_currentRole := Leader,
     rf_log := [\<lparr>le_Term = 0, le_Command = None\<rparr>, \<lparr>le_Term = 1, le_Command = Some \<lparr>op_Req = 1, op_Id = 1\<rparr>\<rparr>],
     rf_nextIndex := [1, 1, 1], rf_matchIndex := [0, 0, 0]\<rparr>"

theorem older_append_cuts_witness:
  "\<exists>a1 a2 r2 rf2 r3 rf3. heartbeat_args 1 sending_leader = Some (Inr a1) \<and>
     heartbeat_args 1 (sending_leader\<lparr>rf_log := rf_log sending_leader @
       [\<lparr>le_Term = 1, le_Command = Some \<lparr>op_Req = 2, op_Id = 2\<rparr>\<rparr>]\<rparr>) = Some (Inr a2) \<and>
     AppendEntries a2 ((MakeRaft 1 no_state)\<lparr>rf_currentTerm := 1\<rparr>) = Some (r2, rf2) \<and>
     AppendEntries a1 rf2 = Some (r3, rf3) \<and> ar_Success r3 \<and> lastLogIndex rf2 = 2 \<and> lastLogIndex rf3 = 1"
proof -
  let ?e = "\<lparr>le_Term = 1, le_Command = Some \<lparr>op_Req = 2, op_Id = 2\<rparr>\<rparr>"
  let ?rf = "(MakeRaft 1 no_state :: nat raft)\<lparr>rf_currentTerm := 1\<rparr>"
  obtain a1 where a1: "heartbeat_args 1 sending_leader = Some (Inr a1)"
    by (simp add: cluster_evals sending_leader_def)
  obtain a2 where a2: "heartbeat_args 1 (sending_leader\<lparr>rf_log := rf_log sending_leader @ [?e]\<rparr>) = Some (Inr a2)"
    by (simp add: cluster_evals sending_leader_def)
  obtain r2 rf2 where 2: "AppendEntries a2 ?rf = Some (r2, rf2)" "ar_Success r2" "rf_commitIndex rf2 = 0" "lastLogIndex rf2 = 2"
    using a2 by (auto simp: cluster_evals sending_leader_def)
  have "rf2\<lparr>rf_commitIndex := 0\<rparr> = rf2" using 2(3) by simp
  with older_append_cuts [OF _ refl _ _ a1 a2 _ 2(1,2), of 0 "\<lparr>va_Term = 2, va_CandidateId = 2, va_LastLogIndex = 1, va_LastLogTerm = 1\<rparr>" 3]
  show ?thesis using a1 a2 2(1,3,4) by (force simp: sending_leader_def lastLogIndex_def MakeRaft_def no_state_def)
qed

text \<open>A run in which a command that was committed and applied is lost, and the next leader applies another
  command at its index.\<close>

lemma committed_command_lost:
  "\<exists>c. run_cluster reordered_run (initCluster 3) = Some c \<and> all_news reordered_run (initCluster 3) \<and>
     rf_applied (cl_nodes c ! 0) =
       [CommandMsg (Some \<lparr>op_Req = 1, op_Id = 1\<rparr>) 1, CommandMsg (Some \<lparr>op_Req = 2, op_Id = 2\<rparr>) 2] \<and>
     rf_applied (cl_nodes c ! 1) =
       [CommandMsg (Some \<lparr>op_Req = 1, op_Id = 1\<rparr>) 1, CommandMsg (Some \<lparr>op_Req = 3, op_Id = 1\<rparr>) 2]"
  by (simp add: reordered_run_def cluster_evals upt_rec)

text \<open>A peer that is alone never leads: whether the votes suffice is only looked at when one arrives.\<close>

lemma single_step:
  assumes "length (cl_nodes c) = 1" "cl_calls c = []" "rf_currentRole (cl_nodes c ! 0) \<noteq> Leader"
    "cluster_step ev c = Some c'"
  shows "length (cl_nodes c') = 1 \<and> cl_calls c' = [] \<and> rf_currentRole (cl_nodes c' ! 0) \<noteq> Leader"
proof -
  have loc: "length (cl_nodes c') = 1 \<and> cl_calls c' = [] \<and> rf_currentRole (cl_nodes c' ! 0) \<noteq> Leader"
    if ls: "local_step n f c = Some c'" and f: "\<And>rf rf'. f rf = Some rf' \<Longrightarrow> keeps_votes rf rf'" for n f
  proof -
    obtain rf where "f (cl_nodes c ! 0) = Some rf" "c' = set_node 0 rf c"
      using ls assms(1) by (auto simp: local_step_def split: if_split_asm)
    moreover from this(1) have "keeps_votes (cl_nodes c ! 0) rf" by (rule f)
    ultimately show ?thesis using assms(1-3) by (auto simp: keeps_votes_def)
  qed
  show ?thesis
  proof (cases ev)
    case (Timeout n)
    with assms show ?thesis
      by (auto simp: timeout_def others_def dest!: startElection_remembers(5) split: if_split_asm option.split_asm)
  next
    case (Apply n)
    with assms(4) have "local_step n applier c = Some c'" by simp
    then show ?thesis by (rule loc [OF _ applier_keeps])
  next
    case (ClientStart n x)
    with assms(4) have "local_step n (\<lambda>rf. Some (snd (StartCommand x rf))) c = Some c'" by simp
    then show ?thesis by (rule loc) (auto simp: StartCommand_keeps)
  next
    case (TakeSnapshot n i s)
    with assms(4) have "local_step n (\<lambda>rf. Some (SnapshotAt i s rf)) c = Some c'" by simp
    then show ?thesis by (rule loc) (auto simp: SnapshotAt_keeps)
  qed (use assms in \<open>auto simp: handle_def receive_reply_def heartbeat_def restart_def MakeRaft_def split: if_split_asm\<close>)
qed

theorem alone_never_leads:
  assumes "run_cluster es (initCluster 1) = Some c"
  shows "\<not> leads c n t"
proof -
  have "length (cl_nodes c') = 1 \<and> cl_calls c' = [] \<and> rf_currentRole (cl_nodes c' ! 0) \<noteq> Leader"
    if "run_cluster es c = Some c'" "length (cl_nodes c) = 1" "cl_calls c = []" "rf_currentRole (cl_nodes c ! 0) \<noteq> Leader"
    for c c' :: "'a cluster"
    using that
  proof (induction es arbitrary: c)
    case (Cons ev es)
    then obtain c1 where c1: "cluster_step ev c = Some c1" "run_cluster es c1 = Some c'"
      by (auto split: option.split_asm)
    show ?case using single_step [OF Cons.prems(2-4) c1(1)] Cons.IH [OF c1(2)] by simp
  qed simp
  from this [OF assms] show ?thesis by (auto simp: initCluster_def MakeRaft_def leads_def)
qed

end
