(* ===== verification/RaftLog.thy ===== *)
theory RaftLog
  imports RaftSafety
begin

text \<open>
  Log matching in the cluster of \<open>RaftCluster\<close>. A link is an entry with its index and the term of the
  entry before it. Every log, on disk or in memory, and every message that carries entries is a chain of
  links, no step but \<open>Start\<close> makes a new one, and in a term only its one leader does.
\<close>

section \<open>Links\<close>

type_synonym 'r link = "nat \<times> nat \<times> 'r log_entry"

fun links :: "nat \<Rightarrow> 'r log_entry list \<Rightarrow> 'r link set" where
  "links b (x # y # ys) = insert (b + 1, le_Term x, y) (links (b + 1) (y # ys))"
| "links b xs = {}"

lemma links_head: "le_Term x = le_Term y \<Longrightarrow> links b (x # xs) = links b (y # xs)"
  by (cases xs) simp_all

lemma links_append: "xs \<noteq> [] \<Longrightarrow> links b (xs @ ys) = links b xs \<union> links (b + length xs - 1) (last xs # ys)"
  by (induction b xs rule: links.induct) auto

lemma links_take: "links b (take n xs) \<subseteq> links b xs"
proof (cases "take n xs = []")
  case False
  from links_append [OF this, of b "drop n xs"] show ?thesis by simp
qed auto

lemma links_drop: "links (b + n) (drop n xs) \<subseteq> links b xs"
proof (induction n arbitrary: b xs)
  case (Suc n)
  show ?case
  proof (cases xs)
    case (Cons x ys)
    have "links (Suc b + n) (drop n ys) \<subseteq> links (Suc b) ys" by (rule Suc.IH)
    moreover have "links (Suc b) ys \<subseteq> links b (x # ys)" by (cases ys) auto
    ultimately show ?thesis using Cons by simp
  qed simp
qed simp

text \<open>Cutting a log behind the entry at \<open>n\<close>, which a dummy of its term replaces.\<close>

lemma links_cut:
  assumes "n < length xs" "le_Term d = le_Term (xs ! n)"
  shows "links (b + n) (d # drop (Suc n) xs) \<subseteq> links b xs"
proof -
  have "drop n xs = xs ! n # drop (Suc n) xs" using assms(1) by (rule Cons_nth_drop_Suc [symmetric])
  then show ?thesis using links_drop [of b n xs] links_head [OF assms(2)] by metis
qed

text \<open>Cutting a log behind the entry at \<open>n\<close> and going on with others.\<close>

lemma links_replace:
  assumes "n < length xs" "le_Term d = le_Term (xs ! n)"
  shows "links b (take (Suc n) xs @ ys) \<subseteq> links b xs \<union> links (b + n) (d # ys)"
proof -
  have "take (Suc n) xs \<noteq> []" "last (take (Suc n) xs) = xs ! n"
    using assms(1) by (auto simp: take_Suc_conv_app_nth)
  with links_append [OF this(1), of b ys] have
    "links b (take (Suc n) xs @ ys) = links b (take (Suc n) xs) \<union> links (b + n) (xs ! n # ys)"
    using assms(1) by simp
  then show ?thesis using links_take [of b "Suc n" xs] links_head [OF assms(2)] by blast
qed

section \<open>The links of a cluster\<close>

definition node_links :: "'r raft \<Rightarrow> 'r link set" where
  "node_links rf = links (rf_lastIncludedIndex rf) (rf_log rf) \<union>
     links (ps_lastIncludedIndex (rf_persisted rf)) (ps_log (rf_persisted rf))"

definition append_links :: "'r append_args \<Rightarrow> 'r link set" where
  "append_links a = links (aa_PrevLogIndex a) (\<lparr>le_Term = aa_PrevLogTerm a, le_Command = None\<rparr> # aa_Entries a)"

definition call_links :: "'r raft_call \<Rightarrow> 'r link set" where
  "call_links x = (case x of AppendCall a \<Rightarrow> append_links a | _ \<Rightarrow> {})"

definition all_links :: "'r cluster \<Rightarrow> 'r link set" where
  "all_links c = (\<Union>rf\<in>set (cl_nodes c). node_links rf) \<union> (\<Union>x\<in>set (cl_calls c). call_links (ca_call x))"

definition has_log :: "'r raft \<Rightarrow> bool" where
  "has_log rf \<longleftrightarrow> rf_log rf \<noteq> [] \<and> ps_log (rf_persisted rf) \<noteq> []"

text \<open>A peer that has led in the term \<open>t\<close> will not do so again.\<close>

definition past :: "nat \<Rightarrow> 'r raft \<Rightarrow> bool" where
  "past t rf \<longleftrightarrow> t \<le> ps_currentTerm (rf_persisted rf) \<and>
     (t < rf_currentTerm rf \<or> t = rf_currentTerm rf \<and> rf_currentRole rf \<noteq> Candidate)"

text \<open>A step of a peer that has no links but its own and those of \<open>L\<close> afterwards.\<close>

definition draws :: "'r link set \<Rightarrow> 'r raft \<Rightarrow> 'r raft \<Rightarrow> bool" where
  "draws L rf rf' \<longleftrightarrow> node_links rf' \<subseteq> node_links rf \<union> L \<and> (has_log rf \<longrightarrow> has_log rf') \<and>
     (\<forall>t. past t rf \<longrightarrow> past t rf') \<and>
     (rf_currentRole rf' = Leader \<longrightarrow> rf_currentTerm rf' = rf_currentTerm rf \<and>
        (rf_currentRole rf = Leader \<and> lastLogIndex rf \<le> lastLogIndex rf' \<or> rf_currentRole rf = Candidate))"

lemma draws_refl [simp]: "draws L rf rf"
  by (simp add: draws_def)

lemma drawsI:
  assumes "links (rf_lastIncludedIndex rf') (rf_log rf') \<subseteq> node_links rf \<union> L"
    and "rf_log rf \<noteq> [] \<Longrightarrow> rf_log rf' \<noteq> []"
    and "rf_persisted rf' = rf_persisted rf \<or> ps_lastIncludedIndex (rf_persisted rf') = rf_lastIncludedIndex rf' \<and>
      ps_log (rf_persisted rf') = rf_log rf' \<and> ps_currentTerm (rf_persisted rf') = rf_currentTerm rf'"
    and "rf_currentTerm rf < rf_currentTerm rf' \<or> rf_currentTerm rf' = rf_currentTerm rf \<and>
      (rf_currentRole rf' = Candidate \<longrightarrow> rf_currentRole rf = Candidate)"
    and "rf_currentRole rf' = Leader \<Longrightarrow> rf_currentTerm rf' = rf_currentTerm rf \<and>
      (rf_currentRole rf = Leader \<and> lastLogIndex rf \<le> lastLogIndex rf' \<or> rf_currentRole rf = Candidate)"
  shows "draws L rf rf'"
  using assms unfolding draws_def past_def has_log_def by (auto simp: node_links_def)

lemma persist_log [simp]:
  "rf_log (persist rf) = rf_log rf" "rf_lastIncludedIndex (persist rf) = rf_lastIncludedIndex rf"
  "ps_log (rf_persisted (persist rf)) = rf_log rf"
  "ps_lastIncludedIndex (rf_persisted (persist rf)) = rf_lastIncludedIndex rf"
  "lastLogIndex (persist rf) = lastLogIndex rf"
  by (simp_all add: persist_def lastLogIndex_def)

lemma own_links [simp]: "links (rf_lastIncludedIndex rf) (rf_log rf) \<subseteq> node_links rf \<union> L"
  by (auto simp: node_links_def)

section \<open>What the steps of a peer draw\<close>

lemma entry_atD:
  "entry_at rf i = Some e \<Longrightarrow> rf_lastIncludedIndex rf \<le> i \<and> i - rf_lastIncludedIndex rf < length (rf_log rf) \<and>
    e = rf_log rf ! (i - rf_lastIncludedIndex rf)"
  by (simp add: entry_at_def split: if_split_asm)

lemma cut_links:
  assumes "entry_at rf i = Some e" "le_Term d = le_Term e"
  shows "links i (d # drop (Suc (i - rf_lastIncludedIndex rf)) (rf_log rf)) \<subseteq> node_links rf \<union> L"
proof -
  note e = entry_atD [OF assms(1)]
  have "links (rf_lastIncludedIndex rf + (i - rf_lastIncludedIndex rf)) (d # drop (Suc (i - rf_lastIncludedIndex rf)) (rf_log rf))
      \<subseteq> links (rf_lastIncludedIndex rf) (rf_log rf)"
    using e assms(2) by (intro links_cut) auto
  then show ?thesis using e by (auto simp: node_links_def)
qed

lemma replace_links:
  assumes "entry_at rf i = Some e" "le_Term d = le_Term e"
  shows "links (rf_lastIncludedIndex rf) (take (Suc (i - rf_lastIncludedIndex rf)) (rf_log rf) @ ys) \<subseteq>
    node_links rf \<union> links i (d # ys)"
proof -
  note e = entry_atD [OF assms(1)]
  have "links (rf_lastIncludedIndex rf) (take (Suc (i - rf_lastIncludedIndex rf)) (rf_log rf) @ ys) \<subseteq>
      links (rf_lastIncludedIndex rf) (rf_log rf) \<union>
      links (rf_lastIncludedIndex rf + (i - rf_lastIncludedIndex rf)) (d # ys)"
    using e assms(2) by (intro links_replace) auto
  then show ?thesis using e by (auto simp: node_links_def)
qed

lemma draws_same_log:
  assumes "rf_log rf' = rf_log rf" "rf_lastIncludedIndex rf' = rf_lastIncludedIndex rf"
    and "rf_persisted rf' = rf_persisted rf \<or> ps_lastIncludedIndex (rf_persisted rf') = rf_lastIncludedIndex rf' \<and>
      ps_log (rf_persisted rf') = rf_log rf' \<and> ps_currentTerm (rf_persisted rf') = rf_currentTerm rf'"
    and "rf_currentTerm rf < rf_currentTerm rf' \<or> rf_currentTerm rf' = rf_currentTerm rf \<and>
      (rf_currentRole rf' = Candidate \<longrightarrow> rf_currentRole rf = Candidate)"
    and "rf_currentRole rf' = Leader \<Longrightarrow> rf_currentTerm rf' = rf_currentTerm rf \<and> rf_currentRole rf \<noteq> Follower"
  shows "draws L rf rf'"
proof (rule drawsI)
  show "rf_currentTerm rf' = rf_currentTerm rf \<and>
      (rf_currentRole rf = Leader \<and> lastLogIndex rf \<le> lastLogIndex rf' \<or> rf_currentRole rf = Candidate)"
    if "rf_currentRole rf' = Leader"
    using assms(5) [OF that] assms(1,2) by (cases "rf_currentRole rf") (simp_all add: lastLogIndex_def)
qed (use assms in simp_all)

lemma RequestVote_draws:
  assumes "RequestVote a rf = Some (r, rf')"
  shows "draws L rf rf'"
  by (rule draws_same_log; use assms in \<open>auto simp: RequestVote_def Let_def split: if_split_asm option.split_asm\<close>)

lemma startElection_draws: "startElection rf = Some (a, rf') \<Longrightarrow> draws L rf rf'"
  by (rule draws_same_log) (auto simp: startElection_def Let_def split: option.split_asm)

lemma stepDown_draws: "rf_currentTerm rf < t \<Longrightarrow> draws L rf (stepDown t rf)"
  by (rule draws_same_log) (simp_all add: stepDown_def)

lemma advanceCommit_same:
  "rf_log (advanceCommit n rf) = rf_log rf" "rf_lastIncludedIndex (advanceCommit n rf) = rf_lastIncludedIndex rf"
  "rf_persisted (advanceCommit n rf) = rf_persisted rf" "rf_currentTerm (advanceCommit n rf) = rf_currentTerm rf"
  "rf_currentRole (advanceCommit n rf) = rf_currentRole rf"
  by (simp_all add: advanceCommit_def split: option.split)

lemma appendReply_draws:
  assumes "aa_Term a < ar_Term r \<Longrightarrow> rf_currentTerm rf < ar_Term r"
  shows "draws L rf (appendReply peers i a r rf)"
proof (cases "aa_Term a < ar_Term r")
  case True
  then show ?thesis using assms by (simp add: appendReply_def stepDown_draws)
next
  case False
  then show ?thesis
    by (intro draws_same_log) (auto simp: appendReply_def Let_def advanceCommit_same split: option.split)
qed

lemma snapshotReply_draws:
  "(sa_Term a < t \<Longrightarrow> rf_currentTerm rf < t) \<Longrightarrow> draws L rf (snapshotReply i a t rf)"
  unfolding snapshotReply_def
  by (auto simp: stepDown_draws intro: draws_same_log)

lemma voteReply_draws:
  assumes "voteReply peers t r m rf = (m', rf')" "t < vr_Term r \<longrightarrow> rf_currentTerm rf < vr_Term r"
  shows "draws L rf rf'"
proof (cases "t < vr_Term r")
  case True
  then show ?thesis using assms by (auto simp: voteReply_def stepDown_draws)
next
  case False
  then show ?thesis using assms(1) by (intro draws_same_log) (auto simp: voteReply_def Let_def split: if_split_asm)
qed

lemma applier_draws: "applier rf = Some rf' \<Longrightarrow> draws L rf rf'"
  by (rule draws_same_log) (auto simp: applier_def split: if_split_asm option.split_asm)

lemma AppendEntries_draws:
  assumes "AppendEntries a rf = Some (r, rf')"
  shows "draws (append_links a) rf rf'"
proof -
  obtain rf1 where rf1: "rf1 = (if rf_currentTerm rf < aa_Term a
      then persist (rf\<lparr>rf_currentTerm := aa_Term a, rf_votedFor := None\<rparr>) else rf)\<lparr>rf_currentRole := Follower\<rparr>"
    by blast
  have same: "rf_log rf1 = rf_log rf" "rf_lastIncludedIndex rf1 = rf_lastIncludedIndex rf"
      "rf_currentRole rf1 = Follower" "rf_currentTerm rf < rf_currentTerm rf1 \<or> rf_currentTerm rf1 = rf_currentTerm rf"
    by (simp_all add: rf1)
  have at: "entry_at rf1 i = entry_at rf i" for i by (simp add: entry_at_def same)
  have d1: "draws L rf rf1" for L
    by (rule draws_same_log) (auto simp: rf1)
  show ?thesis
  proof (cases "rf' = rf \<or> rf' = rf1")
    case False
    note A = assms [unfolded AppendEntries_def Let_def, folded rf1, unfolded at]
    have s1: "\<not> aa_Term a < rf_currentTerm rf" by (rule notI) (use A False in simp)
    have s2: "\<not> lastLogIndex rf1 < aa_PrevLogIndex a" by (rule notI) (use A s1 False in simp)
    have s3: "\<not> aa_PrevLogIndex a < rf_lastIncludedIndex rf1" by (rule notI) (use A s1 s2 False in simp)
    note A1 = A [unfolded if_not_P [OF s1] if_not_P [OF s2] if_not_P [OF s3]]
    then obtain e where e: "entry_at rf (aa_PrevLogIndex a) = Some e"
      by (cases "entry_at rf (aa_PrevLogIndex a)") auto
    have s4: "\<not> le_Term e \<noteq> aa_PrevLogTerm a" by (rule notI) (use A1 e False in simp)
    define rf3 where rf3: "rf3 = persist (rf1\<lparr>rf_log := take (aa_PrevLogIndex a - rf_lastIncludedIndex rf1 + 1) (rf_log rf1) @ aa_Entries a\<rparr>)"
    from A1 have rf': "rf' = (if rf_commitIndex rf3 < aa_LeaderCommit a
          then rf3\<lparr>rf_commitIndex := min (aa_LeaderCommit a) (lastLogIndex rf3)\<rparr> else rf3)"
      unfolding e option.case if_not_P [OF s4] rf3 [symmetric] by (simp only: option.inject prod.inject)
    have "rf_log rf' = rf_log rf3 \<and> rf_lastIncludedIndex rf' = rf_lastIncludedIndex rf3 \<and>
        rf_persisted rf' = rf_persisted rf3 \<and> rf_currentTerm rf' = rf_currentTerm rf3 \<and>
        rf_currentRole rf' = rf_currentRole rf3" by (simp add: rf')
    then show ?thesis
      using replace_links [OF e, of "\<lparr>le_Term = aa_PrevLogTerm a, le_Command = None\<rparr>"] s4 same
      by (intro drawsI) (auto simp: append_links_def rf3)
  qed (use d1 in auto)
qed

lemma InstallSnapshot_draws:
  assumes "InstallSnapshot a rf = Some (r, rf')"
  shows "draws L rf rf'"
proof -
  obtain rf1 where rf1: "rf1 = rf\<lparr>rf_currentRole := Follower, rf_currentTerm := max (sa_Term a) (rf_currentTerm rf)\<rparr>"
    by blast
  have at: "entry_at rf1 i = entry_at rf i" for i by (simp add: entry_at_def rf1)
  have d1: "draws L rf rf1"
    by (rule draws_same_log) (auto simp: rf1)
  show ?thesis
  proof (cases "rf' = rf \<or> rf' = rf1")
    case False
    let ?i = "sa_LastIncludedIndex a" and ?d = "\<lparr>le_Term = sa_LastIncludedTerm a, le_Command = None\<rparr>"
    note A = assms [unfolded InstallSnapshot_def Let_def, folded rf1, unfolded at]
    have s1: "\<not> sa_Term a < rf_currentTerm rf" by (rule notI) (use A False in simp)
    have s2: "\<not> ?i \<le> rf_lastIncludedIndex rf1" by (rule notI) (use A s1 False in simp)
    obtain keep where keep: "keep = (?i \<le> lastLogIndex rf1 \<and>
        (case entry_at rf ?i of Some e \<Rightarrow> le_Term e = sa_LastIncludedTerm a | None \<Rightarrow> False))" by blast
    from A have rf': "rf' = persist (rf1\<lparr>rf_log := ?d # (if keep then drop (?i - rf_lastIncludedIndex rf1 + 1) (rf_log rf1) else []),
        rf_lastIncludedIndex := ?i, rf_lastIncludedTerm := sa_LastIncludedTerm a, rf_snapshot := sa_Data a,
        rf_commitIndex := max ?i (rf_commitIndex rf1)\<rparr>)"
      unfolding if_not_P [OF s1] if_not_P [OF s2] keep [symmetric] by (simp only: option.inject prod.inject)
    have "links ?i (?d # (if keep then drop (Suc (?i - rf_lastIncludedIndex rf)) (rf_log rf) else [])) \<subseteq> node_links rf \<union> L"
      using cut_links [of rf ?i _ ?d L] by (auto simp: keep split: option.split_asm)
    then show ?thesis
      by (intro drawsI) (auto simp: rf' rf1)
  qed (use d1 in auto)
qed

lemma SnapshotAt_draws: "draws L rf (SnapshotAt i d rf)"
proof (cases "rf_lastIncludedIndex rf < i")
  case lt: True
  show ?thesis
  proof (cases "entry_at rf i")
    case (Some e)
    note e = entry_atD [OF Some]
    let ?d = "\<lparr>le_Term = le_Term e, le_Command = None\<rparr>"
    have "SnapshotAt i d rf = persist (rf\<lparr>rf_lastIncludedTerm := le_Term e,
        rf_log := ?d # drop (Suc (i - rf_lastIncludedIndex rf)) (rf_log rf),
        rf_lastIncludedIndex := i, rf_snapshot := d\<rparr>)"
      using lt Some by (simp add: SnapshotAt_def)
    then show ?thesis
      using cut_links [OF Some, of ?d L] e by (intro drawsI) (auto simp: lastLogIndex_def)
  qed (simp add: SnapshotAt_def)
qed (simp add: SnapshotAt_def)

lemma MakeRaft_draws: "draws L rf (MakeRaft n (rf_persisted rf))"
  unfolding draws_def by (auto simp: node_links_def MakeRaft_def has_log_def past_def)

section \<open>What a step of the cluster draws\<close>

text \<open>The step of one peer, with new calls that carry entries of their sender only.\<close>

definition node_step :: "'r cluster \<Rightarrow> nat \<Rightarrow> 'r raft \<Rightarrow> 'r cluster \<Rightarrow> bool" where
  "node_step c v rf c' \<longleftrightarrow> v < length (cl_nodes c) \<and> cl_nodes c' = (cl_nodes c)[v := rf] \<and>
     draws (all_links c) (cl_nodes c ! v) rf \<and>
     (\<Union>x\<in>set (cl_calls c'). call_links (ca_call x)) \<subseteq> all_links c"

lemma all_links_call: "k < length (cl_calls c) \<Longrightarrow> call_links (ca_call (cl_calls c ! k)) \<subseteq> all_links c"
  by (auto simp: all_links_def)

lemma all_links_node: "n < length (cl_nodes c) \<Longrightarrow> node_links (cl_nodes c ! n) \<subseteq> all_links c"
  by (auto simp: all_links_def)

lemma draws_mono: "draws L rf rf' \<Longrightarrow> L \<subseteq> M \<Longrightarrow> draws M rf rf'"
  unfolding draws_def by blast

lemma calls_same_links:
  assumes "map ca_call (cl_calls c') = map ca_call (cl_calls c)"
  shows "(\<Union>x\<in>set (cl_calls c'). call_links (ca_call x)) \<subseteq> all_links c"
proof -
  have "(\<Union>x\<in>set (cl_calls c'). call_links (ca_call x)) = (\<Union>x\<in>set (map ca_call (cl_calls c')). call_links x)" by simp
  then show ?thesis unfolding assms all_links_def by auto
qed

lemma map_stage: "k < length xs \<Longrightarrow> map ca_call (xs[k := (xs ! k)\<lparr>ca_stage := st\<rparr>]) = map ca_call xs"
  by (simp add: map_update list_update_same_conv)

lemma heartbeat_links:
  assumes "heartbeat_args i rf = Some (Inr a)"
  shows "append_links a \<subseteq> node_links rf"
proof -
  obtain nx e where e: "entry_at rf (nx - 1) = Some e" "\<not> nx \<le> rf_lastIncludedIndex rf"
    and a: "aa_PrevLogIndex a = nx - 1" "aa_PrevLogTerm a = le_Term e"
      "aa_Entries a = drop (nx - rf_lastIncludedIndex rf) (rf_log rf)"
    using assms by (auto simp: heartbeat_args_def Let_def split: if_split_asm option.split_asm)
  have "nx - rf_lastIncludedIndex rf = Suc (nx - 1 - rf_lastIncludedIndex rf)" using e(2) by simp
  then show ?thesis
    using cut_links [OF e(1), of "\<lparr>le_Term = aa_PrevLogTerm a, le_Command = None\<rparr>" "{}"] a
    by (simp add: append_links_def)
qed

lemma local_node_step:
  assumes "local_step n f c = Some c'" "\<And>rf rf'. f rf = Some rf' \<Longrightarrow> draws {} rf rf'"
  obtains rf where "node_step c n rf c'"
proof -
  obtain rf where n: "n < length (cl_nodes c)" "f (cl_nodes c ! n) = Some rf" "c' = set_node n rf c"
    using assms(1) by (auto simp: local_step_def split: if_split_asm)
  then have "node_step c n rf c'"
    using calls_same_links [of c' c] draws_mono [OF assms(2)] by (simp add: node_step_def)
  then show thesis by (rule that)
qed

lemma handle_node_step:
  assumes wf: "well_formed_calls c" and "handle k c = Some c'"
  obtains rf where "node_step c (ca_to (cl_calls c ! k)) rf c'"
proof -
  let ?v = "ca_to (cl_calls c ! k)"
  have k: "k < length (cl_calls c)" using assms(2) by (simp add: handle_def split: if_split_asm)
  note v = well_formed_callD(2) [OF wf k]
  obtain r rf where c': "c' = answer k r rf c" and d: "draws (call_links (ca_call (cl_calls c ! k))) (cl_nodes c ! ?v) rf"
  proof (cases "ca_call (cl_calls c ! k)")
    case (VoteCall e a)
    with assms(2) show ?thesis
      by (auto simp: handle_def Let_def split: if_split_asm intro: that RequestVote_draws)
  next
    case (AppendCall a)
    then have "call_links (ca_call (cl_calls c ! k)) = append_links a" by (simp add: call_links_def)
    moreover obtain r rf where "AppendEntries a (cl_nodes c ! ?v) = Some (r, rf)" "c' = answer k (AppendRep r) rf c"
      using AppendCall assms(2) by (auto simp: handle_def Let_def split: if_split_asm)
    ultimately show ?thesis using AppendEntries_draws by (intro that) auto
  next
    case (SnapshotCall a)
    with assms(2) show ?thesis
      by (auto simp: handle_def Let_def split: if_split_asm intro: that InstallSnapshot_draws)
  qed
  have "map ca_call (cl_calls c') = map ca_call (cl_calls c)"
    using k by (simp add: c' answer_def map_stage)
  then have "node_step c ?v rf c'"
    using v draws_mono [OF d all_links_call [OF k]] calls_same_links [of c' c]
    by (simp add: node_step_def c' answer_def)
  then show thesis by (rule that)
qed

lemma receive_node_step:
  assumes wf: "well_formed_calls c" and rc: "receive_reply k c = Some c'" and nw: "news (Reply k) c"
  obtains rf where "node_step c (ca_from (cl_calls c ! k)) rf c'"
proof -
  let ?v = "ca_from (cl_calls c ! k)"
  have k: "k < length (cl_calls c)" using rc by (simp add: receive_reply_def split: if_split_asm)
  note v = well_formed_callD(1) [OF wf k]
  obtain st rf where c': "cl_nodes c' = (cl_nodes c)[?v := rf]"
      "cl_calls c' = (cl_calls c)[k := (cl_calls c ! k)\<lparr>ca_stage := st\<rparr>]"
    and d: "draws {} (cl_nodes c ! ?v) rf"
  proof (cases "ca_call (cl_calls c ! k)")
    case (VoteCall e a)
    with rc obtain r m rf where r: "ca_stage (cl_calls c ! k) = Answered (VoteRep r)"
        "voteReply (length (cl_nodes c)) (va_Term a) r (el_count (cl_elections c ! e)) (cl_nodes c ! ?v) = (m, rf)"
        "c' = set_stage k (Processed (VoteRep r)) (set_count e m (set_node ?v rf c))"
      by (auto simp: receive_reply_def Let_def split: if_split_asm call_stage.split_asm raft_reply.split_asm prod.split_asm)
    have "va_Term a < vr_Term r \<longrightarrow> rf_currentTerm (cl_nodes c ! ?v) < vr_Term r"
      using nw VoteCall r(1) by (simp add: news_def Let_def)
    from voteReply_draws [OF r(2) this] show ?thesis by (rule that [rotated 2]) (simp_all add: r(3))
  next
    case (AppendCall a)
    with rc obtain r where r: "ca_stage (cl_calls c ! k) = Answered (AppendRep r)"
        "c' = set_stage k (Processed (AppendRep r)) (set_node ?v
          (appendReply (length (cl_nodes c)) (ca_to (cl_calls c ! k)) a r (cl_nodes c ! ?v)) c)"
      by (auto simp: receive_reply_def Let_def split: if_split_asm call_stage.split_asm raft_reply.split_asm)
    show ?thesis
      using nw AppendCall r(1) by (intro that [OF _ _ appendReply_draws]) (auto simp: r(2) news_def Let_def)
  next
    case (SnapshotCall a)
    with rc obtain t where r: "ca_stage (cl_calls c ! k) = Answered (SnapshotRep t)"
        "c' = set_stage k (Processed (SnapshotRep t)) (set_node ?v
          (snapshotReply (ca_to (cl_calls c ! k)) a t (cl_nodes c ! ?v)) c)"
      by (auto simp: receive_reply_def Let_def split: if_split_asm call_stage.split_asm raft_reply.split_asm)
    show ?thesis
      using nw SnapshotCall r(1) by (intro that [OF _ _ snapshotReply_draws]) (auto simp: r(2) news_def Let_def)
  qed
  have "map ca_call (cl_calls c') = map ca_call (cl_calls c)" using k by (simp add: c' map_stage)
  then have "node_step c ?v rf c'"
    using v draws_mono [OF d] calls_same_links [of c' c] by (simp add: node_step_def c')
  then show thesis by (rule that)
qed

lemma timeout_node_step:
  assumes "timeout n c = Some c'"
  obtains rf where "node_step c n rf c'"
proof -
  obtain a rf where n: "n < length (cl_nodes c)" "startElection (cl_nodes c ! n) = Some (a, rf)"
    and c': "c' = (set_node n rf c)\<lparr>cl_elections := cl_elections c @ [\<lparr>el_node = n, el_term = va_Term a, el_count = 1\<rparr>],
             cl_calls := cl_calls c @ map (send_call n (VoteCall (length (cl_elections c)) a)) (others n c)\<rparr>"
    using assms by (auto simp: timeout_def split: if_split_asm option.split_asm)
  have "node_step c n rf c'"
    using n(1) startElection_draws [OF n(2)]
    by (auto simp: node_step_def c' send_call_def call_links_def all_links_def)
  then show thesis by (rule that)
qed

lemma heartbeat_call_links: "heartbeat_call n rf i = Some x \<Longrightarrow> call_links (ca_call x) \<subseteq> node_links rf"
  using heartbeat_links [of i rf]
  by (cases "heartbeat_args i rf"; cases "the (heartbeat_args i rf)") (auto simp: heartbeat_call_def send_call_def call_links_def)

lemma those_map_elem: "those (map f is) = Some xs \<Longrightarrow> x \<in> set xs \<Longrightarrow> \<exists>i. f i = Some x"
  by (induction "is" arbitrary: xs) (auto split: option.split_asm)

lemma heartbeat_node_step:
  assumes "heartbeat n c = Some c'"
  obtains rf where "node_step c n rf c'"
proof -
  obtain xs where n: "n < length (cl_nodes c)"
    and xs: "those (map (heartbeat_call n (cl_nodes c ! n)) (others n c)) = Some xs"
    and c': "c' = c\<lparr>cl_calls := cl_calls c @ xs\<rparr>"
    using assms by (auto simp: heartbeat_def split: if_split_asm)
  have "call_links (ca_call x) \<subseteq> node_links (cl_nodes c ! n)" if "x \<in> set xs" for x
    using those_map_elem [OF xs that] heartbeat_call_links by blast
  then have "(\<Union>x\<in>set (cl_calls c'). call_links (ca_call x)) \<subseteq> all_links c"
    using all_links_node [OF n] unfolding c' by (auto simp: all_links_def)
  then have "node_step c n (cl_nodes c ! n) c'"
    using n by (simp add: node_step_def c')
  then show thesis by (rule that)
qed

lemma cluster_node_step:
  assumes wf: "well_formed_calls c" and st: "cluster_step ev c = Some c'" and nw: "news ev c"
    and nc: "\<forall>n x. ev \<noteq> ClientStart n x"
  obtains v rf where "node_step c v rf c'"
proof (cases ev)
  case (Crash n)
  with st have n: "n < length (cl_nodes c)" and c': "c' = restart n c" by (simp_all split: if_split_asm)
  have "map ca_call (cl_calls c') = map ca_call (cl_calls c)" by (simp add: c' restart_def)
  then have "node_step c n (MakeRaft n (rf_persisted (cl_nodes c ! n))) c'"
    using n calls_same_links [of c' c] by (simp add: node_step_def c' MakeRaft_draws) (simp add: restart_def)
  then show ?thesis by (rule that)
next
  case (Timeout n)
  with st have "timeout n c = Some c'" by simp
  from timeout_node_step [OF this] that show ?thesis by blast
next
  case (Handle k)
  with st have "handle k c = Some c'" by simp
  from handle_node_step [OF wf this] that show ?thesis by blast
next
  case (Reply k)
  with st have "receive_reply k c = Some c'" by simp
  from receive_node_step [OF wf this nw [unfolded Reply]] that show ?thesis by blast
next
  case (Heartbeat n)
  with st have "heartbeat n c = Some c'" by simp
  from heartbeat_node_step [OF this] that show ?thesis by blast
next
  case (Apply n)
  with st have "local_step n applier c = Some c'" by simp
  from local_node_step [OF this applier_draws] that show ?thesis by blast
next
  case (TakeSnapshot n i d)
  with st have "local_step n (\<lambda>rf. Some (SnapshotAt i d rf)) c = Some c'" by simp
  from local_node_step [OF this] SnapshotAt_draws that show ?thesis by (metis option.inject)
qed (use nc in simp)

section \<open>The invariant of the logs\<close>

text \<open>An index and a term name one link; a term with links has had a leader, who will not lead in it
  again; the log of the leader of a term reaches all links of it.\<close>

definition log_inv :: "'r cluster \<Rightarrow> bool" where
  "log_inv c \<longleftrightarrow> (\<forall>rf\<in>set (cl_nodes c). has_log rf) \<and>
     (\<forall>i p q x y. (i, p, x) \<in> all_links c \<longrightarrow> (i, q, y) \<in> all_links c \<longrightarrow> le_Term x = le_Term y \<longrightarrow> p = q \<and> x = y) \<and>
     (\<forall>i p x. (i, p, x) \<in> all_links c \<longrightarrow>
        (\<exists>w<length (cl_nodes c). elected c w (le_Term x) \<and> past (le_Term x) (cl_nodes c ! w))) \<and>
     (\<forall>i p x n. (i, p, x) \<in> all_links c \<longrightarrow> leads c n (le_Term x) \<longrightarrow> i \<le> lastLogIndex (cl_nodes c ! n))"

lemma log_invD:
  assumes "log_inv c"
  shows "\<And>rf. rf \<in> set (cl_nodes c) \<Longrightarrow> has_log rf"
    "\<And>i p q x y. (i, p, x) \<in> all_links c \<Longrightarrow> (i, q, y) \<in> all_links c \<Longrightarrow> le_Term x = le_Term y \<Longrightarrow> p = q \<and> x = y"
    "\<And>i p x. (i, p, x) \<in> all_links c \<Longrightarrow>
      \<exists>w<length (cl_nodes c). elected c w (le_Term x) \<and> past (le_Term x) (cl_nodes c ! w)"
    "\<And>i p x n. (i, p, x) \<in> all_links c \<Longrightarrow> leads c n (le_Term x) \<Longrightarrow> i \<le> lastLogIndex (cl_nodes c ! n)"
  using assms unfolding log_inv_def by blast+

lemma log_invI:
  assumes "\<And>rf. rf \<in> set (cl_nodes c) \<Longrightarrow> has_log rf"
    "\<And>i p q x y. (i, p, x) \<in> all_links c \<Longrightarrow> (i, q, y) \<in> all_links c \<Longrightarrow> le_Term x = le_Term y \<Longrightarrow> p = q \<and> x = y"
    "\<And>i p x. (i, p, x) \<in> all_links c \<Longrightarrow>
      \<exists>w<length (cl_nodes c). elected c w (le_Term x) \<and> past (le_Term x) (cl_nodes c ! w)"
    "\<And>i p x n. (i, p, x) \<in> all_links c \<Longrightarrow> leads c n (le_Term x) \<Longrightarrow> i \<le> lastLogIndex (cl_nodes c ! n)"
  shows "log_inv c"
  using assms unfolding log_inv_def by blast

lemma node_step_links: "node_step c v rf c' \<Longrightarrow> all_links c' \<subseteq> all_links c"
proof -
  assume ns: "node_step c v rf c'"
  then have v: "v < length (cl_nodes c)" and nodes: "cl_nodes c' = (cl_nodes c)[v := rf]"
    and d: "node_links rf \<subseteq> node_links (cl_nodes c ! v) \<union> all_links c"
    and cs: "(\<Union>x\<in>set (cl_calls c'). call_links (ca_call x)) \<subseteq> all_links c"
    by (simp_all add: node_step_def draws_def)
  have "node_links rf \<subseteq> all_links c" using d all_links_node [OF v] by blast
  moreover have "set (cl_nodes c') \<subseteq> insert rf (set (cl_nodes c))" unfolding nodes by (rule set_update_subset_insert)
  ultimately have "(\<Union>rf\<in>set (cl_nodes c'). node_links rf) \<subseteq> all_links c" unfolding all_links_def by blast
  with cs show ?thesis unfolding all_links_def [of c'] by blast
qed

lemma node_step_log_inv:
  assumes inv: "cluster_inv c'" and li: "log_inv c" and ns: "node_step c v rf c'" and g: "grows c c'"
  shows "log_inv c'"
proof -
  note sub = node_step_links [OF ns] and D = log_invD [OF li]
  have v: "v < length (cl_nodes c)" and nodes: "cl_nodes c' = (cl_nodes c)[v := rf]"
    and d: "has_log (cl_nodes c ! v) \<Longrightarrow> has_log rf" "\<And>t. past t (cl_nodes c ! v) \<Longrightarrow> past t rf"
      "rf_currentRole rf = Leader \<Longrightarrow> rf_currentTerm rf = rf_currentTerm (cl_nodes c ! v) \<and>
        (rf_currentRole (cl_nodes c ! v) = Leader \<and> lastLogIndex (cl_nodes c ! v) \<le> lastLogIndex rf \<or>
         rf_currentRole (cl_nodes c ! v) = Candidate)"
    using ns by (simp_all add: node_step_def draws_def)
  have node: "cl_nodes c' ! u = (if u = v then rf else cl_nodes c ! u)" for u using v nodes by simp
  have N: "length (cl_nodes c') = length (cl_nodes c)" by (simp add: nodes)
  have logs: "has_log r" if "r \<in> set (cl_nodes c')" for r
    using that D(1) d(1) [OF D(1)] v set_update_subset_insert [of "cl_nodes c" v rf] unfolding nodes by fastforce
  have orig: "\<exists>w<length (cl_nodes c). elected c' w (le_Term x) \<and> past (le_Term x) (cl_nodes c ! w) \<and>
      past (le_Term x) (cl_nodes c' ! w)" if "(i, p, x) \<in> all_links c'" for i p x
  proof -
    from D(3) [of i p x] that sub obtain w where "w < length (cl_nodes c)" "elected c w (le_Term x)"
      "past (le_Term x) (cl_nodes c ! w)" by blast
    then show ?thesis using elected_grows [OF _ g] d(2) by (intro exI [of _ w]) (auto simp: node)
  qed
  have reach: "i \<le> lastLogIndex (cl_nodes c' ! n)" if l: "(i, p, x) \<in> all_links c'" "leads c' n (le_Term x)" for i p x n
  proof (cases "n = v")
    case True
    have rf: "rf_currentRole rf = Leader" "rf_currentTerm rf = le_Term x" using l(2) True by (simp_all add: leads_def node)
    have "rf_currentRole (cl_nodes c ! v) \<noteq> Candidate"
    proof -
      from orig [OF l(1)] obtain w where w: "elected c' w (le_Term x)" "past (le_Term x) (cl_nodes c ! w)" by blast
      have "elected c' v (le_Term x)" using l(2) True inv by (simp add: cluster_inv_def)
      then have "w = v" by (rule elected_unique [OF inv w(1)])
      then show ?thesis using w(2) d(3) [OF rf(1)] rf(2) by (simp add: past_def)
    qed
    then have old: "leads c v (le_Term x)" "lastLogIndex (cl_nodes c ! v) \<le> lastLogIndex rf"
      using d(3) [OF rf(1)] rf(2) v by (auto simp: leads_def)
    have "(i, p, x) \<in> all_links c" using l(1) sub by blast
    from D(4) [OF this old(1)] old(2) show ?thesis by (simp add: node True)
  next
    case False
    then show ?thesis using l sub D(4) [of i p x n] by (auto simp: leads_def node N)
  qed
  show ?thesis
  proof (rule log_invI)
    show "p = q \<and> x = y" if "(i, p, x) \<in> all_links c'" "(i, q, y) \<in> all_links c'" "le_Term x = le_Term y" for i p q x y
      using D(2) [of i p x q y] that sub by blast
    show "\<exists>w<length (cl_nodes c'). elected c' w (le_Term x) \<and> past (le_Term x) (cl_nodes c' ! w)"
      if "(i, p, x) \<in> all_links c'" for i p x
      using orig [OF that] unfolding N by blast
  qed (fact logs reach)+
qed

text \<open>\<open>Start\<close> on a leader makes the one new link.\<close>

lemma StartCommand_links:
  assumes "has_log rf" "rf_currentRole rf = Leader" "rf' = snd (StartCommand op rf)"
  shows "node_links rf' \<subseteq> insert (lastLogIndex rf + 1, le_Term (last (rf_log rf)), \<lparr>le_Term = rf_currentTerm rf, le_Command = Some op\<rparr>)
      (node_links rf)" "lastLogIndex rf' = lastLogIndex rf + 1" "has_log rf'"
    "rf_currentRole rf' = Leader" "rf_currentTerm rf' = rf_currentTerm rf" "past (rf_currentTerm rf) rf'"
    "past t rf \<Longrightarrow> past t rf'"
proof -
  have ne: "rf_log rf \<noteq> []" using assms(1) by (simp add: has_log_def)
  have rf': "rf' = persist (rf\<lparr>rf_log := rf_log rf @ [\<lparr>le_Term = rf_currentTerm rf, le_Command = Some op\<rparr>]\<rparr>)"
    using assms(2,3) by (simp add: StartCommand_def)
  show "node_links rf' \<subseteq> insert (lastLogIndex rf + 1, le_Term (last (rf_log rf)), \<lparr>le_Term = rf_currentTerm rf, le_Command = Some op\<rparr>)
      (node_links rf)"
    using links_append [OF ne, of "rf_lastIncludedIndex rf" "[\<lparr>le_Term = rf_currentTerm rf, le_Command = Some op\<rparr>]"]
    by (auto simp: node_links_def rf' lastLogIndex_def add.commute ne Suc_diff_1)
  show "lastLogIndex rf' = lastLogIndex rf + 1" "has_log rf'" "rf_currentRole rf' = Leader"
    "rf_currentTerm rf' = rf_currentTerm rf" "past (rf_currentTerm rf) rf'" "past t rf \<Longrightarrow> past t rf'"
    using ne assms(2) by (auto simp: rf' lastLogIndex_def has_log_def past_def)
qed

lemma start_log_inv:
  assumes inv: "cluster_inv c" "cluster_inv c'" and li: "log_inv c" and g: "grows c c'"
    and n: "n < length (cl_nodes c)" "rf_currentRole (cl_nodes c ! n) = Leader"
    and c': "c' = set_node n (snd (StartCommand op (cl_nodes c ! n))) c"
  shows "log_inv c'"
proof -
  let ?rf = "cl_nodes c ! n"
  define rf where "rf = snd (StartCommand op ?rf)"
  define T where "T = rf_currentTerm ?rf"
  define new where "new = (lastLogIndex ?rf + 1, le_Term (last (rf_log ?rf)), \<lparr>le_Term = T, le_Command = Some op\<rparr>)"
  note D = log_invD [OF li]
  have "has_log ?rf" using D(1) n(1) by simp
  note st = StartCommand_links [OF this n(2) rf_def, folded T_def, folded new_def]
  have nodes: "cl_nodes c' = (cl_nodes c)[n := rf]" "cl_calls c' = cl_calls c" by (simp_all add: c' rf_def)
  have node: "cl_nodes c' ! u = (if u = n then rf else cl_nodes c ! u)" for u using n nodes by simp
  have N: "length (cl_nodes c') = length (cl_nodes c)" by (simp add: nodes)
  have lead: "leads c n T" using n by (simp add: leads_def T_def)
  have sub: "all_links c' \<subseteq> insert new (all_links c)"
  proof -
    have "set (cl_nodes c') \<subseteq> insert rf (set (cl_nodes c))" unfolding nodes by (rule set_update_subset_insert)
    moreover have "node_links rf \<subseteq> insert new (all_links c)" using st(1) all_links_node [OF n(1)] by blast
    ultimately show ?thesis unfolding all_links_def nodes by blast
  qed
  have fresh: "i \<le> lastLogIndex ?rf" if "(i, p, x) \<in> all_links c" "le_Term x = T" for i p x
    using D(4) that lead by blast
  have le: "elected c' w t" if "elected c w t" for w t by (rule elected_grows [OF that g])
  show ?thesis
  proof (rule log_invI)
    show "has_log r" if "r \<in> set (cl_nodes c')" for r
      using that D(1) st(3) set_update_subset_insert [of "cl_nodes c" n rf] unfolding nodes by blast
    show "p = q \<and> x = y" if l: "(i, p, x) \<in> all_links c'" "(i, q, y) \<in> all_links c'" "le_Term x = le_Term y" for i p q x y
    proof -
      have "(i, p, x) = new \<or> (i, p, x) \<in> all_links c" "(i, q, y) = new \<or> (i, q, y) \<in> all_links c" using l sub by blast+
      then show ?thesis
        using D(2) [of i p x q y] fresh [of i p x] fresh [of i q y] l(3) by (auto simp: new_def)
    qed
    show "\<exists>w<length (cl_nodes c'). elected c' w (le_Term x) \<and> past (le_Term x) (cl_nodes c' ! w)"
      if "(i, p, x) \<in> all_links c'" for i p x
    proof (cases "(i, p, x) = new")
      case True
      then have "le_Term x = T" by (simp add: new_def)
      moreover have "elected c n T" using lead inv(1) by (simp add: cluster_inv_def)
      ultimately show ?thesis using le st(6) n(1) by (intro exI [of _ n]) (simp add: node N)
    next
      case False
      then have "(i, p, x) \<in> all_links c" using that sub by blast
      from D(3) [OF this] obtain w where "w < length (cl_nodes c)" "elected c w (le_Term x)"
        "past (le_Term x) (cl_nodes c ! w)" by blast
      then show ?thesis using le st(7) by (intro exI [of _ w]) (auto simp: node N)
    qed
    show "i \<le> lastLogIndex (cl_nodes c' ! m)" if l: "(i, p, x) \<in> all_links c'" "leads c' m (le_Term x)" for i p x m
    proof (cases "(i, p, x) = new")
      case True
      then have "elected c' m T" "elected c' n T"
        using l(2) inv lead le by (auto simp: cluster_inv_def new_def)
      then have "m = n" by (rule elected_unique [OF inv(2)])
      then show ?thesis using True st(2) by (simp add: node new_def)
    next
      case False
      then have "(i, p, x) \<in> all_links c" using l(1) sub by blast
      moreover have "leads c m (le_Term x)"
        using l(2) st(4,5) n by (auto simp: leads_def node N T_def split: if_split_asm)
      ultimately have "i \<le> lastLogIndex (cl_nodes c ! m)" by (rule D(4))
      then show ?thesis using st(2) by (auto simp: node)
    qed
  qed
qed

lemma log_inv_init: "log_inv (initCluster n)"
proof -
  have "all_links (initCluster n :: 'a cluster) = {}"
    by (auto simp: all_links_def initCluster_def node_links_def MakeRaft_def no_state_def)
  then show ?thesis by (intro log_invI) (auto simp: initCluster_def has_log_def MakeRaft_def no_state_def)
qed

lemma cluster_step_log_inv:
  assumes inv: "cluster_inv c" and li: "log_inv c" and st: "cluster_step ev c = Some c'" and nw: "news ev c"
  shows "log_inv c'"
proof -
  have inv': "cluster_inv c'" and g: "grows c c'" using cluster_step_inv [OF inv st nw] by simp_all
  show ?thesis
  proof (cases "\<exists>n op. ev = ClientStart n op")
    case False
    then show ?thesis
      using node_step_log_inv [OF inv' li _ g] cluster_node_step [OF cluster_invD(1) [OF inv] st nw] by metis
  next
    case True
    then obtain n op where n: "n < length (cl_nodes c)" and c': "c' = set_node n (snd (StartCommand op (cl_nodes c ! n))) c"
      using st by (auto simp: local_step_def split: if_split_asm)
    show ?thesis
    proof (cases "rf_currentRole (cl_nodes c ! n) = Leader")
      case True
      from start_log_inv [OF inv inv' li g n True c'] show ?thesis .
    next
      case False
      then have "c' = c" by (simp add: c' StartCommand_def set_node_def)
      with li show ?thesis by simp
    qed
  qed
qed

section \<open>Log matching\<close>

lemma run_cluster_log_inv:
  "cluster_inv c \<Longrightarrow> log_inv c \<Longrightarrow> run_cluster es c = Some c' \<Longrightarrow> all_news es c \<Longrightarrow> log_inv c'"
proof (induction es arbitrary: c)
  case (Cons ev es)
  then obtain c1 where c1: "cluster_step ev c = Some c1" "run_cluster es c1 = Some c'"
    by (auto split: option.split_asm)
  have nw: "news ev c" "all_news es c1" using Cons.prems(4) c1(1) by simp_all
  show ?case
    using cluster_step_inv [OF Cons.prems(1) c1(1) nw(1)]
      cluster_step_log_inv [OF Cons.prems(1,2) c1(1) nw(1)] Cons.IH [OF _ _ c1(2) nw(2)] by blast
qed simp

lemma links_nth: "Suc k < length xs \<Longrightarrow> (b + Suc k, le_Term (xs ! k), xs ! Suc k) \<in> links b xs"
proof (induction b xs arbitrary: k rule: links.induct)
  case (1 b x y ys)
  then show ?case by (cases k) auto
qed auto

text \<open>The entry in front of one that is above the snapshot, and their link.\<close>

lemma entry_before:
  assumes "entry_at rf (Suc k) = Some y" "rf_lastIncludedIndex rf \<le> k"
  obtains x where "entry_at rf k = Some x" "(Suc k, le_Term x, y) \<in> node_links rf"
proof -
  let ?b = "rf_lastIncludedIndex rf"
  note y = entry_atD [OF assms(1)]
  have k: "Suc k - ?b = Suc (k - ?b)" using assms(2) by simp
  have "(?b + Suc (k - ?b), le_Term (rf_log rf ! (k - ?b)), rf_log rf ! Suc (k - ?b)) \<in> links ?b (rf_log rf)"
    using y k by (intro links_nth) simp
  then have "(Suc k, le_Term (rf_log rf ! (k - ?b)), y) \<in> node_links rf"
    using y k assms(2) by (simp add: node_links_def)
  moreover have "entry_at rf k = Some (rf_log rf ! (k - ?b))"
    using y k assms(2) by (simp add: entry_at_def)
  ultimately show thesis by (intro that)
qed

lemma log_matching_step:
  assumes li: "log_inv c" and n: "n < length (cl_nodes c)" "m < length (cl_nodes c)"
    and at: "entry_at (cl_nodes c ! n) (Suc k) = Some e" "entry_at (cl_nodes c ! m) (Suc k) = Some f" "le_Term e = le_Term f"
    and k: "rf_lastIncludedIndex (cl_nodes c ! n) \<le> k" "rf_lastIncludedIndex (cl_nodes c ! m) \<le> k"
  shows "e = f" "\<exists>x y. entry_at (cl_nodes c ! n) k = Some x \<and> entry_at (cl_nodes c ! m) k = Some y \<and> le_Term x = le_Term y"
proof -
  obtain x where x: "entry_at (cl_nodes c ! n) k = Some x" "(Suc k, le_Term x, e) \<in> node_links (cl_nodes c ! n)"
    by (rule entry_before [OF at(1) k(1)])
  obtain y where y: "entry_at (cl_nodes c ! m) k = Some y" "(Suc k, le_Term y, f) \<in> node_links (cl_nodes c ! m)"
    by (rule entry_before [OF at(2) k(2)])
  have "le_Term x = le_Term y \<and> e = f"
    using log_invD(2) [OF li, of "Suc k" "le_Term x" e "le_Term y" f] x(2) y(2) at(3)
      all_links_node [OF n(1)] all_links_node [OF n(2)] by blast
  then show "e = f" "\<exists>x y. entry_at (cl_nodes c ! n) k = Some x \<and> entry_at (cl_nodes c ! m) k = Some y \<and> le_Term x = le_Term y"
    using x(1) y(1) by auto
qed

lemma log_matching_terms:
  assumes "log_inv c" "n < length (cl_nodes c)" "m < length (cl_nodes c)"
    and "entry_at (cl_nodes c ! n) (j + d) = Some e" "entry_at (cl_nodes c ! m) (j + d) = Some f" "le_Term e = le_Term f"
    and "rf_lastIncludedIndex (cl_nodes c ! n) \<le> j" "rf_lastIncludedIndex (cl_nodes c ! m) \<le> j"
  shows "\<exists>x y. entry_at (cl_nodes c ! n) j = Some x \<and> entry_at (cl_nodes c ! m) j = Some y \<and> le_Term x = le_Term y"
  using assms(4-6)
proof (induction d arbitrary: e f)
  case (Suc d)
  have "\<exists>x y. entry_at (cl_nodes c ! n) (j + d) = Some x \<and> entry_at (cl_nodes c ! m) (j + d) = Some y \<and> le_Term x = le_Term y"
    by (rule log_matching_step(2) [OF assms(1-3) Suc.prems [unfolded add_Suc_right]]) (use assms(7,8) in auto)
  then show ?case using Suc.IH by blast
qed auto

text \<open>
  C15. If the logs of two peers have entries of the same term at an index, they agree at every lower
  index that both have above their snapshots, in every run as above.\<close>

theorem log_matching:
  assumes "run_cluster es (initCluster peers) = Some c" "all_news es (initCluster peers)"
    and "n < peers" "m < peers"
    and "entry_at (cl_nodes c ! n) i = Some e" "entry_at (cl_nodes c ! m) i = Some f" "le_Term e = le_Term f"
    and "rf_lastIncludedIndex (cl_nodes c ! n) < j" "rf_lastIncludedIndex (cl_nodes c ! m) < j" "j \<le> i"
  shows "\<exists>g. entry_at (cl_nodes c ! n) j = Some g \<and> entry_at (cl_nodes c ! m) j = Some g"
proof -
  have li: "log_inv c" by (rule run_cluster_log_inv [OF cluster_inv_init log_inv_init assms(1,2)])
  have "grows (initCluster peers) c" using run_cluster_inv [OF cluster_inv_init assms(1,2)] by blast
  then have "length (cl_nodes c) = peers" by (simp add: grows_def initCluster_def)
  then have nm: "n < length (cl_nodes c)" "m < length (cl_nodes c)" using assms(3,4) by simp_all
  obtain d where d: "i = j + d" using assms(10) le_Suc_ex by blast
  obtain x y where xy: "entry_at (cl_nodes c ! n) j = Some x" "entry_at (cl_nodes c ! m) j = Some y" "le_Term x = le_Term y"
    using log_matching_terms [OF li nm assms(5-7) [unfolded d]] assms(8,9) by auto
  obtain k where k: "j = Suc k" using assms(8) by (cases j) auto
  have "x = y" by (rule log_matching_step(1) [OF li nm xy [unfolded k]]) (use assms(8,9) k in auto)
  then show ?thesis using xy by simp
qed

text \<open>In the run of \<open>committed_command_lost\<close> peers 1 and 2 end with the same last entry.\<close>

theorem log_matching_witness:
  "\<exists>c. run_cluster reordered_run (initCluster 3) = Some c \<and>
     (\<exists>g. entry_at (cl_nodes c ! 1) 1 = Some g \<and> entry_at (cl_nodes c ! 2) 1 = Some g)"
proof -
  define c where "c = the (run_cluster reordered_run (initCluster 3))"
  have c: "run_cluster reordered_run (initCluster 3) = Some c" "all_news reordered_run (initCluster 3)"
      "entry_at (cl_nodes c ! 1) 2 = Some \<lparr>le_Term = 2, le_Command = Some \<lparr>op_Req = 3, op_Id = 1\<rparr>\<rparr>"
      "entry_at (cl_nodes c ! 2) 2 = Some \<lparr>le_Term = 2, le_Command = Some \<lparr>op_Req = 3, op_Id = 1\<rparr>\<rparr>"
      "rf_lastIncludedIndex (cl_nodes c ! 1) = 0" "rf_lastIncludedIndex (cl_nodes c ! 2) = 0"
    unfolding c_def by (simp_all add: reordered_run_def cluster_evals upt_rec)
  show ?thesis
    using log_matching [OF c(1,2) _ _ c(3,4) refl, of 1] c(1,5,6) by simp
qed

end
