(* ===== verification/DiskPersister.thy ===== *)
theory DiskPersister
  imports Raft "HOL-Library.Countable"
begin

text \<open>
  The files a peer keeps (\<open>src/ide/diskpersister.go\<close>), and the peer that is made from them
  (\<open>persist\<close>, \<open>readPersist\<close>, \<open>Make\<close> in \<open>raft.go\<close>). A process can stop between any two operations of the
  file system and in the middle of a write, which leaves a part of the data. Loss of what the system has
  not written out yet is not modelled. How the state is encoded (\<open>labgob\<close>) is a parameter.
\<close>

section \<open>Files\<close>

type_synonym files = "string \<Rightarrow> byte list option"

datatype file_op = WriteFile string "byte list" | Rename string string

fun do_op :: "file_op \<Rightarrow> files \<Rightarrow> files" where
  "do_op (WriteFile p d) fs = fs(p \<mapsto> d)"
| "do_op (Rename a b) fs = (case fs a of None \<Rightarrow> fs | Some d \<Rightarrow> fs(a := None, b \<mapsto> d))"

text \<open>The process stops after \<open>k\<close> operations; if a write is next, \<open>n\<close> is 0 before it has opened the file,
  and 1 more than the bytes written after that.\<close>

definition stopped_at :: "nat \<Rightarrow> nat \<Rightarrow> file_op list \<Rightarrow> files \<Rightarrow> files" where
  "stopped_at k n ops fs = (case drop k ops of
     WriteFile p d # rest \<Rightarrow> (if n = 0 then fold do_op (take k ops) fs
       else (fold do_op (take k ops) fs)(p \<mapsto> take (n - 1) d))
   | _ \<Rightarrow> fold do_op (take k ops) fs)"

definition atomicWrite :: "string \<Rightarrow> byte list \<Rightarrow> file_op list" where
  "atomicWrite path d = [WriteFile (path @ ''.tmp'') d, Rename (path @ ''.tmp'') path]"

section \<open>The persister\<close>

text \<open>Without a file the cached data is \<open>nil\<close>.\<close>

record disk_persister =
  dp_raftstatePath :: string
  dp_snapshotPath :: string
  dp_raftstate :: "byte list option"
  dp_snapshot :: "byte list option"

definition MakeDiskPersister :: "string \<Rightarrow> files \<Rightarrow> disk_persister" where
  "MakeDiskPersister dir fs = \<lparr>dp_raftstatePath = dir @ ''/raftstate'', dp_snapshotPath = dir @ ''/snapshot'',
     dp_raftstate = fs (dir @ ''/raftstate''), dp_snapshot = fs (dir @ ''/snapshot'')\<rparr>"

definition Save :: "byte list option \<Rightarrow> byte list option \<Rightarrow> disk_persister \<Rightarrow> disk_persister \<times> file_op list" where
  "Save raftstate snapshot dp =
     (let (dp1, ops1) = (case raftstate of None \<Rightarrow> (dp, [])
            | Some d \<Rightarrow> (dp\<lparr>dp_raftstate := Some d\<rparr>, atomicWrite (dp_raftstatePath dp) d))
      in case snapshot of None \<Rightarrow> (dp1, ops1)
         | Some d \<Rightarrow> (dp1\<lparr>dp_snapshot := Some d\<rparr>, ops1 @ atomicWrite (dp_snapshotPath dp) d))"

definition RaftStateSize :: "disk_persister \<Rightarrow> nat" where
  "RaftStateSize dp = (case dp_raftstate dp of None \<Rightarrow> 0 | Some d \<Rightarrow> length d)"

definition SnapshotSize :: "disk_persister \<Rightarrow> nat" where
  "SnapshotSize dp = (case dp_snapshot dp of None \<Rightarrow> 0 | Some d \<Rightarrow> length d)"

section \<open>A peer on disk\<close>

text \<open>\<open>persist\<close> encodes everything but the snapshot; a snapshot that was never made is \<open>nil\<close>.\<close>

definition persist_to :: "('r raft_state \<Rightarrow> byte list) \<Rightarrow> 'r raft \<Rightarrow> disk_persister \<Rightarrow> disk_persister \<times> file_op list" where
  "persist_to enc rf dp = Save (Some (enc ((rf_persisted (persist rf))\<lparr>ps_snapshot := []\<rparr>)))
     (if rf_snapshot rf = [] then None else Some (rf_snapshot rf)) dp"

definition readPersist :: "(byte list \<Rightarrow> 'r raft_state option) \<Rightarrow> disk_persister \<Rightarrow> 'r raft_state" where
  "readPersist dec dp =
     (let p = (if RaftStateSize dp < 1 then no_state
               else case dec (the (dp_raftstate dp)) of None \<Rightarrow> no_state | Some p \<Rightarrow> p)
      in p\<lparr>ps_snapshot := (case dp_snapshot dp of None \<Rightarrow> [] | Some d \<Rightarrow> d)\<rparr>)"

definition reopened :: "(byte list \<Rightarrow> 'r raft_state option) \<Rightarrow> string \<Rightarrow> nat \<Rightarrow> files \<Rightarrow> 'r raft" where
  "reopened dec dir me fs = MakeRaft me (readPersist dec (MakeDiskPersister dir fs))"

section \<open>Stopping in the middle\<close>

lemma stopped_at_append:
  "stopped_at k n (xs @ ys) fs =
     (if k < length xs then stopped_at k n xs fs else stopped_at (k - length xs) n ys (fold do_op xs fs))"
proof (cases "k < length xs")
  case True
  then obtain x zs where "drop k xs = x # zs" by (metis Cons_nth_drop_Suc)
  with True show ?thesis by (cases x) (simp_all add: stopped_at_def)
next
  case False
  then have e: "fold do_op (take k (xs @ ys)) fs = fold do_op (take (k - length xs) ys) (fold do_op xs fs)"
    and "drop k (xs @ ys) = drop (k - length xs) ys" by simp_all
  then show ?thesis using False unfolding stopped_at_def e by simp
qed

lemma stopped_at_done: "length ops \<le> k \<Longrightarrow> stopped_at k n ops fs = fold do_op ops fs"
  by (simp add: stopped_at_def)

lemma atomicWrite_done: "fold do_op (atomicWrite p d) fs = fs(p @ ''.tmp'' := None, p \<mapsto> d)"
  by (auto simp: atomicWrite_def)

lemma length_atomicWrite [simp]: "length (atomicWrite p d) = 2"
  by (simp add: atomicWrite_def)

text \<open>One file is written: nothing but the temporary file has changed, or all is done.\<close>

lemma stopped_atomicWrite:
  obtains "\<And>q. q \<noteq> p @ ''.tmp'' \<Longrightarrow> stopped_at k n (atomicWrite p d) fs q = fs q"
  | "stopped_at k n (atomicWrite p d) fs = fs(p @ ''.tmp'' := None, p \<mapsto> d)"
proof -
  consider "k = 0" | "k = 1" | "2 \<le> k" by arith
  then show thesis
  proof cases
    case 1
    show thesis by (rule that(1)) (simp add: 1 stopped_at_def atomicWrite_def)
  next
    case 2
    show thesis by (rule that(1)) (simp add: 2 stopped_at_def atomicWrite_def)
  next
    case 3
    show thesis by (rule that(2)) (use 3 in \<open>simp add: stopped_at_done atomicWrite_done\<close>)
  qed
qed

lemma paths_differ [simp]:
  "p @ ''/raftstate'' \<noteq> p @ ''/snapshot''" "p @ ''/snapshot'' \<noteq> p @ ''/raftstate''"
  "p @ ''/raftstate'' \<noteq> p @ ''/snapshot.tmp''" "p @ ''/snapshot'' \<noteq> p @ ''/snapshot.tmp''"
  "p @ ''/raftstate'' \<noteq> p @ ''/raftstate.tmp''" "p @ ''/snapshot'' \<noteq> p @ ''/raftstate.tmp''"
  "p @ ''/raftstate.tmp'' \<noteq> p @ ''/snapshot.tmp''"
  by simp_all

text \<open>
  C19. Wherever a save is interrupted, the persister that is opened next has each of the two files as it was
  or as it was to be, never a part of it, and the new snapshot only together with the new state; after
  the save it has what the old one had in memory.
\<close>

theorem save_recovers:
  assumes "Save r s (MakeDiskPersister dir fs) = (dp, ops)"
  shows "dp_raftstate (MakeDiskPersister dir (stopped_at k n ops fs)) \<in> {fs (dir @ ''/raftstate''), dp_raftstate dp} \<and>
    dp_snapshot (MakeDiskPersister dir (stopped_at k n ops fs)) \<in> {fs (dir @ ''/snapshot''), dp_snapshot dp} \<and>
    (dp_snapshot (MakeDiskPersister dir (stopped_at k n ops fs)) = fs (dir @ ''/snapshot'') \<or>
     dp_raftstate (MakeDiskPersister dir (stopped_at k n ops fs)) = dp_raftstate dp) \<and>
    MakeDiskPersister dir (fold do_op ops fs) = dp"
proof -
  let ?R = "dir @ ''/raftstate''" and ?S = "dir @ ''/snapshot''"
  define st where "st = stopped_at k n ops fs"
  have read: "dp_raftstate (MakeDiskPersister dir g) = g ?R" "dp_snapshot (MakeDiskPersister dir g) = g ?S" for g
    by (simp_all add: MakeDiskPersister_def)
  define w1 where "w1 = (case r of None \<Rightarrow> [] | Some d \<Rightarrow> atomicWrite ?R d)"
  define w2 where "w2 = (case s of None \<Rightarrow> [] | Some d \<Rightarrow> atomicWrite ?S d)"
  define fs1 where "fs1 = fold do_op w1 fs"
  have ops: "ops = w1 @ w2"
    using assms by (auto simp: Save_def w1_def w2_def MakeDiskPersister_def split: option.split_asm)
  have dp: "dp_raftstate dp = (case r of None \<Rightarrow> fs ?R | Some d \<Rightarrow> Some d)"
      "dp_snapshot dp = (case s of None \<Rightarrow> fs ?S | Some d \<Rightarrow> Some d)"
    using assms by (auto simp: Save_def MakeDiskPersister_def split: option.split_asm)
  have fs1: "fs1 ?R = dp_raftstate dp" "fs1 ?S = fs ?S"
    by (simp_all add: fs1_def w1_def dp atomicWrite_done split: option.split)
  have full: "MakeDiskPersister dir (fold do_op ops fs) = dp"
    using assms by (auto simp: Save_def MakeDiskPersister_def atomicWrite_done split: option.split_asm)
  have "st ?R \<in> {fs ?R, dp_raftstate dp} \<and> st ?S = fs ?S \<or> st ?R = dp_raftstate dp \<and> st ?S \<in> {fs ?S, dp_snapshot dp}"
  proof (cases "k < length w1")
    case True
    then obtain d where d: "r = Some d" by (cases r) (simp_all add: w1_def)
    have st: "st = stopped_at k n (atomicWrite ?R d) fs" using True d by (simp add: st_def ops stopped_at_append w1_def)
    show ?thesis
      by (rule stopped_atomicWrite [of "?R" k n d fs]) (simp_all add: st dp d)
  next
    case False
    then have st: "st = stopped_at (k - length w1) n w2 fs1" by (simp add: st_def ops stopped_at_append fs1_def)
    show ?thesis
    proof (cases s)
      case None
      then show ?thesis using fs1 by (simp add: st w2_def stopped_at_done)
    next
      case (Some d)
      show ?thesis
        by (rule stopped_atomicWrite [of "?S" "k - length w1" n d fs1]) (use fs1 in \<open>simp_all add: st dp Some w2_def\<close>)
    qed
  qed
  then show ?thesis unfolding read full st_def by blast
qed

theorem save_recovers_witness:
  "\<exists>dp ops. Save (Some [1, 2]) (Some [3]) (MakeDiskPersister ''d'' Map.empty) = (dp, ops) \<and>
    dp_raftstate (MakeDiskPersister ''d'' (stopped_at 2 2 ops Map.empty)) = Some [1, 2] \<and>
    dp_snapshot (MakeDiskPersister ''d'' (stopped_at 2 2 ops Map.empty)) = None \<and>
    MakeDiskPersister ''d'' (fold do_op ops Map.empty) = dp"
proof -
  obtain dp ops where s: "Save (Some [1, 2]) (Some [3]) (MakeDiskPersister ''d'' Map.empty) = (dp, ops)" by fastforce
  then have ops: "ops = atomicWrite ''d/raftstate'' [1, 2] @ atomicWrite ''d/snapshot'' [3]"
    by (simp add: Save_def MakeDiskPersister_def)
  have "dp_raftstate (MakeDiskPersister ''d'' (stopped_at 2 2 ops Map.empty)) = Some [1, 2]"
      "dp_snapshot (MakeDiskPersister ''d'' (stopped_at 2 2 ops Map.empty)) = None"
    by (simp_all add: ops stopped_at_append atomicWrite_done MakeDiskPersister_def) (simp_all add: stopped_at_def atomicWrite_def)
  with s save_recovers [OF s, of 2 2] show ?thesis by blast
qed

section \<open>A peer that starts again\<close>

lemma persist_to_parts:
  assumes "persist_to enc rf (MakeDiskPersister dir fs) = (dp, ops)"
  shows "ops = atomicWrite (dir @ ''/raftstate'') (enc ((rf_persisted (persist rf))\<lparr>ps_snapshot := []\<rparr>)) @
      (if rf_snapshot rf = [] then [] else atomicWrite (dir @ ''/snapshot'') (rf_snapshot rf))"
  using assms by (auto simp: persist_to_def Save_def MakeDiskPersister_def split: if_split_asm)

text \<open>After a save the peer that is made from the files is the one that is made of the state that was
  saved, as \<open>restart\<close> in \<open>RaftCluster\<close> has it. (While there is no snapshot there is no file of one.)\<close>

theorem restart_from_disk:
  assumes codec: "\<And>p. dec (enc p) = Some p" "\<And>p. enc p \<noteq> []"
    and "persist_to enc rf (MakeDiskPersister dir fs) = (dp, ops)"
    and "rf_snapshot rf = [] \<Longrightarrow> fs (dir @ ''/snapshot'') = None"
  shows "reopened dec dir me (fold do_op ops fs) = MakeRaft me (rf_persisted (persist rf))"
proof -
  let ?p = "rf_persisted (persist rf)"
  have snap: "ps_snapshot ?p = rf_snapshot rf" by (simp add: persist_def)
  have "(?p\<lparr>ps_snapshot := []\<rparr>)\<lparr>ps_snapshot := rf_snapshot rf\<rparr> = ?p" by (simp flip: snap)
  moreover have "0 < length (enc p)" for p using codec(2) by simp
  ultimately have "readPersist dec (MakeDiskPersister dir (fold do_op ops fs)) = ?p"
    using assms(4) unfolding persist_to_parts [OF assms(3)]
    by (auto simp: readPersist_def MakeDiskPersister_def RaftStateSize_def codec(1) atomicWrite_done Suc_le_eq Let_def)
  then show ?thesis by (simp add: reopened_def)
qed

text \<open>
  C20. \<open>Snapshot\<close> saves the shortened log and the snapshot it needs one after the other. A process that
  stops in between starts again with the log of the new snapshot and the old snapshot, and what it takes
  to be applied begins behind the new one: the commands between the two are in neither.
\<close>

theorem torn_save:
  assumes codec: "\<And>p. dec (enc p) = Some p" "\<And>p. enc p \<noteq> []"
    and "entry_at rf i = Some e" "rf_lastIncludedIndex rf < i" "data \<noteq> []"
    and "persist_to enc (SnapshotAt i data rf) (MakeDiskPersister dir fs) = (dp, ops)"
  shows "\<exists>rf'. reopened dec dir me (stopped_at 2 n ops fs) = rf' \<and> rf_lastIncludedIndex rf' = i \<and>
    rf_lastApplied rf' = i \<and> rf_log rf' = rf_log (SnapshotAt i data rf) \<and>
    rf_snapshot rf' = (case fs (dir @ ''/snapshot'') of None \<Rightarrow> [] | Some d \<Rightarrow> d)"
proof -
  let ?rf = "SnapshotAt i data rf" and ?S = "dir @ ''/snapshot''"
  have rf: "rf_lastIncludedIndex ?rf = i" "rf_snapshot ?rf = data"
    using assms(3,4) by (simp_all add: SnapshotAt_def persist_def)
  define fs1 where "fs1 = fold do_op (atomicWrite (dir @ ''/raftstate'') (enc ((rf_persisted (persist ?rf))\<lparr>ps_snapshot := []\<rparr>))) fs"
  have st: "stopped_at 2 n ops fs = stopped_at 0 n (atomicWrite ?S data) fs1"
    using assms(5) unfolding persist_to_parts [OF assms(6)] by (simp add: stopped_at_append rf fs1_def)
  have "stopped_at 0 n (atomicWrite ?S data) fs1 q = fs1 q" if "q \<noteq> dir @ ''/snapshot.tmp''" for q
    using that by (simp add: stopped_at_def atomicWrite_def)
  then have disk: "stopped_at 2 n ops fs (dir @ ''/raftstate'') = Some (enc ((rf_persisted (persist ?rf))\<lparr>ps_snapshot := []\<rparr>))"
      "stopped_at 2 n ops fs ?S = fs ?S"
    by (simp_all add: st fs1_def atomicWrite_done)
  have "0 < length (enc p)" for p using codec(2) by simp
  then have "readPersist dec (MakeDiskPersister dir (stopped_at 2 n ops fs)) =
      (rf_persisted (persist ?rf))\<lparr>ps_snapshot := (case fs ?S of None \<Rightarrow> [] | Some d \<Rightarrow> d)\<rparr>"
    by (simp add: readPersist_def MakeDiskPersister_def RaftStateSize_def codec(1) disk Suc_le_eq Let_def)
  then show ?thesis by (simp add: reopened_def MakeRaft_def persist_def rf)
qed

text \<open>There are such encodings, here of states whose commands are empty.\<close>

definition raft_tuple :: "unit raft_state \<Rightarrow> nat \<times> nat option \<times> (nat \<times> nat option) list \<times> nat \<times> nat \<times> nat list" where
  "raft_tuple p = (ps_currentTerm p, ps_votedFor p,
     map (\<lambda>e. (le_Term e, map_option (\<lambda>x. unat (op_Id x)) (le_Command e))) (ps_log p),
     ps_lastIncludedIndex p, ps_lastIncludedTerm p, map unat (ps_snapshot p))"

lemma raft_tuple_inj: "inj raft_tuple"
proof (rule injI)
  fix p q :: "unit raft_state" assume eq: "raft_tuple p = raft_tuple q"
  have inj_byte: "inj (unat :: byte \<Rightarrow> nat)" by (rule injI) (simp add: word_unat_eq_iff)
  have op: "inj (\<lambda>x :: unit op. unat (op_Id x))" by (rule injI) (simp add: word_unat_eq_iff)
  have "inj (\<lambda>e :: unit log_entry. (le_Term e, map_option (\<lambda>x. unat (op_Id x)) (le_Command e)))"
    by (rule injI) (auto dest: injD [OF option.inj_map [OF op]])
  then have "ps_log p = ps_log q" using eq by (auto simp: raft_tuple_def dest: injD [OF list.inj_map])
  moreover have "ps_snapshot p = ps_snapshot q"
    using eq injD [OF list.inj_map [OF inj_byte]] by (auto simp: raft_tuple_def)
  ultimately show "p = q" using eq by (simp add: raft_tuple_def)
qed

lemma raft_codec:
  obtains enc dec where "\<And>p :: unit raft_state. dec (enc p) = Some p" "\<And>p. enc p \<noteq> ([] :: byte list)"
proof -
  define enc where "enc p = replicate (Suc (to_nat (raft_tuple p))) (0 :: byte)" for p
  define dec where "dec b = Some (inv raft_tuple (from_nat (length b - 1)))" for b :: "byte list"
  show thesis by (rule that [of dec enc]) (simp_all add: enc_def dec_def inv_f_f [OF raft_tuple_inj])
qed

theorem torn_save_witness:
  "\<exists>(enc :: unit raft_state \<Rightarrow> byte list) (dec :: byte list \<Rightarrow> unit raft_state option) rf' ops.
    ops = snd (persist_to enc (SnapshotAt 1 [7] (snd (StartCommand \<lparr>op_Req = (), op_Id = 1\<rparr>
      ((MakeRaft 0 no_state)\<lparr>rf_currentRole := Leader\<rparr>)))) (MakeDiskPersister ''d'' Map.empty)) \<and>
    reopened dec ''d'' 0 (stopped_at 2 0 ops Map.empty) = rf' \<and> rf_lastApplied rf' = 1 \<and> rf_snapshot rf' = []"
proof -
  obtain enc dec where c: "\<And>p :: unit raft_state. dec (enc p) = Some p" "\<And>p. enc p \<noteq> ([] :: byte list)"
    by (rule raft_codec) blast
  define rf where "rf = snd (StartCommand \<lparr>op_Req = (), op_Id = 1\<rparr> ((MakeRaft 0 no_state)\<lparr>rf_currentRole := Leader\<rparr>))"
  have rf: "entry_at rf 1 = Some \<lparr>le_Term = 0, le_Command = Some \<lparr>op_Req = (), op_Id = 1\<rparr>\<rparr>" "rf_lastIncludedIndex rf < 1"
    by (simp_all add: rf_def StartCommand_def MakeRaft_def no_state_def persist_def entry_at_def)
  obtain dp ops where ops: "persist_to enc (SnapshotAt 1 [7] rf) (MakeDiskPersister ''d'' Map.empty) = (dp, ops)" by fastforce
  obtain rf' where "reopened dec ''d'' 0 (stopped_at 2 0 ops Map.empty) = rf' \<and> rf_lastIncludedIndex rf' = 1 \<and>
    rf_lastApplied rf' = 1 \<and> rf_log rf' = rf_log (SnapshotAt 1 [7] rf) \<and>
    rf_snapshot rf' = (case (Map.empty :: files) (''d'' @ ''/snapshot'') of None \<Rightarrow> [] | Some d \<Rightarrow> d)"
    using torn_save [OF c rf _ ops, of 0 0] by blast
  then have r: "reopened dec ''d'' 0 (stopped_at 2 0 ops Map.empty) = rf'" "rf_lastApplied rf' = 1" "rf_snapshot rf' = []"
    by simp_all
  have o: "ops = snd (persist_to enc (SnapshotAt 1 [7] rf) (MakeDiskPersister ''d'' Map.empty))" using ops by (simp only: snd_conv)
  show ?thesis unfolding rf_def [symmetric] 
    by (rule exI [of _ enc], rule exI [of _ dec], rule exI [of _ rf'], rule exI [of _ ops]) (intro conjI o r)
qed

end
