(* ===== verification/YUpdate.thy ===== *)
theory YUpdate
  imports YTyping "HOL-Library.AList"
begin

text \<open>
  The binary form of updates and state vectors (\<open>yjs/src/utils/encoding.js\<close>, \<open>UpdateEncoder.js\<close>,
  \<open>UpdateDecoder.js\<close>, version 1, \<open>DeleteSet.js\<close>, \<open>Item.write\<close>, \<open>GC.write\<close>), which the pages exchange: the
  whole document after an edit, a state vector on joining, and the answer to one. A \<open>Map\<close> is the list of
  its entries in order; \<open>cs\<close> are the keys of the store's map of clients. Updates that wait for others
  (\<open>pendingStructs\<close>, \<open>pendingDs\<close>) do not occur.
\<close>

unbundle bit_operations_syntax

section \<open>Writing\<close>

definition descending :: "(nat \<times> 'a) list \<Rightarrow> (nat \<times> 'a) list" where
  "descending xs = rev (sort_key fst xs)"

definition getStateVector :: "nat list \<Rightarrow> 'a doc_scheme \<Rightarrow> (nat \<times> nat) list" where
  "getStateVector cs d = map (\<lambda>c. (c, getState d c)) cs"

definition write_pairs :: "encoder \<Rightarrow> (nat \<times> nat) list \<Rightarrow> encoder" where
  "write_pairs e xs = fold (\<lambda>(c, k) e. writeVarUint (writeVarUint e c) k) xs e"

definition writeStateVector :: "encoder \<Rightarrow> (nat \<times> nat) list \<Rightarrow> encoder" where
  "writeStateVector e sv = write_pairs (writeVarUint e (length sv)) (descending sv)"

definition encodeStateVector :: "nat list \<Rightarrow> 'a doc_scheme \<Rightarrow> byte list" where
  "encodeStateVector cs d = toUint8Array (writeStateVector createEncoder (getStateVector cs d))"

text \<open>Structs, without their first units if the receiver has them.\<close>

fun content_ref :: "content \<Rightarrow> nat" where
  "content_ref (ContentString s) = 4"
| "content_ref (ContentDeleted n) = 1"

definition item_info :: "wire_item \<Rightarrow> nat" where
  "item_info w = ((content_ref (w_content w) AND 31) OR (if w_origin w = None then 0 else 128)) OR
     (if w_rightOrigin w = None then 0 else 64)"

definition write_id_opt :: "encoder \<Rightarrow> ID option \<Rightarrow> encoder" where
  "write_id_opt e x = (case x of None \<Rightarrow> e | Some i \<Rightarrow> writeID e i)"

fun write_content :: "encoder \<Rightarrow> content \<Rightarrow> encoder" where
  "write_content e (ContentString s) = writeVarString e s"
| "write_content e (ContentDeleted n) = writeVarUint e n"

definition write_wire_item :: "encoder \<Rightarrow> wire_item \<Rightarrow> encoder" where
  "write_wire_item e w =
     (let e1 = write_id_opt (write_id_opt (writeUint8 e (item_info w)) (w_origin w)) (w_rightOrigin w);
          e2 = (if w_origin w = None \<and> w_rightOrigin w = None
                then (case w_parent w of None \<Rightarrow> e1 | Some n \<Rightarrow> writeVarString (writeVarUint e1 1) n)
                else e1)
      in write_content e2 (w_content w))"

fun write_wire :: "encoder \<Rightarrow> wire_struct \<Rightarrow> encoder" where
  "write_wire e (WGC n) = writeVarUint (writeUint8 e 0) n"
| "write_wire e (WSkip n) = writeVarUint (writeUint8 e 10) n"
| "write_wire e (WItem w) = write_wire_item e w"

fun struct_wire :: "ID \<Rightarrow> struct \<Rightarrow> nat \<Rightarrow> wire_struct" where
  "struct_wire a (GC n) offset = WGC (n - offset)"
| "struct_wire a (Item it) offset = WItem (write_item a it offset)"

definition wire_at :: "'a doc_scheme \<Rightarrow> ID \<Rightarrow> nat \<Rightarrow> wire_struct" where
  "wire_at d a offset = (case heap d a of None \<Rightarrow> WGC 0 | Some s \<Rightarrow> struct_wire a s offset)"

definition wires_from :: "'a doc_scheme \<Rightarrow> nat \<Rightarrow> nat \<Rightarrow> nat \<Rightarrow> wire_struct list" where
  "wires_from d c i offset = (case drop i (clocks d c) of
     [] \<Rightarrow> [] | k # ks \<Rightarrow> wire_at d (ID c k) offset # map (\<lambda>k. wire_at d (ID c k) 0) ks)"

definition write_wires :: "encoder \<Rightarrow> wire_struct list \<Rightarrow> encoder" where
  "write_wires e ws = fold (\<lambda>w e. write_wire e w) ws e"

definition writeStructs :: "'a doc_scheme \<Rightarrow> nat \<times> nat \<Rightarrow> encoder \<Rightarrow> encoder result" where
  "writeStructs d = (\<lambda>(c, k) e.
     (let ks = clocks d c; k1 = max k (hd ks) in
      case findIndexSS (ranges_of d c) k1 of
        Inl err \<Rightarrow> Inl err
      | Inr i \<Rightarrow> Inr (write_wires (writeVarUint (writeVarUint (writeVarUint e (length ks - i)) c) k1)
                        (wires_from d c i (k1 - ks ! i)))))"

text \<open>The clients with something new, and from which clock.\<close>

definition new_clients :: "nat list \<Rightarrow> 'a doc_scheme \<Rightarrow> (nat \<times> nat) list \<Rightarrow> (nat \<times> nat) list" where
  "new_clients cs d sv = filter (\<lambda>(c, k). k < getState d c) sv @
     map (\<lambda>c. (c, 0)) (filter (\<lambda>c. c \<notin> set (map fst sv)) cs)"

fun write_each :: "('b \<Rightarrow> encoder \<Rightarrow> encoder result) \<Rightarrow> 'b list \<Rightarrow> encoder \<Rightarrow> encoder result" where
  "write_each f [] e = Inr e"
| "write_each f (x # xs) e = (case f x e of Inl err \<Rightarrow> Inl err | Inr e1 \<Rightarrow> write_each f xs e1)"

definition writeClientsStructs :: "encoder \<Rightarrow> nat list \<Rightarrow> 'a doc_scheme \<Rightarrow> (nat \<times> nat) list \<Rightarrow> encoder result" where
  "writeClientsStructs e cs d sv =
     write_each (writeStructs d) (descending (new_clients cs d sv)) (writeVarUint e (length (new_clients cs d sv)))"

text \<open>The delete set of a document: runs of deleted structs.\<close>

definition struct_deleted :: "'a doc_scheme \<Rightarrow> ID \<Rightarrow> bool" where
  "struct_deleted d a = (case heap d a of Some (Item it) \<Rightarrow> it_deleted it | _ \<Rightarrow> True)"

function deleted_runs :: "(nat \<times> nat \<times> bool) list \<Rightarrow> ranges" where
  "deleted_runs [] = []"
| "deleted_runs ((k, l, b) # xs) = (if b
     then (k, l + sum_list (map (\<lambda>(k, l, b). l) (takeWhile (\<lambda>(k, l, b). b) xs))) #
       deleted_runs (dropWhile (\<lambda>(k, l, b). b) xs)
     else deleted_runs xs)"
  by pat_completeness auto
termination
  by (relation "measure length") (auto simp: le_imp_less_Suc length_dropWhile_le)

definition createDeleteSetFromStructStore :: "nat list \<Rightarrow> 'a doc_scheme \<Rightarrow> (nat \<times> ranges) list" where
  "createDeleteSetFromStructStore cs d = filter (\<lambda>(c, rs). rs \<noteq> [])
     (map (\<lambda>c. (c, deleted_runs (map (\<lambda>k. (k, length_at d (ID c k), struct_deleted d (ID c k))) (clocks d c)))) cs)"

definition write_ds_entry :: "encoder \<Rightarrow> nat \<times> ranges \<Rightarrow> encoder" where
  "write_ds_entry e = (\<lambda>(c, rs). write_pairs (writeVarUint (writeVarUint e c) (length rs)) rs)"

definition writeDeleteSet :: "encoder \<Rightarrow> (nat \<times> ranges) list \<Rightarrow> encoder" where
  "writeDeleteSet e ds = fold (\<lambda>x e. write_ds_entry e x) (descending ds) (writeVarUint e (length ds))"

section \<open>Reading\<close>

definition map_sets :: "('k \<times> 'v) list \<Rightarrow> ('k \<times> 'v) list" where
  "map_sets xs = fold (\<lambda>(k, v) m. AList.update k v m) xs []"

definition read_return :: "'b \<Rightarrow> 'b reader" where
  "read_return x = (\<lambda>d. Inr (x, d))"

definition read_bind :: "'b reader \<Rightarrow> ('b \<Rightarrow> 'c reader) \<Rightarrow> 'c reader" where
  "read_bind rd f = (\<lambda>d. case rd d of Inl err \<Rightarrow> Inl err | Inr (x, d1) \<Rightarrow> f x d1)"

definition read_map :: "('b \<Rightarrow> 'c) \<Rightarrow> 'b reader \<Rightarrow> 'c reader" where
  "read_map f rd = read_bind rd (\<lambda>x. read_return (f x))"

definition read_if :: "bool \<Rightarrow> 'b reader \<Rightarrow> 'b option reader" where
  "read_if b rd = (if b then read_map Some rd else read_return None)"

definition read_pair :: "(nat \<times> nat) reader" where
  "read_pair = read_bind readVarUint (\<lambda>c. read_map (\<lambda>k. (c, k)) readVarUint)"

text \<open>A count and as many values.\<close>

definition read_counted :: "'b reader \<Rightarrow> 'b list reader" where
  "read_counted rd = read_bind readVarUint (\<lambda>n. read_times n rd)"

definition readStateVector :: "(nat \<times> nat) list reader" where
  "readStateVector = read_map map_sets (read_counted read_pair)"

definition decodeStateVector :: "byte list \<Rightarrow> (nat \<times> nat) list result" where
  "decodeStateVector bs = (case readStateVector (createDecoder bs) of Inl err \<Rightarrow> Inl err | Inr (sv, d) \<Rightarrow> Inr sv)"

text \<open>What is read of a struct. A parent may also be given by the ID of its item, and contents may be of
  kinds that a text does not have; how those are read is a parameter.\<close>

datatype parent_ref = RootType jsstring | ParentItem ID

record 'c ref_item =
  ri_origin :: "ID option"
  ri_rightOrigin :: "ID option"
  ri_parent :: "parent_ref option"
  ri_parentSub :: "jsstring option"
  ri_content :: "content + 'c"

datatype 'c ref = RefGC nat | RefSkip nat | RefItem "'c ref_item"

record 'c other_contents =
  oc_read :: "nat \<Rightarrow> 'c reader"
  oc_length :: "'c \<Rightarrow> nat"

text \<open>\<open>undefined\<close>, read behind the end, is 0 in a bit operation.\<close>

definition readInfo :: "decoder \<Rightarrow> nat \<times> decoder" where
  "readInfo d = (case readUint8 d of (None, d1) \<Rightarrow> (0, d1) | (Some b, d1) \<Rightarrow> (unat b, d1))"

definition readItemContent :: "'c other_contents \<Rightarrow> nat \<Rightarrow> (content + 'c) reader" where
  "readItemContent oc info =
     (let n = info AND 31 in
      if n = 0 \<or> n = 10 then (\<lambda>d. Inl UnexpectedCase)
      else if n = 1 then read_map (\<lambda>n. Inl (ContentDeleted n)) readVarUint
      else if n = 4 then read_map (\<lambda>s. Inl (ContentString s)) readVarString
      else if n < 10 then read_map Inr (oc_read oc n)
      else (\<lambda>d. Inl TypeErr))"

definition read_parent :: "parent_ref reader" where
  "read_parent = read_bind readVarUint
     (\<lambda>n. if n = 1 then read_map RootType readVarString else read_map ParentItem readID)"

definition read_item :: "'c other_contents \<Rightarrow> nat \<Rightarrow> 'c ref_item reader" where
  "read_item oc info =
     (let cantCopyParentInfo = (info AND (64 OR 128) = 0) in
      read_bind (read_if (info AND 128 = 128) readID) (\<lambda>origin.
      read_bind (read_if (info AND 64 = 64) readID) (\<lambda>right.
      read_bind (read_if cantCopyParentInfo read_parent) (\<lambda>parent.
      read_bind (read_if (cantCopyParentInfo \<and> info AND 32 = 32) readVarString) (\<lambda>sub.
      read_map (\<lambda>x. \<lparr>ri_origin = origin, ri_rightOrigin = right, ri_parent = parent, ri_parentSub = sub,
        ri_content = x\<rparr>) (readItemContent oc info))))))"

definition read_ref :: "'c other_contents \<Rightarrow> 'c ref reader" where
  "read_ref oc d =
     (let (info, d1) = readInfo d in
      if info AND 31 = 0 then read_map RefGC readVarUint d1
      else if info AND 31 = 10 then read_map RefSkip readVarUint d1
      else read_map RefItem (read_item oc info) d1)"

fun ref_length :: "'c other_contents \<Rightarrow> 'c ref \<Rightarrow> nat" where
  "ref_length oc (RefGC n) = n"
| "ref_length oc (RefSkip n) = n"
| "ref_length oc (RefItem r) = (case ri_content r of Inl x \<Rightarrow> getLength x | Inr x \<Rightarrow> oc_length oc x)"

text \<open>The structs of a client with their IDs.\<close>

fun with_ids :: "'c other_contents \<Rightarrow> nat \<Rightarrow> nat \<Rightarrow> 'c ref list \<Rightarrow> (ID \<times> 'c ref) list" where
  "with_ids oc c k [] = []"
| "with_ids oc c k (r # rs) = (createID c k, r) # with_ids oc c (k + ref_length oc r) rs"

definition read_client_refs :: "'c other_contents \<Rightarrow> (nat \<times> (ID \<times> 'c ref) list) reader" where
  "read_client_refs oc =
     read_bind readVarUint (\<lambda>n. read_bind read_pair (\<lambda>(c, k).
       read_map (\<lambda>rs. (c, with_ids oc c k rs)) (read_times n (read_ref oc))))"

definition readClientsStructRefs :: "'c other_contents \<Rightarrow> (nat \<times> (ID \<times> 'c ref) list) list reader" where
  "readClientsStructRefs oc = read_map map_sets (read_counted (read_client_refs oc))"

definition read_ds_entry :: "(nat \<times> ranges) reader" where
  "read_ds_entry = read_bind readVarUint (\<lambda>c. read_map (\<lambda>rs. (c, rs)) (read_counted read_pair))"

text \<open>A client without ranges is left out; more of a client are added to those it has.\<close>

definition add_ranges :: "nat \<times> ranges \<Rightarrow> (nat \<times> ranges) list \<Rightarrow> (nat \<times> ranges) list" where
  "add_ranges = (\<lambda>(c, rs) m. if rs = [] then m
     else AList.update c ((case map_of m c of None \<Rightarrow> [] | Some qs \<Rightarrow> qs) @ rs) m)"

definition readDeleteSet :: "(nat \<times> ranges) list reader" where
  "readDeleteSet = read_map (\<lambda>xs. fold add_ranges xs []) (read_counted read_ds_entry)"

section \<open>Updates\<close>

definition encodeStateAsUpdate :: "nat list \<Rightarrow> 'a doc_scheme \<Rightarrow> byte list \<Rightarrow> byte list result" where
  "encodeStateAsUpdate cs d encodedTargetStateVector =
     (case decodeStateVector encodedTargetStateVector of Inl err \<Rightarrow> Inl err | Inr sv \<Rightarrow>
     (case writeClientsStructs createEncoder cs d sv of Inl err \<Rightarrow> Inl err | Inr e \<Rightarrow>
        Inr (toUint8Array (writeDeleteSet e (createDeleteSetFromStructStore cs d)))))"

text \<open>What \<open>applyUpdate\<close> reads.\<close>

definition read_update :: "'c other_contents \<Rightarrow>
    ((nat \<times> (ID \<times> 'c ref) list) list \<times> (nat \<times> ranges) list) reader" where
  "read_update oc = read_bind (readClientsStructRefs oc) (\<lambda>refs. read_map (\<lambda>ds. (refs, ds)) readDeleteSet)"

end
