(* ===== verification/YApply.thy ===== *)
theory YApply
  imports YUpdate
begin

text \<open>
  Applying an update (\<open>readUpdate\<close> and \<open>integrateStructs\<close> in \<open>yjs/src/utils/encoding.js\<close>,
  \<open>readAndApplyDeleteSet\<close> in \<open>DeleteSet.js\<close>). The structs of an update are integrated client by client,
  the largest first; a struct that refers to one that is not there yet waits on a stack until the
  structs of that client are integrated. What refers to structs that neither the document nor the
  update has is set aside, with the states that are missing, and waits in the store until an update brings
  them. The structs are those of a text; the encoding of what waits (version 2) is an argument.
\<close>

type_synonym wires = "(ID \<times> wire_struct) list"

section \<open>Readers of the structs of a client\<close>

text \<open>\<open>clientsStructRefs\<close>: for a client, how many of its structs have been taken, and the structs. An
  object that was removed from it has no structs.\<close>

type_synonym struct_readers = "(nat \<times> nat \<times> wires) list"

definition reader_of :: "struct_readers \<Rightarrow> nat \<Rightarrow> nat \<times> wires" where
  "reader_of rs c = (case map_of rs c of None \<Rightarrow> (0, []) | Some r \<Rightarrow> r)"

text \<open>\<open>getNextStructTarget\<close>; the IDs are listed from the end of the array.\<close>

fun getNextStructTarget :: "struct_readers \<Rightarrow> nat list \<Rightarrow> (nat option \<times> nat list) result" where
  "getNextStructTarget rs [] = Inr (None, [])"
| "getNextStructTarget rs (c # cs) = (case map_of rs c of
     None \<Rightarrow> Inl TypeErr
   | Some (i, refs) \<Rightarrow> if length refs = i then getNextStructTarget rs cs else Inr (Some c, c # cs))"

section \<open>The state of the loop\<close>

record 'a integration =
  ig_doc :: "'a transaction_scheme"
  ig_ids :: "nat list"
  ig_readers :: struct_readers
  ig_target :: nat
  ig_stack :: wires
  ig_head :: "ID \<times> wire_struct"
  ig_rest :: "(nat \<times> wires) list"
  ig_missing :: "(nat \<times> nat) list"
  ig_state :: "nat \<Rightarrow> nat option"

datatype 'a progress = Again "'a integration" | Finished "'a integration" | Failed js_error

text \<open>\<open>refs[i++]\<close> of a client.\<close>

definition take_struct :: "nat \<Rightarrow> 'a integration \<Rightarrow> 'a progress" where
  "take_struct c s = (case reader_of (ig_readers s) c of (i, refs) \<Rightarrow>
     if i < length refs
     then Again (s\<lparr>ig_head := refs ! i, ig_readers := AList.update c (Suc i, refs) (ig_readers s)\<rparr>)
     else Failed TypeErr)"

definition updateMissingSv :: "nat \<Rightarrow> nat \<Rightarrow> 'a integration \<Rightarrow> 'a integration" where
  "updateMissingSv c k s = (case map_of (ig_missing s) c of
     None \<Rightarrow> s\<lparr>ig_missing := AList.update c k (ig_missing s)\<rparr>
   | Some m \<Rightarrow> if k < m then s\<lparr>ig_missing := AList.update c k (ig_missing s)\<rparr> else s)"

text \<open>One item of the stack in \<open>addStackToRestSS\<close>; the stack's top comes last.\<close>

definition add_to_rest :: "ID \<times> wire_struct \<Rightarrow> 'a integration \<Rightarrow> 'a integration" where
  "add_to_rest x s =
     (let c = client (fst x);
          s1 = (case map_of (ig_readers s) c of
              Some (i, refs) \<Rightarrow> s\<lparr>ig_rest := AList.update c (drop (i - 1) refs) (ig_rest s),
                ig_readers := AList.delete c (ig_readers s)\<rparr>
            | None \<Rightarrow> s\<lparr>ig_rest := AList.update c [x] (ig_rest s)\<rparr>)
      in s1\<lparr>ig_ids := filter (\<lambda>k. k \<noteq> c) (ig_ids s1)\<rparr>)"

definition addStackToRestSS :: "'a integration \<Rightarrow> 'a integration" where
  "addStackToRestSS s = (fold add_to_rest (rev (ig_stack s)) s)\<lparr>ig_stack := []\<rparr>"

text \<open>On to the next struct: the one on top of the stack, the next one of the client, or of the next client.\<close>

definition next_head :: "'a integration \<Rightarrow> 'a progress" where
  "next_head s = (case ig_stack s of
     x # xs \<Rightarrow> Again (s\<lparr>ig_head := x, ig_stack := xs\<rparr>)
   | [] \<Rightarrow> (case reader_of (ig_readers s) (ig_target s) of (i, refs) \<Rightarrow>
       if i < length refs then take_struct (ig_target s) s
       else (case getNextStructTarget (ig_readers s) (ig_ids s) of
           Inl e \<Rightarrow> Failed e
         | Inr (None, ids) \<Rightarrow> Finished (s\<lparr>ig_ids := ids\<rparr>)
         | Inr (Some c, ids) \<Rightarrow> take_struct c (s\<lparr>ig_ids := ids, ig_target := c\<rparr>))))"

section \<open>One round\<close>

definition nothing_found :: found where
  "nothing_found = \<lparr>f_left = None, f_right = None, f_origin = None, f_rightOrigin = None, f_parent = None\<rparr>"

fun wire_missing :: "ID \<Rightarrow> wire_struct \<Rightarrow> 'a transaction_scheme \<Rightarrow> (nat + found \<times> 'a transaction_scheme) result" where
  "wire_missing a (WItem w) t = getMissing a w t"
| "wire_missing a w t = Inr (Inr (nothing_found, t))"

fun integrate_wire :: "ID \<Rightarrow> wire_struct \<Rightarrow> found \<Rightarrow> nat \<Rightarrow> 'a transaction_scheme \<Rightarrow> 'a transaction_scheme result" where
  "integrate_wire a (WItem w) f offset t = integrate_found a (w_content w) f offset t"
| "integrate_wire a (WGC n) f offset t = addStruct t (createID (client a) (clock a + offset)) (GC (n - offset))"
| "integrate_wire a (WSkip n) f offset t = Inl UnexpectedCase"

definition push_head :: "'a integration \<Rightarrow> 'a integration" where
  "push_head s = s\<lparr>ig_stack := ig_head s # ig_stack s\<rparr>"

definition set_aside :: "nat \<Rightarrow> nat \<Rightarrow> 'a integration \<Rightarrow> 'a progress" where
  "set_aside c k s = next_head (addStackToRestSS (updateMissingSv c k s))"

definition integrate_round :: "'a integration \<Rightarrow> 'a progress" where
  "integrate_round s =
     (let (a, w) = ig_head s; c = client a in
      case w of WSkip n \<Rightarrow> next_head s
      | _ \<Rightarrow>
        (let local = (case ig_state s c of Some k \<Rightarrow> k | None \<Rightarrow> getState (ig_doc s) c);
             s1 = s\<lparr>ig_state := (ig_state s)(c \<mapsto> local)\<rparr>
         in if local < clock a then set_aside c (clock a - 1) (push_head s1)
            else case wire_missing a w (ig_doc s1) of
              Inl e \<Rightarrow> Failed e
            | Inr (Inl m) \<Rightarrow>
                (case reader_of (ig_readers s1) m of (i, refs) \<Rightarrow>
                  if length refs = i then set_aside m (getState (ig_doc s1) m) (push_head s1)
                  else take_struct m (push_head s1))
            | Inr (Inr (f, t1)) \<Rightarrow>
                (let offset = local - clock a in
                 if offset = 0 \<or> offset < wire_length w
                 then (case integrate_wire a w f offset t1 of
                     Inl e \<Rightarrow> Failed e
                   | Inr t2 \<Rightarrow> next_head (s1\<lparr>ig_doc := t2, ig_state := (ig_state s1)(c \<mapsto> clock a + wire_length w)\<rparr>))
                 else next_head (s1\<lparr>ig_doc := t1\<rparr>))))"

partial_function (option) integrate_loop :: "'a integration \<Rightarrow> 'a integration result option" where
  "integrate_loop s = (case integrate_round s of
     Again s1 \<Rightarrow> integrate_loop s1
   | Finished s1 \<Rightarrow> Some (Inr s1)
   | Failed e \<Rightarrow> Some (Inl e))"

text \<open>\<open>integrateStructs\<close>: the document, and what was set aside with the missing states, if anything was.
  \<open>refs\<close> are the entries of the map of what was read.\<close>

type_synonym set_aside_structs = "((nat \<times> nat) list \<times> (nat \<times> wires) list) option"

definition integrateStructs :: "(nat \<times> wires) list \<Rightarrow> 'a transaction_scheme \<Rightarrow>
    ('a transaction_scheme \<times> set_aside_structs) result option" where
  "integrateStructs refs t =
     (let readers = map (\<lambda>(c, ws). (c, 0, ws)) refs;
          s = \<lparr>ig_doc = t, ig_ids = rev (sort (map fst refs)), ig_readers = readers, ig_target = 0, ig_stack = [],
            ig_head = (ID 0 0, WSkip 0), ig_rest = [], ig_missing = [], ig_state = Map.empty\<rparr>
      in case getNextStructTarget readers (ig_ids s) of
        Inl e \<Rightarrow> Some (Inl e)
      | Inr (None, ids) \<Rightarrow> Some (Inr (t, None))
      | Inr (Some c, ids) \<Rightarrow>
          (case take_struct c (s\<lparr>ig_ids := ids, ig_target := c\<rparr>) of
             Again s1 \<Rightarrow> (case integrate_loop s1 of
                 None \<Rightarrow> None
               | Some (Inl e) \<Rightarrow> Some (Inl e)
               | Some (Inr s2) \<Rightarrow> Some (Inr (ig_doc s2, if ig_rest s2 = [] then None else Some (ig_missing s2, ig_rest s2))))
           | Finished s1 \<Rightarrow> Some (Inr (t, None))
           | Failed e \<Rightarrow> Some (Inl e)))"

section \<open>Deletions\<close>

text \<open>The structs of \<open>c\<close> from index \<open>i\<close> on (their clocks are listed) up to \<open>clockEnd\<close>. If one is split
  there, the next one begins at \<open>clockEnd\<close> and the loop ends.\<close>

fun delete_structs :: "nat \<Rightarrow> nat \<Rightarrow> nat \<Rightarrow> nat list \<Rightarrow> 'a transaction_scheme \<Rightarrow> 'a transaction_scheme" where
  "delete_structs c clockEnd i [] t = t"
| "delete_structs c clockEnd i (k # ks) t =
     (if k < clockEnd then
        (case heap t (ID c k) of
           Some (Item it) \<Rightarrow>
             if it_deleted it then delete_structs c clockEnd (Suc i) ks t
             else if clockEnd < k + it_length it
             then (let t1 = spliceSplit t c i it (clockEnd - k) in
               case heap t1 (ID c k) of Some (Item l) \<Rightarrow> deleteItem t1 (ID c k) l | _ \<Rightarrow> t1)
             else delete_structs c clockEnd (Suc i) ks (deleteItem t (ID c k) it)
         | _ \<Rightarrow> delete_structs c clockEnd (Suc i) ks t)
      else t)"

text \<open>A struct that is not deleted is split if the range begins inside it.\<close>

definition delete_range :: "nat \<Rightarrow> nat \<Rightarrow> nat \<Rightarrow> 'a transaction_scheme \<Rightarrow> 'a transaction_scheme result" where
  "delete_range c ck clockEnd t = (case findIndexSS (ranges_of t c) ck of
     Inl e \<Rightarrow> Inl e
   | Inr i \<Rightarrow>
       let k = clocks t c ! i;
           (i1, t1) = (case heap t (ID c k) of
              Some (Item it) \<Rightarrow> if \<not> it_deleted it \<and> k < ck then (Suc i, spliceSplit t c i it (ck - k)) else (i, t)
            | _ \<Rightarrow> (i, t))
       in Inr (delete_structs c clockEnd i1 (drop i1 (clocks t1 c)) t1))"

text \<open>The ranges of a client whose state is \<open>state\<close>, with the parts that cannot be deleted yet.\<close>

fun apply_ranges :: "nat \<Rightarrow> nat \<Rightarrow> ranges \<Rightarrow> 'a transaction_scheme \<times> (nat \<times> ranges) list \<Rightarrow>
    ('a transaction_scheme \<times> (nat \<times> ranges) list) result" where
  "apply_ranges c state [] (t, un) = Inr (t, un)"
| "apply_ranges c state ((ck, len) # rs) (t, un) =
     (if ck < state then
        (case delete_range c ck (ck + len) t of
           Inl e \<Rightarrow> Inl e
         | Inr t1 \<Rightarrow> apply_ranges c state rs
             (t1, if state < ck + len then add_ranges (c, [(state, ck + len - state)]) un else un))
      else apply_ranges c state rs (t, add_ranges (c, [(ck, len)]) un))"

fun apply_deletes :: "(nat \<times> ranges) list \<Rightarrow> 'a transaction_scheme \<times> (nat \<times> ranges) list \<Rightarrow>
    ('a transaction_scheme \<times> (nat \<times> ranges) list) result" where
  "apply_deletes [] x = Inr x"
| "apply_deletes ((c, rs) # ds) x = (case apply_ranges c (getState (fst x) c) rs x of
     Inl e \<Rightarrow> Inl e | Inr x1 \<Rightarrow> apply_deletes ds x1)"

definition readAndApplyDeleteSet :: "(nat \<times> ranges) list \<Rightarrow> 'a transaction_scheme \<Rightarrow>
    ('a transaction_scheme \<times> (nat \<times> ranges) list) result" where
  "readAndApplyDeleteSet ds t = apply_deletes ds (t, [])"

section \<open>Updates\<close>

text \<open>What waits in the store: structs, with the states that are missing, and deletions. Both wait as updates
  in the second encoding (\<open>'u\<close>), which is an argument: how structs and deletions are written in it, how two
  updates are merged, and what is read back, each of which may fail.\<close>

record 'u encoding_v2 =
  v2_write :: "(nat \<times> wires) list \<Rightarrow> (nat \<times> ranges) list \<Rightarrow> 'u"
  v2_merge :: "'u \<Rightarrow> 'u \<Rightarrow> 'u result"
  v2_read :: "'u \<Rightarrow> ((nat \<times> wires) list \<times> (nat \<times> ranges) list) result"

record 'u pending_structs =
  ps_missing :: "(nat \<times> nat) list"
  ps_update :: 'u

record 'u waiting =
  pendingStructs :: "'u pending_structs option"
  pendingDs :: "'u option"

definition nothing_waits :: "'u waiting" where
  "nothing_waits = \<lparr>pendingStructs = None, pendingDs = None\<rparr>"

text \<open>Whether something that waits may be applied now.\<close>

definition can_retry :: "'u pending_structs option \<Rightarrow> 'a transaction_scheme \<Rightarrow> bool" where
  "can_retry p t = (case p of None \<Rightarrow> False | Some x \<Rightarrow> list_ex (\<lambda>(c, k). k < getState t c) (ps_missing x))"

fun lower_missing :: "(nat \<times> nat) list \<Rightarrow> (nat \<times> nat) list \<Rightarrow> (nat \<times> nat) list" where
  "lower_missing [] ms = ms"
| "lower_missing ((c, k) # ks) ms = lower_missing ks (case map_of ms c of
     None \<Rightarrow> AList.update c k ms
   | Some m \<Rightarrow> if k < m then AList.update c k ms else ms)"

definition wait_structs :: "'u encoding_v2 \<Rightarrow> set_aside_structs \<Rightarrow> 'u pending_structs option \<Rightarrow> 'u pending_structs option result" where
  "wait_structs v rest p = (case p of
     None \<Rightarrow> Inr (map_option (\<lambda>(missing, refs). \<lparr>ps_missing = missing, ps_update = v2_write v refs []\<rparr>) rest)
   | Some x \<Rightarrow> (case rest of
       None \<Rightarrow> Inr (Some x)
     | Some (missing, refs) \<Rightarrow> (case v2_merge v (ps_update x) (v2_write v refs []) of
           Inl e \<Rightarrow> Inl e
         | Inr u \<Rightarrow> Inr (Some \<lparr>ps_missing = lower_missing missing (ps_missing x), ps_update = u\<rparr>))))"

definition ds_rest :: "'u encoding_v2 \<Rightarrow> (nat \<times> ranges) list \<Rightarrow> 'u option" where
  "ds_rest v un = (if un = [] then None else Some (v2_write v [] un))"

definition wait_deletes :: "'u encoding_v2 \<Rightarrow> 'u option \<Rightarrow> 'u option \<Rightarrow> 'a transaction_scheme \<Rightarrow>
    ('a transaction_scheme \<times> 'u option) result" where
  "wait_deletes v rest p t = (case p of
     None \<Rightarrow> Inr (t, rest)
   | Some u \<Rightarrow> (case v2_read v u of
       Inl e \<Rightarrow> Inl e
     | Inr (refs, ds) \<Rightarrow> (case readAndApplyDeleteSet ds t of
         Inl e \<Rightarrow> Inl e
       | Inr (t1, un) \<Rightarrow> (case (rest, ds_rest v un) of
           (Some u1, Some u2) \<Rightarrow> (case v2_merge v u1 u2 of Inl e \<Rightarrow> Inl e | Inr u3 \<Rightarrow> Inr (t1, Some u3))
         | (Some u1, None) \<Rightarrow> Inr (t1, Some u1)
         | (None, u2) \<Rightarrow> Inr (t1, u2)))))"

text \<open>The body of the transaction of \<open>readUpdate\<close>: the structs of a text that were read, and the entries of
  the delete set. When something that waits may be applied, the updates that wait are applied like one that
  was received; by then nothing waits any more.\<close>

partial_function (option) readUpdate :: "'u encoding_v2 \<Rightarrow> (nat \<times> wires) list \<Rightarrow> (nat \<times> ranges) list \<Rightarrow>
    'a transaction_scheme \<Rightarrow> 'u waiting \<Rightarrow> ('a transaction_scheme \<times> 'u waiting) result option" where
  "readUpdate v refs ds t w = (case integrateStructs refs t of
     None \<Rightarrow> None
   | Some (Inl e) \<Rightarrow> Some (Inl e)
   | Some (Inr (t1, rest)) \<Rightarrow> (case wait_structs v rest (pendingStructs w) of
       Inl e \<Rightarrow> Some (Inl e)
     | Inr p \<Rightarrow> (case readAndApplyDeleteSet ds t1 of
         Inl e \<Rightarrow> Some (Inl e)
       | Inr (t2, un) \<Rightarrow> (case wait_deletes v (ds_rest v un) (pendingDs w) t2 of
           Inl e \<Rightarrow> Some (Inl e)
         | Inr (t3, pd) \<Rightarrow>
             if can_retry (pendingStructs w) t1
             then (case p of
                 None \<Rightarrow> Some (Inl TypeErr)
               | Some x \<Rightarrow> (case v2_read v (ps_update x) of
                   Inl e \<Rightarrow> Some (Inl e)
                 | Inr (refs1, ds1) \<Rightarrow> readUpdate v refs1 ds1 t3 (w\<lparr>pendingStructs := None, pendingDs := pd\<rparr>)))
             else Some (Inr (t3, w\<lparr>pendingStructs := p, pendingDs := pd\<rparr>))))))"

text \<open>The structs that were read, if all of them are those of a text.\<close>

fun wire_of_ref :: "'c ref \<Rightarrow> wire_struct option" where
  "wire_of_ref (RefGC n) = Some (WGC n)"
| "wire_of_ref (RefSkip n) = Some (WSkip n)"
| "wire_of_ref (RefItem r) = (case ri_content r of Inr x \<Rightarrow> None | Inl x \<Rightarrow>
     (case ri_parent r of
        Some (ParentItem i) \<Rightarrow> None
      | p \<Rightarrow> if ri_parentSub r \<noteq> None then None else
          Some (WItem \<lparr>w_origin = ri_origin r, w_rightOrigin = ri_rightOrigin r,
            w_parent = (case p of Some (RootType n) \<Rightarrow> Some n | _ \<Rightarrow> None), w_content = x\<rparr>)))"

definition text_structs :: "(nat \<times> (ID \<times> 'c ref) list) list \<Rightarrow> (nat \<times> wires) list option" where
  "text_structs refs = those (map (\<lambda>(c, rs). map_option (Pair c)
     (those (map (\<lambda>(i, r). map_option (Pair i) (wire_of_ref r)) rs))) refs)"

end
