(* ===== verification/YUpdateSpec.thy ===== *)
theory YUpdateSpec
  imports YUpdate
begin

text \<open>
  What is written of a document is what is read: state vectors, structs, delete sets and whole updates.
  The answer to a state vector has exactly the structs that its sender misses.
\<close>

unbundle bit_operations_syntax

section \<open>Readers in sequence\<close>

text \<open>A reader at the start of \<open>bs\<close> returns \<open>x\<close> and stops behind it.\<close>

definition reads :: "'b reader \<Rightarrow> byte list \<Rightarrow> 'b \<Rightarrow> bool" where
  "reads rd bs x \<longleftrightarrow> (\<forall>d rest. remaining d = bs @ rest \<longrightarrow> rd d = Inr (x, advance (length bs) d))"

lemma readsD: "reads rd bs x \<Longrightarrow> remaining d = bs @ rest \<Longrightarrow> rd d = Inr (x, advance (length bs) d)"
  by (simp add: reads_def)

lemma reads_return: "reads (read_return x) [] x"
  by (simp add: reads_def advance_def read_return_def)

lemma reads_bind:
  assumes "reads rd bs x" "reads (f x) cs y"
  shows "reads (read_bind rd f) (bs @ cs) y"
  unfolding reads_def
proof (intro allI impI)
  fix d rest assume rem: "remaining d = (bs @ cs) @ rest"
  then have "rd d = Inr (x, advance (length bs) d)" using readsD [OF assms(1), of d "cs @ rest"] by simp
  moreover have "remaining (advance (length bs) d) = cs @ rest" using rem by (intro remaining_advance) simp
  ultimately show "read_bind rd f d = Inr (y, advance (length (bs @ cs)) d)"
    using readsD [OF assms(2)] by (simp add: read_bind_def)
qed

lemma reads_map: "reads rd bs x \<Longrightarrow> reads (read_map f rd) bs (f x)"
  using reads_bind [OF _ reads_return, of rd bs x "\<lambda>x. f x"] by (simp add: read_map_def)

lemma reads_if:
  "(b \<Longrightarrow> reads rd bs x) \<Longrightarrow> reads (read_if b rd) (if b then bs else []) (if b then Some x else None)"
  by (simp add: read_if_def reads_return reads_map)

lemma reads_uint: "n \<le> MAX_SAFE_INTEGER \<Longrightarrow> reads readVarUint (uint_bytes n) n"
  by (simp add: reads_def uint.rd_enc)

lemma reads_id: "id_ok i \<Longrightarrow> reads readID (id_bytes i) i"
  by (simp add: reads_def id.rd_enc)

lemma reads_string: "string_ok s \<Longrightarrow> reads readVarString (string_bytes s) s"
  by (simp add: reads_def str.rd_enc)

lemma read_times_Suc: "read_times (Suc n) rd = read_bind rd (\<lambda>x. read_map (\<lambda>xs. x # xs) (read_times n rd))"
  by (rule ext) (simp add: read_bind_def read_map_def read_return_def split: sum.split)

lemma reads_times:
  "(\<And>x. x \<in> set xs \<Longrightarrow> reads rd (b x) (g x)) \<Longrightarrow> reads (read_times (length xs) rd) (concat (map b xs)) (map g xs)"
proof (induction xs)
  case Nil
  then show ?case by (simp add: reads_def advance_def)
next
  case (Cons x xs)
  have "reads rd (b x) (g x)" using Cons.prems by simp
  moreover have "reads (read_times (length xs) rd) (concat (map b xs)) (map g xs)" using Cons by simp
  ultimately show ?case by (simp add: read_times_Suc reads_bind reads_map)
qed

definition counted_bytes :: "('b \<Rightarrow> byte list) \<Rightarrow> 'b list \<Rightarrow> byte list" where
  "counted_bytes b xs = uint_bytes (length xs) @ concat (map b xs)"

lemma reads_counted:
  assumes "length xs \<le> MAX_SAFE_INTEGER" "\<And>x. x \<in> set xs \<Longrightarrow> reads rd (b x) (g x)"
  shows "reads (read_counted rd) (counted_bytes b xs) (map g xs)"
  unfolding counted_bytes_def read_counted_def
  by (rule reads_bind, rule reads_uint, rule assms(1), rule reads_times, rule assms(2))

definition pair_bytes :: "nat \<times> nat \<Rightarrow> byte list" where
  "pair_bytes x = uint_bytes (fst x) @ uint_bytes (snd x)"

definition pair_ok :: "nat \<times> nat \<Rightarrow> bool" where
  "pair_ok x \<longleftrightarrow> fst x \<le> MAX_SAFE_INTEGER \<and> snd x \<le> MAX_SAFE_INTEGER"

lemma reads_pair:
  assumes "pair_ok x"
  shows "reads read_pair (pair_bytes x) x"
proof -
  have "fst x \<le> MAX_SAFE_INTEGER" "snd x \<le> MAX_SAFE_INTEGER" using assms by (simp_all add: pair_ok_def)
  then have "reads (read_bind readVarUint (\<lambda>c. read_map (\<lambda>k. (c, k)) readVarUint)) (pair_bytes x) (fst x, snd x)"
    unfolding pair_bytes_def by - (rule reads_bind, erule reads_uint, rule reads_map, erule reads_uint)
  then show ?thesis by (simp add: read_pair_def)
qed

section \<open>Writers in sequence\<close>

lemma fold_writes:
  assumes "\<And>x e. enc_ok e \<Longrightarrow> enc_ok (wr e x) \<and> enc_bytes (wr e x) = enc_bytes e @ b x"
  shows "enc_ok e \<Longrightarrow> enc_ok (fold (\<lambda>x e. wr e x) xs e) \<and>
    enc_bytes (fold (\<lambda>x e. wr e x) xs e) = enc_bytes e @ concat (map b xs)"
  by (induction xs arbitrary: e) (simp_all add: assms)

lemma write_pairs_ok [simp]: "enc_ok e \<Longrightarrow> enc_ok (write_pairs e xs)"
  and write_pairs_bytes [sink_simps]: "enc_ok e \<Longrightarrow> enc_bytes (write_pairs e xs) = enc_bytes e @ concat (map pair_bytes xs)"
  using fold_writes [of "\<lambda>e (c, k). writeVarUint (writeVarUint e c) k" pair_bytes e xs]
  by (simp_all add: write_pairs_def pair_bytes_def case_prod_beta' sink_simps)

section \<open>State vectors\<close>

lemma set_descending [simp]: "set (descending xs) = set xs"
  by (simp add: descending_def)

lemma length_descending [simp]: "length (descending xs) = length xs"
  by (simp add: descending_def)

lemma distinct_descending: "distinct (map fst xs) \<Longrightarrow> distinct (map fst (descending xs))"
  unfolding descending_def rev_map [symmetric] distinct_rev
  by (metis distinct_map distinct_sort set_sort inj_on_def)

lemma map_sets_distinct: "distinct (map fst xs) \<Longrightarrow> map_sets xs = xs"
proof -
  have "fold (\<lambda>(k, v) m. AList.update k v m) xs ys = ys @ xs" if "distinct (map fst (ys @ xs))" for ys
    using that
  proof (induction xs arbitrary: ys)
    case (Cons x xs)
    have "AList.update (fst x) (snd x) ys = ys @ [x]" using Cons.prems by (induction ys) auto
    with Cons.IH [of "ys @ [x]"] Cons.prems show ?case by (simp add: case_prod_beta')
  qed simp
  from this [of "[]"] show "distinct (map fst xs) \<Longrightarrow> map_sets xs = xs" by (simp add: map_sets_def)
qed

lemma map_of_descending: "distinct (map fst xs) \<Longrightarrow> map_of (descending xs) = map_of xs"
  using distinct_descending [of xs] set_descending [of xs] by (intro map_of_inject_set [THEN iffD2]) auto

text \<open>The state vector of a document is read as it is, its clients in descending order.\<close>

lemma decodeStateVector_encode:
  assumes "distinct cs" "\<And>c. c \<in> set cs \<Longrightarrow> c \<le> MAX_SAFE_INTEGER \<and> getState d c \<le> MAX_SAFE_INTEGER"
    and "length cs \<le> MAX_SAFE_INTEGER"
  shows "decodeStateVector (encodeStateVector cs d) = Inr (descending (getStateVector cs d))"
proof -
  let ?sv = "descending (getStateVector cs d)"
  have dist: "distinct (map fst ?sv)"
    by (rule distinct_descending) (simp add: getStateVector_def o_def assms(1))
  have bytes: "encodeStateVector cs d = counted_bytes pair_bytes ?sv"
    by (simp add: encodeStateVector_def writeStateVector_def toUint8Array_bytes sink_simps counted_bytes_def)
  have "reads (read_counted read_pair) (counted_bytes pair_bytes ?sv) (map (\<lambda>x. x) ?sv)"
    using assms by (intro reads_counted reads_pair) (auto simp: getStateVector_def pair_ok_def)
  then have "reads readStateVector (encodeStateVector cs d) (map_sets ?sv)"
    unfolding readStateVector_def bytes by (intro reads_map) simp
  from readsD [OF this, of "createDecoder (encodeStateVector cs d)" "[]"]
  show ?thesis by (simp add: decodeStateVector_def map_sets_distinct [OF dist])
qed

section \<open>Structs\<close>

text \<open>What is read of a struct that was written.\<close>

fun ref_of :: "wire_struct \<Rightarrow> 'c ref" where
  "ref_of (WGC n) = RefGC n"
| "ref_of (WSkip n) = RefSkip n"
| "ref_of (WItem w) = RefItem \<lparr>ri_origin = w_origin w, ri_rightOrigin = w_rightOrigin w,
     ri_parent = (if w_origin w = None \<and> w_rightOrigin w = None then map_option RootType (w_parent w) else None),
     ri_parentSub = None, ri_content = Inl (w_content w)\<rparr>"

definition opt_id_bytes :: "ID option \<Rightarrow> byte list" where
  "opt_id_bytes x = (case x of None \<Rightarrow> [] | Some i \<Rightarrow> id_bytes i)"

definition parent_bytes :: "wire_item \<Rightarrow> byte list" where
  "parent_bytes w = (if w_origin w = None \<and> w_rightOrigin w = None
     then (case w_parent w of None \<Rightarrow> [] | Some n \<Rightarrow> uint_bytes 1 @ string_bytes n) else [])"

fun content_bytes :: "content \<Rightarrow> byte list" where
  "content_bytes (ContentString s) = string_bytes s"
| "content_bytes (ContentDeleted n) = uint_bytes n"

fun wire_bytes :: "wire_struct \<Rightarrow> byte list" where
  "wire_bytes (WGC n) = 0 # uint_bytes n"
| "wire_bytes (WSkip n) = 10 # uint_bytes n"
| "wire_bytes (WItem w) = of_nat (item_info w) # opt_id_bytes (w_origin w) @ opt_id_bytes (w_rightOrigin w) @
     parent_bytes w @ content_bytes (w_content w)"

definition opt_id_ok :: "ID option \<Rightarrow> bool" where
  "opt_id_ok x \<longleftrightarrow> (case x of None \<Rightarrow> True | Some i \<Rightarrow> id_ok i)"

fun content_ok :: "content \<Rightarrow> bool" where
  "content_ok (ContentString s) = string_ok s"
| "content_ok (ContentDeleted n) = (n \<le> MAX_SAFE_INTEGER)"

text \<open>The structs that can be sent: numbers are safe integers and strings have no lone surrogates.\<close>

fun wire_ok :: "wire_struct \<Rightarrow> bool" where
  "wire_ok (WGC n) = (n \<le> MAX_SAFE_INTEGER)"
| "wire_ok (WSkip n) = (n \<le> MAX_SAFE_INTEGER)"
| "wire_ok (WItem w) = (opt_id_ok (w_origin w) \<and> opt_id_ok (w_rightOrigin w) \<and> content_ok (w_content w) \<and>
     (w_origin w = None \<and> w_rightOrigin w = None \<longrightarrow> (case w_parent w of None \<Rightarrow> False | Some n \<Rightarrow> string_ok n)))"

lemma item_info_bits:
  "item_info w < 256" "item_info w AND 31 = content_ref (w_content w)"
  "(item_info w AND 128 = 128) = (w_origin w \<noteq> None)" "(item_info w AND 64 = 64) = (w_rightOrigin w \<noteq> None)"
  "(item_info w AND (64 OR 128) = 0) = (w_origin w = None \<and> w_rightOrigin w = None)" "item_info w AND 32 \<noteq> 32"
  by (cases "w_content w"; cases "w_origin w = None"; cases "w_rightOrigin w = None"; simp add: item_info_def)+

lemma write_wire_spec:
  "enc_ok e \<Longrightarrow> enc_ok (write_wire e w) \<and> enc_bytes (write_wire e w) = enc_bytes e @ wire_bytes w"
proof (cases w)
  case (WItem i)
  assume e: "enc_ok e"
  have opt: "enc_ok (write_id_opt f x) \<and> enc_bytes (write_id_opt f x) = enc_bytes f @ opt_id_bytes x" if "enc_ok f" for f x
    using that by (simp add: write_id_opt_def opt_id_bytes_def sink_simps split: option.split)
  have cont: "enc_ok (write_content f x) \<and> enc_bytes (write_content f x) = enc_bytes f @ content_bytes x" if "enc_ok f" for f x
    using that by (cases x) (simp_all add: sink_simps)
  show ?thesis
    using e by (simp add: WItem write_wire_item_def Let_def opt cont writeUint8_def sink_simps parent_bytes_def split: option.split)
qed (simp_all add: writeUint8_def sink_simps)

lemma reads_info: "remaining d = b # bs \<Longrightarrow> readInfo d = (unat b, advance 1 d) \<and> remaining (advance 1 d) = bs"
  using remaining_Cons [of d b bs] by (simp add: readInfo_def readUint8_def advance_def)

lemma reads_opt_id: "opt_id_ok x \<Longrightarrow> reads (read_if (x \<noteq> None) readID) (opt_id_bytes x) x"
  using reads_if [of "x \<noteq> None" readID "id_bytes (the x)" "the x"]
  by (auto simp: opt_id_ok_def opt_id_bytes_def reads_id split: option.split_asm)

lemma reads_content:
  assumes "content_ok x" "info AND 31 = content_ref x"
  shows "reads (readItemContent oc info) (content_bytes x) (Inl x)"
proof (cases x)
  case (ContentString s)
  then show ?thesis using assms reads_map [OF reads_string, of s "\<lambda>s. Inl (ContentString s)"]
    by (simp add: readItemContent_def Let_def)
next
  case (ContentDeleted n)
  then show ?thesis using assms reads_map [OF reads_uint, of n "\<lambda>n. Inl (ContentDeleted n)"]
    by (simp add: readItemContent_def Let_def)
qed

lemma reads_parent: "string_ok n \<Longrightarrow> reads read_parent (uint_bytes 1 @ string_bytes n) (RootType n)"
  unfolding read_parent_def
  by (rule reads_bind [where x = 1], rule reads_uint) (simp_all add: reads_map reads_string MAX_SAFE_INTEGER_def)

lemma reads_wire_item:
  assumes "wire_ok (WItem w)"
  shows "reads (read_map RefItem (read_item oc (item_info w)))
    (opt_id_bytes (w_origin w) @ opt_id_bytes (w_rightOrigin w) @ parent_bytes w @ content_bytes (w_content w)) (ref_of (WItem w))"
proof -
  let ?none = "w_origin w = None \<and> w_rightOrigin w = None"
  let ?p = "if ?none then map_option RootType (w_parent w) else None"
  have p: "reads (read_if ?none read_parent) (parent_bytes w) ?p"
  proof (cases ?none)
    case True
    with assms obtain n where "w_parent w = Some n" "string_ok n" by (auto split: option.split_asm)
    then show ?thesis using True reads_if [of True read_parent, OF reads_parent, of n] by (simp add: parent_bytes_def)
  next
    case False
    then show ?thesis by (auto simp: read_if_def reads_return parent_bytes_def)
  qed
  have sub: "reads (read_if False readVarString) [] None" by (simp add: read_if_def reads_return)
  have "reads (read_item oc (item_info w))
      (opt_id_bytes (w_origin w) @ opt_id_bytes (w_rightOrigin w) @ parent_bytes w @ [] @ content_bytes (w_content w))
      \<lparr>ri_origin = w_origin w, ri_rightOrigin = w_rightOrigin w, ri_parent = ?p, ri_parentSub = None, ri_content = Inl (w_content w)\<rparr>"
    unfolding read_item_def Let_def item_info_bits(3-5)
    by (rule reads_bind [OF reads_opt_id], use assms in simp, rule reads_bind [OF reads_opt_id], use assms in simp,
        rule reads_bind [OF p], rule reads_bind [of _ _ None], simp add: item_info_bits sub,
        rule reads_map [OF reads_content]) (use assms in \<open>simp_all add: item_info_bits\<close>)
  then show ?thesis using reads_map [of "read_item oc (item_info w)"] by fastforce
qed

lemma reads_ref:
  assumes "wire_ok w"
  shows "reads (read_ref oc) (wire_bytes w) (ref_of w)"
  unfolding reads_def
proof (intro allI impI)
  fix d rest assume rem: "remaining d = wire_bytes w @ rest"
  obtain b bs where b: "wire_bytes w = b # bs" by (cases w) auto
  from reads_info [of d b] rem b have info: "readInfo d = (unat b, advance 1 d)" "remaining (advance 1 d) = bs @ rest" by simp_all
  have step: "rd (advance 1 d) = Inr (ref_of w, advance (length (wire_bytes w)) d)" if "reads rd bs (ref_of w)" for rd
    using readsD [OF that info(2)] by (simp add: b)
  show "read_ref oc d = Inr (ref_of w, advance (length (wire_bytes w)) d)"
  proof (cases w)
    case (WGC n)
    then have "reads (read_map RefGC readVarUint) bs (ref_of w)"
      using b assms reads_map [OF reads_uint, of n RefGC] by simp
    then show ?thesis using step b WGC by (auto simp: read_ref_def info)
  next
    case (WSkip n)
    then have "reads (read_map RefSkip readVarUint) bs (ref_of w)"
      using b assms reads_map [OF reads_uint, of n RefSkip] by simp
    then show ?thesis using step b WSkip by (auto simp: read_ref_def info)
  next
    case (WItem i)
    have ub: "unat b = item_info i" using b WItem item_info_bits(1) [of i] by (auto simp: byte_simps)
    have "content_ref (w_content i) \<noteq> 0 \<and> content_ref (w_content i) \<noteq> 10" by (cases "w_content i") simp_all
    moreover have "reads (read_map RefItem (read_item oc (unat b))) bs (ref_of w)"
      using reads_wire_item [of i oc] assms b WItem by (simp add: ub)
    ultimately show ?thesis using step by (simp add: read_ref_def info ub item_info_bits)
  qed
qed

section \<open>The structs of a client\<close>

text \<open>The structs that end behind the clock \<open>k\<close>, without their units in front of it.\<close>

definition missing_wires :: "'a doc_scheme \<Rightarrow> nat \<Rightarrow> nat \<Rightarrow> wire_struct list" where
  "missing_wires d c k = map (\<lambda>x. wire_at d (ID c x) (k - x))
     (filter (\<lambda>x. k < x + length_at d (ID c x)) (clocks d c))"

lemma missing_wires_from:
  assumes d: "doc_ok d" and h: "holds (ranges_of d c) k i"
  shows "missing_wires d c k = wires_from d c i (k - clocks d c ! i)"
proof -
  let ?ks = "clocks d c" and ?l = "\<lambda>x. length_at d (ID c x)"
  have i: "i < length ?ks" "?ks ! i \<le> k" "k < ?ks ! i + ?l (?ks ! i)"
    using h by (auto simp: holds_def)
  have mono: "?ks ! a + ?l (?ks ! a) \<le> ?ks ! b" if "a < b" "b < length ?ks" for a b
    using contiguous_mono [OF doc_okD(4) [OF d], of a b c] that by simp
  have split: "?ks = take i ?ks @ ?ks ! i # drop (Suc i) ?ks" using i(1) by (rule id_take_nth_drop)
  have "filter (\<lambda>x. k < x + ?l x) (take i ?ks) = []"
    using mono [of _ i] i by (fastforce simp: filter_empty_conv in_set_conv_nth)
  moreover have late: "k < x \<and> k < x + ?l x" if x: "x \<in> set (drop (Suc i) ?ks)" for x
  proof -
    obtain j where j: "j < length (drop (Suc i) ?ks)" "x = drop (Suc i) ?ks ! j" using x by (metis in_set_conv_nth)
    then have "?ks ! i + ?l (?ks ! i) \<le> x" using mono [of i "Suc i + j"] i by simp
    then show ?thesis using i by linarith
  qed
  then have "filter (\<lambda>x. k < x + ?l x) (drop (Suc i) ?ks) = drop (Suc i) ?ks" by simp
  ultimately have "filter (\<lambda>x. k < x + ?l x) ?ks = ?ks ! i # drop (Suc i) ?ks"
    using i by (subst split) (simp del: append_take_drop_id)
  moreover have "map (\<lambda>x. wire_at d (ID c x) (k - x)) (drop (Suc i) ?ks) = map (\<lambda>x. wire_at d (ID c x) 0) (drop (Suc i) ?ks)"
    using late by (auto simp: less_imp_le)
  moreover have "drop i ?ks = ?ks ! i # drop (Suc i) ?ks" using i(1) by (rule Cons_nth_drop_Suc [symmetric])
  ultimately show ?thesis by (simp add: missing_wires_def wires_from_def)
qed

lemma holds_below_state:
  assumes d: "doc_ok d" and k: "k < getState d c"
  obtains i where "holds (ranges_of d c) k i" "findIndexSS (ranges_of d c) k = Inr i" "hd (clocks d c) = 0" "clocks d c \<noteq> []"
proof -
  have ne: "clocks d c \<noteq> []" using k by (auto simp: getState_def)
  have "hd (clocks d c) = 0" by (rule doc_okD(5) [OF d ne])
  then have "fst (hd (ranges_of d c)) \<le> k" using ne by (simp add: ranges_of_def hd_map)
  then obtain i where h: "holds (ranges_of d c) k i"
    using holds_exists [OF doc_okD(4) [OF d], of c k] ne k getState_ends [OF ne] by (auto simp: ranges_of_def)
  have "findIndexSS (ranges_of d c) k = Inr i"
    by (rule findIndexSS_complete [OF doc_okD(4) [OF d] doc_ok_positive [OF d] h])
  with h show thesis using ne \<open>hd (clocks d c) = 0\<close> by (intro that)
qed

text \<open>The bytes of the structs of a client.\<close>

definition client_bytes :: "'a doc_scheme \<Rightarrow> nat \<times> nat \<Rightarrow> byte list" where
  "client_bytes d = (\<lambda>(c, k). uint_bytes (length (missing_wires d c k)) @ pair_bytes (c, k) @
     concat (map wire_bytes (missing_wires d c k)))"

lemma write_wires_spec:
  "enc_ok e \<Longrightarrow> enc_ok (write_wires e ws) \<and> enc_bytes (write_wires e ws) = enc_bytes e @ concat (map wire_bytes ws)"
  unfolding write_wires_def by (rule fold_writes [OF write_wire_spec])

lemma writeStructs_spec:
  assumes d: "doc_ok d" and k: "k < getState d c" and e: "enc_ok e"
  obtains e' where "writeStructs d (c, k) e = Inr e'" "enc_ok e'" "enc_bytes e' = enc_bytes e @ client_bytes d (c, k)"
proof -
  obtain i where i: "holds (ranges_of d c) k i" "findIndexSS (ranges_of d c) k = Inr i" "hd (clocks d c) = 0" "clocks d c \<noteq> []"
    by (rule holds_below_state [OF d k])
  note ws = missing_wires_from [OF d i(1)]
  have "i < length (clocks d c)" using i(1) by (simp add: holds_def)
  then have len: "length (missing_wires d c k) = length (clocks d c) - i"
    by (simp add: ws wires_from_def Cons_nth_drop_Suc [symmetric])
  define e1 where "e1 = writeVarUint (writeVarUint (writeVarUint e (length (clocks d c) - i)) c) k"
  have e1: "enc_ok e1" "enc_bytes e1 = enc_bytes e @ uint_bytes (length (missing_wires d c k)) @ pair_bytes (c, k)"
    using e by (simp_all add: e1_def sink_simps pair_bytes_def len)
  have "writeStructs d (c, k) e = Inr (write_wires e1 (missing_wires d c k))"
    using i by (simp add: writeStructs_def Let_def ws e1_def max_absorb1)
  then show thesis
    by (rule that) (simp_all add: write_wires_spec e1 client_bytes_def)
qed

lemma write_each_spec:
  assumes "\<And>x e. x \<in> set xs \<Longrightarrow> enc_ok e \<Longrightarrow> \<exists>e'. f x e = Inr e' \<and> enc_ok e' \<and> enc_bytes e' = enc_bytes e @ b x"
  shows "enc_ok e \<Longrightarrow> \<exists>e'. write_each f xs e = Inr e' \<and> enc_ok e' \<and> enc_bytes e' = enc_bytes e @ concat (map b xs)"
  using assms
proof (induction xs arbitrary: e)
  case (Cons x xs)
  obtain e1 where e1: "f x e = Inr e1" "enc_ok e1" "enc_bytes e1 = enc_bytes e @ b x"
    using Cons.prems(2) [of x e] Cons.prems(1) by auto
  with Cons.IH [OF e1(2)] Cons.prems(2) show ?case by fastforce
qed simp

lemma reads_client:
  assumes "\<And>w. w \<in> set (missing_wires d c k) \<Longrightarrow> wire_ok w" "pair_ok (c, k)" "length (missing_wires d c k) \<le> MAX_SAFE_INTEGER"
  shows "reads (read_client_refs oc) (client_bytes d (c, k)) (c, with_ids oc c k (map ref_of (missing_wires d c k)))"
  unfolding read_client_refs_def client_bytes_def prod.case
  by (rule reads_bind, rule reads_uint, rule assms(3), rule reads_bind, rule reads_pair, rule assms(2),
      simp only: prod.case, rule reads_map, rule reads_times, rule reads_ref, rule assms(1))

section \<open>Delete sets\<close>

definition ds_bytes :: "nat \<times> ranges \<Rightarrow> byte list" where
  "ds_bytes x = uint_bytes (fst x) @ counted_bytes pair_bytes (snd x)"

definition ds_ok :: "nat \<times> ranges \<Rightarrow> bool" where
  "ds_ok x \<longleftrightarrow> fst x \<le> MAX_SAFE_INTEGER \<and> length (snd x) \<le> MAX_SAFE_INTEGER \<and> (\<forall>r\<in>set (snd x). pair_ok r)"

lemma reads_ds_entry: "ds_ok x \<Longrightarrow> reads read_ds_entry (ds_bytes x) x"
proof -
  assume ok: "ds_ok x"
  then have "reads (read_counted read_pair) (counted_bytes pair_bytes (snd x)) (map (\<lambda>x. x) (snd x))"
    by (intro reads_counted reads_pair) (simp_all add: ds_ok_def)
  from reads_map [OF this, of "\<lambda>rs. (fst x, rs)"] have
    "reads (read_map (\<lambda>rs. (fst x, rs)) (read_counted read_pair)) (counted_bytes pair_bytes (snd x)) x" by simp
  then show ?thesis
    unfolding read_ds_entry_def ds_bytes_def
    by - (rule reads_bind, rule reads_uint, use ok in \<open>simp add: ds_ok_def\<close>)
qed

lemma writeDeleteSet_spec:
  assumes "enc_ok e"
  shows "enc_ok (writeDeleteSet e ds)" "enc_bytes (writeDeleteSet e ds) = enc_bytes e @ counted_bytes ds_bytes (descending ds)"
proof -
  have "enc_ok (write_ds_entry f x) \<and> enc_bytes (write_ds_entry f x) = enc_bytes f @ ds_bytes x" if "enc_ok f" for f x
    using that by (simp add: write_ds_entry_def case_prod_beta' sink_simps ds_bytes_def counted_bytes_def)
  from fold_writes [of write_ds_entry ds_bytes, OF this, of "writeVarUint e (length ds)" "descending ds"] assms
  show "enc_ok (writeDeleteSet e ds)" "enc_bytes (writeDeleteSet e ds) = enc_bytes e @ counted_bytes ds_bytes (descending ds)"
    by (simp_all add: writeDeleteSet_def sink_simps counted_bytes_def)
qed

lemma add_ranges_distinct:
  assumes "distinct (map fst (ys @ xs))" "\<And>x. x \<in> set xs \<Longrightarrow> snd x \<noteq> []"
  shows "fold add_ranges xs ys = ys @ xs"
  using assms
proof (induction xs arbitrary: ys)
  case (Cons x xs)
  have "fst x \<notin> fst ` set ys" using Cons.prems(1) by auto
  then have "map_of ys (fst x) = None" "AList.update (fst x) (snd x) ys = ys @ [x]"
    by (simp_all add: map_of_eq_None_iff) (induction ys, auto)
  then have "add_ranges x ys = ys @ [x]" using Cons.prems(2) [of x] by (simp add: add_ranges_def case_prod_beta')
  with Cons.IH [of "ys @ [x]"] Cons.prems show ?case by simp
qed simp

lemma reads_deleteSet:
  assumes "distinct (map fst ds)" "\<And>x. x \<in> set ds \<Longrightarrow> snd x \<noteq> [] \<and> ds_ok x" "length ds \<le> MAX_SAFE_INTEGER"
  shows "reads readDeleteSet (counted_bytes ds_bytes (descending ds)) (descending ds)"
proof -
  have "reads (read_counted read_ds_entry) (counted_bytes ds_bytes (descending ds)) (map (\<lambda>x. x) (descending ds))"
    using assms by (intro reads_counted reads_ds_entry) simp_all
  from reads_map [OF this, of "\<lambda>xs. fold add_ranges xs []"]
  show ?thesis
    using add_ranges_distinct [of "[]" "descending ds"] distinct_descending [OF assms(1)] assms(2)
    by (simp add: readDeleteSet_def)
qed

text \<open>The runs cover the clocks of the deleted structs.\<close>

abbreviation range_of :: "nat \<times> nat \<times> bool \<Rightarrow> nat \<times> nat" where
  "range_of x \<equiv> (fst x, fst (snd x))"

definition covers :: "nat \<Rightarrow> nat \<times> nat \<Rightarrow> bool" where
  "covers k r \<longleftrightarrow> fst r \<le> k \<and> k < fst r + snd r"

lemma contiguous_covers:
  "contiguous (map range_of (x # xs)) \<Longrightarrow>
    covers k (fst x, fst (snd x) + sum_list (map (\<lambda>(k, l, b). l) xs)) \<longleftrightarrow> (\<exists>y\<in>set (x # xs). covers k (range_of y))"
proof (induction xs arbitrary: x)
  case (Cons y ys)
  have y: "fst y = fst x + fst (snd x)" "contiguous (map range_of (y # ys))" using Cons.prems by simp_all
  have "covers k (fst x, fst (snd x) + sum_list (map (\<lambda>(k, l, b). l) (y # ys))) \<longleftrightarrow>
      covers k (range_of x) \<or> covers k (fst y, fst (snd y) + sum_list (map (\<lambda>(k, l, b). l) ys))"
    using y(1) by (auto simp: covers_def case_prod_beta')
  with Cons.IH [OF y(2)] show ?case by simp
qed simp

lemma contiguous_parts: "contiguous (xs @ ys) \<Longrightarrow> contiguous xs \<and> contiguous ys"
  by (induction xs rule: contiguous.induct) (cases ys; auto)+

lemma deleted_runs_cover:
  assumes "contiguous (map range_of xs)"
  shows "(\<exists>r\<in>set (deleted_runs xs). covers k r) \<longleftrightarrow> (\<exists>x\<in>set xs. snd (snd x) \<and> covers k (range_of x))"
  using assms
proof (induction xs rule: deleted_runs.induct)
  case (2 a l b xs)
  let ?P = "\<lambda>(k, l, b). b :: bool"
  have tail: "contiguous (map range_of xs)" using contiguous_parts [of "[(a, l)]" "map range_of xs"] 2(3) by simp
  show ?case
  proof (cases b)
    case True
    have "contiguous (map range_of (((a, l, b) # takeWhile ?P xs) @ dropWhile ?P xs))" using 2(3) by simp
    then have c: "contiguous (map range_of ((a, l, b) # takeWhile ?P xs))" "contiguous (map range_of (dropWhile ?P xs))"
      using contiguous_parts unfolding map_append by blast+
    have "\<forall>y\<in>set (takeWhile ?P xs). snd (snd y)" by (auto dest: set_takeWhileD)
    moreover have "set xs = set (takeWhile ?P xs) \<union> set (dropWhile ?P xs)"
      by (metis set_append takeWhile_dropWhile_id)
    ultimately show ?thesis
      using contiguous_covers [OF c(1), of k] 2(1) [OF True c(2)] True by (auto simp: case_prod_beta')
  next
    case False
    then show ?thesis using 2(2) [OF False tail] by simp
  qed
qed simp

lemma length_deleted_runs: "length (deleted_runs xs) \<le> length xs"
proof (induction xs rule: deleted_runs.induct)
  case (2 a l b xs)
  then show ?case using length_dropWhile_le [of "\<lambda>(k, l, b). b" xs] by (cases b) auto
qed simp

lemma deleted_runs_positive: "\<forall>x\<in>set xs. 0 < fst (snd x) \<Longrightarrow> r \<in> set (deleted_runs xs) \<Longrightarrow> 0 < snd r"
  by (induction xs rule: deleted_runs.induct) (auto split: if_split_asm dest: set_dropWhileD)

lemma length_below_ends:
  "contiguous rs \<Longrightarrow> positive rs \<Longrightarrow> rs \<noteq> [] \<Longrightarrow> fst (hd rs) + length rs \<le> ends rs"
  by (induction rs rule: contiguous.induct) (auto simp: ends_def positive_def)

lemma length_clocks: "doc_ok d \<Longrightarrow> length (clocks d c) \<le> getState d c"
  using length_below_ends [OF doc_okD(4) doc_ok_positive, of d c] getState_ends [of d c]
  by (cases "clocks d c = []") (auto simp: ranges_of_def)

text \<open>The structs of a client with the mark of deletion.\<close>

definition struct_marks :: "'a doc_scheme \<Rightarrow> nat \<Rightarrow> (nat \<times> nat \<times> bool) list" where
  "struct_marks d c = map (\<lambda>k. (k, length_at d (ID c k), struct_deleted d (ID c k))) (clocks d c)"

lemma map_struct_marks: "map range_of (struct_marks d c) = ranges_of d c"
  by (simp add: struct_marks_def ranges_of_def)

lemma run_below_state:
  assumes d: "doc_ok d" and r: "r \<in> set (deleted_runs (struct_marks d c))"
  shows "fst r + snd r \<le> getState d c"
proof -
  have pos: "\<forall>x\<in>set (struct_marks d c). 0 < fst (snd x)"
    using doc_ok_positive [OF d, of c] by (auto simp: struct_marks_def positive_def ranges_of_def list_all_iff)
  have "covers (fst r + snd r - 1) r" using deleted_runs_positive [OF pos r] by (simp add: covers_def)
  then obtain x where x: "x \<in> set (struct_marks d c)" "covers (fst r + snd r - 1) (range_of x)"
    using deleted_runs_cover [of "struct_marks d c" "fst r + snd r - 1"] doc_okD(4) [OF d] r by (auto simp: map_struct_marks)
  then have x': "fst x \<in> set (clocks d c)" "fst (snd x) = length_at d (ID c (fst x))" by (auto simp: struct_marks_def)
  obtain s where "heap d (ID c (fst x)) = Some s" using doc_okD(3) [OF d x'(1)] by blast
  with struct_end [OF d this] have "fst x + length_at d (ID c (fst x)) \<le> getState d c" by (simp add: length_at_def)
  moreover have "fst r + snd r - 1 < fst x + length_at d (ID c (fst x))" using x(2) x'(2) by (simp add: covers_def)
  ultimately show ?thesis by linarith
qed

section \<open>The answer to a state vector\<close>

text \<open>The clients of a document, in the order of its store.\<close>

definition clients_of :: "nat list \<Rightarrow> 'a doc_scheme \<Rightarrow> bool" where
  "clients_of cs d \<longleftrightarrow> distinct cs \<and> length cs \<le> MAX_SAFE_INTEGER \<and> (\<forall>c. c \<in> set cs \<longleftrightarrow> clocks d c \<noteq> []) \<and>
     (\<forall>c\<in>set cs. c \<le> MAX_SAFE_INTEGER \<and> getState d c \<le> MAX_SAFE_INTEGER)"

lemma clients_ofD:
  assumes "clients_of cs d"
  shows "distinct cs" "length cs \<le> MAX_SAFE_INTEGER" "c \<in> set cs \<longleftrightarrow> clocks d c \<noteq> []"
    "c \<in> set cs \<Longrightarrow> c \<le> MAX_SAFE_INTEGER" "c \<in> set cs \<Longrightarrow> getState d c \<le> MAX_SAFE_INTEGER"
  using assms by (auto simp: clients_of_def)

lemma state_positive:
  assumes "doc_ok d"
  shows "0 < getState d c \<longleftrightarrow> clocks d c \<noteq> []"
proof -
  have "0 < length (clocks d c) \<Longrightarrow> 0 < getState d c" using length_clocks [OF assms, of c] by linarith
  then show ?thesis by (auto simp: getState_def)
qed

text \<open>The lengths of the structs that are missing.\<close>

lemma ends_ge: "contiguous rs \<Longrightarrow> rs \<noteq> [] \<Longrightarrow> fst (hd rs) \<le> ends rs"
  by (induction rs rule: contiguous.induct) (auto simp: ends_def)

lemma sum_from:
  "contiguous rs \<Longrightarrow> rs \<noteq> [] \<Longrightarrow>
    sum_list (map (\<lambda>r. snd r - (k - fst r)) (filter (\<lambda>r. k < fst r + snd r) rs)) = ends rs - max k (fst (hd rs))"
proof (induction rs rule: contiguous.induct)
  case (3 r r' rs)
  have e: "ends (r # r' # rs) = ends (r' # rs)" "fst r' \<le> ends (r' # rs)"
    using 3(2) ends_ge [of "r' # rs"] by (simp_all add: ends_def)
  have "sum_list (map (\<lambda>r. snd r - (k - fst r)) (filter (\<lambda>r. k < fst r + snd r) (r' # rs))) = ends (r' # rs) - max k (fst r')"
    using 3 by simp
  then show ?case using 3(2) e by (auto simp: max_def)
qed (auto simp: ends_def max_def)

lemma wire_length_at:
  assumes "doc_ok d" "x \<in> set (clocks d c)"
  shows "wire_length (wire_at d (ID c x) j) = length_at d (ID c x) - j"
proof -
  obtain s where s: "heap d (ID c x) = Some s" "struct_ok s"
    using doc_okD(3) [OF assms] doc_okD(1) [OF assms(1)] by blast
  show ?thesis
  proof (cases s)
    case (Item it)
    then have "getLength (it_content it) = it_length it" using s by (simp add: item_ok_def)
    then show ?thesis using s Item
      by (cases "it_content it") (simp_all add: wire_at_def length_at_def write_item_def Let_def)
  qed (use s in \<open>simp add: wire_at_def length_at_def\<close>)
qed

lemma missing_length:
  assumes d: "doc_ok d"
  shows "sum_list (map wire_length (missing_wires d c k)) = getState d c - k"
proof (cases "clocks d c = []")
  case False
  have "map wire_length (missing_wires d c k) =
      map (\<lambda>x. length_at d (ID c x) - (k - x)) (filter (\<lambda>x. k < x + length_at d (ID c x)) (clocks d c))"
    by (simp add: missing_wires_def wire_length_at [OF d] o_def)
  also have "\<dots> = map (\<lambda>r. snd r - (k - fst r)) (filter (\<lambda>r. k < fst r + snd r) (ranges_of d c))"
    by (simp add: ranges_of_def filter_map o_def)
  finally show ?thesis
    using sum_from [OF doc_okD(4) [OF d], of c k] False doc_okD(5) [OF d False] getState_ends [OF False]
    by (simp add: ranges_of_def hd_map)
qed (simp add: missing_wires_def getState_def)

text \<open>The clients with something new for \<open>d'\<close>.\<close>

lemma new_clients_spec:
  assumes d: "doc_ok d" "clients_of cs d" and d': "doc_ok d'" "clients_of cs' d'"
  defines "nc \<equiv> new_clients cs d (descending (getStateVector cs' d'))"
  shows "(c, k) \<in> set nc \<longleftrightarrow> k = getState d' c \<and> k < getState d c"
    and "distinct (map fst nc)" and "length nc \<le> length cs"
proof -
  have zero: "c \<in> set cs' \<longleftrightarrow> getState d' c \<noteq> 0" "c \<in> set cs \<longleftrightarrow> getState d c \<noteq> 0" for c
    using state_positive [OF d'(1), of c] state_positive [OF d(1), of c] clients_ofD(3) [OF d'(2), of c]
      clients_ofD(3) [OF d(2), of c] by auto
  have "(c, k) \<in> set nc \<longleftrightarrow>
      c \<in> set cs' \<and> k = getState d' c \<and> k < getState d c \<or> c \<notin> set cs' \<and> c \<in> set cs \<and> k = 0" for c k
    by (auto simp: nc_def new_clients_def getStateVector_def o_def image_image)
  then have mem: "(c, k) \<in> set nc \<longleftrightarrow> k = getState d' c \<and> k < getState d c" for c k
    using zero [of c] by (cases "c \<in> set cs'") auto
  show "(c, k) \<in> set nc \<longleftrightarrow> k = getState d' c \<and> k < getState d c" by (rule mem)
  have "distinct (map fst (descending (getStateVector cs' d')))"
    by (rule distinct_descending) (simp add: getStateVector_def o_def clients_ofD(1) [OF d'(2)])
  then show dist: "distinct (map fst nc)"
    unfolding nc_def new_clients_def using clients_ofD(1) [OF d(2)]
    by (auto simp: o_def distinct_map_filter)
  have "set (map fst nc) \<subseteq> set cs" using mem zero(2) by fastforce
  then show "length nc \<le> length cs"
    using card_mono [of "set cs" "set (map fst nc)"] distinct_card [OF dist] distinct_card [OF clients_ofD(1) [OF d(2)]]
    by simp
qed

section \<open>Whole updates\<close>

lemma writeClientsStructs_spec:
  assumes d: "doc_ok d" "clients_of cs d" and d': "doc_ok d'" "clients_of cs' d'" and e: "enc_ok e"
  defines "nc \<equiv> new_clients cs d (descending (getStateVector cs' d'))"
  shows "\<exists>e'. writeClientsStructs e cs d (descending (getStateVector cs' d')) = Inr e' \<and> enc_ok e' \<and>
    enc_bytes e' = enc_bytes e @ counted_bytes (client_bytes d) (descending nc)"
proof -
  have step: "\<exists>e'. writeStructs d x f = Inr e' \<and> enc_ok e' \<and> enc_bytes e' = enc_bytes f @ client_bytes d x"
    if x: "x \<in> set (descending nc)" and f: "enc_ok f" for x f
  proof -
    obtain c k where ck: "x = (c, k)" by (cases x)
    then have "k < getState d c" using x new_clients_spec(1) [OF d d', of c k] by (simp add: nc_def)
    then show ?thesis using writeStructs_spec [OF d(1) _ f, of k c] ck by blast
  qed
  have e1: "enc_ok (writeVarUint e (length nc))" "enc_bytes (writeVarUint e (length nc)) = enc_bytes e @ uint_bytes (length nc)"
    using e by (simp_all add: sink_simps)
  from write_each_spec [of "descending nc" "writeStructs d" "client_bytes d", OF step e1(1)]
  show ?thesis by (simp add: writeClientsStructs_def nc_def [symmetric] e1(2) counted_bytes_def)
qed

text \<open>The structs of each client that are read.\<close>

definition answer_refs :: "'c other_contents \<Rightarrow> 'a doc_scheme \<Rightarrow> nat \<times> nat \<Rightarrow> nat \<times> (ID \<times> 'c ref) list" where
  "answer_refs oc d = (\<lambda>(c, k). (c, with_ids oc c k (map ref_of (missing_wires d c k))))"

lemma reads_structs:
  assumes d: "doc_ok d" "clients_of cs d" and d': "doc_ok d'" "clients_of cs' d'"
    and w: "\<And>c w. w \<in> set (missing_wires d c (getState d' c)) \<Longrightarrow> wire_ok w"
  defines "nc \<equiv> new_clients cs d (descending (getStateVector cs' d'))"
  shows "reads (readClientsStructRefs oc) (counted_bytes (client_bytes d) (descending nc))
    (map (answer_refs oc d) (descending nc))"
proof -
  have each: "reads (read_client_refs oc) (client_bytes d x) (answer_refs oc d x)" if x: "x \<in> set (descending nc)" for x
  proof -
    obtain c k where ck: "x = (c, k)" by (cases x)
    then have k: "k = getState d' c" "k < getState d c"
      using x new_clients_spec(1) [OF d d', of c k] by (simp_all add: nc_def)
    then have c: "c \<in> set cs" using state_positive [OF d(1), of c] clients_ofD(3) [OF d(2), of c] by simp
    have "length (missing_wires d c k) \<le> length (clocks d c)" by (simp add: missing_wires_def)
    also have "\<dots> \<le> getState d c" by (rule length_clocks [OF d(1)])
    finally show ?thesis
      using reads_client [of d c k oc] w [of _ c] k clients_ofD(4,5) [OF d(2) c]
      by (simp add: ck answer_refs_def pair_ok_def)
  qed
  have "length (descending nc) \<le> MAX_SAFE_INTEGER"
    using new_clients_spec(3) [OF d d'] clients_ofD(2) [OF d(2)] by (simp add: nc_def)
  then have "reads (read_counted (read_client_refs oc)) (counted_bytes (client_bytes d) (descending nc))
      (map (answer_refs oc d) (descending nc))"
    by (rule reads_counted) (rule each)
  moreover have fst: "map fst (map (answer_refs oc d) (descending nc)) = map fst (descending nc)"
    by (simp add: answer_refs_def case_prod_beta')
  have "map_sets (map (answer_refs oc d) (descending nc)) = map (answer_refs oc d) (descending nc)"
    by (rule map_sets_distinct, subst fst, unfold nc_def, rule distinct_descending, rule new_clients_spec(2) [OF d d'])
  ultimately show ?thesis
    using reads_map [of "read_counted (read_client_refs oc)" _ _ map_sets] by (fastforce simp: readClientsStructRefs_def)
qed

lemma createDeleteSet_spec:
  assumes d: "doc_ok d" "clients_of cs d"
  defines "ds \<equiv> createDeleteSetFromStructStore cs d"
  shows "distinct (map fst ds)" "\<And>x. x \<in> set ds \<Longrightarrow> snd x \<noteq> [] \<and> ds_ok x" "length ds \<le> MAX_SAFE_INTEGER"
    "(c, rs) \<in> set ds \<longleftrightarrow> rs = deleted_runs (struct_marks d c) \<and> rs \<noteq> []"
proof -
  have ds: "ds = filter (\<lambda>(c, rs). rs \<noteq> []) (map (\<lambda>c. (c, deleted_runs (struct_marks d c))) cs)"
    by (simp add: ds_def createDeleteSetFromStructStore_def struct_marks_def)
  have len: "length ds \<le> length cs" unfolding ds using length_filter_le le_trans by fastforce
  then show "length ds \<le> MAX_SAFE_INTEGER" using clients_ofD(2) [OF d(2)] by simp
  show "distinct (map fst ds)" unfolding ds using clients_ofD(1) [OF d(2)] by (simp add: distinct_map_filter o_def)
  have empty: "deleted_runs (struct_marks d c) \<noteq> [] \<Longrightarrow> c \<in> set cs" for c
    using clients_ofD(3) [OF d(2), of c] by (auto simp: struct_marks_def)
  then show "(c, rs) \<in> set ds \<longleftrightarrow> rs = deleted_runs (struct_marks d c) \<and> rs \<noteq> []" unfolding ds by auto
  fix x assume "x \<in> set ds"
  then obtain c where c: "x = (c, deleted_runs (struct_marks d c))" "c \<in> set cs" "snd x \<noteq> []" unfolding ds by auto
  have "length (deleted_runs (struct_marks d c)) \<le> getState d c"
    using length_deleted_runs [of "struct_marks d c"] length_clocks [OF d(1), of c] by (simp add: struct_marks_def)
  moreover have "pair_ok r" if "r \<in> set (deleted_runs (struct_marks d c))" for r
    using run_below_state [OF d(1) that] clients_ofD(5) [OF d(2) c(2)] by (simp add: pair_ok_def)
  ultimately show "snd x \<noteq> [] \<and> ds_ok x"
    using c clients_ofD(4,5) [OF d(2) c(2)] by (simp add: ds_ok_def)
qed

text \<open>A clock of a deleted struct.\<close>

definition deleted_at :: "'a doc_scheme \<Rightarrow> nat \<Rightarrow> nat \<Rightarrow> bool" where
  "deleted_at d c k \<longleftrightarrow> list_ex (\<lambda>x. struct_deleted d (ID c x) \<and> covers k (x, length_at d (ID c x))) (clocks d c)"

lemma runs_deleted_at:
  "doc_ok d \<Longrightarrow> (\<exists>r\<in>set (deleted_runs (struct_marks d c)). covers k r) \<longleftrightarrow> deleted_at d c k"
  using deleted_runs_cover [of "struct_marks d c" k] doc_okD(4) [of d c]
  unfolding map_struct_marks by (auto simp: struct_marks_def deleted_at_def list_ex_iff)

text \<open>What is written is read.\<close>

lemma answer_is_read:
  assumes docs: "doc_ok d" "clients_of cs d" "doc_ok d'" "clients_of cs' d'"
    and ok: "\<forall>c. list_all wire_ok (missing_wires d c (getState d' c))"
  defines "nc \<equiv> descending (new_clients cs d (descending (getStateVector cs' d')))"
    and "ds \<equiv> createDeleteSetFromStructStore cs d"
  shows "\<exists>U r. encodeStateAsUpdate cs d (encodeStateVector cs' d') = Inr U \<and>
    read_update oc (createDecoder U) = Inr ((map (answer_refs oc d) nc, descending ds), r) \<and> remaining r = []"
proof -
  let ?sv = "descending (getStateVector cs' d')"
  have w: "w \<in> set (missing_wires d c (getState d' c)) \<Longrightarrow> wire_ok w" for c w using ok by (simp add: list_all_iff)
  have sv: "decodeStateVector (encodeStateVector cs' d') = Inr ?sv"
    using clients_ofD [OF docs(4)] by (intro decodeStateVector_encode) simp_all
  obtain e where e: "writeClientsStructs createEncoder cs d ?sv = Inr e" "enc_ok e"
    "enc_bytes e = counted_bytes (client_bytes d) nc"
    using writeClientsStructs_spec [OF docs, of createEncoder] by (auto simp: sink_simps nc_def)
  let ?U = "toUint8Array (writeDeleteSet e ds)"
  have U: "?U = counted_bytes (client_bytes d) nc @ counted_bytes ds_bytes (descending ds)"
    using writeDeleteSet_spec [OF e(2)] by (simp add: toUint8Array_bytes e(3))
  note dset = createDeleteSet_spec [OF docs(1,2), folded ds_def]
  have "reads (read_update oc) ?U (map (answer_refs oc d) nc, descending ds)"
    unfolding read_update_def U nc_def
    by (rule reads_bind, rule reads_structs [OF docs], erule w, rule reads_map, rule reads_deleteSet, rule dset(1),
        erule dset(2), rule dset(3))
  from readsD [OF this, of "createDecoder ?U" "[]"]
  have read: "read_update oc (createDecoder ?U) =
      Inr ((map (answer_refs oc d) nc, descending ds), advance (length ?U) (createDecoder ?U))"
    by simp
  have rest: "remaining (advance (length ?U) (createDecoder ?U)) = []" by (intro remaining_advance) simp
  have "encodeStateAsUpdate cs d (encodeStateVector cs' d') = Inr ?U"
    by (simp add: encodeStateAsUpdate_def sv e(1) ds_def)
  with read rest show ?thesis by blast
qed

lemma answer_refs_map:
  "map_of (map (answer_refs oc d) xs) c = map_option (\<lambda>k. snd (answer_refs oc d (c, k))) (map_of xs c)"
  by (induction xs) (auto simp: answer_refs_def)

text \<open>
  C18. A page that answers a state vector sends exactly what its sender misses. The update is read without
  an error; it has an entry for the clients of which the sender knows less than this page, and
  for no others; the entry's structs, read back with their origins, parents and contents, begin at the sender's
  state and have together the length up to this page's state, nothing twice and nothing left out; and its
  delete set covers exactly the clocks of this page's deleted structs.
\<close>

theorem sync_answer:
  assumes "doc_ok d" "clients_of cs d" and "doc_ok d'" "clients_of cs' d'"
    and "\<forall>c. list_all wire_ok (missing_wires d c (getState d' c))"
  shows "\<exists>U refs ds r. encodeStateAsUpdate cs d (encodeStateVector cs' d') = Inr U \<and>
    read_update oc (createDecoder U) = Inr ((refs, ds), r) \<and> remaining r = [] \<and>
    (\<forall>c. map_of refs c = (if getState d' c < getState d c
       then Some (with_ids oc c (getState d' c) (map ref_of (missing_wires d c (getState d' c)))) else None)) \<and>
    (\<forall>c. sum_list (map wire_length (missing_wires d c (getState d' c))) = getState d c - getState d' c) \<and>
    (\<forall>c k. deleted_at d c k \<longleftrightarrow> (case map_of ds c of None \<Rightarrow> False | Some rs \<Rightarrow> list_ex (covers k) rs))"
proof -
  note docs = assms(1-4)
  let ?nc = "descending (new_clients cs d (descending (getStateVector cs' d')))" and ?ds = "createDeleteSetFromStructStore cs d"
  from answer_is_read [OF assms]
  obtain U r where U: "encodeStateAsUpdate cs d (encodeStateVector cs' d') = Inr U"
    "read_update oc (createDecoder U) = Inr ((map (answer_refs oc d) ?nc, descending ?ds), r)" "remaining r = []" by blast
  have some: "map_of ?nc c = Some k \<longleftrightarrow> k = getState d' c \<and> k < getState d c" for c k
    using new_clients_spec(1) [OF docs, of c k] map_of_eq_Some_iff [OF distinct_descending [OF new_clients_spec(2) [OF docs]]]
    by simp
  have "map_of ?nc c = (if getState d' c < getState d c then Some (getState d' c) else None)" for c
    using some [of c] by (cases "map_of ?nc c") auto
  then have refs: "\<forall>c. map_of (map (answer_refs oc d) ?nc) c = (if getState d' c < getState d c
       then Some (with_ids oc c (getState d' c) (map ref_of (missing_wires d c (getState d' c)))) else None)"
    by (simp only: answer_refs_map) (simp add: answer_refs_def)
  note ds = createDeleteSet_spec [OF docs(1,2)]
  have runs: "map_of (descending ?ds) c = Some rs \<longleftrightarrow> rs = deleted_runs (struct_marks d c) \<and> rs \<noteq> []" for c rs
    using ds(4) [of c rs] map_of_eq_Some_iff [OF distinct_descending [OF ds(1)]] by simp
  have "map_of (descending ?ds) c = (if deleted_runs (struct_marks d c) = [] then None else Some (deleted_runs (struct_marks d c)))" for c
    using runs [of c] by (cases "map_of (descending ?ds) c") auto
  then have del: "deleted_at d c k \<longleftrightarrow> (case map_of (descending ?ds) c of None \<Rightarrow> False | Some rs \<Rightarrow> list_ex (covers k) rs)" for c k
    unfolding runs_deleted_at [OF docs(1), symmetric] by (simp add: list_ex_iff)
  show ?thesis
    by (rule exI [of _ U], rule exI [of _ "map (answer_refs oc d) ?nc"], rule exI [of _ "descending ?ds"], rule exI [of _ r],
        intro conjI, rule U(1), rule U(2), rule U(3), rule refs, rule allI, rule missing_length, rule docs(1),
        rule allI, rule allI, rule del)
qed

text \<open>A page with \<open>hello\<close>, of which \<open>ell\<close> is deleted, and one that has seen only \<open>he\<close>.\<close>

definition text_item :: "ID option \<Rightarrow> content \<Rightarrow> bool \<Rightarrow> item" where
  "text_item origin x del = \<lparr>it_origin = origin, it_rightOrigin = None, it_parent = CONTENT, it_redone = None,
     it_content = x, it_length = getLength x, it_deleted = del, it_keep = False\<rparr>"

definition ho :: doc where
  "ho = \<lparr>heap = [ID 7 0 \<mapsto> Item (text_item None (ContentString (js ''h'')) False),
       ID 7 1 \<mapsto> Item (text_item (Some (ID 7 0)) (ContentDeleted 3) True),
       ID 7 4 \<mapsto> Item (text_item (Some (ID 7 3)) (ContentString (js ''o'')) False)],
     clocks = (\<lambda>c. if c = 7 then [0, 1, 4] else []),
     start = (\<lambda>n. if n = CONTENT then [ID 7 0, ID 7 1, ID 7 4] else []),
     type_length = (\<lambda>n. if n = CONTENT then 2 else 0), clientID = 7\<rparr>"

definition he :: doc where
  "he = \<lparr>heap = [ID 7 0 \<mapsto> Item (text_item None (ContentString (js ''he'')) False)],
     clocks = (\<lambda>c. if c = 7 then [0] else []), start = (\<lambda>n. if n = CONTENT then [ID 7 0] else []),
     type_length = (\<lambda>n. if n = CONTENT then 2 else 0), clientID = 3\<rparr>"

lemma ho_ok: "doc_ok ho" "clients_of [7] ho" "getState ho 7 = 5" "c \<noteq> 7 \<Longrightarrow> getState ho c = 0"
  and he_ok: "doc_ok he" "clients_of [7] he" "getState he 7 = 2" "c \<noteq> 7 \<Longrightarrow> getState he c = 0"
proof -
  have [simp]: "[0..<3] = [0, 1, 2 :: nat]" "[0..<2] = [0, 1 :: nat]" by (simp_all add: upt_rec)
  have units: "units ho n = (if n = CONTENT then [(ID 7 0, Some 104), (ID 7 1, None), (ID 7 2, None), (ID 7 3, None),
      (ID 7 4, Some 111)] else [])" "units he n = (if n = CONTENT then [(ID 7 0, Some 104), (ID 7 1, Some 101)] else [])" for n
    by (simp_all add: units_def struct_units_def ho_def he_def item_units_def text_item_def)
  show "doc_ok ho" "doc_ok he"
    by (auto simp: doc_ok_def units visible_def)
      (auto simp: ho_def he_def text_item_def item_ok_def ranges_of_def length_at_def ID.expand split: if_split_asm)
  show "getState ho 7 = 5" "c \<noteq> 7 \<Longrightarrow> getState ho c = 0" "getState he 7 = 2" "c \<noteq> 7 \<Longrightarrow> getState he c = 0"
    by (simp_all add: getState_def ho_def he_def length_at_def text_item_def)
  then show "clients_of [7] ho" "clients_of [7] he"
    by (auto simp: clients_of_def MAX_SAFE_INTEGER_def) (simp_all add: ho_def he_def split: if_split_asm)
qed

lemma ho_missing:
  "missing_wires ho c (getState he c) = (if c = 7 then
     [WItem \<lparr>w_origin = Some (ID 7 1), w_rightOrigin = None, w_parent = None, w_content = ContentDeleted 2\<rparr>,
      WItem \<lparr>w_origin = Some (ID 7 3), w_rightOrigin = None, w_parent = None, w_content = ContentString (js ''o'')\<rparr>] else [])"
  using he_ok(3) he_ok(4) [of c]
  by (auto simp: missing_wires_def ho_def length_at_def text_item_def wire_at_def write_item_def Let_def createID_def)

lemma sync_answer_witness:
  "\<exists>U refs ds r. encodeStateAsUpdate [7] ho (encodeStateVector [7] he) = Inr U \<and>
    read_update \<lparr>oc_read = \<lambda>n d. Inl TypeErr, oc_length = \<lambda>x :: unit. 0\<rparr> (createDecoder U) = Inr ((refs, ds), r) \<and>
    map_of refs 7 = Some
      [(ID 7 2, RefItem \<lparr>ri_origin = Some (ID 7 1), ri_rightOrigin = None, ri_parent = None, ri_parentSub = None,
          ri_content = Inl (ContentDeleted 2)\<rparr>),
       (ID 7 4, RefItem \<lparr>ri_origin = Some (ID 7 3), ri_rightOrigin = None, ri_parent = None, ri_parentSub = None,
          ri_content = Inl (ContentString (js ''o''))\<rparr>)]"
proof -
  have ok: "\<forall>c. list_all wire_ok (missing_wires ho c (getState he c))"
    by (simp add: ho_missing opt_id_ok_def id_ok_def MAX_SAFE_INTEGER_def string_ok_js [of "''o''", simplified])
  from sync_answer [OF ho_ok(1,2) he_ok(1,2) ok, where oc = "\<lparr>oc_read = \<lambda>n d. Inl TypeErr, oc_length = \<lambda>x :: unit. 0\<rparr>"]
  obtain U refs ds r where U: "encodeStateAsUpdate [7] ho (encodeStateVector [7] he) = Inr U"
    "read_update \<lparr>oc_read = \<lambda>n d. Inl TypeErr, oc_length = \<lambda>x :: unit. 0\<rparr> (createDecoder U) = Inr ((refs, ds), r)"
    "\<forall>c. map_of refs c = (if getState he c < getState ho c
       then Some (with_ids \<lparr>oc_read = \<lambda>n d. Inl TypeErr, oc_length = \<lambda>x :: unit. 0\<rparr> c (getState he c)
         (map ref_of (missing_wires ho c (getState he c)))) else None)" by blast
  from U(3) [rule_format, of 7] U(1,2) show ?thesis
    by (intro exI conjI) (simp_all add: ho_missing [of 7, unfolded he_ok(3)] ho_ok he_ok createID_def)
qed

end
