(* ===== verification/YRemote.thy ===== *)
theory YRemote
  imports YUpdateSpec
begin

text \<open>
  An item of another page's document is integrated into this page's: which items can be, that it
  succeeds, and what stays.
\<close>

section \<open>Units of a text\<close>

definition in_text :: "'a doc_scheme \<Rightarrow> jsstring \<Rightarrow> ID \<Rightarrow> bool" where
  "in_text d n i \<longleftrightarrow> i \<in> fst ` set (units d n)"

lemma in_text_item:
  assumes d: "doc_ok d"
  shows "in_text d n i \<longleftrightarrow> (\<exists>a it. heap d a = Some (Item it) \<and> it_parent it = n \<and> client i = client a \<and>
    clock a \<le> clock i \<and> clock i < clock a + it_length it)" (is "_ \<longleftrightarrow> ?R")
proof
  assume "in_text d n i"
  then obtain u a where u: "i = fst u" "a \<in> set (start d n)" "u \<in> set (struct_units d a)" by (auto simp: in_text_def units_def)
  then obtain it where it: "heap d a = Some (Item it)" "it_parent it = n" using doc_okD(7) [OF d] by blast
  then have "u \<in> set (item_units a it)" using u(3) by (simp add: struct_units_def)
  then obtain x where "i = ID (client a) (clock a + x)" "x < it_length it" using u(1) by (auto simp: item_units_def)
  with it show ?R by (intro exI [of _ a] exI [of _ it]) simp
next
  assume ?R
  then obtain a it where it: "heap d a = Some (Item it)" "it_parent it = n" "client i = client a"
    "clock a \<le> clock i" "clock i < clock a + it_length it" by blast
  then have "a \<in> set (start d n)" using doc_okD(8) [OF d it(1)] by simp
  moreover have "i \<in> fst ` set (struct_units d a)"
    using it by (auto simp: struct_units_def item_units_def image_image image_iff ID.expand intro!: bexI [of _ "clock i - clock a"])
  ultimately show "in_text d n i" by (force simp: in_text_def units_def)
qed

lemma in_text_shape: "same_shape (units d' n) (units d n) \<Longrightarrow> in_text d' n i \<longleftrightarrow> in_text d n i"
proof -
  assume "same_shape (units d' n) (units d n)"
  then have "map fst (units d' n) = map fst (units d n)"
    unfolding same_shape_def by (induction rule: list_all2_induct) auto
  then show ?thesis by (metis in_text_def set_map)
qed

text \<open>Its deleted units.\<close>

definition struck :: "'a doc_scheme \<Rightarrow> ID \<Rightarrow> bool" where
  "struck d i \<longleftrightarrow> (\<exists>n. (i, None) \<in> set (units d n))"

lemma item_unit_deleted:
  assumes "item_ok it" "u \<in> set (item_units a it)"
  shows "snd u = None \<longleftrightarrow> it_deleted it"
proof -
  obtain j where j: "u = (ID (client a) (clock a + j), if it_deleted it then None else content_char (it_content it) j)" "j < it_length it"
    using assms(2) by (auto simp: item_units_def)
  show ?thesis using assms(1) j by (cases "it_content it") (auto simp: item_ok_def)
qed

lemma gone_item:
  assumes d: "doc_ok d"
  shows "struck d i \<longleftrightarrow> (\<exists>a it. heap d a = Some (Item it) \<and> it_deleted it \<and> client i = client a \<and>
    clock a \<le> clock i \<and> clock i < clock a + it_length it)" (is "_ \<longleftrightarrow> ?R")
proof
  assume "struck d i"
  then obtain n a where u: "a \<in> set (start d n)" "(i, None) \<in> set (struct_units d a)" by (auto simp: struck_def units_def)
  then obtain it where it: "heap d a = Some (Item it)" using doc_okD(7) [OF d] by blast
  then have m: "(i, None) \<in> set (item_units a it)" "item_ok it" using u(2) doc_okD(1) [OF d it] by (simp_all add: struct_units_def)
  then have "it_deleted it" using item_unit_deleted by fastforce
  moreover obtain x where "i = ID (client a) (clock a + x)" "x < it_length it" using m(1) by (auto simp: item_units_def)
  ultimately show ?R using it by (intro exI [of _ a] exI [of _ it]) simp
next
  assume ?R
  then obtain a it where it: "heap d a = Some (Item it)" "it_deleted it" "client i = client a"
    "clock a \<le> clock i" "clock i < clock a + it_length it" by blast
  then have "a \<in> set (start d (it_parent it))" using doc_okD(8) [OF d it(1)] by simp
  moreover have "i = ID (client a) (clock a + (clock i - clock a))" "clock i - clock a < it_length it" using it by (simp_all add: ID.expand)
  then have "(i, None) \<in> set (item_units a it)" using it(2) by (auto simp: item_units_def)
  ultimately show "struck d i" using it(1) by (force simp: struck_def units_def struct_units_def)
qed

lemma gone_shape: "(\<And>n. same_shape (units d' n) (units d n)) \<Longrightarrow> struck d' i \<longleftrightarrow> struck d i"
proof -
  assume sh: "\<And>n. same_shape (units d' n) (units d n)"
  have "(i, None) \<in> set us' \<longleftrightarrow> (i, None) \<in> set us" if "same_shape us' us" for us us'
    using that unfolding same_shape_def by (induction rule: list_all2_induct) (auto simp: prod_eq_iff)
  from this [OF sh] show ?thesis by (simp add: struck_def)
qed

lemma in_text_known: "doc_ok d \<Longrightarrow> in_text d n i \<Longrightarrow> clock i < getState d (client i)"
  using units_known [of d _ n] by (auto simp: in_text_def)

text \<open>The units of a text are nowhere else.\<close>

lemma in_text_unique:
  assumes "doc_ok d" "in_text d n i" "in_text d m i"
  shows "n = m"
proof -
  obtain a it where a: "heap d a = Some (Item it)" "it_parent it = n" "client i = client a" "clock a \<le> clock i"
    "clock i < clock a + it_length it" using assms in_text_item by blast
  obtain b jt where b: "heap d b = Some (Item jt)" "it_parent jt = m" "client i = client b" "clock b \<le> clock i"
    "clock i < clock b + it_length jt" using assms in_text_item by blast
  have "getItem d i = Inr a" "getItem d i = Inr b"
    using getItem_holds [OF assms(1) a(1) a(3,4)] getItem_holds [OF assms(1) b(1) b(3,4)] a(5) b(5) by simp_all
  then show ?thesis using a b by simp
qed

section \<open>Documents whose items know where they came from\<close>

text \<open>Nothing was collected (in a text deleted items are not), and the origins of all items are there.\<close>

definition closed_doc :: "'a doc_scheme \<Rightarrow> bool" where
  "closed_doc d \<longleftrightarrow> doc_ok d \<and> (\<forall>a n. heap d a \<noteq> Some (GC n)) \<and>
     (\<forall>a it o1. heap d a = Some (Item it) \<longrightarrow> it_origin it = Some o1 \<longrightarrow> clock o1 < getState d (client o1))"

lemma closed_docD:
  assumes "closed_doc d"
  shows "doc_ok d" "heap d a \<noteq> Some (GC n)"
    "heap d a = Some (Item it) \<Longrightarrow> it_origin it = Some o1 \<Longrightarrow> clock o1 < getState d (client o1)"
  using assms by (auto simp: closed_doc_def)

lemma closed_in_text:
  assumes "closed_doc d" "clock i < getState d (client i)"
  shows "\<exists>n. in_text d n i"
proof -
  obtain j where "findIndexSS (ranges_of d (client i)) (clock i) = Inr j" "holds (ranges_of d (client i)) (clock i) j"
    using findIndexSS_store [OF closed_docD(1) [OF assms(1)] assms(2)] by blast
  then have j: "j < length (clocks d (client i))" "clocks d (client i) ! j \<le> clock i"
    "clock i < clocks d (client i) ! j + length_at d (ID (client i) (clocks d (client i) ! j))"
    by (auto simp: holds_def)
  let ?a = "ID (client i) (clocks d (client i) ! j)"
  obtain s where s: "heap d ?a = Some s" using doc_okD(3) [OF closed_docD(1) [OF assms(1)]] j(1) by fastforce
  then obtain it where "s = Item it" using closed_docD(2) [OF assms(1)] by (cases s) auto
  then show ?thesis using s j in_text_item [OF closed_docD(1) [OF assms(1)]] by (force simp: length_at_def)
qed

text \<open>What a step that only splits keeps.\<close>

definition splits :: "'a transaction_scheme \<Rightarrow> 'a transaction_scheme \<Rightarrow> bool" where
  "splits t t' \<longleftrightarrow> keeps t t' \<and> (closed_doc t \<longrightarrow> closed_doc t') \<and>
     (\<forall>a it. heap t a = Some (Item it) \<longrightarrow> (\<exists>jt. heap t' a = Some (Item jt) \<and> it_parent jt = it_parent it))"

lemma splits_refl: "doc_ok t \<Longrightarrow> splits t t"
  by (simp add: splits_def keeps_refl)

lemma splits_trans: "splits t t1 \<Longrightarrow> splits t1 t2 \<Longrightarrow> splits t t2"
proof -
  assume a: "splits t t1" "splits t1 t2"
  have "same_shape (units t2 n) (units t n)" for n
  proof -
    have l: "same_shape (units t2 n) (units t1 n)" "same_shape (units t1 n) (units t n)"
      using a by (simp_all add: splits_def keeps_def)
    show ?thesis
      unfolding same_shape_def by (rule list_all2_trans [OF _ l [unfolded same_shape_def]]) auto
  qed
  moreover have "\<exists>kt. heap t2 x = Some (Item kt) \<and> it_parent kt = it_parent it" if "heap t x = Some (Item it)" for x it
    using a that unfolding splits_def by metis
  ultimately show ?thesis using a by (simp add: splits_def keeps_def)
qed

lemma splitsD:
  assumes "splits t t'"
  shows "doc_ok t'" "getState t' c = getState t c" "in_text t' n i \<longleftrightarrow> in_text t n i" "closed_doc t \<Longrightarrow> closed_doc t'"
    "heap t a = Some (Item it) \<Longrightarrow> \<exists>jt. heap t' a = Some (Item jt) \<and> it_parent jt = it_parent it"
    "struck t' i \<longleftrightarrow> struck t i"
  using assms in_text_shape [of t' n t] gone_shape [of t' t i] by (auto simp: splits_def keeps_def)

lemma spliceSplit_origins:
  assumes "splittable t c i it m"
  shows "\<exists>l r. heap (spliceSplit t c i it m) = (heap t)(ID c (clocks t c ! i) \<mapsto> Item l, ID c (clocks t c ! i + m) \<mapsto> Item r) \<and>
    it_parent l = it_parent it \<and> it_parent r = it_parent it \<and>
    it_origin l = it_origin it \<and> it_origin r = Some (ID c (clocks t c ! i + m - 1))"
proof -
  obtain lc rc where "content_splice (it_content it) m = (lc, rc)" by fastforce
  then show ?thesis
    by (intro exI [of _ "it\<lparr>it_content := lc, it_length := m\<rparr>"]
        exI [of _ "\<lparr>it_origin = Some (ID c (clocks t c ! i + m - 1)), it_rightOrigin = it_rightOrigin it,
          it_parent = it_parent it, it_redone = map_option (\<lambda>r. createID (client r) (clock r + m)) (it_redone it),
          it_content = rc, it_length = getLength rc, it_deleted = it_deleted it, it_keep = it_keep it\<rparr>"])
      (simp add: spliceSplit_def splitItem_def Let_def createID_def)
qed

lemma spliceSplit_splits:
  assumes sp: "splittable t c i it m"
  shows "splits t (spliceSplit t c i it m)"
proof -
  let ?t = "spliceSplit t c i it m" and ?a = "ID c (clocks t c ! i)" and ?b = "ID c (clocks t c ! i + m)"
  obtain l r where lr: "heap ?t = (heap t)(?a \<mapsto> Item l, ?b \<mapsto> Item r)"
    "it_parent l = it_parent it" "it_parent r = it_parent it" "it_origin l = it_origin it"
    "it_origin r = Some (ID c (clocks t c ! i + m - 1))"
    using spliceSplit_origins [OF sp] by blast
  have s: "doc_ok t" "heap t ?a = Some (Item it)" "0 < m" "m < it_length it" using sp by (auto simp: splittable_def)
  have fresh: "heap t ?b = None" by (rule splittable_fresh [OF sp])
  have st: "getState ?t k = getState t k" for k by (rule spliceSplit_ranges(2) [OF sp])
  have "clocks t c ! i + m - 1 < getState t c" using struct_end [OF s(1,2)] s(3,4) by simp
  then have "closed_doc ?t" if "closed_doc t"
    using closed_docD [OF that] spliceSplit_ok [OF sp] s(2) lr
    by (auto simp: closed_doc_def st split: if_split_asm)
  moreover have "keeps t ?t"
    unfolding keeps_def using spliceSplit_ok [OF sp] spliceSplit_units(1) [OF sp] spliceSplit_fields(5) [OF sp] st by simp
  ultimately show ?thesis
    unfolding splits_def using lr s(2) fresh by auto
qed

section \<open>The neighbours of an item\<close>

lemma clean_end_text:
  assumes d: "doc_ok t" and i: "in_text t n i"
  shows "\<exists>a t' it. getItemCleanEnd t i = Inr (a, t') \<and> splits t t' \<and> heap t' a = Some (Item it) \<and> it_parent it = n"
proof -
  obtain a it where a: "heap t a = Some (Item it)" "it_parent it = n" "client i = client a" "clock a \<le> clock i"
    "clock i < clock a + it_length it" using i in_text_item [OF d] by blast
  define m where "m = clock i - clock a + 1"
  have m: "0 < m" "m \<le> it_length it" "i = ID (client a) (clock a + m - 1)"
    using a by (simp_all add: m_def ID.expand)
  show ?thesis
  proof (cases "m < it_length it")
    case True
    then obtain j where j: "splittable t (client a) j it m"
      "getItemCleanEnd t i = Inr (a, spliceSplit t (client a) j it m)"
      using getItemCleanEnd_split(1) [OF d a(1) m(1,2)] m(3) by blast
    then show ?thesis using spliceSplit_splits [OF j(1)] splitsD(5) [OF spliceSplit_splits [OF j(1)] a(1)] a(2) by blast
  next
    case False
    then show ?thesis using getItemCleanEnd_split(2) [OF d a(1) m(1,2)] m a splits_refl [OF d] by auto
  qed
qed

lemma clean_start_text:
  assumes d: "doc_ok t" and i: "in_text t n i"
  shows "\<exists>t' it. getItemCleanStart t i = Inr (i, t') \<and> splits t t' \<and> heap t' i = Some (Item it) \<and> it_parent it = n"
proof -
  obtain a it where a: "heap t a = Some (Item it)" "it_parent it = n" "client i = client a" "clock a \<le> clock i"
    "clock i < clock a + it_length it" using i in_text_item [OF d] by blast
  define m where "m = clock i - clock a"
  have m: "i = ID (client a) (clock a + m)" "m < it_length it" using a by (simp_all add: m_def ID.expand)
  show ?thesis
  proof (cases "m = 0")
    case True
    then have "i = a" using m by simp
    then show ?thesis using getItemCleanStart_here [OF d a(1)] a splits_refl [OF d] by auto
  next
    case False
    then obtain j where j: "splittable t (client a) j it m" "clocks t (client a) ! j = clock a"
      "getItemCleanStart t i = Inr (i, spliceSplit t (client a) j it m)"
      using getItemCleanStart_split [OF d a(1) _ m(2)] m(1) by (auto simp: createID_def)
    obtain r where "heap (spliceSplit t (client a) j it m) i = Some (Item r)" "it_parent r = n"
      using spliceSplit_origins [OF j(1)] m(1) a(2) by (auto simp: j(2))
    then show ?thesis using j spliceSplit_splits [OF j(1)] by blast
  qed
qed

section \<open>Linking an item in\<close>

lemma conflict_loop_in:
  "conflict_loop d this it right os left cf bf = Inr l1 \<Longrightarrow> l1 = left \<or> (\<exists>x\<in>set os. l1 = Some x)"
proof (induction os arbitrary: left cf bf)
  case (Cons ob os)
  have ih: "l1 = l \<or> (\<exists>x\<in>set os. l1 = Some x)" if "conflict_loop d this it right os l c b = Inr l1" for l c b
    by (rule Cons.IH [OF that])
  show ?case
    using Cons.prems ih [of "Some ob"] ih [of left]
    by (fastforce simp: Let_def split: if_split_asm option.split_asm struct.split_asm sum.split_asm)
qed simp

lemma conflict_loop_total:
  assumes c: "closed_doc d"
  shows "(\<And>x. x \<in> set os \<Longrightarrow> \<exists>jt. heap d x = Some (Item jt)) \<Longrightarrow>
    \<exists>l1. conflict_loop d this it right os left cf bf = Inr l1"
proof (induction os arbitrary: left cf bf)
  case (Cons ob os)
  obtain oi where oi: "heap d ob = Some (Item oi)" using Cons.prems by fastforce
  have ih: "\<exists>l1. conflict_loop d this it right os l cc b = Inr l1" for l cc b
    by (rule Cons.IH) (use Cons.prems in simp)
  have "\<exists>g. getItem d oo = Inr g" if "it_origin oi = Some oo" for oo
    using findIndexSS_store [OF closed_docD(1) [OF c] closed_docD(3) [OF c oi that]] by (auto simp: getItem_def)
  then show ?case using ih by (fastforce simp: oi Let_def split: option.split)
qed simp

lemma set_tl_from_on: "set (tl (from_on l xs)) \<subseteq> set xs"
proof -
  have "set (from_on l xs) \<subseteq> set xs" unfolding from_on_def using set_dropWhileD by fast
  then show ?thesis by (cases "from_on l xs") auto
qed

lemma resolve_left_some:
  assumes c: "closed_doc t" and left: "\<And>l. left = Some l \<Longrightarrow> l \<in> set (start t (it_parent it))"
  shows "\<exists>pre post. resolve_left t this it left right = Inr (last_opt pre) \<and> start t (it_parent it) = pre @ post"
proof -
  let ?xs = "start t (it_parent it)"
  let ?os = "case left of None \<Rightarrow> ?xs | Some l \<Rightarrow> tl (from_on l ?xs)"
  have os: "set ?os \<subseteq> set ?xs" using set_tl_from_on [of "the left" ?xs] by (cases left) simp_all
  then have "\<exists>jt. heap t x = Some (Item jt)" if "x \<in> set ?os" for x
    using that doc_okD(7) [OF closed_docD(1) [OF c]] by blast
  from conflict_loop_total [OF c this] obtain l1 where
    l1: "conflict_loop t this it right ?os left [] [] = Inr l1" by blast
  obtain l2 where r: "resolve_left t this it left right = Inr l2" and "l2 = left \<or> l2 = l1"
    using l1 by (cases "has_conflict ?xs left right") (auto simp: resolve_left_def Let_def)
  then have "l2 = None \<or> (\<exists>x\<in>set ?xs. l2 = Some x)"
    using conflict_loop_in [OF l1] left os by (cases left) auto
  then show ?thesis
  proof
    assume "l2 = None"
    then show ?thesis using r by (intro exI [of _ "[]"] exI [of _ ?xs]) simp
  next
    assume "\<exists>x\<in>set ?xs. l2 = Some x"
    then obtain x pre post where "l2 = Some x" "?xs = pre @ x # post" by (metis split_list)
    then show ?thesis using r by (intro exI [of _ "pre @ [x]"] exI [of _ post]) simp
  qed
qed

text \<open>The item as it is stored: a deleted content marks it as deleted.\<close>

definition stored_item :: "item \<Rightarrow> item" where
  "stored_item it = it\<lparr>it_deleted := \<not> isCountable (it_content it)\<rparr>"

lemma stored_item_simps [simp]:
  "it_parent (stored_item it) = it_parent it" "it_length (stored_item it) = it_length it"
  "it_origin (stored_item it) = it_origin it" "item_units a (stored_item it) = item_units a (it\<lparr>it_deleted := \<not> isCountable (it_content it)\<rparr>)"
  by (simp_all add: stored_item_def)

lemma integrate_linked:
  assumes r: "resolve_left t this it left right = Inr (last_opt pre)" and st: "start t (it_parent it) = pre @ post"
    and d: "doc_ok t" "clock this = getState t (client this)" and it: "\<not> it_deleted it" "it_length it = getLength (it_content it)"
  shows "\<exists>t1. integrate this it left right t = Inr t1 \<and> linked t this (stored_item it) pre post t1"
proof (cases "it_content it")
  case (ContentString s)
  then have "stored_item it = it" using it(1) by (simp add: stored_item_def)
  then show ?thesis using integrate_string [OF r st d ContentString it(1)] it(2) ContentString by simp
next
  case (ContentDeleted m)
  have dist: "distinct (pre @ post)" using doc_okD(6) [OF d(1)] st by metis
  define t1 where "t1 = t\<lparr>start := (start t)(it_parent it := pre @ this # post),
      type_length := (type_length t)(it_parent it := type_length t (it_parent it))\<rparr>"
  have "clock this = getState t1 (client this)"
    using d(2) getState_cong [of t1 t] by (simp add: t1_def)
  note as = addStruct_ok [OF this, of "Item it"]
  have ia: "(case last_opt pre of None \<Rightarrow> this # start t (it_parent it)
      | Some l \<Rightarrow> insert_after l this (start t (it_parent it))) = pre @ this # post"
    unfolding st by (rule insert_after_last [OF dist])
  show ?thesis
    using it as ContentDeleted
    by (simp add: integrate_def r Let_def ia t1_def linked_def stored_item_def item_string_def)
qed

text \<open>An item linked into a document whose items know where they came from.\<close>

lemma linked_closed:
  assumes l: "linked t this it pre post t'" and c: "closed_doc t" "clock this = getState t (client this)"
    and st: "start t (it_parent it) = pre @ post" and ok: "item_ok it"
    and o: "\<And>i. it_origin it = Some i \<Longrightarrow> clock i < getState t (client i)"
  shows "closed_doc t'" "getState t' k = (if k = client this then clock this + it_length it else getState t k)"
    "in_text t' n i \<longleftrightarrow> in_text t n i \<or> n = it_parent it \<and> client i = client this \<and>
      clock this \<le> clock i \<and> clock i < clock this + it_length it"
    "struck t' i \<longleftrightarrow> struck t i \<or> it_deleted it \<and> client i = client this \<and>
      clock this \<le> clock i \<and> clock i < clock this + it_length it"
proof -
  note d = closed_docD(1) [OF c(1)]
  have fresh: "heap t this = None" by (rule getState_fresh [OF d]) (simp add: c(2))
  note lo = linked_ok [OF l d c(2) st ok]
  show "getState t' k = (if k = client this then clock this + it_length it else getState t k)" for k
    using c(2) by (simp add: lo(2))
  have le: "getState t k \<le> getState t' k" for k by (simp add: lo(2))
  have h: "heap t' = (heap t)(this \<mapsto> Item it)" using l by (simp add: linked_def)
  have hx: "heap t' x = Some (Item jt) \<longleftrightarrow> x = this \<and> jt = it \<or> heap t x = Some (Item jt)" for x jt
    using fresh by (auto simp: h)
  have "heap t' a \<noteq> Some (GC m)" for a m using closed_docD(2) [OF c(1)] by (simp add: h)
  moreover have "clock x < getState t' (client x)" if "heap t' a = Some (Item jt)" "it_origin jt = Some x" for a jt x
  proof (cases "a = this")
    case True
    then have "clock x < getState t (client x)" using that o by (simp add: h)
    then show ?thesis using le [of "client x"] by simp
  next
    case False
    then have "clock x < getState t (client x)" using that closed_docD(3) [OF c(1), of a jt x] by (simp add: h)
    then show ?thesis using le [of "client x"] by simp
  qed
  ultimately show "closed_doc t'" using lo(1) unfolding closed_doc_def by blast
  show "in_text t' n i \<longleftrightarrow> in_text t n i \<or> n = it_parent it \<and> client i = client this \<and>
      clock this \<le> clock i \<and> clock i < clock this + it_length it"
    unfolding in_text_item [OF lo(1)] in_text_item [OF d] hx by blast
  show "struck t' i \<longleftrightarrow> struck t i \<or> it_deleted it \<and> client i = client this \<and>
      clock this \<le> clock i \<and> clock i < clock this + it_length it"
    unfolding gone_item [OF lo(1)] gone_item [OF d] hx by blast
qed

section \<open>Items of another document\<close>

text \<open>Where both documents have a unit, it is in the same text.\<close>

definition shared :: "'a doc_scheme \<Rightarrow> 'b doc_scheme \<Rightarrow> bool" where
  "shared d t \<longleftrightarrow> (\<forall>i n m. in_text d n i \<and> in_text t m i \<longrightarrow> n = m)"

lemma sharedD: "shared d t \<Longrightarrow> in_text d n i \<Longrightarrow> in_text t m i \<Longrightarrow> n = m"
  by (auto simp: shared_def)

text \<open>What the item refers to.\<close>

definition refers :: "wire_item \<Rightarrow> ID \<Rightarrow> bool" where
  "refers w i \<longleftrightarrow> w_origin w = Some i \<or> w_rightOrigin w = Some i"

text \<open>The item \<open>w\<close> with ID \<open>a\<close> has units of the text \<open>p\<close> of \<open>d\<close>, and refers to older units of it.\<close>

definition from_doc :: "(ID \<Rightarrow> nat) \<Rightarrow> 'a doc_scheme \<Rightarrow> ID \<Rightarrow> wire_item \<Rightarrow> jsstring \<Rightarrow> bool" where
  "from_doc rank d a w p \<longleftrightarrow> 0 < getLength (w_content w) \<and>
     (\<forall>j<getLength (w_content w). in_text d p (ID (client a) (clock a + j)) \<and>
        (\<not> isCountable (w_content w) \<longrightarrow> struck d (ID (client a) (clock a + j)))) \<and>
     (\<forall>i. refers w i \<longrightarrow> in_text d p i \<and> rank i < rank a) \<and>
     w_parent w = (if w_origin w = None \<and> w_rightOrigin w = None then Some p else None)"

text \<open>What \<open>getMissing\<close> leaves for \<open>integrate\<close>.\<close>

definition ready :: "'a doc_scheme \<Rightarrow> jsstring \<Rightarrow> found \<Rightarrow> bool" where
  "ready t p f \<longleftrightarrow> f_parent f = Some p \<and> (\<forall>l. f_left f = Some l \<longrightarrow> l \<in> set (start t p)) \<and>
     (\<forall>i. f_origin f = Some i \<longrightarrow> clock i < getState t (client i))"

lemma lastId_known:
  assumes "doc_ok t" "heap t a = Some (Item it)"
  shows "\<exists>i. lastId_at t a = Some i \<and> clock i < getState t (client i)"
proof -
  have "0 < it_length it" using doc_okD(1) [OF assms] by (simp add: item_ok_def)
  then show ?thesis
    using struct_end [OF assms] assms(2) by (auto simp: lastId_at_def lastId_def createID_def)
qed

lemma getMissing_cases:
  assumes c: "closed_doc t" "shared d t" and w: "from_doc rank d a w p"
    and own: "\<And>i. refers w i \<Longrightarrow> client i = client a \<Longrightarrow> clock i < getState t (client i)"
  shows "(\<exists>i. refers w i \<and> getState t (client i) \<le> clock i \<and> getMissing a w t = Inr (Inl (client i))) \<or>
    (\<exists>f t1. getMissing a w t = Inr (Inr (f, t1)) \<and> splits t t1 \<and> ready t1 p f)"
proof (cases "\<exists>i. refers w i \<and> getState t (client i) \<le> clock i")
  case True
  have m: "missing_ref t a x = (case x of Some i \<Rightarrow> if getState t (client i) \<le> clock i then Some (client i) else None | None \<Rightarrow> None)"
    if "\<And>i. x = Some i \<Longrightarrow> refers w i" for x
    using that own by (fastforce simp: missing_ref_def split: option.split)
  show ?thesis
    using True m [of "w_origin w"] m [of "w_rightOrigin w"]
    by (auto simp: getMissing_def refers_def split: option.split)
next
  case False
  then have known: "clock i < getState t (client i)" if "refers w i" for i using that by force
  have there: "in_text t p i" if "refers w i" for i
    using closed_in_text [OF c(1) known [OF that]] sharedD [OF c(2)] w that by (fastforce simp: from_doc_def)
  have none: "missing_ref t a (w_origin w) = None" "missing_ref t a (w_rightOrigin w) = None"
    by (rule missing_ref_known, rule known, simp add: refers_def)+
  note d = closed_docD(1) [OF c(1)]
  obtain left t1 where l: "clean_end_of (w_origin w) t = Inr (left, t1)" "splits t t1"
    "left = None \<longleftrightarrow> w_origin w = None" "\<And>b. left = Some b \<Longrightarrow> \<exists>it. heap t1 b = Some (Item it) \<and> it_parent it = p"
  proof (cases "w_origin w")
    case None
    then show ?thesis using that [of None t] splits_refl [OF d] by (simp add: clean_end_of_def)
  next
    case (Some i)
    then have "in_text t p i" by (intro there) (simp add: refers_def)
    from clean_end_text [OF d this] obtain b t1 it where "getItemCleanEnd t i = Inr (b, t1)" "splits t t1"
      "heap t1 b = Some (Item it)" "it_parent it = p" by blast
    then show ?thesis using that [of "Some b" t1] Some by (simp add: clean_end_of_def)
  qed
  note d1 = splitsD(1) [OF l(2)]
  obtain right t2 where r: "clean_start_of (w_rightOrigin w) t1 = Inr (right, t2)" "splits t1 t2"
    "right = None \<longleftrightarrow> w_rightOrigin w = None" "\<And>b. right = Some b \<Longrightarrow> \<exists>it. heap t2 b = Some (Item it) \<and> it_parent it = p"
  proof (cases "w_rightOrigin w")
    case None
    then show ?thesis using that [of None t1] splits_refl [OF d1] by (simp add: clean_start_of_def)
  next
    case (Some i)
    then have "in_text t1 p i" using splitsD(3) [OF l(2)] there [of i] by (simp add: refers_def)
    from clean_start_text [OF d1 this] obtain t2 it where "getItemCleanStart t1 i = Inr (i, t2)" "splits t1 t2"
      "heap t2 i = Some (Item it)" "it_parent it = p" by blast
    then show ?thesis using that [of "Some i" t2] Some by (simp add: clean_start_of_def)
  qed
  have l2: "\<exists>it. heap t2 b = Some (Item it) \<and> it_parent it = p" if "left = Some b" for b
    using l(4) [OF that] splitsD(5) [OF r(2)] by metis
  let ?f = "\<lparr>f_left = left, f_right = right, f_origin = (case left of None \<Rightarrow> None | Some b \<Rightarrow> lastId_at t1 b),
    f_rightOrigin = right, f_parent = Some p\<rparr>"
  have gc: "\<not> is_gc t2 left" "\<not> is_gc t2 right"
    using l2 r(4) by (auto simp: is_gc_def split: option.splits struct.splits)
  have par: "left = Some b \<Longrightarrow> parent_at t2 left = Some p" "right = Some b' \<Longrightarrow> parent_at t2 right = Some p" for b b'
    using l2 r(4) by (auto simp: parent_at_def)
  have "(case w_parent w of Some n \<Rightarrow> Some n | None \<Rightarrow> (case parent_at t2 left of Some n \<Rightarrow> Some n | None \<Rightarrow> parent_at t2 right)) = Some p"
    using w par l(3) r(3) by (cases left; cases right) (auto simp: from_doc_def parent_at_def)
  then have "getMissing a w t = Inr (Inr (?f, t2))"
    by (simp add: getMissing_def none l(1) r(1) gc Let_def)
  moreover have "splits t t2" by (rule splits_trans [OF l(2) r(2)])
  moreover have "ready t2 p ?f"
    unfolding ready_def
  proof (intro conjI allI impI; simp)
    show "b \<in> set (start t2 p)" if "left = Some b" for b
      using l2 [OF that] doc_okD(8) [OF splitsD(1) [OF r(2)]] by blast
    show "clock i < getState t2 (client i)" if "(case left of None \<Rightarrow> None | Some b \<Rightarrow> lastId_at t1 b) = Some i" for i
      using that l(4) lastId_known [OF d1] splitsD(2) [OF r(2)] by (fastforce split: option.split_asm)
  qed
  ultimately show ?thesis by blast
qed

lemma splits_shared: "splits t t' \<Longrightarrow> shared d t \<Longrightarrow> shared d t'"
  using splitsD(3) unfolding shared_def by blast

lemma splits_start:
  assumes "doc_ok t" "splits t t'" "l \<in> set (start t p)"
  shows "l \<in> set (start t' p)"
proof -
  obtain it where "heap t l = Some (Item it)" "it_parent it = p" using doc_okD(7) [OF assms(1,3)] by blast
  then obtain jt where "heap t' l = Some (Item jt)" "it_parent jt = p" using splitsD(5) [OF assms(2)] by metis
  then show ?thesis using doc_okD(8) [OF splitsD(1) [OF assms(2)]] by blast
qed

lemma content_splice_right:
  "0 < m \<Longrightarrow> m < getLength x \<Longrightarrow> getLength (snd (content_splice x m)) = getLength x - m \<and>
    isCountable (snd (content_splice x m)) = isCountable x"
  using content_splice_length [of m x] content_splice_countable [of x m] by (cases "content_splice x m") auto

text \<open>The rest of an item of which \<open>offset\<close> units are there.\<close>

lemma integrate_rest:
  assumes d: "doc_ok d" and c: "closed_doc t" "shared d t" and w: "from_doc rank d a w p" and f: "ready t p f"
    and offset: "clock a + offset = getState t (client a)" "offset < getLength (w_content w)"
  shows "\<exists>t'. integrate_found a (w_content w) f offset t = Inr t' \<and> closed_doc t' \<and> shared d t' \<and>
    (\<forall>k. getState t' k = (if k = client a then clock a + getLength (w_content w) else getState t k)) \<and>
    (\<forall>n i. in_text t n i \<longrightarrow> in_text t' n i) \<and> (\<forall>i. struck t i \<longrightarrow> struck t' i) \<and> (\<forall>i. struck t' i \<longrightarrow> struck t i \<or> struck d i)"
proof -
  let ?len = "getLength (w_content w)"
  obtain this1 left origin content1 t1 where h:
    "integrate_found a (w_content w) f offset t = integrate this1
       \<lparr>it_origin = origin, it_rightOrigin = f_rightOrigin f, it_parent = p, it_redone = None,
        it_content = content1, it_length = ?len - offset, it_deleted = False, it_keep = False\<rparr> left (f_right f) t1"
    "this1 = ID (client a) (clock a + offset)" "splits t t1" "\<And>l. left = Some l \<Longrightarrow> l \<in> set (start t1 p)"
    "\<And>i. origin = Some i \<Longrightarrow> clock i < getState t1 (client i)" "getLength content1 = ?len - offset"
    "isCountable content1 = isCountable (w_content w)"
  proof (cases "offset = 0")
    case True
    show ?thesis
      by (rule that [of a "f_origin f" "w_content w" "f_left f" t])
        (use True f splits_refl [OF closed_docD(1) [OF c(1)]] in \<open>simp_all add: integrate_found_def ready_def\<close>)
  next
    case False
    let ?i = "ID (client a) (clock a + offset - 1)"
    have j: "?i = ID (client a) (clock a + (offset - 1))" "offset - 1 < ?len" using False offset by auto
    then have "in_text d p ?i" using w unfolding from_doc_def j(1) by blast
    moreover obtain q where q: "in_text t q ?i" using closed_in_text [OF c(1), of ?i] offset False by auto
    ultimately have "in_text t p ?i" using sharedD [OF c(2)] by blast
    from clean_end_text [OF closed_docD(1) [OF c(1)] this] obtain b t1 it where
      b: "getItemCleanEnd t ?i = Inr (b, t1)" "splits t t1" "heap t1 b = Some (Item it)" "it_parent it = p" by blast
    obtain o1 where o1: "lastId_at t1 b = Some o1" "clock o1 < getState t1 (client o1)"
      using lastId_known [OF splitsD(1) [OF b(2)] b(3)] by blast
    show ?thesis
      by (rule that [of "ID (client a) (clock a + offset)" "Some o1" "snd (content_splice (w_content w) offset)" "Some b" t1])
        (use False f b o1 doc_okD(8) [OF splitsD(1) [OF b(2)] b(3)] content_splice_right [of offset "w_content w"] offset(2)
          in \<open>simp_all add: integrate_found_def ready_def createID_def Let_def\<close>)
  qed
  let ?it = "\<lparr>it_origin = origin, it_rightOrigin = f_rightOrigin f, it_parent = p, it_redone = None,
        it_content = content1, it_length = ?len - offset, it_deleted = False, it_keep = False\<rparr>"
  have c1: "closed_doc t1" "shared d t1" using splitsD(4) [OF h(3) c(1)] splits_shared [OF h(3) c(2)] by simp_all
  have k: "clock this1 = getState t1 (client this1)" using offset splitsD(2) [OF h(3)] by (simp add: h(2))
  obtain pre post where r: "resolve_left t1 this1 ?it left (f_right f) = Inr (last_opt pre)" "start t1 p = pre @ post"
    using resolve_left_some [OF c1(1), of left ?it this1 "f_right f"] h(4) by auto
  obtain t' where t': "integrate this1 ?it left (f_right f) t1 = Inr t'" "linked t1 this1 (stored_item ?it) pre post t'"
    using integrate_linked [OF r(1) _ closed_docD(1) [OF c1(1)] k] r(2) h(6) by auto
  have ok: "item_ok (stored_item ?it)" using offset(2) h(6) by (simp add: item_ok_def stored_item_def)
  have o1: "\<And>i. it_origin (stored_item ?it) = Some i \<Longrightarrow> clock i < getState t1 (client i)" using h(5) by simp
  have st: "start t1 (it_parent (stored_item ?it)) = pre @ post" using r(2) by simp
  note lc = linked_closed [OF t'(2) c1(1) k st ok o1]
  have there: "in_text t' n i \<longleftrightarrow> in_text t1 n i \<or> n = p \<and> client i = client a \<and> clock a + offset \<le> clock i \<and>
      clock i < clock a + ?len" for n i
    using lc(3) [of n i] offset(2) by (simp add: h(2))
  have new: "in_text d p i \<and> (\<not> isCountable (w_content w) \<longrightarrow> struck d i)" if "client i = client a" "clock a + offset \<le> clock i" "clock i < clock a + ?len" for i
  proof -
    have "i = ID (client a) (clock a + (clock i - clock a))" "clock i - clock a < ?len" using that by (simp_all add: ID.expand)
    then show ?thesis using w unfolding from_doc_def by metis
  qed
  have "shared d t'"
    unfolding shared_def
  proof (intro allI impI)
    fix i n m assume i: "in_text d n i \<and> in_text t' m i"
    show "n = m"
    proof (cases "in_text t1 m i")
      case True
      then show ?thesis using i sharedD [OF c1(2)] by blast
    next
      case False
      then have "m = p" "in_text d p i" using i there new by blast+
      then show ?thesis using i in_text_unique [OF d] by blast
    qed
  qed
  moreover have "\<forall>k. getState t' k = (if k = client a then clock a + ?len else getState t k)"
    using lc(2) offset(2) splitsD(2) [OF h(3)] by (simp add: h(2))
  moreover have "\<forall>n i. in_text t n i \<longrightarrow> in_text t' n i" using there splitsD(3) [OF h(3)] by blast
  moreover have "struck t' i \<longleftrightarrow> struck t1 i \<or> \<not> isCountable (w_content w) \<and> client i = client a \<and>
      clock a + offset \<le> clock i \<and> clock i < clock a + ?len" for i
    using lc(4) [of i] offset(2) h(7) by (simp add: h(2) stored_item_def)
  then have "\<forall>i. struck t i \<longrightarrow> struck t' i" "\<forall>i. struck t' i \<longrightarrow> struck t i \<or> struck d i"
    using new splitsD(6) [OF h(3)] by blast+
  ultimately show ?thesis using t'(1) lc(1) h(1) by auto
qed

section \<open>What a document sends\<close>

text \<open>A document in which everything has come after what it refers to: \<open>rank\<close> is an order in which it can
  have come about. Items refer to units of their own text.\<close>

definition causal :: "(ID \<Rightarrow> nat) \<Rightarrow> 'a doc_scheme \<Rightarrow> bool" where
  "causal rank d \<longleftrightarrow> closed_doc d \<and>
     (\<forall>i j. client i = client j \<and> clock i < clock j \<longrightarrow> rank i < rank j) \<and>
     (\<forall>a it i. heap d a = Some (Item it) \<and> (it_origin it = Some i \<or> it_rightOrigin it = Some i) \<longrightarrow>
        in_text d (it_parent it) i \<and> rank i < rank a)"

lemma causalD:
  assumes "causal rank d"
  shows "closed_doc d" "client i = client j \<Longrightarrow> clock i < clock j \<Longrightarrow> rank i < rank j"
    "heap d a = Some (Item it) \<Longrightarrow> it_origin it = Some i \<or> it_rightOrigin it = Some i \<Longrightarrow>
      in_text d (it_parent it) i \<and> rank i < rank a"
  using assms by (auto simp: causal_def)

lemma write_from_doc:
  assumes c: "causal rank d" and a: "heap d a = Some (Item it)" and j: "j < it_length it"
  shows "from_doc rank d (ID (client a) (clock a + j)) (write_item a it j) (it_parent it)"
    "getLength (w_content (write_item a it j)) = it_length it - j"
proof -
  have d: "doc_ok d" using closed_docD(1) [OF causalD(1) [OF c]] .
  have len: "getLength (it_content it) = it_length it" using doc_okD(1) [OF d a] by (simp add: item_ok_def)
  then show l: "getLength (w_content (write_item a it j)) = it_length it - j"
    by (cases "it_content it") (simp_all add: write_item_def Let_def)
  have units: "in_text d (it_parent it) (ID (client a) (clock a + m))" if "m < it_length it" for m
    unfolding in_text_item [OF d] using a that by (intro exI [of _ a] exI [of _ it]) simp
  have older: "in_text d (it_parent it) i \<and> rank i < rank (ID (client a) (clock a + j))"
    if r: "refers (write_item a it j) i" for i
  proof (cases "0 < j \<and> i = createID (client a) (clock a + j - 1)")
    case True
    then have i: "i = ID (client a) (clock a + (j - 1))" by (simp add: createID_def)
    have "rank i < rank (ID (client a) (clock a + j))" by (rule causalD(2) [OF c]) (use True i in auto)
    then show ?thesis using units [of "j - 1"] j by (simp add: i)
  next
    case False
    then have "it_origin it = Some i \<or> it_rightOrigin it = Some i"
      using r by (auto simp: refers_def write_item_def Let_def split: if_split_asm)
    then have i: "in_text d (it_parent it) i" "rank i < rank a" using causalD(3) [OF c a] by simp_all
    have "rank a \<le> rank (ID (client a) (clock a + j))"
      using causalD(2) [OF c, of a "ID (client a) (clock a + j)"] by (cases "j = 0") auto
    then show ?thesis using i by simp
  qed
  have cnt: "isCountable (w_content (write_item a it j)) = isCountable (it_content it)"
    by (cases "it_content it") (simp_all add: write_item_def Let_def)
  have del: "struck d (ID (client a) (clock a + m))" if "m < it_length it" "\<not> isCountable (it_content it)" for m
    unfolding gone_item [OF d] using a that doc_okD(1) [OF d a] by (intro exI [of _ a] exI [of _ it]) (simp add: item_ok_def)
  show "from_doc rank d (ID (client a) (clock a + j)) (write_item a it j) (it_parent it)"
    unfolding from_doc_def l cnt
  proof (intro conjI allI impI)
    show "struck d (ID (client (ID (client a) (clock a + j))) (clock (ID (client a) (clock a + j)) + m))"
      if "m < it_length it - j" "\<not> isCountable (it_content it)" for m
      using del [of "j + m"] that by (simp add: add.assoc)
    show "0 < it_length it - j" using j by simp
    show "in_text d (it_parent it) (ID (client (ID (client a) (clock a + j))) (clock (ID (client a) (clock a + j)) + m))"
      if "m < it_length it - j" for m
      using units [of "j + m"] that by (simp add: add.assoc)
    show "in_text d (it_parent it) i" "rank i < rank (ID (client a) (clock a + j))" if "refers (write_item a it j) i" for i
      using older [OF that] by simp_all
    show "w_parent (write_item a it j) =
        (if w_origin (write_item a it j) = None \<and> w_rightOrigin (write_item a it j) = None then Some (it_parent it) else None)"
      by (simp add: write_item_def Let_def)
  qed
qed

text \<open>The structs of a client with their IDs, from the clock \<open>k\<close> on.\<close>

fun with_clocks :: "nat \<Rightarrow> nat \<Rightarrow> wire_struct list \<Rightarrow> (ID \<times> wire_struct) list" where
  "with_clocks c k [] = []"
| "with_clocks c k (w # ws) = (createID c k, w) # with_clocks c (k + wire_length w) ws"

text \<open>They are items of the document, one behind the other, from \<open>k\<close> up to \<open>e\<close>.\<close>

fun sent :: "(ID \<Rightarrow> nat) \<Rightarrow> 'a doc_scheme \<Rightarrow> nat \<Rightarrow> nat \<Rightarrow> (ID \<times> wire_struct) list \<Rightarrow> nat \<Rightarrow> bool" where
  "sent rank d c k [] e \<longleftrightarrow> k = e"
| "sent rank d c k ((a, w) # ws) e \<longleftrightarrow> a = ID c k \<and> (\<exists>i p. w = WItem i \<and> from_doc rank d a i p) \<and>
     sent rank d c (k + wire_length w) ws e"

lemma sent_at:
  assumes "causal rank d" "x \<in> set (clocks d c)" "j < length_at d (ID c x)"
  shows "\<exists>i p. wire_at d (ID c x) j = WItem i \<and> from_doc rank d (ID c (x + j)) i p"
    "wire_length (wire_at d (ID c x) j) = length_at d (ID c x) - j"
proof -
  have d: "doc_ok d" using closed_docD(1) [OF causalD(1) [OF assms(1)]] .
  obtain s where s: "heap d (ID c x) = Some s" using doc_okD(3) [OF d assms(2)] by blast
  then obtain it where it: "s = Item it" using closed_docD(2) [OF causalD(1) [OF assms(1)]] by (cases s) auto
  have j: "j < it_length it" using assms(3) by (simp add: length_at_def s it)
  show "wire_length (wire_at d (ID c x) j) = length_at d (ID c x) - j" by (rule wire_length_at [OF d assms(2)])
  show "\<exists>i p. wire_at d (ID c x) j = WItem i \<and> from_doc rank d (ID c (x + j)) i p"
    using write_from_doc(1) [OF assms(1) s [unfolded it] j] by (simp add: wire_at_def s it) blast
qed

lemma sent_all:
  assumes c: "causal rank d"
  shows "set xs \<subseteq> set (clocks d c) \<Longrightarrow> contiguous (map (\<lambda>k. (k, length_at d (ID c k))) xs) \<Longrightarrow> xs \<noteq> [] \<Longrightarrow>
    sent rank d c (hd xs) (with_clocks c (hd xs) (map (\<lambda>k. wire_at d (ID c k) 0) xs))
      (last xs + length_at d (ID c (last xs)))"
proof (induction xs)
  case (Cons x xs)
  have d: "doc_ok d" using closed_docD(1) [OF causalD(1) [OF c]] .
  have x: "x \<in> set (clocks d c)" using Cons.prems(1) by simp
  then have "(x, length_at d (ID c x)) \<in> set (ranges_of d c)" by (auto simp: ranges_of_def)
  then have "0 < length_at d (ID c x)" using doc_ok_positive [OF d, of c] by (auto simp: positive_def list_all_iff)
  note s = sent_at [OF c x this]
  show ?case
  proof (cases xs)
    case Nil
    then show ?thesis using s by (auto simp: createID_def)
  next
    case (Cons y ys)
    then have "x + length_at d (ID c x) = hd xs" "sent rank d c (hd xs) (with_clocks c (hd xs) (map (\<lambda>k. wire_at d (ID c k) 0) xs))
      (last xs + length_at d (ID c (last xs)))" using Cons.IH Cons.prems by (simp_all add: createID_def)
    then show ?thesis using s Cons by (auto simp: createID_def)
  qed
qed simp

text \<open>What a page sends of a client's structs from the clock \<open>k\<close> on.\<close>

lemma missing_sent:
  assumes c: "causal rank d"
  shows "sent rank d c k (with_clocks c k (missing_wires d c k)) (max k (getState d c))"
proof (cases "k < getState d c")
  case False
  have d: "doc_ok d" using closed_docD(1) [OF causalD(1) [OF c]] .
  have "x + length_at d (ID c x) \<le> getState d c" if x: "x \<in> set (clocks d c)" for x
  proof -
    obtain s where "heap d (ID c x) = Some s" using doc_okD(3) [OF d x] by blast
    then show ?thesis using struct_end [OF d, of "ID c x" s] by (simp add: length_at_def)
  qed
  then have "missing_wires d c k = []" using False by (fastforce simp: missing_wires_def filter_empty_conv)
  then show ?thesis using False by simp
next
  case True
  have d: "doc_ok d" using closed_docD(1) [OF causalD(1) [OF c]] .
  let ?ks = "clocks d c"
  obtain i where i: "holds (ranges_of d c) k i" "?ks \<noteq> []" by (rule holds_below_state [OF d True])
  then have h: "i < length ?ks" "?ks ! i \<le> k" "k < ?ks ! i + length_at d (ID c (?ks ! i))" by (auto simp: holds_def)
  define off where "off = k - ?ks ! i"
  have off: "k = ?ks ! i + off" "off < length_at d (ID c (?ks ! i))" using h by (simp_all add: off_def)
  note s = sent_at [OF c nth_mem [OF h(1)] off(2)]
  define ys where "ys = drop (Suc i) ?ks"
  have w: "missing_wires d c k = wire_at d (ID c (?ks ! i)) off # map (\<lambda>k. wire_at d (ID c k) 0) ys"
    unfolding missing_wires_from [OF d i(1)] wires_from_def off_def ys_def
    using Cons_nth_drop_Suc [OF h(1), symmetric] by simp
  have drop: "drop i ?ks = ?ks ! i # ys" using Cons_nth_drop_Suc [OF h(1)] by (simp add: ys_def)
  have "contiguous (map (\<lambda>k. (k, length_at d (ID c k))) (drop i ?ks))"
    using doc_okD(4) [OF d, of c] contiguous_parts [of "take i (ranges_of d c)" "drop i (ranges_of d c)"]
    unfolding append_take_drop_id by (simp add: ranges_of_def drop_map)
  then have cont: "contiguous ((?ks ! i, length_at d (ID c (?ks ! i))) # map (\<lambda>k. (k, length_at d (ID c k))) ys)"
    by (simp add: drop)
  have st: "getState d c = last (?ks ! i # ys) + length_at d (ID c (last (?ks ! i # ys)))"
    using getState_ends [OF i(2)] i(2) last_drop [of i ?ks] h(1) by (simp add: getState_def drop)
  show ?thesis
  proof (cases ys)
    case Nil
    then show ?thesis unfolding w using s off st by (auto simp: createID_def max_def)
  next
    case (Cons y zs)
    have "set ys \<subseteq> set ?ks" unfolding ys_def by (rule set_drop_subset)
    moreover have "contiguous (map (\<lambda>k. (k, length_at d (ID c k))) ys)" using cont Cons by simp
    ultimately have "sent rank d c y (with_clocks c y (map (\<lambda>k. wire_at d (ID c k) 0) ys)) (getState d c)"
      using sent_all [OF c, of ys] Cons st by (simp add: createID_def)
    moreover have "k + (length_at d (ID c (?ks ! i)) - off) = y" using cont Cons off by simp
    ultimately show ?thesis unfolding w using s off(1) True by (auto simp: createID_def max_def)
  qed
qed

end
