(* ===== verification/YApplySpec.thy ===== *)
theory YApplySpec
  imports YApply YRemote
begin

text \<open>
  Applying updates ends, keeps the document valid and loses nothing.
\<close>

section \<open>The loop ends\<close>

text \<open>The structs that have not been taken.\<close>

definition untaken :: "struct_readers \<Rightarrow> nat" where
  "untaken rs = sum_list (map (\<lambda>(c, i, refs). length refs - i) rs)"

definition work :: "'a integration \<Rightarrow> nat" where
  "work s = 2 * untaken (ig_readers s) + length (ig_stack s)"

lemma untaken_take:
  "map_of rs c = Some (i, refs) \<Longrightarrow> i < length refs \<Longrightarrow> Suc (untaken (AList.update c (Suc i, refs) rs)) = untaken rs"
  by (induction rs) (auto simp: untaken_def split: if_split_asm)

lemma untaken_delete: "untaken (AList.delete c rs) \<le> untaken rs"
  by (induction rs) (auto simp: untaken_def)

lemma reader_of_some: "reader_of rs c = (i, refs) \<Longrightarrow> i < length refs \<Longrightarrow> map_of rs c = Some (i, refs)"
  by (auto simp: reader_of_def split: option.split_asm)

lemma take_struct_work:
  assumes "take_struct c s = Again s'"
  shows "Suc (Suc (work s')) = work s"
proof -
  obtain i refs where r: "reader_of (ig_readers s) c = (i, refs)" by fastforce
  with assms have "i < length refs" and s': "s' = s\<lparr>ig_head := refs ! i, ig_readers := AList.update c (Suc i, refs) (ig_readers s)\<rparr>"
    by (auto simp: take_struct_def split: if_split_asm)
  then show ?thesis
    using untaken_take [OF reader_of_some [OF r]] by (simp add: work_def)
qed

lemma take_struct_not_finished: "take_struct c s \<noteq> Finished s'"
  by (auto simp: take_struct_def split: prod.split)

lemma next_head_work: "next_head s = Again s' \<Longrightarrow> work s' < work s"
  using take_struct_work
  by (fastforce simp: next_head_def work_def split: list.split_asm prod.split_asm if_split_asm sum.split_asm option.split_asm)

lemma updateMissingSv_readers [simp]:
  "ig_readers (updateMissingSv c k s) = ig_readers s" "ig_stack (updateMissingSv c k s) = ig_stack s"
  by (simp_all add: updateMissingSv_def split: option.split)

lemma add_to_rest_untaken: "untaken (ig_readers (add_to_rest x s)) \<le> untaken (ig_readers s)"
  by (auto simp: add_to_rest_def Let_def untaken_delete split: option.split)

lemma addStack_work: "work (addStackToRestSS s) \<le> 2 * untaken (ig_readers s)"
proof -
  have "untaken (ig_readers (fold add_to_rest xs s)) \<le> untaken (ig_readers s)" for xs
    by (induction xs arbitrary: s) (auto intro: order_trans add_to_rest_untaken)
  then show ?thesis by (simp add: addStackToRestSS_def work_def)
qed

lemma set_aside_work:
  assumes "set_aside c k s = Again s'"
  shows "work s' < 2 * untaken (ig_readers s)"
  using next_head_work [OF assms [unfolded set_aside_def]] addStack_work [of "updateMissingSv c k s"] by simp

lemma integrate_round_work: "integrate_round s = Again s' \<Longrightarrow> work s' < work s"
proof -
  assume r: "integrate_round s = Again s'"
  obtain a w where h: "ig_head s = (a, w)" by fastforce
  have eq: "work (s\<lparr>ig_state := x\<rparr>) = work s" "work (s\<lparr>ig_state := x, ig_doc := y\<rparr>) = work s"
    "work (s\<lparr>ig_doc := y, ig_state := x\<rparr>) = work s"
    "ig_readers (push_head (s\<lparr>ig_state := x\<rparr>)) = ig_readers s"
    "work (push_head (s\<lparr>ig_state := x\<rparr>)) = Suc (work s)" "2 * untaken (ig_readers s) \<le> work s" for x y
    by (simp_all add: work_def push_head_def)
  have "set_aside c k (push_head (s\<lparr>ig_state := x\<rparr>)) = Again s' \<Longrightarrow> work s' < work s" for c k x
    using set_aside_work [of c k "push_head (s\<lparr>ig_state := x\<rparr>)" s'] eq(6) unfolding eq(4) by linarith
  moreover have "take_struct c (push_head (s\<lparr>ig_state := x\<rparr>)) = Again s' \<Longrightarrow> work s' < work s" for c x
    using take_struct_work [of c "push_head (s\<lparr>ig_state := x\<rparr>)" s'] unfolding eq(5) by linarith
  moreover note next_head_work [of _ s', unfolded eq]
  ultimately show ?thesis
    using r next_head_work [of _ s'] eq(1-3)
    by (fastforce simp: integrate_round_def h Let_def split: wire_struct.split_asm if_split_asm sum.split_asm prod.split_asm)
qed

lemma integrate_loop_returns: "\<exists>r. integrate_loop s = Some r"
proof (induction s rule: measure_induct_rule [of work])
  case (less s)
  show ?case
    using less integrate_round_work [of s] by (subst integrate_loop.simps) (auto split: progress.split)
qed

section \<open>Where the loop stands\<close>

text \<open>The clock of the \<open>i\<close>-th struct.\<close>

definition pos_of :: "nat \<Rightarrow> wires \<Rightarrow> nat \<Rightarrow> nat" where
  "pos_of k ws i = k + sum_list (map (\<lambda>x. wire_length (snd x)) (take i ws))"

lemma pos_of_Suc: "i < length ws \<Longrightarrow> pos_of k ws (Suc i) = pos_of k ws i + wire_length (snd (ws ! i))"
  by (simp add: pos_of_def take_Suc_conv_app_nth)

lemma sent_nth:
  "sent rank d c k ws e \<Longrightarrow> i < length ws \<Longrightarrow> fst (ws ! i) = ID c (pos_of k ws i) \<and>
    (\<exists>w p. snd (ws ! i) = WItem w \<and> from_doc rank d (ID c (pos_of k ws i)) w p)"
proof (induction ws arbitrary: k i)
  case (Cons x ws)
  obtain a w where x: "x = (a, w)" by (cases x)
  show ?case
  proof (cases i)
    case 0
    then show ?thesis using Cons.prems by (auto simp: x pos_of_def)
  next
    case (Suc j)
    then show ?thesis using Cons.IH [of "k + wire_length w" j] Cons.prems by (simp add: x pos_of_def add.assoc)
  qed
qed simp

lemma sent_end: "sent rank d c k ws e \<Longrightarrow> pos_of k ws (length ws) = e"
proof (induction ws arbitrary: k)
  case (Cons x ws)
  then show ?case by (cases x) (force simp: pos_of_def add.assoc)
qed (simp add: pos_of_def)

text \<open>The structs \<open>W\<close> of an update with everything that the document \<open>t0\<close> does not have of \<open>d\<close>.\<close>

definition plan :: "(ID \<Rightarrow> nat) \<Rightarrow> 'b doc_scheme \<Rightarrow> 'a doc_scheme \<Rightarrow> (nat \<Rightarrow> nat) \<Rightarrow> (nat \<Rightarrow> wires) \<Rightarrow> bool" where
  "plan rank d t0 sv W \<longleftrightarrow> causal rank d \<and>
     (\<forall>c. sv c \<le> getState t0 c \<and> sent rank d c (sv c) (W c) (max (sv c) (getState d c)))"

definition taken :: "'a integration \<Rightarrow> nat \<Rightarrow> nat" where
  "taken s c = fst (reader_of (ig_readers s) c)"

text \<open>The structs \<open>P\<close> have been taken and wait, each for the one before it. Of a client at most the last
  struct that was taken waits; all others that were taken are in the document.\<close>

definition doc_inv :: "'b doc_scheme \<Rightarrow> 'c doc_scheme \<Rightarrow> 'a transaction_scheme \<Rightarrow> bool" where
  "doc_inv d t0 t \<longleftrightarrow> closed_doc t \<and> shared d t \<and>
     (\<forall>c. getState t0 c \<le> getState t c \<and> getState t c \<le> max (getState d c) (getState t0 c)) \<and>
     (\<forall>n i. in_text t0 n i \<longrightarrow> in_text t n i) \<and> (\<forall>i. struck t0 i \<longrightarrow> struck t i) \<and> (\<forall>i. struck t i \<longrightarrow> struck t0 i \<or> struck d i)"

definition readers_inv :: "(nat \<Rightarrow> wires) \<Rightarrow> 'a integration \<Rightarrow> bool" where
  "readers_inv W s \<longleftrightarrow>
     (\<forall>c. snd (reader_of (ig_readers s) c) = W c \<and> taken s c \<le> length (W c) \<and>
        (taken s c < length (W c) \<longrightarrow> c \<in> set (ig_ids s))) \<and>
     (\<forall>c\<in>set (ig_ids s). map_of (ig_readers s) c \<noteq> None)"

definition waiting_inv :: "(ID \<Rightarrow> nat) \<Rightarrow> (nat \<Rightarrow> nat) \<Rightarrow> (nat \<Rightarrow> wires) \<Rightarrow> wires \<Rightarrow> 'a integration \<Rightarrow> bool" where
  "waiting_inv rank sv W P s \<longleftrightarrow> sorted_wrt (\<lambda>x y. rank (fst x) < rank (fst y)) P \<and>
     (\<forall>x\<in>set P. 0 < taken s (client (fst x)) \<and> x = W (client (fst x)) ! (taken s (client (fst x)) - 1)) \<and>
     (\<forall>c. pos_of (sv c) (W c) (if c \<in> client ` fst ` set P then taken s c - 1 else taken s c) \<le> getState (ig_doc s) c)"

definition loop_inv where
  "loop_inv rank d t0 sv W P s \<longleftrightarrow> doc_inv d t0 (ig_doc s) \<and> readers_inv W s \<and> waiting_inv rank sv W P s \<and>
     ig_rest s = [] \<and> (\<forall>c k. ig_state s c = Some k \<longrightarrow> k = getState (ig_doc s) c)"

lemma loop_inv_fields [simp]:
  "loop_inv rank d t0 sv W P (s\<lparr>ig_head := x\<rparr>) = loop_inv rank d t0 sv W P s"
  "loop_inv rank d t0 sv W P (s\<lparr>ig_stack := xs\<rparr>) = loop_inv rank d t0 sv W P s"
  "loop_inv rank d t0 sv W P (s\<lparr>ig_target := c\<rparr>) = loop_inv rank d t0 sv W P s"
  by (simp_all add: loop_inv_def readers_inv_def waiting_inv_def taken_def)

lemma waitingD:
  assumes "waiting_inv rank sv W P s"
  shows "c \<notin> client ` fst ` set P \<Longrightarrow> pos_of (sv c) (W c) (taken s c) \<le> getState (ig_doc s) c"
    "c \<in> client ` fst ` set P \<Longrightarrow> pos_of (sv c) (W c) (taken s c - 1) \<le> getState (ig_doc s) c"
    "x \<in> set P \<Longrightarrow> 0 < taken s (client (fst x)) \<and> x = W (client (fst x)) ! (taken s (client (fst x)) - 1)"
    "sorted_wrt (\<lambda>x y. rank (fst x) < rank (fst y)) P"
proof -
  have p: "pos_of (sv c) (W c) (if c \<in> client ` fst ` set P then taken s c - 1 else taken s c) \<le> getState (ig_doc s) c" for c
    using assms by (simp add: waiting_inv_def)
  show "c \<notin> client ` fst ` set P \<Longrightarrow> pos_of (sv c) (W c) (taken s c) \<le> getState (ig_doc s) c"
    "c \<in> client ` fst ` set P \<Longrightarrow> pos_of (sv c) (W c) (taken s c - 1) \<le> getState (ig_doc s) c"
    using p [of c] by (simp_all only: if_True if_False simp_thms split: if_split_asm)
qed (use assms in \<open>auto simp: waiting_inv_def\<close>)

lemma taken_update:
  "taken (s\<lparr>ig_head := x, ig_readers := AList.update c (i, refs) (ig_readers s)\<rparr>) c' = (if c' = c then i else taken s c')"
  by (simp add: taken_def reader_of_def update_conv')

text \<open>One struct more is taken.\<close>

lemma take_struct_inv:
  assumes pl: "plan rank d t0 sv W" and inv: "loop_inv rank d t0 sv W P s" and i: "taken s c < length (W c)"
    and free: "c \<notin> client ` fst ` set P"
    and older: "\<And>x. x \<in> set P \<Longrightarrow> rank (ID c (pos_of (sv c) (W c) (taken s c))) < rank (fst x)"
  shows "\<exists>s'. take_struct c s = Again s' \<and> loop_inv rank d t0 sv W (ig_head s' # P) s' \<and> ig_stack s' = ig_stack s"
proof -
  have rd: "reader_of (ig_readers s) c = (taken s c, W c)"
    using inv by (simp add: loop_inv_def readers_inv_def taken_def prod_eq_iff)
  define s' where "s' = s\<lparr>ig_head := W c ! taken s c, ig_readers := AList.update c (Suc (taken s c), W c) (ig_readers s)\<rparr>"
  have take: "take_struct c s = Again s'" using i by (simp add: take_struct_def rd s'_def)
  have tk: "taken s' c' = (if c' = c then Suc (taken s c) else taken s c')" for c' unfolding s'_def by (rule taken_update)
  have h: "fst (ig_head s') = ID c (pos_of (sv c) (W c) (taken s c))"
    using sent_nth i pl unfolding plan_def s'_def by fastforce
  have "readers_inv W s'"
    using inv i by (auto simp: loop_inv_def readers_inv_def tk) (auto simp: s'_def reader_of_def update_conv')
  moreover have "waiting_inv rank sv W (ig_head s' # P) s'"
    unfolding waiting_inv_def
  proof (intro conjI ballI allI)
    have w: "waiting_inv rank sv W P s" using inv by (simp add: loop_inv_def)
    show "sorted_wrt (\<lambda>x y. rank (fst x) < rank (fst y)) (ig_head s' # P)"
      using waitingD(4) [OF w] older by (simp add: h)
    fix x assume "x \<in> set (ig_head s' # P)"
    then consider "x = ig_head s'" | "x \<in> set P" "client (fst x) \<noteq> c" using free by auto
    then have "0 < taken s' (client (fst x)) \<and> x = W (client (fst x)) ! (taken s' (client (fst x)) - 1)"
    proof cases
      case 1
      then show ?thesis by (simp add: h tk) (simp add: s'_def)
    next
      case 2
      then show ?thesis using waitingD(3) [OF w 2(1)] by (simp add: tk)
    qed
    then show "0 < taken s' (client (fst x))" "x = W (client (fst x)) ! (taken s' (client (fst x)) - 1)" by simp_all
  next
    fix c'
    have w: "waiting_inv rank sv W P s" using inv by (simp add: loop_inv_def)
    have doc: "ig_doc s' = ig_doc s" by (simp add: s'_def)
    show "pos_of (sv c') (W c') (if c' \<in> client ` fst ` set (ig_head s' # P) then taken s' c' - 1 else taken s' c') \<le> getState (ig_doc s') c'"
    proof (cases "c' = c")
      case True
      then show ?thesis using waitingD(1) [OF w free] by (simp add: h tk doc)
    next
      case False
      then show ?thesis using waitingD(1,2) [OF w, of c'] by (simp add: h tk doc)
    qed
  qed
  ultimately have "loop_inv rank d t0 sv W (ig_head s' # P) s'"
    using inv by (simp add: loop_inv_def s'_def)
  then show ?thesis using take by (simp add: s'_def)
qed

lemma getNextStructTarget_spec:
  assumes "\<forall>c\<in>set ids. map_of rs c \<noteq> None"
  shows "\<exists>r ids'. getNextStructTarget rs ids = Inr (r, ids') \<and> set ids' \<subseteq> set ids \<and>
    (\<forall>c\<in>set ids - set ids'. length (snd (reader_of rs c)) = fst (reader_of rs c)) \<and>
    (case r of None \<Rightarrow> ids' = [] | Some c \<Rightarrow> length (snd (reader_of rs c)) \<noteq> fst (reader_of rs c))"
  using assms
proof (induction ids)
  case (Cons c ids)
  obtain i refs where r: "map_of rs c = Some (i, refs)" using Cons.prems by auto
  show ?case
  proof (cases "length refs = i")
    case True
    then show ?thesis using Cons r by (fastforce simp: reader_of_def)
  next
    case False
    then show ?thesis using r by (simp add: reader_of_def)
  qed
qed simp

text \<open>On to the next struct.\<close>

lemma next_head_inv:
  assumes pl: "plan rank d t0 sv W" and inv: "loop_inv rank d t0 sv W (ig_stack s) s"
  shows "(\<exists>s'. next_head s = Again s' \<and> loop_inv rank d t0 sv W (ig_head s' # ig_stack s') s') \<or>
    (\<exists>s'. next_head s = Finished s' \<and> loop_inv rank d t0 sv W [] s' \<and> (\<forall>c. taken s' c = length (W c)))"
proof (cases "ig_stack s")
  case (Cons x xs)
  then show ?thesis
  proof -
    have "loop_inv rank d t0 sv W (x # xs) s" using inv Cons by simp
    then have "loop_inv rank d t0 sv W (x # xs) (s\<lparr>ig_head := x, ig_stack := xs\<rparr>)" by (simp del: integration.update_convs)
    then show ?thesis using Cons by (simp add: next_head_def)
  qed
next
  case Nil
  have ri: "readers_inv W s" using inv by (simp add: loop_inv_def)
  have rd: "reader_of (ig_readers s) c = (taken s c, W c)" for c
    using ri by (simp add: readers_inv_def taken_def prod_eq_iff)
  show ?thesis
  proof (cases "taken s (ig_target s) < length (W (ig_target s))")
    case True
    from take_struct_inv [OF pl inv True] Nil show ?thesis
      by (simp add: next_head_def rd True) metis
  next
    case False
    have "\<forall>c\<in>set (ig_ids s). map_of (ig_readers s) c \<noteq> None" using ri by (simp add: readers_inv_def)
    from getNextStructTarget_spec [OF this] obtain r ids where
      g: "getNextStructTarget (ig_readers s) (ig_ids s) = Inr (r, ids)" "set ids \<subseteq> set (ig_ids s)"
      "\<forall>c\<in>set (ig_ids s) - set ids. length (snd (reader_of (ig_readers s) c)) = fst (reader_of (ig_readers s) c)"
      "case r of None \<Rightarrow> ids = [] | Some c \<Rightarrow> length (snd (reader_of (ig_readers s) c)) \<noteq> fst (reader_of (ig_readers s) c)"
      by blast
    then have n3: "length (W c) = taken s c" if "c \<in> set (ig_ids s)" "c \<notin> set ids" for c
      using that by (simp add: rd)
    have n4: "r = None \<Longrightarrow> ids = []" "\<And>c. r = Some c \<Longrightarrow> length (W c) \<noteq> taken s c"
      using g(4) by (simp_all add: rd)
    define s1 where "s1 = s\<lparr>ig_ids := ids\<rparr>"
    have s1: "ig_readers s1 = ig_readers s" "taken s1 = taken s" "ig_ids s1 = ids" "ig_doc s1 = ig_doc s"
      by (simp_all add: s1_def taken_def [abs_def])
    have r1: "taken s c \<le> length (W c)" "taken s c < length (W c) \<Longrightarrow> c \<in> set ids" for c
    proof -
      have a: "taken s c \<le> length (W c)" "taken s c < length (W c) \<longrightarrow> c \<in> set (ig_ids s)"
        using ri by (simp_all add: readers_inv_def)
      show "taken s c \<le> length (W c)" by (rule a(1))
      show "taken s c < length (W c) \<Longrightarrow> c \<in> set ids" using a(2) n3 [of c] by fastforce
    qed
    have "readers_inv W s1"
      using ri g(2) r1 unfolding readers_inv_def s1 by (simp add: rd subset_iff)
    then have i1: "loop_inv rank d t0 sv W [] s1"
      using inv Nil by (simp add: loop_inv_def waiting_inv_def s1) (simp add: s1_def)
    show ?thesis
    proof (cases r)
      case None
      then have "next_head s = Finished s1" using Nil False g(1) by (simp add: next_head_def rd s1_def)
      moreover have "taken s1 c = length (W c)" for c
        using r1 [of c] n4(1) [OF None] by (simp add: s1 le_antisym not_less) (metis empty_iff le_neq_implies_less)
      ultimately show ?thesis using i1 by blast
    next
      case (Some c)
      define s2 where "s2 = s1\<lparr>ig_target := c\<rparr>"
      have i2: "loop_inv rank d t0 sv W [] s2" using i1 by (simp add: s2_def del: integration.update_convs)
      have "taken s2 = taken s" by (simp add: s2_def taken_def [abs_def] s1)
      then have "taken s2 c < length (W c)" using n4(2) [OF Some] r1(1) [of c] by (simp add: le_neq_implies_less)
      from take_struct_inv [OF pl i2 this] have
        "\<exists>s'. take_struct c s2 = Again s' \<and> loop_inv rank d t0 sv W [ig_head s'] s' \<and> ig_stack s' = []"
        using Nil by (auto simp: s2_def s1_def)
      moreover have "next_head s = take_struct c s2" using Nil False g(1) Some by (simp add: next_head_def rd s1_def s2_def)
      ultimately show ?thesis by auto
    qed
  qed
qed

section \<open>One round\<close>

lemma pos_of_mono: "i \<le> j \<Longrightarrow> j \<le> length ws \<Longrightarrow> pos_of k ws i \<le> pos_of k ws j"
proof (induction j rule: dec_induct)
  case (step n)
  then show ?case using pos_of_Suc [of n ws k] by simp
qed simp

text \<open>The struct whose turn it is.\<close>

lemma head_sent:
  assumes pl: "plan rank d t0 sv W" and inv: "loop_inv rank d t0 sv W (x # xs) s"
  obtains a w p where "x = (a, WItem w)" "from_doc rank d a w p" "clock a \<le> getState (ig_doc s) (client a)"
    "clock a + getLength (w_content w) = pos_of (sv (client a)) (W (client a)) (taken s (client a))"
    "clock a = pos_of (sv (client a)) (W (client a)) (taken s (client a) - 1)" "taken s (client a) \<le> length (W (client a))"
proof -
  let ?c = "client (fst x)"
  have wi: "waiting_inv rank sv W (x # xs) s" and ri: "readers_inv W s" using inv by (simp_all add: loop_inv_def)
  have x: "0 < taken s ?c" "x = W ?c ! (taken s ?c - 1)" using waitingD(3) [OF wi, of x] by simp_all
  have t: "taken s ?c \<le> length (W ?c)" using ri by (simp add: readers_inv_def)
  have j: "taken s ?c - 1 < length (W ?c)" "Suc (taken s ?c - 1) = taken s ?c" using x(1) t by auto
  have sent: "sent rank d ?c (sv ?c) (W ?c) (max (sv ?c) (getState d ?c))" using pl by (simp add: plan_def)
  obtain w p where w: "fst x = ID ?c (pos_of (sv ?c) (W ?c) (taken s ?c - 1))" "snd x = WItem w" "from_doc rank d (fst x) w p"
    using sent_nth [OF sent j(1)] x(2) by metis
  have l: "wire_length (snd (W ?c ! (taken s ?c - 1))) = getLength (w_content w)" using w(2) x(2) by simp
  have ck: "clock (fst x) = pos_of (sv ?c) (W ?c) (taken s ?c - 1)" using w(1) by (metis ID.sel(2))
  show thesis
  proof (rule that [of "fst x" w p])
    show "x = (fst x, WItem w)" using w(2) by (metis prod.collapse)
    show "clock (fst x) \<le> getState (ig_doc s) ?c" using waitingD(2) [OF wi, of ?c] by (simp add: ck)
    show "clock (fst x) + getLength (w_content w) = pos_of (sv ?c) (W ?c) (taken s ?c)"
      using pos_of_Suc [OF j(1), of "sv ?c"] unfolding j(2) l ck by simp
  qed (rule w(3), rule ck, rule t)
qed

text \<open>The struct is in the document, which has grown.\<close>

lemma settled_inv:
  assumes pl: "plan rank d t0 sv W" and inv: "loop_inv rank d t0 sv W (x # xs) s"
    and t2: "doc_inv d t0 t2" "\<And>k. getState (ig_doc s) k \<le> getState t2 k"
      "clock (fst x) + wire_length (snd x) \<le> getState t2 (client (fst x))" "\<And>k v. st k = Some v \<Longrightarrow> v = getState t2 k"
  shows "loop_inv rank d t0 sv W xs (s\<lparr>ig_doc := t2, ig_state := st\<rparr>)"
proof -
  obtain a w p where x: "x = (a, WItem w)" "clock a + getLength (w_content w) = pos_of (sv (client a)) (W (client a)) (taken s (client a))"
    by (rule head_sent [OF pl inv]) blast
  have wi: "waiting_inv rank sv W (x # xs) s" using inv by (simp add: loop_inv_def)
  have alone: "client (fst y) \<noteq> client a" if y: "y \<in> set xs" for y
  proof
    assume c: "client (fst y) = client a"
    have "y = x" using waitingD(3) [OF wi, of y] waitingD(3) [OF wi, of x] y c x(1) by simp
    then show False using waitingD(4) [OF wi] y by fastforce
  qed
  let ?s = "s\<lparr>ig_doc := t2, ig_state := st\<rparr>"
  have tk: "taken ?s = taken s" by (simp add: taken_def [abs_def])
  have pos: "pos_of (sv c) (W c) (if c \<in> client ` fst ` set xs then taken s c - 1 else taken s c) \<le> getState t2 c" for c
  proof (cases "c = client a")
    case True
    have "c \<notin> client ` fst ` set xs" using alone unfolding True by (metis imageE)
    then show ?thesis using t2(3) x True by simp
  next
    case False
    have "pos_of (sv c) (W c) (if c \<in> client ` fst ` set xs then taken s c - 1 else taken s c) \<le> getState (ig_doc s) c"
      using waitingD(1,2) [OF wi, of c] False by (simp add: x(1))
    then show ?thesis using t2(2) [of c] by linarith
  qed
  have "waiting_inv rank sv W xs ?s"
    unfolding waiting_inv_def tk using waitingD(4) [OF wi] waitingD(3) [OF wi] pos by simp
  moreover have "readers_inv W ?s" using inv by (simp add: loop_inv_def readers_inv_def tk)
  ultimately show ?thesis using inv t2(1,4) by (simp add: loop_inv_def)
qed

text \<open>What a struct refers to is older, so it can only be missing if no struct of that client waits.\<close>

lemma missing_is_free:
  assumes pl: "plan rank d t0 sv W" and inv: "loop_inv rank d t0 sv W P s"
    and i: "in_text d p i" "getState (ig_doc s) (client i) \<le> clock i" and older: "\<And>y. y \<in> set P \<Longrightarrow> rank i < rank (fst y)"
  shows "client i \<notin> client ` fst ` set P" "taken s (client i) < length (W (client i))"
    "y \<in> set P \<Longrightarrow> rank (ID (client i) (pos_of (sv (client i)) (W (client i)) (taken s (client i)))) < rank (fst y)"
proof -
  let ?c = "client i"
  have c: "causal rank d" and sent: "sent rank d ?c (sv ?c) (W ?c) (max (sv ?c) (getState d ?c))"
    using pl by (simp_all add: plan_def)
  have wi: "waiting_inv rank sv W P s" using inv by (simp add: loop_inv_def)
  have rank: "rank (ID ?c k) \<le> rank i" if "k \<le> clock i" for k
    using causalD(2) [OF c, of "ID ?c k" i] that by (cases "k = clock i") (auto simp: less_imp_le)
  show free: "?c \<notin> client ` fst ` set P"
  proof
    assume mem: "?c \<in> client ` fst ` set P"
    then obtain y where y: "y \<in> set P" "client (fst y) = ?c" by auto
    have "0 < taken s ?c" "y = W ?c ! (taken s ?c - 1)" using waitingD(3) [OF wi y(1)] y(2) by simp_all
    moreover have "taken s ?c \<le> length (W ?c)" using inv by (simp add: loop_inv_def readers_inv_def)
    ultimately have "fst y = ID ?c (pos_of (sv ?c) (W ?c) (taken s ?c - 1))" using sent_nth [OF sent, of "taken s ?c - 1"] by simp
    moreover have "pos_of (sv ?c) (W ?c) (taken s ?c - 1) \<le> clock i" using waitingD(2) [OF wi mem] i(2) by simp
    ultimately show False using rank older [OF y(1)] by fastforce
  qed
  have pos: "pos_of (sv ?c) (W ?c) (taken s ?c) \<le> clock i" using waitingD(1) [OF wi free] i(2) by simp
  show "taken s ?c < length (W ?c)"
  proof (rule ccontr)
    assume "\<not> taken s ?c < length (W ?c)"
    then have "taken s ?c = length (W ?c)" using inv by (simp add: loop_inv_def readers_inv_def le_antisym)
    then have "getState d ?c \<le> clock i" using pos sent_end [OF sent] by simp
    then show False using in_text_known [OF closed_docD(1) [OF causalD(1) [OF c]] i(1)] by simp
  qed
  show "y \<in> set P \<Longrightarrow> rank (ID ?c (pos_of (sv ?c) (W ?c) (taken s ?c))) < rank (fst y)"
    using rank [OF pos] older [of y] by simp
qed

lemma round_inv:
  assumes pl: "plan rank d t0 sv W" and inv: "loop_inv rank d t0 sv W (ig_head s # ig_stack s) s"
  shows "(\<exists>s'. integrate_round s = Again s' \<and> loop_inv rank d t0 sv W (ig_head s' # ig_stack s') s') \<or>
    (\<exists>s'. integrate_round s = Finished s' \<and> loop_inv rank d t0 sv W [] s' \<and> (\<forall>c. taken s' c = length (W c)))"
proof -
  obtain a w p where h: "ig_head s = (a, WItem w)" "from_doc rank d a w p" "clock a \<le> getState (ig_doc s) (client a)"
    "clock a + getLength (w_content w) = pos_of (sv (client a)) (W (client a)) (taken s (client a))"
    "taken s (client a) \<le> length (W (client a))"
    by (rule head_sent [OF pl inv]) blast
  let ?c = "client a" and ?t = "ig_doc s" and ?len = "getLength (w_content w)"
  have c: "causal rank d" and sent: "sent rank d ?c (sv ?c) (W ?c) (max (sv ?c) (getState d ?c))" and sv: "sv ?c \<le> getState t0 ?c"
    using pl by (simp_all add: plan_def)
  have d: "doc_ok d" by (rule closed_docD(1) [OF causalD(1) [OF c]])
  have di: "doc_inv d t0 ?t" and wi: "waiting_inv rank sv W (ig_head s # ig_stack s) s"
    using inv by (simp_all add: loop_inv_def)
  have t: "closed_doc ?t" "shared d ?t" using di by (simp_all add: doc_inv_def)
  define st where "st = (ig_state s)(?c \<mapsto> getState ?t ?c)"
  define s1 where "s1 = s\<lparr>ig_state := st\<rparr>"
  have st: "\<And>k v. ig_state s k = Some v \<Longrightarrow> v = getState ?t k" using inv by (simp add: loop_inv_def)
  then have local: "(case ig_state s ?c of Some k \<Rightarrow> k | None \<Rightarrow> getState ?t ?c) = getState ?t ?c"
    by (simp split: option.split)
  have st1: "\<And>k v. st k = Some v \<Longrightarrow> v = getState ?t k" using st by (simp add: st_def split: if_split_asm)
  have swap: "s\<lparr>ig_state := x, ig_doc := y\<rparr> = s\<lparr>ig_doc := y, ig_state := x\<rparr>" for x y by simp
  have round: "integrate_round s = (case getMissing a w ?t of
      Inl e \<Rightarrow> Failed e
    | Inr (Inl m) \<Rightarrow>
        (case reader_of (ig_readers s) m of (i, refs) \<Rightarrow>
          if length refs = i then set_aside m (getState ?t m) (push_head s1) else take_struct m (push_head s1))
    | Inr (Inr (f, t1)) \<Rightarrow>
        (let offset = getState ?t ?c - clock a in
         if offset = 0 \<or> offset < ?len
         then (case integrate_found a (w_content w) f offset t1 of
             Inl e \<Rightarrow> Failed e
           | Inr t2 \<Rightarrow> next_head (s\<lparr>ig_doc := t2, ig_state := st(?c \<mapsto> clock a + ?len)\<rparr>))
         else next_head (s\<lparr>ig_doc := t1, ig_state := st\<rparr>)))"
    using h(3) by (simp add: integrate_round_def h(1) Let_def local st_def s1_def swap split: sum.split prod.split)
  have older: "rank i < rank (fst y)" if "refers w i" "y \<in> set (ig_head s # ig_stack s)" for i y
    using that h(2) waitingD(4) [OF wi] by (fastforce simp: from_doc_def h(1))
  have own: "clock i < getState ?t (client i)" if "refers w i" "client i = ?c" for i
  proof (rule ccontr)
    assume "\<not> clock i < getState ?t (client i)"
    then have "clock a \<le> clock i" using h(3) that(2) by simp
    then have "rank a \<le> rank i" using causalD(2) [OF c, of a i] that(2) ID.expand [of a i] by (cases "clock a = clock i") auto
    then show False using older [OF that(1), of "ig_head s"] by (simp add: h(1))
  qed
  from getMissing_cases [OF t h(2) own]
  consider (missing) i where "refers w i" "getState ?t (client i) \<le> clock i" "getMissing a w ?t = Inr (Inl (client i))"
    | (found) f t1 where "getMissing a w ?t = Inr (Inr (f, t1))" "splits ?t t1" "ready t1 p f" by blast
  then show ?thesis
  proof cases
    case missing
    have i: "in_text d p i" using h(2) missing(1) by (simp add: from_doc_def)
    let ?s = "push_head s1"
    have same: "ig_doc ?s = ?t" "taken ?s = taken s" "ig_readers ?s = ig_readers s" "ig_ids ?s = ig_ids s" "ig_rest ?s = ig_rest s"
      "ig_state ?s = st"
      by (simp_all add: push_head_def s1_def taken_def [abs_def])
    have inv1: "loop_inv rank d t0 sv W (ig_head s # ig_stack s) ?s"
      using inv st1 unfolding loop_inv_def readers_inv_def waiting_inv_def same by blast
    have docs: "ig_doc ?s = ?t" "taken ?s = taken s" "ig_stack ?s = ig_head s # ig_stack s"
      using same by (simp_all add: push_head_def s1_def)
    note free = missing_is_free [OF pl inv1 i, unfolded docs, OF missing(2) older [OF missing(1)]]
    from take_struct_inv [OF pl inv1, unfolded docs, OF free(2,1,3)] obtain s' where
      s': "take_struct (client i) ?s = Again s'" "loop_inv rank d t0 sv W (ig_head s' # ig_stack s') s'" by auto
    have "reader_of (ig_readers s) (client i) = (taken s (client i), W (client i))"
      using inv by (simp add: loop_inv_def readers_inv_def taken_def prod_eq_iff)
    then have "integrate_round s = Again s'" using free(2) s'(1) by (simp add: round missing(3))
    then show ?thesis using s'(2) by blast
  next
    case found
    define offset where "offset = getState ?t ?c - clock a"
    have t1: "doc_inv d t0 t1" "\<And>k. getState t1 k = getState ?t k"
      using di splitsD [OF found(2)] splits_shared [OF found(2)] by (auto simp: doc_inv_def)
    show ?thesis
    proof (cases "offset < ?len")
      case True
      have o: "clock a + offset = getState t1 ?c" using h(3) t1(2) by (simp add: offset_def)
      have "closed_doc t1" "shared d t1" using t1(1) by (simp_all add: doc_inv_def)
      from integrate_rest [OF d this h(2) found(3) o True] obtain t2 where
        t2: "integrate_found a (w_content w) f offset t1 = Inr t2" "closed_doc t2" "shared d t2"
          "\<And>k. getState t2 k = (if k = ?c then clock a + ?len else getState t1 k)" "\<And>n i. in_text t1 n i \<Longrightarrow> in_text t2 n i"
          "\<And>i. struck t1 i \<Longrightarrow> struck t2 i" "\<And>i. struck t2 i \<Longrightarrow> struck t1 i \<or> struck d i" by blast
      have top: "clock a + ?len \<le> max (getState d ?c) (getState t0 ?c)"
        using pos_of_mono [OF h(5) le_refl, of "sv ?c"] sent_end [OF sent] sv unfolding h(4) by simp
      have grow: "getState ?t k \<le> getState t2 k" for k using o True t1(2) by (simp add: t2(4))
      have "doc_inv d t0 t2"
        unfolding doc_inv_def
      proof (intro conjI allI impI)
        show "closed_doc t2" "shared d t2" by (rule t2)+
        show "getState t0 k \<le> getState t2 k" for k
          using di grow [of k] unfolding doc_inv_def by (meson order_trans)
        show "getState t2 k \<le> max (getState d k) (getState t0 k)" for k
          using di top t1(2) by (simp add: t2(4) doc_inv_def)
        show "in_text t2 n i" if "in_text t0 n i" for n i
          using t1(1) t2(5) that by (simp add: doc_inv_def)
        show "struck t2 i" if "struck t0 i" for i using t1(1) t2(6) that by (simp add: doc_inv_def)
        show "struck t0 i \<or> struck d i" if "struck t2 i" for i using t1(1) t2(7) [OF that] by (auto simp: doc_inv_def)
      qed
      moreover have "v = getState t2 k" if "(st(?c \<mapsto> clock a + ?len)) k = Some v" for k v
        using that st1 [of k v] t1(2) by (simp add: t2(4) split: if_split_asm)
      ultimately have "loop_inv rank d t0 sv W (ig_stack s) (s\<lparr>ig_doc := t2, ig_state := st(?c \<mapsto> clock a + ?len)\<rparr>)"
        using grow by (intro settled_inv [OF pl inv]) (simp_all add: h(1) t2(4))
      then have "loop_inv rank d t0 sv W (ig_stack (s\<lparr>ig_doc := t2, ig_state := st(?c \<mapsto> clock a + ?len)\<rparr>))
          (s\<lparr>ig_doc := t2, ig_state := st(?c \<mapsto> clock a + ?len)\<rparr>)" by simp
      from next_head_inv [OF pl this] show ?thesis
        using True t2(1) by (simp add: round found(1) offset_def [symmetric] Let_def)
    next
      case False
      have pos: "0 < ?len" using h(2) by (simp add: from_doc_def)
      have "loop_inv rank d t0 sv W (ig_stack s) (s\<lparr>ig_doc := t1, ig_state := st\<rparr>)"
        using t1 False st1 h(3) by (intro settled_inv [OF pl inv]) (simp_all add: h(1) offset_def)
      then have "loop_inv rank d t0 sv W (ig_stack (s\<lparr>ig_doc := t1, ig_state := st\<rparr>)) (s\<lparr>ig_doc := t1, ig_state := st\<rparr>)" by simp
      from next_head_inv [OF pl this] show ?thesis
        using False pos by (simp add: round found(1) offset_def [symmetric] Let_def)
    qed
  qed
qed

section \<open>Whole updates\<close>

lemma loop_completes:
  assumes pl: "plan rank d t0 sv W"
  shows "loop_inv rank d t0 sv W (ig_head s # ig_stack s) s \<Longrightarrow>
    \<exists>s'. integrate_loop s = Some (Inr s') \<and> loop_inv rank d t0 sv W [] s' \<and> (\<forall>c. taken s' c = length (W c))"
proof (induction s rule: measure_induct_rule [of work])
  case (less s)
  from round_inv [OF pl less.prems] show ?case
  proof
    assume "\<exists>s'. integrate_round s = Again s' \<and> loop_inv rank d t0 sv W (ig_head s' # ig_stack s') s'"
    then obtain s' where s': "integrate_round s = Again s'" "loop_inv rank d t0 sv W (ig_head s' # ig_stack s') s'" by blast
    from less.IH [OF integrate_round_work [OF s'(1)] s'(2)] show ?thesis
      using s'(1) by (subst integrate_loop.simps) simp
  next
    assume "\<exists>s'. integrate_round s = Finished s' \<and> loop_inv rank d t0 sv W [] s' \<and> (\<forall>c. taken s' c = length (W c))"
    then show ?thesis by (subst integrate_loop.simps) auto
  qed
qed

lemma completed_state:
  assumes pl: "plan rank d t0 sv W" and inv: "loop_inv rank d t0 sv W [] s" and all: "\<And>c. taken s c = length (W c)"
  shows "getState (ig_doc s) c = max (getState d c) (getState t0 c)"
proof -
  have sent: "sent rank d c (sv c) (W c) (max (sv c) (getState d c))" using pl by (simp add: plan_def)
  have "pos_of (sv c) (W c) (length (W c)) \<le> getState (ig_doc s) c"
    using inv all [of c] waitingD(1) [of rank sv W "[]" s c] by (simp add: loop_inv_def)
  moreover have "getState t0 c \<le> getState (ig_doc s) c" "getState (ig_doc s) c \<le> max (getState d c) (getState t0 c)"
    using inv by (simp_all add: loop_inv_def doc_inv_def)
  ultimately show ?thesis using sent_end [OF sent] by (simp add: max_def split: if_split_asm)
qed

lemma missing_wires_none: "doc_ok d \<Longrightarrow> getState d c \<le> k \<Longrightarrow> missing_wires d c k = []"
proof -
  assume d: "doc_ok d" and k: "getState d c \<le> k"
  have "x + length_at d (ID c x) \<le> getState d c" if x: "x \<in> set (clocks d c)" for x
  proof -
    obtain s where "heap d (ID c x) = Some s" using doc_okD(3) [OF d x] by blast
    then show ?thesis using struct_end [OF d, of "ID c x" s] by (simp add: length_at_def)
  qed
  then show ?thesis using k by (fastforce simp: missing_wires_def filter_empty_conv)
qed

text \<open>The structs of \<open>d\<close> that the state vector \<open>sv\<close> misses, as they are read.\<close>

definition sent_structs :: "'b doc_scheme \<Rightarrow> (nat \<Rightarrow> nat) \<Rightarrow> (nat \<times> wires) list \<Rightarrow> bool" where
  "sent_structs d sv refs \<longleftrightarrow> (\<forall>c. map_of refs c =
     (if sv c < getState d c then Some (with_clocks c (sv c) (missing_wires d c (sv c))) else None))"

lemma integrate_sent:
  assumes c: "causal rank d" and t: "closed_doc t" "shared d t"
    and refs: "sent_structs d sv refs" "\<And>c. sv c \<le> getState t c"
  shows "\<exists>t'. integrateStructs refs t = Some (Inr (t', None)) \<and> closed_doc t' \<and> shared d t' \<and>
    (\<forall>c. getState t' c = max (getState d c) (getState t c)) \<and> (\<forall>n i. in_text t n i \<longrightarrow> in_text t' n i) \<and>
    (\<forall>i. struck t i \<longrightarrow> struck t' i) \<and> (\<forall>i. struck t' i \<longrightarrow> struck t i \<or> struck d i)"
proof -
  have d: "doc_ok d" by (rule closed_docD(1) [OF causalD(1) [OF c]])
  define W where "W c = with_clocks c (sv c) (missing_wires d c (sv c))" for c
  have pl: "plan rank d t sv W" using c refs(2) missing_sent [OF c] by (simp add: plan_def W_def)
  define readers where "readers = map (\<lambda>(c, ws). (c, 0 :: nat, ws)) refs"
  define ids where "ids = rev (sort (map fst refs))"
  have mr: "map_of readers c = map_option (\<lambda>ws. (0, ws)) (map_of refs c)" for c
    unfolding readers_def by (induction refs) auto
  have none: "map_of refs c = None \<Longrightarrow> W c = []" for c
    using refs(1) missing_wires_none [OF d, of c "sv c"] by (auto simp: sent_structs_def W_def split: if_split_asm)
  have some: "map_of refs c = Some ws \<Longrightarrow> ws = W c" for c ws
    using refs(1) by (auto simp: sent_structs_def W_def split: if_split_asm)
  have rd: "reader_of readers c = (0, W c)" for c
    using none [of c] some [of c] by (cases "map_of refs c") (simp_all add: reader_of_def mr)
  have dom: "c \<in> set ids \<longleftrightarrow> map_of refs c \<noteq> None" for c
    by (simp add: ids_def map_of_eq_None_iff)
  define s where "s ids = (\<lparr>ig_doc = t, ig_ids = ids, ig_readers = readers, ig_target = 0, ig_stack = [],
    ig_head = (ID 0 0, WSkip 0), ig_rest = [], ig_missing = [], ig_state = Map.empty\<rparr>)" for ids
  have "\<forall>c\<in>set ids. map_of readers c \<noteq> None" using dom by (simp add: mr)
  from getNextStructTarget_spec [OF this] obtain r ids' where
    g: "getNextStructTarget readers ids = Inr (r, ids')" "set ids' \<subseteq> set ids"
    "\<forall>c\<in>set ids - set ids'. length (W c) = 0" "case r of None \<Rightarrow> ids' = [] | Some c \<Rightarrow> length (W c) \<noteq> 0"
    unfolding rd fst_conv snd_conv by blast
  have ids': "W c \<noteq> [] \<Longrightarrow> c \<in> set ids'" for c using none [of c] dom [of c] g(3) by fastforce
  have tk: "taken (s ids') c = 0" for c by (simp add: taken_def s_def rd)
  have inv: "loop_inv rank d t sv W [] (s ids')"
    unfolding loop_inv_def
  proof (intro conjI allI impI)
    show "doc_inv d t (ig_doc (s ids'))" using t by (simp add: doc_inv_def s_def)
    show "readers_inv W (s ids')"
      unfolding readers_inv_def tk using ids' g(2) dom by (auto simp: s_def rd mr)
    show "waiting_inv rank sv W [] (s ids')"
      unfolding waiting_inv_def tk using refs(2) by (simp add: s_def pos_of_def)
  qed (simp_all add: s_def)
  show ?thesis
  proof (cases r)
    case None
    then have e: "W c = []" for c using ids' g(4) by fastforce
    then have "\<And>c. taken (s ids') c = length (W c)" by (simp add: tk)
    from completed_state [OF pl inv this] have "getState t c = max (getState d c) (getState t c)" for c
      by (simp add: s_def)
    moreover have "integrateStructs refs t = Some (Inr (t, None))"
      using g(1) None by (simp add: integrateStructs_def readers_def [symmetric] ids_def [symmetric] Let_def)
    ultimately show ?thesis using t by auto
  next
    case (Some c)
    define s0 where "s0 = (s ids')\<lparr>ig_target := c\<rparr>"
    have i0: "loop_inv rank d t sv W [] s0" using inv by (simp add: s0_def del: integration.update_convs)
    have "taken s0 c < length (W c)" using g(4) Some tk by (simp add: s0_def taken_def)
    from take_struct_inv [OF pl i0 this] obtain s1 where
      s1: "take_struct c s0 = Again s1" "loop_inv rank d t sv W (ig_head s1 # ig_stack s1) s1"
      by (auto simp: s0_def s_def)
    from loop_completes [OF pl s1(2)] obtain s2 where
      s2: "integrate_loop s1 = Some (Inr s2)" "loop_inv rank d t sv W [] s2" "\<And>c. taken s2 c = length (W c)" by blast
    have "integrateStructs refs t = Some (Inr (ig_doc s2, None))"
      using g(1) Some s1(1) s2(1,2)
      by (simp add: integrateStructs_def readers_def [symmetric] ids_def [symmetric] Let_def s0_def s_def loop_inv_def)
    moreover have "doc_inv d t (ig_doc s2)" using s2(2) by (simp add: loop_inv_def)
    ultimately show ?thesis using completed_state [OF pl s2(2,3)] by (auto simp: doc_inv_def)
  qed
qed

lemma loop_not_stuck: "integrate_loop s = None \<Longrightarrow> False"
  using integrate_loop_returns [of s] by simp

lemma integrateStructs_returns: "\<exists>r. integrateStructs refs t = Some r"
  by (auto simp: integrateStructs_def Let_def split: sum.split option.split progress.split dest: loop_not_stuck)

text \<open>When nothing waits, nothing is tried again.\<close>

lemma readUpdate_no_retry:
  assumes "pendingStructs w = None"
  shows "\<exists>r. readUpdate v refs ds t w = Some r"
proof -
  obtain r where "integrateStructs refs t = Some r" using integrateStructs_returns by blast
  then show ?thesis
    using assms by (subst readUpdate.simps) (auto simp: can_retry_def split: sum.split prod.split)
qed

lemma readUpdate_applies:
  assumes "integrateStructs refs t = Some (Inr (t1, None))" "readAndApplyDeleteSet ds t1 = Inr (t2, [])"
  shows "readUpdate v refs ds t nothing_waits = Some (Inr (t2, nothing_waits))"
  using assms by (subst readUpdate.simps)
    (simp add: nothing_waits_def wait_structs_def wait_deletes_def ds_rest_def can_retry_def)

text \<open>
  C32. Applying an update comes to an end, whatever structs and deletions it has, whatever the document is, and
  whatever waits in its store: each round takes a struct, or goes on with one that waited, or sets the ones that
  wait on the stack aside for good; and what waited in the store is tried once again, when nothing waits there
  any more, however the updates that wait are encoded and merged.
\<close>

theorem readUpdate_returns: "\<exists>r. readUpdate v refs ds t w = Some r"
proof -
  obtain r where "integrateStructs refs t = Some r" using integrateStructs_returns by blast
  moreover have "\<exists>r. readUpdate v refs1 ds1 t1 (w\<lparr>pendingStructs := None, pendingDs := pd\<rparr>) = Some r" for refs1 ds1 t1 pd
    by (rule readUpdate_no_retry) simp
  ultimately show ?thesis
    by (subst readUpdate.simps) (auto split: sum.split prod.split option.split)
qed

end
