(* ===== verification/YMerge.thy ===== *)
theory YMerge
  imports YApplySpec
begin

text \<open>
  Deletions of an update, and what a document is after an update of another: it knows what either
  knew, and has deleted what either had.
\<close>

section \<open>Steps that delete\<close>

text \<open>The units in \<open>S\<close> become deleted, and nothing else.\<close>

definition deletes :: "(ID \<Rightarrow> bool) \<Rightarrow> 'a transaction_scheme \<Rightarrow> 'a transaction_scheme \<Rightarrow> bool" where
  "deletes S t t' \<longleftrightarrow> closed_doc t' \<and> (\<forall>c. getState t' c = getState t c) \<and> (\<forall>n i. in_text t' n i \<longleftrightarrow> in_text t n i) \<and>
     (\<forall>i. struck t' i \<longleftrightarrow> struck t i \<or> S i \<and> (\<exists>n. in_text t n i))"

lemma deletes_none: "closed_doc t \<Longrightarrow> splits t t' \<Longrightarrow> deletes (\<lambda>i. False) t t'"
  using splitsD by (fastforce simp: deletes_def)

lemma deletes_refl: "closed_doc t \<Longrightarrow> deletes (\<lambda>i. False) t t"
  by (simp add: deletes_def)

lemma deletes_trans: "deletes S t t1 \<Longrightarrow> deletes T t1 t2 \<Longrightarrow> deletes (\<lambda>i. S i \<or> T i) t t2"
  by (auto simp: deletes_def)

text \<open>What is deleted already does not matter.\<close>

lemma deletes_cong:
  assumes "deletes S t t'" "\<And>i n. in_text t n i \<Longrightarrow> \<not> struck t i \<Longrightarrow> S i \<longleftrightarrow> T i"
  shows "deletes T t t'"
  using assms unfolding deletes_def by blast

definition item_range :: "ID \<Rightarrow> item \<Rightarrow> ID \<Rightarrow> bool" where
  "item_range a it i \<longleftrightarrow> client i = client a \<and> clock a \<le> clock i \<and> clock i < clock a + it_length it"

lemma in_text_range: "doc_ok d \<Longrightarrow> in_text d n i \<longleftrightarrow> (\<exists>a it. heap d a = Some (Item it) \<and> it_parent it = n \<and> item_range a it i)"
  by (simp add: in_text_item item_range_def)

lemma gone_range: "doc_ok d \<Longrightarrow> struck d i \<longleftrightarrow> (\<exists>a it. heap d a = Some (Item it) \<and> it_deleted it \<and> item_range a it i)"
  by (simp add: gone_item item_range_def)

lemma deleteItem_deletes:
  assumes c: "closed_doc t" and a: "heap t a = Some (Item it)"
  shows "deletes (item_range a it) t (deleteItem t a it)"
proof (cases "it_deleted it")
  case True
  then have "deleteItem t a it = t" by (simp add: deleteItem_def)
  then show ?thesis
    using a True gone_range [OF closed_docD(1) [OF c]] deletes_cong [OF deletes_refl [OF c]] by metis
next
  case False
  note d = closed_docD(1) [OF c]
  let ?t = "deleteItem t a it"
  obtain pre post where st: "start t (it_parent it) = pre @ a # post" using doc_okD(8) [OF d a] by (metis split_list)
  note ds = deleteItem_spec [OF d a False st]
  have h: "heap ?t = (heap t)(a \<mapsto> Item (it\<lparr>it_deleted := True\<rparr>))" using False by (simp add: deleteItem_def)
  have "closed_doc ?t"
    using closed_docD [OF c] ds(1,2) a by (auto simp: closed_doc_def h split: if_split_asm)
  moreover have pt: "in_text ?t n i \<longleftrightarrow> in_text t n i" for n i
  proof
    assume "in_text ?t n i"
    then obtain x jt where x: "heap ?t x = Some (Item jt)" "it_parent jt = n" "item_range x jt i"
      unfolding in_text_range [OF ds(1)] by blast
    show "in_text t n i"
    proof (cases "x = a")
      case True
      then show ?thesis
        using x a unfolding in_text_range [OF d] h by (intro exI [of _ a] exI [of _ it]) (auto simp: item_range_def)
    next
      case False
      then show ?thesis using x unfolding in_text_range [OF d] h by auto
    qed
  next
    assume "in_text t n i"
    then obtain x jt where x: "heap t x = Some (Item jt)" "it_parent jt = n" "item_range x jt i"
      unfolding in_text_range [OF d] by blast
    show "in_text ?t n i"
    proof (cases "x = a")
      case True
      then have "it_parent (it\<lparr>it_deleted := True\<rparr>) = n" "item_range a (it\<lparr>it_deleted := True\<rparr>) i"
        using x a by (auto simp: item_range_def)
      moreover have "heap ?t a = Some (Item (it\<lparr>it_deleted := True\<rparr>))" by (simp add: h)
      ultimately show ?thesis unfolding in_text_range [OF ds(1)] by blast
    next
      case False
      then have "heap ?t x = Some (Item jt)" using x by (simp add: h)
      then show ?thesis using x unfolding in_text_range [OF ds(1)] by blast
    qed
  qed
  moreover have "struck ?t i \<longleftrightarrow> struck t i \<or> item_range a it i \<and> (\<exists>n. in_text t n i)" for i
  proof
    assume "struck ?t i"
    then obtain x jt where x: "heap ?t x = Some (Item jt)" "it_deleted jt" "item_range x jt i"
      unfolding gone_range [OF ds(1)] by blast
    show "struck t i \<or> item_range a it i \<and> (\<exists>n. in_text t n i)"
    proof (cases "x = a")
      case True
      then have "item_range a it i" using x by (auto simp: h item_range_def)
      then show ?thesis using a in_text_range [OF d] by blast
    next
      case False
      then show ?thesis using x unfolding gone_range [OF d] h by auto
    qed
  next
    assume "struck t i \<or> item_range a it i \<and> (\<exists>n. in_text t n i)"
    then show "struck ?t i"
    proof
      assume "struck t i"
      then obtain x jt where x: "heap t x = Some (Item jt)" "it_deleted jt" "item_range x jt i"
        unfolding gone_range [OF d] by blast
      then have "x \<noteq> a" using a False by auto
      then have "heap ?t x = Some (Item jt)" using x by (simp add: h)
      then show ?thesis using x unfolding gone_range [OF ds(1)] by blast
    next
      assume "item_range a it i \<and> (\<exists>n. in_text t n i)"
      then have "heap ?t a = Some (Item (it\<lparr>it_deleted := True\<rparr>))" "it_deleted (it\<lparr>it_deleted := True\<rparr>)"
        "item_range a (it\<lparr>it_deleted := True\<rparr>) i"
        by (auto simp: h item_range_def)
      then show ?thesis unfolding gone_range [OF ds(1)] by blast
    qed
  qed
  ultimately show ?thesis using ds(2) by (simp add: deletes_def)
qed

section \<open>Ranges\<close>

lemma next_clock:
  assumes d: "doc_ok t" and ks: "drop i (clocks t c) = k # ks" and it: "heap t (ID c k) = Some (Item it)"
  shows "ks = [] \<Longrightarrow> getState t c = k + it_length it" "ks \<noteq> [] \<Longrightarrow> hd ks = k + it_length it"
proof -
  have cl: "clocks t c = take i (clocks t c) @ k # ks" using ks by (metis append_take_drop_id)
  have l: "length_at t (ID c k) = it_length it" using it by (simp add: length_at_def)
  show "getState t c = k + it_length it" if "ks = []"
    using arg_cong [OF cl, of last] cl that l by (auto simp: getState_def)
  have "ranges_of t c = map (\<lambda>k. (k, length_at t (ID c k))) (take i (clocks t c) @ k # ks)"
    unfolding ranges_of_def using cl by simp
  then have "contiguous (map (\<lambda>k. (k, length_at t (ID c k))) (k # ks))"
    using contiguous_parts doc_okD(4) [OF d, of c] by (metis map_append)
  then show "hd ks = k + it_length it" if "ks \<noteq> []" using that l by (cases ks) auto
qed

lemma range_gone:
  "doc_ok t \<Longrightarrow> heap t a = Some (Item it) \<Longrightarrow> it_deleted it \<Longrightarrow> item_range a it x \<Longrightarrow> struck t x"
  unfolding gone_range by blast

lemma deleteItem_clocks: "clocks (deleteItem t a it) = clocks t"
  by (simp add: deleteItem_def)

lemma delete_structs_deletes:
  assumes "closed_doc t" "drop i (clocks t c) = ks"
  shows "deletes (\<lambda>x. client x = c \<and> ks \<noteq> [] \<and> hd ks \<le> clock x \<and> clock x < e) t (delete_structs c e i ks t)"
  using assms
proof (induction ks arbitrary: i t)
  case Nil
  then show ?case using deletes_refl by simp
next
  case (Cons k ks)
  note d = closed_docD(1) [OF Cons.prems(1)]
  have i: "i < length (clocks t c)" "clocks t c ! i = k" using Cons.prems(2) nth_via_drop
    by (metis drop_all leI list.discI, metis nth_via_drop)
  have dk: "drop (Suc i) (clocks t c) = ks" using Cons.prems(2) by (metis drop_Suc list.sel(3) tl_drop)
  obtain it where it: "heap t (ID c k) = Some (Item it)"
    using doc_okD(3) [OF d, of k c] i closed_docD(2) [OF Cons.prems(1)] by (metis nth_mem struct.exhaust)
  note nx = next_clock [OF d Cons.prems(2) it]
  have rest: "client x = c \<and> k \<le> clock x \<and> clock x < e \<longleftrightarrow> item_range (ID c k) it x \<and> clock x < e \<or>
      client x = c \<and> ks \<noteq> [] \<and> hd ks \<le> clock x \<and> clock x < e" if "in_text t n x" for n x
    using in_text_known [OF d that] nx by (cases "ks = []") (auto simp: item_range_def)
  show ?case
  proof (cases "k < e")
    case False
    then show ?thesis using deletes_cong [OF deletes_refl [OF Cons.prems(1)]] by auto
  next
    case ke: True
    consider "it_deleted it" | "\<not> it_deleted it" "e < k + it_length it" | "\<not> it_deleted it" "k + it_length it \<le> e" by linarith
    then show ?thesis
    proof cases
      case 1
      have "deletes (\<lambda>x. client x = c \<and> k \<le> clock x \<and> clock x < e) t (delete_structs c e (Suc i) ks t)"
        by (rule deletes_cong [OF Cons.IH [OF Cons.prems(1) dk]]) (use rest range_gone [OF d it 1] in blast)
      then show ?thesis using ke it 1 by simp
    next
      case 2
      have sp: "splittable t c i it (e - k)" using d i it 2 ke by (simp add: splittable_def)
      let ?t = "spliceSplit t c i it (e - k)"
      obtain l where l: "heap ?t (ID c k) = Some (Item l)" "it_length l = e - k"
        using spliceSplit_fields(1) [OF sp] 2 ke unfolding i(2) by auto
      have "deletes (item_range (ID c k) l) ?t (deleteItem ?t (ID c k) l)"
        using deleteItem_deletes [OF splitsD(4) [OF spliceSplit_splits [OF sp] Cons.prems(1)] l(1)] .
      from deletes_cong [OF deletes_trans [OF deletes_none [OF Cons.prems(1) spliceSplit_splits [OF sp]] this]]
      show ?thesis using it 2 ke l by (simp add: item_range_def)
    next
      case 3
      let ?t = "deleteItem t (ID c k) it"
      have t: "deletes (item_range (ID c k) it) t ?t" by (rule deleteItem_deletes [OF Cons.prems(1) it])
      then have "closed_doc ?t" by (simp add: deletes_def)
      from deletes_trans [OF t Cons.IH [OF this]] dk
      have "deletes (\<lambda>x. item_range (ID c k) it x \<or> client x = c \<and> ks \<noteq> [] \<and> hd ks \<le> clock x \<and> clock x < e) t
          (delete_structs c e (Suc i) ks ?t)" by (simp add: deleteItem_clocks)
      then have "deletes (\<lambda>x. client x = c \<and> k \<le> clock x \<and> clock x < e) t (delete_structs c e (Suc i) ks ?t)"
      proof (rule deletes_cong)
        fix x n assume "in_text t n x"
        from rest [OF this] 3 show "(item_range (ID c k) it x \<or> client x = c \<and> ks \<noteq> [] \<and> hd ks \<le> clock x \<and> clock x < e) \<longleftrightarrow>
            client x = c \<and> k \<le> clock x \<and> clock x < e" by (simp add: item_range_def) linarith
      qed
      then show ?thesis using it 3 ke by simp
    qed
  qed
qed

lemma delete_range_deletes:
  assumes c: "closed_doc t" and ck: "ck < getState t c"
  shows "\<exists>t'. delete_range c ck e t = Inr t' \<and> deletes (\<lambda>x. client x = c \<and> ck \<le> clock x \<and> clock x < e) t t'"
proof -
  note d = closed_docD(1) [OF c]
  obtain i where i: "findIndexSS (ranges_of t c) ck = Inr i" "holds (ranges_of t c) ck i"
    using findIndexSS_store [OF d ck] by blast
  then have j: "i < length (clocks t c)" "clocks t c ! i \<le> ck"
    "ck < clocks t c ! i + length_at t (ID c (clocks t c ! i))" by (auto simp: holds_def)
  define k where "k = clocks t c ! i"
  obtain it where it: "heap t (ID c k) = Some (Item it)"
    using doc_okD(3) [OF d, of k c] j(1) closed_docD(2) [OF c] by (metis k_def nth_mem struct.exhaust)
  have len: "ck < k + it_length it" using j(3) it by (simp add: k_def [symmetric] length_at_def)
  show ?thesis
  proof (cases "\<not> it_deleted it \<and> k < ck")
    case True
    have sp: "splittable t c i it (ck - k)" using d j(1) it True less_diff_conv2 [of k ck "it_length it"] len
    by (simp add: splittable_def k_def [symmetric] add.commute)
    let ?t = "spliceSplit t c i it (ck - k)"
    have sl: "splits t ?t" by (rule spliceSplit_splits [OF sp])
    have dr: "drop (Suc i) (clocks ?t c) = ck # drop (Suc i) (clocks t c)"
      using spliceSplit_fields(2) [OF sp] j(1) True by (simp add: k_def [symmetric] insert_at_def)
    from deletes_cong [OF deletes_trans [OF deletes_none [OF c sl] delete_structs_deletes [OF splitsD(4) [OF sl c] dr]]]
    show ?thesis using i(1) it True dr by (simp add: delete_range_def k_def [symmetric])
  next
    case False
    have dr: "drop i (clocks t c) = k # drop (Suc i) (clocks t c)" using j(1) by (simp add: k_def Cons_nth_drop_Suc)
    have "client x = c \<and> k \<le> clock x \<and> clock x < e \<longleftrightarrow> client x = c \<and> ck \<le> clock x \<and> clock x < e" if "\<not> struck t x" for x
    proof (cases "client x = c \<and> k \<le> clock x \<and> clock x < ck")
      case True
      then have "k < ck" "item_range (ID c k) it x" using len by (simp_all add: item_range_def)
      then show ?thesis using False range_gone [OF d it] that by blast
    next
      case False
      then show ?thesis using j(2) by (auto simp: k_def [symmetric])
    qed
    with deletes_cong [OF delete_structs_deletes [OF c dr, of e]]
    have "deletes (\<lambda>x. client x = c \<and> ck \<le> clock x \<and> clock x < e) t (delete_structs c e i (drop i (clocks t c)) t)"
      using dr by simp
    then show ?thesis using i(1) it False by (auto simp: delete_range_def k_def [symmetric])
  qed
qed

lemma apply_ranges_deletes:
  assumes "closed_doc t" "\<And>r. r \<in> set rs \<Longrightarrow> 0 < snd r \<and> fst r + snd r \<le> getState t c"
  shows "\<exists>t'. apply_ranges c (getState t c) rs (t, un) = Inr (t', un) \<and>
    deletes (\<lambda>x. client x = c \<and> (\<exists>r\<in>set rs. covers (clock x) r)) t t'"
  using assms
proof (induction rs arbitrary: t)
  case Nil
  then show ?case using deletes_refl by simp
next
  case (Cons r rs)
  obtain ck n where r: "r = (ck, n)" by fastforce
  have b: "0 < n" "ck + n \<le> getState t c" using Cons.prems(2) [of r] r by simp_all
  obtain t1 where t1: "delete_range c ck (ck + n) t = Inr t1"
    "deletes (\<lambda>x. client x = c \<and> ck \<le> clock x \<and> clock x < ck + n) t t1"
    using delete_range_deletes [OF Cons.prems(1), of ck c "ck + n"] b by auto
  have k: "closed_doc t1" "getState t1 c = getState t c" using t1(2) by (simp_all add: deletes_def)
  obtain t' where t': "apply_ranges c (getState t c) rs (t1, un) = Inr (t', un)"
    "deletes (\<lambda>x. client x = c \<and> (\<exists>r\<in>set rs. covers (clock x) r)) t1 t'"
    using Cons.IH [OF k(1)] Cons.prems(2) k(2) by auto
  have "apply_ranges c (getState t c) (r # rs) (t, un) = Inr (t', un)" using r b t1(1) t'(1) by simp
  moreover have "deletes (\<lambda>x. client x = c \<and> (\<exists>r\<in>set (r # rs). covers (clock x) r)) t t'"
    by (rule deletes_cong [OF deletes_trans [OF t1(2) t'(2)]]) (auto simp: r covers_def)
  ultimately show ?case by blast
qed

lemma apply_deletes_deletes:
  assumes "closed_doc t" "\<forall>c rs r. (c, rs) \<in> set ds \<and> r \<in> set rs \<longrightarrow> 0 < snd r \<and> fst r + snd r \<le> getState t c"
  shows "\<exists>t'. apply_deletes ds (t, un) = Inr (t', un) \<and>
    deletes (\<lambda>x. \<exists>rs. (client x, rs) \<in> set ds \<and> (\<exists>r\<in>set rs. covers (clock x) r)) t t'"
  using assms
proof (induction ds arbitrary: t)
  case Nil
  then show ?case using deletes_refl by simp
next
  case (Cons x ds)
  obtain c rs where x: "x = (c, rs)" by fastforce
  have "\<And>r. r \<in> set rs \<Longrightarrow> 0 < snd r \<and> fst r + snd r \<le> getState t c" using Cons.prems(2) unfolding x by (meson list.set_intros(1))
  from apply_ranges_deletes [OF Cons.prems(1) this] obtain t1 where
    t1: "apply_ranges c (getState t c) rs (t, un) = Inr (t1, un)"
    "deletes (\<lambda>y. client y = c \<and> (\<exists>r\<in>set rs. covers (clock y) r)) t t1" by blast
  have k: "closed_doc t1" "\<And>c. getState t1 c = getState t c" using t1(2) by (simp_all add: deletes_def)
  have "\<forall>c rs r. (c, rs) \<in> set ds \<and> r \<in> set rs \<longrightarrow> 0 < snd r \<and> fst r + snd r \<le> getState t1 c"
    using Cons.prems(2) unfolding k(2) by (meson list.set_intros(2))
  from Cons.IH [OF k(1) this] obtain t' where t': "apply_deletes ds (t1, un) = Inr (t', un)"
    "deletes (\<lambda>y. \<exists>rs. (client y, rs) \<in> set ds \<and> (\<exists>r\<in>set rs. covers (clock y) r)) t1 t'" by blast
  have "deletes (\<lambda>y. \<exists>rs. (client y, rs) \<in> set (x # ds) \<and> (\<exists>r\<in>set rs. covers (clock y) r)) t t'"
    by (rule deletes_cong [OF deletes_trans [OF t1(2) t'(2)]]) (auto simp: x)
  then show ?case using x t1(1) t'(1) by auto
qed

section \<open>Documents after an update\<close>

lemma gone_deleted_at:
  assumes "closed_doc d"
  shows "deleted_at d (client i) (clock i) \<longleftrightarrow> struck d i"
proof
  note d = closed_docD(1) [OF assms]
  assume "deleted_at d (client i) (clock i)"
  then obtain k where k: "k \<in> set (clocks d (client i))" "struct_deleted d (ID (client i) k)"
    "covers (clock i) (k, length_at d (ID (client i) k))" by (auto simp: deleted_at_def list_ex_iff)
  then obtain it where "heap d (ID (client i) k) = Some (Item it)"
    using doc_okD(3) [OF d k(1)] closed_docD(2) [OF assms] by (metis struct.exhaust)
  with k show "struck d i" unfolding gone_range [OF d]
    by (intro exI [of _ "ID (client i) k"] exI [of _ it]) (simp add: struct_deleted_def covers_def item_range_def length_at_def)
next
  note d = closed_docD(1) [OF assms]
  assume "struck d i"
  then obtain a it where a: "heap d a = Some (Item it)" "it_deleted it" "item_range a it i" unfolding gone_range [OF d] by blast
  have e: "ID (client i) (clock a) = a" using a(3) by (simp add: item_range_def)
  have "clock a \<in> set (clocks d (client i))" using doc_okD(2) [OF d a(1)] a(3) by (simp add: item_range_def)
  then show "deleted_at d (client i) (clock i)" unfolding deleted_at_def list_ex_iff
    using a e by (intro bexI [of _ "clock a"]) (simp_all add: struct_deleted_def covers_def item_range_def length_at_def)
qed

text \<open>Its units are those of both documents, and deleted is what is deleted in one of them.\<close>

lemma merge_update:
  assumes c: "causal rank d" "clients_of cs d" and t: "closed_doc t" "shared d t"
    and refs: "sent_structs d sv refs" "\<And>c. sv c \<le> getState t c" and ds: "set ds = set (createDeleteSetFromStructStore cs d)"
  shows "\<exists>t'. readUpdate v refs ds t nothing_waits = Some (Inr (t', nothing_waits)) \<and> closed_doc t' \<and>
    (\<forall>c. getState t' c = max (getState d c) (getState t c)) \<and>
    (\<forall>n i. in_text t' n i \<longleftrightarrow> in_text t n i \<or> in_text d n i) \<and> (\<forall>i. struck t' i \<longleftrightarrow> struck t i \<or> struck d i)"
proof -
  note cd = causalD(1) [OF c(1)]
  note d = closed_docD(1) [OF cd]
  from integrate_sent [OF c(1) t refs] obtain t1 where
    t1: "integrateStructs refs t = Some (Inr (t1, None))" "closed_doc t1" "shared d t1"
    "\<And>c. getState t1 c = max (getState d c) (getState t c)" "\<And>n i. in_text t n i \<Longrightarrow> in_text t1 n i"
    "\<And>i. struck t i \<Longrightarrow> struck t1 i" "\<And>i. struck t1 i \<Longrightarrow> struck t i \<or> struck d i" by blast
  note spec = createDeleteSet_spec(4) [OF d c(2)]
  have pos: "\<forall>x\<in>set (struct_marks d c). 0 < fst (snd x)" for c
    using doc_ok_positive [OF d, of c] by (auto simp: struct_marks_def positive_def ranges_of_def list_all_iff)
  have "0 < snd r \<and> fst r + snd r \<le> getState t1 c" if x: "(c, rs) \<in> set ds" "r \<in> set rs" for c rs r
  proof -
    have "r \<in> set (deleted_runs (struct_marks d c))" using x spec by (simp add: ds)
    then show ?thesis using run_below_state [OF d] deleted_runs_positive [OF pos] by (simp add: t1(4) le_max_iff_disj)
  qed
  then have "\<forall>c rs r. (c, rs) \<in> set ds \<and> r \<in> set rs \<longrightarrow> 0 < snd r \<and> fst r + snd r \<le> getState t1 c" by blast
  from apply_deletes_deletes [OF t1(2) this] obtain t2 where t2: "apply_deletes ds (t1, []) = Inr (t2, [])"
    "deletes (\<lambda>x. \<exists>rs. (client x, rs) \<in> set ds \<and> (\<exists>r\<in>set rs. covers (clock x) r)) t1 t2" by blast
  have S: "(\<exists>rs. (client x, rs) \<in> set ds \<and> (\<exists>r\<in>set rs. covers (clock x) r)) \<longleftrightarrow> struck d x" for x
    using gone_deleted_at [OF cd, of x] runs_deleted_at [OF d, of "client x" "clock x"] spec by (auto simp: ds)
  have t2': "closed_doc t2" "\<And>c. getState t2 c = getState t1 c" "\<And>n i. in_text t2 n i \<longleftrightarrow> in_text t1 n i"
    "\<And>i. struck t2 i \<longleftrightarrow> struck t1 i \<or> struck d i \<and> (\<exists>n. in_text t1 n i)"
    using t2(2) unfolding S by (simp_all add: deletes_def)
  have known: "in_text d n i \<Longrightarrow> in_text t1 n i" for n i
    using in_text_known [OF d] closed_in_text [OF t1(2), of i] sharedD [OF t1(3)] t1(4) by fastforce
  have both: "in_text t1 n i \<longleftrightarrow> in_text t n i \<or> in_text d n i" for n i
  proof
    assume i: "in_text t1 n i"
    from in_text_known [OF closed_docD(1) [OF t1(2)] this] consider "clock i < getState d (client i)" | "clock i < getState t (client i)"
      by (auto simp: t1(4) less_max_iff_disj)
    then obtain m where m: "in_text d m i \<or> in_text t m i"
      using closed_in_text [OF cd] closed_in_text [OF t(1)] by cases blast+
    then have "in_text t1 m i" using known t1(5) by blast
    then have "n = m" by (rule in_text_unique [OF closed_docD(1) [OF t1(2)] i])
    then show "in_text t n i \<or> in_text d n i" using m by blast
  qed (use known t1(5) in blast)
  have "\<exists>n. in_text d n i" if "struck d i" for i
    using that image_eqI [where f = fst, of i] by (fastforce simp: struck_def in_text_def)
  then have del: "struck d i \<Longrightarrow> \<exists>n. in_text t1 n i" for i using known by blast
  show ?thesis
  proof (intro exI conjI allI)
    show "readUpdate v refs ds t nothing_waits = Some (Inr (t2, nothing_waits))"
      using t1(1) t2(1) by (intro readUpdate_applies) (simp_all add: readAndApplyDeleteSet_def)
    show "closed_doc t2" by (rule t2'(1))
    show "getState t2 c = max (getState d c) (getState t c)" for c by (simp only: t2'(2) t1(4))
    show "in_text t2 n i \<longleftrightarrow> in_text t n i \<or> in_text d n i" for n i by (simp only: t2'(3) both)
    show "struck t2 i \<longleftrightarrow> struck t i \<or> struck d i" for i using t2'(4) t1(6,7) del by blast
  qed
qed

section \<open>Two pages\<close>

text \<open>What was sent is read as what was sent.\<close>

fun normal :: "wire_struct \<Rightarrow> bool" where
  "normal (WItem w) = (w_origin w = None \<and> w_rightOrigin w = None \<or> w_parent w = None)"
| "normal w = True"

lemma wire_of_ref_of: "normal w \<Longrightarrow> wire_of_ref (ref_of w) = Some w"
  by (cases w) (auto split: option.split)

lemma struct_wire_normal: "normal (struct_wire a s k)"
  by (cases s) (simp_all add: write_item_def Let_def)

lemma missing_normal: "list_all normal (missing_wires d c k)"
  by (simp add: list_all_iff missing_wires_def wire_at_def struct_wire_normal split: option.split)

lemma ref_length_of: "ref_length oc (ref_of w) = wire_length w"
  by (cases w) simp_all

lemma those_refs: "list_all normal ws \<Longrightarrow>
    those (map (\<lambda>(i, r). map_option (Pair i) (wire_of_ref r)) (with_ids oc c k (map ref_of ws))) = Some (with_clocks c k ws)"
  by (induction ws arbitrary: k) (simp_all add: wire_of_ref_of ref_length_of)

lemma text_structs_answer:
  "text_structs (map (answer_refs oc d) nc) = Some (map (\<lambda>(c, k). (c, with_clocks c k (missing_wires d c k))) nc)"
  by (induction nc) (auto simp: text_structs_def answer_refs_def those_refs [OF missing_normal])

lemma map_of_with_clocks: "map_of (map (\<lambda>(c, k). (c, with_clocks c k (missing_wires d c k))) nc) c =
    map_option (\<lambda>k. with_clocks c k (missing_wires d c k)) (map_of nc c)"
  by (induction nc) auto

text \<open>
  C6. Two pages that have written apart come together. A page on which nothing waits sends its state vector, the
  other answers with an update, and the page applies it: nothing fails, waits or is left over, every client's state is then the larger
  one of the two, the units of every text are those that one of the pages has, and deleted are exactly those that
  one of the pages has deleted. So when both have done this they agree in what is in each text and what is deleted.
  The items may refer to one another in any way that has come about in time, and be in any number of texts.
\<close>

theorem exchange_merges:
  assumes "causal rank d" "clients_of cs d" and "closed_doc t" "clients_of cs' t" and "shared d t"
    and "\<forall>c. list_all wire_ok (missing_wires d c (getState t c))"
  shows "\<exists>U refs ds r W t'. encodeStateAsUpdate cs d (encodeStateVector cs' t) = Inr U \<and>
    read_update oc (createDecoder U) = Inr ((refs, ds), r) \<and> text_structs refs = Some W \<and>
    readUpdate v W ds t nothing_waits = Some (Inr (t', nothing_waits)) \<and> closed_doc t' \<and>
    (\<forall>c. getState t' c = max (getState d c) (getState t c)) \<and>
    (\<forall>n i. in_text t' n i \<longleftrightarrow> in_text t n i \<or> in_text d n i) \<and> (\<forall>i. struck t' i \<longleftrightarrow> struck t i \<or> struck d i)"
proof -
  note d = closed_docD(1) [OF causalD(1) [OF assms(1)]] and t = closed_docD(1) [OF assms(3)]
  let ?nc = "descending (new_clients cs d (descending (getStateVector cs' t)))" and ?ds = "createDeleteSetFromStructStore cs d"
  let ?W = "map (\<lambda>(c, k). (c, with_clocks c k (missing_wires d c k))) ?nc"
  from answer_is_read [OF d assms(2) t assms(4,6)] obtain U r where
    U: "encodeStateAsUpdate cs d (encodeStateVector cs' t) = Inr U"
    "read_update oc (createDecoder U) = Inr ((map (answer_refs oc d) ?nc, descending ?ds), r)" by blast
  have some: "map_of ?nc c = Some k \<longleftrightarrow> k = getState t c \<and> k < getState d c" for c k
    using new_clients_spec(1) [OF d assms(2) t assms(4), of c k]
      map_of_eq_Some_iff [OF distinct_descending [OF new_clients_spec(2) [OF d assms(2) t assms(4)]]] by simp
  have "map_of ?nc c = (if getState t c < getState d c then Some (getState t c) else None)" for c
    using some [of c] by (cases "map_of ?nc c") auto
  moreover have "map_of ?W c = map_option (\<lambda>k. with_clocks c k (missing_wires d c k)) (map_of ?nc c)" for c
    by (rule map_of_with_clocks)
  ultimately have "sent_structs d (getState t) ?W" by (simp add: sent_structs_def)
  from merge_update [OF assms(1-3,5) this order.refl, of "descending ?ds" v] obtain t' where
    t': "readUpdate v ?W (descending ?ds) t nothing_waits = Some (Inr (t', nothing_waits))" "closed_doc t'"
    "\<forall>c. getState t' c = max (getState d c) (getState t c)"
    "\<forall>n i. in_text t' n i \<longleftrightarrow> in_text t n i \<or> in_text d n i" "\<forall>i. struck t' i \<longleftrightarrow> struck t i \<or> struck d i"
    by auto
  show ?thesis
    by (rule exI [of _ U], rule exI [of _ "map (answer_refs oc d) ?nc"], rule exI [of _ "descending ?ds"], rule exI [of _ r],
        rule exI [of _ ?W], rule exI [of _ t'], intro conjI, rule U(1), rule U(2), rule text_structs_answer, (rule t')+)
qed

text \<open>A page that has seen \<open>he\<close> gets what the page with \<open>hello\<close>, of which \<open>ell\<close> is deleted, has.\<close>

definition he_page :: transaction where
  "he_page = \<lparr>heap = heap he, clocks = clocks he, start = start he, type_length = type_length he, clientID = 3,
     deleteSet = (\<lambda>c. []), mergeStructs = [], beforeState = getState he\<rparr>"

lemma he_page_ok: "closed_doc he_page" "clients_of [7] he_page" "getState he_page c = getState he c" "shared ho he_page"
proof -
  have st: "getState he_page c = getState he c" for c by (simp add: getState_def he_page_def length_at_def)
  then show "getState he_page c = getState he c" .
  have "struct_units he_page = struct_units he" by (simp add: fun_eq_iff struct_units_def he_page_def)
  then have "units he_page n = units he n" for n by (simp add: units_def) (simp add: he_page_def)
  then have u: "doc_ok he_page \<longleftrightarrow> doc_ok he" unfolding doc_ok_def by (simp add: he_page_def ranges_of_def length_at_def)
  then show "closed_doc he_page"
    using he_ok(1) by (auto simp: closed_doc_def he_page_def he_def text_item_def)
  show "clients_of [7] he_page" using he_ok(2) st by (simp add: clients_of_def he_page_def)
  show "shared ho he_page"
    unfolding shared_def in_text_item [OF ho_ok(1)] in_text_item [OF u [THEN iffD2, OF he_ok(1)]]
    by (auto simp: he_page_def he_def ho_def text_item_def split: if_split_asm)
qed

lemma ho_causal: "causal clock ho"
  unfolding causal_def in_text_item [OF ho_ok(1)] closed_doc_def
  using ho_ok(1,3) by (auto simp: ho_def text_item_def split: if_split_asm)

text \<open>An encoding that keeps updates as they are.\<close>

definition listed_v2 :: "((nat \<times> wires) list \<times> (nat \<times> ranges) list) encoding_v2" where
  "listed_v2 = \<lparr>v2_write = Pair, v2_merge = \<lambda>x y. Inr (fst x @ fst y, snd x @ snd y), v2_read = Inr\<rparr>"

lemma exchange_merges_witness:
  "\<exists>U refs ds r W t'. encodeStateAsUpdate [7] ho (encodeStateVector [7] he_page) = Inr U \<and>
    read_update \<lparr>oc_read = \<lambda>n d. Inl TypeErr, oc_length = \<lambda>x :: unit. 0\<rparr> (createDecoder U) = Inr ((refs, ds), r) \<and>
    text_structs refs = Some W \<and> readUpdate listed_v2 W ds he_page nothing_waits = Some (Inr (t', nothing_waits)) \<and>
    getState t' 7 = 5 \<and> in_text t' CONTENT (ID 7 4) \<and> struck t' (ID 7 1) \<and> \<not> struck t' (ID 7 0)"
proof -
  have ok: "\<forall>c. list_all wire_ok (missing_wires ho c (getState he_page c))"
    by (simp add: he_page_ok(3) ho_missing opt_id_ok_def id_ok_def MAX_SAFE_INTEGER_def string_ok_js [of "''o''", simplified])
  have g: "in_text ho CONTENT (ID 7 4)"
    unfolding in_text_item [OF ho_ok(1)] by (intro exI [of _ "ID 7 4"]) (simp add: ho_def text_item_def)
  have "struck ho (ID 7 1)"
    unfolding gone_item [OF ho_ok(1)] by (intro exI [of _ "ID 7 1"]) (simp add: ho_def text_item_def)
  note g = g this
  have "\<not> struck ho (ID 7 0)" "\<not> struck he_page (ID 7 0)"
    unfolding gone_item [OF ho_ok(1)] gone_item [OF closed_docD(1) [OF he_page_ok(1)]]
    by (auto simp: ho_def he_page_def he_def text_item_def split: if_split_asm)
  note g = g this
  from exchange_merges [OF ho_causal ho_ok(2) he_page_ok(1,2,4) ok,
      where oc = "\<lparr>oc_read = \<lambda>n d. Inl TypeErr, oc_length = \<lambda>x :: unit. 0\<rparr>" and v = listed_v2]
  obtain U refs ds r W t' where U: "encodeStateAsUpdate [7] ho (encodeStateVector [7] he_page) = Inr U"
    "read_update \<lparr>oc_read = \<lambda>n d. Inl TypeErr, oc_length = \<lambda>x :: unit. 0\<rparr> (createDecoder U) = Inr ((refs, ds), r)"
    "text_structs refs = Some W" "readUpdate listed_v2 W ds he_page nothing_waits = Some (Inr (t', nothing_waits))"
    "\<forall>c. getState t' c = max (getState ho c) (getState he_page c)"
    "\<forall>n i. in_text t' n i \<longleftrightarrow> in_text he_page n i \<or> in_text ho n i" "\<forall>i. struck t' i \<longleftrightarrow> struck he_page i \<or> struck ho i"
    by blast
  from U(5-7) g have "getState t' 7 = 5" "in_text t' CONTENT (ID 7 4)" "struck t' (ID 7 1)" "\<not> struck t' (ID 7 0)"
    by (simp_all add: he_page_ok(3) ho_ok(3) he_ok(3))
  with U(1-4) show ?thesis by blast
qed

end
