(* ===== verification/Spec2Isabelle.thy ===== *)
theory Spec2Isabelle
  imports Proposals CollabAwareness FrontPanels FrontLanding YTyping Delivery RsmSpec RaftLog DiskPersister YMerge
begin

text \<open>
  The GoCollab IDE: a browser page in which several people edit one Go program, run it, and propose
  changes to each other. This development models the front end (\<open>src/ide/frontend/src\<close>), the part
  of the Yjs library it is built on (\<open>yjs\<close> and \<open>lib0\<close> under \<open>node_modules\<close>), and the server that
  connects the pages (\<open>src/ide\<close>).

  \<^bold>\<open>How the program is put together.\<close> The landing page creates or joins a session and hands over to the
  IDE page, which keeps the participants, the proposals, the program's output and one Yjs document.
  The WebSocket hook connects the page to the server: snapshots of the document as binary frames,
  everything else as JSON. The editor pane shows the document's text. The sidebar lists participants
  and proposals, and its dialogue makes a proposal out of the selection: the selected text, its
  replacement, and the two ends of the selection as relative positions, encoded in binary and base64.
  The server keeps the last state of the document, the roles and the proposals of each session, checks
  the role of who sends a message and passes it on to the others' connections. An editor accepts a proposal later, when the document may have changed: the positions
  are resolved again, the text there is compared with the one that was selected, and only then it is
  replaced, in one transaction.

  \<^bold>\<open>Theories and what they model.\<close>

  \<^item> \<open>Prelude\<close>, \<open>JsRuntime\<close>, \<open>JsRegex\<close>: bytes, UTF-16 strings (lists of 16-bit words), the errors a
    call can end with, the string methods, UTF-8, base64 and number arithmetic of JavaScript that the
    sources use; regular expressions as sequences of literals and repetitions.
  \<^item> \<open>Lib0Encoding\<close>, \<open>Lib0Decoding\<close> (\<open>lib0/encoding.js\<close>, \<open>decoding.js\<close>): the encoder with its growing
    buffers, the decoder with its cursor, and the writers and readers of integers, arrays and strings.
  \<^item> \<open>YIds\<close> (\<open>utils/ID.js\<close>, \<open>RelativePosition.js\<close>): identifiers, and the binary form of positions.
  \<^item> \<open>YSearch\<close>, \<open>YStore\<close>, \<open>YUnits\<close> (\<open>StructStore.js\<close>, \<open>Item.js\<close>, \<open>GC.js\<close>, \<open>ContentString.js\<close>): the
    structs of each client, the search by clock, splitting and adding. The object graph is a heap from
    identifiers to structs, an array of clocks per client and the list of items per text; \<open>doc_ok\<close> is
    the invariant. A text is seen as a list of units: the identifier of every character that ever was
    in it, with the character or, deleted, without.
  \<^item> \<open>YText\<close>, \<open>YTextSpec\<close> (\<open>YText.js\<close>, \<open>Item.integrate\<close>): insertion and deletion, and what they do to
    the units.
  \<^item> \<open>YTransaction\<close>, \<open>YTransactionSpec\<close> (\<open>Transaction.js\<close>, \<open>DeleteSet.js\<close>, \<open>mergeWith\<close>, \<open>gc\<close>): the
    clean-up that ends a transaction, and that no text changes by it.
  \<^item> \<open>YMarker\<close> (\<open>AbstractType.js\<close>): the walk from the nearest search marker to an index.
  \<^item> \<open>YRelPos\<close> (\<open>RelativePosition.js\<close>): positions from indices and back.
  \<^item> \<open>YDoc\<close>, \<open>YAnchor\<close>: the operations as the program calls them, each in a transaction, and two
    contracts as locales: \<open>text_api\<close> and \<open>transactional_text\<close> (the document is a string and edits act on
    it) and \<open>anchored_text\<close> (a character that is kept moves as its index does). Both are shown of the
    model for any cache of search markers (\<open>marker_cache\<close>) and instantiated with two caches.
  \<^item> \<open>PositionUtils\<close> (\<open>positionUtils.js\<close>): encoded ranges and the test whether a proposal is stale.
  \<^item> \<open>FrontLanding\<close> (\<open>Landing.jsx\<close>, \<open>App.jsx\<close>), \<open>FrontOutput\<close> (\<open>OutputPanel.jsx\<close>), \<open>FrontSidebar\<close>
    (\<open>Sidebar.jsx\<close>), \<open>FrontIDE\<close> (\<open>IDE.jsx\<close>), \<open>FrontPanels\<close> (\<open>EditorPane.jsx\<close>, \<open>MiniEditor.jsx\<close>,
    \<open>ShareModal.jsx\<close>): a record for the state of a component, a function for each handler and for what
    it renders; \<open>FrontTypes\<close> has the messages. An asynchronous handler is two functions, before and
    after its reply. \<open>ide_step\<close> is what a page can do, step by step.
  \<^item> \<open>CollabWS\<close>, \<open>CollabSafety\<close> (\<open>useCollabWS.js\<close>): the sockets of the hook, one step per event, and
    what holds in all runs.
  \<^item> \<open>YAwareness\<close> (\<open>y-protocols/awareness.js\<close>): who is there, the states and clocks of the clients and
    the updates about them; \<open>CollabAwareness\<close> puts them in the place of the hook's parameter.
  \<^item> \<open>YIntegrate\<close> (\<open>Item.getMissing\<close>, \<open>Item.integrate\<close>), \<open>YConverge\<close>, \<open>YTyping\<close> (\<open>Item.write\<close>): items
    that come from other replicas, their conflicts, and insertions that were made at the same time.
  \<^item> \<open>YUpdate\<close>, \<open>YUpdateSpec\<close> (\<open>utils/encoding.js\<close>, \<open>Item.write\<close>, \<open>DeleteSet.js\<close>): the binary form of state
    vectors and updates, and what is in the answer to a state vector. \<open>YApply\<close> (\<open>readUpdate\<close>,
    \<open>integrateStructs\<close>, \<open>readAndApplyDeleteSet\<close>), \<open>YRemote\<close>, \<open>YApplySpec\<close>, \<open>YMerge\<close>: applying an update: its
    structs in an order in which each finds what it refers to, its deletions, and the document that results.
  \<^item> \<open>ServerState\<close> (\<open>server.go\<close>, \<open>commands.go\<close>, \<open>session.go\<close>), \<open>ServerHub\<close> (\<open>hub.go\<close>),
    \<open>ServerHandlers\<close> (\<open>handlers.go\<close>): the sessions and the commands on them, the connections with their
    queues, and the handlers as steps of one server; a send on a closed channel, which panics, is the
    result \<open>None\<close>. A connection may be lost at any time (\<open>Lost\<close>): writing to it then fails, which ends its
    pump. \<open>ServerFrame\<close> has what the handlers leave alone, as a contract of relations between hubs
    (\<open>hub_relation\<close>), \<open>ServerSafety\<close> and \<open>ServerRoles\<close> what holds in all runs and what does not,
    \<open>Delivery\<close> the way of an edit from a page over the server to other pages.
  \<^item> \<open>Rsm\<close>, \<open>RsmSpec\<close> (\<open>src/rsm/rsm.go\<close>): the replicated state machine, with the steps of \<open>Submit\<close>, the
    reader and the leader check in any order; the contract of the state machine (\<open>restorable\<close>: a snapshot
    restores its state) is a locale, interpreted on the server's sessions.
  \<^item> \<open>Raft\<close> (\<open>src/raft/raft.go\<close>): the state of a peer, the handlers of its calls and of their replies, the
    steps of its goroutines; \<open>RaftCluster\<close>: peers that call each other over a network that loses, delays
    and reorders, and crash; \<open>RaftSafety\<close>, \<open>RaftLog\<close>: its votes, leaders and logs. \<open>DiskPersister\<close>
    (\<open>diskpersister.go\<close>): the files a peer keeps, saves that are interrupted, and starting again.
  \<^item> \<open>Proposals\<close>: the relay of the server (\<open>handleProposalMsg\<close> in \<open>handlers.go\<close>) and the life of a
    proposal across all of it.

  \<^bold>\<open>What is shown.\<close> The codecs are inverse to each other and reject truncated input. Insertions and
  deletions, with search marker, splitting, integration, clean-up and merging, act on a text as on a
  string, and relative positions go where their character goes. A proposal accepted after edits
  elsewhere replaces exactly what was selected; one whose target has changed is marked as stale and
  only rejected; accepting returns for any strings. A page's state is consistent in every reachable
  state, and only editors change the document. The hook sends snapshots for an editor's own changes
  only and inserts the starter text at most once per mount; a client is cut off by a redirect, and by
  the late close of an older socket. Awareness states of replicas that received the same entries agree,
  and a user's state reaches the pages that get its message. Insertions that were made at the same time
  end as the same text everywhere, in whatever order they arrive. The answer to a state vector has, read back,
  exactly what its sender misses; who applies it has then what either had, and has deleted what either had
  deleted, whatever the items refer to. No run of the server panics; only
  editors change documents; an edit that is committed is kept and reaches the other pages whose connections hold. But roles are kept per user
  name and connection: an editor of one session can change the role of a user in another, and a
  connection that was replaced keeps its old one. Nodes to which the same log is delivered, by entries or
  by snapshots, have the same sessions; a submitted command that is answered with OK was executed; but
  a call whose command is executed too early can wait forever. In the cluster a term has one leader and
  logs match as long as no late reply sets a peer back; with one, a peer votes twice and a term can have two
  leaders, and an older call that comes late cuts off entries that the leader counts, so that a committed
  command can be lost. An interrupted save leaves each file whole, but may leave
  a snapshot that is older than the log.

  \<^bold>\<open>Loops and bounds.\<close> Recursion is structural or over a measure (the remaining bytes, the distance of
  the search bounds, the items left of a position), so no fuel is used. Loops that may not end are
  \<open>partial_function (option)\<close>: following redone items, and reading a terminated array, which runs on
  past the end of its input. So is the loop that integrates the structs of an update, which is shown to end
  (\<open>readUpdate_returns\<close>): what has not been taken and what waits on the stack becomes less; and so is
  \<open>readUpdate\<close>, which applies what waited in the store by calling itself. Variable-length integers are modelled up to \<open>MAX_SAFE_INTEGER\<close>, with the
  bit operations on 32 bits where the code has them.

  \<^bold>\<open>Parameters.\<close> What is outside the sources is an argument: the cache of search markers and the order
  of a \<open>Map\<close> (\<open>runtime\<close>), the case table of Unicode, random numbers and identifiers, the replies of the
  server, in \<open>CollabWS\<close> the replica, that is Yjs's encoding and applying of whole updates and the awareness
  states (\<open>replica_ops\<close>), in \<open>YAwareness\<close> the JSON writer and parser, in \<open>YUpdate\<close> the reader of contents that a
  text does not have, in \<open>YApply\<close> how waiting updates are encoded and merged (version 2, \<open>encoding_v2\<close>), and in
  \<open>DiskPersister\<close> the encoding of Raft's state. The theorems about documents assume that no deletion was undone by
  the undo manager (\<open>no_redone\<close>; \<open>accept_returns\<close> only that the links it leaves do not run in a circle), and
  edits that do not cut a surrogate pair, which Yjs replaces.

  \<^bold>\<open>Where a definition is not step for step the code.\<close> The pivot of \<open>findIndexSS\<close> is an exact quotient, where
  the code rounds a double: the probes may differ, the result does not. A handler of the server is one step,
  although it takes the locks of the hub and of the sessions one after the other. \<open>applier\<close> takes the snapshot's
  index and term in the step in which the code, after it has given up the lock, reads them. \<open>persist_to\<close>
  treats an empty snapshot as none.

  \<^bold>\<open>Not modelled.\<close> Of Yjs: formatting, nested types, maps and arrays, subdocuments, events and
  observers, version 2 of the update format, undo. Of the front end: styles and markup without logic, CodeMirror and its binding to the text. Of
  the server (Go): start-up and the network between nodes, and power failures (a process stops, but what it
  wrote stays). The timers of Raft have no state:
  an election may begin at any time. What Raft answers to the replicated state machine is a parameter of
  \<open>Rsm\<close>, not taken from \<open>RaftCluster\<close>.
\<close>

end
